(* ===== verification/Prelude.thy ===== *)
theory Prelude
  imports Main
begin

text \<open>
  The vocabulary every component shares: Go's 64-bit int, the few functions of Go's
  packages strings and sort that the program calls, and small facts on lists.

  Go's int and int64 are read as integers of HOL; every addition or multiplication whose result
  could leave the 64-bit range is written with i64, the two's complement wrap-around.
  Strings are lists of characters standing for bytes.  The white space of strings.TrimSpace and
  strings.Fields is ASCII white space: the two multi-byte spaces of Unicode that Go also
  trims do not occur in the C tokens the program looks at.
\<close>

section \<open>64-bit integers\<close>

named_theorems int64_simps \<open>removing the wrap-around where the result is in range\<close>

definition minInt64 :: int where "minInt64 = - (2 ^ 63)"
definition maxInt64 :: int where "maxInt64 = 2 ^ 63 - 1"

definition in64 :: "int \<Rightarrow> bool" where
  "in64 x \<longleftrightarrow> minInt64 \<le> x \<and> x \<le> maxInt64"

definition i64 :: "int \<Rightarrow> int" where
  "i64 x = (x + 2 ^ 63) mod 2 ^ 64 - 2 ^ 63"

lemma in64_i64 [simp]: "in64 (i64 x)"
proof -
  have "0 \<le> (x + 2 ^ 63) mod 2 ^ 64" and "(x + 2 ^ 63) mod 2 ^ 64 < 2 ^ 64"
    by (rule pos_mod_sign, simp) (rule pos_mod_bound, simp)
  then show ?thesis
    by (simp add: in64_def i64_def minInt64_def maxInt64_def)
qed

lemma i64_id [int64_simps]: "in64 x \<Longrightarrow> i64 x = x"
  by (simp add: in64_def i64_def minInt64_def maxInt64_def)

lemma i64_id_nonneg [int64_simps]: "0 \<le> x \<Longrightarrow> x < 2 ^ 63 \<Longrightarrow> i64 x = x"
  by (rule i64_id) (simp add: in64_def minInt64_def maxInt64_def)

lemma in64_nonneg: "0 \<le> x \<Longrightarrow> x < 2 ^ 63 \<Longrightarrow> in64 x"
  by (simp add: in64_def minInt64_def maxInt64_def)

text \<open>Go's integer division and remainder truncate towards zero.\<close>

definition go_quot :: "int \<Rightarrow> int \<Rightarrow> int" where
  "go_quot a b = sgn a * sgn b * (\<bar>a\<bar> div \<bar>b\<bar>)"

definition go_rem :: "int \<Rightarrow> int \<Rightarrow> int" where
  "go_rem a b = a - b * go_quot a b"

lemma go_rem_nonneg: "0 \<le> a \<Longrightarrow> 0 < b \<Longrightarrow> go_rem a b = a mod b"
  by (cases "a = 0") (simp_all add: go_rem_def go_quot_def minus_mult_div_eq_mod)

lemma go_quot_nonneg: "0 \<le> a \<Longrightarrow> 0 < b \<Longrightarrow> go_quot a b = a div b"
  by (cases "a = 0") (simp_all add: go_quot_def)


section \<open>Strings\<close>

named_theorems go_string_simps \<open>evaluation of the string functions on literals\<close>

definition HasPrefix :: "string \<Rightarrow> string \<Rightarrow> bool" where
  "HasPrefix s p \<longleftrightarrow> take (length p) s = p"

definition HasSuffix :: "string \<Rightarrow> string \<Rightarrow> bool" where
  "HasSuffix s p \<longleftrightarrow> HasPrefix (rev s) (rev p)"

definition TrimPrefix :: "string \<Rightarrow> string \<Rightarrow> string" where
  "TrimPrefix s p = (if HasPrefix s p then drop (length p) s else s)"

definition isSpace :: "char \<Rightarrow> bool" where
  "isSpace c \<longleftrightarrow> c = CHR '' '' \<or> c = CHR 0x09 \<or> c = CHR 0x0A \<or> c = CHR 0x0B
                  \<or> c = CHR 0x0C \<or> c = CHR 0x0D"

definition trimBy :: "(char \<Rightarrow> bool) \<Rightarrow> string \<Rightarrow> string" where
  "trimBy p s = rev (dropWhile p (rev (dropWhile p s)))"

definition TrimSpace :: "string \<Rightarrow> string" where
  "TrimSpace s = trimBy isSpace s"

definition TrimCutset :: "string \<Rightarrow> string \<Rightarrow> string" where
  "TrimCutset s cutset = trimBy (\<lambda>c. c \<in> set cutset) s"

definition isDigit :: "char \<Rightarrow> bool" where
  "isDigit c \<longleftrightarrow> 48 \<le> (of_char c :: nat) \<and> (of_char c :: nat) \<le> 57"

definition isLetter :: "char \<Rightarrow> bool" where
  "isLetter c \<longleftrightarrow> (97 \<le> (of_char c :: nat) \<and> (of_char c :: nat) \<le> 122)
                 \<or> (65 \<le> (of_char c :: nat) \<and> (of_char c :: nat) \<le> 90)"

lemma HasPrefix_append [simp]: "HasPrefix (p @ s) p"
  by (simp add: HasPrefix_def)

lemma HasPrefix_iff: "HasPrefix s p \<longleftrightarrow> (\<exists>r. s = p @ r)"
  by (metis HasPrefix_append HasPrefix_def append_take_drop_id)

lemma HasSuffix_iff: "HasSuffix s p \<longleftrightarrow> (\<exists>r. s = r @ p)"
  by (metis HasPrefix_iff HasSuffix_def rev_append rev_rev_ident)

lemma TrimPrefix_append [simp]: "TrimPrefix (p @ s) p = s"
  by (simp add: TrimPrefix_def)

lemma trimBy_id:
  assumes "s \<noteq> [] \<Longrightarrow> \<not> p (hd s) \<and> \<not> p (last s)"
  shows "trimBy p s = s"
proof (cases "s = []")
  case True
  then show ?thesis by (simp add: trimBy_def)
next
  case False
  with assms have "dropWhile p s = s" and "dropWhile p (rev s) = rev s"
    by (simp_all add: dropWhile_eq_self_iff hd_rev)
  then show ?thesis by (simp add: trimBy_def)
qed

lemma trimBy_idem [simp]: "trimBy p (trimBy p s) = trimBy p s"
proof (rule trimBy_id)
  assume ne: "trimBy p s \<noteq> []"
  let ?u = "dropWhile p s"
  have t: "trimBy p s = rev (dropWhile p (rev ?u))" by (simp add: trimBy_def)
  with ne have ne2: "dropWhile p (rev ?u) \<noteq> []" by simp
  then have l: "\<not> p (last (trimBy p s))"
    by (simp add: t last_rev hd_dropWhile)
  obtain zs where zs: "rev ?u = zs @ dropWhile p (rev ?u)"
    by (metis takeWhile_dropWhile_id)
  then have "?u = trimBy p s @ rev zs" by (metis t rev_append rev_rev_ident)
  with ne have "hd (trimBy p s) = hd ?u" and "?u \<noteq> []" by auto
  then have "\<not> p (hd (trimBy p s))" by (simp add: hd_dropWhile)
  with l show "\<not> p (hd (trimBy p s)) \<and> \<not> p (last (trimBy p s))" by blast
qed

text \<open>A byte string without white space is not changed by TrimSpace.\<close>

lemma TrimSpace_id: "(\<And>c. c \<in> set s \<Longrightarrow> \<not> isSpace c) \<Longrightarrow> TrimSpace s = s"
  by (auto simp: TrimSpace_def intro!: trimBy_id)

lemma set_trimBy: "set (trimBy p s) \<subseteq> set s"
proof
  fix c
  assume "c \<in> set (trimBy p s)"
  then have "c \<in> set (dropWhile p s)" by (auto simp: trimBy_def dest: set_dropWhileD)
  then show "c \<in> set s" by (rule set_dropWhileD)
qed

lemma length_trimBy: "length (trimBy p s) \<le> length s"
proof -
  have "length (dropWhile p (rev (dropWhile p s))) \<le> length (dropWhile p s)"
    by (metis length_dropWhile_le length_rev)
  also have "\<dots> \<le> length s" by (rule length_dropWhile_le)
  finally show ?thesis by (simp add: trimBy_def)
qed


section \<open>Lists\<close>

definition go_contains :: "'a list \<Rightarrow> 'a \<Rightarrow> bool" where
  "go_contains xs x \<longleftrightarrow> x \<in> set xs"

lemma nth_append_last [simp]: "(xs @ [x]) ! length xs = x"
  by simp

lemma sorted_nth_less:
  assumes "sorted_wrt P xs" "i < j" "j < length xs"
  shows "P (xs ! i) (xs ! j)"
  using assms by (simp add: sorted_wrt_iff_nth_less)

lemma length_filter_upd:
  assumes "i < length xs"
  shows "int (length (filter P (xs[i := x])))
         = int (length (filter P xs)) - (if P (xs ! i) then 1 else 0) + (if P x then 1 else 0)"
  using assms
proof (induction xs arbitrary: i)
  case (Cons a xs)
  show ?case
  proof (cases i)
    case (Suc j)
    with Cons.IH [of j] Cons.prems show ?thesis by (auto split: if_splits)
  qed simp
qed simp


text \<open>A fold keeps what each of its steps keeps.\<close>

lemma fold_keeps_set: "P x \<Longrightarrow> (\<And>a b. a \<in> set xs \<Longrightarrow> P b \<Longrightarrow> P (f a b)) \<Longrightarrow> P (fold f xs x)"
  by (induction xs arbitrary: x) auto


section \<open>Numbers as text\<close>

fun digitsOf :: "nat \<Rightarrow> string" where
  "digitsOf n = (if n < 10 then [char_of (48 + n)] else digitsOf (n div 10) @ [char_of (48 + n mod 10)])"

declare digitsOf.simps [simp del]

definition formatInt :: "int \<Rightarrow> string" where
  "formatInt x = (if x < 0 then CHR ''-'' # digitsOf (nat (- x)) else digitsOf (nat x))"

lemma isDigit_digit: "n < (10 :: nat) \<Longrightarrow> isDigit (char_of (48 + n))"
  by (simp add: isDigit_def of_char_of)

lemma digitsOf_digits: "\<forall>c \<in> set (digitsOf n). isDigit c"
proof (induction n rule: digitsOf.induct)
  case (1 n)
  then show ?case by (cases "n < 10") (auto simp: digitsOf.simps [of n] isDigit_digit)
qed

lemma digitsOf_nonempty: "digitsOf n \<noteq> []"
  by (simp add: digitsOf.simps [of n])

definition digitsNat :: "string \<Rightarrow> nat" where
  "digitsNat s = foldl (\<lambda>n c. 10 * n + (of_char c - 48)) 0 s"

lemma digitsNat_digitsOf: "digitsNat (digitsOf n) = n"
proof (induction n rule: digitsOf.induct)
  case (1 n)
  then show ?case
    by (cases "n < 10") (simp_all add: digitsOf.simps [of n] digitsNat_def of_char_of)
qed

lemma formatInt_chars: "c \<in> set (formatInt x) \<Longrightarrow> isDigit c \<or> c = CHR ''-''"
  using digitsOf_digits by (auto simp: formatInt_def split: if_splits)

lemma formatInt_inj: "formatInt x = formatInt y \<longleftrightarrow> x = y"
proof
  have neg: "\<not> isDigit (CHR ''-'')" by (simp add: isDigit_def)
  have nat_eq: "digitsOf a = digitsOf b \<Longrightarrow> a = b" for a b by (metis digitsNat_digitsOf)
  have diff: "digitsOf a \<noteq> CHR ''-'' # cs" for a cs using digitsOf_digits [of a] neg by auto
  assume "formatInt x = formatInt y"
  then show "x = y" using nat_eq diff diff [symmetric] by (fastforce simp: formatInt_def split: if_splits)
qed simp

text \<open>Two texts that end at the first occurrence of the same separator.\<close>

lemma sep_split:
  assumes "a @ c # x = b @ c # y" "c \<notin> set a" "c \<notin> set b"
  shows "a = b \<and> x = y"
  using assms by (induction a arbitrary: b) (auto simp: Cons_eq_append_conv append_eq_Cons_conv)


section \<open>Texts\<close>

definition strContains :: "string \<Rightarrow> string \<Rightarrow> bool" where
  "strContains s sub = list_ex (\<lambda>i. HasPrefix (drop i s) sub) [0..<Suc (length s)]"

definition lowerChar :: "char \<Rightarrow> char" where
  "lowerChar c = (if 65 \<le> (of_char c :: nat) \<and> (of_char c :: nat) \<le> 90 then char_of ((of_char c :: nat) + 32) else c)"

text \<open>strings.ToLower on ASCII.\<close>

definition ToLower :: "string \<Rightarrow> string" where
  "ToLower s = map lowerChar s"

text \<open>strconv.ParseInt with base 10, and strconv.Atoi.\<close>

definition ParseDecimal64 :: "string \<Rightarrow> int option" where
  "ParseDecimal64 s =
     (let neg = (s \<noteq> [] \<and> hd s = CHR ''-''); body = (if s \<noteq> [] \<and> (hd s = CHR ''-'' \<or> hd s = CHR ''+'') then tl s else s) in
      if body = [] \<or> (\<exists>c \<in> set body. \<not> isDigit c) then None
      else let n = int (digitsNat body) in
        if \<not> neg \<and> 2 ^ 63 \<le> n then None else if neg \<and> 2 ^ 63 < n then None else Some (if neg then - n else n))"

text \<open>strings.Split with a separator of one byte.\<close>

fun splitAcc :: "char \<Rightarrow> string \<Rightarrow> string \<Rightarrow> string list" where
  "splitAcc sep acc [] = [acc]"
| "splitAcc sep acc (c # cs) = (if c = sep then acc # splitAcc sep [] cs else splitAcc sep (acc @ [c]) cs)"

definition SplitByte :: "char \<Rightarrow> string \<Rightarrow> string list" where
  "SplitByte sep s = splitAcc sep '''' s"

text \<open>strings.Join.\<close>

fun joinBy :: "string \<Rightarrow> string list \<Rightarrow> string" where
  "joinBy sep [] = ''''"
| "joinBy sep [x] = x"
| "joinBy sep (x # y # xs) = x @ sep @ joinBy sep (y # xs)"

text \<open>strings.Fields.\<close>

fun fieldsFrom :: "string \<Rightarrow> string \<Rightarrow> string list" where
  "fieldsFrom acc [] = (if acc = '''' then [] else [acc])"
| "fieldsFrom acc (c # cs) = (if isSpace c then (if acc = '''' then [] else [acc]) @ fieldsFrom '''' cs else fieldsFrom (acc @ [c]) cs)"

definition Fields :: "string \<Rightarrow> string list" where
  "Fields s = fieldsFrom '''' s"

end
