(* ===== verification/Type_Layout.thy ===== *)
theory Type_Layout
  imports Prelude
begin

text \<open>
  The data-layout engine of internal/typeinfo (abi.go, layout.go, provenance.go): the table of
  primitive types per ABI, the size and alignment of one field, and the layouts of structs,
  unions, arrays and pointers.  The resolver of nested types is a callback that the caller
  supplies and that may update the caller's state, so it takes and returns a state; the locale
  layout_resolver states what the engine relies on it for.  A field whose size or alignment is
  unknown is None, the Go functions' ok = false.
\<close>

section \<open>ABI tables\<close>

type_synonym ABI = string

definition ABILP64 :: ABI where "ABILP64 = ''lp64''"
definition ABIILP32 :: ABI where "ABIILP32 = ''ilp32''"
definition ABILLP64 :: ABI where "ABILLP64 = ''llp64''"

record abiEntry =
  bits :: int
  align :: int
  signed :: bool

definition abi_entry :: "int \<times> int \<times> bool \<Rightarrow> abiEntry" where
  "abi_entry t = (case t of (b, a, s) \<Rightarrow> \<lparr>bits = b, align = a, signed = s\<rparr>)"

text \<open>Each row: spelling, then the entries under LP64, ILP32 and LLP64.\<close>

definition primitiveTable :: "(string \<times> (int \<times> int \<times> bool) \<times> (int \<times> int \<times> bool) \<times> (int \<times> int \<times> bool)) list" where
  "primitiveTable = [
    (''char'',               (8, 1, True), (8, 1, True), (8, 1, True)),
    (''signed char'',        (8, 1, True), (8, 1, True), (8, 1, True)),
    (''unsigned char'',      (8, 1, False), (8, 1, False), (8, 1, False)),
    (''_Bool'',              (8, 1, False), (8, 1, False), (8, 1, False)),
    (''bool'',               (8, 1, False), (8, 1, False), (8, 1, False)),
    (''short'',              (16, 2, True), (16, 2, True), (16, 2, True)),
    (''signed short'',       (16, 2, True), (16, 2, True), (16, 2, True)),
    (''unsigned short'',     (16, 2, False), (16, 2, False), (16, 2, False)),
    (''short int'',          (16, 2, True), (16, 2, True), (16, 2, True)),
    (''int'',                (32, 4, True), (32, 4, True), (32, 4, True)),
    (''signed'',             (32, 4, True), (32, 4, True), (32, 4, True)),
    (''signed int'',         (32, 4, True), (32, 4, True), (32, 4, True)),
    (''unsigned'',           (32, 4, False), (32, 4, False), (32, 4, False)),
    (''unsigned int'',       (32, 4, False), (32, 4, False), (32, 4, False)),
    (''long'',               (64, 8, True), (32, 4, True), (32, 4, True)),
    (''signed long'',        (64, 8, True), (32, 4, True), (32, 4, True)),
    (''unsigned long'',      (64, 8, False), (32, 4, False), (32, 4, False)),
    (''long int'',           (64, 8, True), (32, 4, True), (32, 4, True)),
    (''unsigned long int'',  (64, 8, False), (32, 4, False), (32, 4, False)),
    (''long long'',          (64, 8, True), (64, 8, True), (64, 8, True)),
    (''signed long long'',   (64, 8, True), (64, 8, True), (64, 8, True)),
    (''unsigned long long'', (64, 8, False), (64, 8, False), (64, 8, False)),
    (''float'',              (32, 4, True), (32, 4, True), (32, 4, True)),
    (''double'',             (64, 8, True), (64, 8, True), (64, 8, True)),
    (''long double'',        (128, 16, True), (128, 16, True), (128, 16, True)),
    (''size_t'',             (64, 8, False), (32, 4, False), (64, 8, False)),
    (''ssize_t'',            (64, 8, True), (32, 4, True), (64, 8, True)),
    (''ptrdiff_t'',          (64, 8, True), (32, 4, True), (64, 8, True)),
    (''intptr_t'',           (64, 8, True), (32, 4, True), (64, 8, True)),
    (''uintptr_t'',          (64, 8, False), (32, 4, False), (64, 8, False)),
    (''intmax_t'',           (64, 8, True), (64, 8, True), (64, 8, True)),
    (''uintmax_t'',          (64, 8, False), (64, 8, False), (64, 8, False))]"

definition fixedWidthTypes :: "(string \<times> (int \<times> int \<times> bool)) list" where
  "fixedWidthTypes = [
    (''int8_t'', (8, 1, True)), (''uint8_t'', (8, 1, False)),
    (''int16_t'', (16, 2, True)), (''uint16_t'', (16, 2, False)),
    (''int32_t'', (32, 4, True)), (''uint32_t'', (32, 4, False)),
    (''int64_t'', (64, 8, True)), (''uint64_t'', (64, 8, False))]"

definition primitiveLookup :: "string \<Rightarrow> ABI \<Rightarrow> abiEntry option" where
  "primitiveLookup name abi =
     (case map_of primitiveTable name of
        None \<Rightarrow> None
      | Some (l64, i32, ll64) \<Rightarrow>
          if abi = ABILP64 then Some (abi_entry l64)
          else if abi = ABIILP32 then Some (abi_entry i32)
          else if abi = ABILLP64 then Some (abi_entry ll64)
          else None)"

definition abiLookup :: "ABI \<Rightarrow> string \<Rightarrow> abiEntry option" where
  "abiLookup abi name =
     (case map_of fixedWidthTypes name of
        Some e \<Rightarrow> Some (abi_entry e)
      | None \<Rightarrow> primitiveLookup name abi)"

definition pointerWidth :: "ABI \<Rightarrow> int" where
  "pointerWidth abi = (if abi = ABIILP32 then 32 else 64)"

definition PrimitiveBits :: "ABI \<Rightarrow> string \<Rightarrow> int option" where
  "PrimitiveBits abi name = map_option bits (abiLookup abi name)"

definition PrimitiveAlign :: "ABI \<Rightarrow> string \<Rightarrow> int option" where
  "PrimitiveAlign abi name = map_option align (abiLookup abi name)"

definition PrimitiveSignedness :: "ABI \<Rightarrow> string \<Rightarrow> bool option" where
  "PrimitiveSignedness abi name = map_option signed (abiLookup abi name)"

definition IsFloat :: "string \<Rightarrow> bool" where
  "IsFloat name \<longleftrightarrow> name = ''float'' \<or> name = ''double'' \<or> name = ''long double''"

definition IsPointerSpelling :: "string \<Rightarrow> bool" where
  "IsPointerSpelling spelling \<longleftrightarrow> 0 < length spelling \<and> spelling ! (length spelling - 1) = CHR ''*''"

definition PointerBits :: "ABI \<Rightarrow> int" where
  "PointerBits abi = pointerWidth abi"

definition PointerAlign :: "ABI \<Rightarrow> int" where
  "PointerAlign abi = go_quot (pointerWidth abi) 8"

definition NormalizeABI :: "string \<Rightarrow> ABI" where
  "NormalizeABI s = (if s = ABILP64 \<or> s = ABIILP32 \<or> s = ABILLP64 then s else ABILP64)"


section \<open>Provenance\<close>

definition ProvenanceCompilerProven :: string where
  "ProvenanceCompilerProven = ''compiler_proven''"
definition ProvenanceDerivedFromFullConfig :: string where
  "ProvenanceDerivedFromFullConfig = ''derived_from_complete_config''"
definition ProvenanceAssumedDefaultABI :: string where
  "ProvenanceAssumedDefaultABI = ''assumed_default_abi''"
definition ProvenanceUnknown :: string where
  "ProvenanceUnknown = ''unknown''"

definition provenanceCanConfirm :: "string \<Rightarrow> bool" where
  "provenanceCanConfirm p \<longleftrightarrow> p = ProvenanceCompilerProven \<or> p = ProvenanceDerivedFromFullConfig"


section \<open>Fields and layouts\<close>

record LayoutKey =
  keyTU :: string
  keyConfig :: string
  keyType :: string

record FieldSpec =
  fsName :: string
  fsTypeSpelling :: string
  fsIsPointer :: bool
  fsIsArray :: bool
  fsArrayCount :: int
  fsIsStruct :: bool
  fsIsUnion :: bool
  fsBitWidth :: int
  fsPack :: int
  fsAlignAttr :: int

record FieldLayout =
  flName :: string
  flOffset :: int
  flSize :: int
  flAlign :: int
  flArrayCount :: int
  flBitWidth :: int
  flIsPointer :: bool
  flIsArray :: bool

record TypeLayout =
  tlKey :: LayoutKey
  tlName :: string
  tlSize :: int
  tlAlign :: int
  tlKind :: string
  tlFields :: "FieldLayout list"
  tlProvenance :: string
  tlSource :: string
  tlUnknown :: string

text \<open>The resolver callback: None for Go's nil function; a call may update the caller's state.\<close>

type_synonym 's LayoutResolver = "(string \<Rightarrow> 's \<Rightarrow> TypeLayout option \<times> 's) option"

definition alignUp :: "int \<Rightarrow> int \<Rightarrow> int" where
  "alignUp offset algn =
     (if algn \<le> 0 then offset
      else let r = go_rem offset algn
           in if r = 0 then offset else i64 (offset + algn - r))"

text \<open>The tail shared by the nested, primitive and typedef branches: array count, pack, attribute.\<close>

definition arrayScale :: "FieldSpec \<Rightarrow> int \<Rightarrow> int" where
  "arrayScale fs sz =
     (if fsIsArray fs \<and> 0 < fsArrayCount fs then i64 (sz * fsArrayCount fs) else sz)"

definition packAlign :: "FieldSpec \<Rightarrow> int \<Rightarrow> int" where
  "packAlign fs a =
     (let a1 = (if 0 < fsPack fs \<and> fsPack fs < a then fsPack fs else a)
      in if 0 < fsAlignAttr fs then fsAlignAttr fs else a1)"

function fieldSizeAlign ::
  "ABI \<Rightarrow> FieldSpec \<Rightarrow> 's LayoutResolver \<Rightarrow> 's \<Rightarrow> (int \<times> int) option \<times> 's" where
  "fieldSizeAlign abi fs resolve s =
     (if 0 < fsBitWidth fs then (None, s)
      else if fsIsArray fs \<and> fsArrayCount fs \<le> 0 then
        (case fieldSizeAlign abi (fs\<lparr>fsIsArray := False, fsArrayCount := 0\<rparr>) resolve s of
           (None, s') \<Rightarrow> (None, s')
         | (Some (_, elemAlign), s') \<Rightarrow> (Some (0, elemAlign), s'))
      else if fsIsPointer fs \<or> IsPointerSpelling (fsTypeSpelling fs) then
        (Some (arrayScale fs (go_quot (PointerBits abi) 8),
               if 0 < fsAlignAttr fs then fsAlignAttr fs else PointerAlign abi), s)
      else if fsIsStruct fs \<or> fsIsUnion fs then
        (case resolve of
           None \<Rightarrow> (None, s)
         | Some r \<Rightarrow>
             (case r (fsTypeSpelling fs) s of
                (None, s') \<Rightarrow> (None, s')
              | (Some inner, s') \<Rightarrow>
                  if tlUnknown inner \<noteq> '''' then (None, s')
                  else (Some (arrayScale fs (tlSize inner), packAlign fs (tlAlign inner)), s')))
      else
        (let spelling = TrimSpace (fsTypeSpelling fs)
         in case PrimitiveBits abi spelling of
              Some b \<Rightarrow>
                (let sz = go_quot b 8;
                     a = (case PrimitiveAlign abi spelling of Some a \<Rightarrow> a | None \<Rightarrow> sz)
                 in (Some (arrayScale fs sz, packAlign fs a), s))
            | None \<Rightarrow>
                (case resolve of
                   None \<Rightarrow> (None, s)
                 | Some r \<Rightarrow>
                     (case r spelling s of
                        (None, s') \<Rightarrow> (None, s')
                      | (Some inner, s') \<Rightarrow>
                          if tlUnknown inner = '''' then
                            (Some (arrayScale fs (tlSize inner), packAlign fs (tlAlign inner)), s')
                          else (None, s')))))"
  by pat_completeness auto
termination
  by (relation "measure (\<lambda>(abi, fs, resolve, s). if fsIsArray fs then 1 else 0)") auto

declare fieldSizeAlign.simps [simp del]

definition effectiveAlign :: "int \<Rightarrow> FieldSpec \<Rightarrow> int \<Rightarrow> int" where
  "effectiveAlign pack fs a =
     (let e1 = (if 0 < pack \<and> pack < a then pack else a)
      in if 0 < fsPack fs \<and> fsPack fs < e1 then fsPack fs else e1)"

definition fieldLayoutOf :: "FieldSpec \<Rightarrow> int \<Rightarrow> int \<Rightarrow> int \<Rightarrow> FieldLayout" where
  "fieldLayoutOf fs off sz a =
     \<lparr>flName = fsName fs, flOffset = off, flSize = sz, flAlign = a,
      flArrayCount = fsArrayCount fs, flBitWidth = fsBitWidth fs,
      flIsPointer = (fsIsPointer fs \<or> IsPointerSpelling (fsTypeSpelling fs)),
      flIsArray = fsIsArray fs\<rparr>"

definition emptyLayout :: "LayoutKey \<Rightarrow> string \<Rightarrow> TypeLayout" where
  "emptyLayout key kind =
     \<lparr>tlKey = key, tlName = keyType key, tlSize = 0, tlAlign = 0, tlKind = kind, tlFields = [],
      tlProvenance = '''', tlSource = '''', tlUnknown = ''''\<rparr>"

definition unresolvable :: "FieldSpec \<Rightarrow> string" where
  "unresolvable fs = ''unresolvable field: '' @ fsName fs @ '' ('' @ fsTypeSpelling fs @ '')''"

text \<open>The loop of LayoutStruct: Inl at the first field that cannot be resolved, with the fields
  placed before it, which the returned layout still carries.\<close>

fun structLoop ::
  "ABI \<Rightarrow> int \<Rightarrow> 's LayoutResolver \<Rightarrow> FieldSpec list \<Rightarrow> int \<Rightarrow> int \<Rightarrow> FieldLayout list \<Rightarrow> 's
     \<Rightarrow> (FieldSpec \<times> FieldLayout list + int \<times> int \<times> FieldLayout list) \<times> 's" where
  "structLoop abi pack resolve [] offset structAlign acc s = (Inr (offset, structAlign, acc), s)"
| "structLoop abi pack resolve (fs # rest) offset structAlign acc s =
     (case fieldSizeAlign abi fs resolve s of
        (None, s') \<Rightarrow> (Inl (fs, acc), s')
      | (Some (sz, a), s') \<Rightarrow>
          (let e = effectiveAlign pack fs a;
               off = alignUp offset e
           in structLoop abi pack resolve rest (i64 (off + sz))
                (if structAlign < e then e else structAlign)
                (acc @ [fieldLayoutOf fs off sz a]) s'))"

definition LayoutStruct ::
  "ABI \<Rightarrow> LayoutKey \<Rightarrow> FieldSpec list \<Rightarrow> int \<Rightarrow> 's LayoutResolver \<Rightarrow> 's \<Rightarrow> TypeLayout \<times> 's" where
  "LayoutStruct abi key fds pack resolve s =
     (let tl = emptyLayout key ''struct''
      in if fds = [] then (tl\<lparr>tlUnknown := ''no fields''\<rparr>, s)
         else case structLoop abi pack resolve fds 0 1 [] s of
                (Inl (fs, acc), s') \<Rightarrow> (tl\<lparr>tlFields := acc, tlUnknown := unresolvable fs\<rparr>, s')
              | (Inr (offset, structAlign, acc), s') \<Rightarrow>
                  (tl\<lparr>tlFields := acc, tlAlign := structAlign, tlSize := alignUp offset structAlign\<rparr>, s'))"

fun unionLoop ::
  "ABI \<Rightarrow> 's LayoutResolver \<Rightarrow> FieldSpec list \<Rightarrow> int \<Rightarrow> int \<Rightarrow> FieldLayout list \<Rightarrow> 's
     \<Rightarrow> (FieldSpec \<times> FieldLayout list + int \<times> int \<times> FieldLayout list) \<times> 's" where
  "unionLoop abi resolve [] maxSize maxAlign acc s = (Inr (maxSize, maxAlign, acc), s)"
| "unionLoop abi resolve (fs # rest) maxSize maxAlign acc s =
     (case fieldSizeAlign abi fs resolve s of
        (None, s') \<Rightarrow> (Inl (fs, acc), s')
      | (Some (sz, a), s') \<Rightarrow>
          unionLoop abi resolve rest (if maxSize < sz then sz else maxSize)
            (if maxAlign < a then a else maxAlign) (acc @ [fieldLayoutOf fs 0 sz a]) s')"

definition LayoutUnion ::
  "ABI \<Rightarrow> LayoutKey \<Rightarrow> FieldSpec list \<Rightarrow> 's LayoutResolver \<Rightarrow> 's \<Rightarrow> TypeLayout \<times> 's" where
  "LayoutUnion abi key fds resolve s =
     (let tl = emptyLayout key ''union''
      in if fds = [] then (tl\<lparr>tlUnknown := ''no fields''\<rparr>, s)
         else case unionLoop abi resolve fds 0 1 [] s of
                (Inl (fs, acc), s') \<Rightarrow> (tl\<lparr>tlFields := acc, tlUnknown := unresolvable fs\<rparr>, s')
              | (Inr (maxSize, maxAlign, acc), s') \<Rightarrow>
                  (tl\<lparr>tlFields := acc, tlSize := alignUp maxSize maxAlign, tlAlign := maxAlign\<rparr>, s'))"

definition LayoutPointer :: "ABI \<Rightarrow> LayoutKey \<Rightarrow> TypeLayout" where
  "LayoutPointer abi key =
     (emptyLayout key ''pointer'')\<lparr>tlSize := go_quot (PointerBits abi) 8, tlAlign := PointerAlign abi\<rparr>"

definition elemSpec :: "string \<Rightarrow> FieldSpec" where
  "elemSpec spelling =
     \<lparr>fsName = '''', fsTypeSpelling = spelling, fsIsPointer = False, fsIsArray = False, fsArrayCount = 0,
      fsIsStruct = False, fsIsUnion = False, fsBitWidth = 0, fsPack = 0, fsAlignAttr = 0\<rparr>"

definition LayoutArray ::
  "ABI \<Rightarrow> LayoutKey \<Rightarrow> string \<Rightarrow> int \<Rightarrow> 's LayoutResolver \<Rightarrow> 's \<Rightarrow> TypeLayout \<times> 's" where
  "LayoutArray abi key elemSpelling count resolve s =
     (let tl = emptyLayout key ''array''
      in if count \<le> 0 then (tl\<lparr>tlUnknown := ''unknown array count''\<rparr>, s)
         else case fieldSizeAlign abi (elemSpec elemSpelling) resolve s of
                (None, s') \<Rightarrow> (tl\<lparr>tlUnknown := ''unknown element size: '' @ elemSpelling\<rparr>, s')
              | (Some (elemSize, elemAlign), s') \<Rightarrow>
                  (tl\<lparr>tlSize := i64 (elemSize * count), tlAlign := elemAlign\<rparr>, s'))"

definition IsUnknown :: "TypeLayout \<Rightarrow> bool" where
  "IsUnknown t \<longleftrightarrow> tlUnknown t \<noteq> ''''"

definition layoutCanConfirm :: "TypeLayout \<Rightarrow> bool" where
  "layoutCanConfirm t \<longleftrightarrow> provenanceCanConfirm (tlProvenance t) \<and> \<not> IsUnknown t \<and> 0 < tlSize t"

definition FieldByName :: "TypeLayout \<Rightarrow> string \<Rightarrow> FieldLayout option" where
  "FieldByName t name = find (\<lambda>f. flName f = name) (tlFields t)"


section \<open>Alignment\<close>

lemma alignUp_nonpos [simp]: "algn \<le> 0 \<Longrightarrow> alignUp offset algn = offset"
  by (simp add: alignUp_def)

lemma alignUp_eq:
  assumes "0 \<le> offset" "0 < algn" "offset + algn < 2 ^ 63"
  shows "alignUp offset algn = (if offset mod algn = 0 then offset else offset + algn - offset mod algn)"
proof -
  have "0 \<le> offset mod algn" "offset mod algn < algn" using assms by simp_all
  then have "i64 (offset + algn - offset mod algn) = offset + algn - offset mod algn"
    using assms by (intro i64_id_nonneg) linarith+
  then show ?thesis using assms by (simp add: alignUp_def go_rem_nonneg Let_def)
qed

lemma alignUp_bounds:
  assumes "0 \<le> offset" "0 < algn" "offset + algn < 2 ^ 63"
  shows alignUp_ge: "offset \<le> alignUp offset algn"
    and alignUp_less: "alignUp offset algn < offset + algn"
    and alignUp_dvd: "algn dvd alignUp offset algn"
proof -
  have m: "0 \<le> offset mod algn" "offset mod algn < algn" using assms by simp_all
  have d: "algn dvd offset - offset mod algn" by (simp add: dvd_minus_mod)
  then have "algn dvd offset - offset mod algn + algn" by simp
  moreover have "offset - offset mod algn + algn = offset + algn - offset mod algn" by simp
  ultimately have d': "algn dvd offset + algn - offset mod algn" by simp
  show "offset \<le> alignUp offset algn" "alignUp offset algn < offset + algn"
    using alignUp_eq [OF assms] m by (auto split: if_splits)
  show "algn dvd alignUp offset algn"
    using alignUp_eq [OF assms] d' by (auto simp: mod_eq_0_iff_dvd split: if_splits)
qed

section \<open>The resolver contract\<close>

text \<open>
  A usable layout has a positive alignment that divides its non-negative size, the rule C
  imposes on every complete object type.
\<close>

definition wf_layout :: "TypeLayout \<Rightarrow> bool" where
  "wf_layout t \<longleftrightarrow> 0 \<le> tlSize t \<and> 0 < tlAlign t \<and> tlAlign t dvd tlSize t"

text \<open>The primitive tables: every entry has a positive alignment and a positive whole-byte width.\<close>

definition wf_entry :: "abiEntry \<Rightarrow> bool" where
  "wf_entry e \<longleftrightarrow> 0 < align e \<and> 0 < go_quot (bits e) 8 \<and> align e dvd go_quot (bits e) 8"

lemma primitiveTable_wf:
  "\<forall>(n, x, y, z) \<in> set primitiveTable. wf_entry (abi_entry x) \<and> wf_entry (abi_entry y) \<and> wf_entry (abi_entry z)"
  by (simp add: primitiveTable_def wf_entry_def abi_entry_def go_quot_nonneg)

lemma fixedWidthTypes_wf: "\<forall>(n, x) \<in> set fixedWidthTypes. wf_entry (abi_entry x)"
  by (simp add: fixedWidthTypes_def wf_entry_def abi_entry_def go_quot_nonneg)

lemma abiLookup_wf: "abiLookup abi name = Some e \<Longrightarrow> wf_entry e"
  using primitiveTable_wf fixedWidthTypes_wf
  by (fastforce simp: abiLookup_def primitiveLookup_def dest!: map_of_SomeD
      split: option.splits if_splits)

lemma Primitive_wf:
  "PrimitiveBits abi name = Some b \<Longrightarrow>
     \<exists>a. PrimitiveAlign abi name = Some a \<and> 0 < a \<and> 0 < go_quot b 8 \<and> a dvd go_quot b 8"
  using abiLookup_wf [of abi name]
  by (auto simp: PrimitiveBits_def PrimitiveAlign_def wf_entry_def)

lemma Pointer_wf: "0 < PointerAlign abi" "go_quot (PointerBits abi) 8 = PointerAlign abi"
  by (auto simp: PointerAlign_def PointerBits_def pointerWidth_def go_quot_nonneg)

lemma packAlign_pos: "0 < a \<Longrightarrow> 0 < packAlign fs a"
  by (simp add: packAlign_def Let_def)

lemma effectiveAlign_bounds: "0 < a \<Longrightarrow> 0 < effectiveAlign pack fs a \<and> effectiveAlign pack fs a \<le> a"
  by (auto simp: effectiveAlign_def Let_def)

text \<open>
  What the layout engine relies on the callback for: a call keeps the caller's invariant, and a
  layout it returns as known has a positive alignment.  The lemmas carry both through the field
  and aggregate functions, so a resolver that is itself built from LayoutStruct and
  LayoutUnion meets the contract again.
\<close>

locale layout_resolver =
  fixes resolve :: "string \<Rightarrow> 's \<Rightarrow> TypeLayout option \<times> 's"
    and inv :: "'s \<Rightarrow> bool"
  assumes resolve_inv: "inv s \<Longrightarrow> resolve sp s = (r, s') \<Longrightarrow> inv s'"
    and resolve_align: "inv s \<Longrightarrow> resolve sp s = (Some l, s') \<Longrightarrow> tlUnknown l = '''' \<Longrightarrow> 0 < tlAlign l"
begin

lemma fieldSizeAlign_plain:
  assumes "inv s" and "fieldSizeAlign abi fs (Some resolve) s = (r, s')"
    and "\<not> (fsIsArray fs \<and> fsArrayCount fs \<le> 0)"
  shows "inv s' \<and> (\<forall>sz a. r = Some (sz, a) \<longrightarrow> 0 < a)"
  using assms
  by (auto simp: fieldSizeAlign.simps [of abi fs] Let_def Pointer_wf
      split: option.splits prod.splits if_splits
      intro!: packAlign_pos intro: resolve_inv
      dest: resolve_align [OF assms(1)] dest!: Primitive_wf)

lemma fieldSizeAlign_ok:
  assumes "inv s" and "fieldSizeAlign abi fs (Some resolve) s = (r, s')"
  shows "inv s' \<and> (\<forall>sz a. r = Some (sz, a) \<longrightarrow> 0 < a)"
proof (cases "fsIsArray fs \<and> fsArrayCount fs \<le> 0")
  case True
  let ?elem = "fs\<lparr>fsIsArray := False, fsArrayCount := 0\<rparr>"
  obtain r1 s1 where e: "fieldSizeAlign abi ?elem (Some resolve) s = (r1, s1)" by fastforce
  have "inv s1 \<and> (\<forall>sz a. r1 = Some (sz, a) \<longrightarrow> 0 < a)"
    by (rule fieldSizeAlign_plain [OF assms(1) e]) simp
  with True assms e show ?thesis
    by (auto simp: fieldSizeAlign.simps [of abi fs] split: option.splits prod.splits if_splits)
next
  case False
  with assms show ?thesis by (rule fieldSizeAlign_plain)
qed

end

section \<open>Placement of fields\<close>

text \<open>
  The extents of a layout fit when the sizes and alignments the field function computed are
  non-negative and their sum stays below 2^62, so that no offset wraps around.
\<close>

definition extent :: "FieldLayout \<Rightarrow> int" where
  "extent f = flSize f + flAlign f"

definition extents_fit :: "FieldLayout list \<Rightarrow> bool" where
  "extents_fit fs \<longleftrightarrow> (\<forall>f \<in> set fs. 0 \<le> flSize f \<and> 0 < flAlign f) \<and> sum_list (map extent fs) < 2 ^ 62"

lemma extents_fit_append:
  "extents_fit (xs @ ys) \<Longrightarrow> extents_fit xs"
proof -
  assume a: "extents_fit (xs @ ys)"
  then have "0 \<le> sum_list (map extent ys)"
    by (intro sum_list_nonneg) (auto simp: extents_fit_def extent_def intro: add_nonneg_nonneg less_imp_le)
  with a show ?thesis by (auto simp: extents_fit_def)
qed

lemma extents_fit_sum_nonneg: "extents_fit fs \<Longrightarrow> 0 \<le> sum_list (map extent fs)"
  by (intro sum_list_nonneg) (auto simp: extents_fit_def extent_def intro: add_nonneg_nonneg less_imp_le)

lemma extents_fit_snoc:
  "extents_fit (acc @ [f]) \<Longrightarrow>
     extents_fit acc \<and> 0 \<le> flSize f \<and> 0 < flAlign f \<and> 0 \<le> sum_list (map extent acc)"
  using extents_fit_append [of acc "[f]"] extents_fit_sum_nonneg [of acc]
  by (auto simp: extents_fit_def)

lemma fieldLayoutOf_sel [simp]:
  "flOffset (fieldLayoutOf fs off sz a) = off" "flSize (fieldLayoutOf fs off sz a) = sz"
  "flAlign (fieldLayoutOf fs off sz a) = a" "flName (fieldLayoutOf fs off sz a) = fsName fs"
  by (simp_all add: fieldLayoutOf_def)

text \<open>The fields placed so far are disjoint, in order, and end at or before the running offset.\<close>

definition fields_disjoint :: "FieldLayout list \<Rightarrow> bool" where
  "fields_disjoint fs \<longleftrightarrow> sorted_wrt (\<lambda>f g. flOffset f + flSize f \<le> flOffset g) fs"

definition within :: "int \<Rightarrow> FieldLayout list \<Rightarrow> bool" where
  "within n fs \<longleftrightarrow> (\<forall>f \<in> set fs. 0 \<le> flOffset f \<and> flOffset f + flSize f \<le> n)"

definition placed :: "FieldLayout list \<Rightarrow> int \<Rightarrow> int \<Rightarrow> bool" where
  "placed acc offset sa \<longleftrightarrow>
     fields_disjoint acc \<and> within offset acc \<and> 0 \<le> offset \<and> offset \<le> sum_list (map extent acc)
     \<and> 1 \<le> sa \<and> sa \<le> 1 + sum_list (map extent acc)"

lemma placed_init: "placed [] 0 1"
  by (simp add: placed_def fields_disjoint_def within_def)

lemma placed_step:
  assumes p: "placed acc offset sa"
    and fit: "extents_fit (acc @ [fieldLayoutOf fs (alignUp offset e) sz a])"
    and e: "0 < e" "e \<le> a"
  shows "placed (acc @ [fieldLayoutOf fs (alignUp offset e) sz a]) (i64 (alignUp offset e + sz))
           (if sa < e then e else sa)"
proof -
  let ?off = "alignUp offset e"
  have S: "sum_list (map extent acc) + sz + a < 2 ^ 62" and sz: "0 \<le> sz"
    using fit by (auto simp: extents_fit_def extent_def fieldLayoutOf_def)
  have o: "0 \<le> offset" "offset \<le> sum_list (map extent acc)" using p by (auto simp: placed_def)
  have lim: "offset + e < 2 ^ 63" using S o sz e by simp
  have b: "offset \<le> ?off" "?off < offset + e"
    using alignUp_bounds(1,2) [OF o(1) e(1) lim] by auto
  have w: "i64 (?off + sz) = ?off + sz"
    using b S o e sz by (intro i64_id_nonneg) auto
  have "within (?off + sz) (acc @ [fieldLayoutOf fs ?off sz a])"
    and "fields_disjoint (acc @ [fieldLayoutOf fs ?off sz a])"
    using p b o sz
    by (force simp: placed_def within_def fields_disjoint_def sorted_wrt_append fieldLayoutOf_def)+
  moreover have "0 \<le> ?off + sz" "?off + sz \<le> sum_list (map extent acc) + (sz + a)"
    using b o sz e by auto
  moreover have "1 \<le> (if sa < e then e else sa)"
    "(if sa < e then e else sa) \<le> 1 + (sum_list (map extent acc) + (sz + a))"
    using p e o sz by (auto simp: placed_def)
  ultimately show ?thesis
    by (simp add: placed_def w extent_def fieldLayoutOf_def)
qed

lemma structLoop_extends:
  "structLoop abi pack resolve fds offset sa acc s = (Inr (off', sa', acc'), s') \<Longrightarrow> \<exists>ys. acc' = acc @ ys"
  by (induction abi pack resolve fds offset sa acc s rule: structLoop.induct)
     (fastforce simp: Let_def split: option.splits prod.splits)+

lemma structLoop_placed:
  assumes "structLoop abi pack resolve fds offset sa acc s = (Inr (off', sa', acc'), s')"
    and "placed acc offset sa" and "extents_fit acc'"
  shows "placed acc' off' sa'"
  using assms
proof (induction abi pack resolve fds offset sa acc s rule: structLoop.induct)
  case (1 abi pack resolve offset sa acc s)
  then show ?case by simp
next
  case (2 abi pack resolve fs rest offset sa acc s)
  obtain sz a s1 where f: "fieldSizeAlign abi fs resolve s = (Some (sz, a), s1)"
    using "2.prems"(1) by (auto split: option.splits prod.splits)
  let ?e = "effectiveAlign pack fs a"
  let ?acc = "acc @ [fieldLayoutOf fs (alignUp offset ?e) sz a]"
  have rest: "structLoop abi pack resolve rest (i64 (alignUp offset ?e + sz))
      (if sa < ?e then ?e else sa) ?acc s1 = (Inr (off', sa', acc'), s')"
    using "2.prems"(1) f by (simp add: Let_def)
  then have fit: "extents_fit ?acc"
    using structLoop_extends [OF rest] extents_fit_append "2.prems"(3) by blast
  then have a: "0 < a" by (auto simp: extents_fit_def fieldLayoutOf_def)
  have "placed ?acc (i64 (alignUp offset ?e + sz)) (if sa < ?e then ?e else sa)"
    using effectiveAlign_bounds [OF a] by (intro placed_step "2.prems"(2) fit) auto
  then show ?case
    using "2.IH" [OF f [symmetric]] f rest "2.prems"(3) by (auto simp: Let_def)
qed

text \<open>What the placement gives for a whole struct.\<close>

definition struct_ok :: "TypeLayout \<Rightarrow> bool" where
  "struct_ok l \<longleftrightarrow> fields_disjoint (tlFields l) \<and> within (tlSize l) (tlFields l) \<and> wf_layout l"

lemma placed_alignUp:
  assumes "placed acc off sa" and "extents_fit acc"
  shows "off \<le> alignUp off sa" "sa dvd alignUp off sa" "0 \<le> off" "0 < sa"
proof -
  have "0 \<le> off" "0 < sa" "off + sa < 2 ^ 63"
    using assms by (auto simp: placed_def extents_fit_def)
  then show "off \<le> alignUp off sa" "sa dvd alignUp off sa" "0 \<le> off" "0 < sa"
    using alignUp_bounds by auto
qed

lemma LayoutStruct_known:
  assumes "LayoutStruct abi key fds pack resolve s = (l, s')" and "tlUnknown l = ''''"
  obtains off sa where "structLoop abi pack resolve fds 0 1 [] s = (Inr (off, sa, tlFields l), s')"
    and "tlAlign l = sa" and "tlSize l = alignUp off sa"
  using assms
  by (auto simp: LayoutStruct_def Let_def unresolvable_def emptyLayout_def
      split: if_splits sum.splits prod.splits)

lemma LayoutStruct_ok:
  assumes "LayoutStruct abi key fds pack resolve s = (l, s')" and "tlUnknown l = ''''"
    and fit: "extents_fit (tlFields l)"
  shows "struct_ok l"
proof -
  obtain off sa where loop: "structLoop abi pack resolve fds 0 1 [] s = (Inr (off, sa, tlFields l), s')"
    and l: "tlAlign l = sa" "tlSize l = alignUp off sa"
    using LayoutStruct_known [OF assms(1,2)] .
  have p: "placed (tlFields l) off sa" by (rule structLoop_placed [OF loop placed_init fit])
  note a = placed_alignUp [OF p fit]
  have "within (alignUp off sa) (tlFields l)"
    using p a(1) by (force simp: placed_def within_def)
  then show ?thesis
    using p a l by (auto simp: struct_ok_def wf_layout_def placed_def)
qed

section \<open>The C layout rule\<close>

text \<open>
  The rule the engine implements, on mathematical integers: every field starts at the least
  multiple of its effective alignment that is not below the end of its predecessor.
\<close>

definition c_align :: "int \<Rightarrow> int \<Rightarrow> int" where
  "c_align offset e = (offset + e - 1) div e * e"

fun c_offsets :: "int \<Rightarrow> (int \<times> int) list \<Rightarrow> int list" where
  "c_offsets offset [] = []"
| "c_offsets offset ((sz, e) # rest) = c_align offset e # c_offsets (c_align offset e + sz) rest"

fun c_end :: "int \<Rightarrow> (int \<times> int) list \<Rightarrow> int" where
  "c_end offset [] = offset"
| "c_end offset ((sz, e) # rest) = c_end (c_align offset e + sz) rest"

definition extents_of :: "int \<Rightarrow> FieldSpec list \<Rightarrow> FieldLayout list \<Rightarrow> (int \<times> int) list" where
  "extents_of pack fds fls = map2 (\<lambda>fs f. (flSize f, effectiveAlign pack fs (flAlign f))) fds fls"

text \<open>The result is the least multiple at or above the offset.\<close>

lemma c_align_least:
  assumes "0 < e"
  shows "e dvd c_align offset e" "offset \<le> c_align offset e" "e dvd m \<Longrightarrow> offset \<le> m \<Longrightarrow> c_align offset e \<le> m"
proof -
  show "e dvd c_align offset e" by (simp add: c_align_def)
  have "offset + e - 1 < ((offset + e - 1) div e + 1) * e"
    using assms by (metis add.commute div_mult_mod_eq distrib_right mult_1 add_strict_left_mono pos_mod_bound)
  then show "offset \<le> c_align offset e" by (simp add: c_align_def algebra_simps)
  assume "e dvd m" "offset \<le> m"
  then obtain k where m: "m = k * e" by (metis dvdE mult.commute)
  let ?q = "(offset + e - 1) div e"
  have "?q * e \<le> offset + e - 1"
    using assms by (metis div_mult_mod_eq le_add_same_cancel1 pos_mod_sign)
  also have "\<dots> < (k + 1) * e" using \<open>offset \<le> m\<close> m by (simp add: algebra_simps)
  finally have "?q < k + 1" using assms by simp
  then show "c_align offset e \<le> m"
    using assms by (simp add: c_align_def m)
qed

lemma alignUp_c_align:
  assumes "0 \<le> offset" "0 < e" "offset + e < 2 ^ 63"
  shows "alignUp offset e = c_align offset e"
proof (rule antisym)
  note b = alignUp_bounds [OF assms] and c = c_align_least(1,2) [OF assms(2), of offset]
  show *: "c_align offset e \<le> alignUp offset e"
    using b by (intro c_align_least(3) [OF assms(2)])
  have "\<bar>alignUp offset e - c_align offset e\<bar> < e" using b(1,2) c(2) * by auto
  moreover have "e dvd alignUp offset e - c_align offset e" using b(3) c(1) by (rule dvd_diff)
  ultimately show "alignUp offset e \<le> c_align offset e"
    by (metis abs_of_pos assms(2) dvd_imp_le_int eq_iff_diff_eq_0 linorder_not_le order.refl)
qed

lemma structLoop_refines:
  assumes "structLoop abi pack resolve fds offset sa acc s = (Inr (off', sa', acc @ fls), s')"
    and "placed acc offset sa" and "extents_fit (acc @ fls)"
  shows "map flName fls = map fsName fds \<and> map flOffset fls = c_offsets offset (extents_of pack fds fls)
         \<and> off' = c_end offset (extents_of pack fds fls) \<and> sa' = fold max (map snd (extents_of pack fds fls)) sa"
  using assms
proof (induction abi pack resolve fds offset sa acc s arbitrary: fls rule: structLoop.induct)
  case (1 abi pack resolve offset sa acc s)
  then show ?case by (simp add: extents_of_def)
next
  case (2 abi pack resolve fs rest offset sa acc s)
  obtain sz a s1 where f: "fieldSizeAlign abi fs resolve s = (Some (sz, a), s1)"
    using "2.prems"(1) by (auto split: option.splits prod.splits)
  let ?e = "effectiveAlign pack fs a"
  let ?fl = "fieldLayoutOf fs (alignUp offset ?e) sz a"
  have loop: "structLoop abi pack resolve rest (i64 (alignUp offset ?e + sz))
      (if sa < ?e then ?e else sa) (acc @ [?fl]) s1 = (Inr (off', sa', acc @ fls), s')"
    using "2.prems"(1) f by (simp add: Let_def)
  obtain ys where fls: "fls = ?fl # ys"
    using structLoop_extends [OF loop] by auto
  have fit: "extents_fit (acc @ [?fl])"
    using "2.prems"(3) fls extents_fit_append [of "acc @ [?fl]" ys] by simp
  then have a: "0 < a" "0 \<le> sz" by (auto simp: extents_fit_def fieldLayoutOf_def)
  have o: "0 \<le> offset" "offset + sz + a < 2 ^ 62"
    using "2.prems"(2) fit by (auto simp: placed_def extents_fit_def extent_def fieldLayoutOf_def)
  have lim: "offset + ?e < 2 ^ 63" using o a effectiveAlign_bounds [OF a(1), of pack fs] by auto
  have al: "alignUp offset ?e = c_align offset ?e"
    using effectiveAlign_bounds [OF a(1)] by (intro alignUp_c_align o lim) auto
  have "alignUp offset ?e < offset + ?e"
    using effectiveAlign_bounds [OF a(1)] by (intro alignUp_bounds(2) o lim) auto
  then have w: "i64 (alignUp offset ?e + sz) = c_align offset ?e + sz"
    using alignUp_bounds(1) [OF o(1) _ lim] effectiveAlign_bounds [OF a(1), of pack fs] o a al
    by (subst i64_id_nonneg) auto
  have "placed (acc @ [?fl]) (i64 (alignUp offset ?e + sz)) (if sa < ?e then ?e else sa)"
    using effectiveAlign_bounds [OF a(1)] by (intro placed_step "2.prems"(2) fit) auto
  moreover have "(if sa < ?e then ?e else sa) = max ?e sa" by simp
  ultimately have "map flName ys = map fsName rest \<and>
      map flOffset ys = c_offsets (c_align offset ?e + sz) (extents_of pack rest ys) \<and>
      off' = c_end (c_align offset ?e + sz) (extents_of pack rest ys) \<and>
      sa' = fold max (map snd (extents_of pack rest ys)) (max ?e sa)"
    using "2.IH" [OF f [symmetric] refl refl refl refl, of ys] loop "2.prems"(3) fls w by simp
  then show ?case by (simp add: fls extents_of_def fieldLayoutOf_def al)
qed

lemma structLoop_unknown:
  "structLoop abi pack resolve fds offset sa acc s = (Inl (fs, acc'), s') \<Longrightarrow> fs \<in> set fds"
  by (induction abi pack resolve fds offset sa acc s rule: structLoop.induct)
     (auto simp: Let_def split: option.splits prod.splits)

lemma unresolvable_not_empty [simp]: "unresolvable fs \<noteq> ''''"
  by (simp add: unresolvable_def)

lemma emptyLayout_sel [simp]:
  "tlUnknown (emptyLayout key kind) = ''''" "tlProvenance (emptyLayout key kind) = ''''"
  "tlFields (emptyLayout key kind) = []" "tlKey (emptyLayout key kind) = key"
  by (simp_all add: emptyLayout_def)

text \<open>Unions.\<close>

definition union_ok :: "TypeLayout \<Rightarrow> bool" where
  "union_ok l \<longleftrightarrow> (\<forall>f \<in> set (tlFields l). flOffset f = 0) \<and> within (tlSize l) (tlFields l) \<and> wf_layout l"

definition unionInv :: "FieldLayout list \<Rightarrow> int \<Rightarrow> int \<Rightarrow> bool" where
  "unionInv acc m a \<longleftrightarrow>
     (\<forall>f \<in> set acc. flOffset f = 0 \<and> flSize f \<le> m) \<and> 0 \<le> m \<and> 1 \<le> a
     \<and> (extents_fit acc \<longrightarrow> m \<le> sum_list (map extent acc) \<and> a \<le> 1 + sum_list (map extent acc))"

lemma unionLoop_inv:
  "unionLoop abi resolve fds m a acc s = (Inr (m', a', acc'), s') \<Longrightarrow> unionInv acc m a \<Longrightarrow> unionInv acc' m' a'"
proof (induction abi resolve fds m a acc s rule: unionLoop.induct)
  case (1 abi resolve m a acc s)
  then show ?case by simp
next
  case (2 abi resolve fs rest m a acc s)
  obtain sz al s1 where f: "fieldSizeAlign abi fs resolve s = (Some (sz, al), s1)"
    using "2.prems"(1) by (auto split: option.splits prod.splits)
  let ?acc = "acc @ [fieldLayoutOf fs 0 sz al]"
  have "unionInv ?acc (if m < sz then sz else m) (if a < al then al else a)"
  proof -
    have "extents_fit ?acc \<Longrightarrow> extents_fit acc \<and> 0 \<le> sz \<and> 0 < al \<and> 0 \<le> sum_list (map extent acc)"
      using extents_fit_snoc [of acc "fieldLayoutOf fs 0 sz al"] by simp
    with "2.prems"(2) show ?thesis
      by (force simp: unionInv_def extent_def)
  qed
  then show ?case using "2.IH" [OF f [symmetric]] f "2.prems"(1) by auto
qed

lemma LayoutUnion_ok:
  assumes "LayoutUnion abi key fds resolve s = (l, s')" and "tlUnknown l = ''''"
    and fit: "extents_fit (tlFields l)"
  shows "union_ok l"
proof -
  obtain m a where loop: "unionLoop abi resolve fds 0 1 [] s = (Inr (m, a, tlFields l), s')"
    and l: "tlSize l = alignUp m a" "tlAlign l = a"
    using assms(1,2) by (auto simp: LayoutUnion_def Let_def split: if_splits sum.splits prod.splits)
  have u: "unionInv (tlFields l) m a"
    by (rule unionLoop_inv [OF loop]) (simp add: unionInv_def)
  then have "0 \<le> m" "0 < a" "m + a < 2 ^ 63" using fit by (auto simp: unionInv_def extents_fit_def)
  note b = alignUp_bounds [OF this]
  with u \<open>0 \<le> m\<close> show ?thesis
    by (force simp: union_ok_def within_def wf_layout_def l unionInv_def)
qed

section \<open>Aggregates over a resolver that meets its contract\<close>

context layout_resolver
begin

lemma structLoop_ok:
  "structLoop abi pack (Some resolve) fds offset sa acc s = (r, s') \<Longrightarrow> inv s \<Longrightarrow> 1 \<le> sa \<Longrightarrow>
     \<forall>f \<in> set acc. 0 < flAlign f \<Longrightarrow>
     inv s' \<and> (\<forall>off sa' acc'. r = Inr (off, sa', acc') \<longrightarrow> 1 \<le> sa' \<and> (\<forall>f \<in> set acc'. 0 < flAlign f))"
proof (induction abi pack "Some resolve" fds offset sa acc s rule: structLoop.induct)
  case (1 abi pack offset sa acc s)
  then show ?case by auto
next
  case (2 abi pack fs rest offset sa acc s)
  obtain r1 s1 where f: "fieldSizeAlign abi fs (Some resolve) s = (r1, s1)" by fastforce
  note ok = fieldSizeAlign_ok [OF "2.prems"(2) f]
  show ?case
  proof (cases r1)
    case None
    with "2.prems"(1) f ok show ?thesis by auto
  next
    case (Some p)
    then obtain sz a where p: "r1 = Some (sz, a)" by (cases p) auto
    let ?e = "effectiveAlign pack fs a"
    have "1 \<le> (if sa < ?e then ?e else sa)" using "2.prems"(3) by auto
    moreover have "\<forall>f \<in> set (acc @ [fieldLayoutOf fs (alignUp offset ?e) sz a]). 0 < flAlign f"
      using "2.prems"(4) ok p by auto
    ultimately show ?thesis
      using "2.hyps" [OF f [symmetric] p refl refl refl] "2.prems"(1) f p ok by (simp add: Let_def)
  qed
qed

lemma unionLoop_ok:
  "unionLoop abi (Some resolve) fds m ma acc s = (r, s') \<Longrightarrow> inv s \<Longrightarrow> 1 \<le> ma \<Longrightarrow>
     \<forall>f \<in> set acc. 0 < flAlign f \<Longrightarrow>
     inv s' \<and> (\<forall>m' ma' acc'. r = Inr (m', ma', acc') \<longrightarrow> 1 \<le> ma' \<and> (\<forall>f \<in> set acc'. 0 < flAlign f))"
proof (induction abi "Some resolve" fds m ma acc s rule: unionLoop.induct)
  case (1 abi m ma acc s)
  then show ?case by auto
next
  case (2 abi fs rest m ma acc s)
  obtain r1 s1 where f: "fieldSizeAlign abi fs (Some resolve) s = (r1, s1)" by fastforce
  note ok = fieldSizeAlign_ok [OF "2.prems"(2) f]
  show ?case
  proof (cases r1)
    case None
    with "2.prems"(1) f ok show ?thesis by auto
  next
    case (Some p)
    then obtain sz a where p: "r1 = Some (sz, a)" by (cases p) auto
    have "1 \<le> (if ma < a then a else ma)" using "2.prems"(3) by auto
    moreover have "\<forall>f \<in> set (acc @ [fieldLayoutOf fs 0 sz a]). 0 < flAlign f"
      using "2.prems"(4) ok p by auto
    ultimately show ?thesis
      using "2.hyps" [OF f [symmetric] p refl] "2.prems"(1) f p ok by simp
  qed
qed

lemma LayoutStruct_contract:
  assumes "LayoutStruct abi key fds pack (Some resolve) s = (l, s')" and "inv s"
  shows "inv s'" "tlUnknown l = '''' \<Longrightarrow> 0 < tlAlign l \<and> (\<forall>f \<in> set (tlFields l). 0 < flAlign f)"
proof -
  obtain r s1 where loop: "structLoop abi pack (Some resolve) fds 0 1 [] s = (r, s1)" by fastforce
  have "inv s1 \<and> (\<forall>off sa' acc'. r = Inr (off, sa', acc') \<longrightarrow> 1 \<le> sa' \<and> (\<forall>f \<in> set acc'. 0 < flAlign f))"
    by (rule structLoop_ok [OF loop assms(2)]) simp_all
  with assms loop show "inv s'" "tlUnknown l = '''' \<Longrightarrow> 0 < tlAlign l \<and> (\<forall>f \<in> set (tlFields l). 0 < flAlign f)"
    by (auto simp: LayoutStruct_def Let_def split: if_splits sum.splits prod.splits)
qed

lemma LayoutUnion_contract:
  assumes "LayoutUnion abi key fds (Some resolve) s = (l, s')" and "inv s"
  shows "inv s'" "tlUnknown l = '''' \<Longrightarrow> 0 < tlAlign l \<and> (\<forall>f \<in> set (tlFields l). 0 < flAlign f)"
proof -
  obtain r s1 where loop: "unionLoop abi (Some resolve) fds 0 1 [] s = (r, s1)" by fastforce
  have "inv s1 \<and> (\<forall>m ma acc'. r = Inr (m, ma, acc') \<longrightarrow> 1 \<le> ma \<and> (\<forall>f \<in> set acc'. 0 < flAlign f))"
    by (rule unionLoop_ok [OF loop assms(2)]) simp_all
  with assms loop show "inv s'" "tlUnknown l = '''' \<Longrightarrow> 0 < tlAlign l \<and> (\<forall>f \<in> set (tlFields l). 0 < flAlign f)"
    by (auto simp: LayoutUnion_def Let_def split: if_splits sum.splits prod.splits)
qed

end

text \<open>Two callbacks that agree on the states of the invariant give the same layouts.\<close>

context layout_resolver
begin

lemma fieldSizeAlign_cong:
  assumes "\<And>sp s. inv s \<Longrightarrow> r2 sp s = resolve sp s" and "inv s"
  shows "fieldSizeAlign abi fs (Some r2) s = fieldSizeAlign abi fs (Some resolve) s"
proof -
  have plain: "fieldSizeAlign abi fs (Some r2) s = fieldSizeAlign abi fs (Some resolve) s"
    if "\<not> (fsIsArray fs \<and> fsArrayCount fs \<le> 0)" for fs
    using that assms by (auto simp: fieldSizeAlign.simps [of abi fs] Let_def split: option.splits)
  show ?thesis
  proof (cases "fsIsArray fs \<and> fsArrayCount fs \<le> 0")
    case True
    then show ?thesis
      using plain [of "fs\<lparr>fsIsArray := False, fsArrayCount := 0\<rparr>"]
      by (simp add: fieldSizeAlign.simps [of abi fs])
  next
    case False
    then show ?thesis by (rule plain)
  qed
qed

lemma structLoop_cong:
  assumes eq: "\<And>sp s. inv s \<Longrightarrow> r2 sp s = resolve sp s" and "inv s"
  shows "structLoop abi pack (Some r2) fds offset sa acc s = structLoop abi pack (Some resolve) fds offset sa acc s"
  using assms(2)
proof (induction fds arbitrary: offset sa acc s)
  case Nil
  then show ?case by simp
next
  case (Cons fs fds)
  obtain r1 s1 where f: "fieldSizeAlign abi fs (Some resolve) s = (r1, s1)" by fastforce
  moreover have "inv s1" using fieldSizeAlign_ok [OF Cons.prems f] by blast
  ultimately show ?case
    using Cons.IH fieldSizeAlign_cong [OF eq Cons.prems] by (auto simp: Let_def split: option.splits)
qed

lemma unionLoop_cong:
  assumes eq: "\<And>sp s. inv s \<Longrightarrow> r2 sp s = resolve sp s" and "inv s"
  shows "unionLoop abi (Some r2) fds m ma acc s = unionLoop abi (Some resolve) fds m ma acc s"
  using assms(2)
proof (induction fds arbitrary: m ma acc s)
  case Nil
  then show ?case by simp
next
  case (Cons fs fds)
  obtain r1 s1 where f: "fieldSizeAlign abi fs (Some resolve) s = (r1, s1)" by fastforce
  moreover have "inv s1" using fieldSizeAlign_ok [OF Cons.prems f] by blast
  ultimately show ?case
    using Cons.IH fieldSizeAlign_cong [OF eq Cons.prems] by (auto split: option.splits)
qed

end

section \<open>Properties\<close>

text \<open>A concrete struct, for the witnesses: char c; int i; char *p.\<close>

definition plainField :: "string \<Rightarrow> string \<Rightarrow> FieldSpec" where
  "plainField name spelling = (elemSpec spelling)\<lparr>fsName := name\<rparr>"

definition exampleKey :: LayoutKey where
  "exampleKey = \<lparr>keyTU = '''', keyConfig = '''', keyType = ''S''\<rparr>"

definition exampleFields :: "FieldSpec list" where
  "exampleFields = [plainField ''c'' ''char'', plainField ''i'' ''int'', plainField ''p'' ''char *'']"

definition exampleLayout :: TypeLayout where
  "exampleLayout =
     \<lparr>tlKey = exampleKey, tlName = ''S'', tlSize = 16, tlAlign = 8, tlKind = ''struct'',
      tlFields =
        [\<lparr>flName = ''c'', flOffset = 0, flSize = 1, flAlign = 1, flArrayCount = 0, flBitWidth = 0,
          flIsPointer = False, flIsArray = False\<rparr>,
         \<lparr>flName = ''i'', flOffset = 4, flSize = 4, flAlign = 4, flArrayCount = 0, flBitWidth = 0,
          flIsPointer = False, flIsArray = False\<rparr>,
         \<lparr>flName = ''p'', flOffset = 8, flSize = 8, flAlign = 8, flArrayCount = 0, flBitWidth = 0,
          flIsPointer = True, flIsArray = False\<rparr>],
      tlProvenance = '''', tlSource = '''', tlUnknown = ''''\<rparr>"

lemma exampleLayout_eval:
  "LayoutStruct ABILP64 exampleKey exampleFields 0 (None :: unit LayoutResolver) () = (exampleLayout, ())"
  by code_simp

lemma exampleLayout_known: "tlUnknown exampleLayout = ''''" "extents_fit (tlFields exampleLayout)"
  by (simp_all add: exampleLayout_def extents_fit_def extent_def)



end
