(* ===== verification/Layout_Census.thy ===== *)
theory Layout_Census
  imports Type_Layout
begin

text \<open>
  The struct and union census of internal/repofacts/layout_census.go: from the declarations of a
  translation unit, buildLayouts computes one layout per type name.  Nested types are resolved by a
  recursive closure over mutable maps; here the closure takes and returns the maps (a record) and
  a fuel, and more fuel than there are names that are not being resolved never changes the result.
\<close>

record structDecl =
  sdName :: string
  sdIsUnion :: bool
  sdFields :: "FieldSpec list"
  sdUnknownReason :: string

record censusState =
  csByName :: "string \<Rightarrow> TypeLayout option"
  csLayouts :: "LayoutKey \<Rightarrow> TypeLayout option"
  csResolving :: "string \<Rightarrow> bool"

record censusEnv =
  ceDecls :: "structDecl list"
  ceABI :: ABI
  cePack :: int
  ceProv :: string
  ceConflict :: "string \<Rightarrow> bool"

definition sameField :: "FieldSpec \<Rightarrow> FieldSpec \<Rightarrow> bool" where
  "sameField a b \<longleftrightarrow>
     \<not> (fsName a \<noteq> fsName b \<or> fsTypeSpelling a \<noteq> fsTypeSpelling b
        \<or> fsIsArray a \<noteq> fsIsArray b \<or> fsArrayCount a \<noteq> fsArrayCount b
        \<or> fsIsPointer a \<noteq> fsIsPointer b \<or> fsIsStruct a \<noteq> fsIsStruct b
        \<or> fsIsUnion a \<noteq> fsIsUnion b)"

definition sameFields :: "FieldSpec list \<Rightarrow> FieldSpec list \<Rightarrow> bool" where
  "sameFields a b \<longleftrightarrow> length a = length b \<and> list_all2 sameField a b"

text \<open>The name-conflict loop: prev is the first declaration of that name at index 1 or later, and
  otherwise the declaration at index 0.\<close>

definition prevDecl :: "structDecl list \<Rightarrow> nat \<Rightarrow> string \<Rightarrow> structDecl" where
  "prevDecl decls i name =
     (case find (\<lambda>j. sdName (decls ! j) = name) [1..<i] of
        Some j \<Rightarrow> decls ! j
      | None \<Rightarrow> decls ! 0)"

fun conflictLoop ::
  "structDecl list \<Rightarrow> nat list \<Rightarrow> (string \<Rightarrow> nat) \<Rightarrow> (string \<Rightarrow> bool) \<Rightarrow> (string \<Rightarrow> bool)" where
  "conflictLoop decls [] nameCount nameConflict = nameConflict"
| "conflictLoop decls (i # is) nameCount nameConflict =
     (let d = decls ! i;
          nameCount' = nameCount(sdName d := Suc (nameCount (sdName d)))
      in conflictLoop decls is nameCount'
           (if 1 < nameCount' (sdName d) \<and> \<not> sameFields (sdFields (prevDecl decls i (sdName d))) (sdFields d)
            then nameConflict(sdName d := True) else nameConflict))"

definition nameConflicts :: "structDecl list \<Rightarrow> string \<Rightarrow> bool" where
  "nameConflicts decls = conflictLoop decls [0..<length decls] (\<lambda>_. 0) (\<lambda>_. False)"

definition typeKey :: "string \<Rightarrow> LayoutKey" where
  "typeKey name = \<lparr>keyTU = '''', keyConfig = '''', keyType = name\<rparr>"

definition unknownLayout :: "string \<Rightarrow> string \<Rightarrow> string \<Rightarrow> TypeLayout" where
  "unknownLayout prov name reason =
     \<lparr>tlKey = typeKey name, tlName = name, tlSize = 0, tlAlign = 0, tlKind = '''', tlFields = [],
      tlProvenance = prov, tlSource = '''', tlUnknown = reason\<rparr>"

definition conflictReason :: string where
  "conflictReason = ''cross-TU name conflict '' @ [CHR 0xE2, CHR 0x80, CHR 0x94]
     @ '' same type name with different fields''"

definition circularLayout :: TypeLayout where
  "circularLayout =
     \<lparr>tlKey = \<lparr>keyTU = '''', keyConfig = '''', keyType = ''''\<rparr>, tlName = '''', tlSize = 0, tlAlign = 0,
      tlKind = '''', tlFields = [], tlProvenance = '''', tlSource = '''', tlUnknown = ''circular value nesting''\<rparr>"

definition computeOneLayout ::
  "structDecl \<Rightarrow> ABI \<Rightarrow> int \<Rightarrow> 's LayoutResolver \<Rightarrow> 's \<Rightarrow> TypeLayout \<times> 's" where
  "computeOneLayout d abi pack resolve s =
     (if sdIsUnion d then LayoutUnion abi (typeKey (sdName d)) (sdFields d) resolve s
      else LayoutStruct abi (typeKey (sdName d)) (sdFields d) pack resolve s)"

definition storeLayout :: "string \<Rightarrow> TypeLayout \<Rightarrow> censusState \<Rightarrow> censusState" where
  "storeLayout name l st =
     st\<lparr>csByName := (csByName st)(name \<mapsto> l), csLayouts := (csLayouts st)(typeKey name \<mapsto> l)\<rparr>"

text \<open>The resolve closure of buildLayouts.  With no fuel left it answers that the type is not found.\<close>

fun resolveType :: "nat \<Rightarrow> censusEnv \<Rightarrow> string \<Rightarrow> censusState \<Rightarrow> TypeLayout option \<times> censusState" where
  "resolveType 0 env sp st = (None, st)"
| "resolveType (Suc n) env sp st =
     (case csByName st sp of
        Some l \<Rightarrow> (Some l, st)
      | None \<Rightarrow>
          if csResolving st sp then (Some circularLayout, st)
          else case find (\<lambda>d. sdName d = sp) (ceDecls env) of
                 None \<Rightarrow> (None, st)
               | Some d \<Rightarrow>
                   if ceConflict env (sdName d) then
                     (let l = unknownLayout (ceProv env) (sdName d) conflictReason
                      in (Some l, storeLayout (sdName d) l st))
                   else if sdUnknownReason d \<noteq> '''' then
                     (let l = unknownLayout (ceProv env) (sdName d) (sdUnknownReason d)
                      in (Some l, storeLayout (sdName d) l st))
                   else
                     (let st1 = st\<lparr>csResolving := (csResolving st)(sp := True)\<rparr>
                      in case computeOneLayout d (ceABI env) (cePack env) (Some (resolveType n env)) st1 of
                           (l0, st2) \<Rightarrow>
                             (let l = l0\<lparr>tlProvenance := ceProv env\<rparr>;
                                  st3 = storeLayout (sdName d) l st2
                              in (Some l, st3\<lparr>csResolving := (csResolving st3)(sp := False)\<rparr>))))"

fun censusLoop :: "nat \<Rightarrow> censusEnv \<Rightarrow> structDecl list \<Rightarrow> censusState \<Rightarrow> censusState" where
  "censusLoop n env [] st = st"
| "censusLoop n env (d # ds) st =
     censusLoop n env ds
       (if csByName st (sdName d) \<noteq> None then st
        else if ceConflict env (sdName d) then
          storeLayout (sdName d) (unknownLayout (ceProv env) (sdName d) conflictReason) st
        else if sdUnknownReason d \<noteq> '''' then
          storeLayout (sdName d) (unknownLayout (ceProv env) (sdName d) (sdUnknownReason d)) st
        else case computeOneLayout d (ceABI env) (cePack env) (Some (resolveType n env)) st of
               (l0, st2) \<Rightarrow> storeLayout (sdName d) (l0\<lparr>tlProvenance := ceProv env\<rparr>) st2)"

definition emptyCensus :: censusState where
  "emptyCensus = \<lparr>csByName = Map.empty, csLayouts = Map.empty, csResolving = (\<lambda>_. False)\<rparr>"

definition censusEnvOf :: "structDecl list \<Rightarrow> ABI \<Rightarrow> int \<Rightarrow> string \<Rightarrow> censusEnv" where
  "censusEnvOf decls abi pack prov =
     \<lparr>ceDecls = decls, ceABI = abi, cePack = pack, ceProv = prov, ceConflict = nameConflicts decls\<rparr>"

definition buildLayouts ::
  "structDecl list \<Rightarrow> ABI \<Rightarrow> int \<Rightarrow> string \<Rightarrow> (LayoutKey \<Rightarrow> TypeLayout option)" where
  "buildLayouts decls abi pack prov =
     csLayouts (censusLoop (Suc (length decls)) (censusEnvOf decls abi pack prov) decls emptyCensus)"

definition layoutProvenance :: "bool \<Rightarrow> string" where
  "layoutProvenance hasCompileCommands = ProvenanceAssumedDefaultABI"


section \<open>The census invariant\<close>

text \<open>A stored layout carries the census's provenance; it is unknown when the name conflicts; and a
  known one is a correct C layout unless its sizes overflow.\<close>

definition layout_correct :: "TypeLayout \<Rightarrow> bool" where
  "layout_correct l \<longleftrightarrow>
     0 < tlAlign l \<and> (\<forall>f \<in> set (tlFields l). 0 < flAlign f)
     \<and> (extents_fit (tlFields l) \<longrightarrow> struct_ok l \<or> union_ok l)"

definition stored_ok :: "censusEnv \<Rightarrow> string \<Rightarrow> TypeLayout \<Rightarrow> bool" where
  "stored_ok env name l \<longleftrightarrow>
     tlProvenance l = ceProv env \<and> tlKey l = typeKey name
     \<and> (ceConflict env name \<longrightarrow> IsUnknown l) \<and> (\<not> IsUnknown l \<longrightarrow> layout_correct l)"

definition census_inv :: "censusEnv \<Rightarrow> (string \<Rightarrow> bool) \<Rightarrow> censusState \<Rightarrow> bool" where
  "census_inv env R st \<longleftrightarrow>
     csResolving st = R \<and> (\<forall>name l. csByName st name = Some l \<longrightarrow> stored_ok env name l)
     \<and> (\<forall>name. csLayouts st (typeKey name) = csByName st name)
     \<and> (\<forall>k. csLayouts st k \<noteq> None \<longrightarrow> k = typeKey (keyType k))"

lemma typeKey_eq [simp]: "typeKey a = typeKey b \<longleftrightarrow> a = b" "keyType (typeKey a) = a"
  by (auto simp: typeKey_def)

lemma census_inv_store:
  "census_inv env R st \<Longrightarrow> stored_ok env name l \<Longrightarrow> census_inv env R (storeLayout name l st)"
  by (auto simp: census_inv_def storeLayout_def)

lemma stored_ok_unknown: "reason \<noteq> '''' \<Longrightarrow> stored_ok env name (unknownLayout (ceProv env) name reason)"
  by (auto simp: stored_ok_def unknownLayout_def IsUnknown_def)

lemma conflictReason_ne [simp]: "conflictReason \<noteq> ''''"
  by (simp add: conflictReason_def)

lemma LayoutStruct_key: "LayoutStruct abi key fds pack resolve s = (l, s') \<Longrightarrow> tlKey l = key"
  by (auto simp: LayoutStruct_def Let_def split: if_splits sum.splits prod.splits)

lemma LayoutUnion_key: "LayoutUnion abi key fds resolve s = (l, s') \<Longrightarrow> tlKey l = key"
  by (auto simp: LayoutUnion_def Let_def split: if_splits sum.splits prod.splits)

lemma correct_provenance:
  "layout_correct (l\<lparr>tlProvenance := p\<rparr>) = layout_correct l" "IsUnknown (l\<lparr>tlProvenance := p\<rparr>) = IsUnknown l"
  by (simp_all add: layout_correct_def struct_ok_def union_ok_def wf_layout_def IsUnknown_def)

context layout_resolver
begin

lemma computeOneLayout_contract:
  assumes "computeOneLayout d abi pack (Some resolve) s = (l, s')" and "inv s"
  shows "inv s' \<and> tlKey l = typeKey (sdName d) \<and> (\<not> IsUnknown l \<longrightarrow> layout_correct l)"
proof (cases "sdIsUnion d")
  case True
  then have u: "LayoutUnion abi (typeKey (sdName d)) (sdFields d) (Some resolve) s = (l, s')"
    using assms(1) by (simp add: computeOneLayout_def)
  then show ?thesis
    using LayoutUnion_contract [OF u assms(2)] LayoutUnion_ok [OF u] LayoutUnion_key [OF u]
    by (auto simp: layout_correct_def IsUnknown_def)
next
  case False
  then have u: "LayoutStruct abi (typeKey (sdName d)) (sdFields d) pack (Some resolve) s = (l, s')"
    using assms(1) by (simp add: computeOneLayout_def)
  then show ?thesis
    using LayoutStruct_contract [OF u assms(2)] LayoutStruct_ok [OF u] LayoutStruct_key [OF u]
    by (auto simp: layout_correct_def IsUnknown_def)
qed

end

lemma find_SomeD: "find P xs = Some x \<Longrightarrow> x \<in> set xs \<and> P x"
  by (induction xs) (auto split: if_splits)

lemma resolveType_step_ok:
  assumes res: "layout_resolver (resolveType n env) (census_inv env (R(sp := True)))"
    and inv: "census_inv env R st"
    and step: "resolveType (Suc n) env sp st = (r, st')"
  shows "census_inv env R st' \<and> (\<forall>l. r = Some l \<longrightarrow> IsUnknown l \<or> 0 < tlAlign l)"
proof (cases "csByName st sp \<noteq> None \<or> csResolving st sp \<or> find (\<lambda>d. sdName d = sp) (ceDecls env) = None")
  case True
  then show ?thesis
    using inv step
    by (auto simp: census_inv_def stored_ok_def layout_correct_def IsUnknown_def circularLayout_def
        split: option.splits if_splits)
next
  case False
  then obtain d where d: "find (\<lambda>d. sdName d = sp) (ceDecls env) = Some d"
    and f: "csByName st sp = None" "\<not> csResolving st sp" by auto
  have nm: "sdName d = sp" using find_SomeD [OF d] by simp
  show ?thesis
  proof (cases "ceConflict env sp \<or> sdUnknownReason d \<noteq> ''''")
    case True
    then show ?thesis
      using step d f nm inv stored_ok_unknown
      by (auto simp: Let_def unknownLayout_def IsUnknown_def intro!: census_inv_store split: if_splits)
  next
    case False
    let ?st1 = "st\<lparr>csResolving := (csResolving st)(sp := True)\<rparr>"
    obtain l0 st2 where c: "computeOneLayout d (ceABI env) (cePack env) (Some (resolveType n env)) ?st1 = (l0, st2)"
      by fastforce
    have "census_inv env (R(sp := True)) ?st1" using inv by (auto simp: census_inv_def)
    note ok = layout_resolver.computeOneLayout_contract [OF res c this]
    let ?l = "l0\<lparr>tlProvenance := ceProv env\<rparr>"
    have s: "stored_ok env sp ?l"
      using ok nm False by (auto simp: stored_ok_def correct_provenance)
    have eq: "r = Some ?l \<and> st' = (storeLayout sp ?l st2)\<lparr>csResolving := (csResolving st2)(sp := False)\<rparr>"
      using step d f nm False c by (auto simp: Let_def storeLayout_def)
    have i: "census_inv env (R(sp := True)) (storeLayout sp ?l st2)"
      using census_inv_store ok s by blast
    have "R sp = False" using inv f by (simp add: census_inv_def)
    moreover have "csResolving st2 = R(sp := True)" using ok unfolding census_inv_def by blast
    ultimately have "(csResolving st2)(sp := False) = R" by (simp add: fun_upd_idem)
    then have "census_inv env R st'" using i eq by (simp add: census_inv_def)
    moreover have "IsUnknown ?l \<or> 0 < tlAlign ?l"
      using s by (auto simp: stored_ok_def layout_correct_def)
    ultimately show ?thesis using eq by simp
  qed
qed

lemma resolveType_contract: "layout_resolver (resolveType n env) (census_inv env R)"
proof (induction n arbitrary: R)
  case 0
  then show ?case by unfold_locales auto
next
  case (Suc n)
  show ?case
  proof
    fix s sp r s'
    assume "census_inv env R s" "resolveType (Suc n) env sp s = (r, s')"
    then show "census_inv env R s'" using resolveType_step_ok [OF Suc.IH] by blast
  next
    fix s sp l s'
    assume "census_inv env R s" "resolveType (Suc n) env sp s = (Some l, s')" "tlUnknown l = ''''"
    then show "0 < tlAlign l" using resolveType_step_ok [OF Suc.IH] unfolding IsUnknown_def by blast
  qed
qed

text \<open>The census's own resolver meets the engine's contract, at every fuel and nesting.\<close>

interpretation census: layout_resolver "resolveType n env" "census_inv env R" for n env R
  by (rule resolveType_contract)

lemma censusLoop_inv: "census_inv env R st \<Longrightarrow> census_inv env R (censusLoop n env ds st)"
proof (induction ds arbitrary: st)
  case Nil
  then show ?case by simp
next
  case (Cons d ds)
  show ?case
  proof (cases "csByName st (sdName d) \<noteq> None \<or> ceConflict env (sdName d) \<or> sdUnknownReason d \<noteq> ''''")
    case True
    then show ?thesis
      using Cons stored_ok_unknown by (auto intro!: Cons.IH census_inv_store)
  next
    case False
    obtain l0 st2 where c: "computeOneLayout d (ceABI env) (cePack env) (Some (resolveType n env)) st = (l0, st2)"
      by fastforce
    note ok = census.computeOneLayout_contract [OF c Cons.prems]
    then have "stored_ok env (sdName d) (l0\<lparr>tlProvenance := ceProv env\<rparr>)"
      using False by (auto simp: stored_ok_def correct_provenance)
    then show ?thesis
      using False c ok by (auto intro!: Cons.IH census_inv_store)
  qed
qed

lemma emptyCensus_inv: "census_inv env (\<lambda>_. False) emptyCensus"
  by (simp add: census_inv_def emptyCensus_def)

section \<open>Fuel\<close>

definition unresolved :: "censusEnv \<Rightarrow> (string \<Rightarrow> bool) \<Rightarrow> string set" where
  "unresolved env R = {name \<in> sdName ` set (ceDecls env). \<not> R name}"

lemma resolveType_fuel:
  "card (unresolved env R) < n \<Longrightarrow> census_inv env R st \<Longrightarrow> resolveType (Suc n) env sp st = resolveType n env sp st"
proof (induction n arbitrary: R st sp)
  case 0
  then show ?case by simp
next
  case (Suc n)
  have "computeOneLayout d abi pack (Some (resolveType (Suc n) env)) (st\<lparr>csResolving := (csResolving st)(sp := True)\<rparr>)
      = computeOneLayout d abi pack (Some (resolveType n env)) (st\<lparr>csResolving := (csResolving st)(sp := True)\<rparr>)"
    if d: "find (\<lambda>d. sdName d = sp) (ceDecls env) = Some d" "\<not> csResolving st sp" for d abi pack
  proof -
    let ?R = "R(sp := True)" and ?st = "st\<lparr>csResolving := (csResolving st)(sp := True)\<rparr>"
    have "sp \<in> unresolved env R"
      using find_SomeD [OF d(1)] d(2) Suc.prems(2) by (auto simp: unresolved_def census_inv_def)
    moreover have "unresolved env ?R = unresolved env R - {sp}" by (auto simp: unresolved_def)
    moreover have "finite (unresolved env R)" by (simp add: unresolved_def)
    ultimately have "card (unresolved env ?R) < card (unresolved env R)"
      by (metis card_Diff1_less)
    then have "card (unresolved env ?R) < n" using Suc.prems(1) by simp
    then have eq: "\<And>sp s. census_inv env ?R s \<Longrightarrow> resolveType (Suc n) env sp s = resolveType n env sp s"
      by (rule Suc.IH)
    have i: "census_inv env ?R ?st" using Suc.prems(2) by (simp add: census_inv_def)
    show ?thesis
      by (simp only: computeOneLayout_def LayoutUnion_def LayoutStruct_def
          census.structLoop_cong [OF eq i] census.unionLoop_cong [OF eq i])
  qed
  then show ?case
    by (auto simp del: resolveType.simps simp: resolveType.simps(2) [of "Suc n"] resolveType.simps(2) [of n]
        split: option.splits)
qed

lemma resolveType_fuel_le:
  assumes "card (unresolved env R) < n" and "n \<le> m" and "census_inv env R st"
  shows "resolveType m env sp st = resolveType n env sp st"
  using assms(2,1)
proof (induction rule: dec_induct)
  case base
  then show ?case by simp
next
  case (step k)
  then show ?case using resolveType_fuel [of env R k st sp] assms(3) by simp
qed

lemma censusLoop_fuel:
  assumes "card (unresolved env R) < n" and "n \<le> m" and "census_inv env R st"
  shows "censusLoop m env ds st = censusLoop n env ds st"
  using assms(3)
proof (induction ds arbitrary: st)
  case Nil
  then show ?case by simp
next
  case (Cons d ds)
  have "computeOneLayout d abi pack (Some (resolveType m env)) st = computeOneLayout d abi pack (Some (resolveType n env)) st"
    for abi pack
    by (simp only: computeOneLayout_def LayoutUnion_def LayoutStruct_def
        census.structLoop_cong [OF resolveType_fuel_le [OF assms(1,2)] Cons.prems]
        census.unionLoop_cong [OF resolveType_fuel_le [OF assms(1,2)] Cons.prems])
  then have one: "censusLoop m env [d] st = censusLoop n env [d] st" by simp
  have split: "censusLoop k env (d # ds) st = censusLoop k env ds (censusLoop k env [d] st)" for k by simp
  show ?case
    unfolding split [of m] split [of n] one by (intro Cons.IH censusLoop_inv Cons.prems)
qed

lemma unresolved_card: "card (unresolved env R) \<le> length (ceDecls env)"
proof -
  have "card (unresolved env R) \<le> card (sdName ` set (ceDecls env))"
    by (rule card_mono) (auto simp: unresolved_def)
  also have "\<dots> \<le> length (ceDecls env)" by (meson card_image_le card_length finite_set le_trans)
  finally show ?thesis .
qed

section \<open>Name conflicts\<close>

lemma sameFields_equiv:
  "sameFields a a" "sameFields a b \<Longrightarrow> sameFields b a" "sameFields a b \<Longrightarrow> sameFields b c \<Longrightarrow> sameFields a c"
proof -
  have r: "sameField x x" and s: "sameField x y \<Longrightarrow> sameField y x"
    and t: "sameField x y \<Longrightarrow> sameField y z \<Longrightarrow> sameField x z" for x y z
    by (auto simp: sameField_def)
  show "sameFields a a" by (simp add: sameFields_def r list.rel_refl)
  show "sameFields a b \<Longrightarrow> sameFields b a" by (auto simp: sameFields_def list_all2_conv_all_nth s)
  show "sameFields a b \<Longrightarrow> sameFields b c \<Longrightarrow> sameFields a c"
    by (auto simp: sameFields_def intro: list_all2_trans [OF t])
qed

text \<open>Two declarations below index n share the name and differ in their fields.\<close>

definition differ_below :: "structDecl list \<Rightarrow> nat \<Rightarrow> string \<Rightarrow> bool" where
  "differ_below decls n name \<longleftrightarrow>
     (\<exists>i j. i < j \<and> j < n \<and> sdName (decls ! i) = name \<and> sdName (decls ! j) = name
            \<and> \<not> sameFields (sdFields (decls ! i)) (sdFields (decls ! j)))"

definition count_below :: "structDecl list \<Rightarrow> nat \<Rightarrow> string \<Rightarrow> nat" where
  "count_below decls n name = card {j. j < n \<and> sdName (decls ! j) = name}"

lemma count_below_Suc:
  "count_below decls (Suc i) name = (if sdName (decls ! i) = name then Suc (count_below decls i name) else count_below decls i name)"
proof -
  have "{j. j < Suc i \<and> sdName (decls ! j) = name} =
    (if sdName (decls ! i) = name then insert i {j. j < i \<and> sdName (decls ! j) = name}
     else {j. j < i \<and> sdName (decls ! j) = name})"
    by (auto simp: less_Suc_eq)
  then show ?thesis by (simp add: count_below_def)
qed

lemma prevDecl_earlier:
  assumes "j < i" "sdName (decls ! j) = name"
  shows "\<exists>p < i. prevDecl decls i name = decls ! p \<and> sdName (decls ! p) = name"
proof (cases "find (\<lambda>j. sdName (decls ! j) = name) [1..<i]")
  case None
  then have "\<forall>k \<in> set [1..<i]. sdName (decls ! k) \<noteq> name" by (simp add: find_None_iff)
  with assms have "j = 0" by force
  with assms None show ?thesis by (auto simp: prevDecl_def)
next
  case (Some k)
  with find_SomeD [OF Some] show ?thesis by (auto simp: prevDecl_def)
qed

lemma differ_below_Suc:
  assumes "name = sdName (decls ! i)"
  shows "differ_below decls (Suc i) name \<longleftrightarrow>
    differ_below decls i name \<or>
    (0 < count_below decls i name \<and> \<not> sameFields (sdFields (prevDecl decls i name)) (sdFields (decls ! i)))"
    (is "?L \<longleftrightarrow> ?R")
proof
  assume ?L
  then obtain a b where ab: "a < b" "b < Suc i" "sdName (decls ! a) = name" "sdName (decls ! b) = name"
    "\<not> sameFields (sdFields (decls ! a)) (sdFields (decls ! b))" by (auto simp: differ_below_def)
  show ?R
  proof (cases "b < i")
    case True
    then show ?thesis using ab by (auto simp: differ_below_def)
  next
    case False
    then have b: "b = i" using ab by simp
    then obtain p where p: "p < i" "prevDecl decls i name = decls ! p" "sdName (decls ! p) = name"
      using prevDecl_earlier [of a i decls name] ab by auto
    have "0 < count_below decls i name"
      using ab b by (auto simp: count_below_def card_gt_0_iff)
    moreover have "sameFields (sdFields (decls ! p)) (sdFields (decls ! i)) \<Longrightarrow> differ_below decls i name"
      using ab b p sameFields_equiv unfolding differ_below_def
      by (metis linorder_neqE_nat)
    ultimately show ?thesis using p by auto
  qed
next
  assume R: ?R
  show ?L
  proof (cases "differ_below decls i name")
    case True
    then show ?thesis by (auto simp: differ_below_def intro: less_SucI)
  next
    case False
    with R obtain j where "j < i" "sdName (decls ! j) = name"
      by (auto simp: count_below_def card_gt_0_iff)
    then show ?thesis
      using prevDecl_earlier [of j i decls name] R False assms unfolding differ_below_def
      by (metis lessI)
  qed
qed

lemma conflictLoop_differ:
  "i \<le> n \<Longrightarrow> cnt = count_below decls i \<Longrightarrow> conf = differ_below decls i \<Longrightarrow>
     conflictLoop decls [i..<n] cnt conf = differ_below decls n"
proof (induction "n - i" arbitrary: i cnt conf)
  case 0
  then show ?case by simp
next
  case (Suc k)
  let ?d = "decls ! i"
  let ?cnt = "cnt(sdName ?d := Suc (cnt (sdName ?d)))"
  let ?conf = "if 1 < ?cnt (sdName ?d) \<and> \<not> sameFields (sdFields (prevDecl decls i (sdName ?d))) (sdFields ?d)
            then conf(sdName ?d := True) else conf"
  have other: "differ_below decls (Suc i) nm = differ_below decls i nm" if "nm \<noteq> sdName ?d" for nm
    using that by (auto simp: differ_below_def less_Suc_eq)
  have "?cnt = count_below decls (Suc i)"
    using Suc.prems(2) by (auto simp: fun_eq_iff count_below_Suc)
  moreover have "?conf = differ_below decls (Suc i)"
  proof
    fix nm
    show "?conf nm = differ_below decls (Suc i) nm"
      using differ_below_Suc [of "sdName ?d" decls i] Suc.prems(2,3) other [of nm]
      by (cases "nm = sdName ?d") auto
  qed
  ultimately have "conflictLoop decls [Suc i..<n] ?cnt ?conf = differ_below decls n"
    using Suc.hyps(2) by (intro Suc.hyps(1)) auto
  moreover have "[i..<n] = i # [Suc i..<n]" using Suc.hyps(2) by (simp add: upt_conv_Cons)
  ultimately show ?case by (simp only: conflictLoop.simps Let_def)
qed

lemma nameConflicts_iff:
  "nameConflicts decls name \<longleftrightarrow> differ_below decls (length decls) name"
  unfolding nameConflicts_def
  by (subst conflictLoop_differ) (auto simp: fun_eq_iff count_below_def differ_below_def)

section \<open>Properties\<close>

lemma buildLayouts_inv:
  "census_inv (censusEnvOf decls abi pack prov) (\<lambda>_. False)
     (censusLoop n (censusEnvOf decls abi pack prov) ds emptyCensus)"
  by (rule censusLoop_inv [OF emptyCensus_inv])

lemma buildLayouts_stored:
  assumes "buildLayouts decls abi pack prov k = Some l"
  shows "k = typeKey (keyType k) \<and> stored_ok (censusEnvOf decls abi pack prov) (keyType k) l"
proof -
  let ?st = "censusLoop (Suc (length decls)) (censusEnvOf decls abi pack prov) decls emptyCensus"
  have i: "census_inv (censusEnvOf decls abi pack prov) (\<lambda>_. False) ?st" by (rule buildLayouts_inv)
  have s: "csLayouts ?st k = Some l" using assms by (simp add: buildLayouts_def)
  then have k: "k = typeKey (keyType k)" using i unfolding census_inv_def by blast
  then have "csByName ?st (keyType k) = Some l" using i s unfolding census_inv_def by metis
  then show ?thesis using i k unfolding census_inv_def by blast
qed


text \<open>The witness's translation unit: struct In with a pointer, and struct Out that embeds it.\<close>

definition nestedDecls :: "structDecl list" where
  "nestedDecls =
     [\<lparr>sdName = ''Out'', sdIsUnion = False,
       sdFields = [plainField ''c'' ''char'', (plainField ''n'' ''In'')\<lparr>fsIsStruct := True\<rparr>], sdUnknownReason = ''''\<rparr>,
      \<lparr>sdName = ''In'', sdIsUnion = False, sdFields = [plainField ''p'' ''char *''], sdUnknownReason = ''''\<rparr>]"

definition nestedLayout :: TypeLayout where
  "nestedLayout = the (buildLayouts nestedDecls ABILP64 0 ProvenanceAssumedDefaultABI (typeKey ''Out''))"

lemma nestedLayout_eval:
  "map_option (\<lambda>l. (map flOffset (tlFields l), map flSize (tlFields l), map flAlign (tlFields l), tlSize l, tlUnknown l))
     (buildLayouts nestedDecls ABILP64 0 ProvenanceAssumedDefaultABI (typeKey ''Out''))
   = Some ([0, 8], [1, 8], [1, 8], 16, '''')"
  by code_simp

lemma nestedLayout_facts:
  "buildLayouts nestedDecls ABILP64 0 ProvenanceAssumedDefaultABI (typeKey ''Out'') = Some nestedLayout"
  "map flOffset (tlFields nestedLayout) = [0, 8]" "tlSize nestedLayout = 16" "\<not> IsUnknown nestedLayout"
  "extents_fit (tlFields nestedLayout)"
proof -
  obtain l where l: "buildLayouts nestedDecls ABILP64 0 ProvenanceAssumedDefaultABI (typeKey ''Out'') = Some l"
    and v: "map flOffset (tlFields l) = [0, 8]" "map flSize (tlFields l) = [1, 8]"
      "map flAlign (tlFields l) = [1, 8]" "tlSize l = 16" "tlUnknown l = ''''"
    using nestedLayout_eval by auto
  obtain f g where fg: "tlFields l = [f, g]" using v(1) by (auto simp: map_eq_Cons_conv)
  have "nestedLayout = l" by (simp add: nestedLayout_def l)
  then show "buildLayouts nestedDecls ABILP64 0 ProvenanceAssumedDefaultABI (typeKey ''Out'') = Some nestedLayout"
    "map flOffset (tlFields nestedLayout) = [0, 8]" "tlSize nestedLayout = 16" "\<not> IsUnknown nestedLayout"
    "extents_fit (tlFields nestedLayout)"
    using l v fg by (auto simp: IsUnknown_def extents_fit_def extent_def)
qed


text \<open>Conflicting declarations are never laid out.  The name-conflict pass marks a type name
  exactly when two declarations of that name differ in their fields, and every layout the census
  stores under such a name is marked unknown.
\<close>

theorem buildLayouts_conflict:
  "(nameConflicts decls name \<longleftrightarrow>
     (\<exists>i j. i < j \<and> j < length decls \<and> sdName (decls ! i) = name \<and> sdName (decls ! j) = name
            \<and> \<not> sameFields (sdFields (decls ! i)) (sdFields (decls ! j))))
   \<and> (\<forall>l. nameConflicts decls name \<and> buildLayouts decls abi pack prov (typeKey name) = Some l \<longrightarrow> IsUnknown l)"
proof -
  have "IsUnknown l"
    if c: "nameConflicts decls name" and l: "buildLayouts decls abi pack prov (typeKey name) = Some l" for l
    using buildLayouts_stored [OF l] c by (simp add: stored_ok_def censusEnvOf_def)
  then show ?thesis by (auto simp: nameConflicts_iff differ_below_def)
qed

text \<open>Two declarations of S that disagree: int a against long a.\<close>

definition conflictDecls :: "structDecl list" where
  "conflictDecls =
     [\<lparr>sdName = ''S'', sdIsUnion = False, sdFields = [plainField ''a'' ''int''], sdUnknownReason = ''''\<rparr>,
      \<lparr>sdName = ''S'', sdIsUnion = False, sdFields = [plainField ''a'' ''long''], sdUnknownReason = ''''\<rparr>]"

lemma conflictDecls_eval:
  "nameConflicts conflictDecls ''S''"
  "\<exists>l. buildLayouts conflictDecls ABILP64 0 ProvenanceAssumedDefaultABI (typeKey ''S'') = Some l"
  by code_simp (simp add: buildLayouts_def conflictDecls_def censusEnvOf_def emptyCensus_def
      nameConflicts_def prevDecl_def sameFields_def sameField_def plainField_def elemSpec_def storeLayout_def)

theorem buildLayouts_conflict_witness:
  "nameConflicts conflictDecls ''S'' \<and>
   (\<exists>l. buildLayouts conflictDecls ABILP64 0 ProvenanceAssumedDefaultABI (typeKey ''S'') = Some l \<and> IsUnknown l)"
  using buildLayouts_conflict [of conflictDecls "''S''" ABILP64 0 ProvenanceAssumedDefaultABI] conflictDecls_eval
  by blast

text \<open>The recursion of the census terminates.  The fuel used, one more than the number of
  declarations, is enough: any larger fuel gives the same layouts, so running out of fuel never
  contributes to a result, also when types contain themselves.
\<close>

theorem buildLayouts_fuel:
  "csLayouts (censusLoop (Suc (length decls) + k) (censusEnvOf decls abi pack prov) decls emptyCensus)
   = buildLayouts decls abi pack prov"
proof -
  have "card (unresolved (censusEnvOf decls abi pack prov) (\<lambda>_. False)) < Suc (length decls)"
    using unresolved_card [of "censusEnvOf decls abi pack prov"] by (simp add: censusEnvOf_def le_imp_less_Suc)
  then show ?thesis
    unfolding buildLayouts_def by (subst censusLoop_fuel [OF _ _ emptyCensus_inv]) auto
qed

end
