(* ===== verification/C_Types.thy ===== *)
theory C_Types
  imports Type_Layout
begin

text \<open>
  The pipeline's model of C types: graph/types.go (kinds, widths and the bounds of integer types) and
  graph/types_width.go (resolution of a type spelling through the LP64 table of typeinfo).
\<close>

datatype TypeKind =
  TypeUnknown | TypeInt | TypeUint | TypeFloat | TypePointer | TypeArray | TypeStruct | TypeUnion
| TypeFunction | TypeVoid

datatype CType = CType
  (tyKind: TypeKind) (tyWidth: int) (tySigned: bool) (tyPointee: "CType option")
  (tyElem: "CType option") (tyArrayLen: int) (tyName: string) (tyTypedefOf: string)

definition IsInteger :: "CType \<Rightarrow> bool" where
  "IsInteger t \<longleftrightarrow> tyKind t = TypeInt \<or> tyKind t = TypeUint"

definition typeIsFloat :: "CType \<Rightarrow> bool" where
  "typeIsFloat t \<longleftrightarrow> tyKind t = TypeFloat"

definition typeIsPointer :: "CType \<Rightarrow> bool" where
  "typeIsPointer t \<longleftrightarrow> tyKind t = TypePointer"

definition SignedMax :: "CType \<Rightarrow> int" where
  "SignedMax t = (if tyWidth t \<le> 0 \<or> 63 < tyWidth t then 0
                  else i64 (i64 (2 ^ nat (tyWidth t - 1)) - 1))"

definition SignedMin :: "CType \<Rightarrow> int" where
  "SignedMin t = (if tyWidth t \<le> 0 \<or> 63 < tyWidth t then 0
                  else i64 (- (2 ^ nat (tyWidth t - 1))))"

definition UnsignedMax :: "CType \<Rightarrow> int" where
  "UnsignedMax t = (if tyWidth t \<le> 0 \<or> 64 < tyWidth t then 0
                    else if tyWidth t = 64 then 2 ^ 64 - 1
                    else (2 ^ nat (tyWidth t) - 1) mod 2 ^ 64)"

definition WidthOfName :: "string \<Rightarrow> int option" where
  "WidthOfName name = PrimitiveBits ABILP64 name"

text \<open>stripPrefix's second result is the Some.\<close>

definition stripPrefix :: "string \<Rightarrow> string \<Rightarrow> string option" where
  "stripPrefix s p =
     (if length p \<le> length s \<and> take (length p) s = p then Some (drop (length p) s) else None)"

lemma stripPrefix_length: "stripPrefix s p = Some r \<Longrightarrow> length s = length p + length r"
  by (auto simp: stripPrefix_def split: if_splits)

definition namedType :: "TypeKind \<Rightarrow> int \<Rightarrow> bool \<Rightarrow> string \<Rightarrow> CType" where
  "namedType k w s name = CType k w s None None 0 name ''''"

text \<open>The composite literals of TypeByName leave the other fields zero; a base type is updated in
  its Kind, Signed and Name.\<close>

definition retype :: "TypeKind \<Rightarrow> bool \<Rightarrow> string \<Rightarrow> CType \<Rightarrow> CType" where
  "retype k s name base =
     CType k (tyWidth base) s (tyPointee base) (tyElem base) (tyArrayLen base) name (tyTypedefOf base)"

function TypeByName :: "string \<Rightarrow> CType option" where
  "TypeByName name =
     (case stripPrefix name ''unsigned '' of
        Some rest \<Rightarrow>
          (case TypeByName rest of
             None \<Rightarrow> None
           | Some base \<Rightarrow> if tyKind base = TypeFloat then None else Some (retype TypeUint False name base))
      | None \<Rightarrow>
          (case stripPrefix name ''signed '' of
             Some rest \<Rightarrow>
               (case TypeByName rest of
                  None \<Rightarrow> None
                | Some base \<Rightarrow> if tyKind base = TypeFloat then None else Some (retype TypeInt True name base))
           | None \<Rightarrow>
               if IsFloat name then
                 Some (namedType TypeFloat (case PrimitiveBits ABILP64 name of Some w \<Rightarrow> w | None \<Rightarrow> 0) False name)
               else
                 (case PrimitiveBits ABILP64 name of
                    Some w \<Rightarrow>
                      (case PrimitiveSignedness ABILP64 name of
                         Some s \<Rightarrow> Some (namedType (if \<not> s then TypeUint else TypeInt) w s name)
                       | None \<Rightarrow> Some (namedType TypeInt w False name))
                  | None \<Rightarrow> None)))"
  by pat_completeness auto
termination
  by (relation "measure length") (auto dest!: stripPrefix_length)

declare TypeByName.simps [simp del]


section \<open>Lemmas\<close>

lemma abiLookup_mem:
  assumes "abiLookup abi name = Some e"
  shows "name \<in> set (map fst fixedWidthTypes @ map fst primitiveTable)"
proof (cases "map_of fixedWidthTypes name")
  case None
  then have "map_of primitiveTable name \<noteq> None"
    using assms by (auto simp: abiLookup_def primitiveLookup_def split: option.splits)
  then have "name \<in> fst ` set primitiveTable" by (simp add: map_of_eq_None_iff)
  then show ?thesis by simp
next
  case (Some y)
  then have "name \<in> fst ` set fixedWidthTypes" using map_of_eq_None_iff by (metis option.distinct(1))
  then show ?thesis by simp
qed

text \<open>What TypeByName promises of one spelling of the table, as a computable test.\<close>

definition agrees :: "string \<Rightarrow> bool" where
  "agrees name =
     (case TypeByName name of
        None \<Rightarrow> False
      | Some t \<Rightarrow>
          PrimitiveBits ABILP64 name = Some (tyWidth t) \<and> tyName t = name
          \<and> (tyKind t = TypeFloat \<longleftrightarrow> IsFloat name)
          \<and> (tyKind t \<noteq> TypeFloat \<longrightarrow> PrimitiveSignedness ABILP64 name = Some (tySigned t))
          \<and> (tyKind t = TypeUint \<longleftrightarrow> \<not> IsFloat name \<and> \<not> tySigned t)
          \<and> (tyKind t = TypeInt \<longleftrightarrow> \<not> IsFloat name \<and> tySigned t))"

lemma agrees_table: "list_all agrees (map fst fixedWidthTypes @ map fst primitiveTable)"
  by code_simp

lemma TypeByName_kind:
  "TypeByName name = Some t \<Longrightarrow>
     tyName t = name \<and> (tyKind t = TypeFloat \<or> tyKind t = TypeInt \<or> tyKind t = TypeUint)"
  by (subst (asm) TypeByName.simps)
    (auto simp: retype_def namedType_def split: option.splits if_splits)

lemma PrimitiveBits_widths:
  assumes "PrimitiveBits ABILP64 name = Some w"
  shows "w \<in> {8, 16, 32, 64} \<or> IsFloat name"
proof -
  have *: "list_all (\<lambda>n. case PrimitiveBits ABILP64 n of None \<Rightarrow> True
           | Some w \<Rightarrow> w \<in> {8, 16, 32, 64} \<or> IsFloat n) (map fst fixedWidthTypes @ map fst primitiveTable)"
    by code_simp
  obtain e where "abiLookup ABILP64 name = Some e" using assms by (auto simp: PrimitiveBits_def)
  then have "name \<in> set (map fst fixedWidthTypes @ map fst primitiveTable)" by (rule abiLookup_mem)
  with * have "case PrimitiveBits ABILP64 name of None \<Rightarrow> True | Some w \<Rightarrow> w \<in> {8, 16, 32, 64} \<or> IsFloat name"
    by (simp only: list_all_iff)
  with assms show ?thesis by simp
qed

lemma TypeByName_width:
  "TypeByName name = Some t \<Longrightarrow> tyKind t \<noteq> TypeFloat \<Longrightarrow> tyWidth t \<in> {8, 16, 32, 64}"
proof (induction name arbitrary: t rule: TypeByName.induct)
  case (1 name)
  show ?case
  proof (cases "stripPrefix name ''unsigned ''")
    case (Some rest)
    with 1(3,4) obtain base where "TypeByName rest = Some base" "tyKind base \<noteq> TypeFloat" "tyWidth t = tyWidth base"
      by (auto simp: TypeByName.simps [of name] retype_def split: option.splits if_splits)
    then show ?thesis using 1(2) [OF Some, of base] by simp
  next
    case u: None
    show ?thesis
    proof (cases "stripPrefix name ''signed ''")
      case (Some rest)
      with u 1(3,4) obtain base where "TypeByName rest = Some base" "tyKind base \<noteq> TypeFloat" "tyWidth t = tyWidth base"
        by (auto simp: TypeByName.simps [of name] retype_def split: option.splits if_splits)
      then show ?thesis using 1(1) [OF u Some, of base] by simp
    next
      case None
      with u 1(3,4) have "PrimitiveBits ABILP64 name = Some (tyWidth t)" "\<not> IsFloat name"
        by (auto simp: TypeByName.simps [of name] namedType_def split: option.splits if_splits)
      with PrimitiveBits_widths show ?thesis by blast
    qed
  qed
qed

lemma SignedMax_value: "0 < tyWidth t \<Longrightarrow> tyWidth t \<le> 63 \<Longrightarrow> SignedMax t = 2 ^ nat (tyWidth t - 1) - 1"
proof -
  assume w: "0 < tyWidth t" "tyWidth t \<le> 63"
  have "(2 :: int) ^ nat (tyWidth t - 1) \<le> 2 ^ 62" using w by (intro power_increasing) auto
  moreover have "(1 :: int) \<le> 2 ^ nat (tyWidth t - 1)" by simp
  ultimately show ?thesis using w by (simp add: SignedMax_def i64_id in64_def int64_simps)
qed

lemma SignedMin_value: "0 < tyWidth t \<Longrightarrow> tyWidth t \<le> 63 \<Longrightarrow> SignedMin t = - (2 ^ nat (tyWidth t - 1))"
proof -
  assume w: "0 < tyWidth t" "tyWidth t \<le> 63"
  have "(2 :: int) ^ nat (tyWidth t - 1) \<le> 2 ^ 62" using w by (intro power_increasing) auto
  moreover have "(1 :: int) \<le> 2 ^ nat (tyWidth t - 1)" by simp
  ultimately have "- ((2 :: int) ^ 63) \<le> - (2 ^ nat (tyWidth t - 1))" "- (2 ^ nat (tyWidth t - 1)) \<le> (2 :: int) ^ 63 - 1"
    by (auto intro: order_trans [of _ 0])
  then have "in64 (- (2 ^ nat (tyWidth t - 1)))" by (simp add: in64_def minInt64_def maxInt64_def)
  then show ?thesis using w by (simp add: SignedMin_def i64_id)
qed

lemma UnsignedMax_value: "0 < tyWidth t \<Longrightarrow> tyWidth t \<le> 64 \<Longrightarrow> UnsignedMax t = 2 ^ nat (tyWidth t) - 1"
proof -
  assume w: "0 < tyWidth t" "tyWidth t \<le> 64"
  show ?thesis
  proof (cases "tyWidth t = 64")
    case False
    have "(2 :: int) ^ nat (tyWidth t) \<le> 2 ^ 63" using w False by (intro power_increasing) auto
    moreover have "(1 :: int) \<le> 2 ^ nat (tyWidth t)" by simp
    ultimately show ?thesis using w by (simp add: UnsignedMax_def)
  qed (simp add: UnsignedMax_def)
qed


section \<open>Properties\<close>

text \<open>C16: type spellings resolve consistently with the ABI table.  Every spelling the LP64 table knows
  resolves, also when a prefix rule handles it first, to a type of the table's width under its own
  name, floating exactly for the floating spellings, and unsigned exactly when the table says so.\<close>

theorem TypeByName_agrees:
  assumes "WidthOfName name = Some w"
  shows "\<exists>t. TypeByName name = Some t \<and> tyWidth t = w \<and> tyName t = name
             \<and> (typeIsFloat t \<longleftrightarrow> IsFloat name) \<and> (IsInteger t \<longleftrightarrow> \<not> IsFloat name)
             \<and> (IsInteger t \<longrightarrow> PrimitiveSignedness ABILP64 name = Some (tySigned t)
                              \<and> (tyKind t = TypeUint \<longleftrightarrow> \<not> tySigned t))"
proof -
  from assms obtain e where "abiLookup ABILP64 name = Some e"
    by (auto simp: WidthOfName_def PrimitiveBits_def)
  then have "agrees name" using agrees_table by (simp only: list_all_iff abiLookup_mem)
  with assms show ?thesis
    by (auto simp: agrees_def WidthOfName_def typeIsFloat_def IsInteger_def split: option.splits)
qed

theorem TypeByName_agrees_witness:
  "\<exists>t. TypeByName ''unsigned long int'' = Some t \<and> tyWidth t = 64"
proof -
  have "WidthOfName ''unsigned long int'' = Some 64" by code_simp
  from TypeByName_agrees [OF this] show ?thesis by blast
qed

text \<open>The bounds of a resolved integer type are those of its width.  Whatever spelling TypeByName
  accepts, prefixes stacked or not, an integer type has width 8, 16, 32 or 64, UnsignedMax is
  2^width - 1, and below 64 bits SignedMin and SignedMax are the two's complement bounds; at 64 bits
  both signed bounds are 0.\<close>

theorem TypeByName_bounds:
  assumes "TypeByName name = Some t" and "IsInteger t"
  shows "tyWidth t \<in> {8, 16, 32, 64} \<and> UnsignedMax t = 2 ^ nat (tyWidth t) - 1
         \<and> (if tyWidth t = 64 then SignedMin t = 0 \<and> SignedMax t = 0
            else SignedMin t = - (2 ^ nat (tyWidth t - 1)) \<and> SignedMax t = 2 ^ nat (tyWidth t - 1) - 1)"
proof -
  have w: "tyWidth t \<in> {8, 16, 32, 64}"
    using TypeByName_width [OF assms(1)] assms(2) by (auto simp: IsInteger_def)
  have u: "UnsignedMax t = 2 ^ nat (tyWidth t) - 1" using w by (intro UnsignedMax_value) auto
  have s: "tyWidth t \<noteq> 64 \<Longrightarrow> SignedMin t = - (2 ^ nat (tyWidth t - 1)) \<and> SignedMax t = 2 ^ nat (tyWidth t - 1) - 1"
    using w by (intro conjI SignedMin_value SignedMax_value) auto
  have z: "tyWidth t = 64 \<Longrightarrow> SignedMin t = 0 \<and> SignedMax t = 0"
    by (simp add: SignedMin_def SignedMax_def)
  from w u s z show ?thesis by simp
qed

theorem TypeByName_bounds_witness:
  "\<exists>t. TypeByName ''unsigned int'' = Some t \<and> UnsignedMax t = 4294967295"
proof -
  have e: "TypeByName ''unsigned int'' = Some (CType TypeUint 32 False None None 0 ''unsigned int'' '''')"
    by code_simp
  from TypeByName_bounds [OF e] e show ?thesis by (simp add: IsInteger_def)
qed

end
