(* ===== verification/Admission_Gate.thy ===== *)
theory Admission_Gate
  imports Prelude
begin

text \<open>
  The resizable admission gate of internal/concurrency/gate.go.  A Gate is a record; its notify
  channel is an identity, and the closed channels are recorded, because a waiter wakes exactly when
  the channel it read under the lock is closed.  The two critical sections (one iteration of Acquire,
  and Release) are functions; the interleavings of the goroutines that call them are a step relation
  in which each critical section is one step, as the mutex makes it.
\<close>

record Gate =
  gMax :: int
  gHasPressured :: bool
  gInflight :: int
  gNotify :: nat
  gClosed :: "nat list"

definition NewGate :: "int \<Rightarrow> bool \<Rightarrow> Gate" where
  "NewGate mx hasPressured =
     \<lparr>gMax = (if mx < 1 then 1 else mx), gHasPressured = hasPressured, gInflight = 0,
      gNotify = 0, gClosed = []\<rparr>"

text \<open>One locked iteration of Acquire: pressured is the answer of the gate's predicate, asked only
  when there is one.  Inl: the slot is taken; Inr ch: the caller will wait on channel ch.\<close>

definition gateLimit :: "bool \<Rightarrow> Gate \<Rightarrow> int" where
  "gateLimit pressured g = (if gHasPressured g \<and> pressured then 1 else gMax g)"

definition acquireLocked :: "bool \<Rightarrow> Gate \<Rightarrow> (Gate + nat)" where
  "acquireLocked pressured g =
     (if gInflight g < gateLimit pressured g then Inl (g\<lparr>gInflight := gInflight g + 1\<rparr>)
      else Inr (gNotify g))"

definition wakeLocked :: "Gate \<Rightarrow> Gate" where
  "wakeLocked g = g\<lparr>gClosed := gNotify g # gClosed g, gNotify := Suc (gNotify g)\<rparr>"

definition Release :: "Gate \<Rightarrow> Gate" where
  "Release g = wakeLocked (if 0 < gInflight g then g\<lparr>gInflight := gInflight g - 1\<rparr> else g)"

text \<open>The goroutines.  A goroutine is outside the gate, about to run the locked iteration of
  Acquire, blocked in its select on a channel, holding a slot, or was cancelled.\<close>

datatype goroutine = Outside | Trying | Waiting nat | Holding | Cancelled

type_synonym gateSys = "Gate \<times> (nat \<Rightarrow> goroutine)"

inductive gate_step :: "gateSys \<Rightarrow> gateSys \<Rightarrow> bool" where
  start: "pc t = Outside \<Longrightarrow> gate_step (g, pc) (g, pc(t := Trying))"
| admit: "pc t = Trying \<Longrightarrow> acquireLocked pressured g = Inl g' \<Longrightarrow> gate_step (g, pc) (g', pc(t := Holding))"
| block: "pc t = Trying \<Longrightarrow> acquireLocked pressured g = Inr ch \<Longrightarrow> gate_step (g, pc) (g, pc(t := Waiting ch))"
| wake: "pc t = Waiting ch \<Longrightarrow> ch \<in> set (gClosed g) \<Longrightarrow> gate_step (g, pc) (g, pc(t := Trying))"
| cancel: "pc t = Waiting ch \<Longrightarrow> gate_step (g, pc) (g, pc(t := Cancelled))"
| release: "pc t = Holding \<Longrightarrow> gate_step (g, pc) (Release g, pc(t := Outside))"

inductive gate_reach :: "Gate \<Rightarrow> gateSys \<Rightarrow> bool" for g0 where
  init: "gate_reach g0 (g0, \<lambda>_. Outside)"
| step: "gate_reach g0 s \<Longrightarrow> gate_step s s' \<Longrightarrow> gate_reach g0 s'"

lemma acquireLocked_Inl:
  "acquireLocked p g = Inl g' \<longleftrightarrow>
     gInflight g < gateLimit p g \<and> g' = g\<lparr>gInflight := gInflight g + 1\<rparr>"
  by (auto simp: acquireLocked_def)

lemma acquireLocked_Inr:
  "acquireLocked p g = Inr ch \<longleftrightarrow> gateLimit p g \<le> gInflight g \<and> ch = gNotify g"
  by (auto simp: acquireLocked_def)

lemma Release_simps [simp]:
  "gMax (Release g) = gMax g"
  "gHasPressured (Release g) = gHasPressured g"
  "gNotify (Release g) = Suc (gNotify g)"
  "gClosed (Release g) = gNotify g # gClosed g"
  "gInflight (Release g) = (if 0 < gInflight g then gInflight g - 1 else gInflight g)"
  by (simp_all add: Release_def wakeLocked_def)

definition holders :: "(nat \<Rightarrow> goroutine) \<Rightarrow> nat set" where
  "holders pc = {t. pc t = Holding}"

text \<open>The invariant: the count is the number of holders, it is at most max, exactly the channels
  before the current one are closed, a waiter waits on a channel the gate has handed out, and
  whoever waits on the open channel has somebody in the gate to wake it.\<close>

definition gate_inv :: "Gate \<Rightarrow> gateSys \<Rightarrow> bool" where
  "gate_inv g0 s = (case s of (g, pc) \<Rightarrow>
     gMax g = gMax g0 \<and> gHasPressured g = gHasPressured g0
     \<and> finite (holders pc) \<and> gInflight g = int (card (holders pc)) \<and> gInflight g \<le> gMax g
     \<and> set (gClosed g) = {..<gNotify g}
     \<and> (\<forall>t ch. pc t = Waiting ch \<longrightarrow> ch \<le> gNotify g)
     \<and> (\<forall>t. pc t = Waiting (gNotify g) \<longrightarrow> holders pc \<noteq> {}))"

lemma holders_upd:
  "holders (pc(t := x)) = (if x = Holding then insert t (holders pc) else holders pc - {t})"
  by (auto simp: holders_def)

lemma holders_mem [simp]: "t \<in> holders pc \<longleftrightarrow> pc t = Holding"
  by (simp add: holders_def)

lemma gate_inv_init: "gate_inv (NewGate mx p) (NewGate mx p, \<lambda>_. Outside)"
  by (simp add: gate_inv_def NewGate_def holders_def)

lemma gateLimit_pos: "1 \<le> gMax g \<Longrightarrow> 1 \<le> gateLimit p g"
  by (simp add: gateLimit_def)

lemma gate_inv_step:
  assumes "1 \<le> gMax g0" "gate_inv g0 (g, pc)" "gate_step (g, pc) s'"
  shows "gate_inv g0 s'"
  using assms(3)
proof cases
  case (start t)
  then have "holders (pc(t := Trying)) = holders pc" by (auto simp: holders_upd)
  with start assms show ?thesis by (auto simp: gate_inv_def)
next
  case (admit t p g')
  have lim: "gateLimit p g \<le> gMax g" using assms by (auto simp: gateLimit_def gate_inv_def)
  from admit have "holders (pc(t := Holding)) = insert t (holders pc)" "t \<notin> holders pc"
    by (auto simp: holders_upd)
  with admit assms lim show ?thesis
    by (auto simp: gate_inv_def acquireLocked_Inl)
next
  case (block t p ch)
  then have h: "holders (pc(t := Waiting ch)) = holders pc" by (auto simp: holders_upd)
  from block have "1 \<le> gInflight g"
    using gateLimit_pos [of g p] assms by (auto simp: gate_inv_def acquireLocked_Inr)
  then have "holders pc \<noteq> {}" using assms by (auto simp: gate_inv_def)
  with h block assms show ?thesis by (auto simp: gate_inv_def acquireLocked_Inr)
next
  case (wake t ch)
  then have "holders (pc(t := Trying)) = holders pc" by (auto simp: holders_upd)
  with wake assms show ?thesis by (auto simp: gate_inv_def)
next
  case (cancel t ch)
  then have "holders (pc(t := Cancelled)) = holders pc" by (auto simp: holders_upd)
  with cancel assms show ?thesis by (auto simp: gate_inv_def)
next
  case (release t)
  then have h: "holders (pc(t := Outside)) = holders pc - {t}" and t: "t \<in> holders pc"
    by (auto simp: holders_upd)
  have fin: "finite (holders pc)" and n: "gInflight g = int (card (holders pc))"
    using assms by (auto simp: gate_inv_def)
  have pos: "0 < card (holders pc)" using t fin by (metis card_gt_0_iff empty_iff)
  have c: "card (holders pc - {t}) = card (holders pc) - 1" using t by simp
  have w: "\<And>t ch. pc t = Waiting ch \<Longrightarrow> ch \<le> gNotify g" using assms by (auto simp: gate_inv_def)
  have "\<And>t'. (pc(t := Outside)) t' \<noteq> Waiting (Suc (gNotify g))"
    using w by (metis fun_upd_apply goroutine.distinct(3) not_less_eq_eq order_refl)
  moreover have "\<And>t' ch. (pc(t := Outside)) t' = Waiting ch \<Longrightarrow> ch \<le> Suc (gNotify g)"
    using w by (metis fun_upd_apply goroutine.distinct(3) le_Suc_eq)
  ultimately show ?thesis
    using release assms h fin n c pos
    by (simp add: gate_inv_def lessThan_Suc del: holders_mem)
qed

lemma gate_reach_inv:
  assumes "gate_reach (NewGate mx p) s"
  shows "gate_inv (NewGate mx p) s"
  using assms
proof (induction rule: gate_reach.induct)
  case init
  then show ?case by (rule gate_inv_init)
next
  case (step s s')
  have "1 \<le> gMax (NewGate mx p)" by (simp add: NewGate_def)
  with step gate_inv_step show ?case by (cases s) blast
qed

section \<open>Properties\<close>

text \<open>C14: the gate bounds the tasks in flight.  In every state reachable by any interleaving of
  goroutines, the goroutines that hold a slot are exactly as many as inflight counts and at most max
  (clamped to 1), and while the memory is pressured a new task is admitted only when none is in
  flight, so the stage drains to one task.\<close>

theorem gate_bounded:
  assumes "gate_reach (NewGate mx hasPressured) (g, pc)"
  shows "finite {t. pc t = Holding} \<and> int (card {t. pc t = Holding}) = gInflight g
         \<and> gInflight g \<le> max 1 mx
         \<and> (hasPressured \<and> acquireLocked True g = Inl g' \<longrightarrow> {t. pc t = Holding} = {})"
proof -
  note inv = gate_reach_inv [OF assms, unfolded gate_inv_def, simplified]
  have m: "gMax (NewGate mx hasPressured) = max 1 mx" "gHasPressured (NewGate mx hasPressured) = hasPressured"
    by (auto simp: NewGate_def)
  show ?thesis
    using inv m by (auto simp: holders_def acquireLocked_Inl gateLimit_def)
qed

definition twoTasks :: "nat \<Rightarrow> goroutine" where
  "twoTasks = (\<lambda>_. Outside)(1 := Holding, 2 := Waiting 0)"

lemma twoTasks_reach:
  "gate_reach (NewGate 1 True) ((NewGate 1 True)\<lparr>gInflight := 1\<rparr>, twoTasks)"
proof -
  let ?g = "NewGate 1 True" and ?pc = "\<lambda>_. Outside"
  let ?g1 = "?g\<lparr>gInflight := 1\<rparr>" and ?pc1 = "?pc(1 := Holding)"
  have "gate_reach ?g (?g, ?pc(1 := Trying))"
    by (rule gate_reach.step [OF gate_reach.init gate_step.start]) simp
  then have "gate_reach ?g (?g1, (?pc(1 := Trying))(1 := Holding))"
    by (rule gate_reach.step [OF _ gate_step.admit [where pressured = True]])
      (simp_all add: acquireLocked_def NewGate_def gateLimit_def)
  then have "gate_reach ?g (?g1, ?pc1)" by simp
  then have "gate_reach ?g (?g1, ?pc1(2 := Trying))"
    by (rule gate_reach.step [OF _ gate_step.start]) simp
  then have "gate_reach ?g (?g1, (?pc1(2 := Trying))(2 := Waiting 0))"
    by (rule gate_reach.step [OF _ gate_step.block [where pressured = True]])
      (simp_all add: acquireLocked_def NewGate_def gateLimit_def)
  then show ?thesis by (simp add: twoTasks_def)
qed

theorem gate_bounded_witness:
  "int (card {t. twoTasks t = Holding}) = 1"
  using gate_bounded [OF twoTasks_reach] by simp

text \<open>C15: no wake-up is lost.  In every reachable state a goroutine blocked in Acquire either has its
  channel already closed, so that it can take its wake step, or some goroutine holds a slot and the
  Release of that slot closes the channel: waiters are never left behind an empty gate.\<close>

theorem gate_wakeup:
  assumes "gate_reach (NewGate mx hasPressured) (g, pc)" and "pc t = Waiting ch"
  shows "(ch \<in> set (gClosed g) \<and> gate_step (g, pc) (g, pc(t := Trying)))
         \<or> (\<exists>h. pc h = Holding \<and> gate_step (g, pc) (Release g, pc(h := Outside))
                \<and> ch \<in> set (gClosed (Release g)))"
proof (cases "ch \<in> set (gClosed g)")
  case True
  with assms(2) show ?thesis by (auto intro: gate_step.wake)
next
  case False
  note inv = gate_reach_inv [OF assms(1), unfolded gate_inv_def, simplified]
  have "ch = gNotify g" using False assms(2) inv by (metis lessThan_iff order_le_less)
  moreover from this obtain h where "pc h = Holding" using assms(2) inv by (auto simp: holders_def)
  ultimately show ?thesis by (auto intro: gate_step.release)
qed

theorem gate_wakeup_witness:
  "twoTasks 2 = Waiting 0 \<and> (\<exists>h. twoTasks h = Holding)"
  using gate_wakeup [OF twoTasks_reach, of 2 0] by (auto simp: twoTasks_def NewGate_def)

end
