(* ===== verification/Tree_Cache.thy ===== *)
theory Tree_Cache
  imports Prelude
begin

text \<open>
  The parse-tree cache of internal/parser/parser.go: Tree (a reference-counted handle on a
  tree-sitter tree and, when it has one, on its dedicated parser) and Parser (the LRU cache of trees).
  The trees live in a store indexed by number, because the cache, the borrowers and the transient
  list share them.  Closing a tree-sitter tree or parser is an effect of third-party code; the model
  counts the calls.  Whether the third-party parser returns a tree for a source is the parameter
  tsParse.  The operations under the parser's mutex, and the atomic Release, are single steps.
\<close>

record tree =
  trHandle :: bool
  trSrc :: string
  trCached :: bool
  trOwnsParser :: bool
  trParser :: bool
  trName :: string
  trTransient :: bool
  trRefs :: int
  trRetired :: bool
  trClosed :: bool
  trLast :: int
  trTreeCloses :: nat
  trParserCloses :: nat

datatype leak = LeakedCached string int | LeakedTransients int | LeakedTransient string

record parserState =
  psParser :: bool
  psCache :: "(string \<times> nat) list"
  psMax :: int
  psClock :: int
  psTransientActive :: int
  psClosed :: bool
  psLeaked :: "leak list"
  psOrigins :: "nat list"
  psTrees :: "tree list"

definition newTree :: "string \<Rightarrow> string \<Rightarrow> tree" where
  "newTree source filename =
     \<lparr>trHandle = True, trSrc = source, trCached = False, trOwnsParser = False, trParser = False,
      trName = filename, trTransient = False, trRefs = 0, trRetired = False, trClosed = False,
      trLast = 0, trTreeCloses = 0, trParserCloses = 0\<rparr>"

definition NewParser :: parserState where
  "NewParser =
     \<lparr>psParser = True, psCache = [], psMax = 0, psClock = 0, psTransientActive = 0, psClosed = False,
      psLeaked = [], psOrigins = [], psTrees = []\<rparr>"

definition SetMaxCachedTrees :: "int \<Rightarrow> parserState \<Rightarrow> parserState" where
  "SetMaxCachedTrees n p = p\<lparr>psMax := (if n < 0 then 0 else n)\<rparr>"

definition updTree :: "nat \<Rightarrow> (tree \<Rightarrow> tree) \<Rightarrow> parserState \<Rightarrow> parserState" where
  "updTree i f p = p\<lparr>psTrees := (psTrees p)[i := f (psTrees p ! i)]\<rparr>"

text \<open>The body that closeOnce runs: close the tree-sitter tree, then the dedicated parser, then
  settle the transient bookkeeping.\<close>

definition closedTree :: "tree \<Rightarrow> tree" where
  "closedTree t =
     t\<lparr>trClosed := True, trHandle := False,
       trTreeCloses := (if trHandle t then Suc (trTreeCloses t) else trTreeCloses t),
       trParser := (if trOwnsParser t \<and> trParser t then False else trParser t),
       trParserCloses := (if trOwnsParser t \<and> trParser t then Suc (trParserCloses t) else trParserCloses t)\<rparr>"

definition treeClose :: "nat \<Rightarrow> parserState \<Rightarrow> parserState" where
  "treeClose i p =
     (if trClosed (psTrees p ! i) then p
      else (updTree i closedTree p)
             \<lparr>psTransientActive := psTransientActive p - (if trTransient (psTrees p ! i) then 1 else 0),
              psOrigins := removeAll i (psOrigins p)\<rparr>)"

definition treeAcquire :: "nat \<Rightarrow> parserState \<Rightarrow> parserState" where
  "treeAcquire i = updTree i (\<lambda>t. t\<lparr>trRefs := trRefs t + 1\<rparr>)"

definition treeRelease :: "nat \<Rightarrow> parserState \<Rightarrow> parserState" where
  "treeRelease i p =
     (let p' = updTree i (\<lambda>t. t\<lparr>trRefs := trRefs t - 1\<rparr>) p
      in if trRefs (psTrees p' ! i) = 0 \<and> trRetired (psTrees p' ! i) then treeClose i p' else p')"

definition retire :: "nat \<Rightarrow> parserState \<Rightarrow> parserState" where
  "retire i p =
     (let p' = updTree i (\<lambda>t. t\<lparr>trRetired := True\<rparr>) p
      in if trRefs (psTrees p' ! i) = 0 then treeClose i p' else p')"

text \<open>Tree.Close, for the trees of Parse.\<close>

definition treeCloseUncached :: "nat \<Rightarrow> parserState \<Rightarrow> parserState" where
  "treeCloseUncached i p = (if trCached (psTrees p ! i) then p else treeClose i p)"

definition Parse :: "(string \<Rightarrow> bool) \<Rightarrow> string \<Rightarrow> string \<Rightarrow> parserState \<Rightarrow> (string + nat) \<times> parserState" where
  "Parse tsParse source filename p =
     (if psClosed p \<or> \<not> psParser p then (Inl ''parser: closed'', p)
      else if \<not> tsParse source then (Inl (''parser: parse '' @ filename @ '' failed''), p)
      else (Inr (length (psTrees p)), p\<lparr>psTrees := psTrees p @ [newTree source filename]\<rparr>))"

text \<open>The scan for the oldest unreferenced entry; the accumulator is the best key so far and its
  timestamp, which starts at the largest uint64.\<close>

definition maxUint64 :: int where "maxUint64 = 2 ^ 64 - 1"

fun oldestScan :: "tree list \<Rightarrow> (string \<times> nat) list \<Rightarrow> int \<Rightarrow> string option \<Rightarrow> string option" where
  "oldestScan ts [] oldestLast best = best"
| "oldestScan ts ((k, i) # es) oldestLast best =
     (if trRefs (ts ! i) > 0 then oldestScan ts es oldestLast best
      else if trLast (ts ! i) < oldestLast then oldestScan ts es (trLast (ts ! i)) (Some k)
      else oldestScan ts es oldestLast best)"

definition evictOldestUnreferencedLocked :: "parserState \<Rightarrow> parserState option" where
  "evictOldestUnreferencedLocked p =
     (case oldestScan (psTrees p) (psCache p) maxUint64 None of
        None \<Rightarrow> None
      | Some k \<Rightarrow>
          (case map_of (psCache p) k of
             None \<Rightarrow> None
           | Some i \<Rightarrow> Some (retire i (p\<lparr>psCache := filter (\<lambda>e. fst e \<noteq> k) (psCache p)\<rparr>))))"

definition tick :: "parserState \<Rightarrow> parserState" where
  "tick p = p\<lparr>psClock := (psClock p + 1) mod 2 ^ 64\<rparr>"

text \<open>The last part of ParseCached, with the fresh tree t: store it in the cache, evicting if the
  cache is full, or lend it as a transient when every entry is borrowed.\<close>

definition insertTree :: "string \<Rightarrow> tree \<Rightarrow> parserState \<Rightarrow> nat \<times> parserState" where
  "insertTree filename t p =
     (let i = length (psTrees p) in
      if psMax p > 0 \<and> int (length (psCache p)) \<ge> psMax p then
        (case evictOldestUnreferencedLocked p of
           None \<Rightarrow>
             (i, p\<lparr>psTrees := psTrees p @ [t\<lparr>trCached := False, trTransient := True, trRetired := True, trRefs := 1\<rparr>],
                   psTransientActive := psTransientActive p + 1, psOrigins := i # psOrigins p\<rparr>)
         | Some p' \<Rightarrow>
             (i, p'\<lparr>psTrees := psTrees p' @ [t\<lparr>trRefs := 1\<rparr>], psCache := (filename, i) # psCache p'\<rparr>))
      else (i, p\<lparr>psTrees := psTrees p @ [t\<lparr>trRefs := 1\<rparr>], psCache := (filename, i) # psCache p\<rparr>))"

definition ParseCached :: "(string \<Rightarrow> bool) \<Rightarrow> string \<Rightarrow> string \<Rightarrow> parserState \<Rightarrow> (string + nat) \<times> parserState" where
  "ParseCached tsParse source filename p =
     (if psClosed p then (Inl ''parser: closed'', p)
      else case map_of (psCache p) filename of
        Some i \<Rightarrow>
          (let p' = tick p
           in (Inr i, updTree i (\<lambda>t. t\<lparr>trLast := psClock p', trRefs := trRefs t + 1\<rparr>) p'))
      | None \<Rightarrow>
          if \<not> tsParse source then (Inl (''parser: parse '' @ filename @ '' failed''), p)
          else (let p' = tick p;
                    t = (newTree source filename)
                          \<lparr>trCached := True, trOwnsParser := True, trParser := True, trLast := psClock p'\<rparr>
                in case insertTree filename t p' of (i, p'') \<Rightarrow> (Inr i, p'')))"

fun closeEntries :: "(string \<times> nat) list \<Rightarrow> parserState \<Rightarrow> parserState" where
  "closeEntries [] p = p"
| "closeEntries ((name, i) # es) p =
     (let p' = updTree i (\<lambda>t. t\<lparr>trRetired := True\<rparr>) p
      in closeEntries es
           (if trRefs (psTrees p' ! i) = 0 then treeClose i p'
            else p'\<lparr>psLeaked := psLeaked p' @ [LeakedCached name (trRefs (psTrees p' ! i))]\<rparr>))"

definition CloseAll :: "parserState \<Rightarrow> parserState" where
  "CloseAll p =
     (if psClosed p then p
      else let p1 = closeEntries (psCache p) (p\<lparr>psClosed := True\<rparr>);
               p2 = p1\<lparr>psCache := []\<rparr>;
               p3 = (if psTransientActive p2 > 0
                     then p2\<lparr>psLeaked := psLeaked p2 @ LeakedTransients (psTransientActive p2)
                               # map (\<lambda>i. LeakedTransient (trName (psTrees p2 ! i))) (psOrigins p2)\<rparr>
                     else p2)
           in p3\<lparr>psParser := False\<rparr>)"

definition CacheStats :: "parserState \<Rightarrow> int \<times> int" where
  "CacheStats p = (int (length (psCache p)), psTransientActive p)"

definition PinnedTrees :: "parserState \<Rightarrow> int" where
  "PinnedTrees p = int (length (filter (\<lambda>e. trRefs (psTrees p ! snd e) > 0) (psCache p)))"

definition ActiveTreeHandles :: "parserState \<Rightarrow> int" where
  "ActiveTreeHandles p = int (length (psCache p)) + psTransientActive p"

text \<open>RootNode gives the null node once the handle is gone.\<close>

definition hasRoot :: "nat \<Rightarrow> parserState \<Rightarrow> bool" where
  "hasRoot i p \<longleftrightarrow> trHandle (psTrees p ! i)"

definition WithParseCached ::
  "(string \<Rightarrow> bool) \<Rightarrow> string \<Rightarrow> string \<Rightarrow> (nat \<Rightarrow> parserState \<Rightarrow> parserState) \<Rightarrow> parserState
     \<Rightarrow> string option \<times> parserState" where
  "WithParseCached tsParse source filename fn p =
     (case ParseCached tsParse source filename p of
        (Inl e, p') \<Rightarrow> (Some e, p')
      | (Inr i, p') \<Rightarrow> (None, treeRelease i (fn i p')))"


section \<open>The clients' protocol\<close>

text \<open>A system state pairs the parser with the borrows its clients hold.  ParseCached lends one
  borrow, Acquire adds one to a tree already borrowed, Release gives one back; Tree.Close is called
  on cached trees (where it does nothing) and on trees of Parse that nobody has borrowed.\<close>

type_synonym cacheSys = "parserState \<times> (nat \<Rightarrow> nat)"

inductive cache_step :: "cacheSys \<Rightarrow> cacheSys \<Rightarrow> bool" where
  parse: "Parse tsParse source filename p = (Inr i, p') \<Longrightarrow> cache_step (p, b) (p', b)"
| parseCached: "ParseCached tsParse source filename p = (Inr i, p') \<Longrightarrow> cache_step (p, b) (p', b(i := Suc (b i)))"
| acquire: "0 < b i \<Longrightarrow> cache_step (p, b) (treeAcquire i p, b(i := Suc (b i)))"
| release: "0 < b i \<Longrightarrow> cache_step (p, b) (treeRelease i p, b(i := b i - 1))"
| close: "i < length (psTrees p) \<Longrightarrow> trCached (psTrees p ! i) \<or> (\<not> trTransient (psTrees p ! i) \<and> b i = 0)
           \<Longrightarrow> cache_step (p, b) (treeCloseUncached i p, b)"
| closeAll: "cache_step (p, b) (CloseAll p, b)"

inductive cache_reach :: "int \<Rightarrow> cacheSys \<Rightarrow> bool" for n where
  init: "cache_reach n (SetMaxCachedTrees n NewParser, \<lambda>_. 0)"
| step: "cache_reach n s \<Longrightarrow> cache_step s s' \<Longrightarrow> cache_reach n s'"


section \<open>The invariant\<close>

definition liveTransient :: "tree \<Rightarrow> bool" where
  "liveTransient t \<longleftrightarrow> trTransient t \<and> \<not> trClosed t"

definition tree_ok :: "tree \<Rightarrow> nat \<Rightarrow> bool \<Rightarrow> bool" where
  "tree_ok t n inC \<longleftrightarrow>
     trRefs t = int n
     \<and> (trClosed t \<longrightarrow> n = 0 \<and> \<not> trHandle t \<and> trTreeCloses t = 1 \<and> \<not> trParser t
          \<and> trParserCloses t = (if trOwnsParser t then 1 else 0))
     \<and> (\<not> trClosed t \<longrightarrow> trHandle t \<and> trTreeCloses t = 0 \<and> trParser t = trOwnsParser t \<and> trParserCloses t = 0)
     \<and> (trRetired t \<and> n = 0 \<longrightarrow> trClosed t)
     \<and> (trClosed t \<and> trOwnsParser t \<longrightarrow> trRetired t)
     \<and> (trTransient t \<longrightarrow> \<not> trCached t \<and> trOwnsParser t \<and> trRetired t)
     \<and> (trCached t \<longrightarrow> trOwnsParser t)
     \<and> (\<not> trOwnsParser t \<longrightarrow> \<not> trRetired t \<and> n = 0)
     \<and> (inC \<longleftrightarrow> trOwnsParser t \<and> \<not> trRetired t)
     \<and> (trOwnsParser t \<longrightarrow> trCached t \<or> trTransient t)"

definition cache_ok :: "parserState \<Rightarrow> (nat \<Rightarrow> nat) \<Rightarrow> bool" where
  "cache_ok p b \<longleftrightarrow>
     (\<forall>i < length (psTrees p). tree_ok (psTrees p ! i) (b i) (i \<in> snd ` set (psCache p)))
     \<and> (\<forall>i \<ge> length (psTrees p). b i = 0)
     \<and> distinct (map fst (psCache p)) \<and> distinct (map snd (psCache p))
     \<and> (\<forall>(k, i) \<in> set (psCache p). i < length (psTrees p) \<and> trName (psTrees p ! i) = k)
     \<and> psTransientActive p = int (length (filter liveTransient (psTrees p)))
     \<and> set (psOrigins p) = {i. i < length (psTrees p) \<and> liveTransient (psTrees p ! i)}
     \<and> (0 < psMax p \<longrightarrow> int (length (psCache p)) \<le> psMax p)"

lemma updTree_simps [simp]:
  "psTrees (updTree i f p) = (psTrees p)[i := f (psTrees p ! i)]"
  "psCache (updTree i f p) = psCache p" "psMax (updTree i f p) = psMax p"
  "psClock (updTree i f p) = psClock p" "psTransientActive (updTree i f p) = psTransientActive p"
  "psClosed (updTree i f p) = psClosed p" "psLeaked (updTree i f p) = psLeaked p"
  "psOrigins (updTree i f p) = psOrigins p" "psParser (updTree i f p) = psParser p"
  by (simp_all add: updTree_def)

lemma tick_simps [simp]:
  "psTrees (tick p) = psTrees p" "psCache (tick p) = psCache p" "psMax (tick p) = psMax p"
  "psTransientActive (tick p) = psTransientActive p" "psOrigins (tick p) = psOrigins p"
  "psClosed (tick p) = psClosed p" "psParser (tick p) = psParser p" "psLeaked (tick p) = psLeaked p"
  by (simp_all add: tick_def)

text \<open>One tree changes and the rest stays: what a step has to show.\<close>

lemma cache_ok_upd:
  assumes "cache_ok p b" and i: "i < length (psTrees p)"
    and ts: "psTrees p' = (psTrees p)[i := t']" and name: "trName t' = trName (psTrees p ! i)"
    and c: "psCache p' = filter (\<lambda>e. snd e \<noteq> i \<or> keep) (psCache p)"
    and mx: "psMax p' = psMax p"
    and act: "psTransientActive p' = psTransientActive p - (if liveTransient (psTrees p ! i) then 1 else 0)
                + (if liveTransient t' then 1 else 0)"
    and org: "set (psOrigins p') = (set (psOrigins p) - {i}) \<union> (if liveTransient t' then {i} else {})"
    and ok: "tree_ok t' n' (i \<in> snd ` set (psCache p) \<and> keep)"
  shows "cache_ok p' (b(i := n'))"
proof -
  have mem: "\<And>j. j \<in> snd ` set (psCache p') \<longleftrightarrow> j \<in> snd ` set (psCache p) \<and> (j \<noteq> i \<or> keep)"
    using c by auto
  have trees: "\<forall>j < length (psTrees p'). tree_ok (psTrees p' ! j) ((b(i := n')) j) (j \<in> snd ` set (psCache p'))"
    using assms(1) i ok unfolding mem ts cache_ok_def by (auto simp: nth_list_update)
  have keys: "\<forall>(k, j) \<in> set (psCache p'). j < length (psTrees p') \<and> trName (psTrees p' ! j) = k"
    using assms(1) i name unfolding ts c cache_ok_def by (auto simp: nth_list_update)
  have len: "length (psCache p') \<le> length (psCache p)" unfolding c by simp
  show ?thesis
    unfolding cache_ok_def
  proof (intro conjI)
    show "psTransientActive p' = int (length (filter liveTransient (psTrees p')))"
      using act assms(1) unfolding ts length_filter_upd [OF i] by (auto simp: cache_ok_def)
    show "set (psOrigins p') = {j. j < length (psTrees p') \<and> liveTransient (psTrees p' ! j)}"
      using org assms(1) i unfolding ts cache_ok_def by (auto simp: nth_list_update)
    show "distinct (map fst (psCache p'))" "distinct (map snd (psCache p'))"
      using assms(1) unfolding c cache_ok_def by (simp_all add: distinct_map_filter)
    show "0 < psMax p' \<longrightarrow> int (length (psCache p')) \<le> psMax p'"
      using assms(1) len unfolding mx cache_ok_def by auto
    show "\<forall>j\<ge>length (psTrees p'). (b(i := n')) j = 0"
      using assms(1) i unfolding ts cache_ok_def by auto
  qed (use trees keys in auto)
qed

lemma treeClose_simps:
  "psTrees (treeClose i p) = (if trClosed (psTrees p ! i) then psTrees p else (psTrees p)[i := closedTree (psTrees p ! i)])"
  "psCache (treeClose i p) = psCache p" "psMax (treeClose i p) = psMax p"
  "psClosed (treeClose i p) = psClosed p" "psLeaked (treeClose i p) = psLeaked p"
  "psTransientActive (treeClose i p) =
     psTransientActive p - (if trTransient (psTrees p ! i) \<and> \<not> trClosed (psTrees p ! i) then 1 else 0)"
  "psOrigins (treeClose i p) = (if trClosed (psTrees p ! i) then psOrigins p else removeAll i (psOrigins p))"
  by (simp_all add: treeClose_def)

lemma closedTree_simps [simp]:
  "trClosed (closedTree t)" "trName (closedTree t) = trName t" "\<not> liveTransient (closedTree t)"
  by (simp_all add: closedTree_def liveTransient_def)

lemma cache_ok_bound: "cache_ok p b \<Longrightarrow> 0 < b i \<Longrightarrow> i < length (psTrees p)"
  unfolding cache_ok_def by (metis leI less_irrefl)

lemma cache_ok_tree:
  "cache_ok p b \<Longrightarrow> i < length (psTrees p) \<Longrightarrow> tree_ok (psTrees p ! i) (b i) (i \<in> snd ` set (psCache p))"
  by (simp add: cache_ok_def)

lemma cache_ok_origins:
  "cache_ok p b \<Longrightarrow> i < length (psTrees p) \<Longrightarrow> i \<in> set (psOrigins p) \<longleftrightarrow> liveTransient (psTrees p ! i)"
  by (simp add: cache_ok_def)

text \<open>The effect of each step on one tree.\<close>

lemma tree_ok_acquire: "tree_ok t n c \<Longrightarrow> 0 < n \<Longrightarrow> tree_ok (t\<lparr>trRefs := trRefs t + 1\<rparr>) (Suc n) c"
  by (auto simp: tree_ok_def)

lemma tree_ok_hit: "tree_ok t n True \<Longrightarrow> \<not> trClosed t \<Longrightarrow> tree_ok (t\<lparr>trLast := l, trRefs := trRefs t + 1\<rparr>) (Suc n) True"
  by (auto simp: tree_ok_def)

lemma tree_ok_release:
  "tree_ok t n c \<Longrightarrow> 0 < n \<Longrightarrow> \<not> (n = 1 \<and> trRetired t) \<Longrightarrow> tree_ok (t\<lparr>trRefs := trRefs t - 1\<rparr>) (n - 1) c"
  by (auto simp: tree_ok_def)

lemma tree_ok_release_close:
  "tree_ok t 1 c \<Longrightarrow> trRetired t \<Longrightarrow> tree_ok (closedTree (t\<lparr>trRefs := trRefs t - 1\<rparr>)) 0 c"
  by (auto simp: tree_ok_def closedTree_def)

lemma tree_ok_close:
  "tree_ok t 0 c \<Longrightarrow> \<not> trOwnsParser t \<Longrightarrow> \<not> trClosed t \<Longrightarrow> tree_ok (closedTree t) 0 c"
  by (cases "trOwnsParser t"; cases "trClosed t"; cases "trCached t") (simp_all add: tree_ok_def closedTree_def)

lemma tree_ok_retire:
  "tree_ok t 0 True \<Longrightarrow> tree_ok (closedTree (t\<lparr>trRetired := True\<rparr>)) 0 False"
  by (cases "trOwnsParser t"; cases "trClosed t"; cases "trCached t") (simp_all add: tree_ok_def closedTree_def)

lemma tree_ok_retire_borrowed:
  "tree_ok t n True \<Longrightarrow> 0 < n \<Longrightarrow> tree_ok (t\<lparr>trRetired := True\<rparr>) n False"
  by (auto simp: tree_ok_def)

lemma tree_ok_refs: "tree_ok t n c \<Longrightarrow> trRefs t = int n"
  unfolding tree_ok_def by (rule conjunct1)

lemma tree_ok_open: "tree_ok t n c \<Longrightarrow> 0 < n \<or> c \<Longrightarrow> \<not> trClosed t"
  unfolding tree_ok_def by blast

lemma tree_ok_inC: "tree_ok t n True \<Longrightarrow> \<not> trRetired t \<and> \<not> trTransient t \<and> trOwnsParser t"
  unfolding tree_ok_def by blast

lemma tree_ok_kinds: "tree_ok t n c \<Longrightarrow> trOwnsParser t \<longleftrightarrow> trCached t \<or> trTransient t"
  unfolding tree_ok_def by blast

lemma liveTransient_upd [simp]:
  "liveTransient (t\<lparr>trRefs := r\<rparr>) = liveTransient t"
  "liveTransient (t\<lparr>trLast := l\<rparr>) = liveTransient t"
  "liveTransient (t\<lparr>trRetired := x\<rparr>) = liveTransient t"
  by (simp_all add: liveTransient_def)

lemma insert_removed: "x \<in> A \<Longrightarrow> A - {x} \<union> {x} = A" "x \<notin> A \<Longrightarrow> A - {x} = A"
  by auto

lemma filter_trivial: "filter (\<lambda>e. snd e \<noteq> i \<or> True) c = c"
  by simp

text \<open>A tree changes without changing its liveness as a transient, or is closed.\<close>

lemma cache_ok_upd_live:
  assumes "cache_ok p b" "i < length (psTrees p)"
    and "psTrees p' = (psTrees p)[i := t']" "trName t' = trName (psTrees p ! i)"
    and "psCache p' = psCache p" "psMax p' = psMax p"
    and "psTransientActive p' = psTransientActive p" "psOrigins p' = psOrigins p"
    and "liveTransient t' = liveTransient (psTrees p ! i)"
    and "tree_ok t' n' (i \<in> snd ` set (psCache p))"
  shows "cache_ok p' (b(i := n'))"
proof (rule cache_ok_upd [OF assms(1-4), where keep = True])
  show "set (psOrigins p') = set (psOrigins p) - {i} \<union> (if liveTransient t' then {i} else {})"
    using cache_ok_origins [OF assms(1,2)] assms(8,9) by (auto simp: insert_removed)
qed (use assms in \<open>simp_all\<close>)

lemma cache_ok_upd_close:
  assumes "cache_ok p b" "i < length (psTrees p)" "\<not> trClosed (psTrees p ! i)"
    and "psTrees p' = (psTrees p)[i := t']" "trName t' = trName (psTrees p ! i)"
    and "psCache p' = filter (\<lambda>e. snd e \<noteq> i \<or> keep) (psCache p)" "psMax p' = psMax p"
    and "psTransientActive p' = psTransientActive p - (if trTransient (psTrees p ! i) then 1 else 0)"
    and "psOrigins p' = removeAll i (psOrigins p)"
    and "trClosed t'" "tree_ok t' n' (i \<in> snd ` set (psCache p) \<and> keep)"
  shows "cache_ok p' (b(i := n'))"
proof (rule cache_ok_upd [OF assms(1,2,4-7)])
  show "psTransientActive p' = psTransientActive p - (if liveTransient (psTrees p ! i) then 1 else 0)
          + (if liveTransient t' then 1 else 0)"
    using assms(3,8,10) by (simp add: liveTransient_def)
  show "set (psOrigins p') = set (psOrigins p) - {i} \<union> (if liveTransient t' then {i} else {})"
    using assms(9,10) by (simp add: liveTransient_def)
qed (use assms in \<open>simp_all\<close>)

lemma acquire_ok:
  assumes "cache_ok p b" "0 < b i"
  shows "cache_ok (treeAcquire i p) (b(i := Suc (b i)))"
proof -
  note i = cache_ok_bound [OF assms]
  show ?thesis
    by (rule cache_ok_upd_live [OF assms(1) i, where t' = "(psTrees p ! i)\<lparr>trRefs := trRefs (psTrees p ! i) + 1\<rparr>"])
      (simp_all add: treeAcquire_def tree_ok_acquire [OF cache_ok_tree [OF assms(1) i] assms(2)])
qed

lemma release_ok:
  assumes "cache_ok p b" "0 < b i"
  shows "cache_ok (treeRelease i p) (b(i := b i - 1))"
proof -
  note i = cache_ok_bound [OF assms]
  note t = cache_ok_tree [OF assms(1) i]
  note r = tree_ok_refs [OF t]
  let ?t = "psTrees p ! i"
  let ?u = "?t\<lparr>trRefs := trRefs ?t - 1\<rparr>"
  have open_t: "\<not> trClosed ?t" using tree_ok_open [OF t] assms(2) by simp
  show ?thesis
  proof (cases "b i = 1 \<and> trRetired ?t")
    case True
    then have "tree_ok (closedTree ?u) (b i - 1) (i \<in> snd ` set (psCache p))"
      using tree_ok_release_close [of ?t] t by simp
    with True r show ?thesis
      by (intro cache_ok_upd_close [OF assms(1) i open_t, where keep = True and t' = "closedTree ?u"])
        (use open_t i in \<open>simp_all add: treeRelease_def treeClose_simps\<close>)
  next
    case False
    with r assms(2) have "\<not> (trRefs ?t - 1 = 0 \<and> trRetired ?t)" by auto
    with False show ?thesis
      by (intro cache_ok_upd_live [OF assms(1) i, where t' = "?u"])
        (use i tree_ok_release [OF t assms(2)] in \<open>auto simp: treeRelease_def\<close>)
  qed
qed

lemma close_ok:
  assumes "cache_ok p b" "i < length (psTrees p)"
    and "trCached (psTrees p ! i) \<or> (\<not> trTransient (psTrees p ! i) \<and> b i = 0)"
  shows "cache_ok (treeCloseUncached i p) b"
proof -
  note t = cache_ok_tree [OF assms(1,2)]
  let ?t = "psTrees p ! i"
  show ?thesis
  proof (cases "trCached ?t \<or> trClosed ?t")
    case True
    then have "treeCloseUncached i p = p" by (auto simp: treeCloseUncached_def treeClose_def)
    with assms(1) show ?thesis by simp
  next
    case False
    then have c: "\<not> trClosed ?t" and n: "b i = 0" and "\<not> trOwnsParser ?t"
      using assms(3) tree_ok_kinds [OF t] by auto
    then have ok: "tree_ok (closedTree ?t) (b i) (i \<in> snd ` set (psCache p))"
      using tree_ok_close [of ?t] t by simp
    have "cache_ok (treeCloseUncached i p) (b(i := b i))"
      by (rule cache_ok_upd_close [OF assms(1,2) c, where keep = True and t' = "closedTree ?t"])
        (use ok False in \<open>simp_all add: treeCloseUncached_def treeClose_simps\<close>)
    then show ?thesis by simp
  qed
qed

text \<open>The scan finds an unreferenced entry with the smallest timestamp, if there is one.\<close>

definition noneFree :: "tree list \<Rightarrow> (string \<times> nat) list \<Rightarrow> int \<Rightarrow> bool" where
  "noneFree ts es l \<longleftrightarrow> (\<forall>e \<in> set es. 0 < trRefs (ts ! snd e) \<or> l \<le> trLast (ts ! snd e))"

definition isOldest :: "tree list \<Rightarrow> (string \<times> nat) list \<Rightarrow> string \<times> nat \<Rightarrow> bool" where
  "isOldest ts es e \<longleftrightarrow> trRefs (ts ! snd e) \<le> 0 \<and> noneFree ts es (trLast (ts ! snd e))"

lemma noneFree_Cons:
  "noneFree ts (x # es) l \<longleftrightarrow> (0 < trRefs (ts ! snd x) \<or> l \<le> trLast (ts ! snd x)) \<and> noneFree ts es l"
  by (simp add: noneFree_def)

lemma noneFree_mono: "noneFree ts es l \<Longrightarrow> l' \<le> l \<Longrightarrow> noneFree ts es l'"
  unfolding noneFree_def by (meson order_trans)

lemma oldestScan_spec:
  "(oldestScan ts es l best = best \<and> noneFree ts es l)
   \<or> (\<exists>e \<in> set es. oldestScan ts es l best = Some (fst e) \<and> trLast (ts ! snd e) < l \<and> isOldest ts es e)"
proof (induction ts es l best rule: oldestScan.induct)
  case (1 ts l best)
  then show ?case by (simp add: noneFree_def)
next
  case (2 ts k i es l best)
  show ?case
  proof (cases "trRefs (ts ! i) > 0 \<or> l \<le> trLast (ts ! i)")
    case True
    then have e: "oldestScan ts ((k, i) # es) l best = oldestScan ts es l best" by auto
    have "(oldestScan ts es l best = best \<and> noneFree ts es l)
        \<or> (\<exists>e \<in> set es. oldestScan ts es l best = Some (fst e) \<and> trLast (ts ! snd e) < l \<and> isOldest ts es e)"
      using 2(1,3) True by (cases "trRefs (ts ! i) > 0") (blast, simp)
    then show ?thesis
      unfolding e isOldest_def noneFree_Cons using True by (elim disjE bexE) auto
  next
    case False
    then have e: "oldestScan ts ((k, i) # es) l best = oldestScan ts es (trLast (ts ! i)) (Some k)" by auto
    from False have "(oldestScan ts es (trLast (ts ! i)) (Some k) = Some k \<and> noneFree ts es (trLast (ts ! i)))
        \<or> (\<exists>e \<in> set es. oldestScan ts es (trLast (ts ! i)) (Some k) = Some (fst e)
              \<and> trLast (ts ! snd e) < trLast (ts ! i) \<and> isOldest ts es e)"
      by (intro 2(2)) auto
    then show ?thesis
    proof
      assume "oldestScan ts es (trLast (ts ! i)) (Some k) = Some k \<and> noneFree ts es (trLast (ts ! i))"
      then show ?thesis
        unfolding e using False by (intro disjI2 bexI [of _ "(k, i)"]) (auto simp: isOldest_def noneFree_Cons)
    next
      assume "\<exists>e \<in> set es. oldestScan ts es (trLast (ts ! i)) (Some k) = Some (fst e)
                \<and> trLast (ts ! snd e) < trLast (ts ! i) \<and> isOldest ts es e"
      then show ?thesis
        unfolding e isOldest_def noneFree_Cons using False by (elim bexE) (intro disjI2, auto)
    qed
  qed
qed

lemma distinct_keys_filter:
  assumes "distinct (map fst c)" "distinct (map snd c)" "(k, i) \<in> set c"
  shows "filter (\<lambda>e. fst e \<noteq> k) c = filter (\<lambda>e. snd e \<noteq> i) c"
proof (rule filter_cong [OF refl])
  fix e assume e: "e \<in> set c"
  show "(fst e \<noteq> k) = (snd e \<noteq> i)"
    using assms e by (auto simp: distinct_map inj_on_def) (metis fst_conv snd_conv)+
qed

lemma cache_ok_refs: "cache_ok p b \<Longrightarrow> e \<in> set (psCache p) \<Longrightarrow> trRefs (psTrees p ! snd e) = int (b (snd e))"
  unfolding cache_ok_def by (cases e) (metis (no_types, lifting) case_prod_conv snd_conv tree_ok_refs)

lemma cache_ok_entry:
  assumes "cache_ok p b" "(k, i) \<in> set (psCache p)"
  shows "i < length (psTrees p)" "i \<in> snd ` set (psCache p)" "map_of (psCache p) k = Some i"
    "trName (psTrees p ! i) = k" "tree_ok (psTrees p ! i) (b i) True"
proof -
  note d = assms(1) [unfolded cache_ok_def]
  show i: "i < length (psTrees p)" and "trName (psTrees p ! i) = k" using d assms(2) by blast+
  show mem: "i \<in> snd ` set (psCache p)" using assms(2) by force
  show "map_of (psCache p) k = Some i" using d assms(2) by simp
  show "tree_ok (psTrees p ! i) (b i) True" using cache_ok_tree [OF assms(1) i] mem by simp
qed

lemma evict_Some:
  assumes "evictOldestUnreferencedLocked p = Some p'" and "cache_ok p b"
  obtains k i where "(k, i) \<in> set (psCache p)" "b i = 0"
    "p' = retire i (p\<lparr>psCache := filter (\<lambda>e. snd e \<noteq> i) (psCache p)\<rparr>)"
    "noneFree (psTrees p) (psCache p) (trLast (psTrees p ! i))"
proof -
  note d = assms(2) [unfolded cache_ok_def]
  obtain k where k: "oldestScan (psTrees p) (psCache p) maxUint64 None = Some k"
    using assms(1) by (auto simp: evictOldestUnreferencedLocked_def split: option.splits)
  then obtain i where i: "(k, i) \<in> set (psCache p)" "isOldest (psTrees p) (psCache p) (k, i)"
    using oldestScan_spec [of "psTrees p" "psCache p" maxUint64 None]
    by (metis option.distinct(1) option.inject prod.collapse)
  note ki = cache_ok_entry(3) [OF assms(2) i(1)]
  have "p' = retire i (p\<lparr>psCache := filter (\<lambda>e. snd e \<noteq> i) (psCache p)\<rparr>)"
    using assms(1) k ki distinct_keys_filter [OF _ _ i(1)] d by (simp add: evictOldestUnreferencedLocked_def)
  moreover have "b i = 0" using i(2) cache_ok_refs [OF assms(2) i(1)] by (simp add: isOldest_def)
  ultimately show ?thesis using that i by (simp add: isOldest_def)
qed

lemma evict_ok:
  assumes "evictOldestUnreferencedLocked p = Some p'" and "cache_ok p b"
  shows "cache_ok p' b" "length (psTrees p') = length (psTrees p)"
    "length (psCache p') < length (psCache p)" "psMax p' = psMax p" "set (psCache p') \<subseteq> set (psCache p)"
proof -
  from assms obtain k i where ki: "(k, i) \<in> set (psCache p)" "b i = 0"
    and p': "p' = retire i (p\<lparr>psCache := filter (\<lambda>e. snd e \<noteq> i) (psCache p)\<rparr>)"
    by (rule evict_Some)
  note i = cache_ok_entry(1) [OF assms(2) ki(1)] and mem = cache_ok_entry(2) [OF assms(2) ki(1)]
  note t = cache_ok_entry(5) [OF assms(2) ki(1), unfolded ki(2)]
  note r = tree_ok_refs [OF t] and c = tree_ok_open [OF t]
  let ?t = "closedTree ((psTrees p ! i)\<lparr>trRetired := True\<rparr>)"
  have c': "\<not> trClosed (psTrees p ! i)" using c by simp
  have "cache_ok p' (b(i := 0))"
    by (rule cache_ok_upd_close [OF assms(2) i c', where keep = False and t' = ?t])
      (use i c r tree_ok_retire [OF t] mem in \<open>simp_all add: p' retire_def treeClose_simps\<close>)
  then show "cache_ok p' b" using ki(2) by (metis fun_upd_triv)
  show "length (psTrees p') = length (psTrees p)" "psMax p' = psMax p" "set (psCache p') \<subseteq> set (psCache p)"
    by (auto simp: p' retire_def Let_def treeClose_simps)
  have "psCache p' = filter (\<lambda>e. snd e \<noteq> i) (psCache p)" by (simp add: p' retire_def Let_def treeClose_simps)
  then show "length (psCache p') < length (psCache p)"
    using length_filter_less [of "(k, i)" "psCache p" "\<lambda>e. snd e \<noteq> i"] ki(1) by simp
qed

text \<open>A fresh tree is appended.\<close>

lemma cache_ok_append:
  assumes "cache_ok p b" and "psTrees p' = psTrees p @ [t]"
    and "psCache p' = (if inC then (trName t, length (psTrees p)) # psCache p else psCache p)"
    and "inC \<Longrightarrow> trName t \<notin> fst ` set (psCache p)"
    and "psMax p' = psMax p" "inC \<Longrightarrow> 0 < psMax p \<Longrightarrow> int (length (psCache p)) < psMax p"
    and "psTransientActive p' = psTransientActive p + (if liveTransient t then 1 else 0)"
    and "psOrigins p' = (if liveTransient t then length (psTrees p) # psOrigins p else psOrigins p)"
    and "tree_ok t n inC"
  shows "cache_ok p' (b(length (psTrees p) := n))"
proof -
  note d = assms(1) [unfolded cache_ok_def]
  have below: "\<And>j. j \<in> snd ` set (psCache p) \<Longrightarrow> j < length (psTrees p)" using d by auto
  then have mem: "\<And>j. j \<in> snd ` set (psCache p') \<longleftrightarrow>
      j < length (psTrees p) \<and> j \<in> snd ` set (psCache p) \<or> j = length (psTrees p) \<and> inC"
    using assms(3) by auto
  have fresh: "length (psTrees p) \<notin> snd ` set (psCache p)" using below by blast
  show ?thesis
    unfolding cache_ok_def
  proof (intro conjI)
    show "\<forall>j < length (psTrees p'). tree_ok (psTrees p' ! j) ((b(length (psTrees p) := n)) j) (j \<in> snd ` set (psCache p'))"
      unfolding mem using d assms(9) by (auto simp: assms(2) nth_append less_Suc_eq)
    show "\<forall>(k, i) \<in> set (psCache p'). i < length (psTrees p') \<and> trName (psTrees p' ! i) = k"
      using d assms(3) by (auto simp: assms(2) nth_append split: if_splits)
    show "distinct (map fst (psCache p'))" using d assms(3,4) by auto
    show "distinct (map snd (psCache p'))" using d assms(3) fresh by auto
    show "psTransientActive p' = int (length (filter liveTransient (psTrees p')))"
      using d assms(2,7) by auto
    show "set (psOrigins p') = {i. i < length (psTrees p') \<and> liveTransient (psTrees p' ! i)}"
      using d assms(8) by (auto simp: assms(2) nth_append less_Suc_eq split: if_splits)
    show "0 < psMax p' \<longrightarrow> int (length (psCache p')) \<le> psMax p'"
      using d assms(3,5,6) by auto
  qed (use d assms(2) in auto)
qed

lemma parse_ok:
  assumes "cache_ok p b" "Parse tsParse source filename p = (Inr i, p')"
  shows "cache_ok p' b"
proof -
  from assms(2) have p': "p' = p\<lparr>psTrees := psTrees p @ [newTree source filename]\<rparr>"
    by (auto simp: Parse_def split: if_splits)
  have "cache_ok p' (b(length (psTrees p) := 0))"
    by (rule cache_ok_append [OF assms(1), where inC = False and t = "newTree source filename"])
      (simp_all add: p' newTree_def liveTransient_def tree_ok_def)
  moreover have "b (length (psTrees p)) = 0" using assms(1) by (simp add: cache_ok_def)
  ultimately show ?thesis by (metis fun_upd_triv)
qed

definition freshTree :: "string \<Rightarrow> string \<Rightarrow> int \<Rightarrow> tree" where
  "freshTree source filename l =
     (newTree source filename)\<lparr>trCached := True, trOwnsParser := True, trParser := True, trLast := l\<rparr>"

lemma cached_append_ok:
  assumes "cache_ok p b" "filename \<notin> fst ` set (psCache p)" "0 < psMax p \<Longrightarrow> int (length (psCache p)) < psMax p"
  shows "cache_ok (p\<lparr>psTrees := psTrees p @ [(freshTree source filename l)\<lparr>trRefs := 1\<rparr>],
                     psCache := (filename, length (psTrees p)) # psCache p\<rparr>) (b(length (psTrees p) := 1))"
  by (rule cache_ok_append [OF assms(1), where inC = True and t = "(freshTree source filename l)\<lparr>trRefs := 1\<rparr>"])
    (use assms in \<open>simp_all add: freshTree_def newTree_def liveTransient_def tree_ok_def\<close>)

lemma insertTree_ok:
  assumes "cache_ok p b" "filename \<notin> fst ` set (psCache p)"
    and "insertTree filename (freshTree source filename l) p = (i, p')"
  shows "cache_ok p' (b(i := 1)) \<and> i = length (psTrees p)"
proof (cases "psMax p > 0 \<and> int (length (psCache p)) \<ge> psMax p")
  case False
  then show ?thesis using assms(3) cached_append_ok [OF assms(1,2), of source l] by (auto simp: insertTree_def Let_def)
next
  case full: True
  show ?thesis
  proof (cases "evictOldestUnreferencedLocked p")
    case None
    let ?t = "(freshTree source filename l)\<lparr>trCached := False, trTransient := True, trRetired := True, trRefs := 1\<rparr>"
    let ?q = "p\<lparr>psTrees := psTrees p @ [?t], psTransientActive := psTransientActive p + 1,
                psOrigins := length (psTrees p) # psOrigins p\<rparr>"
    have "cache_ok ?q (b(length (psTrees p) := 1))"
      by (rule cache_ok_append [OF assms(1), where inC = False and t = ?t])
        (simp_all add: freshTree_def newTree_def liveTransient_def tree_ok_def)
    with assms(3) full None show ?thesis by (auto simp: insertTree_def Let_def)
  next
    case (Some q)
    note e = evict_ok [OF Some assms(1)]
    have "filename \<notin> fst ` set (psCache q)" using e(5) assms(2) by blast
    moreover have "0 < psMax q \<Longrightarrow> int (length (psCache q)) < psMax q"
      using e(3,4) assms(1) full by (auto simp: cache_ok_def)
    ultimately have "cache_ok (q\<lparr>psTrees := psTrees q @ [(freshTree source filename l)\<lparr>trRefs := 1\<rparr>],
                     psCache := (filename, length (psTrees q)) # psCache q\<rparr>) (b(length (psTrees q) := 1))"
      by (rule cached_append_ok [OF e(1)])
    with assms(3) full Some e(2) show ?thesis by (auto simp: insertTree_def Let_def)
  qed
qed

lemma tick_ok: "cache_ok p b \<Longrightarrow> cache_ok (tick p) b"
  by (simp add: cache_ok_def)

lemma ParseCached_cases:
  assumes "ParseCached tsParse source filename p = (Inr i, p')"
  obtains (hit) "\<not> psClosed p" "map_of (psCache p) filename = Some i"
      "p' = updTree i (\<lambda>t. t\<lparr>trLast := psClock (tick p), trRefs := trRefs t + 1\<rparr>) (tick p)"
    | (miss) "\<not> psClosed p" "map_of (psCache p) filename = None" "tsParse source"
      "insertTree filename (freshTree source filename (psClock (tick p))) (tick p) = (i, p')"
  using assms
  by (auto simp: ParseCached_def freshTree_def Let_def split: if_splits option.splits prod.splits)

lemma parseCached_ok:
  assumes "cache_ok p b" "ParseCached tsParse source filename p = (Inr i, p')"
  shows "cache_ok p' (b(i := Suc (b i)))"
  using assms(2)
proof (cases rule: ParseCached_cases)
  case hit
  then have e: "(filename, i) \<in> set (psCache (tick p))" by (simp add: map_of_SomeD)
  note c = tick_ok [OF assms(1)]
  note ce = cache_ok_entry [OF c e]
  let ?t = "(psTrees (tick p) ! i)\<lparr>trLast := psClock (tick p), trRefs := trRefs (psTrees (tick p) ! i) + 1\<rparr>"
  have ok: "tree_ok ?t (Suc (b i)) (i \<in> snd ` set (psCache (tick p)))"
    using tree_ok_hit [OF ce(5)] tree_ok_open [OF ce(5)] ce(2) by simp
  show ?thesis
    by (rule cache_ok_upd_live [OF c ce(1), where t' = ?t])
      (use ok in \<open>simp_all add: hit(3) liveTransient_def\<close>)
next
  case miss
  have "filename \<notin> fst ` set (psCache (tick p))" using miss(2) by (simp add: map_of_eq_None_iff)
  from insertTree_ok [OF tick_ok [OF assms(1)] this miss(4)]
  have "cache_ok p' (b(i := 1))" "i = length (psTrees p)" unfolding tick_simps by blast+
  moreover from this(2) have "b i = 0" using assms(1) by (simp add: cache_ok_def)
  ultimately show ?thesis by (metis One_nat_def)
qed

text \<open>CloseAll: the loop retires the entries one after another; the cache it leaves is empty.\<close>

lemma closeEntries_ok:
  assumes "cache_ok (p\<lparr>psCache := es\<rparr>) b"
  shows "cache_ok ((closeEntries es p)\<lparr>psCache := []\<rparr>) b"
  using assms
proof (induction es p rule: closeEntries.induct)
  case (1 p)
  then show ?case by simp
next
  case (2 name i es p)
  let ?q = "p\<lparr>psCache := (name, i) # es\<rparr>" and ?t = "psTrees p ! i"
  let ?p1 = "updTree i (\<lambda>t. t\<lparr>trRetired := True\<rparr>) p"
  let ?p2 = "if trRefs (psTrees ?p1 ! i) = 0 then treeClose i ?p1
             else ?p1\<lparr>psLeaked := psLeaked ?p1 @ [LeakedCached name (trRefs (psTrees ?p1 ! i))]\<rparr>"
  have ce: "i < length (psTrees p)" "tree_ok ?t (b i) True"
    using cache_ok_entry [OF 2(2), of name i] by simp_all
  note r = tree_ok_refs [OF ce(2)]
  have op: "\<not> trClosed ?t" and nt: "\<not> trTransient ?t"
    using tree_ok_open [OF ce(2)] tree_ok_inC [OF ce(2)] by simp_all
  have es: "filter (\<lambda>e. snd e \<noteq> i) ((name, i) # es) = es"
    using 2(2) by (auto simp: cache_ok_def intro!: filter_True)
  have "cache_ok (?p2\<lparr>psCache := es\<rparr>) (b(i := b i))"
  proof (cases "b i = 0")
    case True
    with ce(2) have ok: "tree_ok (closedTree (?t\<lparr>trRetired := True\<rparr>)) (b i) False"
      using tree_ok_retire by simp
    show ?thesis
      by (rule cache_ok_upd_close [OF 2(2), where keep = False and t' = "closedTree (?t\<lparr>trRetired := True\<rparr>)"])
        (use True r ce op es ok in \<open>simp_all add: treeClose_simps\<close>)
  next
    case False
    with ce(2) have ok: "tree_ok (?t\<lparr>trRetired := True\<rparr>) (b i) False"
      using tree_ok_retire_borrowed by simp
    have nl: "i \<notin> set (psOrigins p)"
      using cache_ok_origins [OF 2(2)] ce(1) nt by (simp add: liveTransient_def)
    show ?thesis
      by (rule cache_ok_upd [OF 2(2), where keep = False and t' = "?t\<lparr>trRetired := True\<rparr>"])
        (use False r ce nt es ok nl in \<open>simp_all add: liveTransient_def\<close>)
  qed
  then have "cache_ok (?p2\<lparr>psCache := es\<rparr>) b" by simp
  from 2(1) [OF refl this] show ?case by (simp add: Let_def)
qed

lemma CloseAll_fields:
  assumes "\<not> psClosed p"
  shows "psTrees (CloseAll p) = psTrees (closeEntries (psCache p) (p\<lparr>psClosed := True\<rparr>))"
    "psCache (CloseAll p) = []" "psTransientActive (CloseAll p) = psTransientActive (closeEntries (psCache p) (p\<lparr>psClosed := True\<rparr>))"
    "psOrigins (CloseAll p) = psOrigins (closeEntries (psCache p) (p\<lparr>psClosed := True\<rparr>))"
    "psMax (CloseAll p) = psMax (closeEntries (psCache p) (p\<lparr>psClosed := True\<rparr>))"
    "psClosed (CloseAll p) = psClosed (closeEntries (psCache p) (p\<lparr>psClosed := True\<rparr>))"
  using assms by (simp_all add: CloseAll_def Let_def)

lemma closeAll_ok:
  assumes "cache_ok p b"
  shows "cache_ok (CloseAll p) b"
proof (cases "psClosed p")
  case True
  with assms show ?thesis by (simp add: CloseAll_def)
next
  case False
  have "cache_ok (p\<lparr>psClosed := True, psCache := psCache p\<rparr>) b" using assms by (simp add: cache_ok_def)
  from closeEntries_ok [OF this] show ?thesis
    using False by (simp add: cache_ok_def CloseAll_fields)
qed

lemma closeEntries_static:
  "psMax (closeEntries es p) = psMax p" "psClosed (closeEntries es p) = psClosed p"
  by (induction es p rule: closeEntries.induct) (simp_all add: Let_def treeClose_simps)

text \<open>What no step changes: the bound, and that nothing is cached once the parser is closed.\<close>

definition cache_static :: "int \<Rightarrow> parserState \<Rightarrow> bool" where
  "cache_static n p \<longleftrightarrow> psMax p = max 0 n \<and> (psClosed p \<longrightarrow> psCache p = [])
     \<and> (\<not> psClosed p \<longrightarrow> psLeaked p = [])"

lemma evict_static:
  assumes "evictOldestUnreferencedLocked p = Some p'"
  shows "psMax p' = psMax p" "psClosed p' = psClosed p" "psLeaked p' = psLeaked p"
  using assms by (auto simp: evictOldestUnreferencedLocked_def retire_def Let_def treeClose_simps split: option.splits if_splits)

lemma insertTree_static:
  "insertTree f t p = (i, p') \<Longrightarrow> psMax p' = psMax p \<and> psClosed p' = psClosed p \<and> psLeaked p' = psLeaked p"
  by (auto simp: insertTree_def Let_def evict_static split: if_splits option.splits)

lemma cache_static_step:
  assumes "cache_static n (fst s)" "cache_step s s'"
  shows "cache_static n (fst s')"
  using assms(2,1)
proof cases
  case (parse tsParse source filename p i p' b)
  with assms(1) show ?thesis by (auto simp: cache_static_def Parse_def split: if_splits)
next
  case (parseCached tsParse source filename p i p' b)
  from parseCached(3) show ?thesis
  proof (cases rule: ParseCached_cases)
    case hit
    with assms(1) parseCached show ?thesis by (simp add: cache_static_def)
  next
    case miss
    with insertTree_static [OF miss(4)] assms(1) parseCached show ?thesis by (simp add: cache_static_def)
  qed
next
  case (closeAll p b)
  with assms(1) show ?thesis
    by (cases "psClosed p") (auto simp: cache_static_def CloseAll_def Let_def closeEntries_static)
qed (auto simp: cache_static_def treeAcquire_def treeRelease_def treeCloseUncached_def Let_def treeClose_simps)

lemma cache_ok_step:
  assumes "cache_ok (fst s) (snd s)" "cache_step s s'"
  shows "cache_ok (fst s') (snd s')"
  using assms(2,1)
proof cases
  case (release b i p)
  with assms(1) release_ok [of p b i] show ?thesis by simp
qed (auto intro: parse_ok parseCached_ok acquire_ok close_ok closeAll_ok)

lemma cache_reach_ok:
  "cache_reach n s \<Longrightarrow> cache_ok (fst s) (snd s) \<and> cache_static n (fst s)"
proof (induction rule: cache_reach.induct)
  case init
  show ?case by (simp add: cache_ok_def cache_static_def SetMaxCachedTrees_def NewParser_def)
next
  case (step s s')
  then show ?case using cache_ok_step cache_static_step by blast
qed

lemma trRefs_treeClose: "i < length (psTrees p) \<Longrightarrow> trRefs (psTrees (treeClose i p) ! j) = trRefs (psTrees p ! j)"
  by (cases "i = j") (simp_all add: treeClose_simps closedTree_def)

lemma length_treeClose [simp]: "length (psTrees (treeClose i p)) = length (psTrees p)"
  by (simp add: treeClose_simps)

lemma trRefs_retired:
  "i < length ts \<Longrightarrow> trRefs (ts[i := (ts ! i)\<lparr>trRetired := x\<rparr>] ! j) = trRefs (ts ! j)"
  by (cases "i = j") simp_all

text \<open>CloseAll records exactly the entries that are still borrowed.\<close>

lemma closeEntries_leaked:
  assumes "\<forall>e \<in> set es. snd e < length (psTrees p)"
  shows "psLeaked (closeEntries es p) = psLeaked p @
           map (\<lambda>e. LeakedCached (fst e) (trRefs (psTrees p ! snd e))) (filter (\<lambda>e. trRefs (psTrees p ! snd e) \<noteq> 0) es)"
  using assms
proof (induction es p rule: closeEntries.induct)
  case (2 name i es p)
  let ?p1 = "updTree i (\<lambda>t. t\<lparr>trRetired := True\<rparr>) p"
  let ?p2 = "if trRefs (psTrees ?p1 ! i) = 0 then treeClose i ?p1
             else ?p1\<lparr>psLeaked := psLeaked ?p1 @ [LeakedCached name (trRefs (psTrees ?p1 ! i))]\<rparr>"
  have i: "i < length (psTrees p)" and es: "\<forall>e \<in> set es. snd e < length (psTrees ?p2)" using 2(2) by simp_all
  have refs: "\<And>j. trRefs (psTrees ?p2 ! j) = trRefs (psTrees p ! j)"
    using i by (auto simp: trRefs_treeClose trRefs_retired)
  have "psLeaked ?p2 = psLeaked p @ (if trRefs (psTrees p ! i) = 0 then [] else [LeakedCached name (trRefs (psTrees p ! i))])"
    using i by (simp add: treeClose_simps)
  with 2(1) [OF refl es] show ?case unfolding refs by (simp add: Let_def)
qed simp

lemma tree_ok_open_state:
  assumes "tree_ok t n c" "\<not> trClosed t"
  shows "trHandle t \<and> trTreeCloses t = 0 \<and> trParser t = trOwnsParser t \<and> trParserCloses t = 0"
  using assms unfolding tree_ok_def by blast

lemma tree_ok_closed_state:
  assumes "tree_ok t n c" "trClosed t"
  shows "\<not> trHandle t \<and> trTreeCloses t = 1 \<and> trParserCloses t = (if trOwnsParser t then 1 else 0)"
  using assms unfolding tree_ok_def by blast

lemma tree_ok_borrowed: "tree_ok t n c \<Longrightarrow> n \<noteq> 0 \<Longrightarrow> trOwnsParser t"
  unfolding tree_ok_def by blast

lemma tree_ok_dropped: "tree_ok t 0 False \<Longrightarrow> trOwnsParser t \<Longrightarrow> trClosed t"
  unfolding tree_ok_def by blast

lemma tree_ok_live: "tree_ok t n c \<Longrightarrow> liveTransient t \<Longrightarrow> n \<noteq> 0 \<and> \<not> c"
  unfolding tree_ok_def liveTransient_def by sat

lemma tree_ok_kind: "tree_ok t n c \<Longrightarrow> n \<noteq> 0 \<Longrightarrow> c \<or> liveTransient t \<or> (trCached t \<and> trRetired t \<and> \<not> trClosed t)"
  unfolding tree_ok_def liveTransient_def by blast

text \<open>While the parser is open a retired tree of the cache is closed.\<close>

definition no_stale :: "parserState \<Rightarrow> bool" where
  "no_stale p \<longleftrightarrow> (\<not> psClosed p \<longrightarrow> (\<forall>t \<in> set (psTrees p). trCached t \<and> trRetired t \<longrightarrow> trClosed t))"

lemma no_stale_upd:
  assumes "no_stale p" "psTrees p' = (psTrees p)[i := t]" "psClosed p' = psClosed p"
    and "trCached t \<and> trRetired t \<Longrightarrow> trClosed t"
  shows "no_stale p'"
  using assms set_update_subset_insert [of "psTrees p" i t] unfolding no_stale_def by auto

lemma no_stale_append:
  assumes "no_stale p" "psTrees p' = psTrees p @ [t]" "psClosed p' = psClosed p" "\<not> (trCached t \<and> trRetired t)"
  shows "no_stale p'"
  using assms unfolding no_stale_def by auto

lemma no_stale_nth:
  assumes "no_stale p" "\<not> psClosed p" "i < length (psTrees p)" "trCached (psTrees p ! i)" "trRetired (psTrees p ! i)"
  shows "trClosed (psTrees p ! i)"
  using assms nth_mem unfolding no_stale_def by blast

lemma no_stale_treeClose: "no_stale p \<Longrightarrow> no_stale (treeClose i p)"
  by (cases "trClosed (psTrees p ! i)")
    (auto simp: treeClose_def intro: no_stale_upd [where t = "closedTree (psTrees p ! i)" and i = i])

lemma evict_no_stale:
  assumes "evictOldestUnreferencedLocked p = Some p'" "cache_ok p b" "no_stale p"
  shows "no_stale p'"
proof -
  from assms(1,2) obtain k i where ki: "(k, i) \<in> set (psCache p)" "b i = 0"
    and p': "p' = retire i (p\<lparr>psCache := filter (\<lambda>e. snd e \<noteq> i) (psCache p)\<rparr>)"
    by (rule evict_Some)
  note ce = cache_ok_entry [OF assms(2) ki(1)]
  have "trRefs (psTrees p ! i) = 0" "\<not> trClosed (psTrees p ! i)"
    using tree_ok_refs [OF ce(5)] tree_ok_open [OF ce(5)] ki(2) by simp_all
  then show ?thesis
    using ce(1) by (intro no_stale_upd [OF assms(3), where i = i and t = "closedTree ((psTrees p ! i)\<lparr>trRetired := True\<rparr>)"])
      (simp_all add: p' retire_def treeClose_simps)
qed

lemma insertTree_no_stale:
  assumes "cache_ok p b" "no_stale p" "insertTree f (freshTree source f l) p = (i, p')"
  shows "no_stale p'"
proof (cases "psMax p > 0 \<and> int (length (psCache p)) \<ge> psMax p")
  case False
  with assms(3) show ?thesis
    by (intro no_stale_append [OF assms(2), where t = "(freshTree source f l)\<lparr>trRefs := 1\<rparr>"])
      (auto simp: insertTree_def Let_def freshTree_def newTree_def split: if_splits)
next
  case full: True
  show ?thesis
  proof (cases "evictOldestUnreferencedLocked p")
    case None
    with full assms(3) show ?thesis
      by (intro no_stale_append [OF assms(2), where t = "(freshTree source f l)
              \<lparr>trCached := False, trTransient := True, trRetired := True, trRefs := 1\<rparr>"])
        (auto simp: insertTree_def Let_def)
  next
    case (Some q)
    with full assms(3) show ?thesis
      by (intro no_stale_append [OF evict_no_stale [OF Some assms(1,2)], where t = "(freshTree source f l)\<lparr>trRefs := 1\<rparr>"])
        (auto simp: insertTree_def Let_def freshTree_def newTree_def evict_ok(2) [OF Some assms(1)])
  qed
qed

lemma no_stale_step:
  assumes "cache_ok (fst s) (snd s)" "no_stale (fst s)" "cache_step s s'"
  shows "no_stale (fst s')"
  using assms(3,1,2)
proof cases
  case (parse tsParse source filename p i p' b)
  then have p': "p' = p\<lparr>psTrees := psTrees p @ [newTree source filename]\<rparr>"
    by (simp add: Parse_def split: if_splits)
  have n: "no_stale p" using assms(2) parse(1) by simp
  have "no_stale p'" by (rule no_stale_append [OF n, where t = "newTree source filename"]) (simp_all add: p' newTree_def)
  with parse(2) show ?thesis by simp
next
  case (parseCached tsParse source filename p i p' b)
  have c: "cache_ok (tick p) b" and n: "no_stale (tick p)"
    using assms(1,2) parseCached(1) by (simp_all add: tick_ok no_stale_def)
  from parseCached(3) show ?thesis
  proof (cases rule: ParseCached_cases)
    case hit
    then have "(filename, i) \<in> set (psCache (tick p))" by (simp add: map_of_SomeD)
    from tree_ok_inC [OF cache_ok_entry(5) [OF c this]] have "\<not> trRetired (psTrees (tick p) ! i)" by simp
    then have "no_stale p'"
      by (intro no_stale_upd [OF n, where i = i and t = "(psTrees (tick p) ! i)
              \<lparr>trLast := psClock (tick p), trRefs := trRefs (psTrees (tick p) ! i) + 1\<rparr>"])
        (simp_all add: hit(3))
    with parseCached show ?thesis by simp
  next
    case miss
    from insertTree_no_stale [OF c n miss(4)] parseCached show ?thesis by simp
  qed
next
  case (acquire b i p)
  have i: "i < length (psTrees p)" using cache_ok_bound [of p b i] assms(1) acquire by simp
  have n: "no_stale p" using assms(2) acquire(1) by simp
  have "no_stale (treeAcquire i p)"
  proof (cases "psClosed p")
    case True
    then show ?thesis by (simp add: no_stale_def treeAcquire_def)
  next
    case False
    from no_stale_nth [OF n False i] show ?thesis
      by (intro no_stale_upd [OF n, where i = i and t = "(psTrees p ! i)\<lparr>trRefs := trRefs (psTrees p ! i) + 1\<rparr>"])
        (simp_all add: treeAcquire_def)
  qed
  with acquire show ?thesis by simp
next
  case (release b i p)
  then have c: "cache_ok p b" using assms(1) by simp
  note i = cache_ok_bound [OF c release(3)]
  note t = cache_ok_tree [OF c i]
  have op: "\<not> trClosed (psTrees p ! i)" using tree_ok_open [OF t disjI1] release(3) by simp
  show ?thesis
  proof (cases "psClosed p")
    case True
    with release show ?thesis by (simp add: no_stale_def treeRelease_def Let_def treeClose_simps)
  next
    case False
    have n: "no_stale p" using assms(2) release(1) by simp
    have k: "\<not> (trCached (psTrees p ! i) \<and> trRetired (psTrees p ! i))"
      using no_stale_nth [OF n False i] op by blast
    have "no_stale (updTree i (\<lambda>t. t\<lparr>trRefs := trRefs t - 1\<rparr>) p)"
      by (rule no_stale_upd [OF n, where i = i and t = "(psTrees p ! i)\<lparr>trRefs := trRefs (psTrees p ! i) - 1\<rparr>"])
        (use k in simp_all)
    then show ?thesis using release by (simp add: treeRelease_def Let_def no_stale_treeClose)
  qed
next
  case (close i p b)
  then show ?thesis using assms(2) no_stale_treeClose by (simp add: treeCloseUncached_def)
next
  case (closeAll p b)
  have n: "no_stale p" using assms(2) closeAll(1) by simp
  have "no_stale (CloseAll p)"
  proof (cases "psClosed p")
    case True
    with n show ?thesis by (simp add: CloseAll_def)
  next
    case False
    then show ?thesis by (simp add: no_stale_def CloseAll_fields closeEntries_static)
  qed
  with closeAll(2) show ?thesis by simp
qed

lemma no_stale_reach: "cache_reach n s \<Longrightarrow> no_stale (fst s)"
proof (induction rule: cache_reach.induct)
  case init
  show ?case by (simp add: no_stale_def SetMaxCachedTrees_def NewParser_def)
next
  case (step s s')
  then show ?case using cache_reach_ok no_stale_step by blast
qed

text \<open>What ParseCached does when the cache is full: the tree i of an entry nobody borrows, with the
  smallest timestamp of those, is closed and its entry replaced; or the new tree j is lent outside
  the cache.\<close>

definition evicts_lru :: "(nat \<Rightarrow> nat) \<Rightarrow> parserState \<Rightarrow> string \<Rightarrow> nat \<Rightarrow> parserState \<Rightarrow> bool" where
  "evicts_lru b p f j p' \<longleftrightarrow>
     (\<exists>(k, i) \<in> set (psCache p). b i = 0 \<and> trClosed (psTrees p' ! i)
        \<and> (\<forall>(k', i') \<in> set (psCache p). b i' = 0 \<longrightarrow> trLast (psTrees p ! i) \<le> trLast (psTrees p ! i'))
        \<and> psCache p' = (f, j) # filter (\<lambda>e. snd e \<noteq> i) (psCache p))"

definition lends_transient :: "(nat \<Rightarrow> nat) \<Rightarrow> parserState \<Rightarrow> nat \<Rightarrow> parserState \<Rightarrow> bool" where
  "lends_transient b p j p' \<longleftrightarrow>
     (\<forall>(k, i) \<in> set (psCache p). 0 < b i \<or> maxUint64 \<le> trLast (psTrees p ! i))
     \<and> psCache p' = psCache p \<and> trTransient (psTrees p' ! j)"

lemma evict_None:
  assumes "cache_ok p b" "evictOldestUnreferencedLocked p = None"
  shows "\<forall>(k, i) \<in> set (psCache p). 0 < b i \<or> maxUint64 \<le> trLast (psTrees p ! i)"
proof -
  have "oldestScan (psTrees p) (psCache p) maxUint64 None = None"
  proof (rule ccontr)
    assume "oldestScan (psTrees p) (psCache p) maxUint64 None \<noteq> None"
    then obtain e where e: "e \<in> set (psCache p)" "oldestScan (psTrees p) (psCache p) maxUint64 None = Some (fst e)"
      using oldestScan_spec [of "psTrees p" "psCache p" maxUint64 None] by auto
    with cache_ok_entry(3) [OF assms(1), of "fst e" "snd e"] assms(2) show False
      by (simp add: evictOldestUnreferencedLocked_def)
  qed
  then have "noneFree (psTrees p) (psCache p) maxUint64"
    using oldestScan_spec [of "psTrees p" "psCache p" maxUint64 None] by auto
  then show ?thesis using cache_ok_refs [OF assms(1)] unfolding noneFree_def by fastforce
qed

lemma evict_lru:
  assumes "cache_ok p b" "evictOldestUnreferencedLocked p = Some q"
  shows "evicts_lru b p f j (q\<lparr>psTrees := psTrees q @ ts, psCache := (f, j) # psCache q\<rparr>)"
proof -
  from assms(2,1) obtain k i where ki: "(k, i) \<in> set (psCache p)" "b i = 0"
    and q: "q = retire i (p\<lparr>psCache := filter (\<lambda>e. snd e \<noteq> i) (psCache p)\<rparr>)"
    and old: "noneFree (psTrees p) (psCache p) (trLast (psTrees p ! i))"
    by (rule evict_Some)
  note ce = cache_ok_entry [OF assms(1) ki(1)]
  have "trRefs (psTrees p ! i) = 0" using tree_ok_refs [OF ce(5)] ki(2) by simp
  then have "trClosed (psTrees q ! i)" using ce(1) by (simp add: q retire_def treeClose_simps)
  then have cl: "trClosed ((psTrees q @ ts) ! i)"
    using ce(1) evict_ok(2) [OF assms(2,1)] by (simp add: nth_append)
  have "psCache q = filter (\<lambda>e. snd e \<noteq> i) (psCache p)"
    by (simp add: q retire_def Let_def treeClose_simps)
  moreover have "\<forall>(k', i') \<in> set (psCache p). b i' = 0 \<longrightarrow> trLast (psTrees p ! i) \<le> trLast (psTrees p ! i')"
    using old cache_ok_refs [OF assms(1)] unfolding noneFree_def by fastforce
  ultimately show ?thesis using ki cl unfolding evicts_lru_def by (intro bexI [of _ "(k, i)"]) auto
qed

lemma closeEntries_active:
  assumes "\<forall>e \<in> set es. snd e < length (psTrees p) \<and> \<not> trTransient (psTrees p ! snd e)"
  shows "psTransientActive (closeEntries es p) = psTransientActive p"
  using assms
proof (induction es p rule: closeEntries.induct)
  case (2 name i es p)
  let ?p1 = "updTree i (\<lambda>t. t\<lparr>trRetired := True\<rparr>) p"
  let ?p2 = "if trRefs (psTrees ?p1 ! i) = 0 then treeClose i ?p1
             else ?p1\<lparr>psLeaked := psLeaked ?p1 @ [LeakedCached name (trRefs (psTrees ?p1 ! i))]\<rparr>"
  have i: "i < length (psTrees p)" "\<not> trTransient (psTrees p ! i)" using 2(2) by simp_all
  have "\<And>j. trTransient (psTrees ?p2 ! j) = trTransient (psTrees p ! j)"
    using i(1) by (auto simp: treeClose_simps closedTree_def nth_list_update)
  then have "\<forall>e \<in> set es. snd e < length (psTrees ?p2) \<and> \<not> trTransient (psTrees ?p2 ! snd e)" using 2(2) by simp
  from 2(1) [OF refl this] have "psTransientActive (closeEntries es ?p2) = psTransientActive ?p2" .
  also have "\<dots> = psTransientActive p" using i by (simp add: treeClose_simps)
  finally show ?case by (simp add: Let_def)
qed simp

lemma borrowed_kinds:
  assumes "cache_ok p b" "no_stale p" "\<not> psClosed p" "b i \<noteq> 0"
  shows "i \<in> snd ` set (psCache p) \<or> (i < length (psTrees p) \<and> liveTransient (psTrees p ! i))"
proof -
  have i: "i < length (psTrees p)" using cache_ok_bound [OF assms(1)] assms(4) by simp
  from tree_ok_kind [OF cache_ok_tree [OF assms(1) i] assms(4)] no_stale_nth [OF assms(2,3) i] i show ?thesis by blast
qed

section \<open>Properties\<close>


definition twoFiles :: parserState where
  "twoFiles = snd (ParseCached (\<lambda>_. True) ''s2'' ''f2'' (snd (ParseCached (\<lambda>_. True) ''s1'' ''f1'' (SetMaxCachedTrees 1 NewParser))))"

lemma twoFiles_reach: "cache_reach 1 (twoFiles, (\<lambda>_. 0)(0 := 1, 1 := 1))"
proof -
  let ?p0 = "SetMaxCachedTrees 1 NewParser"
  let ?p1 = "snd (ParseCached (\<lambda>_. True) ''s1'' ''f1'' ?p0)"
  have a: "ParseCached (\<lambda>_. True) ''s1'' ''f1'' ?p0 = (Inr 0, ?p1)" by code_simp
  have b: "ParseCached (\<lambda>_. True) ''s2'' ''f2'' ?p1 = (Inr 1, twoFiles)" by code_simp
  have "cache_reach 1 (?p1, (\<lambda>_. 0)(0 := Suc ((\<lambda>_. 0) 0)))"
    using cache_reach.step [OF cache_reach.init cache_step.parseCached [OF a]] .
  from cache_reach.step [OF this cache_step.parseCached [OF b]] show ?thesis by simp
qed


text \<open>C17: no tree leaks.  In every reachable state a tree of ParseCached that nobody borrows is
  either still in the cache of an open parser or closed, its tree-sitter tree and its parser exactly
  once; so after CloseAll, once the last borrow is released, everything is closed.\<close>

theorem tree_cache_no_leak:
  assumes "cache_reach n (p, b)" and "i < length (psTrees p)" and "trOwnsParser (psTrees p ! i)" and "b i = 0"
  shows "(\<not> psClosed p \<and> (trName (psTrees p ! i), i) \<in> set (psCache p))
         \<or> (trTreeCloses (psTrees p ! i) = 1 \<and> trParserCloses (psTrees p ! i) = 1 \<and> \<not> hasRoot i p)"
proof (cases "i \<in> snd ` set (psCache p)")
  case True
  then obtain k where k: "(k, i) \<in> set (psCache p)" by auto
  have "cache_ok p b" "cache_static n p" using cache_reach_ok [OF assms(1)] by simp_all
  with cache_ok_entry(4) [OF _ k] k show ?thesis by (auto simp: cache_static_def)
next
  case False
  have "cache_ok p b" using cache_reach_ok [OF assms(1)] by simp
  note t = cache_ok_tree [OF this assms(2)]
  have "trClosed (psTrees p ! i)" using t tree_ok_dropped False assms(3,4) by simp
  with tree_ok_closed_state [OF t] assms(3) show ?thesis by (simp add: hasRoot_def)
qed

theorem tree_cache_no_leak_witness:
  "trTreeCloses (psTrees (treeRelease 1 twoFiles) ! 1) = 1"
proof -
  have "cache_step (twoFiles, (\<lambda>_. 0)(0 := 1, 1 := 1))
          (treeRelease 1 twoFiles, ((\<lambda>_. 0)(0 := 1, 1 := 1))(1 := ((\<lambda>_. 0)(0 := 1, 1 := 1)) 1 - 1))"
    using cache_step.release [of "(\<lambda>_. 0)(0 := 1, 1 := 1)" 1 twoFiles] by simp
  note r = cache_reach.step [OF twoFiles_reach this]
  have l: "(1 :: nat) < length (psTrees (treeRelease 1 twoFiles))" by code_simp
  have o: "trOwnsParser (psTrees (treeRelease 1 twoFiles) ! 1)" by code_simp
  have n: "(trName (psTrees (treeRelease 1 twoFiles) ! 1), 1) \<notin> set (psCache (treeRelease 1 twoFiles))" by code_simp
  from tree_cache_no_leak [OF r l o] n show ?thesis by simp
qed

text \<open>The cache is bounded and evicts the least recently used.  A reachable cache never exceeds a
  positive bound.  When a file is not cached, parses, and the cache is full, then the new tree j is
  lent once, and either an entry that nobody borrows, and that no other unborrowed entry is older
  than, leaves the cache with its tree closed and the new tree takes the file's key, or every entry is
  borrowed (or carries the largest timestamp), the cache is unchanged and the new tree is a transient
  loan outside it.\<close>

theorem tree_cache_lru:
  assumes "cache_reach n (p, b)" and "0 < n"
  shows "int (length (psCache p)) \<le> n
    \<and> (int (length (psCache p)) = n \<and> map_of (psCache p) f = None \<and> \<not> psClosed p \<and> tsParse src \<longrightarrow>
        (\<exists>p' j. ParseCached tsParse src f p = (Inr j, p') \<and> trRefs (psTrees p' ! j) = 1
                \<and> (evicts_lru b p f j p' \<or> lends_transient b p j p')))"
proof -
  have c: "cache_ok p b" and st: "cache_static n p" using cache_reach_ok [OF assms(1)] by simp_all
  have mx: "psMax p = n" using st assms(2) by (simp add: cache_static_def)
  have bound: "int (length (psCache p)) \<le> n" using c mx assms(2) by (auto simp: cache_ok_def)
  show ?thesis
  proof (intro conjI impI bound)
    assume h: "int (length (psCache p)) = n \<and> map_of (psCache p) f = None \<and> \<not> psClosed p \<and> tsParse src"
    let ?p = "tick p" and ?t = "freshTree src f (psClock (tick p))"
    have ct: "cache_ok ?p b" by (rule tick_ok [OF c])
    have pc: "ParseCached tsParse src f p = (case insertTree f ?t ?p of (i, q) \<Rightarrow> (Inr i, q))"
      using h by (simp add: ParseCached_def freshTree_def Let_def)
    have full: "psMax ?p > 0 \<and> int (length (psCache ?p)) \<ge> psMax ?p" using h mx assms(2) by simp
    show "\<exists>p' j. ParseCached tsParse src f p = (Inr j, p') \<and> trRefs (psTrees p' ! j) = 1
                \<and> (evicts_lru b p f j p' \<or> lends_transient b p j p')"
    proof (cases "evictOldestUnreferencedLocked ?p")
      case None
      with full pc evict_None [OF ct None] show ?thesis by (simp add: insertTree_def Let_def lends_transient_def)
    next
      case (Some q)
      with pc full evict_ok(2) [OF Some ct] evict_lru [OF ct Some, of f "length (psTrees p)"] show ?thesis
        by (simp add: insertTree_def Let_def evicts_lru_def nth_append)
    qed
  qed
qed

theorem tree_cache_lru_witness:
  "\<exists>p' j. ParseCached (\<lambda>_. True) ''s3'' ''f3'' twoFiles = (Inr j, p') \<and> trRefs (psTrees p' ! j) = 1"
proof -
  have "int (length (psCache twoFiles)) = 1 \<and> map_of (psCache twoFiles) ''f3'' = None \<and> \<not> psClosed twoFiles"
    by code_simp
  with tree_cache_lru [OF twoFiles_reach zero_less_one, of "''f3''" "\<lambda>_. True" "''s3''"] show ?thesis by blast
qed

text \<open>CloseAll reports every leak.  On a reachable parser that is still open, the list of leaked
  trees that CloseAll leaves is empty exactly when no tree is borrowed, and it closes every tree of
  the cache that nobody borrows; the cache is empty afterwards.\<close>

theorem closeAll_leaks:
  assumes "cache_reach n (p, b)" and "\<not> psClosed p"
  shows "(psLeaked (CloseAll p) = [] \<longleftrightarrow> (\<forall>i. b i = 0)) \<and> psCache (CloseAll p) = [] \<and> psClosed (CloseAll p)"
proof -
  have c: "cache_ok p b" and st: "cache_static n p" and ns: "no_stale p"
    using cache_reach_ok [OF assms(1)] no_stale_reach [OF assms(1)] by simp_all
  let ?p = "p\<lparr>psClosed := True\<rparr>"
  let ?p1 = "closeEntries (psCache p) ?p"
  have b1: "\<forall>e \<in> set (psCache p). snd e < length (psTrees ?p)" using cache_ok_entry(1) [OF c] by auto
  have l1: "psLeaked ?p1 = [] \<longleftrightarrow> (\<forall>e \<in> set (psCache p). b (snd e) = 0)"
    using closeEntries_leaked [OF b1] st assms(2) cache_ok_refs [OF c] by (auto simp: cache_static_def filter_empty_conv)
  have "\<forall>e \<in> set (psCache p). snd e < length (psTrees ?p) \<and> \<not> trTransient (psTrees ?p ! snd e)"
    using b1 tree_ok_inC [OF cache_ok_entry(5) [OF c]] by force
  from closeEntries_active [OF this] have act: "psTransientActive ?p1 = psTransientActive p" by simp
  have a0: "psTransientActive p > 0 \<longleftrightarrow> (\<exists>i < length (psTrees p). liveTransient (psTrees p ! i))"
  proof -
    have "psTransientActive p > 0 \<longleftrightarrow> filter liveTransient (psTrees p) \<noteq> []" using c by (simp add: cache_ok_def)
    then show ?thesis by (metis (no_types, lifting) filter_empty_conv in_set_conv_nth)
  qed
  have "psLeaked (CloseAll p) = [] \<longleftrightarrow> psLeaked ?p1 = [] \<and> \<not> psTransientActive p > 0"
    using assms(2) act by (auto simp: CloseAll_def Let_def)
  also have "\<dots> \<longleftrightarrow> (\<forall>i. b i = 0)"
  proof
    assume "psLeaked ?p1 = [] \<and> \<not> psTransientActive p > 0"
    then show "\<forall>i. b i = 0" using borrowed_kinds [OF c ns assms(2)] unfolding l1 a0 by force
  next
    assume z: "\<forall>i. b i = 0"
    then have "\<And>i. i < length (psTrees p) \<Longrightarrow> \<not> liveTransient (psTrees p ! i)"
      using tree_ok_live cache_ok_tree [OF c] by metis
    with z show "psLeaked ?p1 = [] \<and> \<not> psTransientActive p > 0" unfolding l1 a0 by simp
  qed
  finally show ?thesis using assms(2) by (simp add: CloseAll_fields closeEntries_static)
qed

theorem closeAll_leaks_witness: "psLeaked (CloseAll twoFiles) \<noteq> []"
proof -
  have "\<not> psClosed twoFiles" by code_simp
  from closeAll_leaks [OF twoFiles_reach this] show ?thesis by (metis fun_upd_same zero_neq_one)
qed

text \<open>The comment on Close says that it is a no-op for the trees of ParseCached.  On a transient tree
  it is not: it closes the tree under its borrower.\<close>

lemma close_transient:
  "trTransient (psTrees twoFiles ! 1) \<and> trRefs (psTrees twoFiles ! 1) = 1 \<and> hasRoot 1 twoFiles
   \<and> \<not> hasRoot 1 (treeCloseUncached 1 twoFiles)"
  by code_simp

end
