(* ===== verification/Syntax_Tree.thy ===== *)
theory Syntax_Tree
  imports Prelude
begin

text \<open>
  Nodes of a parsed file, as internal/parser/parser.go shows them to the rest of the program.  The
  tree itself comes from tree-sitter; a node here carries what the accessors read off it: its kind,
  the field under which its parent holds it, whether it is named, its error flag, its text, its
  position and its children.  NullNode is the zero Node.  The accessors and the two stack-driven
  searches follow the code; the searches are shown equal to a filter of the preorder.
\<close>

record NodePos =
  posStartByte :: int
  posEndByte :: int
  posStartLine :: int
  posStartColumn :: int
  posEndLine :: int
  posEndColumn :: int

datatype Node =
  NullNode
| TSNode (tsKind: string) (tsField: string) (tsNamed: bool) (tsError: bool) (tsText: string)
    (tsPos: NodePos) (tsChildren: "Node list")

definition isNull :: "Node \<Rightarrow> bool" where
  "isNull n \<longleftrightarrow> n = NullNode"

definition Kind :: "Node \<Rightarrow> string" where
  "Kind n = (case n of NullNode \<Rightarrow> '''' | TSNode k f nm er t p cs \<Rightarrow> k)"

definition Text :: "Node \<Rightarrow> string" where
  "Text n = (case n of NullNode \<Rightarrow> '''' | TSNode k f nm er t p cs \<Rightarrow> t)"

definition OriginalText :: "Node \<Rightarrow> string" where
  "OriginalText n = Text n"

definition posOf :: "(NodePos \<Rightarrow> int) \<Rightarrow> Node \<Rightarrow> int" where
  "posOf sel n = (case n of NullNode \<Rightarrow> 0 | TSNode k f nm er t p cs \<Rightarrow> sel p)"

definition StartByte :: "Node \<Rightarrow> int" where "StartByte = posOf posStartByte"
definition EndByte :: "Node \<Rightarrow> int" where "EndByte = posOf posEndByte"
definition StartLine :: "Node \<Rightarrow> int" where "StartLine = posOf (\<lambda>p. posStartLine p + 1)"
definition StartColumn :: "Node \<Rightarrow> int" where "StartColumn = posOf (\<lambda>p. posStartColumn p + 1)"
definition EndLine :: "Node \<Rightarrow> int" where "EndLine = posOf (\<lambda>p. posEndLine p + 1)"
definition EndColumn :: "Node \<Rightarrow> int" where "EndColumn = posOf (\<lambda>p. posEndColumn p + 1)"

definition HasError :: "Node \<Rightarrow> bool" where
  "HasError n = (case n of NullNode \<Rightarrow> False | TSNode k f nm er t p cs \<Rightarrow> er)"

definition Children :: "Node \<Rightarrow> Node list" where
  "Children n = (case n of NullNode \<Rightarrow> [] | TSNode k f nm er t p cs \<Rightarrow> cs)"

definition ChildCount :: "Node \<Rightarrow> int" where
  "ChildCount n = int (length (Children n))"

definition isNamed :: "Node \<Rightarrow> bool" where
  "isNamed n = (case n of NullNode \<Rightarrow> False | TSNode k f nm er t p cs \<Rightarrow> nm)"

definition NamedChildren :: "Node \<Rightarrow> Node list" where
  "NamedChildren n = filter isNamed (Children n)"

definition fieldOf :: "Node \<Rightarrow> string" where
  "fieldOf n = (case n of NullNode \<Rightarrow> '''' | TSNode k f nm er t p cs \<Rightarrow> f)"

text \<open>The first child that the tree holds under that field name; Go's nil is None.\<close>

definition ChildByFieldName :: "string \<Rightarrow> Node \<Rightarrow> Node option" where
  "ChildByFieldName name n = find (\<lambda>c. fieldOf c = name) (Children n)"

definition TypeName :: "Node \<Rightarrow> string" where
  "TypeName n = Kind n"

lemma size_Children: "c \<in> set (Children n) \<Longrightarrow> size c < size n"
  by (cases n) (auto simp: Children_def dest!: size_list_estimation' [where f = size, OF _ order_refl])

lemma size_list_filter: "size_list f (filter P xs) \<le> size_list f xs"
  by (induction xs) auto

lemma size_list_append: "size_list f (xs @ ys) = size_list f xs + size_list f ys"
  by (induction xs) auto

lemma size_list_NamedChildren: "size_list size (NamedChildren n) \<le> size n"
  by (cases n) (auto simp: NamedChildren_def Children_def intro: order_trans [OF size_list_filter])

lemma size_NamedChildren: "c \<in> set (NamedChildren n) \<Longrightarrow> size c < size n"
  by (simp add: NamedChildren_def size_Children)

lemma size_ChildByFieldName: "ChildByFieldName f n = Some c \<Longrightarrow> size c < size n"
  by (auto simp: ChildByFieldName_def find_Some_iff intro: size_Children)


section \<open>Searching\<close>

text \<open>The loops of FindAll and FindFirst.  The stack's top is the head of the list: popping the last
  element and pushing the named children from right to left puts them in front in order.\<close>

function findAllLoop :: "string \<Rightarrow> Node list \<Rightarrow> Node list \<Rightarrow> Node list" where
  "findAllLoop kind [] results = results"
| "findAllLoop kind (n # stack) results =
     findAllLoop kind (NamedChildren n @ stack) (if Kind n = kind then results @ [n] else results)"
  by pat_completeness auto
termination
  by (relation "measure (\<lambda>(kind, stack, results). size_list size stack)")
    (auto simp: size_list_append le_imp_less_Suc size_list_NamedChildren)

definition FindAll :: "string \<Rightarrow> Node \<Rightarrow> Node list" where
  "FindAll kind n = (if isNull n then [] else findAllLoop kind [n] [])"

function findFirstLoop :: "string \<Rightarrow> Node list \<Rightarrow> Node option" where
  "findFirstLoop kind [] = None"
| "findFirstLoop kind (n # stack) =
     (if Kind n = kind then Some n else findFirstLoop kind (NamedChildren n @ stack))"
  by pat_completeness auto
termination
  by (relation "measure (\<lambda>(kind, stack). size_list size stack)")
    (auto simp: size_list_append le_imp_less_Suc size_list_NamedChildren)

definition FindFirst :: "string \<Rightarrow> Node \<Rightarrow> Node option" where
  "FindFirst kind n = (if isNull n then None else findFirstLoop kind [n])"

text \<open>The nodes of a tree in source order, parents before children.\<close>

function preorder :: "Node \<Rightarrow> Node list" where
  "preorder n = n # concat (map preorder (NamedChildren n))"
  by pat_completeness auto
termination
  by (relation "measure size") (auto dest: size_NamedChildren)

declare preorder.simps [simp del]

lemma findAllLoop_preorder:
  "findAllLoop kind stack results = results @ filter (\<lambda>m. Kind m = kind) (concat (map preorder stack))"
proof (induction kind stack results rule: findAllLoop.induct)
  case (2 kind n stack results)
  then show ?case by (simp add: preorder.simps [of n])
qed simp

lemma findFirstLoop_preorder:
  "findFirstLoop kind stack = find (\<lambda>m. Kind m = kind) (concat (map preorder stack))"
proof (induction kind stack rule: findFirstLoop.induct)
  case (2 kind n stack)
  then show ?case by (simp add: preorder.simps [of n])
qed simp

lemma isNamed_NonNull: "isNamed n \<Longrightarrow> n \<noteq> NullNode"
  by (auto simp: isNamed_def)

lemma preorder_NonNull: "m \<in> set (preorder n) \<Longrightarrow> n \<noteq> NullNode \<Longrightarrow> m \<noteq> NullNode"
proof (induction n rule: preorder.induct)
  case (1 n)
  from 1(2) consider "m = n" | c where "c \<in> set (NamedChildren n)" "m \<in> set (preorder c)"
    by (auto simp: preorder.simps [of n])
  then show ?case
  proof cases
    case 2
    then have "c \<noteq> NullNode" using isNamed_NonNull by (simp add: NamedChildren_def)
    with 1(1) 2 show ?thesis by blast
  qed (use 1(3) in simp)
qed

lemma find_filter: "find P xs = (case filter P xs of [] \<Rightarrow> None | m # ms \<Rightarrow> Some m)"
  by (induction xs) auto

text \<open>The searches visit the tree in source order.  FindAll returns exactly the nodes of that kind
  of the subtree, in preorder, and FindFirst returns the first of them; on the null node both find
  nothing.\<close>

theorem FindAll_preorder:
  "FindAll kind n = (if isNull n then [] else filter (\<lambda>m. Kind m = kind) (preorder n))
   \<and> FindFirst kind n = (case FindAll kind n of [] \<Rightarrow> None | m # ms \<Rightarrow> Some m)"
  by (auto simp: FindAll_def FindFirst_def findAllLoop_preorder findFirstLoop_preorder
      find_filter [of _ "preorder n"])

end
