(* ===== verification/Control_Flow.thy ===== *)
theory Control_Flow
  imports Syntax_Tree
begin

text \<open>
  The statement-level control-flow graph of internal/graph/control_flow.go: its node and graph types,
  the position lookups NodeAt and NodeAtColumn, the builder with its break and continue stacks, and
  the goto pass.  Node references are the code's integer IDs, with its sentinel -1 for no
  fall-through.  The builder's state is a record passed through; a stack's top is the head of its
  list.  The code bounds its recursion with a depth counter of 4096: build takes the depth that is
  left, and every construct takes the recursive call as a parameter.
\<close>

record StmtNode =
  snID :: int
  snKind :: string
  snStartLine :: int
  snEndLine :: int
  snStartColumn :: int
  snIsControl :: bool
  snStmt :: Node
  snSuccs :: "int list"
  snTrueSuccs :: "int list"
  snFalseSuccs :: "int list"

record StmtCFG =
  cfgNodes :: "StmtNode list"
  cfgEntry :: int
  cfgExit :: int

record cfgBuilder =
  cbNodes :: "StmtNode list"
  cbExit :: int
  cbBreak :: "int list"
  cbCont :: "int list"

type_synonym builder = "Node \<Rightarrow> int \<Rightarrow> cfgBuilder \<Rightarrow> int \<times> cfgBuilder"


section \<open>Statement kinds\<close>

definition isControlKind :: "string \<Rightarrow> bool" where
  "isControlKind kind \<longleftrightarrow> kind \<in> set [''if_statement'', ''while_statement'', ''do_statement'',
     ''for_statement'', ''switch_statement'', ''preproc_ifdef'', ''preproc_ifndef'', ''preproc_if'']"

definition isControlFlowHeader :: "StmtNode \<Rightarrow> bool" where
  "isControlFlowHeader n = (if snIsControl n then True else isControlKind (Kind (snStmt n)))"

definition isStmtNode :: "Node \<Rightarrow> bool" where
  "isStmtNode n \<longleftrightarrow> Kind n \<in> set [''declaration'', ''expression_statement'', ''if_statement'',
     ''for_statement'', ''while_statement'', ''do_statement'', ''switch_statement'',
     ''return_statement'', ''break_statement'', ''continue_statement'', ''goto_statement'',
     ''compound_statement'', ''labeled_statement'', ''case_statement'', ''preproc_ifdef'',
     ''preproc_ifndef'', ''preproc_if'', ''ERROR'', ''function_definition'']"

definition elseBody :: "Node \<Rightarrow> Node option" where
  "elseBody ifStmt =
     (case ChildByFieldName ''alternative'' ifStmt of
        None \<Rightarrow> None
      | Some alt \<Rightarrow>
          if Kind alt = ''else_clause'' then find isStmtNode (NamedChildren alt) else Some alt)"

text \<open>The peeling loop of isConstantTrue: the expression inside the parentheses, if there is one.\<close>

function peelParens :: "Node \<Rightarrow> Node option" where
  "peelParens n =
     (if Kind n = ''parenthesized_expression''
      then (case NamedChildren n of [] \<Rightarrow> None | c # cs \<Rightarrow> peelParens c)
      else Some n)"
  by pat_completeness auto
termination
proof (relation "measure size")
  fix n c cs
  assume "NamedChildren n = c # cs"
  then have "c \<in> set (NamedChildren n)" by simp
  then show "(c, n) \<in> measure size" by (simp add: size_NamedChildren)
qed simp

declare peelParens.simps [simp del]

definition isConstantTrue :: "Node option \<Rightarrow> bool" where
  "isConstantTrue cond =
     (case cond of
        None \<Rightarrow> False
      | Some n0 \<Rightarrow>
          (case peelParens n0 of
             None \<Rightarrow> False
           | Some n \<Rightarrow>
               if Kind n \<noteq> ''number_literal'' then False
               else if \<not> list_all isDigit (Text n) then False
               else Text n \<noteq> '''' \<and> Text n \<noteq> ''0''))"

definition isDefaultCase :: "Node \<Rightarrow> bool" where
  "isDefaultCase caseStmt \<longleftrightarrow> ChildByFieldName ''value'' caseStmt = None"

definition iterMacroBody :: "Node \<Rightarrow> Node option" where
  "iterMacroBody stmt =
     (if Kind stmt \<noteq> ''ERROR'' then None
      else case NamedChildren stmt of
             c0 # c1 # cs \<Rightarrow>
               if Kind c0 \<noteq> ''identifier'' then None
               else find (\<lambda>c. Kind c = ''compound_statement'') (c1 # cs)
           | _ \<Rightarrow> None)"

fun macroFuncLoop :: "Node list \<Rightarrow> Node option \<Rightarrow> Node option" where
  "macroFuncLoop [] body = body"
| "macroFuncLoop (c # cs) body =
     (if Kind c = ''function_declarator'' then None
      else macroFuncLoop cs (if Kind c = ''compound_statement'' \<and> body = None then Some c else body))"

definition macroFuncBody :: "Node \<Rightarrow> Node option" where
  "macroFuncBody stmt =
     (if Kind stmt \<noteq> ''function_definition'' then None else macroFuncLoop (NamedChildren stmt) None)"

definition collectPreprocBranch :: "Node \<Rightarrow> Node list" where
  "collectPreprocBranch node = filter isStmtNode (NamedChildren node)"


section \<open>Position lookup\<close>

definition nodeAtStep :: "int \<Rightarrow> StmtNode \<Rightarrow> StmtNode option \<Rightarrow> StmtNode option" where
  "nodeAtStep line n best =
     (if snKind n \<noteq> ''stmt'' then best
      else if line < snStartLine n \<or> line > snEndLine n then best
      else case best of
             None \<Rightarrow> Some n
           | Some bst \<Rightarrow>
               let bestRange = snEndLine bst - snStartLine bst;
                   nRange = snEndLine n - snStartLine n
               in if nRange < bestRange then Some n
                  else if nRange = bestRange \<and> isControlFlowHeader bst \<and> \<not> isControlFlowHeader n then Some n
                  else best)"

definition NodeAt :: "StmtCFG \<Rightarrow> int \<Rightarrow> StmtNode option" where
  "NodeAt cfg line = fold (nodeAtStep line) (cfgNodes cfg) None"

definition nodeAtColumnStep :: "int \<Rightarrow> int \<Rightarrow> StmtNode \<Rightarrow> StmtNode option \<Rightarrow> StmtNode option" where
  "nodeAtColumnStep line column n best =
     (if snKind n \<noteq> ''stmt'' then best
      else if line < snStartLine n \<or> line > snEndLine n then best
      else if snStartColumn n \<le> 0 \<or> snStartColumn n > column then best
      else case best of
             None \<Rightarrow> Some n
           | Some bst \<Rightarrow>
               let nRange = snEndLine n - snStartLine n;
                   bestRange = snEndLine bst - snStartLine bst
               in if nRange < bestRange then Some n
                  else if nRange > bestRange then best
                  else if snStartColumn n > snStartColumn bst then Some n
                  else if snStartColumn n = snStartColumn bst \<and> isControlFlowHeader bst \<and> \<not> isControlFlowHeader n
                  then Some n
                  else best)"

definition NodeAtColumn :: "StmtCFG \<Rightarrow> int \<Rightarrow> int \<Rightarrow> StmtNode option" where
  "NodeAtColumn cfg line column =
     (if column \<le> 0 then NodeAt cfg line
      else case fold (nodeAtColumnStep line column) (cfgNodes cfg) None of
             Some n \<Rightarrow> Some n
           | None \<Rightarrow> NodeAt cfg line)"


section \<open>The builder\<close>

definition newNode :: "string \<Rightarrow> int \<Rightarrow> int \<Rightarrow> Node \<Rightarrow> cfgBuilder \<Rightarrow> int \<times> cfgBuilder" where
  "newNode kind start finish stmt b =
     (int (length (cbNodes b)),
      b\<lparr>cbNodes := cbNodes b @
          [\<lparr>snID = int (length (cbNodes b)), snKind = kind, snStartLine = start, snEndLine = finish,
            snStartColumn = (if Kind stmt \<noteq> '''' then StartColumn stmt else 0),
            snIsControl = isControlKind (Kind stmt), snStmt = stmt, snSuccs = [], snTrueSuccs = [],
            snFalseSuccs = []\<rparr>]\<rparr>)"

definition stmtNode :: "Node \<Rightarrow> cfgBuilder \<Rightarrow> int \<times> cfgBuilder" where
  "stmtNode stmt b = newNode ''stmt'' (StartLine stmt) (EndLine stmt) stmt b"

definition joinNode :: "cfgBuilder \<Rightarrow> int \<times> cfgBuilder" where
  "joinNode b = newNode ''join'' 0 0 NullNode b"

definition updNode :: "int \<Rightarrow> (StmtNode \<Rightarrow> StmtNode) \<Rightarrow> cfgBuilder \<Rightarrow> cfgBuilder" where
  "updNode i f b = b\<lparr>cbNodes := (cbNodes b)[nat i := f (cbNodes b ! nat i)]\<rparr>"

definition edge :: "int \<Rightarrow> int \<Rightarrow> cfgBuilder \<Rightarrow> cfgBuilder" where
  "edge src dst b =
     (if src < 0 \<or> dst < 0 then b else updNode src (\<lambda>n. n\<lparr>snSuccs := snSuccs n @ [dst]\<rparr>) b)"

definition addTrue :: "int \<Rightarrow> int \<Rightarrow> cfgBuilder \<Rightarrow> cfgBuilder" where
  "addTrue i j = updNode i (\<lambda>n. n\<lparr>snTrueSuccs := snTrueSuccs n @ [j]\<rparr>)"

definition addFalse :: "int \<Rightarrow> int \<Rightarrow> cfgBuilder \<Rightarrow> cfgBuilder" where
  "addFalse i j = updNode i (\<lambda>n. n\<lparr>snFalseSuccs := snFalseSuccs n @ [j]\<rparr>)"

definition nodeCount :: "cfgBuilder \<Rightarrow> int" where
  "nodeCount b = int (length (cbNodes b))"

definition pushTargets :: "int \<Rightarrow> int \<Rightarrow> cfgBuilder \<Rightarrow> cfgBuilder" where
  "pushTargets brk cont b = b\<lparr>cbBreak := brk # cbBreak b, cbCont := cont # cbCont b\<rparr>"

definition popTargets :: "cfgBuilder \<Rightarrow> cfgBuilder" where
  "popTargets b = b\<lparr>cbBreak := tl (cbBreak b), cbCont := tl (cbCont b)\<rparr>"

text \<open>The statement loop of buildBlock: lst is the fall-through node so far, terminated says that no
  live path reaches the rest, detached is the label block being built after a terminator.\<close>

fun blockLoop :: "builder \<Rightarrow> Node list \<Rightarrow> int \<Rightarrow> bool \<Rightarrow> int \<Rightarrow> cfgBuilder \<Rightarrow> int \<times> cfgBuilder" where
  "blockLoop rec [] lst terminated detached b = ((if terminated then -1 else lst), b)"
| "blockLoop rec (stmt # stmts) lst terminated detached b =
     (if \<not> isStmtNode stmt then blockLoop rec stmts lst terminated detached b
      else if terminated then
        (if Kind stmt = ''labeled_statement'' \<or> detached \<ge> 0 then
           (case rec stmt detached b of (d, b') \<Rightarrow> blockLoop rec stmts lst terminated d b')
         else blockLoop rec stmts lst terminated detached b)
      else
        (case rec stmt lst b of (next, b') \<Rightarrow>
           if next < 0 then blockLoop rec stmts lst True detached b'
           else blockLoop rec stmts next False detached b'))"

definition buildBlock :: "builder \<Rightarrow> builder" where
  "buildBlock rec body src b = blockLoop rec (NamedChildren body) src False (-1) b"

fun buildStmtList :: "builder \<Rightarrow> Node list \<Rightarrow> int \<Rightarrow> cfgBuilder \<Rightarrow> int \<times> cfgBuilder" where
  "buildStmtList rec [] lst b = (lst, b)"
| "buildStmtList rec (stmt # stmts) lst b =
     (case rec stmt lst b of (next, b') \<Rightarrow>
        if next < 0 then (-1, b') else buildStmtList rec stmts next b')"

definition buildIterMacroBody :: "builder \<Rightarrow> Node \<Rightarrow> Node \<Rightarrow> int \<Rightarrow> cfgBuilder \<Rightarrow> int \<times> cfgBuilder" where
  "buildIterMacroBody rec stmt body src b =
     (case stmtNode stmt b of (header, b1) \<Rightarrow>
      case joinNode (edge src header b1) of (join, b2) \<Rightarrow>
      case rec body header (pushTargets join header b2) of (bodyLast, b3) \<Rightarrow>
        let b4 = popTargets b3;
            b5 = (if bodyLast \<ge> 0 then edge bodyLast header b4 else b4)
        in (join, edge header join b5))"

text \<open>Building a branch: when it created nodes, the first one is recorded as the branch's target.\<close>

definition buildBranch :: "builder \<Rightarrow> (int \<Rightarrow> int \<Rightarrow> cfgBuilder \<Rightarrow> cfgBuilder) \<Rightarrow> Node \<Rightarrow> int \<Rightarrow> cfgBuilder \<Rightarrow> int \<times> cfgBuilder" where
  "buildBranch rec rcd stmt cond b =
     (case rec stmt cond b of (lst, b') \<Rightarrow>
        (lst, if nodeCount b' > nodeCount b then rcd cond (nodeCount b) b' else b'))"

definition buildIf :: "builder \<Rightarrow> builder" where
  "buildIf rec stmt src b =
     (case stmtNode stmt b of (cond, b1) \<Rightarrow>
      case joinNode (edge src cond b1) of (join, b2) \<Rightarrow>
      case (case ChildByFieldName ''consequence'' stmt of
              None \<Rightarrow> (-1, b2)
            | Some cons \<Rightarrow> buildBranch rec addTrue cons cond b2) of (thenLast, b3) \<Rightarrow>
      case (case elseBody stmt of
              Some alt \<Rightarrow> buildBranch rec addFalse alt cond b3
            | None \<Rightarrow> (-1, addFalse cond join (edge cond join b3))) of (elseLast, b4) \<Rightarrow>
        let b5 = (if thenLast \<ge> 0 then edge thenLast join b4 else b4);
            b6 = (if elseLast \<ge> 0 then edge elseLast join b5 else b5)
        in if thenLast < 0 \<and> elseBody stmt \<noteq> None \<and> elseLast < 0 then (-1, b6) else (join, b6))"

definition buildDoLoopStep :: "builder \<Rightarrow> Node \<Rightarrow> int \<Rightarrow> int \<Rightarrow> cfgBuilder \<Rightarrow> int \<times> int \<times> cfgBuilder" where
  "buildDoLoopStep rec s lst firstID b =
     (case rec s lst b of (next, b') \<Rightarrow>
        (next, if firstID < 0 \<and> nodeCount b' > nodeCount b then nodeCount b else firstID, b'))"

text \<open>The loop over a do body: the fall-through so far, the first node created (-1 while there is
  none), and whether a statement terminated.\<close>

fun doLoop :: "builder \<Rightarrow> Node list \<Rightarrow> int \<Rightarrow> int \<Rightarrow> cfgBuilder \<Rightarrow> int \<times> int \<times> bool \<times> cfgBuilder" where
  "doLoop rec [] lst firstID b = (lst, firstID, False, b)"
| "doLoop rec (s # ss) lst firstID b =
     (if \<not> isStmtNode s then doLoop rec ss lst firstID b
      else case buildDoLoopStep rec s lst firstID b of (next, firstID', b') \<Rightarrow>
             if next < 0 then (lst, firstID', True, b') else doLoop rec ss next firstID' b')"

definition buildDo :: "builder \<Rightarrow> builder" where
  "buildDo rec stmt src b =
     (case stmtNode stmt b of (cond, b1) \<Rightarrow>
      case joinNode b1 of (join, b2) \<Rightarrow>
      case (case ChildByFieldName ''body'' stmt of
              None \<Rightarrow> (src, -1, False, pushTargets join cond b2)
            | Some body \<Rightarrow> doLoop rec (NamedChildren body) src (-1) (pushTargets join cond b2))
        of (lst, firstID, terminated, b3) \<Rightarrow>
        let b4 = popTargets b3;
            first = (if firstID < 0 then cond else firstID);
            b5 = (if \<not> terminated then edge lst cond b4 else b4);
            b6 = edge cond join (edge cond first b5)
        in (join, addFalse cond join (addTrue cond first b6)))"

definition buildWhileDo :: "builder \<Rightarrow> builder" where
  "buildWhileDo rec stmt src b =
     (if Kind stmt = ''do_statement'' then buildDo rec stmt src b
      else
        case stmtNode stmt b of (header, b1) \<Rightarrow>
        case joinNode (edge src header b1) of (join, b2) \<Rightarrow>
        case (case ChildByFieldName ''body'' stmt of
                None \<Rightarrow> (-1, pushTargets join header b2)
              | Some body \<Rightarrow> buildBranch rec addTrue body header (pushTargets join header b2)) of (bodyLast, b3) \<Rightarrow>
          let b4 = popTargets b3;
              b5 = (if bodyLast \<ge> 0 then edge bodyLast header b4 else b4);
              b6 = (if \<not> isConstantTrue (ChildByFieldName ''condition'' stmt)
                    then addFalse header join (edge header join b5) else b5)
          in (join, b6))"

definition buildFor :: "builder \<Rightarrow> builder" where
  "buildFor rec stmt src b =
     (case stmtNode stmt b of (header, b1) \<Rightarrow>
      case (case ChildByFieldName ''initializer'' stmt of
              None \<Rightarrow> (src, b1) | Some init \<Rightarrow> rec init src b1) of (cur, b2) \<Rightarrow>
      case joinNode (edge cur header b2) of (join, b3) \<Rightarrow>
      case (case ChildByFieldName ''update'' stmt of
              None \<Rightarrow> (-1, b3) | Some update \<Rightarrow> stmtNode update b3) of (upd, b4) \<Rightarrow>
      let contTarget = (if upd \<ge> 0 then upd else header) in
      case (case ChildByFieldName ''body'' stmt of
              None \<Rightarrow> (-1, pushTargets join contTarget b4)
            | Some body \<Rightarrow> buildBranch rec addTrue body header (pushTargets join contTarget b4)) of (bodyLast, b5) \<Rightarrow>
        let b6 = popTargets b5;
            b7 = (if upd \<ge> 0 then edge upd header b6 else b6);
            b8 = (if bodyLast \<ge> 0 then (if upd \<ge> 0 then edge bodyLast upd b7 else edge bodyLast header b7) else b7);
            b9 = (if ChildByFieldName ''condition'' stmt \<noteq> None
                  then addFalse header join (edge header join b8) else b8)
        in (join, b9))"

text \<open>The cases of a switch: for each one its first node (-1 when it created none) and its
  fall-through.\<close>

fun switchCases :: "builder \<Rightarrow> int \<Rightarrow> Node list \<Rightarrow> (int \<times> int) list \<Rightarrow> bool \<Rightarrow> cfgBuilder \<Rightarrow> (int \<times> int) list \<times> bool \<times> cfgBuilder" where
  "switchCases rec header [] cases hasDefault b = (cases, hasDefault, b)"
| "switchCases rec header (child # cs) cases hasDefault b =
     (if Kind child \<noteq> ''case_statement'' then switchCases rec header cs cases hasDefault b
      else case buildBlock rec child header b of (lst, b') \<Rightarrow>
             switchCases rec header cs
               (cases @ [(if nodeCount b < nodeCount b' then nodeCount b else -1, lst)])
               (if isDefaultCase child then True else hasDefault) b')"

text \<open>The fall-through loop: prev is the (adjusted) fall-through of the case before.  It returns the
  fall-through of the lst case.\<close>

fun caseEdges :: "int \<Rightarrow> (int \<times> int) list \<Rightarrow> cfgBuilder \<Rightarrow> int \<times> cfgBuilder" where
  "caseEdges prev [] b = (prev, b)"
| "caseEdges prev ((first, lst) # cs) b =
     (if first < 0 then caseEdges prev cs b
      else caseEdges lst cs (if prev \<ge> 0 then edge prev first b else b))"

definition buildSwitch :: "builder \<Rightarrow> builder" where
  "buildSwitch rec stmt src b =
     (case stmtNode stmt b of (header, b1) \<Rightarrow>
      case joinNode (edge src header b1) of (join, b2) \<Rightarrow>
      case ChildByFieldName ''body'' stmt of
        None \<Rightarrow> (join, edge header join b2)
      | Some body \<Rightarrow>
          case switchCases rec header (NamedChildren body) [] False (b2\<lparr>cbBreak := join # cbBreak b2\<rparr>)
            of (cases, hasDefault, b3) \<Rightarrow>
          case (case cases of [] \<Rightarrow> (-1, b3) | (first, lst) # cs \<Rightarrow> caseEdges lst cs b3) of (lst, b4) \<Rightarrow>
            let b5 = (if lst \<ge> 0 then edge lst join b4 else b4);
                b6 = (if \<not> hasDefault then edge header join b5 else b5)
            in (join, b6\<lparr>cbBreak := tl (cbBreak b6)\<rparr>))"

fun preprocBranches :: "Node list \<Rightarrow> Node list list \<Rightarrow> Node list \<Rightarrow> bool \<Rightarrow> Node list list \<times> bool" where
  "preprocBranches [] branches cur sawElse = (branches @ [cur], sawElse)"
| "preprocBranches (c # cs) branches cur sawElse =
     (if Kind c = ''preproc_elif'' then preprocBranches cs (branches @ [cur]) (collectPreprocBranch c) sawElse
      else if Kind c = ''preproc_else'' then preprocBranches cs (branches @ [cur]) (collectPreprocBranch c) True
      else preprocBranches cs branches (if isStmtNode c then cur @ [c] else cur) sawElse)"

fun buildAlternatives :: "builder \<Rightarrow> int \<Rightarrow> int \<Rightarrow> Node list list \<Rightarrow> bool \<Rightarrow> cfgBuilder \<Rightarrow> bool \<times> cfgBuilder" where
  "buildAlternatives rec src join [] fall b = (fall, b)"
| "buildAlternatives rec src join (br # brs) fall b =
     (if br = [] then buildAlternatives rec src join brs True (edge src join b)
      else case buildStmtList rec br src b of (lst, b') \<Rightarrow>
             if lst \<ge> 0 then buildAlternatives rec src join brs True (edge lst join b')
             else buildAlternatives rec src join brs fall b')"

definition buildPreproc :: "builder \<Rightarrow> builder" where
  "buildPreproc rec stmt src b =
     (case joinNode b of (join, b1) \<Rightarrow>
      case preprocBranches (NamedChildren stmt) [] [] False of (branches, sawElse) \<Rightarrow>
      case buildAlternatives rec src join (if \<not> sawElse then branches @ [[]] else branches) False b1 of (fall, b2) \<Rightarrow>
        if \<not> fall then (-1, b2) else (join, b2))"

definition buildLeaf :: "builder" where
  "buildLeaf stmt src b = (case stmtNode stmt b of (n, b1) \<Rightarrow> (n, edge src n b1))"

definition buildJump :: "int option \<Rightarrow> builder" where
  "buildJump target stmt src b =
     (case stmtNode stmt b of (n, b1) \<Rightarrow>
        (-1, case target of None \<Rightarrow> edge src n b1 | Some t \<Rightarrow> edge n t (edge src n b1)))"

definition buildStmt :: "builder \<Rightarrow> builder" where
  "buildStmt rec stmt src b =
     (let k = Kind stmt in
      if k = ''compound_statement'' then buildBlock rec stmt src b
      else if k = ''if_statement'' then buildIf rec stmt src b
      else if k = ''while_statement'' \<or> k = ''do_statement'' then buildWhileDo rec stmt src b
      else if k = ''for_statement'' then buildFor rec stmt src b
      else if k = ''switch_statement'' then buildSwitch rec stmt src b
      else if k = ''preproc_ifdef'' \<or> k = ''preproc_ifndef'' \<or> k = ''preproc_if'' then buildPreproc rec stmt src b
      else if k = ''return_statement'' then buildJump (Some (cbExit b)) stmt src b
      else if k = ''break_statement'' then
        buildJump (Some (case cbBreak b of t # ts \<Rightarrow> t | [] \<Rightarrow> cbExit b)) stmt src b
      else if k = ''continue_statement'' then
        buildJump (Some (case cbCont b of t # ts \<Rightarrow> t | [] \<Rightarrow> cbExit b)) stmt src b
      else if k = ''goto_statement'' then buildJump None stmt src b
      else if k = ''labeled_statement'' then
        (case find isStmtNode (NamedChildren stmt) of Some child \<Rightarrow> rec child src b | None \<Rightarrow> (src, b))
      else if k = ''case_statement'' then buildBlock rec stmt src b
      else if k = ''ERROR'' then
        (case iterMacroBody stmt of Some body \<Rightarrow> buildIterMacroBody rec stmt body src b
         | None \<Rightarrow> buildLeaf stmt src b)
      else if k = ''function_definition'' then
        (case macroFuncBody stmt of Some body \<Rightarrow> buildIterMacroBody rec stmt body src b
         | None \<Rightarrow> buildLeaf stmt src b)
      else buildLeaf stmt src b)"

text \<open>build with the depth that is left: at the bound a statement is a leaf.\<close>

fun build :: "nat \<Rightarrow> builder" where
  "build 0 stmt src b = buildLeaf stmt src b"
| "build (Suc d) stmt src b = buildStmt (build d) stmt src b"

definition maxDepth :: nat where "maxDepth = 4096"


section \<open>Goto edges and the graph of a function\<close>

fun labelChildren :: "Node list \<Rightarrow> string \<Rightarrow> int \<Rightarrow> string \<times> int" where
  "labelChildren [] name stmtLine = (name, stmtLine)"
| "labelChildren (k # ks) name stmtLine =
     (if Kind k = ''statement_identifier'' \<and> name = '''' then labelChildren ks (Text k) stmtLine
      else labelChildren ks name (if isStmtNode k \<and> StartLine k > 0 then StartLine k else stmtLine))"

definition labelStep :: "Node \<Rightarrow> (string \<Rightarrow> int option) \<Rightarrow> (string \<Rightarrow> int option)" where
  "labelStep ls labelLine =
     (case labelChildren (NamedChildren ls) '''' 0 of (name, stmtLine) \<Rightarrow>
        if name \<noteq> '''' \<and> stmtLine > 0
           \<and> (case labelLine name of None \<Rightarrow> True | Some prev \<Rightarrow> stmtLine < prev)
        then labelLine(name \<mapsto> stmtLine) else labelLine)"

definition gotoTarget :: "Node \<Rightarrow> string" where
  "gotoTarget gs =
     (case find (\<lambda>k. Kind k = ''statement_identifier'') (NamedChildren gs) of
        Some k \<Rightarrow> Text k | None \<Rightarrow> '''')"

definition addSucc :: "int \<Rightarrow> int \<Rightarrow> StmtCFG \<Rightarrow> StmtCFG" where
  "addSucc i j cfg =
     cfg\<lparr>cfgNodes := (cfgNodes cfg)[nat i := (cfgNodes cfg ! nat i)\<lparr>snSuccs := snSuccs (cfgNodes cfg ! nat i) @ [j]\<rparr>]\<rparr>"

definition gotoStep :: "(string \<Rightarrow> int option) \<Rightarrow> Node \<Rightarrow> StmtCFG \<Rightarrow> StmtCFG" where
  "gotoStep labelLine gs cfg =
     (case labelLine (gotoTarget gs) of
        None \<Rightarrow> cfg
      | Some line \<Rightarrow>
          (case (NodeAt cfg (StartLine gs), NodeAt cfg line) of
             (Some gn, Some tn) \<Rightarrow>
               if snID gn = snID tn then cfg
               else if snID tn \<in> set (snSuccs gn) then cfg
               else addSucc (snID gn) (snID tn) cfg
           | _ \<Rightarrow> cfg))"

definition linkGotoLabels :: "StmtCFG \<Rightarrow> Node \<Rightarrow> StmtCFG" where
  "linkGotoLabels cfg body =
     (let labels = fold labelStep (FindAll ''labeled_statement'' body) Map.empty
      in fold (gotoStep labels) (FindAll ''goto_statement'' body) cfg)"

definition emptyBuilder :: "int \<Rightarrow> cfgBuilder" where
  "emptyBuilder funcEnd =
     (let b0 = \<lparr>cbNodes = [], cbExit = 0, cbBreak = [], cbCont = []\<rparr>;
          (entry, b1) = newNode ''entry'' 0 0 NullNode b0;
          (exit, b2) = newNode ''exit'' funcEnd funcEnd NullNode b1
      in b2\<lparr>cbExit := exit\<rparr>)"

definition BuildStmtCFG :: "Node \<Rightarrow> int \<Rightarrow> StmtCFG" where
  "BuildStmtCFG body funcEnd =
     (let b = emptyBuilder funcEnd in
      if Kind body \<noteq> ''compound_statement'' then
        \<lparr>cfgNodes = cbNodes (edge 0 1 b), cfgEntry = 0, cfgExit = 1\<rparr>
      else case buildBlock (build maxDepth) body 0 b of (lst, b') \<Rightarrow>
             linkGotoLabels
               \<lparr>cfgNodes = cbNodes (if lst \<ge> 0 then edge lst 1 b' else b'), cfgEntry = 0, cfgExit = 1\<rparr> body)"

end
