(* ===== verification/CFG_Cache.thy ===== *)
theory CFG_Cache
  imports Tree_Cache Control_Flow
begin

text \<open>
  The cache of control-flow graphs, internal/graph/cfg_cache.go: entries shared by pointer (a store
  indexed by number), leases that pin them, the placeholder of a graph that is being built with the
  channel its waiters block on, and the LRU eviction.  A cached graph keeps one borrow of its syntax
  tree, through the operations of Tree_Cache, so the state of the parser is threaded through.  What
  runs under the cache's mutex is one step; the builder runs outside, between two steps.
\<close>

record cfgEntry =
  ceCfg :: "StmtCFG option"
  ceTree :: "nat option"
  ceLast :: int
  ceNodes :: int
  ceRefs :: int
  ceDone :: bool

record CFGCache =
  ccByFn :: "(int \<times> nat) list"
  ccEntries :: "cfgEntry list"
  ccMaxEntries :: int
  ccMaxNodes :: int
  ccTotal :: int
  ccClock :: int
  ccBuilds :: int
  ccHits :: int
  ccEvictions :: int

record CFGLease =
  leEntry :: "nat option"
  leCfg :: "StmtCFG option"
  leOnce :: bool

definition NewCFGCache :: CFGCache where
  "NewCFGCache = \<lparr>ccByFn = [], ccEntries = [], ccMaxEntries = 0, ccMaxNodes = 0, ccTotal = 0, ccClock = 0,
     ccBuilds = 0, ccHits = 0, ccEvictions = 0\<rparr>"

definition updEntry :: "nat \<Rightarrow> (cfgEntry \<Rightarrow> cfgEntry) \<Rightarrow> CFGCache \<Rightarrow> CFGCache" where
  "updEntry e f c = c\<lparr>ccEntries := (ccEntries c)[e := f (ccEntries c ! e)]\<rparr>"

definition cacheTick :: "CFGCache \<Rightarrow> CFGCache" where
  "cacheTick c = c\<lparr>ccClock := (ccClock c + 1) mod 2 ^ 64\<rparr>"

definition dropKey :: "int \<Rightarrow> CFGCache \<Rightarrow> CFGCache" where
  "dropKey k c = c\<lparr>ccByFn := filter (\<lambda>ke. fst ke \<noteq> k) (ccByFn c)\<rparr>"


section \<open>Eviction\<close>

text \<open>The scan of evictOldestLocked, with the best key so far and its timestamp.\<close>

fun oldestEntry :: "cfgEntry list \<Rightarrow> (int \<times> nat) list \<Rightarrow> int \<Rightarrow> (int \<times> nat) option \<Rightarrow> (int \<times> nat) option" where
  "oldestEntry es [] oldestLast best = best"
| "oldestEntry es ((k, e) # rest) oldestLast best =
     (if ceRefs (es ! e) > 0 \<or> ceCfg (es ! e) = None then oldestEntry es rest oldestLast best
      else if ceLast (es ! e) < oldestLast then oldestEntry es rest (ceLast (es ! e)) (Some (k, e))
      else oldestEntry es rest oldestLast best)"

definition releaseTree :: "nat option \<Rightarrow> parserState \<Rightarrow> parserState" where
  "releaseTree t p = (case t of None \<Rightarrow> p | Some i \<Rightarrow> treeRelease i p)"

definition evictOldestLocked :: "CFGCache \<times> parserState \<Rightarrow> (CFGCache \<times> parserState) option" where
  "evictOldestLocked cp =
     (case cp of (c, p) \<Rightarrow>
        (case oldestEntry (ccEntries c) (ccByFn c) maxUint64 None of
           None \<Rightarrow> None
         | Some (k, e) \<Rightarrow>
             Some ((dropKey k c)\<lparr>ccTotal := ccTotal c - ceNodes (ccEntries c ! e), ccEvictions := ccEvictions c + 1\<rparr>,
                   releaseTree (ceTree (ccEntries c ! e)) p)))"

definition overBudget :: "CFGCache \<Rightarrow> bool" where
  "overBudget c \<longleftrightarrow> (ccMaxEntries c > 0 \<and> int (length (ccByFn c)) > ccMaxEntries c)
     \<or> (ccMaxNodes c > 0 \<and> ccTotal c > ccMaxNodes c)"

lemma oldestEntry_mem: "oldestEntry es kes l best = Some r \<Longrightarrow> best = Some r \<or> r \<in> set kes"
  by (induction es kes l best rule: oldestEntry.induct) (auto split: if_splits)

lemma evictOldestLocked_shrinks: "evictOldestLocked (c, p) = Some (c', p') \<Longrightarrow> length (ccByFn c') < length (ccByFn c)"
  using oldestEntry_mem [of "ccEntries c" "ccByFn c" maxUint64 None]
  by (fastforce simp: evictOldestLocked_def dropKey_def intro!: length_filter_less split: option.splits)

function evictIfNeededLocked :: "CFGCache \<times> parserState \<Rightarrow> CFGCache \<times> parserState" where
  "evictIfNeededLocked cp =
     (if \<not> overBudget (fst cp) then cp
      else case evictOldestLocked cp of None \<Rightarrow> cp | Some cp' \<Rightarrow> evictIfNeededLocked cp')"
  by pat_completeness auto
termination
  by (relation "measure (\<lambda>cp. length (ccByFn (fst cp)))") (auto dest: evictOldestLocked_shrinks)

declare evictIfNeededLocked.simps [simp del]


section \<open>Acquire and Release\<close>

text \<open>The first critical section of Acquire.\<close>

datatype acquired = Hit CFGLease | Busy nat | Claim nat

definition acquireStart :: "int \<Rightarrow> CFGCache \<Rightarrow> acquired \<times> CFGCache" where
  "acquireStart fnID c =
     (case map_of (ccByFn c) fnID of
        Some e \<Rightarrow>
          if ceCfg (ccEntries c ! e) = None then (Busy e, c)
          else let c1 = cacheTick c;
                   c2 = updEntry e (\<lambda>x. x\<lparr>ceRefs := ceRefs x + 1, ceLast := ccClock c1\<rparr>) c1
               in (Hit \<lparr>leEntry = Some e, leCfg = ceCfg (ccEntries c ! e), leOnce = False\<rparr>, c2\<lparr>ccHits := ccHits c + 1\<rparr>)
      | None \<Rightarrow>
          let e = length (ccEntries c) in
          (Claim e,
           c\<lparr>ccEntries := ccEntries c @ [\<lparr>ceCfg = None, ceTree = None, ceLast = 0, ceNodes = 0, ceRefs = 0, ceDone = False\<rparr>],
             ccByFn := (fnID, e) # ccByFn c, ccBuilds := ccBuilds c + 1\<rparr>))"

text \<open>The placeholder is removed if it is still the entry of its key, and its channel is closed: the
  builder panicked or returned nil.\<close>

definition abandon :: "int \<Rightarrow> nat \<Rightarrow> CFGCache \<Rightarrow> CFGCache" where
  "abandon fnID e c =
     (let c1 = (if map_of (ccByFn c) fnID = Some e then dropKey fnID c else c)
      in updEntry e (\<lambda>x. x\<lparr>ceDone := True\<rparr>) c1)"

text \<open>The second critical section, with what the builder returned.\<close>

definition acquireFinish :: "int \<Rightarrow> nat \<Rightarrow> nat \<Rightarrow> StmtCFG option \<Rightarrow> CFGCache \<times> parserState \<Rightarrow> CFGLease \<times> CFGCache \<times> parserState" where
  "acquireFinish fnID e tr built cp =
     (case cp of (c, p) \<Rightarrow>
      case built of
        None \<Rightarrow> (\<lparr>leEntry = None, leCfg = None, leOnce = False\<rparr>, abandon fnID e c, p)
      | Some cfg \<Rightarrow>
          let c1 = cacheTick c;
              n = int (length (cfgNodes cfg));
              c2 = updEntry e (\<lambda>x. x\<lparr>ceCfg := Some cfg, ceTree := Some tr, ceNodes := n, ceRefs := 1,
                                    ceLast := ccClock c1, ceDone := True\<rparr>) c1
          in (\<lparr>leEntry = Some e, leCfg = Some cfg, leOnce = False\<rparr>,
              evictIfNeededLocked (c2\<lparr>ccTotal := ccTotal c + n\<rparr>, treeAcquire tr p)))"

text \<open>The lease of a caller that builds directly: no cache, no valid key, no tree, or a cancelled wait.\<close>

definition directLease :: "StmtCFG option \<Rightarrow> CFGLease" where
  "directLease built = \<lparr>leEntry = None, leCfg = built, leOnce = False\<rparr>"

definition acquireDirect :: "bool \<Rightarrow> int \<Rightarrow> nat option \<Rightarrow> bool" where
  "acquireDirect nilCache fnID tr \<longleftrightarrow> nilCache \<or> fnID \<le> 0 \<or> tr = None"

definition leaseRelease :: "CFGLease \<Rightarrow> CFGCache \<times> parserState \<Rightarrow> CFGLease \<times> CFGCache \<times> parserState" where
  "leaseRelease l cp =
     (case leEntry l of
        None \<Rightarrow> (l, cp)
      | Some e \<Rightarrow>
          if leOnce l then (l, cp)
          else (l\<lparr>leOnce := True\<rparr>,
                evictIfNeededLocked
                  (if ceRefs (ccEntries (fst cp) ! e) > 0 then updEntry e (\<lambda>x. x\<lparr>ceRefs := ceRefs x - 1\<rparr>) (fst cp) else fst cp,
                   snd cp)))"


section \<open>The other operations\<close>

definition GetOrBuild :: "int \<Rightarrow> StmtCFG option \<Rightarrow> CFGCache \<times> parserState \<Rightarrow> StmtCFG option \<times> CFGCache \<times> parserState" where
  "GetOrBuild fnID built cp =
     (if fnID \<le> 0 then (built, cp)
      else case cp of (c, p) \<Rightarrow>
        (case map_of (ccByFn c) fnID of
           Some e \<Rightarrow>
             let c1 = cacheTick c
             in (ceCfg (ccEntries c ! e), (updEntry e (\<lambda>x. x\<lparr>ceLast := ccClock c1\<rparr>) c1)\<lparr>ccHits := ccHits c + 1\<rparr>, p)
         | None \<Rightarrow>
             (case built of
                None \<Rightarrow> (None, c\<lparr>ccBuilds := ccBuilds c + 1\<rparr>, p)
              | Some cfg \<Rightarrow>
                  let c1 = cacheTick (c\<lparr>ccBuilds := ccBuilds c + 1\<rparr>);
                      n = int (length (cfgNodes cfg));
                      e = length (ccEntries c);
                      c2 = c1\<lparr>ccEntries := ccEntries c @ [\<lparr>ceCfg = Some cfg, ceTree = None, ceLast = ccClock c1,
                                                           ceNodes = n, ceRefs = 0, ceDone = False\<rparr>],
                              ccByFn := (fnID, e) # ccByFn c, ccTotal := ccTotal c + n\<rparr>
                  in (Some cfg, evictIfNeededLocked (c2, p)))))"

definition Invalidate :: "int \<Rightarrow> CFGCache \<times> parserState \<Rightarrow> CFGCache \<times> parserState" where
  "Invalidate fnID cp =
     (case cp of (c, p) \<Rightarrow>
        (case map_of (ccByFn c) fnID of
           None \<Rightarrow> cp
         | Some e \<Rightarrow>
             ((dropKey fnID c)\<lparr>ccTotal := ccTotal c - ceNodes (ccEntries c ! e)\<rparr>,
              releaseTree (ceTree (ccEntries c ! e)) p)))"

definition Reset :: "CFGCache \<times> parserState \<Rightarrow> CFGCache \<times> parserState" where
  "Reset cp =
     (case cp of (c, p) \<Rightarrow>
        (c\<lparr>ccByFn := [], ccTotal := 0, ccClock := 0, ccBuilds := 0, ccHits := 0, ccEvictions := 0\<rparr>,
         fold (\<lambda>ke. releaseTree (ceTree (ccEntries c ! snd ke))) (ccByFn c) p))"

definition Stats :: "CFGCache \<Rightarrow> int \<times> int" where
  "Stats c = (ccBuilds c, ccHits c)"

definition StatsFull :: "CFGCache \<Rightarrow> int \<times> int \<times> int \<times> int \<times> int" where
  "StatsFull c = (ccBuilds c, ccHits c, ccEvictions c, int (length (ccByFn c)), ccTotal c)"

definition BuildStmtCFGWithTree :: "Node \<Rightarrow> int \<Rightarrow> StmtCFG" where
  "BuildStmtCFGWithTree body funcEnd = BuildStmtCFG body funcEnd"

section \<open>Goroutines\<close>

text \<open>A goroutine that uses the cache through Acquire and Release, as the evidence layer does.\<close>

datatype cfgThread = Ready | WaitOn int nat nat | Building int nat nat | Holding CFGLease

text \<open>The state of the system: the parser, the borrows of trees that are not the cache's, the cache
  and the goroutines.\<close>

record cfgSys =
  syParser :: parserState
  syOwn :: "nat \<Rightarrow> nat"
  syCache :: CFGCache
  syThreads :: "cfgThread list"

definition borrowed :: "CFGCache \<Rightarrow> nat \<Rightarrow> nat" where
  "borrowed c i = length (filter (\<lambda>ke. ceTree (ccEntries c ! snd ke) = Some i) (ccByFn c))"

definition allBorrows :: "(nat \<Rightarrow> nat) \<Rightarrow> CFGCache \<Rightarrow> nat \<Rightarrow> nat" where
  "allBorrows own c = (\<lambda>i. own i + borrowed c i)"

definition started :: "int \<Rightarrow> nat \<Rightarrow> acquired \<Rightarrow> cfgThread" where
  "started fnID tr r = (case r of Hit l \<Rightarrow> Holding l | Busy e \<Rightarrow> WaitOn fnID e tr | Claim e \<Rightarrow> Building fnID e tr)"

inductive cfg_step :: "cfgSys \<Rightarrow> cfgSys \<Rightarrow> bool" where
  client: "cache_step (syParser s, allBorrows (syOwn s) (syCache s)) (p', allBorrows own' (syCache s))
     \<Longrightarrow> cfg_step s (s\<lparr>syParser := p', syOwn := own'\<rparr>)"
| request: "t < length (syThreads s) \<Longrightarrow> syThreads s ! t = Ready \<Longrightarrow> 0 < fnID \<Longrightarrow> acquireStart fnID (syCache s) = (r, c')
     \<Longrightarrow> cfg_step s (s\<lparr>syCache := c', syThreads := (syThreads s)[t := started fnID tr r]\<rparr>)"
| wake: "t < length (syThreads s) \<Longrightarrow> syThreads s ! t = WaitOn fnID e tr \<Longrightarrow> ceDone (ccEntries (syCache s) ! e)
     \<Longrightarrow> acquireStart fnID (syCache s) = (r, c')
     \<Longrightarrow> cfg_step s (s\<lparr>syCache := c', syThreads := (syThreads s)[t := started fnID tr r]\<rparr>)"
| cancel: "t < length (syThreads s) \<Longrightarrow> syThreads s ! t = WaitOn fnID e tr
     \<Longrightarrow> cfg_step s (s\<lparr>syThreads := (syThreads s)[t := Holding (directLease built)]\<rparr>)"
| finish: "t < length (syThreads s) \<Longrightarrow> syThreads s ! t = Building fnID e tr \<Longrightarrow> 0 < syOwn s tr
     \<Longrightarrow> acquireFinish fnID e tr built (syCache s, syParser s) = (l, c', p')
     \<Longrightarrow> cfg_step s (s\<lparr>syParser := p', syCache := c', syThreads := (syThreads s)[t := Holding l]\<rparr>)"
| panic: "t < length (syThreads s) \<Longrightarrow> syThreads s ! t = Building fnID e tr
     \<Longrightarrow> cfg_step s (s\<lparr>syCache := abandon fnID e (syCache s), syThreads := (syThreads s)[t := Ready]\<rparr>)"
| release: "t < length (syThreads s) \<Longrightarrow> syThreads s ! t = Holding l
     \<Longrightarrow> leaseRelease l (syCache s, syParser s) = (l', c', p')
     \<Longrightarrow> cfg_step s (s\<lparr>syParser := p', syCache := c', syThreads := (syThreads s)[t := Holding l']\<rparr>)"
| forget: "t < length (syThreads s) \<Longrightarrow> syThreads s ! t = Holding l \<Longrightarrow> leOnce l \<or> leEntry l = None
     \<Longrightarrow> cfg_step s (s\<lparr>syThreads := (syThreads s)[t := Ready]\<rparr>)"

definition startSys :: "int \<Rightarrow> int \<Rightarrow> int \<Rightarrow> nat \<Rightarrow> cfgSys" where
  "startSys maxTrees maxEntries maxNodes n =
     \<lparr>syParser = SetMaxCachedTrees maxTrees NewParser, syOwn = (\<lambda>_. 0),
      syCache = NewCFGCache\<lparr>ccMaxEntries := maxEntries, ccMaxNodes := maxNodes\<rparr>, syThreads = replicate n Ready\<rparr>"

inductive cfg_reach :: "cfgSys \<Rightarrow> cfgSys \<Rightarrow> bool" for s0 where
  init: "cfg_reach s0 s0"
| step: "cfg_reach s0 s \<Longrightarrow> cfg_step s s' \<Longrightarrow> cfg_reach s0 s'"


section \<open>The invariant\<close>

definition holdsEntry :: "nat \<Rightarrow> cfgThread \<Rightarrow> bool" where
  "holdsEntry e t = (case t of Holding l \<Rightarrow> leEntry l = Some e \<and> \<not> leOnce l | _ \<Rightarrow> False)"

definition buildsEntry :: "nat \<Rightarrow> cfgThread \<Rightarrow> bool" where
  "buildsEntry e t = (case t of Building fnID e' tr \<Rightarrow> e' = e | _ \<Rightarrow> False)"

definition leases :: "nat \<Rightarrow> cfgThread list \<Rightarrow> nat" where
  "leases e ts = length (filter (holdsEntry e) ts)"

definition builders :: "nat \<Rightarrow> cfgThread list \<Rightarrow> nat" where
  "builders e ts = length (filter (buildsEntry e) ts)"

text \<open>An entry of the map: with n leases and m builders it is a placeholder or complete.\<close>

definition entry_ok :: "cfgEntry \<Rightarrow> nat \<Rightarrow> nat \<Rightarrow> bool" where
  "entry_ok x n m \<longleftrightarrow>
     ceRefs x = int n
     \<and> (case ceCfg x of
          None \<Rightarrow> n = 0 \<and> m = 1 \<and> \<not> ceDone x \<and> ceTree x = None \<and> ceNodes x = 0
        | Some g \<Rightarrow> m = 0 \<and> ceDone x \<and> ceTree x \<noteq> None \<and> ceNodes x = int (length (cfgNodes g)))"

text \<open>An entry that is no longer, or not yet, in the map.\<close>

definition gone_ok :: "cfgEntry \<Rightarrow> nat \<Rightarrow> nat \<Rightarrow> bool" where
  "gone_ok x n m \<longleftrightarrow> n = 0 \<and> m = 0 \<and> ceDone x"

definition thread_ok :: "CFGCache \<Rightarrow> cfgThread \<Rightarrow> bool" where
  "thread_ok c t =
     (case t of
        Ready \<Rightarrow> True
      | WaitOn fnID e tr \<Rightarrow> 0 < fnID \<and> e < length (ccEntries c)
      | Building fnID e tr \<Rightarrow> (fnID, e) \<in> set (ccByFn c)
      | Holding l \<Rightarrow> (case leEntry l of None \<Rightarrow> True | Some e \<Rightarrow>
            e < length (ccEntries c) \<and> (\<not> leOnce l \<longrightarrow> leCfg l = ceCfg (ccEntries c ! e))))"

definition cfg_cache_ok :: "CFGCache \<Rightarrow> cfgThread list \<Rightarrow> bool" where
  "cfg_cache_ok c ts \<longleftrightarrow>
     distinct (map fst (ccByFn c)) \<and> distinct (map snd (ccByFn c))
     \<and> (\<forall>e \<in> snd ` set (ccByFn c). e < length (ccEntries c))
     \<and> (\<forall>e < length (ccEntries c).
          (if e \<in> snd ` set (ccByFn c) then entry_ok (ccEntries c ! e) (leases e ts) (builders e ts)
           else gone_ok (ccEntries c ! e) (leases e ts) (builders e ts)))
     \<and> list_all (thread_ok c) ts
     \<and> ccTotal c = (\<Sum>ke \<leftarrow> ccByFn c. ceNodes (ccEntries c ! snd ke))"



text \<open>The threads change at one place.\<close>

lemma leases_upd: "t < length ts \<Longrightarrow>
    int (leases e (ts[t := x])) = int (leases e ts) - (if holdsEntry e (ts ! t) then 1 else 0) + (if holdsEntry e x then 1 else 0)"
  unfolding leases_def by (rule length_filter_upd)

lemma builders_upd: "t < length ts \<Longrightarrow>
    int (builders e (ts[t := x])) = int (builders e ts) - (if buildsEntry e (ts ! t) then 1 else 0) + (if buildsEntry e x then 1 else 0)"
  unfolding builders_def by (rule length_filter_upd)

text \<open>Two threads that say the same about every entry.\<close>

lemma counts_same:
  assumes "t < length ts" "holdsEntry e (ts ! t) = holdsEntry e x" "buildsEntry e (ts ! t) = buildsEntry e x"
  shows "leases e (ts[t := x]) = leases e ts" "builders e (ts[t := x]) = builders e ts"
  using leases_upd [OF assms(1), of e x] builders_upd [OF assms(1), of e x] assms(2,3) by (auto split: if_splits)

lemma thread_kinds [simp]:
  "holdsEntry e Ready = False" "holdsEntry e (WaitOn k e' tr) = False" "holdsEntry e (Building k e' tr) = False"
  "holdsEntry e (Holding l) = (leEntry l = Some e \<and> \<not> leOnce l)" "buildsEntry e Ready = False"
  "buildsEntry e (WaitOn k e' tr) = False" "buildsEntry e (Building k e' tr) = (e' = e)" "buildsEntry e (Holding l) = False"
  by (simp_all add: holdsEntry_def buildsEntry_def)

text \<open>The entries in the map, as a set.\<close>

definition mapped :: "CFGCache \<Rightarrow> nat set" where
  "mapped c = snd ` set (ccByFn c)"

lemma sum_mapped:
  "distinct (map snd (ccByFn c)) \<Longrightarrow> (\<Sum>ke \<leftarrow> ccByFn c. f (snd ke)) = (\<Sum>e \<in> mapped c. f e :: int)"
  using sum_list_distinct_conv_sum_set [of "map snd (ccByFn c)" f] by (simp add: mapped_def o_def)

lemma borrowed_mapped:
  assumes "distinct (map snd (ccByFn c))"
  shows "borrowed c i = card {e \<in> mapped c. ceTree (ccEntries c ! e) = Some i}"
proof -
  let ?P = "\<lambda>e. ceTree (ccEntries c ! e) = Some i"
  have "borrowed c i = length (filter ?P (map snd (ccByFn c)))" by (simp add: borrowed_def filter_map o_def)
  also have "\<dots> = card (set (filter ?P (map snd (ccByFn c))))" using assms by (simp add: distinct_card del: set_filter)
  finally show ?thesis by (simp add: mapped_def)
qed

lemma finite_mapped [simp]: "finite (mapped c)"
  by (simp add: mapped_def)

text \<open>The part of the invariant about the map and the entries, in terms of the set.\<close>

lemma cfg_cache_okI:
  assumes "distinct (map fst (ccByFn c))" "distinct (map snd (ccByFn c))" "\<And>e. e \<in> mapped c \<Longrightarrow> e < length (ccEntries c)"
    and "\<And>e. e < length (ccEntries c) \<Longrightarrow> e \<in> mapped c \<Longrightarrow> entry_ok (ccEntries c ! e) (leases e ts) (builders e ts)"
    and "\<And>e. e < length (ccEntries c) \<Longrightarrow> e \<notin> mapped c \<Longrightarrow> gone_ok (ccEntries c ! e) (leases e ts) (builders e ts)"
    and "\<And>t. t \<in> set ts \<Longrightarrow> thread_ok c t" "ccTotal c = (\<Sum>e \<in> mapped c. ceNodes (ccEntries c ! e))"
  shows "cfg_cache_ok c ts"
  using assms sum_mapped [OF assms(2), of "\<lambda>e. ceNodes (ccEntries c ! e)"]
  unfolding cfg_cache_ok_def mapped_def [symmetric] by (simp add: list_all_iff)

lemma cfg_cache_okD:
  assumes "cfg_cache_ok c ts"
  shows "distinct (map fst (ccByFn c))" "distinct (map snd (ccByFn c))" "e \<in> mapped c \<Longrightarrow> e < length (ccEntries c)"
    and "e \<in> mapped c \<Longrightarrow> entry_ok (ccEntries c ! e) (leases e ts) (builders e ts)"
    and "e < length (ccEntries c) \<Longrightarrow> e \<notin> mapped c \<Longrightarrow> gone_ok (ccEntries c ! e) (leases e ts) (builders e ts)"
    and "t \<in> set ts \<Longrightarrow> thread_ok c t" "ccTotal c = (\<Sum>e \<in> mapped c. ceNodes (ccEntries c ! e))"
  using assms sum_mapped [of c "\<lambda>e. ceNodes (ccEntries c ! e)"]
  unfolding cfg_cache_ok_def mapped_def [symmetric] by (auto simp: list_all_iff)

section \<open>Eviction keeps the invariant\<close>

definition evictable :: "cfgEntry list \<Rightarrow> nat \<Rightarrow> bool" where
  "evictable es e \<longleftrightarrow> \<not> ceRefs (es ! e) > 0 \<and> ceCfg (es ! e) \<noteq> None"

lemma oldestEntry_spec:
  assumes "oldestEntry es kes l best = r"
  shows "(r = best \<and> (\<forall>ke \<in> set kes. evictable es (snd ke) \<longrightarrow> l \<le> ceLast (es ! snd ke)))
    \<or> (\<exists>ke \<in> set kes. r = Some ke \<and> evictable es (snd ke) \<and> ceLast (es ! snd ke) < l
         \<and> (\<forall>ke' \<in> set kes. evictable es (snd ke') \<longrightarrow> ceLast (es ! snd ke) \<le> ceLast (es ! snd ke')))"
  using assms
proof (induction es kes l best rule: oldestEntry.induct)
  case (2 es k e rest l best)
  show ?case
  proof (cases "evictable es e")
    case False
    then have "oldestEntry es rest l best = r" using 2(4) by (auto simp: evictable_def)
    with 2(1) False show ?thesis by (auto simp: evictable_def)
  next
    case True
    show ?thesis
    proof (cases "ceLast (es ! e) < l")
      case False
      then have "oldestEntry es rest l best = r" using 2(4) True by (auto simp: evictable_def)
      with 2(3) True False show ?thesis by (fastforce simp: evictable_def)
    next
      case less: True
      then have "oldestEntry es rest (ceLast (es ! e)) (Some (k, e)) = r" using 2(4) True by (auto simp: evictable_def)
      with 2(2) True less show ?thesis by (fastforce simp: evictable_def)
    qed
  qed
qed simp

lemma dropKey_simps [simp]:
  "ccEntries (dropKey k c) = ccEntries c" "ccTotal (dropKey k c) = ccTotal c" "ccMaxEntries (dropKey k c) = ccMaxEntries c"
  "ccMaxNodes (dropKey k c) = ccMaxNodes c" "ccByFn (dropKey k c) = filter (\<lambda>ke. fst ke \<noteq> k) (ccByFn c)"
  by (simp_all add: dropKey_def)

lemma distinct_map_filter': "distinct (map f xs) \<Longrightarrow> distinct (map f (filter P xs))"
  by (rule distinct_map_filter)

text \<open>Removing the entry of a key from the map.\<close>

lemma mapped_drop:
  assumes "distinct (map fst (ccByFn c))" "distinct (map snd (ccByFn c))" "(k, e) \<in> set (ccByFn c)"
  shows "snd ` set (filter (\<lambda>ke. fst ke \<noteq> k) (ccByFn c)) = mapped c - {e}"
proof -
  have "fst ke = k \<longleftrightarrow> snd ke = e" if "ke \<in> set (ccByFn c)" for ke
  proof -
    have "inj_on fst (set (ccByFn c))" "inj_on snd (set (ccByFn c))" using assms(1,2) by (simp_all add: distinct_map)
    then show ?thesis using that assms(3) unfolding inj_on_def by (metis fst_conv snd_conv)
  qed
  then show ?thesis by (auto simp: mapped_def)
qed

lemma mapped_key: "e \<in> mapped c \<Longrightarrow> \<exists>k. (k, e) \<in> set (ccByFn c)"
  by (auto simp: mapped_def)

lemma thread_ok_cong:
  assumes "thread_ok c t" "\<And>k e tr. t = Building k e tr \<Longrightarrow> (k, e) \<in> set (ccByFn c')"
    and "length (ccEntries c) \<le> length (ccEntries c')"
    and "\<And>l e. t = Holding l \<Longrightarrow> leEntry l = Some e \<Longrightarrow> \<not> leOnce l \<Longrightarrow> ceCfg (ccEntries c' ! e) = ceCfg (ccEntries c ! e)"
  shows "thread_ok c' t"
  using assms by (cases t) (auto simp: thread_ok_def split: option.splits)

text \<open>A complete entry without leases leaves the map.\<close>

lemma drop_ok:
  assumes inv: "cfg_cache_ok c ts" and ke: "(k, e) \<in> set (ccByFn c)" and cmp: "ceCfg (ccEntries c ! e) \<noteq> None"
    and free: "leases e ts = 0" and c': "ccByFn c' = filter (\<lambda>ke. fst ke \<noteq> k) (ccByFn c)" "ccEntries c' = ccEntries c"
    "ccTotal c' = ccTotal c - ceNodes (ccEntries c ! e)"
  shows "cfg_cache_ok c' ts" "mapped c' = mapped c - {e}" "e \<in> mapped c"
proof -
  note d = cfg_cache_okD [OF inv]
  have em: "e \<in> mapped c" using ke by (force simp: mapped_def)
  show m: "mapped c' = mapped c - {e}" using mapped_drop [OF d(1,2) ke] c'(1) by (simp add: mapped_def)
  have eo: "entry_ok (ccEntries c ! e) 0 (builders e ts)" using d(4) [OF em] free by simp
  then have nb: "builders e ts = 0" using cmp by (auto simp: entry_ok_def)
  show "e \<in> mapped c" by (rule em)
  show "cfg_cache_ok c' ts"
  proof (rule cfg_cache_okI)
    show "distinct (map fst (ccByFn c'))" "distinct (map snd (ccByFn c'))"
      using d(1,2) by (simp_all add: c' distinct_map_filter)
    show "ccTotal c' = (\<Sum>e\<in>mapped c'. ceNodes (ccEntries c' ! e))"
      using d(7) em by (simp add: c' m sum_diff1)
    show "thread_ok c' t" if t: "t \<in> set ts" for t
    proof -
      have "thread_ok c t" using d(6) [OF t] .
      moreover have "(k', e') \<in> set (ccByFn c')" if "t = Building k' e' tr" for k' e' tr
      proof -
        have mem: "(k', e') \<in> set (ccByFn c)" using \<open>thread_ok c t\<close> that by (simp add: thread_ok_def)
        have "buildsEntry e' t" using that by simp
        then have "builders e' ts \<noteq> 0" using t by (auto simp: builders_def filter_empty_conv)
        then have "e' \<noteq> e" using nb by auto
        moreover have "k' = k \<Longrightarrow> e' = e" using d(1) mem ke by (meson eq_key_imp_eq_value)
        ultimately show ?thesis using mem c'(1) by auto
      qed
      ultimately show ?thesis using c'(2) by (intro thread_ok_cong [of c t c']) auto
    qed
  next
    fix e' assume e': "e' < length (ccEntries c')" "e' \<notin> mapped c'"
    show "gone_ok (ccEntries c' ! e') (leases e' ts) (builders e' ts)"
    proof (cases "e' = e")
      case True
      with eo free nb cmp c'(2) show ?thesis by (auto simp: gone_ok_def entry_ok_def)
    next
      case False
      with e' m c'(2) d(5) show ?thesis by auto
    qed
  qed (use d m c' in auto)
qed

lemma borrowed_drop:
  assumes "distinct (map snd (ccByFn c))" "distinct (map snd (ccByFn c'))" "mapped c' = mapped c - {e}" "e \<in> mapped c"
    and "ccEntries c' = ccEntries c"
  shows "borrowed c' i = borrowed c i - (if ceTree (ccEntries c ! e) = Some i then 1 else 0)"
    and "ceTree (ccEntries c ! e) = Some i \<Longrightarrow> 0 < borrowed c i"
proof -
  let ?S = "\<lambda>c. {x \<in> mapped c. ceTree (ccEntries c ! x) = Some i}"
  have b: "borrowed c i = card (?S c)" "borrowed c' i = card (?S c')" using borrowed_mapped assms(1,2) by blast+
  show "borrowed c' i = borrowed c i - (if ceTree (ccEntries c ! e) = Some i then 1 else 0)"
  proof (cases "ceTree (ccEntries c ! e) = Some i")
    case True
    have "?S c' = ?S c - {e}" using assms(3,5) by auto
    moreover have "e \<in> ?S c" using True assms(4) by simp
    ultimately have "card (?S c') = card (?S c) - 1" by (simp add: card_Diff_singleton)
    with b True show ?thesis by simp
  next
    case False
    then have "?S c' = ?S c" using assms(3,5) by auto
    with b False show ?thesis by simp
  qed
  assume "ceTree (ccEntries c ! e) = Some i"
  then have "e \<in> ?S c" using assms(4) by simp
  then show "0 < borrowed c i" unfolding b by (auto simp: card_gt_0_iff)
qed

lemma releaseTree_ok:
  assumes "cache_ok p b" "\<And>i. t = Some i \<Longrightarrow> 0 < b i" "\<And>i. b' i = b i - (if t = Some i then 1 else 0)"
  shows "cache_ok (releaseTree t p) b'"
proof (cases t)
  case None
  then have "b' = b" using assms(3) by auto
  with None assms(1) show ?thesis by (simp add: releaseTree_def)
next
  case (Some i)
  then have "b' = b(i := b i - 1)" using assms(3) by auto
  with Some release_ok [OF assms(1,2)] show ?thesis by (simp add: releaseTree_def)
qed

text \<open>An eviction: the entry that goes, and what it leaves.\<close>

lemma evict_inv:
  assumes inv: "cfg_cache_ok c ts" "cache_ok p (allBorrows own c)" and e: "evictOldestLocked (c, p) = Some (c', p')"
  shows "cfg_cache_ok c' ts \<and> cache_ok p' (allBorrows own c') \<and> ccEntries c' = ccEntries c \<and> mapped c' \<subseteq> mapped c
    \<and> ccMaxEntries c' = ccMaxEntries c \<and> ccMaxNodes c' = ccMaxNodes c
    \<and> (\<forall>x \<in> mapped c - mapped c'. leases x ts = 0)"
proof -
  note d = cfg_cache_okD [OF inv(1)]
  obtain k x where o: "oldestEntry (ccEntries c) (ccByFn c) maxUint64 None = Some (k, x)"
    and c': "c' = (dropKey k c)\<lparr>ccTotal := ccTotal c - ceNodes (ccEntries c ! x), ccEvictions := ccEvictions c + 1\<rparr>"
    and p': "p' = releaseTree (ceTree (ccEntries c ! x)) p"
    using e by (auto simp: evictOldestLocked_def split: option.splits)
  have kx: "(k, x) \<in> set (ccByFn c)" "evictable (ccEntries c) x" using oldestEntry_spec [OF o] by auto
  have xm: "x \<in> mapped c" using kx(1) by (force simp: mapped_def)
  have free: "leases x ts = 0" using d(4) [OF xm] kx(2) by (simp add: entry_ok_def evictable_def)
  have cmp: "ceCfg (ccEntries c ! x) \<noteq> None" using kx(2) by (simp add: evictable_def)
  have bf: "ccByFn c' = filter (\<lambda>ke. fst ke \<noteq> k) (ccByFn c)" "ccEntries c' = ccEntries c"
    "ccTotal c' = ccTotal c - ceNodes (ccEntries c ! x)" by (simp_all add: c')
  note dr = drop_ok [OF inv(1) kx(1) cmp free bf]
  note bd = borrowed_drop [OF d(2) cfg_cache_okD(2) [OF dr(1)] dr(2,3) bf(2)]
  have "cache_ok p' (allBorrows own c')"
    unfolding p' by (rule releaseTree_ok [OF inv(2)]) (use bd in \<open>auto simp: allBorrows_def\<close>)
  moreover have "ccMaxEntries c' = ccMaxEntries c" "ccMaxNodes c' = ccMaxNodes c" by (simp_all add: c')
  moreover have "mapped c' \<subseteq> mapped c" "\<forall>y \<in> mapped c - mapped c'. leases y ts = 0" using dr(2) free by blast+
  ultimately show ?thesis using dr(1) bf(2) by blast
qed

text \<open>The loop stops within the budget, or when nothing is left to evict.\<close>

definition budget_met :: "CFGCache \<Rightarrow> bool" where
  "budget_met c \<longleftrightarrow> \<not> overBudget c \<or>
     (\<forall>e \<in> mapped c. evictable (ccEntries c) e \<longrightarrow> ceLast (ccEntries c ! e) = maxUint64)"

definition stamps_ok :: "CFGCache \<Rightarrow> bool" where
  "stamps_ok c \<longleftrightarrow> (\<forall>e < length (ccEntries c). ceLast (ccEntries c ! e) \<le> maxUint64)"

lemma evictIfNeeded_inv:
  assumes "cfg_cache_ok c ts" "cache_ok p (allBorrows own c)" "evictIfNeededLocked (c, p) = (c', p')" "stamps_ok c"
  shows "cfg_cache_ok c' ts \<and> cache_ok p' (allBorrows own c') \<and> ccEntries c' = ccEntries c \<and> mapped c' \<subseteq> mapped c
    \<and> ccMaxEntries c' = ccMaxEntries c \<and> ccMaxNodes c' = ccMaxNodes c
    \<and> (\<forall>x \<in> mapped c - mapped c'. leases x ts = 0) \<and> budget_met c'"
  using assms
proof (induction "length (ccByFn c)" arbitrary: c p rule: less_induct)
  case less
  show ?case
  proof (cases "overBudget c")
    case False
    then have "c' = c" "p' = p" using less.prems(3) by (simp_all add: evictIfNeededLocked.simps [of "(c, p)"])
    with less.prems False show ?thesis by (simp add: budget_met_def)
  next
    case True
    show ?thesis
    proof (cases "evictOldestLocked (c, p)")
      case None
      then have eq: "c' = c" "p' = p" using less.prems(3) True by (simp_all add: evictIfNeededLocked.simps [of "(c, p)"])
      have "oldestEntry (ccEntries c) (ccByFn c) maxUint64 None = None"
        using None by (auto simp: evictOldestLocked_def split: option.splits)
      from oldestEntry_spec [OF this]
      have "\<forall>e \<in> mapped c. evictable (ccEntries c) e \<longrightarrow> maxUint64 \<le> ceLast (ccEntries c ! e)"
        by (auto simp: mapped_def)
      then have "budget_met c" using less.prems(4) cfg_cache_okD(3) [OF less.prems(1)]
        unfolding budget_met_def stamps_ok_def by (meson antisym)
      with less.prems eq show ?thesis by simp
    next
      case (Some cp)
      obtain c1 p1 where cp: "cp = (c1, p1)" by fastforce
      note ev = evict_inv [OF less.prems(1,2) Some [unfolded cp]]
      have r: "evictIfNeededLocked (c1, p1) = (c', p')"
        using less.prems(3) True Some cp by (simp add: evictIfNeededLocked.simps [of "(c, p)"])
      have st: "stamps_ok c1" using ev less.prems(4) by (simp add: stamps_ok_def)
      from less.hyps [OF evictOldestLocked_shrinks [OF Some [unfolded cp]] _ _ r st] ev
      have ih: "cfg_cache_ok c' ts \<and> cache_ok p' (allBorrows own c') \<and> ccEntries c' = ccEntries c1 \<and> mapped c' \<subseteq> mapped c1
        \<and> ccMaxEntries c' = ccMaxEntries c1 \<and> ccMaxNodes c' = ccMaxNodes c1
        \<and> (\<forall>x \<in> mapped c1 - mapped c'. leases x ts = 0) \<and> budget_met c'" by blast
      then show ?thesis using ev by auto
    qed
  qed
qed

section \<open>The steps keep the invariant\<close>

lemma updEntry_simps [simp]:
  "ccByFn (updEntry e f c) = ccByFn c" "ccEntries (updEntry e f c) = (ccEntries c)[e := f (ccEntries c ! e)]"
  "ccTotal (updEntry e f c) = ccTotal c" "ccMaxEntries (updEntry e f c) = ccMaxEntries c"
  "ccMaxNodes (updEntry e f c) = ccMaxNodes c" "ccClock (updEntry e f c) = ccClock c"
  by (simp_all add: updEntry_def)

lemma cacheTick_simps [simp]:
  "ccByFn (cacheTick c) = ccByFn c" "ccEntries (cacheTick c) = ccEntries c" "ccTotal (cacheTick c) = ccTotal c"
  "ccMaxEntries (cacheTick c) = ccMaxEntries c" "ccMaxNodes (cacheTick c) = ccMaxNodes c"
  "ccClock (cacheTick c) = (ccClock c + 1) mod 2 ^ 64"
  by (simp_all add: cacheTick_def)

lemma mapped_cong: "ccByFn c' = ccByFn c \<Longrightarrow> mapped c' = mapped c"
  by (simp add: mapped_def)

text \<open>One entry of the map and one thread change.\<close>

lemma upd_ok:
  assumes inv: "cfg_cache_ok c ts" and em: "e \<in> mapped c" and t: "t < length ts"
    and c': "ccByFn c' = ccByFn c" "ccEntries c' = (ccEntries c)[e := x]" "ccTotal c' = ccTotal c + ceNodes x - ceNodes (ccEntries c ! e)"
    and others: "\<And>e'. e' \<noteq> e \<Longrightarrow> holdsEntry e' (ts ! t) = holdsEntry e' th \<and> buildsEntry e' (ts ! t) = buildsEntry e' th"
    and ok: "entry_ok x (leases e (ts[t := th])) (builders e (ts[t := th]))" "thread_ok c' th"
    and cfg: "ceCfg x \<noteq> ceCfg (ccEntries c ! e) \<Longrightarrow> leases e ts = 0"
  shows "cfg_cache_ok c' (ts[t := th])"
proof -
  note d = cfg_cache_okD [OF inv]
  have m: "mapped c' = mapped c" using mapped_cong c'(1) by blast
  have el: "e < length (ccEntries c)" using d(3) [OF em] .
  show ?thesis
  proof (rule cfg_cache_okI)
    have s: "sum f (mapped c) = f e + sum f (mapped c - {e})" for f :: "nat \<Rightarrow> int"
      using em by (rule sum.remove [OF finite_mapped])
    have "(\<Sum>e'\<in>mapped c - {e}. ceNodes (ccEntries c' ! e')) = (\<Sum>e'\<in>mapped c - {e}. ceNodes (ccEntries c ! e'))"
      by (rule sum.cong) (auto simp: c')
    then show "ccTotal c' = (\<Sum>e\<in>mapped c'. ceNodes (ccEntries c' ! e))"
      using d(7) el unfolding m s [of "\<lambda>e. ceNodes (ccEntries c' ! e)"] s [of "\<lambda>e. ceNodes (ccEntries c ! e)"] by (simp add: c')
  next
    fix e' assume e': "e' < length (ccEntries c')" "e' \<in> mapped c'"
    show "entry_ok (ccEntries c' ! e') (leases e' (ts[t := th])) (builders e' (ts[t := th]))"
      using ok(1) d(4) [of e'] e' m el counts_same [OF t, of e' th] others [of e'] by (cases "e' = e") (simp_all add: c')
  next
    fix e' assume e': "e' < length (ccEntries c')" "e' \<notin> mapped c'"
    then have "e' \<noteq> e" using em m by blast
    then show "gone_ok (ccEntries c' ! e') (leases e' (ts[t := th])) (builders e' (ts[t := th]))"
      using d(5) [of e'] e' m counts_same [OF t, of e' th] others [of e'] by (simp add: c')
  next
    fix u assume "u \<in> set (ts[t := th])"
    then have "u = th \<or> u \<in> set ts" using set_update_subset_insert by fastforce
    then show "thread_ok c' u"
    proof
      assume u: "u \<in> set ts"
      show ?thesis
      proof (rule thread_ok_cong [OF d(6) [OF u]])
        show "length (ccEntries c) \<le> length (ccEntries c')" by (simp add: c')
        show "u = Building k e' tr \<Longrightarrow> (k, e') \<in> set (ccByFn c')" for k e' tr
          using d(6) [OF u] by (simp add: thread_ok_def c')
        fix l e' assume l: "u = Holding l" "leEntry l = Some e'" "\<not> leOnce l"
        have "leases e' ts \<noteq> 0" using u l by (auto simp: leases_def filter_empty_conv intro!: bexI [of _ u])
        then show "ceCfg (ccEntries c' ! e') = ceCfg (ccEntries c ! e')" using cfg el by (cases "e' = e") (auto simp: c')
      qed
    qed (use ok(2) in simp)
  qed (use d(1,2,3) m in \<open>auto simp: c'\<close>)
qed

text \<open>Only one thread changes, and holds and builds what it did.\<close>

lemma thread_upd_ok:
  assumes inv: "cfg_cache_ok c ts" and t: "t < length ts"
    and same: "\<And>e. holdsEntry e (ts ! t) = holdsEntry e th \<and> buildsEntry e (ts ! t) = buildsEntry e th" and ok: "thread_ok c th"
  shows "cfg_cache_ok c (ts[t := th])"
proof -
  note d = cfg_cache_okD [OF inv]
  have s: "leases e (ts[t := th]) = leases e ts" "builders e (ts[t := th]) = builders e ts" for e
    using counts_same [OF t, of e th] same [of e] by simp_all
  show ?thesis
  proof (rule cfg_cache_okI)
    fix u assume "u \<in> set (ts[t := th])"
    then have "u = th \<or> u \<in> set ts" using set_update_subset_insert by fastforce
    then show "thread_ok c u" using ok d(6) by blast
  qed (use d s in auto)
qed

lemma borrowed_upd:
  assumes "distinct (map snd (ccByFn c))" "ccByFn c' = ccByFn c" "ccEntries c' = (ccEntries c)[e := x]"
    and "e \<in> mapped c" "e < length (ccEntries c)" "ceTree (ccEntries c ! e) = None"
  shows "borrowed c' i = borrowed c i + (if ceTree x = Some i then 1 else 0)"
proof -
  let ?S = "\<lambda>c. {y \<in> mapped c. ceTree (ccEntries c ! y) = Some i}"
  have b: "borrowed c i = card (?S c)" "borrowed c' i = card (?S c')"
    using borrowed_mapped [OF assms(1)] borrowed_mapped [of c'] assms(1,2) by simp_all
  have m: "mapped c' = mapped c" using mapped_cong assms(2) by blast
  have "?S c' = (if ceTree x = Some i then insert e (?S c) else ?S c)"
    using assms(3-6) m by (auto simp: nth_list_update)
  moreover have "e \<notin> ?S c" using assms(6) by simp
  ultimately show ?thesis using b by simp
qed

lemma borrowed_same:
  assumes "ccByFn c' = ccByFn c" "\<And>e. e \<in> mapped c \<Longrightarrow> ceTree (ccEntries c' ! e) = ceTree (ccEntries c ! e)"
  shows "borrowed c' = borrowed c"
proof
  fix i
  have "filter (\<lambda>ke. ceTree (ccEntries c' ! snd ke) = Some i) (ccByFn c) = filter (\<lambda>ke. ceTree (ccEntries c ! snd ke) = Some i) (ccByFn c)"
    by (rule filter_cong) (use assms(2) in \<open>force simp: mapped_def\<close>)+
  then show "borrowed c' i = borrowed c i" by (simp add: borrowed_def assms(1))
qed

text \<open>The budget between the critical sections: placeholders do not count.\<close>

definition complete :: "CFGCache \<Rightarrow> nat set" where
  "complete c = {e \<in> mapped c. ceCfg (ccEntries c ! e) \<noteq> None}"

definition within_budget :: "CFGCache \<Rightarrow> bool" where
  "within_budget c \<longleftrightarrow>
     ((ccMaxEntries c > 0 \<longrightarrow> int (card (complete c)) \<le> ccMaxEntries c) \<and> (ccMaxNodes c > 0 \<longrightarrow> ccTotal c \<le> ccMaxNodes c))
     \<or> (\<forall>e \<in> complete c. ceRefs (ccEntries c ! e) > 0 \<or> ceLast (ccEntries c ! e) = maxUint64)"

lemma budget_met_within: "budget_met c \<Longrightarrow> within_budget c"
proof -
  assume b: "budget_met c"
  have "card (complete c) \<le> card (mapped c)" by (rule card_mono) (auto simp: complete_def)
  also have "\<dots> \<le> length (ccByFn c)" using card_image_le [of "set (ccByFn c)" snd] card_length [of "ccByFn c"] by (simp add: mapped_def)
  finally have "int (card (complete c)) \<le> int (length (ccByFn c))" by simp
  with b show ?thesis unfolding budget_met_def within_budget_def overBudget_def evictable_def complete_def by fastforce
qed

lemma within_mono:
  assumes "within_budget c" "ccMaxEntries c' = ccMaxEntries c" "ccMaxNodes c' = ccMaxNodes c" "ccTotal c' = ccTotal c"
    and "complete c' = complete c"
    and "\<And>e. e \<in> complete c \<Longrightarrow> ceRefs (ccEntries c ! e) > 0 \<or> ceLast (ccEntries c ! e) = maxUint64
          \<Longrightarrow> ceRefs (ccEntries c' ! e) > 0 \<or> ceLast (ccEntries c' ! e) = maxUint64"
  shows "within_budget c'"
  using assms unfolding within_budget_def by auto

lemma clock_bound: "x mod 2 ^ 64 \<le> maxUint64"
  by (simp add: maxUint64_def)

lemma map_of_mapped:
  assumes "cfg_cache_ok c ts" "map_of (ccByFn c) k = Some e"
  shows "(k, e) \<in> set (ccByFn c)" "e \<in> mapped c" "e < length (ccEntries c)"
proof -
  show "(k, e) \<in> set (ccByFn c)" using map_of_SomeD [OF assms(2)] .
  then show "e \<in> mapped c" by (force simp: mapped_def)
  then show "e < length (ccEntries c)" using cfg_cache_okD(3) [OF assms(1)] by blast
qed

lemma hit_ok:
  assumes inv: "cfg_cache_ok c ts" "stamps_ok c" "within_budget c" and t: "t < length ts"
    and idle: "\<And>e. \<not> holdsEntry e (ts ! t) \<and> \<not> buildsEntry e (ts ! t)"
    and e: "map_of (ccByFn c) fnID = Some e" "ceCfg (ccEntries c ! e) \<noteq> None"
    and c': "c' = (updEntry e (\<lambda>x. x\<lparr>ceRefs := ceRefs x + 1, ceLast := ccClock (cacheTick c)\<rparr>) (cacheTick c))\<lparr>ccHits := h\<rparr>"
  shows "cfg_cache_ok c' (ts[t := Holding \<lparr>leEntry = Some e, leCfg = ceCfg (ccEntries c ! e), leOnce = False\<rparr>])"
    and "borrowed c' = borrowed c" "stamps_ok c'" "within_budget c'"
proof -
  let ?th = "Holding \<lparr>leEntry = Some e, leCfg = ceCfg (ccEntries c ! e), leOnce = False\<rparr>"
  let ?x = "(ccEntries c ! e)\<lparr>ceRefs := ceRefs (ccEntries c ! e) + 1, ceLast := ccClock (cacheTick c)\<rparr>"
  note m = map_of_mapped [OF inv(1) e(1)]
  have f: "ccByFn c' = ccByFn c" "ccEntries c' = (ccEntries c)[e := ?x]" "ccTotal c' = ccTotal c"
    "ccMaxEntries c' = ccMaxEntries c" "ccMaxNodes c' = ccMaxNodes c" by (simp_all add: c')
  have eo: "entry_ok (ccEntries c ! e) (leases e ts) (builders e ts)" using cfg_cache_okD(4) [OF inv(1) m(2)] .
  have n: "int (leases e (ts[t := ?th])) = int (leases e ts) + 1" "builders e (ts[t := ?th]) = builders e ts"
    using leases_upd [OF t, of e ?th] builders_upd [OF t, of e ?th] idle [of e] by simp_all
  have ok: "entry_ok ?x (leases e (ts[t := ?th])) (builders e (ts[t := ?th]))"
    using eo e(2) n by (auto simp: entry_ok_def split: option.splits)
  show "cfg_cache_ok c' (ts[t := ?th])"
    by (rule upd_ok [OF inv(1) m(2) t f(1,2) _ _ ok]) (use idle m(3) f in \<open>auto simp: thread_ok_def\<close>)
  show "borrowed c' = borrowed c"
    by (rule borrowed_same) (use f m(3) in \<open>auto simp: nth_list_update\<close>)
  show "stamps_ok c'" using inv(2) m(3) clock_bound by (auto simp: stamps_ok_def f nth_list_update)
  have cc: "complete c' = complete c"
    using mapped_cong [OF f(1)] m(3) e(2) by (auto simp: complete_def f nth_list_update)
  show "within_budget c'"
  proof (rule within_mono [OF inv(3) f(4,5,3) cc])
    fix e' assume "ceRefs (ccEntries c ! e') > 0 \<or> ceLast (ccEntries c ! e') = maxUint64"
    moreover have "ceRefs (ccEntries c ! e) \<ge> 0" using eo by (simp add: entry_ok_def)
    ultimately show "ceRefs (ccEntries c' ! e') > 0 \<or> ceLast (ccEntries c' ! e') = maxUint64"
      using m(3) by (cases "e' = e") (simp_all add: f)
  qed
qed

lemma claim_ok:
  assumes inv: "cfg_cache_ok c ts" "stamps_ok c" "within_budget c" and t: "t < length ts"
    and idle: "\<And>e. \<not> holdsEntry e (ts ! t) \<and> \<not> buildsEntry e (ts ! t)"
    and k: "map_of (ccByFn c) fnID = None"
    and c': "c' = c\<lparr>ccEntries := ccEntries c @ [\<lparr>ceCfg = None, ceTree = None, ceLast = 0, ceNodes = 0, ceRefs = 0, ceDone = False\<rparr>],
             ccByFn := (fnID, length (ccEntries c)) # ccByFn c, ccBuilds := n\<rparr>"
  shows "cfg_cache_ok c' (ts[t := Building fnID (length (ccEntries c)) tr])"
    and "borrowed c' = borrowed c" "stamps_ok c'" "within_budget c'"
proof -
  let ?e = "length (ccEntries c)"
  let ?th = "Building fnID ?e tr"
  note d = cfg_cache_okD [OF inv(1)]
  have f: "mapped c' = insert ?e (mapped c)" "ccTotal c' = ccTotal c" "ccMaxEntries c' = ccMaxEntries c" "ccMaxNodes c' = ccMaxNodes c"
    by (simp_all add: c' mapped_def)
  have new: "?e \<notin> mapped c" using d(3) by blast
  have nth: "\<And>e. e < ?e \<Longrightarrow> ccEntries c' ! e = ccEntries c ! e" "ccEntries c' ! ?e = \<lparr>ceCfg = None, ceTree = None, ceLast = 0, ceNodes = 0, ceRefs = 0, ceDone = False\<rparr>"
    by (simp_all add: c' nth_append)
  have th: "thread_ok c u \<Longrightarrow> \<not> holdsEntry ?e u \<and> \<not> buildsEntry ?e u" for u
    using new by (cases u) (force simp: thread_ok_def mapped_def)+
  then have z: "leases ?e ts = 0" "builders ?e ts = 0"
    using d(6) by (auto simp: leases_def builders_def filter_empty_conv)
  have n: "leases ?e (ts[t := ?th]) = 0" "builders ?e (ts[t := ?th]) = 1"
    using leases_upd [OF t, of ?e ?th] builders_upd [OF t, of ?e ?th] idle [of ?e] z by simp_all
  have o: "leases e (ts[t := ?th]) = leases e ts" "builders e (ts[t := ?th]) = builders e ts" if "e \<noteq> ?e" for e
    using counts_same [OF t, of e ?th] idle [of e] that by auto
  show "cfg_cache_ok c' (ts[t := ?th])"
  proof (rule cfg_cache_okI)
    show "distinct (map fst (ccByFn c'))" using d(1) k by (simp add: c' map_of_eq_None_iff)
    show "distinct (map snd (ccByFn c'))" using d(2) new by (simp add: c' mapped_def)
    show "e \<in> mapped c' \<Longrightarrow> e < length (ccEntries c')" for e using d(3) [of e] unfolding f by (auto simp: c')
    have "(\<Sum>e\<in>mapped c. ceNodes (ccEntries c' ! e)) = (\<Sum>e\<in>mapped c. ceNodes (ccEntries c ! e))"
      by (rule sum.cong) (use d(3) nth in auto)
    then show "ccTotal c' = (\<Sum>e\<in>mapped c'. ceNodes (ccEntries c' ! e))" using d(7) new nth(2) unfolding f by simp
    show "e \<in> mapped c' \<Longrightarrow> entry_ok (ccEntries c' ! e) (leases e (ts[t := ?th])) (builders e (ts[t := ?th]))" for e
      using d(3,4) [of e] o [of e] n nth unfolding f by (cases "e = ?e") (auto simp: entry_ok_def)
    show "e < length (ccEntries c') \<Longrightarrow> e \<notin> mapped c' \<Longrightarrow> gone_ok (ccEntries c' ! e) (leases e (ts[t := ?th])) (builders e (ts[t := ?th]))" for e
      using d(5) [of e] o [of e] nth unfolding f by (cases "e = ?e") (auto simp: c')
    fix u assume "u \<in> set (ts[t := ?th])"
    then have "u = ?th \<or> u \<in> set ts" using set_update_subset_insert by fastforce
    then show "thread_ok c' u"
    proof
      assume u: "u \<in> set ts"
      show ?thesis
      proof (rule thread_ok_cong [OF d(6) [OF u]])
        show "u = Building k' e' tr' \<Longrightarrow> (k', e') \<in> set (ccByFn c')" for k' e' tr'
          using d(6) [OF u] by (simp add: thread_ok_def c')
        show "length (ccEntries c) \<le> length (ccEntries c')" by (simp add: c')
        fix l e' assume "u = Holding l" "leEntry l = Some e'"
        then have "e' < ?e" using d(6) [OF u] by (simp add: thread_ok_def)
        then show "ceCfg (ccEntries c' ! e') = ceCfg (ccEntries c ! e')" using nth by simp
      qed
    qed (simp add: thread_ok_def c')
  qed
  have "borrowed c' i = borrowed c i" for i
  proof -
    have "filter (\<lambda>ke. ceTree (ccEntries c' ! snd ke) = Some i) (ccByFn c) = filter (\<lambda>ke. ceTree (ccEntries c ! snd ke) = Some i) (ccByFn c)"
      by (rule filter_cong) (use d(3) nth(1) in \<open>force simp: mapped_def\<close>)+
    then show ?thesis using nth(2) by (simp add: borrowed_def c')
  qed
  then show "borrowed c' = borrowed c" by blast
  show "stamps_ok c'" using inv(2) by (auto simp: stamps_ok_def c' nth_append maxUint64_def less_Suc_eq)
  have cc: "complete c' = complete c" using f(1) nth d(3) by (force simp: complete_def)
  show "within_budget c'"
    by (rule within_mono [OF inv(3) f(3,4,2) cc]) (use d(3) nth(1) in \<open>auto simp: complete_def\<close>)
qed

lemma building_facts:
  assumes "cfg_cache_ok c ts" "t < length ts" "ts ! t = Building fnID e tr"
  shows "(fnID, e) \<in> set (ccByFn c)" "map_of (ccByFn c) fnID = Some e" "e \<in> mapped c" "e < length (ccEntries c)"
    "ceCfg (ccEntries c ! e) = None" "leases e ts = 0" "builders e ts = 1" "ceTree (ccEntries c ! e) = None"
    "ceNodes (ccEntries c ! e) = 0" "ceRefs (ccEntries c ! e) = 0"
proof -
  note d = cfg_cache_okD [OF assms(1)]
  have tm: "ts ! t \<in> set ts" using assms(2) by simp
  show m: "(fnID, e) \<in> set (ccByFn c)" using d(6) [OF tm] assms(3) by (simp add: thread_ok_def)
  then show "map_of (ccByFn c) fnID = Some e" using d(1) by simp
  show em: "e \<in> mapped c" using m by (force simp: mapped_def)
  then show "e < length (ccEntries c)" by (rule d(3))
  have "buildsEntry e (ts ! t)" using assms(3) by simp
  then have "builders e ts \<noteq> 0" using tm by (auto simp: builders_def filter_empty_conv)
  then show "ceCfg (ccEntries c ! e) = None" "leases e ts = 0" "builders e ts = 1" "ceTree (ccEntries c ! e) = None"
    "ceNodes (ccEntries c ! e) = 0" "ceRefs (ccEntries c ! e) = 0"
    using d(4) [OF em] by (auto simp: entry_ok_def split: option.splits)
qed

lemma abandon_ok:
  assumes inv: "cfg_cache_ok c ts" "stamps_ok c" "within_budget c" and t: "t < length ts" "ts ! t = Building fnID e tr"
    and th: "\<And>e. \<not> holdsEntry e th \<and> \<not> buildsEntry e th" "\<And>c. thread_ok c th"
  shows "cfg_cache_ok (abandon fnID e c) (ts[t := th])" "borrowed (abandon fnID e c) = borrowed c"
    "stamps_ok (abandon fnID e c)" "within_budget (abandon fnID e c)"
proof -
  note d = cfg_cache_okD [OF inv(1)] and b = building_facts [OF inv(1) t]
  let ?c = "abandon fnID e c"
  let ?ts = "ts[t := th]"
  have f: "ccByFn ?c = filter (\<lambda>ke. fst ke \<noteq> fnID) (ccByFn c)" "ccEntries ?c = (ccEntries c)[e := (ccEntries c ! e)\<lparr>ceDone := True\<rparr>]"
    "ccTotal ?c = ccTotal c" "ccMaxEntries ?c = ccMaxEntries c" "ccMaxNodes ?c = ccMaxNodes c"
    using b(2) by (simp_all add: abandon_def)
  have m: "mapped ?c = mapped c - {e}" using mapped_drop [OF d(1,2) b(1)] by (simp add: mapped_def f)
  have n: "leases e ?ts = 0" "builders e ?ts = 0"
    using leases_upd [OF t(1), of e th] builders_upd [OF t(1), of e th] b(6,7) th(1) [of e] t(2) by simp_all
  have o: "leases x ?ts = leases x ts" "builders x ?ts = builders x ts" if "x \<noteq> e" for x
    using counts_same [OF t(1), of x th] th(1) [of x] t(2) that by auto
  show "cfg_cache_ok ?c ?ts"
  proof (rule cfg_cache_okI)
    show "distinct (map fst (ccByFn ?c))" "distinct (map snd (ccByFn ?c))" using d(1,2) by (simp_all add: f distinct_map_filter)
    have "(\<Sum>x\<in>mapped c - {e}. ceNodes (ccEntries ?c ! x)) = (\<Sum>x\<in>mapped c - {e}. ceNodes (ccEntries c ! x))"
      by (rule sum.cong) (auto simp: f)
    also have "\<dots> = ccTotal c" using d(7) b(3,9) by (simp add: sum_diff1)
    finally show "ccTotal ?c = (\<Sum>x\<in>mapped ?c. ceNodes (ccEntries ?c ! x))" by (simp add: f m)
    show "x \<in> mapped ?c \<Longrightarrow> x < length (ccEntries ?c)" for x using d(3) m by (simp add: f)
    show "x \<in> mapped ?c \<Longrightarrow> entry_ok (ccEntries ?c ! x) (leases x ?ts) (builders x ?ts)" for x
      using d(4) [of x] o [of x] m by (simp add: f)
    show "x < length (ccEntries ?c) \<Longrightarrow> x \<notin> mapped ?c \<Longrightarrow> gone_ok (ccEntries ?c ! x) (leases x ?ts) (builders x ?ts)" for x
      using d(5) [of x] o [of x] n m b(4) by (cases "x = e") (simp_all add: f gone_ok_def)
    fix u assume "u \<in> set ?ts"
    then obtain j where j: "j < length ts" "u = ?ts ! j" by (auto simp: in_set_conv_nth)
    show "thread_ok ?c u"
    proof (cases "j = t")
      case True
      then show ?thesis using j th(2) by simp
    next
      case False
      then have u: "u = ts ! j" "u \<in> set ts" using j by simp_all
      show ?thesis
      proof (rule thread_ok_cong [OF d(6) [OF u(2)]])
        show "length (ccEntries c) \<le> length (ccEntries ?c)" by (simp add: f)
        show "ceCfg (ccEntries ?c ! e') = ceCfg (ccEntries c ! e')" for e' using b(4) by (cases "e' = e") (simp_all add: f)
        fix k e' tr' assume bu: "u = Building k e' tr'"
        have k: "(k, e') \<in> set (ccByFn c)" using d(6) [OF u(2)] bu by (simp add: thread_ok_def)
        have "e' \<noteq> e"
        proof
          assume "e' = e"
          then have "buildsEntry e u" using bu by simp
          moreover have "u \<in> set ?ts" using j by simp
          ultimately have "builders e ?ts \<noteq> 0" by (auto simp: builders_def filter_empty_conv)
          with n show False by simp
        qed
        then have "k \<noteq> fnID" using k b(1) d(1) by (meson eq_key_imp_eq_value)
        then show "(k, e') \<in> set (ccByFn ?c)" using k by (simp add: f)
      qed
    qed
  qed
  have "filter (\<lambda>ke. ceTree (ccEntries ?c ! snd ke) = Some i) (ccByFn ?c) = filter (\<lambda>ke. ceTree (ccEntries c ! snd ke) = Some i) (ccByFn c)" for i
  proof -
    have tr: "ceTree (ccEntries ?c ! x) = ceTree (ccEntries c ! x)" for x using b(4) by (cases "x = e") (simp_all add: f)
    have "fst ke = fnID \<Longrightarrow> ke \<in> set (ccByFn c) \<Longrightarrow> snd ke = e" for ke
      using b(1) d(1) by (metis eq_key_imp_eq_value prod.collapse)
    then show ?thesis unfolding tr unfolding f filter_filter using b(8) by (intro filter_cong) auto
  qed
  then show "borrowed ?c = borrowed c" by (simp add: borrowed_def fun_eq_iff)
  show "stamps_ok ?c" using inv(2) b(4) by (auto simp: stamps_ok_def f nth_list_update)
  have cf: "ceCfg (ccEntries ?c ! x) = ceCfg (ccEntries c ! x)" "ceRefs (ccEntries ?c ! x) = ceRefs (ccEntries c ! x)"
    "ceLast (ccEntries ?c ! x) = ceLast (ccEntries c ! x)" for x using b(4) by (cases "x = e"; simp add: f)+
  have cc: "complete ?c = complete c" unfolding complete_def m cf using b(5) by blast
  show "within_budget ?c" by (rule within_mono [OF inv(3) f(4,5,3) cc]) (simp add: cf)
qed

lemma finish_ok:
  assumes inv: "cfg_cache_ok c ts" "cache_ok p (allBorrows own c)" "stamps_ok c" and t: "t < length ts" "ts ! t = Building fnID e tr"
    and own: "0 < own tr" and fin: "acquireFinish fnID e tr (Some cfg) (c, p) = (l, c', p')"
  shows "cfg_cache_ok c' (ts[t := Holding l]) \<and> cache_ok p' (allBorrows own c') \<and> stamps_ok c' \<and> within_budget c'"
proof -
  note d = cfg_cache_okD [OF inv(1)] and b = building_facts [OF inv(1) t]
  let ?x = "(ccEntries c ! e)\<lparr>ceCfg := Some cfg, ceTree := Some tr, ceNodes := int (length (cfgNodes cfg)), ceRefs := 1,
      ceLast := ccClock (cacheTick c), ceDone := True\<rparr>"
  let ?c2 = "(updEntry e (\<lambda>x. x\<lparr>ceCfg := Some cfg, ceTree := Some tr, ceNodes := int (length (cfgNodes cfg)), ceRefs := 1,
      ceLast := ccClock (cacheTick c), ceDone := True\<rparr>) (cacheTick c))\<lparr>ccTotal := ccTotal c + int (length (cfgNodes cfg))\<rparr>"
  let ?th = "Holding \<lparr>leEntry = Some e, leCfg = Some cfg, leOnce = False\<rparr>"
  have l: "Holding l = ?th" and ev: "evictIfNeededLocked (?c2, treeAcquire tr p) = (c', p')"
    using fin by (simp_all add: acquireFinish_def Let_def)
  have f: "ccByFn ?c2 = ccByFn c" "ccEntries ?c2 = (ccEntries c)[e := ?x]" "ccTotal ?c2 = ccTotal c + ceNodes ?x - ceNodes (ccEntries c ! e)"
    using b(9) by simp_all
  have n: "leases e (ts[t := ?th]) = 1" "builders e (ts[t := ?th]) = 0"
    using leases_upd [OF t(1), of e ?th] builders_upd [OF t(1), of e ?th] b(6,7) t(2) by simp_all
  have ok: "entry_ok ?x (leases e (ts[t := ?th])) (builders e (ts[t := ?th]))" using n by (simp add: entry_ok_def)
  have c2: "cfg_cache_ok ?c2 (ts[t := ?th])"
    by (rule upd_ok [OF inv(1) b(3) t(1) f _ ok]) (use t(2) b(4,6) f in \<open>auto simp: thread_ok_def\<close>)
  have "borrowed ?c2 i = borrowed c i + (if ceTree ?x = Some i then 1 else 0)" for i
    by (rule borrowed_upd [OF d(2) f(1,2) b(3,4,8)])
  then have "allBorrows own ?c2 = (allBorrows own c)(tr := Suc (allBorrows own c tr))"
    by (auto simp: allBorrows_def fun_eq_iff)
  then have p2: "cache_ok (treeAcquire tr p) (allBorrows own ?c2)"
    using acquire_ok [OF inv(2), of tr] own by (simp add: allBorrows_def)
  have st: "stamps_ok ?c2" using inv(3) b(4) clock_bound by (auto simp: stamps_ok_def nth_list_update)
  have "cfg_cache_ok c' (ts[t := ?th]) \<and> cache_ok p' (allBorrows own c') \<and> ccEntries c' = ccEntries ?c2 \<and> budget_met c'"
    using evictIfNeeded_inv [OF c2 p2 ev st] by blast
  moreover from this have "stamps_ok c'" using st by (simp only: stamps_ok_def)
  ultimately show ?thesis unfolding l using budget_met_within by blast
qed

lemma release_lease_ok:
  assumes inv: "cfg_cache_ok c ts" "cache_ok p (allBorrows own c)" "stamps_ok c" "within_budget c"
    and t: "t < length ts" "ts ! t = Holding l" and r: "leaseRelease l (c, p) = (l', c', p')"
  shows "cfg_cache_ok c' (ts[t := Holding l']) \<and> cache_ok p' (allBorrows own c') \<and> stamps_ok c' \<and> within_budget c'"
proof (cases "leEntry l = None \<or> leOnce l")
  case True
  then have "l' = l" "c' = c" "p' = p" using r by (auto simp: leaseRelease_def split: option.splits)
  moreover have "ts[t := Holding l] = ts" using t list_update_id by metis
  ultimately show ?thesis using inv by simp
next
  case False
  then obtain e where e: "leEntry l = Some e" "\<not> leOnce l" by auto
  note d = cfg_cache_okD [OF inv(1)]
  have tm: "ts ! t \<in> set ts" using t(1) by simp
  have h: "holdsEntry e (ts ! t)" using t(2) e by simp
  then have le: "leases e ts \<noteq> 0" using tm by (auto simp: leases_def filter_empty_conv)
  have el: "e < length (ccEntries c)" using d(6) [OF tm] t(2) e by (simp add: thread_ok_def)
  have em: "e \<in> mapped c" using d(5) [OF el] le by (auto simp: gone_ok_def)
  have eo: "entry_ok (ccEntries c ! e) (leases e ts) (builders e ts)" using d(4) [OF em] .
  let ?x = "(ccEntries c ! e)\<lparr>ceRefs := ceRefs (ccEntries c ! e) - 1\<rparr>"
  let ?c2 = "updEntry e (\<lambda>x. x\<lparr>ceRefs := ceRefs x - 1\<rparr>) c"
  have pos: "ceRefs (ccEntries c ! e) > 0" using eo le by (simp add: entry_ok_def)
  have l': "l' = l\<lparr>leOnce := True\<rparr>" and ev: "evictIfNeededLocked (?c2, p) = (c', p')"
    using r e pos by (simp_all add: leaseRelease_def)
  have f: "ccByFn ?c2 = ccByFn c" "ccEntries ?c2 = (ccEntries c)[e := ?x]" "ccTotal ?c2 = ccTotal c + ceNodes ?x - ceNodes (ccEntries c ! e)"
    by simp_all
  have n: "int (leases e (ts[t := Holding l'])) = int (leases e ts) - 1" "builders e (ts[t := Holding l']) = builders e ts"
    using leases_upd [OF t(1), of e "Holding l'"] builders_upd [OF t(1), of e "Holding l'"] t(2) e l' by simp_all
  have ok: "entry_ok ?x (leases e (ts[t := Holding l'])) (builders e (ts[t := Holding l']))"
    using eo n le by (auto simp: entry_ok_def split: option.splits)
  have c2: "cfg_cache_ok ?c2 (ts[t := Holding l'])"
    by (rule upd_ok [OF inv(1) em t(1) f _ ok]) (use t(2) e l' el in \<open>auto simp: thread_ok_def\<close>)
  have "borrowed ?c2 = borrowed c" by (rule borrowed_same) (use el in \<open>auto simp: nth_list_update\<close>)
  then have p2: "cache_ok p (allBorrows own ?c2)" using inv(2) by (simp add: allBorrows_def)
  have st: "stamps_ok ?c2" using inv(3) el by (auto simp: stamps_ok_def nth_list_update)
  have "cfg_cache_ok c' (ts[t := Holding l']) \<and> cache_ok p' (allBorrows own c') \<and> ccEntries c' = ccEntries ?c2 \<and> budget_met c'"
    using evictIfNeeded_inv [OF c2 p2 ev st] by blast
  moreover from this have "stamps_ok c'" using st by (simp only: stamps_ok_def)
  ultimately show ?thesis using budget_met_within by blast
qed

definition cfg_inv :: "cfgSys \<Rightarrow> bool" where
  "cfg_inv s \<longleftrightarrow> cfg_cache_ok (syCache s) (syThreads s) \<and> cache_ok (syParser s) (allBorrows (syOwn s) (syCache s))
     \<and> stamps_ok (syCache s) \<and> within_budget (syCache s)"

lemma acquireStart_inv:
  assumes "cfg_inv s" "t < length (syThreads s)" "syThreads s ! t = Ready \<or> syThreads s ! t = WaitOn fnID e0 tr" "0 < fnID"
    and a: "acquireStart fnID (syCache s) = (r, c')"
  shows "cfg_inv (s\<lparr>syCache := c', syThreads := (syThreads s)[t := started fnID tr r]\<rparr>)"
proof -
  let ?c = "syCache s" and ?ts = "syThreads s"
  have inv: "cfg_cache_ok ?c ?ts" "stamps_ok ?c" "within_budget ?c" "cache_ok (syParser s) (allBorrows (syOwn s) ?c)"
    using assms(1) by (simp_all add: cfg_inv_def)
  have idle: "\<not> holdsEntry e (?ts ! t) \<and> \<not> buildsEntry e (?ts ! t)" for e using assms(3) by auto
  have "cfg_cache_ok c' (?ts[t := started fnID tr r]) \<and> borrowed c' = borrowed ?c \<and> stamps_ok c' \<and> within_budget c'"
  proof (cases "map_of (ccByFn ?c) fnID")
    case None
    let ?e = "length (ccEntries ?c)"
    have r: "r = Claim ?e" "c' = ?c\<lparr>ccEntries := ccEntries ?c @ [\<lparr>ceCfg = None, ceTree = None, ceLast = 0, ceNodes = 0, ceRefs = 0, ceDone = False\<rparr>],
             ccByFn := (fnID, ?e) # ccByFn ?c, ccBuilds := ccBuilds ?c + 1\<rparr>"
      using a None by (auto simp: acquireStart_def Let_def)
    from claim_ok [OF inv(1-3) assms(2) idle None r(2)] show ?thesis by (simp add: r(1) started_def)
  next
    case (Some e)
    note m = map_of_mapped [OF inv(1) Some]
    show ?thesis
    proof (cases "ceCfg (ccEntries ?c ! e) = None")
      case True
      then have r: "r = Busy e" "c' = ?c" using a Some by (auto simp: acquireStart_def)
      have "cfg_cache_ok ?c (?ts[t := WaitOn fnID e tr])"
        by (rule thread_upd_ok [OF inv(1) assms(2)]) (use idle assms(4) m(3) in \<open>auto simp: thread_ok_def\<close>)
      then show ?thesis using r inv by (simp add: started_def)
    next
      case False
      have r: "r = Hit \<lparr>leEntry = Some e, leCfg = ceCfg (ccEntries ?c ! e), leOnce = False\<rparr>"
        "c' = (updEntry e (\<lambda>x. x\<lparr>ceRefs := ceRefs x + 1, ceLast := ccClock (cacheTick ?c)\<rparr>) (cacheTick ?c))
                \<lparr>ccHits := ccHits (updEntry e (\<lambda>x. x\<lparr>ceRefs := ceRefs x + 1, ceLast := ccClock (cacheTick ?c)\<rparr>) (cacheTick ?c)) + 1\<rparr>"
        using a Some False by (auto simp: acquireStart_def Let_def updEntry_def cacheTick_def)
      from hit_ok [OF inv(1-3) assms(2) idle Some False r(2)] show ?thesis by (simp add: r(1) started_def)
    qed
  qed
  then show ?thesis using inv(4) by (simp add: cfg_inv_def allBorrows_def)
qed

lemma cfg_inv_step: "cfg_step s s' \<Longrightarrow> cfg_inv s \<Longrightarrow> cfg_inv s'"
proof (induction rule: cfg_step.induct)
  case (client s p' own')
  have "cache_ok (syParser s) (allBorrows (syOwn s) (syCache s))" using client(2) by (simp add: cfg_inv_def)
  then have "cache_ok p' (allBorrows own' (syCache s))" using cache_ok_step [OF _ client(1)] by simp
  then show ?case using client(2) by (simp add: cfg_inv_def)
next
  case (request t s fnID r c' tr)
  then show ?case by (intro acquireStart_inv) auto
next
  case (wake t s fnID e tr r c')
  have "thread_ok (syCache s) (syThreads s ! t)"
    using wake(1,5) cfg_cache_okD(6) unfolding cfg_inv_def by (metis nth_mem)
  then have "0 < fnID" using wake(2) by (simp add: thread_ok_def)
  with wake show ?case by (intro acquireStart_inv) auto
next
  case (cancel t s fnID e tr built)
  have "cfg_cache_ok (syCache s) ((syThreads s)[t := Holding (directLease built)])"
    by (rule thread_upd_ok) (use cancel in \<open>auto simp: cfg_inv_def directLease_def thread_ok_def\<close>)
  with cancel(3) show ?case by (simp add: cfg_inv_def)
next
  case (finish t s fnID e tr built l c' p')
  have inv: "cfg_cache_ok (syCache s) (syThreads s)" "cache_ok (syParser s) (allBorrows (syOwn s) (syCache s))"
    "stamps_ok (syCache s)" "within_budget (syCache s)" using finish(5) by (simp_all add: cfg_inv_def)
  show ?case
  proof (cases built)
    case None
    then have r: "l = \<lparr>leEntry = None, leCfg = None, leOnce = False\<rparr>" "c' = abandon fnID e (syCache s)" "p' = syParser s"
      using finish(4) by (auto simp: acquireFinish_def)
    have "\<And>x. \<not> holdsEntry x (Holding l) \<and> \<not> buildsEntry x (Holding l)" "\<And>c. thread_ok c (Holding l)"
      by (simp_all add: r thread_ok_def)
    from abandon_ok [OF inv(1,3,4) finish(1,2) this] inv(2) show ?thesis by (simp add: r cfg_inv_def allBorrows_def)
  next
    case (Some cfg)
    with finish_ok [OF inv(1-3) finish(1-3)] finish(4) show ?thesis by (simp add: cfg_inv_def)
  qed
next
  case (panic t s fnID e tr)
  have inv: "cfg_cache_ok (syCache s) (syThreads s)" "cache_ok (syParser s) (allBorrows (syOwn s) (syCache s))"
    "stamps_ok (syCache s)" "within_budget (syCache s)" using panic(3) by (simp_all add: cfg_inv_def)
  have "\<And>x. \<not> holdsEntry x Ready \<and> \<not> buildsEntry x Ready" "\<And>c. thread_ok c Ready" by (simp_all add: thread_ok_def)
  from abandon_ok [OF inv(1,3,4) panic(1,2) this] inv(2) show ?case by (simp add: cfg_inv_def allBorrows_def)
next
  case (release t s l l' c' p')
  have inv: "cfg_cache_ok (syCache s) (syThreads s)" "cache_ok (syParser s) (allBorrows (syOwn s) (syCache s))"
    "stamps_ok (syCache s)" "within_budget (syCache s)" using release(4) by (simp_all add: cfg_inv_def)
  from release_lease_ok [OF inv release(1-3)] show ?case by (simp add: cfg_inv_def)
next
  case (forget t s l)
  have "cfg_cache_ok (syCache s) ((syThreads s)[t := Ready])"
    by (rule thread_upd_ok) (use forget in \<open>auto simp: cfg_inv_def thread_ok_def\<close>)
  with forget(4) show ?case by (simp add: cfg_inv_def)
qed

lemma start_cache_ok: "cache_ok (SetMaxCachedTrees n NewParser) (\<lambda>_. 0)"
  using cache_reach_ok [OF cache_reach.init, of n] by simp

lemma cfg_inv_start: "cfg_inv (startSys m e n k)"
proof -
  have "leases x (replicate k Ready) = 0" "builders x (replicate k Ready) = 0" for x
    by (simp_all add: leases_def builders_def filter_empty_conv)
  moreover have "allBorrows (\<lambda>_. 0) (NewCFGCache\<lparr>ccMaxEntries := e, ccMaxNodes := n\<rparr>) = (\<lambda>_. 0)"
    by (simp add: allBorrows_def borrowed_def NewCFGCache_def fun_eq_iff)
  ultimately show ?thesis
    using start_cache_ok [of m]
    by (auto simp: cfg_inv_def startSys_def cfg_cache_ok_def NewCFGCache_def stamps_ok_def within_budget_def
        complete_def mapped_def list_all_iff thread_ok_def)
qed

lemma cfg_inv_reach: "cfg_reach (startSys m e n k) s \<Longrightarrow> cfg_inv s"
  by (induction rule: cfg_reach.induct) (simp_all add: cfg_inv_start cfg_inv_step)

section \<open>What the cache promises\<close>

lemma holding_facts:
  assumes "cfg_inv s" "t < length (syThreads s)" "syThreads s ! t = Holding l" "leEntry l = Some e" "\<not> leOnce l"
  shows "e \<in> mapped (syCache s)" "ceCfg (ccEntries (syCache s) ! e) = leCfg l" "leCfg l \<noteq> None"
    and "\<exists>tr. ceTree (ccEntries (syCache s) ! e) = Some tr \<and> 0 < borrowed (syCache s) tr"
proof -
  have inv: "cfg_cache_ok (syCache s) (syThreads s)" using assms(1) by (simp add: cfg_inv_def)
  note d = cfg_cache_okD [OF inv]
  have tm: "syThreads s ! t \<in> set (syThreads s)" using assms(2) by simp
  have th: "thread_ok (syCache s) (Holding l)" using d(6) [OF tm] assms(3) by simp
  have "holdsEntry e (syThreads s ! t)" using assms(3-5) by simp
  then have n: "leases e (syThreads s) \<noteq> 0" using tm by (auto simp: leases_def filter_empty_conv)
  have el: "e < length (ccEntries (syCache s))" using th assms(4) by (simp add: thread_ok_def)
  show em: "e \<in> mapped (syCache s)" using d(5) [OF el] n by (auto simp: gone_ok_def)
  show c: "ceCfg (ccEntries (syCache s) ! e) = leCfg l" using th assms(4,5) by (simp add: thread_ok_def)
  have eo: "entry_ok (ccEntries (syCache s) ! e) (leases e (syThreads s)) (builders e (syThreads s))" using d(4) [OF em] .
  show ne: "leCfg l \<noteq> None" using eo n c by (cases "leCfg l") (simp_all add: entry_ok_def)
  then obtain tr where tr: "ceTree (ccEntries (syCache s) ! e) = Some tr" using eo c by (auto simp: entry_ok_def split: option.splits)
  moreover have "0 < borrowed (syCache s) tr"
    using borrowed_mapped [OF d(2), of tr] em tr by (auto simp: card_gt_0_iff)
  ultimately show "\<exists>tr. ceTree (ccEntries (syCache s) ! e) = Some tr \<and> 0 < borrowed (syCache s) tr" by blast
qed



text \<open>C22: the cache keeps to its limits.  In every reachable state, either at most MaxEntries complete
  graphs are cached and their nodes number at most MaxTotalCFGNodes (for limits above zero), or every
  complete graph is pinned by a lease (or carries the largest timestamp there is); and the node total
  the cache counts is the sum over the cached graphs.\<close>

theorem cfg_cache_bounded:
  assumes "cfg_reach (startSys maxTrees maxEntries maxNodes n) s"
  shows "within_budget (syCache s)
    \<and> ccTotal (syCache s) = (\<Sum>e \<in> complete (syCache s).
          case ceCfg (ccEntries (syCache s) ! e) of None \<Rightarrow> 0 | Some g \<Rightarrow> int (length (cfgNodes g)))"
proof -
  have inv: "cfg_cache_ok (syCache s) (syThreads s)" "within_budget (syCache s)"
    using cfg_inv_reach [OF assms] by (simp_all add: cfg_inv_def)
  note d = cfg_cache_okD [OF inv(1)]
  have e: "e \<in> mapped (syCache s) \<Longrightarrow> ceNodes (ccEntries (syCache s) ! e) =
      (case ceCfg (ccEntries (syCache s) ! e) of None \<Rightarrow> 0 | Some g \<Rightarrow> int (length (cfgNodes g)))" for e
    using d(4) [of e] by (auto simp: entry_ok_def split: option.splits)
  have "ccTotal (syCache s) = (\<Sum>e \<in> mapped (syCache s).
      case ceCfg (ccEntries (syCache s) ! e) of None \<Rightarrow> 0 | Some g \<Rightarrow> int (length (cfgNodes g)))"
    unfolding d(7) by (rule sum.cong) (simp_all add: e)
  also have "\<dots> = (\<Sum>e \<in> complete (syCache s).
      case ceCfg (ccEntries (syCache s) ! e) of None \<Rightarrow> 0 | Some g \<Rightarrow> int (length (cfgNodes g)))"
    by (rule sum.mono_neutral_right) (auto simp: complete_def)
  finally show ?thesis using inv(2) by simp
qed

text \<open>The witness: two goroutines, a cache of one graph.  A client parses a file (tree 0, one borrow);
  goroutine 0 claims function 7 and goroutine 1 blocks on its placeholder; goroutine 0 finishes.\<close>

definition smallCFG :: StmtCFG where "smallCFG = \<lparr>cfgNodes = [], cfgEntry = 0, cfgExit = 1\<rparr>"

definition wit0 :: cfgSys where "wit0 = startSys 1 1 9 2"

definition wit1 :: cfgSys where
  "wit1 = wit0\<lparr>syParser := snd (ParseCached (\<lambda>s. True) ''int x;'' ''a.c'' (syParser wit0)), syOwn := (\<lambda>_. 0)(0 := 1)\<rparr>"

definition wit2 :: cfgSys where
  "wit2 = wit1\<lparr>syCache := snd (acquireStart 7 (syCache wit1)), syThreads := [Building 7 0 0, Ready]\<rparr>"

definition wit3 :: cfgSys where "wit3 = wit2\<lparr>syThreads := [Building 7 0 0, WaitOn 7 0 0]\<rparr>"

definition wit4 :: cfgSys where
  "wit4 = (case acquireFinish 7 0 0 (Some smallCFG) (syCache wit3, syParser wit3) of (l, c, p) \<Rightarrow>
     wit3\<lparr>syParser := p, syCache := c, syThreads := [Holding l, WaitOn 7 0 0]\<rparr>)"

definition smallLease :: CFGLease where "smallLease = \<lparr>leEntry = Some 0, leCfg = Some smallCFG, leOnce = False\<rparr>"

lemma wit_cache2: "syCache wit2 = (syCache wit0)\<lparr>ccByFn := [(7, 0)],
    ccEntries := [\<lparr>ceCfg = None, ceTree = None, ceLast = 0, ceNodes = 0, ceRefs = 0, ceDone = False\<rparr>], ccBuilds := 1\<rparr>"
  by (simp add: wit2_def wit1_def wit0_def startSys_def NewCFGCache_def acquireStart_def Let_def)

lemma wit_finish: "acquireFinish 7 0 0 (Some smallCFG) (syCache wit3, syParser wit3) =
    (smallLease,
     (syCache wit2)\<lparr>ccEntries := [\<lparr>ceCfg = Some smallCFG, ceTree = Some 0, ceLast = 1, ceNodes = 0, ceRefs = 1, ceDone = True\<rparr>],
       ccClock := 1\<rparr>, treeAcquire 0 (syParser wit1))"
  by (simp add: acquireFinish_def acquireStart_def Let_def wit3_def wit_cache2 wit2_def wit1_def wit0_def startSys_def NewCFGCache_def updEntry_def
      cacheTick_def smallCFG_def smallLease_def evictIfNeededLocked.simps overBudget_def)

lemma wit_reach1: "cfg_reach wit0 wit1"
proof -
  have p: "ParseCached (\<lambda>s. True) ''int x;'' ''a.c'' (syParser wit0)
      = (Inr 0, snd (ParseCached (\<lambda>s. True) ''int x;'' ''a.c'' (syParser wit0)))"
    by (simp add: ParseCached_def wit0_def startSys_def SetMaxCachedTrees_def NewParser_def insertTree_def Let_def tick_def)
  have b: "allBorrows (syOwn wit0) (syCache wit0) = (\<lambda>_. 0)" "allBorrows ((\<lambda>_. 0)(0 := Suc 0)) (syCache wit0) = (\<lambda>_. 0)(0 := Suc 0)"
    by (auto simp: allBorrows_def borrowed_def wit0_def startSys_def NewCFGCache_def fun_eq_iff)
  have "cfg_step wit0 wit1"
    unfolding wit1_def by (rule cfg_step.client) (use cache_step.parseCached [OF p, of "\<lambda>_. 0"] in \<open>simp add: b\<close>)
  then show ?thesis using cfg_reach.step [OF cfg_reach.init] by blast
qed

lemma wit_reach3: "cfg_reach wit0 wit3"
proof -
  have s: "syThreads wit1 = [Ready, Ready]" by (simp add: wit1_def wit0_def startSys_def numeral_2_eq_2)
  have a: "acquireStart 7 (syCache wit1) = (Claim 0, syCache wit2)"
    by (simp add: wit2_def wit1_def wit0_def startSys_def NewCFGCache_def acquireStart_def Let_def)
  have "cfg_step wit1 (wit1\<lparr>syCache := syCache wit2, syThreads := (syThreads wit1)[0 := started 7 0 (Claim 0)]\<rparr>)"
    by (rule cfg_step.request [OF _ _ _ a]) (simp_all add: s)
  then have 2: "cfg_reach wit0 wit2"
    using cfg_reach.step [OF wit_reach1] s by (simp add: wit2_def started_def)
  have b: "acquireStart 7 (syCache wit2) = (Busy 0, syCache wit2)" by (simp add: wit_cache2 acquireStart_def)
  have t: "syThreads wit2 = [Building 7 0 0, Ready]" by (simp add: wit2_def)
  have "cfg_step wit2 (wit2\<lparr>syCache := syCache wit2, syThreads := (syThreads wit2)[1 := started 7 0 (Busy 0)]\<rparr>)"
    by (rule cfg_step.request [OF _ _ _ b]) (simp_all add: t)
  then show ?thesis using cfg_reach.step [OF 2] t by (simp add: wit3_def started_def)
qed

lemma wit_reach4: "cfg_reach wit0 wit4"
proof -
  have t: "syThreads wit3 = [Building 7 0 0, WaitOn 7 0 0]" "syOwn wit3 0 = 1"
    by (simp_all add: wit3_def wit2_def wit1_def)
  note f = wit_finish
  have "cfg_step wit3 (wit3\<lparr>syParser := treeAcquire 0 (syParser wit1),
      syCache := (syCache wit2)\<lparr>ccEntries := [\<lparr>ceCfg = Some smallCFG, ceTree = Some 0, ceLast = 1, ceNodes = 0, ceRefs = 1, ceDone = True\<rparr>],
       ccClock := 1\<rparr>, syThreads := (syThreads wit3)[0 := Holding smallLease]\<rparr>)"
    by (rule cfg_step.finish [OF _ _ _ f]) (simp_all add: t)
  then show ?thesis using cfg_reach.step [OF wit_reach3] t by (simp add: wit4_def f)
qed

lemma wit4_threads: "syThreads wit4 = [Holding smallLease, WaitOn 7 0 0]"
  by (simp add: wit4_def wit_finish)



theorem cfg_cache_bounded_witness: "within_budget (syCache wit4)"
  using cfg_cache_bounded [OF wit_reach4 [unfolded wit0_def]] by simp

text \<open>Invalidate and Reset are outside the protocol, and must be: they release the tree of an entry that is
  leased, after which the client's own release can close the tree under the lease.\<close>

lemma invalidate_under_lease:
  "case Invalidate 7 (syCache wit4, syParser wit4) of (c, p) \<Rightarrow>
     \<not> hasRoot 0 (treeRelease 0 (retire 0 p)) \<and> trClosed (psTrees (treeRelease 0 (retire 0 p)) ! 0)"
  by (simp add: Invalidate_def wit4_def wit_finish wit_cache2 dropKey_def releaseTree_def wit1_def wit0_def startSys_def
      ParseCached_def SetMaxCachedTrees_def NewParser_def insertTree_def Let_def tick_def newTree_def treeAcquire_def updTree_def
      treeRelease_def retire_def treeClose_def closedTree_def hasRoot_def)

end
