(* ===== verification/CFG_Wf.thy ===== *)
theory CFG_Wf
  imports Control_Flow
begin

text \<open>
  Well-formedness of the graphs that the builder of control_flow.go makes: node IDs are positions,
  every successor is a node, nodes and edges are only ever added, and the break and continue stacks
  are restored.  The contract of one build call is the locale stmt_builder; every construct keeps it,
  and the interpretation at the end shows that build itself meets it at every depth.
\<close>

section \<open>Growing graphs\<close>

definition valid :: "cfgBuilder \<Rightarrow> int \<Rightarrow> bool" where
  "valid b i \<longleftrightarrow> 0 \<le> i \<and> i < int (length (cbNodes b))"

definition node :: "cfgBuilder \<Rightarrow> int \<Rightarrow> StmtNode" where
  "node b i = cbNodes b ! nat i"

definition targets :: "StmtNode \<Rightarrow> int set" where
  "targets n = set (snSuccs n) \<union> set (snTrueSuccs n) \<union> set (snFalseSuccs n)"

definition wf_builder :: "cfgBuilder \<Rightarrow> bool" where
  "wf_builder b \<longleftrightarrow> 2 \<le> length (cbNodes b) \<and> cbExit b = 1
     \<and> (\<forall>i. valid b i \<longrightarrow> snID (node b i) = i \<and> snIsControl (node b i) = isControlKind (Kind (snStmt (node b i)))
           \<and> (\<forall>t \<in> targets (node b i). valid b t))
     \<and> (\<forall>t \<in> set (cbBreak b) \<union> set (cbCont b). valid b t)"

text \<open>What a statement node keeps for good.\<close>

definition same_node :: "StmtNode \<Rightarrow> StmtNode \<Rightarrow> bool" where
  "same_node n m \<longleftrightarrow> snID m = snID n \<and> snKind m = snKind n \<and> snStmt m = snStmt n
     \<and> snStartLine m = snStartLine n \<and> snEndLine m = snEndLine n
     \<and> snStartColumn m = snStartColumn n \<and> snIsControl m = snIsControl n"

definition grows :: "cfgBuilder \<Rightarrow> cfgBuilder \<Rightarrow> bool" where
  "grows b b' \<longleftrightarrow> length (cbNodes b) \<le> length (cbNodes b') \<and> cbExit b' = cbExit b
     \<and> (\<forall>i. valid b i \<longrightarrow> same_node (node b i) (node b' i)
                      \<and> set (snSuccs (node b i)) \<subseteq> set (snSuccs (node b' i)))"

definition keeps_targets :: "cfgBuilder \<Rightarrow> cfgBuilder \<Rightarrow> bool" where
  "keeps_targets b b' \<longleftrightarrow> cbBreak b' = cbBreak b \<and> cbCont b' = cbCont b"

definition src_ok :: "cfgBuilder \<Rightarrow> int \<Rightarrow> bool" where
  "src_ok b i \<longleftrightarrow> i = -1 \<or> valid b i"

lemma same_node_refl [simp]: "same_node n n"
  by (simp add: same_node_def)

lemma grows_refl [simp]: "grows b b"
  by (simp add: grows_def)

lemma grows_valid: "grows b b' \<Longrightarrow> valid b i \<Longrightarrow> valid b' i"
  by (simp add: grows_def valid_def)

lemma grows_trans: "grows a b \<Longrightarrow> grows b c \<Longrightarrow> grows a c"
  using grows_valid [of a b] unfolding grows_def same_node_def by (fastforce simp: valid_def)

lemma keeps_trans: "keeps_targets a b \<Longrightarrow> keeps_targets b c \<Longrightarrow> keeps_targets a c"
  by (simp add: keeps_targets_def)

lemma src_ok_grows: "grows b b' \<Longrightarrow> src_ok b i \<Longrightarrow> src_ok b' i"
  by (auto simp: src_ok_def grows_valid)

lemma valid_src_ok: "valid b i \<Longrightarrow> src_ok b i"
  by (simp add: src_ok_def)

lemma src_ok_nonneg: "src_ok b i \<Longrightarrow> 0 \<le> i \<Longrightarrow> valid b i"
  by (auto simp: src_ok_def)

lemma valid_neg: "valid b i \<Longrightarrow> 0 \<le> i"
  by (simp add: valid_def)

text \<open>One state goes to another: well-formed, grown, with the same targets.\<close>

definition steps :: "cfgBuilder \<Rightarrow> cfgBuilder \<Rightarrow> bool" where
  "steps b b' \<longleftrightarrow> wf_builder b' \<and> grows b b' \<and> keeps_targets b b'"

lemma steps_refl: "wf_builder b \<Longrightarrow> steps b b"
  by (simp add: steps_def keeps_targets_def)

lemma steps_trans: "steps a b \<Longrightarrow> steps b c \<Longrightarrow> steps a c"
  unfolding steps_def by (blast intro: grows_trans keeps_trans)

lemma steps_wf: "steps b b' \<Longrightarrow> wf_builder b'"
  and steps_grows: "steps b b' \<Longrightarrow> grows b b'"
  and steps_keeps: "steps b b' \<Longrightarrow> keeps_targets b b'"
  by (simp_all add: steps_def)

lemma steps_valid: "steps b b' \<Longrightarrow> valid b i \<Longrightarrow> valid b' i"
  unfolding steps_def by (blast intro: grows_valid)

lemma steps_src_ok: "steps b b' \<Longrightarrow> src_ok b i \<Longrightarrow> src_ok b' i"
  unfolding steps_def by (blast intro: src_ok_grows)

lemma wf_exit: "wf_builder b \<Longrightarrow> valid b (cbExit b)"
  by (simp add: wf_builder_def valid_def)


section \<open>The primitive operations\<close>

lemma newNode_fst: "newNode k s e st b = (n, b') \<Longrightarrow> n = nodeCount b"
  by (simp add: newNode_def nodeCount_def)

lemma newNode_nodes:
  assumes "newNode k s e st b = (n, b')"
  shows "length (cbNodes b') = Suc (length (cbNodes b))" "\<And>i. valid b i \<Longrightarrow> node b' i = node b i"
    "snKind (node b' n) = k" "snStmt (node b' n) = st" "snID (node b' n) = n" "targets (node b' n) = {}"
    "cbBreak b' = cbBreak b" "cbCont b' = cbCont b" "cbExit b' = cbExit b" "snIsControl (node b' n) = isControlKind (Kind st)"
  using assms by (auto simp: newNode_def node_def valid_def targets_def nth_append)

lemma newNode_steps:
  assumes "newNode k s e st b = (n, b')" "wf_builder b"
  shows "steps b b' \<and> valid b' n"
proof -
  note nn = newNode_nodes [OF assms(1)] and n = newNode_fst [OF assms(1)]
  have v: "\<And>i. valid b' i \<longleftrightarrow> valid b i \<or> i = n" using n nn(1) by (auto simp: valid_def nodeCount_def)
  have "wf_builder b'"
    using assms(2) nn v unfolding wf_builder_def by auto
  moreover have "grows b b'" using nn by (simp add: grows_def)
  ultimately show ?thesis using nn v by (simp add: steps_def keeps_targets_def)
qed

lemma updNode_steps:
  assumes "wf_builder b" "valid b i" "same_node (node b i) (f (node b i))"
    and "set (snSuccs (node b i)) \<subseteq> set (snSuccs (f (node b i)))" "\<forall>t \<in> targets (f (node b i)). valid b t"
  shows "steps b (updNode i f b)"
proof -
  have v: "\<And>j. valid (updNode i f b) j = valid b j" by (simp add: valid_def updNode_def)
  have n: "\<And>j. valid b j \<Longrightarrow> node (updNode i f b) j = (if j = i then f (node b i) else node b j)"
    using assms(2) by (auto simp: node_def updNode_def valid_def nth_list_update)
  have st: "cbBreak (updNode i f b) = cbBreak b" "cbCont (updNode i f b) = cbCont b"
    "cbExit (updNode i f b) = cbExit b" "length (cbNodes (updNode i f b)) = length (cbNodes b)"
    by (simp_all add: updNode_def)
  have "wf_builder (updNode i f b)"
    using assms(1,3,5) assms(2) unfolding wf_builder_def v st by (auto simp: n same_node_def)
  moreover have "grows b (updNode i f b)" using assms(2-4) st n by (auto simp: grows_def)
  ultimately show ?thesis using st by (simp add: steps_def keeps_targets_def)
qed

lemma edge_steps:
  assumes "wf_builder b" "src_ok b i" "src_ok b j"
  shows "steps b (edge i j b)"
proof (cases "i < 0 \<or> j < 0")
  case True
  then show ?thesis using assms(1) by (simp add: edge_def steps_refl)
next
  case False
  then have v: "valid b i" "valid b j" using assms(2,3) by (auto simp: src_ok_def)
  then have "\<forall>t \<in> targets (node b i). valid b t" using assms(1) by (simp add: wf_builder_def)
  then have "steps b (updNode i (\<lambda>n. n\<lparr>snSuccs := snSuccs n @ [j]\<rparr>) b)"
    using v(2) by (intro updNode_steps [OF assms(1) v(1), where f = "\<lambda>n. n\<lparr>snSuccs := snSuccs n @ [j]\<rparr>"])
      (auto simp: same_node_def targets_def)
  then show ?thesis using False by (simp add: edge_def)
qed

lemma edge_in:
  assumes "valid b i" "valid b j"
  shows "j \<in> set (snSuccs (node (edge i j b) i))"
proof -
  have "\<not> (i < 0 \<or> j < 0)" "nat i < length (cbNodes b)" using assms by (auto simp: valid_def)
  then show ?thesis by (simp add: edge_def updNode_def node_def)
qed

lemma edge_kinds: "nodeCount (edge i j b) = nodeCount b"
  by (simp add: edge_def updNode_def nodeCount_def)

lemma addTrue_steps: "wf_builder b \<Longrightarrow> valid b i \<Longrightarrow> valid b j \<Longrightarrow> steps b (addTrue i j b)"
  unfolding addTrue_def by (rule updNode_steps) (auto simp: same_node_def targets_def wf_builder_def)

lemma addFalse_steps: "wf_builder b \<Longrightarrow> valid b i \<Longrightarrow> valid b j \<Longrightarrow> steps b (addFalse i j b)"
  unfolding addFalse_def by (rule updNode_steps) (auto simp: same_node_def targets_def wf_builder_def)

text \<open>Pushing the targets of a loop, building inside, and popping them again.\<close>

lemma push_simps [simp]:
  "cbNodes (pushTargets x y b) = cbNodes b" "cbExit (pushTargets x y b) = cbExit b"
  "cbBreak (pushTargets x y b) = x # cbBreak b" "cbCont (pushTargets x y b) = y # cbCont b"
  "cbNodes (popTargets b) = cbNodes b" "cbExit (popTargets b) = cbExit b"
  "cbBreak (popTargets b) = tl (cbBreak b)" "cbCont (popTargets b) = tl (cbCont b)"
  by (simp_all add: pushTargets_def popTargets_def)

lemma valid_cong: "cbNodes b = cbNodes b' \<Longrightarrow> valid b = valid b'"
  by (rule ext) (simp add: valid_def)

lemma node_cong: "cbNodes b = cbNodes b' \<Longrightarrow> node b = node b'"
  by (rule ext) (simp add: node_def)

lemma push_wf: "wf_builder b \<Longrightarrow> valid b x \<Longrightarrow> valid b y \<Longrightarrow> wf_builder (pushTargets x y b)"
  using valid_cong [of "pushTargets x y b" b] node_cong [of "pushTargets x y b" b]
  by (simp add: wf_builder_def)

lemma push_pop_steps:
  assumes "steps (pushTargets x y b) c" "wf_builder b"
  shows "steps b (popTargets c)"
proof -
  have v: "valid (pushTargets x y b) = valid b" "node (pushTargets x y b) = node b"
    "valid (popTargets c) = valid c" "node (popTargets c) = node c"
    by (simp_all add: fun_eq_iff valid_def node_def)
  have st: "cbBreak c = x # cbBreak b" "cbCont c = y # cbCont b"
    using steps_keeps [OF assms(1)] by (simp_all add: keeps_targets_def)
  have "wf_builder (popTargets c)" using steps_wf [OF assms(1)] st v by (auto simp: wf_builder_def)
  moreover have "grows b (popTargets c)" using steps_grows [OF assms(1)] v by (simp add: grows_def)
  ultimately show ?thesis using st by (simp add: steps_def keeps_targets_def)
qed

text \<open>The chain rules: a state reached by steps takes another operation.\<close>

lemma steps_edge: "steps b c \<Longrightarrow> src_ok c i \<Longrightarrow> src_ok c j \<Longrightarrow> steps b (edge i j c)"
  using steps_trans edge_steps steps_wf by blast

lemma steps_edge_if: "steps b c \<Longrightarrow> src_ok c i \<Longrightarrow> src_ok c j \<Longrightarrow> steps b (if P then edge i j c else c)"
  by (simp add: steps_edge)

lemma steps_addTrue: "steps b c \<Longrightarrow> valid c i \<Longrightarrow> valid c j \<Longrightarrow> steps b (addTrue i j c)"
  using steps_trans addTrue_steps steps_wf by blast

lemma steps_addFalse: "steps b c \<Longrightarrow> valid c i \<Longrightarrow> valid c j \<Longrightarrow> steps b (addFalse i j c)"
  using steps_trans addFalse_steps steps_wf by blast

lemma stmtNode_steps: "stmtNode st b = (n, b') \<Longrightarrow> wf_builder b \<Longrightarrow> steps b b' \<and> valid b' n"
  unfolding stmtNode_def by (rule newNode_steps)

lemma joinNode_steps: "joinNode b = (n, b') \<Longrightarrow> wf_builder b \<Longrightarrow> steps b b' \<and> valid b' n"
  unfolding joinNode_def by (rule newNode_steps)

lemma valid_edge [simp]: "valid (edge i j b) k = valid b k"
  by (simp add: valid_def edge_def updNode_def)

lemma valid_addTrue [simp]: "valid (addTrue i j b) k = valid b k"
  by (simp add: valid_def addTrue_def updNode_def)

lemma valid_addFalse [simp]: "valid (addFalse i j b) k = valid b k"
  by (simp add: valid_def addFalse_def updNode_def)

lemma valid_push [simp]: "valid (pushTargets x y b) k = valid b k"
  by (simp add: valid_def)

lemma valid_pop [simp]: "valid (popTargets b) k = valid b k"
  by (simp add: valid_def)

lemma src_ok_simps [simp]:
  "src_ok (edge i j b) k = src_ok b k" "src_ok (addTrue i j b) k = src_ok b k"
  "src_ok (addFalse i j b) k = src_ok b k" "src_ok (pushTargets x y b) k = src_ok b k"
  "src_ok (popTargets b) k = src_ok b k"
  by (simp_all add: src_ok_def)

lemma src_ok_minus [simp]: "src_ok b (-1)"
  by (simp add: src_ok_def)

lemma valid_new_first:
  assumes "steps b c" "nodeCount b < nodeCount c"
  shows "valid c (nodeCount b)"
  using assms(2) by (simp add: valid_def nodeCount_def)


section \<open>The contract of a build call\<close>

locale stmt_builder =
  fixes rec :: builder
  assumes rec_ok: "wf_builder b \<Longrightarrow> src_ok b src \<Longrightarrow> rec stmt src b = (lst, b') \<Longrightarrow> steps b b' \<and> src_ok b' lst"
begin

lemma blockLoop_ok:
  "wf_builder b \<Longrightarrow> src_ok b src \<Longrightarrow> src_ok b det \<Longrightarrow> blockLoop rec stmts src tm det b = (lst, b')
     \<Longrightarrow> steps b b' \<and> src_ok b' lst"
proof (induction stmts arbitrary: src tm det b)
  case Nil
  then show ?case by (auto simp: steps_refl split: if_splits)
next
  case (Cons stmt stmts)
  show ?case
  proof (cases "\<not> isStmtNode stmt \<or> (tm \<and> \<not> (Kind stmt = ''labeled_statement'' \<or> det \<ge> 0))")
    case True
    then have "blockLoop rec stmts src tm det b = (lst, b')" using Cons.prems(4) by (auto split: if_splits)
    with Cons.IH Cons.prems(1-3) show ?thesis by blast
  next
    case False
    obtain d c where r: "rec stmt (if tm then det else src) b = (d, c)" by fastforce
    have "src_ok b (if tm then det else src)" using Cons.prems(2,3) by simp
    from rec_ok [OF Cons.prems(1) this r] have c: "steps b c" "src_ok c d" by blast+
    have "blockLoop rec stmts (if tm \<or> d < 0 then src else d) (tm \<or> d < 0) (if tm then d else det) c = (lst, b')"
      using Cons.prems(4) False r by (auto split: if_splits)
    from Cons.IH [OF steps_wf [OF c(1)] _ _ this] have "steps c b' \<and> src_ok b' lst"
      using c steps_src_ok [OF c(1)] Cons.prems(2,3) by auto
    then show ?thesis using c(1) steps_trans by blast
  qed
qed

lemma buildBlock_ok:
  "wf_builder b \<Longrightarrow> src_ok b src \<Longrightarrow> buildBlock rec stmt src b = (lst, b') \<Longrightarrow> steps b b' \<and> src_ok b' lst"
  unfolding buildBlock_def by (rule blockLoop_ok [OF _ _ src_ok_minus])

lemma buildStmtList_ok:
  "wf_builder b \<Longrightarrow> src_ok b src \<Longrightarrow> buildStmtList rec stmts src b = (lst, b') \<Longrightarrow> steps b b' \<and> src_ok b' lst"
proof (induction stmts arbitrary: src b)
  case Nil
  then show ?case by (auto simp: steps_refl)
next
  case (Cons stmt stmts)
  obtain d c where r: "rec stmt src b = (d, c)" by fastforce
  note c = rec_ok [OF Cons.prems(1,2) r]
  show ?case
  proof (cases "d < 0")
    case True
    with Cons.prems(3) r c show ?thesis by auto
  next
    case False
    with Cons.prems(3) r have "buildStmtList rec stmts d c = (lst, b')" by simp
    with Cons.IH [of c d] c show ?thesis using steps_trans steps_wf by blast
  qed
qed

lemma buildBranch_ok:
  assumes "wf_builder b" "valid b cond" "buildBranch rec rcd stmt cond b = (lst, b')"
    and "\<And>c j. steps b c \<Longrightarrow> valid c cond \<Longrightarrow> valid c j \<Longrightarrow> steps b (rcd cond j c)"
    and "\<And>c i j k. src_ok (rcd i j c) k = src_ok c k"
  shows "steps b b' \<and> src_ok b' lst"
proof -
  obtain c where r: "rec stmt cond b = (lst, c)"
    and b': "b' = (if nodeCount c > nodeCount b then rcd cond (nodeCount b) c else c)"
    using assms(3) by (auto simp: buildBranch_def split: prod.splits)
  have c: "steps b c" "src_ok c lst" using rec_ok [OF assms(1) valid_src_ok [OF assms(2)] r] by blast+
  with assms b' steps_valid [OF c(1) assms(2)] valid_new_first [OF c(1)] show ?thesis by auto
qed

lemmas branch_true_ok = buildBranch_ok [where rcd = addTrue, OF _ _ _ steps_addTrue src_ok_simps(2)]
lemmas branch_false_ok = buildBranch_ok [where rcd = addFalse, OF _ _ _ steps_addFalse src_ok_simps(3)]

lemma header_join:
  assumes "wf_builder b" "src_ok b src" "stmtNode stmt b = (hd1, b1)" "joinNode (edge src hd1 b1) = (join, b2)"
  shows "steps b b2" "valid b2 join" "valid b2 hd1"
proof -
  have s1: "steps b b1" "valid b1 hd1" using stmtNode_steps [OF assms(3,1)] by auto
  have s1e: "steps b (edge src hd1 b1)"
    using s1 steps_src_ok [OF s1(1) assms(2)] by (simp add: steps_edge valid_src_ok)
  have "steps (edge src hd1 b1) b2" "valid b2 join" using joinNode_steps [OF assms(4) steps_wf [OF s1e]] by auto
  then show "steps b b2" "valid b2 join" "valid b2 hd1"
    using s1e s1(2) steps_trans steps_valid valid_edge by blast+
qed

lemma buildIf_ok:
  assumes "wf_builder b" "src_ok b src" "buildIf rec stmt src b = (lst, b')"
  shows "steps b b' \<and> src_ok b' lst"
proof -
  obtain cond b1 where n1: "stmtNode stmt b = (cond, b1)" by fastforce
  obtain join b2 where n2: "joinNode (edge src cond b1) = (join, b2)" by fastforce
  obtain tl3 b3 where n3: "(case ChildByFieldName ''consequence'' stmt of None \<Rightarrow> (-1, b2)
      | Some cons \<Rightarrow> buildBranch rec addTrue cons cond b2) = (tl3, b3)" by fastforce
  obtain el b4 where n4: "(case elseBody stmt of Some alt \<Rightarrow> buildBranch rec addFalse alt cond b3
      | None \<Rightarrow> (-1, addFalse cond join (edge cond join b3))) = (el, b4)" by fastforce
  note s2 = header_join [OF assms(1,2) n1 n2]
  have "steps b2 b3 \<and> src_ok b3 tl3"
    using n3 branch_true_ok [OF steps_wf [OF s2(1)] s2(3)] steps_refl [OF steps_wf [OF s2(1)]]
    by (auto split: option.splits)
  then have s3: "steps b b3" "src_ok b3 tl3" "valid b3 join" "valid b3 cond"
    using s2 steps_trans steps_valid by blast+
  have "steps b3 b4 \<and> src_ok b4 el"
    using n4 branch_false_ok [OF steps_wf [OF s3(1)] s3(4)] s3 steps_refl [OF steps_wf [OF s3(1)]]
    by (auto split: option.splits simp: valid_src_ok intro!: steps_addFalse steps_edge)
  then have s4: "steps b b4" "src_ok b4 el" "src_ok b4 tl3" "valid b4 join"
    using s3 steps_trans steps_valid steps_src_ok by blast+
  let ?b5 = "if tl3 \<ge> 0 then edge tl3 join b4 else b4"
  let ?b6 = "if el \<ge> 0 then edge el join ?b5 else ?b5"
  have "steps b ?b5" "src_ok ?b5 el" "valid ?b5 join" using s4 by (simp_all add: steps_edge_if valid_src_ok)
  then have "steps b ?b6" "valid ?b6 join" by (simp_all add: steps_edge_if valid_src_ok)
  moreover have "b' = ?b6 \<and> (lst = -1 \<or> lst = join)"
    using assms(3) n1 n2 n3 n4 unfolding buildIf_def Let_def by (auto split: if_splits)
  ultimately show ?thesis using valid_src_ok src_ok_minus by metis
qed

text \<open>A loop body: it is built with the loop's targets pushed, which are popped afterwards.\<close>

lemma loop_body_ok:
  assumes "steps b c" "valid c x" "valid c y"
    and "\<And>d. wf_builder d \<Longrightarrow> valid d x \<Longrightarrow> valid d y \<Longrightarrow> (\<And>i. src_ok c i \<Longrightarrow> src_ok d i) \<Longrightarrow>
           d = pushTargets x y c \<Longrightarrow> steps d e \<and> src_ok e lst"
  shows "steps b (popTargets e) \<and> steps c (popTargets e) \<and> src_ok (popTargets e) lst"
proof -
  have w: "wf_builder c" using assms(1) by (rule steps_wf)
  have "steps (pushTargets x y c) e \<and> src_ok e lst"
    using assms(4) [OF push_wf [OF w assms(2,3)]] assms(2,3) by simp
  then show ?thesis using push_pop_steps [OF _ w] steps_trans [OF assms(1)] by auto
qed

lemma buildIterMacroBody_ok:
  assumes "wf_builder b" "src_ok b src" "buildIterMacroBody rec stmt body src b = (lst, b')"
  shows "steps b b' \<and> src_ok b' lst"
proof -
  obtain hd1 b1 where n1: "stmtNode stmt b = (hd1, b1)" by fastforce
  obtain join b2 where n2: "joinNode (edge src hd1 b1) = (join, b2)" by fastforce
  obtain bl b3 where n3: "rec body hd1 (pushTargets join hd1 b2) = (bl, b3)" by fastforce
  note s2 = header_join [OF assms(1,2) n1 n2]
  have s3: "steps b (popTargets b3) \<and> steps b2 (popTargets b3) \<and> src_ok (popTargets b3) bl"
    by (rule loop_body_ok [OF s2]) (use rec_ok n3 valid_src_ok in blast)
  then have v: "valid (popTargets b3) join" "valid (popTargets b3) hd1" using s2 steps_valid by blast+
  let ?b5 = "if bl \<ge> 0 then edge bl hd1 (popTargets b3) else popTargets b3"
  have "steps b ?b5" "valid ?b5 join" "valid ?b5 hd1" using s3 v by (simp_all add: steps_edge_if valid_src_ok)
  then have "steps b (edge hd1 join ?b5)" "valid ?b5 join" by (simp_all add: steps_edge valid_src_ok)
  moreover have "lst = join \<and> b' = edge hd1 join ?b5"
    using assms(3) n1 n2 n3 unfolding buildIterMacroBody_def Let_def by auto
  ultimately show ?thesis by (auto simp: valid_src_ok)
qed

lemma doLoop_ok:
  "wf_builder b \<Longrightarrow> src_ok b src \<Longrightarrow> src_ok b first \<Longrightarrow> doLoop rec ss src first b = (lst, first', tm, b')
     \<Longrightarrow> steps b b' \<and> src_ok b' lst \<and> src_ok b' first'"
proof (induction ss arbitrary: src first b)
  case Nil
  then show ?case by (auto simp: steps_refl)
next
  case (Cons s ss)
  show ?case
  proof (cases "isStmtNode s")
    case False
    with Cons show ?thesis by simp
  next
    case True
    obtain d c where r: "rec s src b = (d, c)" by fastforce
    note c = rec_ok [OF Cons.prems(1,2) r]
    let ?f = "if first < 0 \<and> nodeCount c > nodeCount b then nodeCount b else first"
    have f: "src_ok c ?f" using c steps_src_ok [of b c] Cons.prems(3) valid_new_first [of b c] valid_src_ok by auto
    show ?thesis
    proof (cases "d < 0")
      case True
      with Cons.prems(4) r c f \<open>isStmtNode s\<close> steps_src_ok [of b c] Cons.prems(2) show ?thesis
        by (auto simp: buildDoLoopStep_def)
    next
      case False
      with Cons.prems(4) r \<open>isStmtNode s\<close> have "doLoop rec ss d ?f c = (lst, first', tm, b')"
        by (simp add: buildDoLoopStep_def)
      with Cons.IH [OF _ _ f] c show ?thesis using steps_trans steps_wf by blast
    qed
  qed
qed

lemma buildDo_ok:
  assumes "wf_builder b" "src_ok b src" "buildDo rec stmt src b = (lst, b')"
  shows "steps b b' \<and> src_ok b' lst"
proof -
  obtain cond b1 where n1: "stmtNode stmt b = (cond, b1)" by fastforce
  obtain join b2 where n2: "joinNode b1 = (join, b2)" by fastforce
  let ?push = "pushTargets join cond b2"
  obtain l f tm b3 where n3: "(case ChildByFieldName ''body'' stmt of None \<Rightarrow> (src, -1, False, ?push)
      | Some body \<Rightarrow> doLoop rec (NamedChildren body) src (-1) ?push) = (l, f, tm, b3)" by (metis prod_cases4)
  have s1: "steps b b1" "valid b1 cond" using stmtNode_steps [OF n1 assms(1)] by auto
  have "steps b1 b2" "valid b2 join" using joinNode_steps [OF n2 steps_wf [OF s1(1)]] by auto
  then have s2: "steps b b2" "valid b2 join" "valid b2 cond" "src_ok b2 src"
    using s1 steps_trans steps_valid steps_src_ok assms(2) by blast+
  have w: "wf_builder ?push" using push_wf [OF steps_wf [OF s2(1)] s2(2,3)] .
  have "steps ?push b3 \<and> src_ok b3 l \<and> src_ok b3 f"
    using n3 doLoop_ok [OF w, of src "-1"] s2(4) by (auto split: option.splits simp: steps_refl [OF w])
  then have s3: "steps b (popTargets b3)" "steps b2 (popTargets b3)" "src_ok (popTargets b3) l" "src_ok (popTargets b3) f"
    using push_pop_steps [OF _ steps_wf [OF s2(1)]] steps_trans [OF s2(1)] by auto
  then have v: "valid (popTargets b3) join" "valid (popTargets b3) cond" using s2 steps_valid by blast+
  let ?first = "if f < 0 then cond else f"
  let ?b5 = "if \<not> tm then edge l cond (popTargets b3) else popTargets b3"
  let ?b6 = "edge cond join (edge cond ?first ?b5)"
  have fv: "valid (popTargets b3) ?first" using s3(4) v(2) src_ok_nonneg by auto
  have "steps b ?b5" using s3 v by (simp add: steps_edge valid_src_ok)
  moreover have v5: "valid ?b5 join" "valid ?b5 cond" "valid ?b5 ?first" using v fv by (auto split: if_splits)
  ultimately have "steps b ?b6" by (intro steps_edge) (simp_all add: valid_src_ok)
  then have "steps b (addFalse cond join (addTrue cond ?first ?b6))"
    using v5 by (intro steps_addFalse steps_addTrue) simp_all
  moreover have "lst = join \<and> b' = addFalse cond join (addTrue cond ?first ?b6)"
    using assms(3) n1 n2 n3 unfolding buildDo_def Let_def by auto
  ultimately show ?thesis using v(1) by (auto simp: valid_src_ok)
qed

lemma buildWhileDo_ok:
  assumes "wf_builder b" "src_ok b src" "buildWhileDo rec stmt src b = (lst, b')"
  shows "steps b b' \<and> src_ok b' lst"
proof (cases "Kind stmt = ''do_statement''")
  case True
  with assms buildDo_ok show ?thesis by (simp add: buildWhileDo_def)
next
  case False
  obtain hd1 b1 where n1: "stmtNode stmt b = (hd1, b1)" by fastforce
  obtain join b2 where n2: "joinNode (edge src hd1 b1) = (join, b2)" by fastforce
  obtain bl b3 where n3: "(case ChildByFieldName ''body'' stmt of None \<Rightarrow> (-1, pushTargets join hd1 b2)
      | Some body \<Rightarrow> buildBranch rec addTrue body hd1 (pushTargets join hd1 b2)) = (bl, b3)" by fastforce
  note s2 = header_join [OF assms(1,2) n1 n2]
  have s3: "steps b (popTargets b3) \<and> steps b2 (popTargets b3) \<and> src_ok (popTargets b3) bl"
    by (rule loop_body_ok [OF s2])
      (use n3 branch_true_ok in \<open>auto split: option.splits simp: steps_refl\<close>)
  then have v: "valid (popTargets b3) join" "valid (popTargets b3) hd1" using s2 steps_valid by blast+
  let ?b5 = "if bl \<ge> 0 then edge bl hd1 (popTargets b3) else popTargets b3"
  have s5: "steps b ?b5" "valid ?b5 join" "valid ?b5 hd1" using s3 v by (simp_all add: steps_edge_if valid_src_ok)
  let ?b6 = "if \<not> isConstantTrue (ChildByFieldName ''condition'' stmt) then addFalse hd1 join (edge hd1 join ?b5) else ?b5"
  have "steps b (addFalse hd1 join (edge hd1 join ?b5))"
    using s5 by (intro steps_addFalse steps_edge) (simp_all add: valid_src_ok)
  then have "steps b ?b6" using s5 by simp
  moreover have "valid ?b6 join" using v by simp
  moreover have "lst = join \<and> b' = ?b6"
    using assms(3) False n1 n2 n3 unfolding buildWhileDo_def Let_def by auto
  ultimately show ?thesis using valid_src_ok by blast
qed

lemma option_build_ok:
  assumes "wf_builder b" "src_ok b src"
    and "(case o1 of None \<Rightarrow> (src, b) | Some st \<Rightarrow> rec st src b) = (cur, c)"
  shows "steps b c \<and> src_ok c cur"
  using assms rec_ok by (auto split: option.splits simp: steps_refl)

lemma option_stmt_ok:
  assumes "wf_builder b" "(case o1 of None \<Rightarrow> (-1, b) | Some st \<Rightarrow> stmtNode st b) = (u, c)"
  shows "steps b c \<and> src_ok c u"
  using assms stmtNode_steps by (auto split: option.splits simp: steps_refl valid_src_ok)

lemma buildFor_ok:
  assumes "wf_builder b" "src_ok b src" "buildFor rec stmt src b = (lst, b')"
  shows "steps b b' \<and> src_ok b' lst"
proof -
  obtain hd1 b1 where n1: "stmtNode stmt b = (hd1, b1)" by fastforce
  obtain cur b2 where n2: "(case ChildByFieldName ''initializer'' stmt of None \<Rightarrow> (src, b1) | Some st \<Rightarrow> rec st src b1) = (cur, b2)"
    by fastforce
  obtain join b3 where n3: "joinNode (edge cur hd1 b2) = (join, b3)" by fastforce
  obtain upd b4 where n4: "(case ChildByFieldName ''update'' stmt of None \<Rightarrow> (-1, b3) | Some st \<Rightarrow> stmtNode st b3) = (upd, b4)"
    by fastforce
  let ?ct = "if upd \<ge> 0 then upd else hd1"
  obtain bl b5 where n5: "(case ChildByFieldName ''body'' stmt of None \<Rightarrow> (-1, pushTargets join ?ct b4)
      | Some body \<Rightarrow> buildBranch rec addTrue body hd1 (pushTargets join ?ct b4)) = (bl, b5)" by fastforce
  have s1: "steps b b1" "valid b1 hd1" using stmtNode_steps [OF n1 assms(1)] by auto
  have s2: "steps b b2" "valid b2 hd1" "src_ok b2 cur"
    using option_build_ok [OF steps_wf [OF s1(1)] steps_src_ok [OF s1(1) assms(2)] n2] s1 steps_trans steps_valid by blast+
  have s2e: "steps b (edge cur hd1 b2)" using s2 by (simp add: steps_edge valid_src_ok)
  have s3: "steps b b3" "valid b3 join" "valid b3 hd1"
    using joinNode_steps [OF n3 steps_wf [OF s2e]] s2e s2(2) steps_trans steps_valid valid_edge by blast+
  have s4: "steps b b4" "valid b4 join" "valid b4 hd1" "src_ok b4 upd"
    using option_stmt_ok [OF steps_wf [OF s3(1)] n4] s3 steps_trans steps_valid by blast+
  have ct: "valid b4 ?ct" using s4(3,4) src_ok_nonneg by simp
  have s5: "steps b (popTargets b5) \<and> steps b4 (popTargets b5) \<and> src_ok (popTargets b5) bl"
    by (rule loop_body_ok [OF s4(1,2) ct])
      (use n5 branch_true_ok s4(3) in \<open>auto split: option.splits simp: steps_refl\<close>)
  then have v: "valid (popTargets b5) join" "valid (popTargets b5) hd1" "src_ok (popTargets b5) upd"
    using s4 steps_valid steps_src_ok by blast+
  let ?b7 = "if upd \<ge> 0 then edge upd hd1 (popTargets b5) else popTargets b5"
  have s7: "steps b ?b7" "valid ?b7 join" "valid ?b7 hd1" "src_ok ?b7 upd" "src_ok ?b7 bl"
    using s5 v by (simp_all add: steps_edge_if valid_src_ok)
  let ?b8 = "if bl \<ge> 0 then (if upd \<ge> 0 then edge bl upd ?b7 else edge bl hd1 ?b7) else ?b7"
  have e8: "?b8 = (if bl \<ge> 0 then edge bl (if upd \<ge> 0 then upd else hd1) ?b7 else ?b7)" by simp
  have "src_ok ?b7 (if upd \<ge> 0 then upd else hd1)" using s7(3,4) valid_src_ok by presburger
  then have s8: "steps b ?b8" unfolding e8 using steps_edge_if [OF s7(1,5)] by blast
  have v8: "valid ?b8 join" "valid ?b8 hd1" using v by simp_all
  let ?b9 = "if ChildByFieldName ''condition'' stmt \<noteq> None then addFalse hd1 join (edge hd1 join ?b8) else ?b8"
  have "steps b (addFalse hd1 join (edge hd1 join ?b8))"
    using s8 v8 by (intro steps_addFalse steps_edge) (simp_all only: valid_edge valid_src_ok)
  then have "steps b ?b9" using s8 by presburger
  moreover have "valid ?b9 join" using v8 by simp
  moreover have "lst = join \<and> b' = ?b9"
    using assms(3) n1 n2 n3 n4 n5 unfolding buildFor_def Let_def by auto
  ultimately show ?thesis using valid_src_ok by blast
qed

lemma switchCases_ok:
  "wf_builder b \<Longrightarrow> valid b hd1 \<Longrightarrow> \<forall>(f, l) \<in> set cases. src_ok b f \<and> src_ok b l
     \<Longrightarrow> switchCases rec hd1 cs cases df b = (cases', df', b')
     \<Longrightarrow> steps b b' \<and> (\<forall>(f, l) \<in> set cases'. src_ok b' f \<and> src_ok b' l)"
proof (induction cs arbitrary: cases df b)
  case Nil
  then show ?case by (auto simp: steps_refl)
next
  case (Cons child cs)
  show ?case
  proof (cases "Kind child = ''case_statement''")
    case False
    with Cons show ?thesis by simp
  next
    case True
    obtain l c where r: "buildBlock rec child hd1 b = (l, c)" by fastforce
    note c = buildBlock_ok [OF Cons.prems(1) valid_src_ok [OF Cons.prems(2)] r]
    let ?f = "if nodeCount b < nodeCount c then nodeCount b else -1"
    have "src_ok c ?f" using c valid_new_first [of b c] valid_src_ok by auto
    then have ok: "\<forall>(f, l) \<in> set (cases @ [(?f, l)]). src_ok c f \<and> src_ok c l"
      using Cons.prems(3) c steps_src_ok [of b c] by auto
    have "switchCases rec hd1 cs (cases @ [(?f, l)]) (if isDefaultCase child then True else df) c = (cases', df', b')"
      using Cons.prems(4) True r by simp
    from Cons.IH [OF _ _ ok this] c steps_valid [of b c] Cons.prems(2) show ?thesis
      using steps_trans steps_wf by blast
  qed
qed

lemma caseEdges_ok:
  "steps b c \<Longrightarrow> src_ok c prev \<Longrightarrow> \<forall>(f, l) \<in> set cases. src_ok c f \<and> src_ok c l
     \<Longrightarrow> caseEdges prev cases c = (lst, b') \<Longrightarrow> steps b b' \<and> steps c b' \<and> src_ok b' lst"
proof (induction cases arbitrary: prev c)
  case Nil
  then show ?case using steps_refl steps_wf by auto
next
  case (Cons fl cases)
  obtain f l where fl: "fl = (f, l)" by fastforce
  show ?case
  proof (cases "f < 0")
    case True
    with Cons fl show ?thesis by auto
  next
    case False
    let ?c = "if prev \<ge> 0 then edge prev f c else c"
    have s: "steps b ?c" "steps c ?c"
      using Cons.prems fl steps_refl [OF steps_wf [OF Cons.prems(1)]] by (auto intro: steps_edge)
    have "\<forall>(f, l) \<in> set cases. src_ok ?c f \<and> src_ok ?c l" "src_ok ?c l" using Cons.prems fl by auto
    moreover have "caseEdges l cases ?c = (lst, b')" using Cons.prems(4) fl False by simp
    ultimately have "steps b b' \<and> steps ?c b' \<and> src_ok b' lst" using Cons.IH [OF s(1)] by blast
    then show ?thesis using s(2) steps_trans by blast
  qed
qed

lemma pop_break_steps:
  assumes "steps (b\<lparr>cbBreak := x # cbBreak b\<rparr>) c" "wf_builder b"
  shows "steps b (c\<lparr>cbBreak := tl (cbBreak c)\<rparr>)"
proof -
  let ?p = "b\<lparr>cbBreak := x # cbBreak b\<rparr>" and ?q = "c\<lparr>cbBreak := tl (cbBreak c)\<rparr>"
  have v: "valid ?p = valid b" "node ?p = node b" "valid ?q = valid c" "node ?q = node c"
    by (simp_all add: fun_eq_iff valid_def node_def)
  have st: "cbBreak c = x # cbBreak b" "cbCont c = cbCont b"
    using steps_keeps [OF assms(1)] by (simp_all add: keeps_targets_def)
  have "wf_builder ?q" using steps_wf [OF assms(1)] st v by (auto simp: wf_builder_def)
  moreover have "grows b ?q" using steps_grows [OF assms(1)] v by (simp add: grows_def)
  ultimately show ?thesis using st by (simp add: steps_def keeps_targets_def)
qed

lemma push_break_wf: "wf_builder b \<Longrightarrow> valid b x \<Longrightarrow> wf_builder (b\<lparr>cbBreak := x # cbBreak b\<rparr>)"
  using valid_cong [of "b\<lparr>cbBreak := x # cbBreak b\<rparr>" b] node_cong [of "b\<lparr>cbBreak := x # cbBreak b\<rparr>" b]
  by (simp add: wf_builder_def)

lemma buildSwitch_ok:
  assumes "wf_builder b" "src_ok b src" "buildSwitch rec stmt src b = (lst, b')"
  shows "steps b b' \<and> src_ok b' lst"
proof -
  obtain hd1 b1 where n1: "stmtNode stmt b = (hd1, b1)" by fastforce
  obtain join b2 where n2: "joinNode (edge src hd1 b1) = (join, b2)" by fastforce
  note s2 = header_join [OF assms(1,2) n1 n2]
  note w2 = steps_wf [OF s2(1)]
  show ?thesis
  proof (cases "ChildByFieldName ''body'' stmt")
    case None
    then have "lst = join \<and> b' = edge hd1 join b2" using assms(3) n1 n2 by (auto simp: buildSwitch_def)
    with s2 steps_edge show ?thesis by (simp add: valid_src_ok)
  next
    case (Some body)
    let ?p = "b2\<lparr>cbBreak := join # cbBreak b2\<rparr>"
    have wp: "wf_builder ?p" using push_break_wf [OF w2 s2(2)] .
    have vp: "\<And>i. valid ?p i = valid b2 i" by (simp add: valid_def)
    obtain cases df b3 where n3: "switchCases rec hd1 (NamedChildren body) [] False ?p = (cases, df, b3)" by (metis prod_cases3)
    have s3: "steps ?p b3" "\<forall>(f, l) \<in> set cases. src_ok b3 f \<and> src_ok b3 l"
      using switchCases_ok [OF wp _ _ n3] s2(3) vp by auto
    obtain l b4 where n4: "(case cases of [] \<Rightarrow> (-1, b3) | (first, lst) # cs \<Rightarrow> caseEdges lst cs b3) = (l, b4)" by fastforce
    have s4: "steps ?p b4" "src_ok b4 l" "steps b3 b4"
      using n4 s3 caseEdges_ok [OF s3(1)] steps_refl [OF steps_wf [OF s3(1)]] by (auto split: list.splits)
    have v4: "valid b4 join" "valid b4 hd1" using steps_valid [OF s4(1)] vp s2(2,3) by blast+
    let ?b5 = "if l \<ge> 0 then edge l join b4 else b4"
    let ?b6 = "if \<not> df then edge hd1 join ?b5 else ?b5"
    have s5: "steps ?p ?b5" using steps_edge_if [OF s4(1,2) valid_src_ok [OF v4(1)]] .
    have v5: "valid ?b5 join" "valid ?b5 hd1" using v4 by simp_all
    have s6: "steps ?p ?b6" using steps_edge_if [OF s5 valid_src_ok [OF v5(2)] valid_src_ok [OF v5(1)]] .
    have v6: "valid ?b6 join" using v5 by simp
    have r: "lst = join \<and> b' = ?b6\<lparr>cbBreak := tl (cbBreak ?b6)\<rparr>"
      using assms(3) Some n1 n2 n3 n4 by (simp add: buildSwitch_def Let_def)
    have "valid b' lst" using r v6 by (simp add: valid_def)
    moreover have "steps b b'" using r pop_break_steps [OF s6 w2] steps_trans [OF s2(1)] by blast
    ultimately show ?thesis using valid_src_ok by blast
  qed
qed

lemma buildAlternatives_ok:
  "steps b c \<Longrightarrow> src_ok c src \<Longrightarrow> valid c join \<Longrightarrow> buildAlternatives rec src join brs fall c = (fall', b')
     \<Longrightarrow> steps b b' \<and> steps c b'"
proof (induction brs arbitrary: fall c)
  case Nil
  then show ?case using steps_refl steps_wf by auto
next
  case (Cons br brs)
  show ?case
  proof (cases "br = []")
    case True
    have e: "steps b (edge src join c)" "steps c (edge src join c)"
      using Cons.prems steps_refl [OF steps_wf [OF Cons.prems(1)]] by (auto intro: steps_edge valid_src_ok)
    have "buildAlternatives rec src join brs True (edge src join c) = (fall', b')" using Cons.prems(4) True by simp
    from Cons.IH [OF e(1) _ _ this] Cons.prems(2,3) have "steps b b' \<and> steps (edge src join c) b'" by simp
    then show ?thesis using e(2) steps_trans by blast
  next
    case False
    obtain l d where r: "buildStmtList rec br src c = (l, d)" by fastforce
    note d = buildStmtList_ok [OF steps_wf [OF Cons.prems(1)] Cons.prems(2) r]
    then have bd: "steps b d" "src_ok d src" "valid d join" "src_ok d l" "steps c d"
      using Cons.prems steps_trans steps_valid steps_src_ok by blast+
    let ?d = "if l \<ge> 0 then edge l join d else d"
    have e: "steps b ?d" "steps c ?d"
      using steps_edge_if [OF bd(1,4) valid_src_ok [OF bd(3)]] steps_edge_if [OF bd(5,4) valid_src_ok [OF bd(3)]] by blast+
    have v: "src_ok ?d src" "valid ?d join" using bd by simp_all
    have "buildAlternatives rec src join brs (if l \<ge> 0 then True else fall) ?d = (fall', b')"
      using Cons.prems(4) False r by (simp split: if_splits)
    from Cons.IH [OF e(1) v this] e(2) steps_trans show ?thesis by blast
  qed
qed

lemma buildPreproc_ok:
  assumes "wf_builder b" "src_ok b src" "buildPreproc rec stmt src b = (lst, b')"
  shows "steps b b' \<and> src_ok b' lst"
proof -
  obtain join b1 where n1: "joinNode b = (join, b1)" by fastforce
  have s1: "steps b b1" "valid b1 join" using joinNode_steps [OF n1 assms(1)] by auto
  obtain brs se where n2: "preprocBranches (NamedChildren stmt) [] [] False = (brs, se)" by fastforce
  obtain fall b2 where n3: "buildAlternatives rec src join (if \<not> se then brs @ [[]] else brs) False b1 = (fall, b2)" by fastforce
  have "steps b b2" "steps b1 b2" using buildAlternatives_ok [OF s1(1) steps_src_ok [OF s1(1) assms(2)] s1(2) n3] by auto
  moreover have "b' = b2 \<and> (lst = -1 \<or> lst = join)"
    using assms(3) n1 n2 n3 by (auto simp: buildPreproc_def split: if_splits)
  ultimately show ?thesis using s1(2) steps_valid valid_src_ok by auto
qed

lemma buildLeaf_ok:
  assumes "wf_builder b" "src_ok b src" "buildLeaf stmt src b = (lst, b')"
  shows "steps b b' \<and> src_ok b' lst"
proof -
  obtain n b1 where n: "stmtNode stmt b = (n, b1)" by fastforce
  have "steps b b1" "valid b1 n" using stmtNode_steps [OF n assms(1)] by auto
  with n assms steps_src_ok [of b b1] show ?thesis
    by (auto simp: buildLeaf_def valid_src_ok intro!: steps_edge)
qed

lemma buildJump_ok:
  assumes "wf_builder b" "src_ok b src" "\<And>t. target = Some t \<Longrightarrow> valid b t" "buildJump target stmt src b = (lst, b')"
  shows "steps b b' \<and> src_ok b' lst"
proof -
  obtain n b1 where n: "stmtNode stmt b = (n, b1)" by fastforce
  have "steps b b1" "valid b1 n" using stmtNode_steps [OF n assms(1)] by auto
  with n assms(2-4) steps_src_ok [of b b1] steps_valid [of b b1] show ?thesis
    by (auto simp: buildJump_def valid_src_ok intro!: steps_edge split: option.splits)
qed

lemma jump_target_valid:
  assumes "wf_builder b" "ts = cbBreak b \<or> ts = cbCont b"
  shows "valid b (case ts of t # ts \<Rightarrow> t | [] \<Rightarrow> cbExit b)"
proof -
  have "\<forall>t \<in> set ts. valid b t" using assms unfolding wf_builder_def by blast
  then show ?thesis using wf_exit [OF assms(1)] by (cases ts) simp_all
qed

definition res_ok :: "cfgBuilder \<Rightarrow> int \<times> cfgBuilder \<Rightarrow> bool" where
  "res_ok b r \<longleftrightarrow> steps b (snd r) \<and> src_ok (snd r) (fst r)"

lemma res_okI: "(\<And>l b'. r = (l, b') \<Longrightarrow> steps b b' \<and> src_ok b' l) \<Longrightarrow> res_ok b r"
  by (cases r) (simp add: res_ok_def)

lemma res_ok_if: "(c \<Longrightarrow> res_ok b x) \<Longrightarrow> (\<not> c \<Longrightarrow> res_ok b y) \<Longrightarrow> res_ok b (if c then x else y)"
  by simp

lemma res_ok_option:
  "res_ok b x \<Longrightarrow> (\<And>y. res_ok b (f y)) \<Longrightarrow> res_ok b (case o1 of None \<Rightarrow> x | Some y \<Rightarrow> f y)"
  by (simp split: option.split)

lemma buildStmt_ok:
  assumes "wf_builder b" "src_ok b src" "buildStmt rec stmt src b = (lst, b')"
  shows "steps b b' \<and> src_ok b' lst"
proof -
  note pre = assms(1,2)
  have ops: "res_ok b (buildBlock rec stmt src b)" "res_ok b (buildIf rec stmt src b)"
    "res_ok b (buildWhileDo rec stmt src b)" "res_ok b (buildFor rec stmt src b)"
    "res_ok b (buildSwitch rec stmt src b)" "res_ok b (buildPreproc rec stmt src b)"
    "\<And>body. res_ok b (buildIterMacroBody rec stmt body src b)" "res_ok b (buildLeaf stmt src b)"
    "\<And>child. res_ok b (rec child src b)"
    by (rule res_okI, erule buildBlock_ok [OF pre] buildIf_ok [OF pre] buildWhileDo_ok [OF pre] buildFor_ok [OF pre]
          buildSwitch_ok [OF pre] buildPreproc_ok [OF pre] buildIterMacroBody_ok [OF pre] buildLeaf_ok [OF pre] rec_ok [OF pre])+
  have none: "res_ok b (src, b)" using pre by (simp add: res_ok_def steps_refl)
  have jump: "\<And>t. (\<And>u. t = Some u \<Longrightarrow> valid b u) \<Longrightarrow> res_ok b (buildJump t stmt src b)"
    by (rule res_okI) (rule buildJump_ok [OF pre])
  have jumps: "res_ok b (buildJump (Some (cbExit b)) stmt src b)" "res_ok b (buildJump None stmt src b)"
    "res_ok b (buildJump (Some (case cbBreak b of t # ts \<Rightarrow> t | [] \<Rightarrow> cbExit b)) stmt src b)"
    "res_ok b (buildJump (Some (case cbCont b of t # ts \<Rightarrow> t | [] \<Rightarrow> cbExit b)) stmt src b)"
    using wf_exit [OF pre(1)] jump_target_valid [OF pre(1), of "cbBreak b"] jump_target_valid [OF pre(1), of "cbCont b"]
    by (auto intro!: jump)
  have "res_ok b (buildStmt rec stmt src b)"
    unfolding buildStmt_def Let_def
    by (intro res_ok_if res_ok_option) (rule ops none jumps)+
  with assms(3) show ?thesis by (simp add: res_ok_def)
qed

end

text \<open>build meets the contract at every depth.\<close>

lemma build_contract: "stmt_builder (build d)"
proof (induction d)
  case 0
  show ?case
  proof
    fix b src stmt lst b'
    assume "wf_builder b" "src_ok b src" "build 0 stmt src b = (lst, b')"
    moreover obtain n b1 where "stmtNode stmt b = (n, b1)" by fastforce
    ultimately show "steps b b' \<and> src_ok b' lst"
      using stmtNode_steps [of stmt b n b1] steps_src_ok [of b b1]
      by (auto simp: buildLeaf_def valid_src_ok intro!: steps_edge)
  qed
next
  case (Suc d)
  show ?case
  proof
    fix b src stmt lst b'
    assume "wf_builder b" "src_ok b src" "build (Suc d) stmt src b = (lst, b')"
    then show "steps b b' \<and> src_ok b' lst"
      using stmt_builder.buildStmt_ok [OF Suc] by simp
  qed
qed

interpretation stmt_build: stmt_builder "build d" for d
  by (rule build_contract)


section \<open>The graph of a function\<close>

definition valid_id :: "StmtCFG \<Rightarrow> int \<Rightarrow> bool" where
  "valid_id cfg i \<longleftrightarrow> 0 \<le> i \<and> i < int (length (cfgNodes cfg))"

definition wf_cfg :: "StmtCFG \<Rightarrow> bool" where
  "wf_cfg cfg \<longleftrightarrow> cfgEntry cfg = 0 \<and> cfgExit cfg = 1 \<and> 2 \<le> length (cfgNodes cfg)
     \<and> (\<forall>i. valid_id cfg i \<longrightarrow> snID (cfgNodes cfg ! nat i) = i
           \<and> snIsControl (cfgNodes cfg ! nat i) = isControlKind (Kind (snStmt (cfgNodes cfg ! nat i)))
           \<and> (\<forall>t \<in> targets (cfgNodes cfg ! nat i). valid_id cfg t))"

lemma wf_cfg_of_builder:
  assumes "wf_builder b"
  shows "wf_cfg \<lparr>cfgNodes = cbNodes b, cfgEntry = 0, cfgExit = 1\<rparr>"
proof -
  have "\<And>i. valid_id \<lparr>cfgNodes = cbNodes b, cfgEntry = 0, cfgExit = 1\<rparr> i = valid b i"
    by (simp add: valid_id_def valid_def)
  then show ?thesis using assms unfolding wf_cfg_def wf_builder_def node_def by simp
qed

lemma nodeAtStep_mem: "nodeAtStep line n best = Some m \<Longrightarrow> m = n \<or> best = Some m"
  by (auto simp: nodeAtStep_def Let_def split: if_splits option.splits)

lemma fold_nodeAt_mem:
  "fold (nodeAtStep line) ns best = Some m \<Longrightarrow> m \<in> set ns \<or> best = Some m"
proof (induction ns arbitrary: best)
  case (Cons n ns)
  then show ?case using nodeAtStep_mem [of line n best m] by auto
qed simp

lemma NodeAt_mem: "NodeAt cfg line = Some n \<Longrightarrow> n \<in> set (cfgNodes cfg)"
  unfolding NodeAt_def using fold_nodeAt_mem by fastforce

lemma wf_cfg_mem:
  assumes "wf_cfg cfg" "n \<in> set (cfgNodes cfg)"
  shows "valid_id cfg (snID n)" "cfgNodes cfg ! nat (snID n) = n"
proof -
  obtain k where k: "k < length (cfgNodes cfg)" "cfgNodes cfg ! k = n" using assms(2) by (auto simp: in_set_conv_nth)
  then have "snID n = int k" using assms(1) unfolding wf_cfg_def valid_id_def
    by (metis nat_int of_nat_0_le_iff of_nat_less_iff)
  with k show "valid_id cfg (snID n)" "cfgNodes cfg ! nat (snID n) = n" by (simp_all add: valid_id_def)
qed

lemma addSucc_wf:
  assumes "wf_cfg cfg" "valid_id cfg i" "valid_id cfg j"
  shows "wf_cfg (addSucc i j cfg)"
proof -
  have v: "\<And>k. valid_id (addSucc i j cfg) k = valid_id cfg k" by (simp add: valid_id_def addSucc_def)
  have n: "\<And>k. valid_id cfg k \<Longrightarrow> cfgNodes (addSucc i j cfg) ! nat k =
      (if k = i then (cfgNodes cfg ! nat i)\<lparr>snSuccs := snSuccs (cfgNodes cfg ! nat i) @ [j]\<rparr> else cfgNodes cfg ! nat k)"
    using assms(2) by (auto simp: addSucc_def valid_id_def nth_list_update)
  have t: "targets ((cfgNodes cfg ! nat i)\<lparr>snSuccs := snSuccs (cfgNodes cfg ! nat i) @ [j]\<rparr>) = insert j (targets (cfgNodes cfg ! nat i))"
    by (auto simp: targets_def)
  have "cfgEntry (addSucc i j cfg) = cfgEntry cfg" "cfgExit (addSucc i j cfg) = cfgExit cfg"
    "length (cfgNodes (addSucc i j cfg)) = length (cfgNodes cfg)" by (simp_all add: addSucc_def)
  then show ?thesis
    using assms unfolding wf_cfg_def v by (simp add: n t)
qed

lemma gotoStep_wf: "wf_cfg cfg \<Longrightarrow> wf_cfg (gotoStep labels gs cfg)"
  using addSucc_wf wf_cfg_mem(1) NodeAt_mem
  by (simp add: gotoStep_def split: option.split prod.split)

lemma fold_gotoStep_wf: "wf_cfg cfg \<Longrightarrow> wf_cfg (fold (gotoStep labels) gss cfg)"
  by (induction gss arbitrary: cfg) (simp_all add: gotoStep_wf)

lemma linkGotoLabels_wf: "wf_cfg cfg \<Longrightarrow> wf_cfg (linkGotoLabels cfg body)"
  by (simp add: linkGotoLabels_def Let_def fold_gotoStep_wf)

lemma emptyBuilder_wf: "wf_builder (emptyBuilder funcEnd)" "cbBreak (emptyBuilder funcEnd) = []"
    "cbCont (emptyBuilder funcEnd) = []" "length (cbNodes (emptyBuilder funcEnd)) = 2"
  by (auto simp: emptyBuilder_def newNode_def wf_builder_def valid_def node_def targets_def Let_def less_2_cases_iff nth_Cons')

lemma built_graph_wf: "wf_cfg (BuildStmtCFG body funcEnd)"
proof (cases "Kind body = ''compound_statement''")
  case False
  have v: "src_ok (emptyBuilder funcEnd) 0" "src_ok (emptyBuilder funcEnd) 1"
    using emptyBuilder_wf(4) [of funcEnd] by (simp_all add: src_ok_def valid_def)
  from False steps_wf [OF edge_steps [OF emptyBuilder_wf(1) v]] show ?thesis
    by (simp add: BuildStmtCFG_def Let_def wf_cfg_of_builder)
next
  case True
  have v: "src_ok (emptyBuilder funcEnd) 0" "src_ok (emptyBuilder funcEnd) 1"
    using emptyBuilder_wf(4) [of funcEnd] by (simp_all add: src_ok_def valid_def)
  obtain lst b' where r: "buildBlock (build maxDepth) body 0 (emptyBuilder funcEnd) = (lst, b')" by fastforce
  from stmt_build.buildBlock_ok [OF emptyBuilder_wf(1) v(1) r]
  have s: "steps (emptyBuilder funcEnd) b'" "src_ok b' lst" by auto
  have "wf_builder (if lst \<ge> 0 then edge lst 1 b' else b')"
    using steps_wf [OF steps_edge_if [OF s steps_src_ok [OF s(1) v(2)]]] .
  from linkGotoLabels_wf [OF wf_cfg_of_builder [OF this]] True r show ?thesis
    by (simp add: BuildStmtCFG_def Let_def)
qed

text \<open>C18: every graph BuildStmtCFG makes is well-formed, for any body whatever its shape: node i has ID
  i, the entry is node 0 and the exit node 1, a node is marked as a
  control-flow header exactly when its statement is one, and every successor, true-successor and false-successor
  of a node is a node of the graph, so no traversal ever indexes out of range.\<close>

theorem BuildStmtCFG_wf: "wf_cfg (BuildStmtCFG body funcEnd)"
  by (rule built_graph_wf)

end
