(* ===== verification/Graph_Search.thy ===== *)
theory Graph_Search
  imports Main
begin

text \<open>
  What every worklist search over a finite graph promises.  The interface is the graph: a successor
  list and a finite set of nodes closed under it.  A search keeps a set of visited nodes and a
  frontier; the lemmas say that its invariant is kept by one expansion and that, with an empty
  frontier, the visited nodes are exactly the reachable ones.  control_flow.go searches with a stack
  and alias_graph.go with a queue; both interpret this locale.
\<close>

text \<open>Reachability along successors, never entering a blocked node.\<close>

inductive reach_avoiding :: "('a \<Rightarrow> 'a list) \<Rightarrow> ('a \<Rightarrow> bool) \<Rightarrow> 'a \<Rightarrow> 'a \<Rightarrow> bool"
  for succ :: "'a \<Rightarrow> 'a list" and blocked :: "'a \<Rightarrow> bool" and a :: 'a where
  here: "reach_avoiding succ blocked a a"
| further: "reach_avoiding succ blocked a b \<Longrightarrow> c \<in> set (succ b) \<Longrightarrow> \<not> blocked c \<Longrightarrow> reach_avoiding succ blocked a c"

lemma reach_avoiding_trans:
  assumes "reach_avoiding succ blocked b c" "reach_avoiding succ blocked a b"
  shows "reach_avoiding succ blocked a c"
  using assms by (induction rule: reach_avoiding.induct) (auto intro: reach_avoiding.further)

lemma reach_avoiding_sym:
  assumes "\<And>x y. y \<in> set (succ x) \<Longrightarrow> x \<in> set (succ y)"
    and "reach_avoiding succ (\<lambda>_. False) a b"
  shows "reach_avoiding succ (\<lambda>_. False) b a"
  using assms(2)
proof (induction rule: reach_avoiding.induct)
  case here
  show ?case by (rule reach_avoiding.here)
next
  case (further b c)
  from assms(1) [OF further(2)] have "reach_avoiding succ (\<lambda>_. False) c b"
    by (auto intro: reach_avoiding.intros)
  with further.IH show ?case by (rule reach_avoiding_trans)
qed

definition search_inv :: "('a \<Rightarrow> 'a list) \<Rightarrow> ('a \<Rightarrow> bool) \<Rightarrow> 'a \<Rightarrow> 'a set \<Rightarrow> 'a set \<Rightarrow> bool" where
  "search_inv succ blocked a V F \<longleftrightarrow>
     a \<in> V \<and> F \<subseteq> V \<and> V \<subseteq> {v. reach_avoiding succ blocked a v}
     \<and> (\<forall>v \<in> V - F. \<forall>w \<in> set (succ v). blocked w \<or> w \<in> V)"

locale finite_graph =
  fixes succ :: "'a \<Rightarrow> 'a list" and nodes :: "'a set"
  assumes finite_nodes: "finite nodes"
    and closed: "v \<in> nodes \<Longrightarrow> set (succ v) \<subseteq> nodes"
begin

lemma reach_nodes: "reach_avoiding succ blocked a v \<Longrightarrow> a \<in> nodes \<Longrightarrow> v \<in> nodes"
  by (induction rule: reach_avoiding.induct) (use closed in auto)

lemma search_start: "search_inv succ blocked a {a} {a}"
  by (simp add: search_inv_def reach_avoiding.here)

lemma search_nodes: "search_inv succ blocked a V F \<Longrightarrow> a \<in> nodes \<Longrightarrow> V \<subseteq> nodes"
  using reach_nodes by (auto simp: search_inv_def)

text \<open>Expanding a frontier node: its unblocked successors are visited and may join the frontier.\<close>

lemma search_expand:
  assumes "search_inv succ blocked a V F" "v \<in> F"
    and "V' = V \<union> {w \<in> set (succ v). \<not> blocked w}" "F - {v} \<subseteq> F'" "V' - V \<subseteq> F'" "F' \<subseteq> V'"
  shows "search_inv succ blocked a V' F'"
  using assms unfolding search_inv_def by (auto intro: reach_avoiding.further)

lemma search_done:
  assumes "search_inv succ blocked a V {}"
  shows "V = {v. reach_avoiding succ blocked a v}"
proof
  show "V \<subseteq> {v. reach_avoiding succ blocked a v}" using assms by (simp add: search_inv_def)
  have "reach_avoiding succ blocked a v \<Longrightarrow> v \<in> V" for v
    by (induction rule: reach_avoiding.induct) (use assms in \<open>auto simp: search_inv_def\<close>)
  then show "{v. reach_avoiding succ blocked a v} \<subseteq> V" by blast
qed

text \<open>Visiting a new node makes the number of unvisited ones smaller.\<close>

lemma unvisited_less:
  assumes "w \<in> nodes" "w \<notin> V"
  shows "card (nodes - insert w V) < card (nodes - V)"
  using assms finite_nodes by (intro psubset_card_mono) auto

end

end
