(* ===== verification/CFG_Search.thy ===== *)
theory CFG_Search
  imports CFG_Wf Graph_Search
begin

text \<open>
  The queries on a statement graph: Reaches and ReachesAvoiding (a depth-first search with a stack and
  a visited array) answer exactly reachability, and NodeAt picks the innermost statement of a line.
  An index out of range would be a panic in Go: it is the result None, and never happens on a graph
  the builder made.
\<close>

definition succs :: "StmtCFG \<Rightarrow> int \<Rightarrow> int list" where
  "succs cfg i = snSuccs (cfgNodes cfg ! nat i)"

datatype scanResult = Found | OutOfRange | Scanned "bool list" "int list"

fun scanSuccs :: "(int \<Rightarrow> bool) \<Rightarrow> int \<Rightarrow> int list \<Rightarrow> bool list \<Rightarrow> int list \<Rightarrow> scanResult" where
  "scanSuccs avoid dst [] visited stack = Scanned visited stack"
| "scanSuccs avoid dst (s # ss) visited stack =
     (if s = dst then Found
      else if s < 0 \<or> length visited \<le> nat s then OutOfRange
      else if visited ! nat s \<or> avoid s then scanSuccs avoid dst ss visited stack
      else scanSuccs avoid dst ss (visited[nat s := True]) (s # stack))"

definition unvisited :: "bool list \<Rightarrow> nat" where
  "unvisited visited = length (filter Not visited)"

lemma unvisited_mark:
  assumes "i < length visited" "\<not> visited ! i"
  shows "unvisited visited = Suc (unvisited (visited[i := True]))"
  using length_filter_upd [OF assms(1), of Not True] assms(2) by (simp add: unvisited_def)

lemma scanSuccs_measure:
  "scanSuccs avoid dst ss visited stack = Scanned visited' stack'
     \<Longrightarrow> 2 * unvisited visited' + length stack' \<le> 2 * unvisited visited + length stack"
proof (induction ss arbitrary: visited stack)
  case (Cons s ss)
  show ?case
  proof (cases "visited ! nat s \<or> avoid s")
    case True
    with Cons show ?thesis by (auto split: if_splits)
  next
    case False
    then have r: "nat s < length visited" "scanSuccs avoid dst ss (visited[nat s := True]) (s # stack) = Scanned visited' stack'"
      using Cons.prems by (auto split: if_splits)
    with Cons.IH [OF r(2)] unvisited_mark [OF r(1)] False show ?thesis by simp
  qed
qed simp

function reachLoop :: "StmtCFG \<Rightarrow> (int \<Rightarrow> bool) \<Rightarrow> int \<Rightarrow> bool list \<Rightarrow> int list \<Rightarrow> bool option" where
  "reachLoop cfg avoid dst visited [] = Some False"
| "reachLoop cfg avoid dst visited (n # stack) =
     (case scanSuccs avoid dst (succs cfg n) visited stack of
        Found \<Rightarrow> Some True
      | OutOfRange \<Rightarrow> None
      | Scanned visited' stack' \<Rightarrow> reachLoop cfg avoid dst visited' stack')"
  by pat_completeness auto
termination
  by (relation "measure (\<lambda>(cfg, avoid, dst, visited, stack). 2 * unvisited visited + length stack)")
    (auto dest!: sym [of "Scanned _ _"] dest: scanSuccs_measure)

declare reachLoop.simps [simp del]

definition ReachesAvoiding :: "StmtCFG \<Rightarrow> int \<Rightarrow> (int \<Rightarrow> bool) \<Rightarrow> int \<Rightarrow> bool option" where
  "ReachesAvoiding cfg src avoid dst =
     (if src < 0 \<or> dst < 0 \<or> src \<ge> int (length (cfgNodes cfg)) \<or> dst \<ge> int (length (cfgNodes cfg)) then Some False
      else if src = dst then Some True
      else if avoid src then Some False
      else reachLoop cfg avoid dst ((replicate (length (cfgNodes cfg)) False)[nat src := True]) [src])"

definition Reaches :: "StmtCFG \<Rightarrow> int \<Rightarrow> int \<Rightarrow> bool option" where
  "Reaches cfg src dst = ReachesAvoiding cfg src (\<lambda>_. False) dst"


section \<open>Reachability\<close>

interpretation cfgnet: finite_graph "succs (BuildStmtCFG body funcEnd)" "{i. valid_id (BuildStmtCFG body funcEnd) i}"
  for body funcEnd
proof
  have "{i. valid_id (BuildStmtCFG body funcEnd) i} \<subseteq> {0..<int (length (cfgNodes (BuildStmtCFG body funcEnd)))}"
    by (auto simp: valid_id_def)
  then show "finite {i. valid_id (BuildStmtCFG body funcEnd) i}" using finite_subset by blast
next
  fix v assume "v \<in> {i. valid_id (BuildStmtCFG body funcEnd) i}"
  then show "set (succs (BuildStmtCFG body funcEnd) v) \<subseteq> {i. valid_id (BuildStmtCFG body funcEnd) i}"
    using built_graph_wf [of body funcEnd] by (auto simp: wf_cfg_def succs_def targets_def)
qed

definition marked :: "bool list \<Rightarrow> int set" where
  "marked visited = {i. 0 \<le> i \<and> nat i < length visited \<and> visited ! nat i}"

lemma marked_mark: "0 \<le> s \<Longrightarrow> nat s < length visited \<Longrightarrow> marked (visited[nat s := True]) = insert s (marked visited)"
  by (auto simp: marked_def nth_list_update)

lemma scanSuccs_spec:
  assumes "\<forall>s \<in> set ss. 0 \<le> s \<and> nat s < length visited"
  shows "if dst \<in> set ss then scanSuccs avoid dst ss visited stack = Found
         else \<exists>visited' new. scanSuccs avoid dst ss visited stack = Scanned visited' (new @ stack)
                \<and> length visited' = length visited
                \<and> marked visited' = marked visited \<union> {s \<in> set ss. \<not> avoid s}
                \<and> set new = {s \<in> set ss. \<not> avoid s} - marked visited"
  using assms
proof (induction ss arbitrary: visited stack)
  case (Cons s ss)
  then have s: "0 \<le> s" "nat s < length visited" by auto
  then have m: "s \<in> marked visited \<longleftrightarrow> visited ! nat s" by (simp add: marked_def)
  show ?case
  proof (cases "s = dst")
    case False
    show ?thesis
    proof (cases "visited ! nat s \<or> avoid s")
      case True
      with Cons.IH [of visited stack] Cons.prems False s m show ?thesis by (auto split: if_splits)
    next
      case F: False
      have e: "scanSuccs avoid dst (s # ss) visited stack = scanSuccs avoid dst ss (visited[nat s := True]) (s # stack)"
        using F False s by simp
      from Cons.IH [of "visited[nat s := True]" "s # stack"] Cons.prems show ?thesis
        unfolding e marked_mark [OF s] using F False m
        by (auto split: if_splits)
    qed
  qed simp
qed simp

lemma reachLoop_spec:
  assumes "cfg = BuildStmtCFG body funcEnd" "valid_id cfg src" "length visited = length (cfgNodes cfg)"
    and "search_inv (succs cfg) avoid src (marked visited) (set stack)"
    and "\<forall>v \<in> marked visited - set stack. dst \<notin> set (succs cfg v)"
  shows "reachLoop cfg avoid dst visited stack =
           Some (\<exists>m. reach_avoiding (succs cfg) avoid src m \<and> dst \<in> set (succs cfg m))"
  using assms
proof (induction cfg avoid dst visited stack rule: reachLoop.induct)
  case (1 cfg avoid dst visited)
  then have "marked visited = {v. reach_avoiding (succs cfg) avoid src v}"
    using cfgnet.search_done by simp
  with 1(5) show ?case by (auto simp: reachLoop.simps)
next
  case (2 cfg avoid dst visited n stack)
  have n: "reach_avoiding (succs cfg) avoid src n" using 2(5) by (auto simp: search_inv_def)
  have "n \<in> {i. valid_id cfg i}" using cfgnet.reach_nodes [of body funcEnd avoid src n] n 2(2,3) by simp
  then have "set (succs cfg n) \<subseteq> {i. valid_id cfg i}" using cfgnet.closed [of n body funcEnd] 2(2) by blast
  then have ss: "\<forall>s \<in> set (succs cfg n). 0 \<le> s \<and> nat s < length visited"
    using 2(4) by (auto simp: valid_id_def)
  show ?case
  proof (cases "dst \<in> set (succs cfg n)")
    case True
    with scanSuccs_spec [OF ss, of dst avoid stack] n show ?thesis by (auto simp: reachLoop.simps)
  next
    case False
    with scanSuccs_spec [OF ss, of dst avoid stack] obtain visited' new where
      sc: "scanSuccs avoid dst (succs cfg n) visited stack = Scanned visited' (new @ stack)"
      and v': "length visited' = length visited" "marked visited' = marked visited \<union> {s \<in> set (succs cfg n). \<not> avoid s}"
      "set new = {s \<in> set (succs cfg n). \<not> avoid s} - marked visited" by auto
    have "search_inv (succs cfg) avoid src (marked visited') (set (new @ stack))"
    proof (rule cfgnet.search_expand [of body funcEnd, folded 2(2), OF 2(5), where v = n])
      show "set (new @ stack) \<subseteq> marked visited'" using v' 2(5) by (auto simp: search_inv_def)
    qed (use v' in auto)
    moreover have "\<forall>v \<in> marked visited' - set (new @ stack). dst \<notin> set (succs cfg v)"
      using 2(6) v' False by auto
    ultimately show ?thesis using 2(1) [OF sc 2(2,3)] v'(1) 2(4) sc by (simp add: reachLoop.simps)
  qed
qed


section \<open>Positions\<close>

text \<open>How NodeAt ranks statements of a line: a smaller line range first, then a leaf before a header.\<close>

definition covers :: "int \<Rightarrow> StmtNode \<Rightarrow> bool" where
  "covers line n \<longleftrightarrow> snKind n = ''stmt'' \<and> snStartLine n \<le> line \<and> line \<le> snEndLine n"

definition lineRange :: "StmtNode \<Rightarrow> int" where
  "lineRange n = snEndLine n - snStartLine n"

definition innermost :: "int \<Rightarrow> StmtNode set \<Rightarrow> StmtNode \<Rightarrow> bool" where
  "innermost line ns best \<longleftrightarrow> best \<in> ns \<and> covers line best
     \<and> (\<forall>n \<in> ns. covers line n \<longrightarrow>
          lineRange best < lineRange n
          \<or> (lineRange best = lineRange n \<and> (isControlFlowHeader best \<longrightarrow> isControlFlowHeader n)))"

definition best_ok :: "int \<Rightarrow> StmtNode set \<Rightarrow> StmtNode option \<Rightarrow> bool" where
  "best_ok line ns best =
     (case best of None \<Rightarrow> (\<forall>m \<in> ns. \<not> covers line m) | Some b \<Rightarrow> innermost line ns b)"

lemma nodeAtStep_innermost:
  assumes "best_ok line ns best"
  shows "best_ok line (insert n ns) (nodeAtStep line n best)"
proof (cases "covers line n")
  case False
  then have "nodeAtStep line n best = best" by (auto simp: nodeAtStep_def covers_def)
  with False assms show ?thesis by (auto simp: best_ok_def innermost_def split: option.splits)
next
  case True
  show ?thesis
  proof (cases best)
    case None
    with True assms have "nodeAtStep line n best = Some n" by (simp add: nodeAtStep_def covers_def)
    with True None assms show ?thesis by (auto simp: best_ok_def innermost_def)
  next
    case (Some b)
    with True have e: "nodeAtStep line n best =
        (if lineRange n < lineRange b then Some n
         else if lineRange n = lineRange b \<and> isControlFlowHeader b \<and> \<not> isControlFlowHeader n then Some n else Some b)"
      by (simp add: nodeAtStep_def covers_def lineRange_def Let_def)
    have b: "innermost line ns b" using assms Some by (simp add: best_ok_def)
    show ?thesis
      unfolding e using b True by (auto simp: best_ok_def innermost_def) (force+)?
  qed
qed

lemma NodeAt_innermost_fold:
  "best_ok line ns best \<Longrightarrow> best_ok line (set xs \<union> ns) (fold (nodeAtStep line) xs best)"
proof (induction xs arbitrary: best ns)
  case (Cons x xs)
  have "set xs \<union> insert x ns = set (x # xs) \<union> ns" by auto
  with Cons.IH [OF nodeAtStep_innermost [OF Cons.prems, of x]] show ?case by simp
qed simp


section \<open>Properties\<close>

text \<open>C20: the path queries answer exactly reachability.  On every graph BuildStmtCFG makes,
  ReachesAvoiding never indexes out of range, terminates, and is true exactly when both IDs are nodes
  and they are equal, or the start is not to be avoided and the target is a successor of some node
  reached from it without entering an avoided node.\<close>

theorem ReachesAvoiding_exact:
  "ReachesAvoiding (BuildStmtCFG body funcEnd) src avoid dst =
     Some (valid_id (BuildStmtCFG body funcEnd) src \<and> valid_id (BuildStmtCFG body funcEnd) dst
       \<and> (src = dst \<or> (\<not> avoid src
            \<and> (\<exists>m. reach_avoiding (succs (BuildStmtCFG body funcEnd)) avoid src m
                 \<and> dst \<in> set (succs (BuildStmtCFG body funcEnd) m)))))"
proof -
  let ?G = "BuildStmtCFG body funcEnd"
  let ?v0 = "(replicate (length (cfgNodes ?G)) False)[nat src := True]"
  consider "\<not> valid_id ?G src \<or> \<not> valid_id ?G dst" | "valid_id ?G src" "valid_id ?G dst" "src = dst \<or> avoid src"
    | (search) "valid_id ?G src" "valid_id ?G dst" "src \<noteq> dst" "\<not> avoid src" by blast
  then show ?thesis
  proof cases
    case search
    have "marked (replicate (length (cfgNodes ?G)) False) = {}" by (auto simp: marked_def)
    then have m: "marked ?v0 = {src}" using search(1) marked_mark [of src] by (auto simp: valid_id_def)
    have "reachLoop ?G avoid dst ?v0 [src] = Some (\<exists>m. reach_avoiding (succs ?G) avoid src m \<and> dst \<in> set (succs ?G m))"
      by (rule reachLoop_spec [OF refl search(1)])
        (use m cfgnet.search_start in simp_all)
    with search show ?thesis by (auto simp: ReachesAvoiding_def valid_id_def)
  qed (auto simp: ReachesAvoiding_def valid_id_def)
qed

text \<open>A line resolves to its innermost statement.  NodeAt returns nothing exactly when no statement
  node covers the line, and otherwise a statement node that covers it, with the smallest line range,
  and a leaf whenever a leaf ties for that range.\<close>

theorem NodeAt_innermost:
  "case NodeAt cfg line of
     None \<Rightarrow> (\<forall>n \<in> set (cfgNodes cfg). \<not> covers line n)
   | Some n \<Rightarrow> innermost line (set (cfgNodes cfg)) n"
  using NodeAt_innermost_fold [of line "{}" "None" "cfgNodes cfg"]
  by (simp add: NodeAt_def best_ok_def [of line "set (cfgNodes cfg)", symmetric]) (simp add: best_ok_def)

text \<open>The witness: if (c) return -1; on one line, where the leaf wins over the header.\<close>

definition headerNode :: StmtNode where
  "headerNode = \<lparr>snID = 2, snKind = ''stmt'', snStartLine = 3, snEndLine = 3, snStartColumn = 2, snIsControl = True,
     snStmt = NullNode, snSuccs = [3], snTrueSuccs = [3], snFalseSuccs = []\<rparr>"

definition leafNode :: StmtNode where
  "leafNode = \<lparr>snID = 3, snKind = ''stmt'', snStartLine = 3, snEndLine = 3, snStartColumn = 9, snIsControl = False,
     snStmt = NullNode, snSuccs = [1], snTrueSuccs = [], snFalseSuccs = []\<rparr>"

definition oneLineCFG :: StmtCFG where
  "oneLineCFG = \<lparr>cfgNodes = [headerNode, leafNode], cfgEntry = 0, cfgExit = 1\<rparr>"

theorem NodeAt_innermost_witness: "NodeAt oneLineCFG 3 = Some leafNode \<and> innermost 3 {headerNode, leafNode} leafNode"
proof -
  have "NodeAt oneLineCFG 3 = Some leafNode"
    by (simp add: NodeAt_def oneLineCFG_def nodeAtStep_def headerNode_def leafNode_def isControlFlowHeader_def
        isControlKind_def Kind_def)
  then show ?thesis using NodeAt_innermost [of oneLineCFG 3] by (simp add: oneLineCFG_def)
qed

end
