(* ===== verification/CFG_Exec.thy ===== *)
theory CFG_Exec
  imports CFG_Wf
begin

text \<open>
  The over-approximation claim of control_flow.go: every real execution path is represented in the
  graph.  The executions are a semantics of the C statements on the syntax tree that knows nothing of
  the graph: a trace lists the statements an execution passes, conditions choose freely, and an
  outcome says how the statement ends.  A walk in the graph spells the statements of the nodes it
  enters.  The contract of one build call, that every execution is a walk from its source node to the
  node of its outcome, extends the contract of CFG_Wf.
\<close>

section \<open>Executions\<close>

datatype outcome = Fall | Broke | Continued | Returned | Jumped

text \<open>Sequences of statements; ex is the relation of a single statement.\<close>

inductive exec_seq :: "(Node \<Rightarrow> Node list \<Rightarrow> outcome \<Rightarrow> bool) \<Rightarrow> Node list \<Rightarrow> Node list \<Rightarrow> outcome \<Rightarrow> bool"
  for ex where
  seqNil: "exec_seq ex [] [] Fall"
| seqSkip: "\<not> isStmtNode s \<Longrightarrow> exec_seq ex ss tr out \<Longrightarrow> exec_seq ex (s # ss) tr out"
| seqMore: "isStmtNode s \<Longrightarrow> ex s t1 Fall \<Longrightarrow> exec_seq ex ss t2 out \<Longrightarrow> exec_seq ex (s # ss) (t1 @ t2) out"
| seqStop: "isStmtNode s \<Longrightarrow> ex s tr out \<Longrightarrow> out \<noteq> Fall \<Longrightarrow> exec_seq ex (s # ss) tr out"

text \<open>Loops that test before the body: s is the header, upd the update clause if there is one, and
  leaves says whether the condition can end the loop.\<close>

inductive exec_loop :: "(Node \<Rightarrow> Node list \<Rightarrow> outcome \<Rightarrow> bool) \<Rightarrow> Node \<Rightarrow> Node option \<Rightarrow> Node list \<Rightarrow> bool \<Rightarrow> Node list \<Rightarrow> outcome \<Rightarrow> bool"
  for ex s body upd leaves where
  finish: "leaves \<Longrightarrow> exec_loop ex s body upd leaves [s] Fall"
| broke: "body = Some bd \<Longrightarrow> ex bd t Broke \<Longrightarrow> exec_loop ex s body upd leaves (s # t) Fall"
| leave: "body = Some bd \<Longrightarrow> ex bd t out \<Longrightarrow> out = Returned \<or> out = Jumped \<Longrightarrow> exec_loop ex s body upd leaves (s # t) out"
| again: "body = Some bd \<Longrightarrow> ex bd t out1 \<Longrightarrow> out1 = Fall \<or> out1 = Continued \<Longrightarrow> exec_loop ex s body upd leaves tr out
            \<Longrightarrow> exec_loop ex s body upd leaves (s # t @ upd @ tr) out"

text \<open>The loop that tests after the body: s is the test.\<close>

inductive exec_do :: "(Node \<Rightarrow> Node list \<Rightarrow> outcome \<Rightarrow> bool) \<Rightarrow> Node \<Rightarrow> Node list \<Rightarrow> Node list \<Rightarrow> outcome \<Rightarrow> bool"
  for ex s body where
  finish: "exec_seq ex body t out1 \<Longrightarrow> out1 = Fall \<or> out1 = Continued \<Longrightarrow> exec_do ex s body (t @ [s]) Fall"
| broke: "exec_seq ex body t Broke \<Longrightarrow> exec_do ex s body t Fall"
| leave: "exec_seq ex body t out \<Longrightarrow> out = Returned \<or> out = Jumped \<Longrightarrow> exec_do ex s body t out"
| again: "exec_seq ex body t out1 \<Longrightarrow> out1 = Fall \<or> out1 = Continued \<Longrightarrow> exec_do ex s body tr out
            \<Longrightarrow> exec_do ex s body (t @ s # tr) out"

definition casesOf :: "Node \<Rightarrow> Node list" where
  "casesOf body = filter (\<lambda>c. Kind c = ''case_statement'') (NamedChildren body)"

definition alternativesOf :: "Node \<Rightarrow> Node list list" where
  "alternativesOf stmt =
     (case preprocBranches (NamedChildren stmt) [] [] False of
        (branches, sawElse) \<Rightarrow> if \<not> sawElse then branches @ [[]] else branches)"

definition macroBody :: "Node \<Rightarrow> Node option" where
  "macroBody stmt = (if Kind stmt = ''ERROR'' then iterMacroBody stmt else macroFuncBody stmt)"

text \<open>How an outcome inside a switch looks from outside.\<close>

definition unbreak :: "outcome \<Rightarrow> outcome" where
  "unbreak out = (if out = Broke then Fall else out)"

definition compoundKinds :: "string list" where
  "compoundKinds = [''compound_statement'', ''if_statement'', ''while_statement'', ''do_statement'',
     ''for_statement'', ''switch_statement'', ''preproc_ifdef'', ''preproc_ifndef'', ''preproc_if'',
     ''return_statement'', ''break_statement'', ''continue_statement'', ''goto_statement'',
     ''labeled_statement'', ''case_statement'', ''ERROR'', ''function_definition'']"

lemma exec_seq_mono [mono]:
  assumes "\<And>s t out. ex s t out \<longrightarrow> ex' s t out"
  shows "exec_seq ex ss tr out \<longrightarrow> exec_seq ex' ss tr out"
proof
  assume "exec_seq ex ss tr out"
  then show "exec_seq ex' ss tr out" by induction (use assms in \<open>blast intro: exec_seq.intros\<close>)+
qed

lemma exec_loop_mono [mono]:
  assumes "\<And>s t out. ex s t out \<longrightarrow> ex' s t out"
  shows "exec_loop ex s body upd leaves tr out \<longrightarrow> exec_loop ex' s body upd leaves tr out"
proof
  assume "exec_loop ex s body upd leaves tr out"
  then show "exec_loop ex' s body upd leaves tr out"
    by induction (use assms in \<open>blast intro: exec_loop.intros\<close>)+
qed

lemma exec_do_mono [mono]:
  assumes "\<And>s t out. ex s t out \<longrightarrow> ex' s t out"
  shows "exec_do ex s body tr out \<longrightarrow> exec_do ex' s body tr out"
proof
  note seq = exec_seq_mono [of ex ex', OF assms, THEN mp]
  assume "exec_do ex s body tr out"
  then show "exec_do ex' s body tr out"
    by induction (use seq in \<open>blast intro: exec_do.intros\<close>)+
qed

inductive exec :: "Node \<Rightarrow> Node list \<Rightarrow> outcome \<Rightarrow> bool" where
  xBlock: "Kind s = ''compound_statement'' \<or> Kind s = ''case_statement'' \<Longrightarrow> exec_seq exec (NamedChildren s) tr out \<Longrightarrow> exec s tr out"
| xIfThen: "Kind s = ''if_statement'' \<Longrightarrow> ChildByFieldName ''consequence'' s = Some c \<Longrightarrow> exec c tr out \<Longrightarrow> exec s (s # tr) out"
| xIfElse: "Kind s = ''if_statement'' \<Longrightarrow> elseBody s = Some c \<Longrightarrow> exec c tr out \<Longrightarrow> exec s (s # tr) out"
| xIfNone: "Kind s = ''if_statement'' \<Longrightarrow> elseBody s = None \<Longrightarrow> exec s [s] Fall"
| xWhile: "Kind s = ''while_statement''
    \<Longrightarrow> exec_loop exec s (ChildByFieldName ''body'' s) [] (\<not> isConstantTrue (ChildByFieldName ''condition'' s)) tr out
    \<Longrightarrow> exec s tr out"
| xDoWhile: "Kind s = ''do_statement'' \<Longrightarrow> ChildByFieldName ''body'' s = Some bd
    \<Longrightarrow> exec_do exec s (if Kind bd = ''compound_statement'' then NamedChildren bd else [bd]) tr out \<Longrightarrow> exec s tr out"
| xForInit: "Kind s = ''for_statement'' \<Longrightarrow> ChildByFieldName ''initializer'' s = Some i \<Longrightarrow> exec i t Fall
    \<Longrightarrow> exec_loop exec s (ChildByFieldName ''body'' s)
          (case ChildByFieldName ''update'' s of None \<Rightarrow> [] | Some u \<Rightarrow> [u]) (ChildByFieldName ''condition'' s \<noteq> None) tr out
    \<Longrightarrow> exec s (t @ tr) out"
| xFor: "Kind s = ''for_statement'' \<Longrightarrow> ChildByFieldName ''initializer'' s = None
    \<Longrightarrow> exec_loop exec s (ChildByFieldName ''body'' s)
          (case ChildByFieldName ''update'' s of None \<Rightarrow> [] | Some u \<Rightarrow> [u]) (ChildByFieldName ''condition'' s \<noteq> None) tr out
    \<Longrightarrow> exec s tr out"
| xMacro: "Kind s = ''ERROR'' \<or> Kind s = ''function_definition'' \<Longrightarrow> macroBody s = Some bd
    \<Longrightarrow> exec_loop exec s (Some bd) [] True tr out \<Longrightarrow> exec s tr out"
| xSwitch: "Kind s = ''switch_statement'' \<Longrightarrow> ChildByFieldName ''body'' s = Some bd \<Longrightarrow> k < length (casesOf bd)
    \<Longrightarrow> exec_seq exec (concat (map NamedChildren (drop k (casesOf bd)))) tr out \<Longrightarrow> exec s (s # tr) (unbreak out)"
| xNoCase: "Kind s = ''switch_statement'' \<Longrightarrow> ChildByFieldName ''body'' s = None \<or>
      (\<exists>bd. ChildByFieldName ''body'' s = Some bd \<and> \<not> list_ex isDefaultCase (casesOf bd)) \<Longrightarrow> exec s [s] Fall"
| xAlternative: "Kind s \<in> {''preproc_ifdef'', ''preproc_ifndef'', ''preproc_if''} \<Longrightarrow> br \<in> set (alternativesOf s)
    \<Longrightarrow> exec_seq exec br tr out \<Longrightarrow> exec s tr out"
| xLabel: "Kind s = ''labeled_statement'' \<Longrightarrow> find isStmtNode (NamedChildren s) = Some c \<Longrightarrow> exec c tr out \<Longrightarrow> exec s tr out"
| xBareLabel: "Kind s = ''labeled_statement'' \<Longrightarrow> find isStmtNode (NamedChildren s) = None \<Longrightarrow> exec s [] Fall"
| xReturn: "Kind s = ''return_statement'' \<Longrightarrow> exec s [s] Returned"
| xBreak: "Kind s = ''break_statement'' \<Longrightarrow> exec s [s] Broke"
| xContinue: "Kind s = ''continue_statement'' \<Longrightarrow> exec s [s] Continued"
| xGoto: "Kind s = ''goto_statement'' \<Longrightarrow> exec s [s] Jumped"
| xLeaf: "Kind s \<notin> set compoundKinds \<or> (Kind s \<in> {''ERROR'', ''function_definition''} \<and> macroBody s = None)
    \<Longrightarrow> exec s [s] Fall"

text \<open>The statements of which build creates the entry node first; a case or a do body must begin with
  such a statement, because the builder takes the first node it creates for the entry.\<close>

function entry_first :: "Node \<Rightarrow> bool" where
  "entry_first s =
     (if Kind s = ''compound_statement'' \<or> Kind s = ''case_statement'' \<or> Kind s = ''labeled_statement''
      then (case find isStmtNode (NamedChildren s) of None \<Rightarrow> False | Some c \<Rightarrow> entry_first c)
      else if Kind s = ''for_statement'' then ChildByFieldName ''initializer'' s = None
      else Kind s \<notin> {''do_statement'', ''preproc_ifdef'', ''preproc_ifndef'', ''preproc_if''})"
  by pat_completeness auto
termination
  by (relation "measure size") (auto simp: find_Some_iff size_NamedChildren)

declare entry_first.simps [simp del]

definition starts_well :: "Node list \<Rightarrow> bool" where
  "starts_well ss = (case find isStmtNode ss of None \<Rightarrow> True | Some c \<Rightarrow> entry_first c)"

text \<open>The shapes the claim covers, nested at most r deep: do bodies are compound, cases and do bodies
  start well, and the last case of a switch has a statement.\<close>

definition all_stmts :: "(Node \<Rightarrow> bool) \<Rightarrow> Node list \<Rightarrow> bool" where
  "all_stmts ok cs \<longleftrightarrow> list_all (\<lambda>c. isStmtNode c \<longrightarrow> ok c) cs"

definition switch_shaped :: "(Node \<Rightarrow> bool) \<Rightarrow> Node list \<Rightarrow> bool" where
  "switch_shaped ok cs \<longleftrightarrow> list_all (\<lambda>c. starts_well (NamedChildren c) \<and> all_stmts ok (NamedChildren c)) cs
     \<and> (cs = [] \<or> list_ex isStmtNode (NamedChildren (last cs)))"

definition shaped :: "(Node \<Rightarrow> bool) \<Rightarrow> Node \<Rightarrow> bool" where
  "shaped ok s =
     (if Kind s = ''compound_statement'' \<or> Kind s = ''case_statement'' \<or> Kind s = ''labeled_statement''
      then all_stmts ok (NamedChildren s)
      else if Kind s = ''if_statement'' then
        pred_option ok (ChildByFieldName ''consequence'' s) \<and> pred_option ok (elseBody s)
      else if Kind s = ''while_statement'' then pred_option ok (ChildByFieldName ''body'' s)
      else if Kind s = ''do_statement'' then
        pred_option (\<lambda>bd. Kind bd = ''compound_statement'' \<and> starts_well (NamedChildren bd)
            \<and> all_stmts ok (NamedChildren bd)) (ChildByFieldName ''body'' s)
      else if Kind s = ''for_statement'' then
        pred_option ok (ChildByFieldName ''initializer'' s) \<and> pred_option ok (ChildByFieldName ''body'' s)
      else if Kind s = ''switch_statement'' then
        pred_option (\<lambda>bd. switch_shaped ok (casesOf bd)) (ChildByFieldName ''body'' s)
      else if Kind s = ''preproc_ifdef'' \<or> Kind s = ''preproc_ifndef'' \<or> Kind s = ''preproc_if''
      then list_all (list_all ok) (alternativesOf s)
      else if Kind s = ''ERROR'' \<or> Kind s = ''function_definition'' then pred_option ok (macroBody s)
      else True)"

fun wellshaped :: "nat \<Rightarrow> Node \<Rightarrow> bool" where
  "wellshaped 0 s = False"
| "wellshaped (Suc r) s = shaped (wellshaped r) s"

section \<open>Walks\<close>

definition label :: "cfgBuilder \<Rightarrow> int \<Rightarrow> Node list" where
  "label b m = (if snKind (node b m) = ''stmt'' then [snStmt (node b m)] else [])"

inductive walk :: "cfgBuilder \<Rightarrow> int \<Rightarrow> Node list \<Rightarrow> int \<Rightarrow> bool" for b where
  here: "valid b n \<Longrightarrow> walk b n [] n"
| go: "valid b n \<Longrightarrow> m \<in> set (snSuccs (node b n)) \<Longrightarrow> walk b m tr k \<Longrightarrow> walk b n (label b m @ tr) k"

text \<open>A walk whose first node is e.\<close>

definition enter :: "cfgBuilder \<Rightarrow> int \<Rightarrow> int \<Rightarrow> Node list \<Rightarrow> int \<Rightarrow> bool" where
  "enter b src e tr dst \<longleftrightarrow> valid b src \<and> e \<in> set (snSuccs (node b src)) \<and> (\<exists>tr'. tr = label b e @ tr' \<and> walk b e tr' dst)"

definition breakTarget :: "cfgBuilder \<Rightarrow> int" where
  "breakTarget b = (case cbBreak b of t # ts \<Rightarrow> t | [] \<Rightarrow> cbExit b)"

definition contTarget :: "cfgBuilder \<Rightarrow> int" where
  "contTarget b = (case cbCont b of t # ts \<Rightarrow> t | [] \<Rightarrow> cbExit b)"

text \<open>The node at which an outcome leaves a statement: the fall-through, or the jump statement itself,
  which has an edge to its target; a goto ends at its own node.\<close>

definition jumps :: "cfgBuilder \<Rightarrow> outcome \<Rightarrow> int \<Rightarrow> bool" where
  "jumps b out t \<longleftrightarrow>
     (case out of Broke \<Rightarrow> t = breakTarget b | Continued \<Rightarrow> t = contTarget b | Returned \<Rightarrow> t = cbExit b | _ \<Rightarrow> False)"

definition dest :: "cfgBuilder \<Rightarrow> int \<Rightarrow> cfgBuilder \<Rightarrow> outcome \<Rightarrow> int \<Rightarrow> bool" where
  "dest b lst b' out dst \<longleftrightarrow> (if out = Fall then dst = lst else \<forall>t. jumps b out t \<longrightarrow> t \<in> set (snSuccs (node b' dst)))"

lemma walk_valid: "walk b i tr j \<Longrightarrow> valid b i \<and> valid b j"
  by (induction rule: walk.induct) auto

lemma walk_append: "walk b i t1 j \<Longrightarrow> walk b j t2 k \<Longrightarrow> walk b i (t1 @ t2) k"
  by (induction rule: walk.induct) (auto intro: walk.go)

lemma label_grows: "grows b b' \<Longrightarrow> valid b m \<Longrightarrow> label b' m = label b m"
  by (simp add: label_def grows_def same_node_def)

lemma walk_grows: "walk b i tr j \<Longrightarrow> grows b b' \<Longrightarrow> walk b' i tr j"
proof (induction rule: walk.induct)
  case (here n)
  then show ?case using grows_valid walk.here by blast
next
  case (go n m tr k)
  have "valid b m" using walk_valid [OF go(3)] by simp
  then have "label b' m = label b m" using label_grows go by blast
  moreover have "m \<in> set (snSuccs (node b' n))" using go by (auto simp: grows_def)
  ultimately show ?case using walk.go [OF grows_valid [OF go(5,1)]] go(4,5) by metis
qed

lemma enter_walk: "enter b src e tr dst \<Longrightarrow> walk b src tr dst"
  by (auto simp: enter_def intro: walk.go)

lemma enter_append: "enter b src e t1 j \<Longrightarrow> walk b j t2 k \<Longrightarrow> enter b src e (t1 @ t2) k"
  unfolding enter_def using walk_append by (metis append.assoc)

lemma enter_grows:
  assumes "enter b src e tr dst" "grows b b'"
  shows "enter b' src e tr dst"
proof -
  from assms(1) obtain tr' where t: "valid b src" "e \<in> set (snSuccs (node b src))" "tr = label b e @ tr'" "walk b e tr' dst"
    unfolding enter_def by blast
  have "label b' e = label b e" using label_grows [OF assms(2)] walk_valid [OF t(4)] by simp
  moreover have "e \<in> set (snSuccs (node b' src))" using t(1,2) assms(2) by (auto simp: grows_def)
  ultimately show ?thesis
    using t grows_valid [OF assms(2)] walk_grows [OF t(4) assms(2)] unfolding enter_def by metis
qed

text \<open>From another node with an edge to the same first node, the same walk.\<close>

lemma enter_from:
  "enter b src e tr dst \<Longrightarrow> valid b src' \<Longrightarrow> e \<in> set (snSuccs (node b src')) \<Longrightarrow> enter b src' e tr dst"
  by (simp add: enter_def)

lemma walk_edge: "valid b i \<Longrightarrow> valid b j \<Longrightarrow> j \<in> set (snSuccs (node b i)) \<Longrightarrow> walk b i (label b j) j"
  using walk.go [OF _ _ walk.here, of b i j] by simp

lemma jumps_steps: "steps b c \<Longrightarrow> jumps c out t \<longleftrightarrow> jumps b out t"
proof -
  assume "steps b c"
  then have "cbExit c = cbExit b" "cbBreak c = cbBreak b" "cbCont c = cbCont b"
    by (simp_all add: steps_def grows_def keeps_targets_def)
  moreover from this have "breakTarget c = breakTarget b" "contTarget c = contTarget b"
    by (simp_all only: breakTarget_def contTarget_def)
  ultimately show ?thesis by (simp add: jumps_def split: outcome.split)
qed

lemma dest_steps: "steps b c \<Longrightarrow> dest c lst b' out dst \<longleftrightarrow> dest b lst b' out dst"
  by (simp add: dest_def jumps_steps)

lemma dest_grows: "dest b lst c out dst \<Longrightarrow> valid c dst \<Longrightarrow> grows c b' \<Longrightarrow> dest b lst b' out dst"
  by (auto simp: dest_def grows_def split: if_splits)

lemma dest_lst: "out \<noteq> Fall \<Longrightarrow> dest b lst b' out dst \<Longrightarrow> dest b lst' b' out dst"
  by (simp add: dest_def)

lemma edge_in_grows: "valid b i \<Longrightarrow> valid b j \<Longrightarrow> grows (edge i j b) b' \<Longrightarrow> j \<in> set (snSuccs (node b' i))"
  using edge_in [of b i j] by (auto simp: grows_def)

lemma stmtNode_label: "stmtNode st b = (n, b') \<Longrightarrow> label b' n = [st] \<and> n = nodeCount b"
  using newNode_nodes(3,4) newNode_fst unfolding stmtNode_def label_def by (metis (full_types))

lemma joinNode_label: "joinNode b = (n, b') \<Longrightarrow> label b' n = []"
  using newNode_nodes(3) [of "''join''" 0 0 NullNode b n b'] unfolding joinNode_def label_def by simp

lemmas walk_steps = walk_grows [OF _ steps_grows]
lemmas enter_steps = enter_grows [OF _ steps_grows]


section \<open>The contract\<close>

definition represents :: "cfgBuilder \<Rightarrow> int \<Rightarrow> int \<Rightarrow> cfgBuilder \<Rightarrow> Node list \<Rightarrow> outcome \<Rightarrow> bool \<Rightarrow> bool" where
  "represents b src lst b' tr out first \<longleftrightarrow>
     (\<exists>dst. dest b lst b' out dst \<and> walk b' src tr dst \<and> (first \<longrightarrow> enter b' src (nodeCount b) tr dst))"

lemma representsI:
  "dest b lst b' out dst \<Longrightarrow> walk b' src tr dst \<Longrightarrow> (first \<Longrightarrow> enter b' src (nodeCount b) tr dst)
     \<Longrightarrow> represents b src lst b' tr out first"
  by (auto simp: represents_def)

lemma represents_enter: "dest b lst b' out dst \<Longrightarrow> enter b' src (nodeCount b) tr dst \<Longrightarrow> represents b src lst b' tr out first"
  using enter_walk by (auto simp: represents_def)

lemma represents_steps: "represents b src lst c tr out first \<Longrightarrow> steps c b' \<Longrightarrow> represents b src lst b' tr out first"
proof -
  assume r: "represents b src lst c tr out first" and s: "steps c b'"
  from r obtain dst where d: "dest b lst c out dst" "walk c src tr dst" "first \<longrightarrow> enter c src (nodeCount b) tr dst"
    unfolding represents_def by blast
  have "dest b lst b' out dst" using dest_grows [OF d(1) _ steps_grows [OF s]] walk_valid [OF d(2)] by blast
  then show ?thesis using walk_steps [OF d(2) s] enter_steps [OF _ s] d(3) by (blast intro: representsI)
qed

lemma represents_lst: "represents b src lst c tr out first \<Longrightarrow> out \<noteq> Fall \<Longrightarrow> represents b src lst' c tr out first"
  unfolding represents_def using dest_lst by blast

lemma represents_Fall: "represents b src lst c tr Fall first \<Longrightarrow> valid c lst"
  unfolding represents_def dest_def using walk_valid by auto

text \<open>Loops: when the graph has the header, the join, the next node (the update or the header itself)
  and the edges between them, and the body's executions are walks from the header, then so are the
  executions of the loop.\<close>

definition body_dest :: "cfgBuilder \<Rightarrow> int \<Rightarrow> int \<Rightarrow> int \<Rightarrow> outcome \<Rightarrow> int \<Rightarrow> bool" where
  "body_dest b nx join ext out x \<longleftrightarrow>
     (case out of Fall \<Rightarrow> nx \<in> set (snSuccs (node b x)) | Continued \<Rightarrow> nx \<in> set (snSuccs (node b x))
      | Broke \<Rightarrow> join \<in> set (snSuccs (node b x)) | Returned \<Rightarrow> ext \<in> set (snSuccs (node b x)) | Jumped \<Rightarrow> True)"

definition loop_dest :: "cfgBuilder \<Rightarrow> int \<Rightarrow> int \<Rightarrow> outcome \<Rightarrow> int \<Rightarrow> bool" where
  "loop_dest b join ext out dst \<longleftrightarrow>
     (case out of Fall \<Rightarrow> dst = join | Returned \<Rightarrow> ext \<in> set (snSuccs (node b dst)) | Jumped \<Rightarrow> True | _ \<Rightarrow> False)"

definition next_node :: "cfgBuilder \<Rightarrow> int \<Rightarrow> Node list \<Rightarrow> int \<Rightarrow> bool" where
  "next_node b nx upd hd1 \<longleftrightarrow> (upd = [] \<and> nx = hd1) \<or>
     (valid b nx \<and> label b nx = upd \<and> hd1 \<in> set (snSuccs (node b nx)))"

lemma exec_loop_walk:
  assumes "exec_loop ex s body upd leaves tr out"
    and h: "valid b h" "label b h = [s]" and j: "valid b join" "label b join = []"
    and exit_edge: "leaves \<Longrightarrow> join \<in> set (snSuccs (node b h))" and nx: "next_node b nx upd h"
    and body: "\<And>bd t o1. body = Some bd \<Longrightarrow> ex bd t o1 \<Longrightarrow> \<exists>x. walk b h t x \<and> body_dest b nx join ext o1 x"
  shows "\<exists>tr' dst. tr = s # tr' \<and> walk b h tr' dst \<and> loop_dest b join ext out dst"
  using assms(1)
proof (induction rule: exec_loop.induct)
  case finish
  with walk_edge [OF h(1) j(1)] exit_edge j(2) show ?case by (auto simp: loop_dest_def)
next
  case (broke bd t)
  from body [OF this] obtain x where "walk b h t x" "join \<in> set (snSuccs (node b x))"
    by (auto simp: body_dest_def)
  with walk_append [OF _ walk_edge [OF _ j(1)]] walk_valid j(2) show ?case by (fastforce simp: loop_dest_def)
next
  case (leave bd t out)
  from body [OF leave(1,2)] leave(3) show ?case by (auto simp: body_dest_def loop_dest_def)
next
  case (again bd t out1 tr out)
  from body [OF again(1,2)] again(3) obtain x where x: "walk b h t x" "nx \<in> set (snSuccs (node b x))"
    by (auto simp: body_dest_def)
  from again.IH obtain tr' dst where tr': "tr = s # tr'" "walk b h tr' dst" "loop_dest b join ext out dst" by blast
  have vx: "valid b x" using walk_valid [OF x(1)] by simp
  have "walk b x (upd @ [s]) h"
  proof (cases "upd = [] \<and> nx = h")
    case True
    then show ?thesis using walk_edge [OF vx h(1)] x(2) h(2) by simp
  next
    case False
    then have n: "valid b nx" "label b nx = upd" "h \<in> set (snSuccs (node b nx))" using nx by (auto simp: next_node_def)
    show ?thesis using walk_append [OF walk_edge [OF vx n(1) x(2)] walk_edge [OF n(1) h(1) n(3)]] n(2) h(2) by simp
  qed
  from walk_append [OF x(1) walk_append [OF this tr'(2)]] tr' show ?case by auto
qed

lemma grows_pop [simp]: "grows b (popTargets b)" "grows (popTargets b) b" "grows b (pushTargets x y b)"
  using valid_cong [of "popTargets b" b] node_cong [of "popTargets b" b] node_cong [of "pushTargets x y b" b]
  by (simp_all add: grows_def)

lemma push_breakTarget [simp]: "breakTarget (pushTargets x y b) = x" "contTarget (pushTargets x y b) = y"
  by (simp_all add: breakTarget_def contTarget_def)

lemma node_push [simp]: "node (pushTargets x y b) = node b" "node (popTargets b) = node b" "nodeCount (pushTargets x y b) = nodeCount b"
  by (simp_all add: fun_eq_iff node_def nodeCount_def)

text \<open>What the contract says of a loop body, seen in the finished graph.\<close>

lemma body_walk:
  assumes "represents (pushTargets join ct b2) h bl b3 t out f" "grows b3 b'"
    and "0 \<le> bl \<Longrightarrow> nx \<in> set (snSuccs (node b' bl))" "nx = ct"
  shows "\<exists>x. walk b' h t x \<and> body_dest b' nx join (cbExit b2) out x"
proof -
  from assms(1) obtain dst where d: "dest (pushTargets join ct b2) bl b3 out dst" "walk b3 h t dst"
    unfolding represents_def by blast
  have w: "walk b' h t dst" using walk_grows [OF d(2) assms(2)] .
  have v: "valid b3 dst" using walk_valid [OF d(2)] by simp
  have d': "dest (pushTargets join ct b2) bl b' out dst" using dest_grows [OF d(1) v assms(2)] .
  have "body_dest b' nx join (cbExit b2) out dst"
    using d' assms(3,4) valid_neg [OF v] by (cases out) (auto simp: dest_def jumps_def body_dest_def)
  with w show ?thesis by blast
qed

lemma loop_dest_dest: "loop_dest b' join (cbExit b) out dst \<Longrightarrow> dest b join b' out dst"
  by (cases out) (auto simp: loop_dest_def dest_def jumps_def)

locale stmt_covers = stmt_builder +
  fixes ok :: "Node \<Rightarrow> bool"
  assumes covers: "wf_builder b \<Longrightarrow> valid b src \<Longrightarrow> ok stmt \<Longrightarrow> rec stmt src b = (lst, b') \<Longrightarrow> exec stmt tr out
                     \<Longrightarrow> represents b src lst b' tr out (entry_first stmt)"
begin

text \<open>The head of a sequence: the execution of the first statement, then of the rest.\<close>

lemma represents_more:
  assumes "wf_builder b" "valid b src" "ok s" "rec s src b = (d, c)" "exec s t1 Fall"
    and "steps b c" "steps c b'" "represents c d lst b' t2 out f2"
  shows "represents b src lst b' (t1 @ t2) out (entry_first s)"
proof -
  have r: "represents b src d b' t1 Fall (entry_first s)"
    using represents_steps [OF covers [OF assms(1-5)] assms(7)] .
  then have w: "walk b' src t1 d" "entry_first s \<Longrightarrow> enter b' src (nodeCount b) t1 d"
    by (auto simp: represents_def dest_def)
  from assms(8) obtain dst where "dest b lst b' out dst" "walk b' d t2 dst"
    unfolding represents_def dest_steps [OF assms(6)] by blast
  then show ?thesis using walk_append [OF w(1)] enter_append [OF w(2)] by (blast intro: representsI)
qed

lemma blockLoop_covers:
  assumes "exec_seq exec stmts tr out" "wf_builder b" "valid b src" "src_ok b det"
    and "all_stmts ok stmts" "blockLoop rec stmts src False det b = (lst, b')"
  shows "represents b src lst b' tr out (\<exists>c. find isStmtNode stmts = Some c \<and> entry_first c)"
  using assms
proof (induction arbitrary: src b rule: exec_seq.induct)
  case seqNil
  then show ?case using walk.here by (auto simp: represents_def dest_def)
next
  case (seqSkip s ss tr out)
  then show ?case by (simp add: all_stmts_def)
next
  case (seqMore s t1 ss t2 out)
  obtain d c where r: "rec s src b = (d, c)" by fastforce
  have ok: "ok s" using seqMore.hyps(1) seqMore.prems(4) by (simp add: all_stmts_def)
  have sc: "steps b c" using rec_ok [OF seqMore.prems(1) valid_src_ok [OF seqMore.prems(2)] r] by simp
  have d: "valid c d" using represents_Fall [OF covers [OF seqMore.prems(1,2) ok r seqMore.hyps(2)]] .
  then have l: "blockLoop rec ss d False det c = (lst, b')"
    using seqMore.prems(5) seqMore.hyps(1) r valid_neg [OF d] by simp
  have det: "src_ok c det" using steps_src_ok [OF sc seqMore.prems(3)] .
  note w = steps_wf [OF sc]
  have "represents c d lst b' t2 out (\<exists>c. find isStmtNode ss = Some c \<and> entry_first c)"
    using seqMore.IH [OF w d det _ l] seqMore.prems(4) by (simp add: all_stmts_def)
  moreover have "steps c b'" using blockLoop_ok [OF w valid_src_ok [OF d] det l] by simp
  ultimately have "represents b src lst b' (t1 @ t2) out (entry_first s)"
    using represents_more [OF seqMore.prems(1,2) ok r seqMore.hyps(2) sc] by blast
  then show ?case using seqMore.hyps(1) by simp
next
  case (seqStop s tr out ss)
  obtain d c where r: "rec s src b = (d, c)" by fastforce
  have ok: "ok s" using seqStop.hyps(1) seqStop.prems(4) by (simp add: all_stmts_def)
  have sc: "steps b c" "src_ok c d" using rec_ok [OF seqStop.prems(1) valid_src_ok [OF seqStop.prems(2)] r] by simp_all
  have "blockLoop rec ss (if d < 0 then src else d) (d < 0) det c = (lst, b')"
    using seqStop.prems(5) seqStop.hyps(1) r by (auto split: if_splits)
  from blockLoop_ok [OF steps_wf [OF sc(1)] _ _ this] have "steps c b'"
    using sc steps_src_ok [OF sc(1)] seqStop.prems(2,3) valid_src_ok by auto
  then show ?case
    using represents_steps [OF represents_lst [OF covers [OF seqStop.prems(1,2) ok r seqStop.hyps(2)] seqStop.hyps(3)]]
      seqStop.hyps(1) by simp
qed

lemma buildStmtList_covers:
  assumes "exec_seq exec stmts tr out" "wf_builder b" "valid b src"
    and "list_all (\<lambda>c. isStmtNode c \<and> ok c) stmts" "buildStmtList rec stmts src b = (lst, b')"
  shows "represents b src lst b' tr out False"
  using assms
proof (induction arbitrary: src b rule: exec_seq.induct)
  case seqNil
  then show ?case using walk.here by (auto simp: represents_def dest_def)
next
  case (seqSkip s ss tr out)
  then show ?case by simp
next
  case (seqMore s t1 ss t2 out)
  obtain d c where r: "rec s src b = (d, c)" by fastforce
  have ok: "ok s" using seqMore.prems(3) by simp
  have sc: "steps b c" using rec_ok [OF seqMore.prems(1) valid_src_ok [OF seqMore.prems(2)] r] by simp
  have d: "valid c d" using represents_Fall [OF covers [OF seqMore.prems(1,2) ok r seqMore.hyps(2)]] .
  then have l: "buildStmtList rec ss d c = (lst, b')" using seqMore.prems(4) r valid_neg [OF d] by simp
  note w = steps_wf [OF sc]
  have "represents c d lst b' t2 out False" using seqMore.IH [OF w d _ l] seqMore.prems(3) by simp
  moreover have "steps c b'" using buildStmtList_ok [OF w valid_src_ok [OF d] l] by simp
  ultimately have "represents b src lst b' (t1 @ t2) out (entry_first s)"
    using represents_more [OF seqMore.prems(1,2) ok r seqMore.hyps(2) sc] by blast
  then show ?case by (auto simp: represents_def)
next
  case (seqStop s tr out ss)
  obtain d c where r: "rec s src b = (d, c)" by fastforce
  have ok: "ok s" using seqStop.prems(3) by simp
  have sc: "steps b c" "src_ok c d" using rec_ok [OF seqStop.prems(1) valid_src_ok [OF seqStop.prems(2)] r] by simp_all
  have "steps c b'"
    using seqStop.prems(4) r buildStmtList_ok [OF steps_wf [OF sc(1)] sc(2)] steps_refl [OF steps_wf [OF sc(1)]]
    by (auto split: if_splits)
  then show ?case
    using represents_steps [OF represents_lst [OF covers [OF seqStop.prems(1,2) ok r seqStop.hyps(2)] seqStop.hyps(3)]]
    by (auto simp: represents_def)
qed

lemma buildBlock_covers:
  assumes "exec_seq exec (NamedChildren s) tr out" "wf_builder b" "valid b src"
    and "all_stmts ok (NamedChildren s)" "buildBlock rec s src b = (lst, b')"
  shows "represents b src lst b' tr out (\<exists>c. find isStmtNode (NamedChildren s) = Some c \<and> entry_first c)"
  using blockLoop_covers [OF assms(1-3) src_ok_minus assms(4)] assms(5) by (simp add: buildBlock_def)

text \<open>A branch of an if or the body of a loop: building records the branch, which adds no edge.\<close>

lemma buildBranch_covers:
  assumes "buildBranch rec rcd stmt cond b = (lst, b')" "wf_builder b" "valid b cond" "ok stmt" "exec stmt tr out"
    and "\<And>c j. steps b c \<Longrightarrow> valid c cond \<Longrightarrow> valid c j \<Longrightarrow> steps c (rcd cond j c)"
  shows "represents b cond lst b' tr out (entry_first stmt)"
proof -
  obtain c where r: "rec stmt cond b = (lst, c)"
    and b': "b' = (if nodeCount c > nodeCount b then rcd cond (nodeCount b) c else c)"
    using assms(1) by (auto simp: buildBranch_def split: prod.splits)
  have c: "steps b c" using rec_ok [OF assms(2) valid_src_ok [OF assms(3)] r] by simp
  have "steps c b'"
    using b' assms(6) [OF c steps_valid [OF c assms(3)] valid_new_first [OF c]] steps_refl [OF steps_wf [OF c]] by auto
  with covers [OF assms(2-4) r assms(5)] represents_steps show ?thesis by blast
qed

lemma branch_true_covers:
  "buildBranch rec addTrue stmt cond b = (lst, b') \<Longrightarrow> wf_builder b \<Longrightarrow> valid b cond \<Longrightarrow> ok stmt \<Longrightarrow> exec stmt tr out
     \<Longrightarrow> represents b cond lst b' tr out (entry_first stmt)"
  by (rule buildBranch_covers) (auto intro: addTrue_steps steps_wf)

lemma branch_false_covers:
  "buildBranch rec addFalse stmt cond b = (lst, b') \<Longrightarrow> wf_builder b \<Longrightarrow> valid b cond \<Longrightarrow> ok stmt \<Longrightarrow> exec stmt tr out
     \<Longrightarrow> represents b cond lst b' tr out (entry_first stmt)"
  by (rule buildBranch_covers) (auto intro: addFalse_steps steps_wf)

end

end
