(* ===== verification/CFG_Covers.thy ===== *)
theory CFG_Covers
  imports CFG_Exec
begin

text \<open>
  The contract of CFG_Exec construct by construct: for each builder of control_flow.go, in the graph it
  leaves behind, every execution of its construct is a walk from the source node to the node of the
  outcome.  The last section assembles them over the recursion of build.
\<close>

section \<open>Constructs of one header node\<close>

lemma nodeCount_edge [simp]: "nodeCount (edge i j b) = nodeCount b"
  by (rule edge_kinds)

lemma represents_edge:
  assumes "valid b' src" "nodeCount b \<in> set (snSuccs (node b' src))" "tr = label b' (nodeCount b) @ tr'"
    "walk b' (nodeCount b) tr' dst" "dest b lst b' out dst"
  shows "represents b src lst b' tr out f"
  using represents_enter [of b lst b' out dst src tr f] assms unfolding enter_def by blast

lemma header_walk:
  assumes "wf_builder b" "valid b src" "stmtNode stmt b = (hd1, b1)" "grows (edge src hd1 b1) b'"
  shows "valid b' src" "valid b' hd1" "label b' hd1 = [stmt]" "hd1 \<in> set (snSuccs (node b' src))" "hd1 = nodeCount b"
proof -
  have s1: "steps b b1" "valid b1 hd1" using stmtNode_steps [OF assms(3,1)] by auto
  have v: "valid b1 src" using steps_valid [OF s1(1) assms(2)] .
  note l = stmtNode_label [OF assms(3)]
  have "grows b1 (edge src hd1 b1)"
    using edge_steps [OF steps_wf [OF s1(1)] valid_src_ok [OF v] valid_src_ok [OF s1(2)]] steps_grows by blast
  then have g: "grows b1 b'" using grows_trans assms(4) by blast
  show "valid b' src" "valid b' hd1" using grows_valid [OF g] v s1(2) by blast+
  show "label b' hd1 = [stmt]" using label_grows [OF g s1(2)] conjunct1 [OF l] by simp
  show "hd1 \<in> set (snSuccs (node b' src))" using edge_in_grows [OF v s1(2) assms(4)] .
  show "hd1 = nodeCount b" using l by simp
qed

lemma join_walk:
  assumes "wf_builder b" "joinNode b = (join, b1)" "grows b1 b'"
  shows "valid b' join" "label b' join = []"
proof -
  have s1: "valid b1 join" using joinNode_steps [OF assms(2,1)] by auto
  show "valid b' join" using grows_valid [OF assms(3) s1] .
  show "label b' join = []" using label_grows [OF assms(3) s1] joinNode_label [OF assms(2)] by simp
qed

lemma buildLeaf_covers:
  assumes "wf_builder b" "valid b src" "buildLeaf stmt src b = (lst, b')"
  shows "represents b src lst b' [stmt] Fall f"
proof -
  obtain n b1 where n: "stmtNode stmt b = (n, b1)" by fastforce
  have r: "lst = n" "b' = edge src n b1" using assms(3) n by (auto simp: buildLeaf_def)
  have g: "grows (edge src n b1) b'" using r by simp
  note h = header_walk [OF assms(1,2) n g]
  show ?thesis
    using represents_edge [of b' src b "[stmt]" "[]" n lst Fall f] h walk.here [OF h(2)] r(1) by (simp add: dest_def)
qed

lemma buildJump_covers:
  assumes "wf_builder b" "valid b src" "buildJump target stmt src b = (lst, b')" "out \<noteq> Fall"
    and "\<And>t. jumps b out t \<Longrightarrow> target = Some t \<and> valid b t" "\<And>t. target = Some t \<Longrightarrow> valid b t"
  shows "represents b src lst b' [stmt] out f"
proof -
  obtain n b1 where n: "stmtNode stmt b = (n, b1)" by fastforce
  have s1: "steps b b1" "valid b1 n" using stmtNode_steps [OF n assms(1)] by auto
  have e: "steps b (edge src n b1)" using steps_edge [OF s1(1)] steps_valid [OF s1(1) assms(2)] s1(2) by (simp add: valid_src_ok)
  have b': "b' = (case target of None \<Rightarrow> edge src n b1 | Some t \<Rightarrow> edge n t (edge src n b1))"
    using assms(3) n by (auto simp: buildJump_def)
  have vn: "valid (edge src n b1) n" using s1(2) by simp
  have "steps (edge src n b1) b'"
  proof (cases target)
    case None
    then show ?thesis using b' steps_refl [OF steps_wf [OF e]] by simp
  next
    case (Some t)
    then have "valid (edge src n b1) t" using assms(6) steps_valid [OF e] by blast
    with Some show ?thesis using b' edge_steps [OF steps_wf [OF e] valid_src_ok [OF vn]] by (simp add: valid_src_ok)
  qed
  then have g: "grows (edge src n b1) b'" by (rule steps_grows)
  note h = header_walk [OF assms(1,2) n g]
  have "dest b lst b' out n"
  proof -
    have "t \<in> set (snSuccs (node b' n))" if "jumps b out t" for t
    proof -
      have t: "target = Some t" "valid b t" using assms(5) [OF that] by auto
      then have "valid (edge src n b1) t" using steps_valid [OF e] by blast
      with edge_in [OF vn this] t(1) b' show ?thesis by simp
    qed
    then show ?thesis using assms(4) by (simp add: dest_def)
  qed
  then show ?thesis
    using represents_edge [of b' src b "[stmt]" "[]" n lst out f] h walk.here [OF h(2)] by simp
qed

text \<open>A branch that falls through reaches the join by an edge.\<close>

lemma branch_dest:
  assumes "represents b h l c tr out f" "grows c b'" "valid b' join" "label b' join = []"
    and "0 \<le> l \<Longrightarrow> join \<in> set (snSuccs (node b' l))"
  shows "\<exists>dst. walk b' h tr dst \<and> dest b join b' out dst \<and> (out = Fall \<longrightarrow> 0 \<le> l)"
proof -
  from assms(1) obtain d where d: "dest b l c out d" "walk c h tr d" unfolding represents_def by blast
  have w: "walk b' h tr d" using walk_grows [OF d(2) assms(2)] .
  have v: "valid c d" "valid b' d" using walk_valid [OF d(2)] walk_valid [OF w] by simp_all
  show ?thesis
  proof (cases "out = Fall")
    case True
    then have l: "d = l" "0 \<le> l" using d(1) valid_neg [OF v(1)] by (auto simp: dest_def)
    then have "walk b' d [] join" using walk_edge [OF v(2) assms(3)] assms(4,5) by simp
    from walk_append [OF w this] True l(2) show ?thesis by (auto simp: dest_def)
  next
    case False
    then show ?thesis using w dest_grows [OF d(1) v(1) assms(2)] dest_lst by blast
  qed
qed

lemma grows_updNode:
  assumes "\<And>n. same_node n (f n)" "\<And>n. set (snSuccs n) \<subseteq> set (snSuccs (f n))"
  shows "grows b (updNode i f b)"
proof -
  have "node (updNode i f b) j = (if nat i = nat j then f (node b j) else node b j)" if "valid b j" for j
    using that by (auto simp: updNode_def node_def valid_def)
  then show ?thesis using assms by (auto simp: grows_def updNode_def)
qed

lemma grows_edge: "grows b (edge i j b)"
  by (auto simp: edge_def same_node_def intro!: grows_updNode)

lemma grows_addTrue: "grows b (addTrue i j b)" and grows_addFalse: "grows b (addFalse i j b)"
  by (auto simp: addTrue_def addFalse_def same_node_def intro!: grows_updNode)

lemmas grows_after = grows_trans [OF _ grows_edge] grows_trans [OF _ grows_addTrue] grows_trans [OF _ grows_addFalse]
  grows_trans [OF _ grows_pop(1)] grows_refl

text \<open>The header and the join of a construct, seen in the finished graph.\<close>

lemma header_join_walk:
  assumes "wf_builder b" "valid b src" "stmtNode stmt b = (hd1, b1)" "joinNode (edge src hd1 b1) = (join, b2)" "grows b2 b'"
  shows "valid b' src" "valid b' hd1" "label b' hd1 = [stmt]" "hd1 \<in> set (snSuccs (node b' src))" "hd1 = nodeCount b"
    "valid b' join" "label b' join = []"
proof -
  have s1: "steps b b1" "valid b1 hd1" using stmtNode_steps [OF assms(3,1)] by auto
  have w: "wf_builder (edge src hd1 b1)"
    using steps_wf [OF steps_edge [OF s1(1)]] valid_src_ok s1(2) steps_valid [OF s1(1) assms(2)] by blast
  have g: "grows (edge src hd1 b1) b'"
    using joinNode_steps [OF assms(4) w] grows_trans [OF steps_grows assms(5)] by blast
  show "valid b' src" "valid b' hd1" "label b' hd1 = [stmt]" "hd1 \<in> set (snSuccs (node b' src))" "hd1 = nodeCount b"
    by (fact header_walk [OF assms(1-3) g])+
  show "valid b' join" "label b' join = []" by (fact join_walk [OF w assms(4,5)])+
qed

context stmt_covers
begin

lemma option_branch_grows:
  assumes "steps b c" "valid b x"
    and "(case o1 of None \<Rightarrow> (-1, b) | Some st \<Rightarrow> buildBranch rec addTrue st x b) = (l, c')" "wf_builder b"
  shows "steps b c'" "src_ok c' l"
  using assms branch_true_ok [OF assms(4,2)] steps_refl [OF assms(4)] by (auto split: option.splits)

lemma buildIf_covers:
  assumes "wf_builder b" "valid b src" "buildIf rec stmt src b = (lst, b')"
    and "pred_option ok (ChildByFieldName ''consequence'' stmt)" "pred_option ok (elseBody stmt)"
    and "(\<exists>c. (ChildByFieldName ''consequence'' stmt = Some c \<or> elseBody stmt = Some c) \<and> exec c t out)
       \<or> elseBody stmt = None \<and> t = [] \<and> out = Fall"
  shows "represents b src lst b' (stmt # t) out f"
proof -
  obtain cond b1 where n1: "stmtNode stmt b = (cond, b1)" by fastforce
  obtain join b2 where n2: "joinNode (edge src cond b1) = (join, b2)" by fastforce
  obtain tl3 b3 where n3: "(case ChildByFieldName ''consequence'' stmt of None \<Rightarrow> (-1, b2)
      | Some cons \<Rightarrow> buildBranch rec addTrue cons cond b2) = (tl3, b3)" by fastforce
  obtain el b4 where n4: "(case elseBody stmt of Some alt \<Rightarrow> buildBranch rec addFalse alt cond b3
      | None \<Rightarrow> (-1, addFalse cond join (edge cond join b3))) = (el, b4)" by fastforce
  note s2 = header_join [OF assms(1) valid_src_ok [OF assms(2)] n1 n2]
  note w2 = steps_wf [OF s2(1)]
  have s3: "steps b2 b3" "src_ok b3 tl3" using option_branch_grows [OF steps_refl [OF w2] s2(3) n3 w2] .
  have v3: "valid b3 join" "valid b3 cond" using s2 s3 steps_valid by blast+
  have s4: "steps b3 b4 \<and> src_ok b4 el"
    using n4 branch_false_ok [OF steps_wf [OF s3(1)] v3(2)] v3 steps_refl [OF steps_wf [OF s3(1)]]
    by (auto split: option.splits simp: valid_src_ok intro!: steps_addFalse steps_edge)
  have v4: "valid b4 join" "src_ok b4 tl3" using s4 s3 v3 steps_valid steps_src_ok by blast+
  let ?b5 = "if tl3 \<ge> 0 then edge tl3 join b4 else b4"
  have b': "b' = (if el \<ge> 0 then edge el join ?b5 else ?b5)"
    and lst: "lst = (if tl3 < 0 \<and> elseBody stmt \<noteq> None \<and> el < 0 then -1 else join)"
    using assms(3) unfolding buildIf_def Let_def n1 prod.case n2 n3 n4 by (auto split: if_splits)
  have g4: "grows b4 b'" unfolding b' by (auto intro!: grows_after)
  have g3: "grows b3 b'" using grows_trans [OF steps_grows g4] s4 by blast
  have g2: "grows b2 b'" using grows_trans [OF steps_grows [OF s3(1)] g3] .
  note h = header_join_walk [OF assms(1,2) n1 n2 g2]
  have et: "0 \<le> tl3 \<Longrightarrow> join \<in> set (snSuccs (node b' tl3))"
    using edge_in_grows [of b4 tl3 join b'] v4 src_ok_nonneg b' grows_edge by auto
  have ee: "0 \<le> el \<Longrightarrow> join \<in> set (snSuccs (node b' el))"
    using edge_in_grows [of ?b5 el join b'] v4(1) s4 src_ok_nonneg b' by auto
  have key: "\<exists>dst. walk b' cond t dst \<and> dest b2 join b' out dst \<and> (out = Fall \<longrightarrow> lst = join)"
    using assms(6)
  proof (elim disjE exE conjE)
    fix c assume c: "ChildByFieldName ''consequence'' stmt = Some c" "exec c t out"
    have "buildBranch rec addTrue c cond b2 = (tl3, b3)" using n3 c by simp
    from branch_dest [OF branch_true_covers [OF this w2 s2(3) _ c(2)] g3 h(6,7) et] assms(4) c(1) show ?thesis
      using lst by auto
  next
    fix c assume c: "elseBody stmt = Some c" "exec c t out"
    have r: "buildBranch rec addFalse c cond b3 = (el, b4)" using n4 c by simp
    from branch_dest [OF branch_false_covers [OF r steps_wf [OF s3(1)] v3(2) _ c(2)] g4 h(6,7) ee] assms(5) c(1) show ?thesis
      using lst dest_steps [OF s3(1)] by auto
  next
    assume n: "elseBody stmt = None" "t = []" "out = Fall"
    have "join \<in> set (snSuccs (node b' cond))"
      using n4 n(1) edge_in_grows [OF v3(2,1), of b'] g4 grows_trans [OF grows_addFalse] by auto
    from walk_edge [OF h(2) h(6) this] h(7) n lst show ?thesis by (auto simp: dest_def)
  qed
  then obtain dst where d: "walk b' cond t dst" "dest b2 join b' out dst" "out = Fall \<longrightarrow> lst = join" by blast
  have "dest b lst b' out dst" using d(2,3) by (cases "out = Fall") (auto simp: dest_def jumps_steps [OF s2(1)])
  with represents_edge [OF h(1), of b "stmt # t" t dst lst out f] h(3-5) d(1) show ?thesis by simp
qed

end

section \<open>Loops\<close>

lemma pair_fst: "(x, y) = (u, v) \<Longrightarrow> u = x" and pair_snd: "(x, y) = (u, v) \<Longrightarrow> v = y"
  by simp_all

context stmt_covers
begin

text \<open>A loop that tests first: the header, the join, and the node nx the body continues at.\<close>

lemma loop_covers:
  assumes "wf_builder b" "valid b src" "stmtNode stmt b = (hd1, b1)" "joinNode (edge src hd1 b1) = (join, b2)" "grows b2 b'"
    and "exec_loop exec stmt body upd leaves tr out"
    and "leaves \<Longrightarrow> join \<in> set (snSuccs (node b' hd1))" "next_node b' nx upd hd1"
    and "\<And>bd t o1. body = Some bd \<Longrightarrow> exec bd t o1 \<Longrightarrow> \<exists>x. walk b' hd1 t x \<and> body_dest b' nx join (cbExit b) o1 x"
  shows "represents b src join b' tr out f"
proof -
  note h = header_join_walk [OF assms(1-5)]
  have "\<exists>tr' dst. tr = stmt # tr' \<and> walk b' hd1 tr' dst \<and> loop_dest b' join (cbExit b) out dst"
    by (rule exec_loop_walk [OF assms(6) h(2,3,6,7)]) (fact assms)+
  then obtain tr' dst where "tr = stmt # tr'" "walk b' hd1 tr' dst" "loop_dest b' join (cbExit b) out dst" by blast
  with represents_edge [OF h(1), of b tr tr' dst join out f] h(3-5) loop_dest_dest show ?thesis by simp
qed

lemma buildIterMacroBody_covers:
  assumes "wf_builder b" "valid b src" "buildIterMacroBody rec stmt body src b = (lst, b')"
    and "ok body" "exec_loop exec stmt (Some body) [] True tr out"
  shows "represents b src lst b' tr out f"
proof -
  obtain hd1 b1 where n1: "stmtNode stmt b = (hd1, b1)" by fastforce
  obtain join b2 where n2: "joinNode (edge src hd1 b1) = (join, b2)" by fastforce
  obtain bl b3 where n3: "rec body hd1 (pushTargets join hd1 b2) = (bl, b3)" by fastforce
  note s2 = header_join [OF assms(1) valid_src_ok [OF assms(2)] n1 n2]
  have w: "wf_builder (pushTargets join hd1 b2)" using push_wf [OF steps_wf [OF s2(1)] s2(2,3)] .
  have vp: "valid (pushTargets join hd1 b2) hd1" using s2(3) by simp
  have s3: "steps (pushTargets join hd1 b2) b3" "src_ok b3 bl" using rec_ok [OF w valid_src_ok [OF vp] n3] by auto
  have v3: "valid b3 hd1" "valid b3 join" using steps_valid [OF s3(1)] s2(2,3) by simp_all
  let ?b5 = "if bl \<ge> 0 then edge bl hd1 (popTargets b3) else popTargets b3"
  have b': "b' = edge hd1 join ?b5" and lst: "lst = join"
    using assms(3) unfolding buildIterMacroBody_def Let_def n1 prod.case n2 n3 by (metis prod.inject)+
  have g3: "grows b3 b'" unfolding b' by (auto intro!: grows_after)
  have g2: "grows b2 b'" using grows_trans [OF grows_pop(3) grows_trans [OF steps_grows [OF s3(1)] g3]] .
  have e1: "join \<in> set (snSuccs (node b' hd1))" unfolding b' using v3 edge_in [of ?b5 hd1 join] by simp
  have e2: "hd1 \<in> set (snSuccs (node b' bl))" if "0 \<le> bl"
    using that edge_in_grows [of "popTargets b3" bl hd1 b'] src_ok_nonneg [OF s3(2)] v3(1) grows_edge unfolding b' by auto
  have c2: "cbExit b2 = cbExit b" using steps_grows [OF s2(1)] by (simp add: grows_def)
  have "\<exists>x. walk b' hd1 t x \<and> body_dest b' hd1 join (cbExit b) o1 x" if "Some body = Some bd" "exec bd t o1" for bd t o1
    using body_walk [OF covers [OF w vp assms(4) n3] g3 e2 refl] that c2 by auto
  then have "represents b src join b' tr out f"
    using loop_covers [OF assms(1,2) n1 n2 g2 assms(5), of hd1 f] e1 by (auto simp: next_node_def)
  then show ?thesis using lst by simp
qed

text \<open>The body of while and for: an optional statement built as the true branch of the header.\<close>

lemma option_body:
  assumes "wf_builder c" "valid c hd1" "valid c join" "valid c ct"
    and "(case body of None \<Rightarrow> (-1, pushTargets join ct c) | Some bd \<Rightarrow> buildBranch rec addTrue bd hd1 (pushTargets join ct c)) = (bl, d)"
    and "pred_option ok body" "grows d b'" "0 \<le> bl \<Longrightarrow> ct \<in> set (snSuccs (node b' bl))"
    and bd: "body = Some bd" and e: "exec bd t o1"
  shows "\<exists>x. walk b' hd1 t x \<and> body_dest b' ct join (cbExit c) o1 x"
proof -
  have w: "wf_builder (pushTargets join ct c)" using push_wf [OF assms(1,3,4)] .
  have vp: "valid (pushTargets join ct c) hd1" using assms(2) by simp
  have "buildBranch rec addTrue bd hd1 (pushTargets join ct c) = (bl, d)" "ok bd" using assms(5,6) bd by simp_all
  from body_walk [OF branch_true_covers [OF this(1) w vp this(2) e] assms(7,8) refl] show ?thesis .
qed

lemma option_body_ok:
  assumes "wf_builder c" "valid c hd1" "valid c join" "valid c ct"
    and "(case body of None \<Rightarrow> (-1, pushTargets join ct c) | Some bd \<Rightarrow> buildBranch rec addTrue bd hd1 (pushTargets join ct c)) = (bl, d)"
  shows "steps c (popTargets d)" "src_ok d bl" "grows c d"
proof -
  have w: "wf_builder (pushTargets join ct c)" using push_wf [OF assms(1,3,4)] .
  have "valid (pushTargets join ct c) hd1" using assms(2) by simp
  then have s: "steps (pushTargets join ct c) d" "src_ok d bl"
    using branch_true_ok [OF w] assms(5) by (auto split: option.splits simp: steps_refl [OF w])
  show "steps c (popTargets d)" "src_ok d bl" using push_pop_steps [OF s(1) assms(1)] s(2) by blast+
  show "grows c d" using grows_trans [OF grows_pop(3) steps_grows [OF s(1)]] .
qed

end

context stmt_covers
begin

lemma buildWhile_covers:
  assumes "wf_builder b" "valid b src" "buildWhileDo rec stmt src b = (lst, b')" "Kind stmt \<noteq> ''do_statement''"
    and "pred_option ok (ChildByFieldName ''body'' stmt)"
    and "exec_loop exec stmt (ChildByFieldName ''body'' stmt) [] (\<not> isConstantTrue (ChildByFieldName ''condition'' stmt)) tr out"
  shows "represents b src lst b' tr out f"
proof -
  obtain hd1 b1 where n1: "stmtNode stmt b = (hd1, b1)" by fastforce
  obtain join b2 where n2: "joinNode (edge src hd1 b1) = (join, b2)" by fastforce
  obtain bl b3 where n3: "(case ChildByFieldName ''body'' stmt of None \<Rightarrow> (-1, pushTargets join hd1 b2)
      | Some body \<Rightarrow> buildBranch rec addTrue body hd1 (pushTargets join hd1 b2)) = (bl, b3)" by fastforce
  note s2 = header_join [OF assms(1) valid_src_ok [OF assms(2)] n1 n2]
  note w2 = steps_wf [OF s2(1)]
  note s3 = option_body_ok [OF w2 s2(3,2,3) n3]
  have v3: "valid (popTargets b3) hd1" "valid (popTargets b3) join" using steps_valid [OF s3(1)] s2(2,3) by simp_all
  let ?b5 = "if bl \<ge> 0 then edge bl hd1 (popTargets b3) else popTargets b3"
  let ?c = "isConstantTrue (ChildByFieldName ''condition'' stmt)"
  have r: "(join, if \<not> ?c then addFalse hd1 join (edge hd1 join ?b5) else ?b5) = (lst, b')"
    using assms(3) unfolding buildWhileDo_def Let_def if_not_P [OF assms(4)] n1 prod.case n2 n3 .
  note b' = pair_snd [OF r] and lst = pair_fst [OF r]
  have g3: "grows b3 b'" unfolding b' by (auto intro!: grows_after)
  have g2: "grows b2 b'" using grows_trans [OF s3(3) g3] .
  have e1: "join \<in> set (snSuccs (node b' hd1))" if "\<not> ?c"
    using that edge_in_grows [of ?b5 hd1 join b'] v3 grows_addFalse unfolding b' by simp
  have e2: "hd1 \<in> set (snSuccs (node b' bl))" if "0 \<le> bl"
  proof -
    have "grows ?b5 b'" unfolding b' by (simp add: grows_trans [OF grows_edge grows_addFalse])
    then have g: "grows (edge bl hd1 (popTargets b3)) b'" using that by simp
    have "valid (popTargets b3) bl" using src_ok_nonneg [OF s3(2) that] by simp
    from edge_in_grows [OF this v3(1) g] show ?thesis .
  qed
  have c2: "cbExit b2 = cbExit b" using steps_grows [OF s2(1)] by (simp add: grows_def)
  note body = option_body [OF w2 s2(3,2,3) n3 assms(5) g3 e2, unfolded c2]
  have "represents b src join b' tr out f"
    by (rule loop_covers [OF assms(1,2) n1 n2 g2 assms(6) e1, of hd1]) (simp_all add: next_node_def body)
  then show ?thesis using lst by simp
qed

lemma buildFor_covers:
  assumes "wf_builder b" "valid b src" "buildFor rec stmt src b = (lst, b')"
    and "pred_option ok (ChildByFieldName ''initializer'' stmt)" "pred_option ok (ChildByFieldName ''body'' stmt)"
    and "case ChildByFieldName ''initializer'' stmt of None \<Rightarrow> t = [] | Some i \<Rightarrow> exec i t Fall"
    and "exec_loop exec stmt (ChildByFieldName ''body'' stmt)
          (case ChildByFieldName ''update'' stmt of None \<Rightarrow> [] | Some u \<Rightarrow> [u]) (ChildByFieldName ''condition'' stmt \<noteq> None) tr out"
  shows "represents b src lst b' (t @ tr) out (ChildByFieldName ''initializer'' stmt = None)"
proof -
  obtain hd1 b1 where n1: "stmtNode stmt b = (hd1, b1)" by fastforce
  obtain cur b2 where n2: "(case ChildByFieldName ''initializer'' stmt of None \<Rightarrow> (src, b1) | Some st \<Rightarrow> rec st src b1) = (cur, b2)"
    by fastforce
  obtain join b3 where n3: "joinNode (edge cur hd1 b2) = (join, b3)" by fastforce
  obtain upd b4 where n4: "(case ChildByFieldName ''update'' stmt of None \<Rightarrow> (-1, b3) | Some st \<Rightarrow> stmtNode st b3) = (upd, b4)"
    by fastforce
  let ?ct = "if upd \<ge> 0 then upd else hd1"
  obtain bl b5 where n5: "(case ChildByFieldName ''body'' stmt of None \<Rightarrow> (-1, pushTargets join ?ct b4)
      | Some body \<Rightarrow> buildBranch rec addTrue body hd1 (pushTargets join ?ct b4)) = (bl, b5)" by fastforce
  have s1: "steps b b1" "valid b1 hd1" using stmtNode_steps [OF n1 assms(1)] by auto
  have v1: "valid b1 src" using steps_valid [OF s1(1) assms(2)] .
  have s2: "steps b1 b2" "src_ok b2 cur"
    using option_build_ok [OF steps_wf [OF s1(1)] valid_src_ok [OF v1] n2] by auto
  have v2: "valid b2 hd1" using steps_valid [OF s2(1) s1(2)] .
  have s2e: "steps b2 (edge cur hd1 b2)" using s2 v2 edge_steps steps_wf by (simp add: valid_src_ok)
  have s3: "steps (edge cur hd1 b2) b3" "valid b3 join" using joinNode_steps [OF n3 steps_wf [OF s2e]] by auto
  have v3: "valid b3 hd1" using steps_valid [OF s3(1)] v2 by simp
  have s4: "steps b3 b4" "src_ok b4 upd" using option_stmt_ok [OF steps_wf [OF s3(1)] n4] by auto
  have v4: "valid b4 join" "valid b4 hd1" using s4 s3(2) v3 steps_valid by blast+
  have ct: "valid b4 ?ct" using s4(2) v4 src_ok_nonneg by simp
  note w4 = steps_wf [OF s4(1)]
  note s5 = option_body_ok [OF w4 v4(2,1) ct n5]
  have v5: "valid (popTargets b5) hd1" "valid (popTargets b5) join" "valid (popTargets b5) ?ct" "src_ok (popTargets b5) upd"
    using steps_valid [OF s5(1)] steps_src_ok [OF s5(1)] v4 ct s4(2) by blast+
  let ?b7 = "if upd \<ge> 0 then edge upd hd1 (popTargets b5) else popTargets b5"
  let ?b8 = "if bl \<ge> 0 then (if upd \<ge> 0 then edge bl upd ?b7 else edge bl hd1 ?b7) else ?b7"
  let ?cond = "ChildByFieldName ''condition'' stmt \<noteq> None"
  have r: "(join, if ?cond then addFalse hd1 join (edge hd1 join ?b8) else ?b8) = (lst, b')"
    using assms(3) unfolding buildFor_def Let_def n1 prod.case n2 n3 n4 n5 .
  note b' = pair_snd [OF r] and lst = pair_fst [OF r]
  have g8: "grows ?b8 b'" unfolding b' by (auto intro!: grows_after)
  have g7: "grows ?b7 b'" by (rule grows_trans [OF _ g8]) (auto intro!: grows_after)
  have g5: "grows b5 b'" by (rule grows_trans [OF _ g7]) (auto intro!: grows_after)
  have g4: "grows b4 b'" using grows_trans [OF s5(3) g5] .
  have g3: "grows b3 b'" using grows_trans [OF steps_grows [OF s4(1)] g4] .
  have ge: "grows (edge cur hd1 b2) b'" using grows_trans [OF steps_grows [OF s3(1)] g3] .
  have g2: "grows b2 b'" using grows_trans [OF grows_edge ge] .
  have g1: "grows b1 b'" using grows_trans [OF steps_grows [OF s2(1)] g2] .
  have h: "valid b' hd1" "label b' hd1 = [stmt]" "hd1 = nodeCount b"
    using grows_valid [OF g1 s1(2)] label_grows [OF g1 s1(2)] stmtNode_label [OF n1] by auto
  note j = join_walk [OF steps_wf [OF s2e] n3 g3]
  have e1: "join \<in> set (snSuccs (node b' hd1))" if ?cond
    using that edge_in_grows [of ?b8 hd1 join b'] v5 grows_addFalse unfolding b' by simp
  have e2: "?ct \<in> set (snSuccs (node b' bl))" if "0 \<le> bl"
  proof -
    have "grows (edge bl ?ct ?b7) b'" using g8 that by (simp split: if_splits)
    moreover have "valid ?b7 bl" using src_ok_nonneg [OF s5(2) that] by simp
    moreover have "valid ?b7 ?ct" using v5(3) by (auto split: if_splits)
    ultimately show ?thesis using edge_in_grows by blast
  qed
  have nx: "next_node b' ?ct (case ChildByFieldName ''update'' stmt of None \<Rightarrow> [] | Some u \<Rightarrow> [u]) hd1"
  proof (cases "ChildByFieldName ''update'' stmt")
    case None
    with n4 show ?thesis by (auto simp: next_node_def)
  next
    case (Some u)
    then have u: "stmtNode u b3 = (upd, b4)" using n4 by simp
    have v: "valid b4 upd" using stmtNode_steps [OF u steps_wf [OF s3(1)]] by simp
    have p: "0 \<le> upd" using valid_neg [OF v] .
    have "grows (edge upd hd1 (popTargets b5)) b'" using g7 p by simp
    then have "hd1 \<in> set (snSuccs (node b' upd))" using edge_in_grows v5(1) src_ok_nonneg [OF v5(4) p] by blast
    moreover have "label b' upd = [u]" using label_grows [OF g4 v] conjunct1 [OF stmtNode_label [OF u]] by simp
    ultimately show ?thesis using grows_valid [OF g4 v] p Some by (simp add: next_node_def)
  qed
  have c: "cbExit b4 = cbExit b"
    using steps_grows [OF steps_trans [OF s1(1) steps_trans [OF s2(1) steps_trans [OF s2e steps_trans [OF s3(1) s4(1)]]]]]
    by (simp add: grows_def)
  have body: "\<And>bd t o1. ChildByFieldName ''body'' stmt = Some bd \<Longrightarrow> exec bd t o1
      \<Longrightarrow> \<exists>x. walk b' hd1 t x \<and> body_dest b' ?ct join (cbExit b) o1 x"
    using option_body [OF w4 v4(2,1) ct n5 assms(5) g5 e2] unfolding c .
  have "\<exists>tr' dst. tr = stmt # tr' \<and> walk b' hd1 tr' dst \<and> loop_dest b' join (cbExit b) out dst"
    by (rule exec_loop_walk [OF assms(7) h(1,2) j e1 nx]) (simp_all add: body)
  then obtain tr' dst where l: "tr = stmt # tr'" "walk b' hd1 tr' dst" "loop_dest b' join (cbExit b) out dst" by blast
  have cur: "walk b' src t cur" "valid b2 cur" "ChildByFieldName ''initializer'' stmt = None \<longrightarrow> cur = src \<and> t = []"
  proof -
    have "walk b2 src t cur \<and> (ChildByFieldName ''initializer'' stmt = None \<longrightarrow> cur = src \<and> t = [])"
    proof (cases "ChildByFieldName ''initializer'' stmt")
      case None
      then have "cur = src" "b2 = b1" "t = []" using n2 assms(6) by simp_all
      then show ?thesis using walk.here [OF v1] by simp
    next
      case (Some i)
      then have "rec i src b1 = (cur, b2)" "exec i t Fall" "ok i" using n2 assms(4,6) by simp_all
      from covers [OF steps_wf [OF s1(1)] v1 this(3,1,2)] Some show ?thesis
        by (auto simp: represents_def dest_def)
    qed
    then show "walk b' src t cur" "valid b2 cur" "ChildByFieldName ''initializer'' stmt = None \<longrightarrow> cur = src \<and> t = []"
      using walk_grows g2 walk_valid by blast+
  qed
  have e: "hd1 \<in> set (snSuccs (node b' cur))" using edge_in_grows [OF cur(2) v2 ge] .
  have vc: "valid b' cur" using grows_valid [OF g2 cur(2)] .
  have d: "dest b lst b' out dst" using loop_dest_dest [OF l(3)] lst by simp
  have "walk b' cur tr dst" using walk.go [OF vc e l(2)] h(2) l(1) by simp
  from walk_append [OF cur(1) this] d show ?thesis
  proof (rule_tac representsI)
    assume "ChildByFieldName ''initializer'' stmt = None"
    with cur(3) have c: "cur = src" "t = []" by simp_all
    have "enter b' src hd1 tr dst" using vc e l(1,2) h(2) c(1) by (auto simp: enter_def)
    with c(2) h(3) show "enter b' src (nodeCount b) (t @ tr) dst" by simp
  qed
qed

end

text \<open>The loop that tests after the body: from the source and from the test, each execution of the body
  is a walk.\<close>

lemma exec_do_walk:
  assumes "exec_do ex s body tr out"
    and h: "valid b h" "label b h = [s]" and j: "valid b join" "label b join = []" "join \<in> set (snSuccs (node b h))"
    and body: "\<And>p t o1. p \<in> {src, h} \<Longrightarrow> exec_seq ex body t o1 \<Longrightarrow> \<exists>x. walk b p t x \<and> body_dest b h join ext o1 x"
    and p: "p \<in> {src, h}"
  shows "\<exists>dst. walk b p tr dst \<and> loop_dest b join ext out dst"
  using assms(1) p
proof (induction arbitrary: p rule: exec_do.induct)
  case (finish t out1)
  from body [OF finish(3,1)] finish(2) obtain x where x: "walk b p t x" "h \<in> set (snSuccs (node b x))"
    by (auto simp: body_dest_def)
  have "walk b p (t @ [s]) h" using walk_append [OF x(1) walk_edge [OF _ h(1) x(2)]] walk_valid [OF x(1)] h(2) by simp
  from walk_append [OF this walk_edge [OF h(1) j(1,3)]] j(2) show ?case by (auto simp: loop_dest_def)
next
  case (broke t)
  from body [OF broke(2,1)] obtain x where x: "walk b p t x" "join \<in> set (snSuccs (node b x))"
    by (auto simp: body_dest_def)
  from walk_append [OF x(1) walk_edge [OF _ j(1) x(2)]] walk_valid [OF x(1)] j(2) show ?case
    by (auto simp: loop_dest_def)
next
  case (leave t out)
  from body [OF leave(3,1)] leave(2) show ?case by (auto simp: body_dest_def loop_dest_def)
next
  case (again t out1 tr out)
  from body [OF again.prems again.hyps(1)] again.hyps(2) obtain x where x: "walk b p t x" "h \<in> set (snSuccs (node b x))"
    by (auto simp: body_dest_def)
  have w: "walk b p (t @ [s]) h" using walk_append [OF x(1) walk_edge [OF _ h(1) x(2)]] walk_valid [OF x(1)] h(2) by simp
  obtain dst where "walk b h tr dst" "loop_dest b join ext out dst" using again.IH [of h] by blast
  with walk_append [OF w] show ?case by force
qed

lemma doLoop_none: "find isStmtNode ss = None \<Longrightarrow> doLoop rec ss l f b = (l, f, False, b)"
  by (induction ss) (simp_all split: if_splits)

lemma exec_seq_none: "exec_seq ex ss t out \<Longrightarrow> find isStmtNode ss = None \<Longrightarrow> t = [] \<and> out = Fall"
  by (induction rule: exec_seq.induct) simp_all

context stmt_covers
begin

lemma doLoop_first: "0 \<le> first \<Longrightarrow> doLoop rec ss src first b = (lst, first', tm, b') \<Longrightarrow> first' = first"
  by (induction ss arbitrary: src b) (auto simp: buildDoLoopStep_def split: if_splits prod.splits)

text \<open>The statements of a do body: the fall-through execution ends at lst, and the first statement's
  entry is the node recorded as first.\<close>

lemma doLoop_covers:
  assumes "exec_seq exec stmts tr out" "wf_builder b" "valid b src" "src_ok b first" "all_stmts ok stmts"
    and "doLoop rec stmts src first b = (lst, first', tm, b')"
  shows "represents b src lst b' tr out (\<exists>c. find isStmtNode stmts = Some c \<and> entry_first c) \<and> (out = Fall \<longrightarrow> \<not> tm)
    \<and> (first < 0 \<and> (\<exists>c. find isStmtNode stmts = Some c \<and> entry_first c) \<longrightarrow> first' = nodeCount b)"
  using assms
proof (induction arbitrary: src b first rule: exec_seq.induct)
  case seqNil
  then show ?case using walk.here by (auto simp: represents_def dest_def)
next
  case (seqSkip s ss tr out)
  have "doLoop rec ss src first b = (lst, first', tm, b')" "all_stmts ok ss"
    using seqSkip.prems(4,5) seqSkip.hyps(1) by (simp_all add: all_stmts_def)
  from seqSkip.IH [OF seqSkip.prems(1-3) this(2,1)] seqSkip.hyps(1) show ?case by simp
next
  case (seqMore s t1 ss t2 out)
  obtain d c where r: "rec s src b = (d, c)" by fastforce
  let ?f = "if first < 0 \<and> nodeCount c > nodeCount b then nodeCount b else first"
  have ok: "ok s" "all_stmts ok ss" using seqMore.hyps(1) seqMore.prems(4) by (simp_all add: all_stmts_def)
  have sc: "steps b c" using rec_ok [OF seqMore.prems(1) valid_src_ok [OF seqMore.prems(2)] r] by simp
  have rep: "represents b src d c t1 Fall (entry_first s)"
    using covers [OF seqMore.prems(1,2) ok(1) r seqMore.hyps(2)] .
  have d: "valid c d" using represents_Fall [OF rep] .
  then have l: "doLoop rec ss d ?f c = (lst, first', tm, b')"
    using seqMore.prems(5) seqMore.hyps(1) r valid_neg [OF d] by (simp add: buildDoLoopStep_def)
  have f: "src_ok c ?f"
    using steps_src_ok [OF sc seqMore.prems(3)] valid_src_ok [OF valid_new_first [OF sc]] by simp
  note w = steps_wf [OF sc]
  have ih: "represents c d lst b' t2 out (\<exists>c. find isStmtNode ss = Some c \<and> entry_first c) \<and> (out = Fall \<longrightarrow> \<not> tm)"
    using seqMore.IH [OF w d f ok(2) l] by blast
  have "steps c b'" using doLoop_ok [OF w valid_src_ok [OF d] f l] by simp
  from represents_more [OF seqMore.prems(1,2) ok(1) r seqMore.hyps(2) sc this] ih
  have "represents b src lst b' (t1 @ t2) out (entry_first s)" by blast
  moreover have "first' = nodeCount b" if "first < 0" "entry_first s"
  proof -
    have "valid c (nodeCount b)" using rep that(2) walk_valid unfolding represents_def enter_def by blast
    then have "?f = nodeCount b" using that(1) by (simp add: valid_def nodeCount_def)
    then show ?thesis using doLoop_first [OF _ l] by (simp add: nodeCount_def)
  qed
  ultimately show ?case using ih seqMore.hyps(1) by simp
next
  case (seqStop s tr out ss)
  obtain d c where r: "rec s src b = (d, c)" by fastforce
  let ?f = "if first < 0 \<and> nodeCount c > nodeCount b then nodeCount b else first"
  have ok: "ok s" using seqStop.hyps(1) seqStop.prems(4) by (simp add: all_stmts_def)
  have sc: "steps b c" "src_ok c d" using rec_ok [OF seqStop.prems(1) valid_src_ok [OF seqStop.prems(2)] r] by simp_all
  have f: "src_ok c ?f"
    using steps_src_ok [OF sc(1) seqStop.prems(3)] valid_src_ok [OF valid_new_first [OF sc(1)]] by simp
  have rep: "represents b src d c tr out (entry_first s)" using covers [OF seqStop.prems(1,2) ok r seqStop.hyps(2)] .
  have l: "first' = ?f \<and> b' = c \<or> doLoop rec ss d ?f c = (lst, first', tm, b')"
    using seqStop.prems(5) seqStop.hyps(1) r by (auto simp: buildDoLoopStep_def split: if_splits)
  then have "steps c b'" using steps_refl [OF steps_wf [OF sc(1)]] doLoop_ok [OF steps_wf [OF sc(1)] sc(2) f] by blast
  then have "represents b src lst b' tr out (entry_first s)"
    using represents_steps [OF represents_lst [OF rep seqStop.hyps(3)]] by blast
  moreover have "first' = nodeCount b" if "first < 0" "entry_first s"
  proof -
    have "valid c (nodeCount b)" using rep that(2) walk_valid unfolding represents_def enter_def by blast
    then have "?f = nodeCount b" using that(1) by (simp add: valid_def nodeCount_def)
    then show ?thesis using l doLoop_first [of "nodeCount b" ss d c] by (auto simp: nodeCount_def)
  qed
  ultimately show ?case using seqStop.hyps by simp
qed

end

context stmt_covers
begin

lemma buildDo_covers:
  assumes "wf_builder b" "valid b src" "buildDo rec stmt src b = (lst, b')"
    and bd: "ChildByFieldName ''body'' stmt = Some bd" "starts_well (NamedChildren bd)" "all_stmts ok (NamedChildren bd)"
    and "exec_do exec stmt (NamedChildren bd) tr out"
  shows "represents b src lst b' tr out False"
proof -
  obtain cond b1 where n1: "stmtNode stmt b = (cond, b1)" by fastforce
  obtain join b2 where n2: "joinNode b1 = (join, b2)" by fastforce
  let ?push = "pushTargets join cond b2"
  obtain l f tm b3 where n3: "doLoop rec (NamedChildren bd) src (-1) ?push = (l, f, tm, b3)" by (metis prod_cases4)
  have s1: "steps b b1" "valid b1 cond" using stmtNode_steps [OF n1 assms(1)] by auto
  have s2: "steps b1 b2" "valid b2 join" using joinNode_steps [OF n2 steps_wf [OF s1(1)]] by auto
  have v2: "valid b2 cond" "valid b2 src" using s1 s2(1) assms(2) steps_valid by blast+
  have w: "wf_builder ?push" using push_wf [OF steps_wf [OF s2(1)] s2(2) v2(1)] .
  have vs: "valid ?push src" using v2(2) by simp
  have s3: "steps ?push b3" "src_ok b3 l" "src_ok b3 f"
    using doLoop_ok [OF w valid_src_ok [OF vs] src_ok_minus n3] by auto
  have v3: "valid b3 cond" "valid b3 join" using steps_valid [OF s3(1)] v2 s2(2) by simp_all
  let ?first = "if f < 0 then cond else f"
  let ?b5 = "if \<not> tm then edge l cond (popTargets b3) else popTargets b3"
  let ?b6 = "edge cond join (edge cond ?first ?b5)"
  have r: "(join, addFalse cond join (addTrue cond ?first ?b6)) = (lst, b')"
    using assms(3) unfolding buildDo_def Let_def n1 prod.case n2 bd(1) option.case n3 .
  note b' = pair_snd [OF r] and lst = pair_fst [OF r]
  have g6: "grows ?b6 b'" unfolding b' by (intro grows_after)
  have g56: "grows (edge cond ?first ?b5) b'" by (rule grows_trans [OF grows_edge g6])
  have g5: "grows ?b5 b'" by (rule grows_trans [OF grows_edge g56])
  have g3: "grows b3 b'" by (rule grows_trans [OF _ g5]) (auto intro!: grows_after)
  have g2: "grows b2 b'" using grows_trans [OF grows_pop(3) grows_trans [OF steps_grows [OF s3(1)] g3]] .
  have g1: "grows b1 b'" using grows_trans [OF steps_grows [OF s2(1)] g2] .
  have h: "valid b' cond" "label b' cond = [stmt]"
    using grows_valid [OF g1 s1(2)] label_grows [OF g1 s1(2)] conjunct1 [OF stmtNode_label [OF n1]] by simp_all
  note j = join_walk [OF steps_wf [OF s1(1)] n2 g2]
  have v5: "valid ?b5 cond" "valid ?b5 join" "valid ?b5 ?first"
    using v3 src_ok_nonneg [OF s3(3)] by simp_all
  have e1: "join \<in> set (snSuccs (node b' cond))" using edge_in_grows [of "edge cond ?first ?b5" cond join b'] v5 g6 by simp
  have e2: "?first \<in> set (snSuccs (node b' cond))" by (rule edge_in_grows [OF v5(1,3) g56])
  have e3: "cond \<in> set (snSuccs (node b' l))" if "\<not> tm" "0 \<le> l"
    using edge_in_grows [of "popTargets b3" l cond b'] src_ok_nonneg [OF s3(2) that(2)] v3(1) g5 that(1) by simp
  have c2: "cbExit b2 = cbExit b" using steps_grows [OF steps_trans [OF s1(1) s2(1)]] by (simp add: grows_def)
  have body: "\<exists>x. walk b' p t x \<and> body_dest b' cond join (cbExit b) o1 x"
    if e: "exec_seq exec (NamedChildren bd) t o1" and p: "p \<in> {src, cond}" for p t o1
  proof -
    let ?fs = "\<exists>c. find isStmtNode (NamedChildren bd) = Some c \<and> entry_first c"
    have d: "represents ?push src l b3 t o1 ?fs" "o1 = Fall \<Longrightarrow> \<not> tm" "?fs \<Longrightarrow> f = nodeCount b2"
      using doLoop_covers [OF e w vs src_ok_minus bd(3) n3] by simp_all
    show ?thesis
    proof (cases "find isStmtNode (NamedChildren bd)")
      case None
      then have t: "t = []" "o1 = Fall" using exec_seq_none [OF e] by simp_all
      have n: "l = src" "f = -1" using n3 doLoop_none [OF None] by simp_all
      have vl: "valid b3 l" using represents_Fall d(1) t(2) by blast
      then have ps: "cond \<in> set (snSuccs (node b' src))" using e3 d(2) t(2) n(1) valid_neg by blast
      have pc: "cond \<in> set (snSuccs (node b' cond))" using e2 n(2) by simp
      have "valid b' src" using grows_valid [OF g2 v2(2)] .
      then show ?thesis using t p ps pc walk.here h(1) by (auto simp: body_dest_def)
    next
      case (Some c)
      then have fs: ?fs using bd(2) by (simp add: starts_well_def)
      from d(1) fs obtain x where x: "dest ?push l b3 o1 x" "enter b3 src (nodeCount b2) t x"
        unfolding represents_def by auto
      have en: "enter b' src (nodeCount b2) t x" using enter_grows [OF x(2) g3] .
      have "nodeCount b2 \<in> set (snSuccs (node b' cond))"
        using e2 d(3) [OF fs] by (simp add: nodeCount_def)
      from enter_walk [OF en] enter_walk [OF enter_from [OF en h(1) this]] p have wk: "walk b' p t x" by blast
      have v: "valid b3 x" using walk_valid [OF enter_walk [OF x(2)]] by simp
      have "dest ?push l b' o1 x" using dest_grows [OF x(1) v g3] .
      then have "body_dest b' cond join (cbExit b) o1 x"
        using c2 e3 d(2) valid_neg [OF v] by (cases o1) (auto simp: dest_def jumps_def body_dest_def)
      with wk show ?thesis by blast
    qed
  qed
  have "\<exists>dst. walk b' src tr dst \<and> loop_dest b' join (cbExit b) out dst"
    by (rule exec_do_walk [OF assms(7) h j e1]) (use body in blast)+
  then show ?thesis unfolding represents_def lst using loop_dest_dest by blast
qed

end

section \<open>Switches\<close>

text \<open>The block of a case in the finished graph: p holds the targets of the switch, h is its header,
  f and l are the first node and the fall-through recorded for the case.\<close>

definition block_ok :: "cfgBuilder \<Rightarrow> cfgBuilder \<Rightarrow> int \<Rightarrow> int \<times> int \<Rightarrow> Node \<Rightarrow> bool" where
  "block_ok b p h fl c \<longleftrightarrow>
     (\<forall>t out. exec_seq exec (NamedChildren c) t out \<longrightarrow>
        (find isStmtNode (NamedChildren c) = None \<and> fst fl < 0)
        \<or> (0 \<le> fst fl \<and> (\<exists>x. enter b h (fst fl) t x \<and> dest p (snd fl) b out x)))"

text \<open>The fall-through edges between the cases that follow: prev is the fall-through before them.\<close>

fun linked :: "cfgBuilder \<Rightarrow> int \<Rightarrow> (int \<times> int) list \<Rightarrow> int \<Rightarrow> bool" where
  "linked b prev [] lst \<longleftrightarrow> lst = prev"
| "linked b prev ((f, l) # cs) lst \<longleftrightarrow>
     (if f < 0 then linked b prev cs lst
      else (0 \<le> prev \<longrightarrow> f \<in> set (snSuccs (node b prev))) \<and> linked b l cs lst)"

lemma block_ok_grows: "block_ok b p h fl c \<Longrightarrow> grows b b' \<Longrightarrow> block_ok b' p h fl c"
proof -
  assume ok: "block_ok b p h fl c" and g: "grows b b'"
  have "enter b' h f t x \<and> dest p l b' out x" if "enter b h f t x" "dest p l b out x" for f l t out x
    using enter_grows [OF that(1) g] dest_grows [OF that(2) _ g] walk_valid [OF enter_walk [OF that(1)]] by blast
  then show ?thesis using ok unfolding block_ok_def by blast
qed

lemma linked_drop: "linked b prev cs lst \<Longrightarrow> \<exists>prev'. linked b prev' (drop k cs) lst"
proof (induction cs arbitrary: k prev)
  case (Cons fl cs)
  then show ?case by (cases k; cases fl) (auto split: if_splits)
qed simp

lemma caseEdges_linked:
  assumes "caseEdges prev cs c = (lst, d)" "grows d b'" "src_ok c prev" "\<forall>(f, l) \<in> set cs. src_ok c f \<and> src_ok c l"
  shows "linked b' prev cs lst \<and> grows c d"
  using assms
proof (induction cs arbitrary: prev c)
  case (Cons fl cs)
  obtain f l where fl: "fl = (f, l)" by fastforce
  show ?case
  proof (cases "f < 0")
    case True
    with Cons fl show ?thesis by auto
  next
    case False
    let ?c = "if prev \<ge> 0 then edge prev f c else c"
    have r: "caseEdges l cs ?c = (lst, d)" using Cons.prems(1) fl False by simp
    have "src_ok ?c l" "\<forall>(f, l) \<in> set cs. src_ok ?c f \<and> src_ok ?c l" using Cons.prems(4) fl by auto
    from Cons.IH [OF r Cons.prems(2) this] have ih: "linked b' l cs lst" "grows ?c d" by simp_all
    have "grows c ?c" by (simp add: grows_edge)
    then have g: "grows c d" using ih(2) grows_trans by blast
    have "f \<in> set (snSuccs (node b' prev))" if "0 \<le> prev"
    proof -
      have "valid c prev" "valid c f"
        using Cons.prems(3,4) fl False that src_ok_nonneg by auto
      moreover have "grows (edge prev f c) b'" using ih(2) that grows_trans [OF _ Cons.prems(2)] by simp
      ultimately show ?thesis using edge_in_grows by blast
    qed
    then show ?thesis using ih(1) g fl False by simp
  qed
qed simp

lemma exec_seq_append:
  "exec_seq ex (xs @ ys) tr out \<Longrightarrow>
     (\<exists>t1 t2. tr = t1 @ t2 \<and> exec_seq ex xs t1 Fall \<and> exec_seq ex ys t2 out) \<or> (exec_seq ex xs tr out \<and> out \<noteq> Fall)"
proof (induction xs arbitrary: tr)
  case Nil
  then show ?case using exec_seq.seqNil by fastforce
next
  case (Cons s xs)
  from Cons.prems have "exec_seq ex (s # xs @ ys) tr out" by simp
  then show ?case
  proof (cases rule: exec_seq.cases)
    case seqSkip
    with Cons.IH show ?thesis using exec_seq.seqSkip by metis
  next
    case (seqMore t1 t2)
    with Cons.IH [of t2] show ?thesis using exec_seq.seqMore by (metis append.assoc)
  next
    case seqStop
    then show ?thesis using exec_seq.seqStop by metis
  qed
qed

lemma switch_walk:
  assumes "list_all2 (block_ok b p h) fls cs" "linked b prev fls lst" "exec_seq exec (concat (map NamedChildren cs)) tr out"
    and "valid b join" "label b join = []" "0 \<le> lst \<Longrightarrow> join \<in> set (snSuccs (node b lst))"
    and "(q = prev \<and> valid b prev) \<or> (q = h \<and> cs \<noteq> [] \<and> list_ex isStmtNode (NamedChildren (last cs)))"
  shows "\<exists>x. walk b q tr x \<and> dest p join b out x"
  using assms(1-3,7)
proof (induction fls cs arbitrary: prev q tr rule: list_all2_induct)
  case Nil
  then have q: "q = prev" "valid b prev" "lst = prev" "tr = []" "out = Fall" using exec_seq_none [of exec "[]"] by auto
  have "join \<in> set (snSuccs (node b prev))" using assms(6) q(3) valid_neg [OF q(2)] by simp
  then show ?case using walk_edge [OF q(2) assms(4)] assms(5) q by (auto simp: dest_def)
next
  case (Cons fl fls c cs)
  obtain f l where fl: "fl = (f, l)" by fastforce
  have seq: "exec_seq exec (NamedChildren c @ concat (map NamedChildren cs)) tr out" using Cons.prems(2) by simp
  from exec_seq_append [OF this] obtain t1 o1 where e1: "exec_seq exec (NamedChildren c) t1 o1"
    and rest: "(o1 = Fall \<and> (\<exists>t2. tr = t1 @ t2 \<and> exec_seq exec (concat (map NamedChildren cs)) t2 out)) \<or>
      (tr = t1 \<and> out = o1 \<and> o1 \<noteq> Fall)" by blast
  from e1 Cons.hyps(1) fl consider
      (none) "find isStmtNode (NamedChildren c) = None" "f < 0"
    | (some) x where "0 \<le> f" "enter b h f t1 x" "dest p l b o1 x"
    unfolding block_ok_def by fastforce
  then show ?case
  proof cases
    case none
    have t: "t1 = []" "o1 = Fall" using exec_seq_none [OF e1 none(1)] by simp_all
    then have "exec_seq exec (concat (map NamedChildren cs)) tr out" using rest by auto
    moreover have "linked b prev fls lst" using Cons.prems(1) fl none(2) by simp
    moreover have "\<not> list_ex isStmtNode (NamedChildren c)" using none(1) by (auto simp: find_None_iff list_ex_iff)
    then have "(q = prev \<and> valid b prev) \<or> (q = h \<and> cs \<noteq> [] \<and> list_ex isStmtNode (NamedChildren (last cs)))"
      using Cons.prems(3) by (auto split: if_splits)
    ultimately show ?thesis using Cons.IH by blast
  next
    case (some x)
    have lk: "0 \<le> prev \<longrightarrow> f \<in> set (snSuccs (node b prev))" "linked b l fls lst" using Cons.prems(1) fl some(1) by simp_all
    have w: "walk b q t1 x" using Cons.prems(3) enter_walk [OF some(2)] enter_walk [OF enter_from [OF some(2), of prev]] lk(1) valid_neg
      by blast
    show ?thesis
    proof (cases "o1 = Fall")
      case True
      then have x: "x = l" "valid b l" using some(3) walk_valid [OF w] by (simp_all add: dest_def)
      obtain t2 where t2: "tr = t1 @ t2" "exec_seq exec (concat (map NamedChildren cs)) t2 out" using rest True by blast
      from Cons.IH [OF lk(2) t2(2)] x(2) obtain y where "walk b l t2 y" "dest p join b out y" by blast
      then show ?thesis using walk_append [OF w] t2(1) x(1) by blast
    next
      case False
      then show ?thesis using rest some(3) w dest_lst by blast
    qed
  qed
qed

lemma blockLoop_none: "find isStmtNode ss = None \<Longrightarrow> blockLoop rec ss src False det b = (src, b)"
  by (induction ss) (simp_all split: if_splits)

context stmt_covers
begin

lemma case_block:
  assumes "buildBlock rec c h b = (l, d)" "wf_builder b" "valid b h" "steps p b"
    and "starts_well (NamedChildren c)" "all_stmts ok (NamedChildren c)"
  shows "block_ok d p h (if nodeCount b < nodeCount d then nodeCount b else -1, l) c"
  unfolding block_ok_def
proof (intro allI impI)
  fix t out
  let ?fl = "(if nodeCount b < nodeCount d then nodeCount b else -1, l)"
  assume e: "exec_seq exec (NamedChildren c) t out"
  show "(find isStmtNode (NamedChildren c) = None \<and> fst ?fl < 0)
      \<or> (0 \<le> fst ?fl \<and> (\<exists>x. enter d h (fst ?fl) t x \<and> dest p (snd ?fl) d out x))"
  proof (cases "find isStmtNode (NamedChildren c)")
    case None
    then have "d = b" using assms(1) blockLoop_none [OF None] by (simp add: buildBlock_def)
    with None show ?thesis by simp
  next
    case (Some s)
    with assms(5) have "entry_first s" by (simp add: starts_well_def)
    with buildBlock_covers [OF e assms(2,3,6,1)] Some obtain x
      where x: "dest b l d out x" "enter d h (nodeCount b) t x"
      unfolding represents_def by auto
    have "valid d (nodeCount b)" using x(2) walk_valid unfolding enter_def by blast
    then have "nodeCount b < nodeCount d" by (simp add: valid_def nodeCount_def)
    with x dest_steps [OF assms(4)] show ?thesis by (auto simp: nodeCount_def)
  qed
qed

lemma switchCases_covers:
  assumes "wf_builder b" "valid b h" "steps p b" "switchCases rec h cs cases df b = (cases', df', b')"
    and "list_all (\<lambda>c. starts_well (NamedChildren c) \<and> all_stmts ok (NamedChildren c)) (filter (\<lambda>c. Kind c = ''case_statement'') cs)"
  shows "(\<exists>news. cases' = cases @ news \<and> list_all2 (block_ok b' p h) news (filter (\<lambda>c. Kind c = ''case_statement'') cs))
    \<and> df' = (df \<or> list_ex isDefaultCase (filter (\<lambda>c. Kind c = ''case_statement'') cs)) \<and> steps b b'"
  using assms
proof (induction cs arbitrary: cases df b)
  case Nil
  then show ?case by (auto intro: steps_refl)
next
  case (Cons c cs)
  show ?case
  proof (cases "Kind c = ''case_statement''")
    case False
    with Cons show ?thesis by simp
  next
    case True
    obtain l d where r: "buildBlock rec c h b = (l, d)" by fastforce
    have s: "steps b d" using buildBlock_ok [OF Cons.prems(1) valid_src_ok [OF Cons.prems(2)] r] by simp
    let ?f = "if nodeCount b < nodeCount d then nodeCount b else -1"
    have l: "switchCases rec h cs (cases @ [(?f, l)]) (if isDefaultCase c then True else df) d = (cases', df', b')"
      using Cons.prems(4) True r by simp
    have ok: "starts_well (NamedChildren c)" "all_stmts ok (NamedChildren c)"
      "list_all (\<lambda>c. starts_well (NamedChildren c) \<and> all_stmts ok (NamedChildren c)) (filter (\<lambda>c. Kind c = ''case_statement'') cs)"
      using Cons.prems(5) True by simp_all
    from Cons.IH [OF steps_wf [OF s] steps_valid [OF s Cons.prems(2)] steps_trans [OF Cons.prems(3) s] l ok(3)]
    obtain news where n: "cases' = (cases @ [(?f, l)]) @ news"
        "list_all2 (block_ok b' p h) news (filter (\<lambda>c. Kind c = ''case_statement'') cs)" "steps d b'"
        "df' = ((if isDefaultCase c then True else df) \<or> list_ex isDefaultCase (filter (\<lambda>c. Kind c = ''case_statement'') cs))"
      by blast
    have "block_ok b' p h (?f, l) c"
      using block_ok_grows [OF case_block [OF r Cons.prems(1-3) ok(1,2)] steps_grows [OF n(3)]] .
    then have "list_all2 (block_ok b' p h) ((?f, l) # news) (filter (\<lambda>c. Kind c = ''case_statement'') (c # cs))"
      using n(2) True by simp
    moreover have "cases' = cases @ (?f, l) # news" using n(1) by simp
    moreover have "df' = (df \<or> list_ex isDefaultCase (filter (\<lambda>c. Kind c = ''case_statement'') (c # cs)))"
      using n(4) True by auto
    ultimately show ?thesis using steps_trans [OF s n(3)] by blast
  qed
qed

lemma buildSwitch_covers:
  assumes "wf_builder b" "valid b src" "buildSwitch rec stmt src b = (lst, b')"
    and shape: "pred_option (\<lambda>bd. switch_shaped ok (casesOf bd)) (ChildByFieldName ''body'' stmt)"
    and e: "(\<exists>bd k o1. ChildByFieldName ''body'' stmt = Some bd \<and> k < length (casesOf bd) \<and> out = unbreak o1
          \<and> exec_seq exec (concat (map NamedChildren (drop k (casesOf bd)))) t o1)
      \<or> t = [] \<and> out = Fall \<and> (ChildByFieldName ''body'' stmt = None \<or>
           (\<exists>bd. ChildByFieldName ''body'' stmt = Some bd \<and> \<not> list_ex isDefaultCase (casesOf bd)))"
  shows "represents b src lst b' (stmt # t) out f"
proof -
  obtain hd1 b1 where n1: "stmtNode stmt b = (hd1, b1)" by fastforce
  obtain join b2 where n2: "joinNode (edge src hd1 b1) = (join, b2)" by fastforce
  note s2 = header_join [OF assms(1) valid_src_ok [OF assms(2)] n1 n2]
  note w2 = steps_wf [OF s2(1)]
  have "lst = join \<and> grows b2 b' \<and> (\<exists>x. walk b' hd1 t x \<and> dest b lst b' out x)"
  proof (cases "ChildByFieldName ''body'' stmt")
    case None
    have r: "(join, edge hd1 join b2) = (lst, b')"
      using assms(3) unfolding buildSwitch_def n1 prod.case n2 None option.case .
    note b' = pair_snd [OF r] and lst = pair_fst [OF r]
    have g: "grows b2 b'" unfolding b' by (rule grows_edge)
    note h = header_join_walk [OF assms(1,2) n1 n2 g]
    have "walk b' hd1 [] join" using walk_edge [OF h(2,6)] edge_in [OF s2(3,2)] h(7) unfolding b' by simp
    moreover have "t = []" "out = Fall" using e None by auto
    ultimately show ?thesis using lst g by (auto simp: dest_def)
  next
    case (Some body)
    let ?p = "b2\<lparr>cbBreak := join # cbBreak b2\<rparr>"
    have wp: "wf_builder ?p" using push_break_wf [OF w2 s2(2)] .
    have vp: "\<And>i. valid ?p i = valid b2 i" by (simp add: valid_def)
    have gp: "grows b2 ?p" using node_cong [of ?p b2] by (simp add: grows_def)
    obtain cases df b3 where n3: "switchCases rec hd1 (NamedChildren body) [] False ?p = (cases, df, b3)" by (metis prod_cases3)
    have sh: "list_all (\<lambda>c. starts_well (NamedChildren c) \<and> all_stmts ok (NamedChildren c))
        (filter (\<lambda>c. Kind c = ''case_statement'') (NamedChildren body))"
      "casesOf body \<noteq> [] \<Longrightarrow> list_ex isStmtNode (NamedChildren (last (casesOf body)))"
      using shape Some by (auto simp: switch_shaped_def casesOf_def)
    have sw: "list_all2 (block_ok b3 ?p hd1) cases (casesOf body)" "df = list_ex isDefaultCase (casesOf body)"
      using switchCases_covers [OF wp _ steps_refl [OF wp] n3 sh(1)] vp s2(3) by (simp_all add: casesOf_def)
    have s3: "steps ?p b3" "\<forall>(f, l) \<in> set cases. src_ok b3 f \<and> src_ok b3 l"
      using switchCases_ok [OF wp _ _ n3] s2(3) vp by auto
    obtain l b4 where n4: "(case cases of [] \<Rightarrow> (-1, b3) | (first, lst) # cs \<Rightarrow> caseEdges lst cs b3) = (l, b4)" by fastforce
    let ?b5 = "if l \<ge> 0 then edge l join b4 else b4"
    let ?b6 = "if \<not> df then edge hd1 join ?b5 else ?b5"
    have r: "(join, ?b6\<lparr>cbBreak := tl (cbBreak ?b6)\<rparr>) = (lst, b')"
      using assms(3) unfolding buildSwitch_def Let_def n1 prod.case n2 Some option.case n3 n4 .
    note b' = pair_snd [OF r] and lst = pair_fst [OF r]
    have g6: "grows ?b6 b'" unfolding b' using node_cong [of "?b6\<lparr>cbBreak := tl (cbBreak ?b6)\<rparr>" ?b6] by (simp add: grows_def)
    have g5: "grows ?b5 b'" by (rule grows_trans [OF _ g6]) (auto intro!: grows_after)
    have g4: "grows b4 b'" by (rule grows_trans [OF _ g5]) (auto intro!: grows_after)
    have g34: "grows b3 b4"
      using n4 caseEdges_linked [of _ _ b3 l b4 b4] s3(2) by (auto split: list.splits)
    have g3: "grows b3 b'" using grows_trans [OF g34 g4] .
    have g2: "grows b2 b'" using grows_trans [OF gp grows_trans [OF steps_grows [OF s3(1)] g3]] .
    note h = header_join_walk [OF assms(1,2) n1 n2 g2]
    have v4: "valid b4 hd1" "valid b4 join"
      using s2(2,3) vp steps_valid [OF s3(1)] grows_valid [OF g34] by simp_all
    have lk: "\<exists>prev. linked b' prev cases l" and sl: "src_ok b4 l"
    proof -
      have "(\<exists>prev. linked b' prev cases l) \<and> src_ok b4 l"
      proof (cases cases)
        case Nil
        with n4 have "l = -1" by simp
        with Nil show ?thesis by simp
      next
        case (Cons fl cs)
        obtain f0 l0 where fl: "fl = (f0, l0)" by fastforce
        have ce: "caseEdges l0 cs b3 = (l, b4)" using n4 Cons fl by simp
        have ok: "src_ok b3 l0" "\<forall>(f, l) \<in> set cs. src_ok b3 f \<and> src_ok b3 l" using s3(2) Cons fl by auto
        have "linked b' l0 cs l" using caseEdges_linked [OF ce g4 ok] by simp
        then have "linked b' (if f0 < 0 then l0 else -1) cases l" using Cons fl by simp
        moreover have "src_ok b4 l" using caseEdges_ok [OF s3(1) ok ce] by simp
        ultimately show ?thesis by blast
      qed
      then show "\<exists>prev. linked b' prev cases l" "src_ok b4 l" by blast+
    qed
    have ej: "join \<in> set (snSuccs (node b' l))" if "0 \<le> l"
      using edge_in_grows [of b4 l join b'] src_ok_nonneg [OF sl that] v4(2) g5 that by simp
    show ?thesis
      using e
    proof (elim disjE exE conjE)
      fix bd k o1
      assume k: "ChildByFieldName ''body'' stmt = Some bd" "k < length (casesOf bd)" "out = unbreak o1"
        "exec_seq exec (concat (map NamedChildren (drop k (casesOf bd)))) t o1"
      have bd: "bd = body" using k(1) Some by simp
      have "list_all2 (block_ok b' ?p hd1) cases (casesOf body)"
        using sw(1) by (rule list_all2_mono) (rule block_ok_grows [OF _ g3])
      then have bl: "list_all2 (block_ok b' ?p hd1) (drop k cases) (drop k (casesOf body))" by (rule list_all2_dropI)
      obtain prev where prev: "linked b' prev (drop k cases) l" using lk linked_drop by blast
      have "(hd1 = prev \<and> valid b' prev) \<or> (hd1 = hd1 \<and> drop k (casesOf body) \<noteq> []
          \<and> list_ex isStmtNode (NamedChildren (last (drop k (casesOf body)))))"
      proof -
        have "casesOf body \<noteq> []" "drop k (casesOf body) \<noteq> []" using k(2) bd by auto
        then show ?thesis using k(2) bd sh(2) by (simp add: last_drop)
      qed
      from switch_walk [OF bl prev _ h(6,7) ej this] k(4) bd
      obtain x where x: "walk b' hd1 t x" "dest ?p join b' o1 x" by blast
      have v: "valid b' x" using walk_valid [OF x(1)] by simp
      have "\<exists>y. walk b' hd1 t y \<and> dest b join b' (unbreak o1) y"
      proof (cases "o1 = Broke")
        case True
        with x(2) have "join \<in> set (snSuccs (node b' x))" by (simp add: dest_def jumps_def breakTarget_def)
        from walk_append [OF x(1) walk_edge [OF v h(6) this]] h(7) True show ?thesis
          by (auto simp: dest_def unbreak_def)
      next
        case False
        have "jumps b o1 u \<Longrightarrow> jumps ?p o1 u" for u
          using False jumps_steps [OF s2(1), of o1 u] by (cases o1) (auto simp: jumps_def contTarget_def split: list.split)
        then have "dest b join b' o1 x" using x(2) by (auto simp: dest_def split: if_splits)
        with x(1) False show ?thesis by (auto simp: unbreak_def)
      qed
      then show ?thesis using lst g2 k(3) by blast
    next
      assume "ChildByFieldName ''body'' stmt = None"
      with Some show ?thesis by simp
    next
      fix bd assume n: "t = []" "out = Fall" "ChildByFieldName ''body'' stmt = Some bd" "\<not> list_ex isDefaultCase (casesOf bd)"
      then have "\<not> df" using sw(2) Some by simp
      then have "join \<in> set (snSuccs (node b' hd1))"
        using edge_in_grows [of ?b5 hd1 join b'] v4 g6 by simp
      from walk_edge [OF h(2,6) this] h(7) n lst g2 show ?thesis by (auto simp: dest_def)
    qed
  qed
  then obtain x where x: "lst = join" "grows b2 b'" "walk b' hd1 t x" "dest b lst b' out x" by blast
  note h = header_join_walk [OF assms(1,2) n1 n2 x(2)]
  show ?thesis using represents_edge [OF h(1), of b "stmt # t" t x lst out f] h(3-5) x(3,4) by simp
qed

end

section \<open>Preprocessor alternatives\<close>

lemma preprocBranches_stmts:
  assumes "preprocBranches cs branches cur els = (brs, els')" "list_all (list_all isStmtNode) branches" "list_all isStmtNode cur"
  shows "list_all (list_all isStmtNode) brs"
  using assms
proof (induction cs branches cur els rule: preprocBranches.induct)
  case (2 c cs branches cur els)
  have col: "list_all isStmtNode (collectPreprocBranch c)" by (simp add: collectPreprocBranch_def list_all_iff)
  have br: "list_all (list_all isStmtNode) (branches @ [cur])" "list_all isStmtNode (if isStmtNode c then cur @ [c] else cur)"
    using 2(5,6) by simp_all
  show ?case using 2 col br by (cases "Kind c = ''preproc_elif''"; cases "Kind c = ''preproc_else''") simp_all
qed auto

lemma buildAlternatives_grows_fall: "buildAlternatives rec src join brs True c = (fall', b') \<Longrightarrow> fall'"
  by (induction brs arbitrary: c) (auto split: if_splits prod.splits)

context stmt_covers
begin

lemma buildAlternatives_covers:
  assumes "steps b c" "valid c src" "valid c join" "label c join = []" "buildAlternatives rec src join brs fall c = (fall', b')"
    and "br \<in> set brs" "list_all isStmtNode br" "list_all ok br" "exec_seq exec br tr out"
  shows "\<exists>x. walk b' src tr x \<and> dest b join b' out x \<and> (out = Fall \<longrightarrow> fall')"
  using assms(1-6)
proof (induction brs arbitrary: fall c)
  case Nil
  then show ?case by simp
next
  case (Cons br1 brs)
  note w = steps_wf [OF Cons.prems(1)]
  show ?case
  proof (cases "br1 = []")
    case True
    have r: "buildAlternatives rec src join brs True (edge src join c) = (fall', b')" using Cons.prems(5) True by simp
    have e: "steps c (edge src join c)" using edge_steps [OF w] Cons.prems(2,3) by (simp add: valid_src_ok)
    have s: "steps b (edge src join c)" using steps_trans [OF Cons.prems(1) e] .
    have l: "label (edge src join c) join = []" using label_grows [OF grows_edge Cons.prems(3)] Cons.prems(4) by simp
    have g: "steps (edge src join c) b'"
      using buildAlternatives_ok [OF s valid_src_ok _ r] Cons.prems(2,3) by simp
    show ?thesis
    proof (cases "br = []")
      case False
      with Cons.IH [OF s _ _ l r] Cons.prems(2,3,6) True show ?thesis by simp
    next
      case True
      have t: "tr = []" "out = Fall" using exec_seq_none [OF assms(9)] True by simp_all
      have v: "valid b' src" "valid b' join" using grows_valid [OF steps_grows [OF g]] Cons.prems(2,3) by simp_all
      have "join \<in> set (snSuccs (node b' src))" using edge_in_grows [OF Cons.prems(2,3) steps_grows [OF g]] .
      from walk_edge [OF v this] have "walk b' src [] join"
        using label_grows [OF steps_grows [OF g], of join] l Cons.prems(3) by simp
      then show ?thesis using t buildAlternatives_grows_fall [OF r] by (auto simp: dest_def)
    qed
  next
    case False
    obtain l d where r: "buildStmtList rec br1 src c = (l, d)" by fastforce
    have d: "steps c d" "src_ok d l" using buildStmtList_ok [OF w valid_src_ok [OF Cons.prems(2)] r] by simp_all
    let ?d = "if l \<ge> 0 then edge l join d else d"
    have vd: "valid d src" "valid d join" using steps_valid [OF d(1)] Cons.prems(2,3) by blast+
    have e: "steps d ?d" using steps_edge_if [OF steps_refl [OF steps_wf [OF d(1)]] d(2) valid_src_ok [OF vd(2)]] .
    have s: "steps b ?d" using steps_trans [OF Cons.prems(1) steps_trans [OF d(1) e]] .
    have v: "valid ?d src" "valid ?d join" using vd by simp_all
    have ld: "label ?d join = []"
      using label_grows [OF steps_grows [OF steps_trans [OF d(1) e]] Cons.prems(3)] Cons.prems(4) by simp
    have r2: "buildAlternatives rec src join brs (if l \<ge> 0 then True else fall) ?d = (fall', b')"
      using Cons.prems(5) False r by (simp split: if_splits)
    show ?thesis
    proof (cases "br = br1")
      case False
      with Cons.IH [OF s v ld r2] Cons.prems(6) show ?thesis by simp
    next
      case True
      have g: "steps ?d b'" using buildAlternatives_ok [OF s valid_src_ok [OF v(1)] v(2) r2] by simp
      have gd: "grows d b'" using grows_trans [OF steps_grows [OF e] steps_grows [OF g]] .
      have vj: "valid b' join" "label b' join = []"
        using grows_valid [OF steps_grows [OF g] v(2)] label_grows [OF steps_grows [OF g] v(2)] ld by simp_all
      have ej: "join \<in> set (snSuccs (node b' l))" if "0 \<le> l"
        using edge_in_grows [OF src_ok_nonneg [OF d(2) that] vd(2), of b'] steps_grows [OF g] that by simp
      have "list_all (\<lambda>c. isStmtNode c \<and> ok c) br1" using assms(7,8) True by (simp add: list_all_iff)
      from branch_dest [OF buildStmtList_covers [OF _ w Cons.prems(2) this r] gd vj ej] assms(9) True
      obtain x where "walk b' src tr x" "dest c join b' out x" "out = Fall \<longrightarrow> 0 \<le> l" by blast
      moreover have "0 \<le> l \<Longrightarrow> fall'" using r2 buildAlternatives_grows_fall by simp
      ultimately show ?thesis using dest_steps [OF Cons.prems(1)] by blast
    qed
  qed
qed

lemma buildPreproc_covers:
  assumes "wf_builder b" "valid b src" "buildPreproc rec stmt src b = (lst, b')"
    and "list_all (list_all ok) (alternativesOf stmt)" "br \<in> set (alternativesOf stmt)" "exec_seq exec br tr out"
  shows "represents b src lst b' tr out False"
proof -
  obtain join b1 where n1: "joinNode b = (join, b1)" by fastforce
  have s1: "steps b b1" "valid b1 join" using joinNode_steps [OF n1 assms(1)] by auto
  obtain brs se where n2: "preprocBranches (NamedChildren stmt) [] [] False = (brs, se)" by fastforce
  have alts: "alternativesOf stmt = (if \<not> se then brs @ [[]] else brs)" using n2 by (simp add: alternativesOf_def)
  obtain fall b2 where n3: "buildAlternatives rec src join (alternativesOf stmt) False b1 = (fall, b2)" by fastforce
  have r: "b' = b2" "lst = (if fall then join else -1)"
    using assms(3) n1 n2 n3 alts by (auto simp: buildPreproc_def split: if_splits)
  have "list_all (list_all isStmtNode) brs" using preprocBranches_stmts [OF n2] by simp
  then have st: "list_all isStmtNode br" using assms(5) alts by (auto simp: list_all_iff split: if_splits)
  have ok: "list_all ok br" using assms(4,5) by (simp add: list_all_iff)
  from buildAlternatives_covers [OF s1(1) steps_valid [OF s1(1) assms(2)] s1(2) joinNode_label [OF n1] n3 assms(5) st ok assms(6)]
  obtain x where "walk b' src tr x" "dest b join b' out x" "out = Fall \<longrightarrow> fall" using r(1) by blast
  moreover from this have "dest b lst b' out x" using r(2) by (cases "out = Fall") (auto simp: dest_def)
  ultimately show ?thesis by (auto simp: represents_def)
qed

end

section \<open>Every construct, and every depth\<close>

context stmt_covers
begin

lemma buildStmt_covers:
  assumes "wf_builder b" "valid b src" "shaped ok stmt" "buildStmt rec stmt src b = (lst, b')" "exec stmt tr out"
  shows "represents b src lst b' tr out (entry_first stmt)"
  using assms(5)
proof (cases rule: exec.cases)
  case xBlock
  have "buildBlock rec stmt src b = (lst, b')" "all_stmts ok (NamedChildren stmt)"
    using assms(3,4) xBlock(1) by (auto simp: buildStmt_def shaped_def)
  from buildBlock_covers [OF xBlock(2) assms(1,2) this(2,1)] show ?thesis
    using xBlock(1) by (auto simp: entry_first.simps [of stmt] split: option.splits)
next
  case (xIfThen c t)
  with assms(3,4) buildIf_covers [OF assms(1,2), of stmt lst b' t out] show ?thesis
    by (simp add: buildStmt_def shaped_def) blast
next
  case (xIfElse c t)
  with assms(3,4) buildIf_covers [OF assms(1,2), of stmt lst b' t out] show ?thesis
    by (simp add: buildStmt_def shaped_def) blast
next
  case xIfNone
  with assms(3,4) buildIf_covers [OF assms(1,2), of stmt lst b' "[]" out] show ?thesis
    by (simp add: buildStmt_def shaped_def)
next
  case xWhile
  with assms(3,4) buildWhile_covers [OF assms(1,2)] show ?thesis by (simp add: buildStmt_def shaped_def)
next
  case (xDoWhile bd)
  have r: "buildDo rec stmt src b = (lst, b')" using assms(4) xDoWhile(1) by (simp add: buildStmt_def buildWhileDo_def)
  have bd: "Kind bd = ''compound_statement''" "starts_well (NamedChildren bd)" "all_stmts ok (NamedChildren bd)"
    using assms(3) xDoWhile(1,2) by (simp_all add: shaped_def)
  have "exec_do exec stmt (NamedChildren bd) tr out" using xDoWhile(3) bd(1) by simp
  from buildDo_covers [OF assms(1,2) r xDoWhile(2) bd(2,3) this] xDoWhile(1) show ?thesis
    by (simp add: entry_first.simps [of stmt])
next
  case (xForInit i t tr')
  have "buildFor rec stmt src b = (lst, b')" "pred_option ok (ChildByFieldName ''initializer'' stmt)"
    "pred_option ok (ChildByFieldName ''body'' stmt)"
    using assms(3,4) xForInit(2) by (simp_all add: buildStmt_def shaped_def)
  from buildFor_covers [OF assms(1,2) this _ xForInit(5), of t] xForInit(1-4) show ?thesis
    by (simp add: entry_first.simps [of stmt])
next
  case xFor
  have "buildFor rec stmt src b = (lst, b')" "pred_option ok (ChildByFieldName ''initializer'' stmt)"
    "pred_option ok (ChildByFieldName ''body'' stmt)"
    using assms(3,4) xFor(1) by (simp_all add: buildStmt_def shaped_def)
  from buildFor_covers [OF assms(1,2) this _ xFor(3), of "[]"] xFor(1,2) show ?thesis
    by (simp add: entry_first.simps [of stmt])
next
  case (xMacro bd)
  have "buildIterMacroBody rec stmt bd src b = (lst, b')" "ok bd"
    using assms(3,4) xMacro(1,2) by (auto simp: buildStmt_def shaped_def macroBody_def)
  from buildIterMacroBody_covers [OF assms(1,2) this xMacro(3)] show ?thesis .
next
  case (xSwitch bd k t o1)
  have "buildSwitch rec stmt src b = (lst, b')" "pred_option (\<lambda>bd. switch_shaped ok (casesOf bd)) (ChildByFieldName ''body'' stmt)"
    using assms(3,4) xSwitch(3) by (simp_all add: buildStmt_def shaped_def)
  from buildSwitch_covers [OF assms(1,2) this, of out t] xSwitch show ?thesis by blast
next
  case xNoCase
  have "buildSwitch rec stmt src b = (lst, b')" "pred_option (\<lambda>bd. switch_shaped ok (casesOf bd)) (ChildByFieldName ''body'' stmt)"
    using assms(3,4) xNoCase(3) by (simp_all add: buildStmt_def shaped_def)
  from buildSwitch_covers [OF assms(1,2) this, of out "[]"] xNoCase show ?thesis by blast
next
  case (xAlternative br)
  have "buildPreproc rec stmt src b = (lst, b')" "list_all (list_all ok) (alternativesOf stmt)"
    using assms(3,4) xAlternative(1) by (auto simp: buildStmt_def shaped_def)
  from buildPreproc_covers [OF assms(1,2) this xAlternative(2,3)] xAlternative(1) show ?thesis
    by (auto simp: entry_first.simps [of stmt])
next
  case (xLabel c)
  have "rec c src b = (lst, b')" "ok c"
    using assms(3,4) xLabel(1,2) by (auto simp: buildStmt_def shaped_def all_stmts_def find_Some_iff list_all_length)
  from covers [OF assms(1,2) this(2,1) xLabel(3)] show ?thesis
    using xLabel(1,2) by (simp add: entry_first.simps [of stmt])
next
  case xBareLabel
  then have "lst = src" "b' = b" using assms(4) by (simp_all add: buildStmt_def)
  with xBareLabel walk.here [OF assms(2)] show ?thesis
    by (auto simp: represents_def dest_def entry_first.simps [of stmt])
next
  case xReturn
  have r: "buildJump (Some (cbExit b)) stmt src b = (lst, b')" using assms(4) xReturn(3) by (simp add: buildStmt_def)
  have "represents b src lst b' [stmt] Returned (entry_first stmt)"
    by (rule buildJump_covers [OF assms(1,2) r]) (simp_all add: jumps_def wf_exit [OF assms(1)])
  then show ?thesis using xReturn by simp
next
  case xBreak
  have r: "buildJump (Some (breakTarget b)) stmt src b = (lst, b')" using assms(4) xBreak(3) by (simp add: buildStmt_def breakTarget_def)
  have "represents b src lst b' [stmt] Broke (entry_first stmt)"
    by (rule buildJump_covers [OF assms(1,2) r]) (simp_all add: jumps_def breakTarget_def jump_target_valid [OF assms(1)])
  then show ?thesis using xBreak by simp
next
  case xContinue
  have r: "buildJump (Some (contTarget b)) stmt src b = (lst, b')" using assms(4) xContinue(3) by (simp add: buildStmt_def contTarget_def)
  have "represents b src lst b' [stmt] Continued (entry_first stmt)"
    by (rule buildJump_covers [OF assms(1,2) r]) (simp_all add: jumps_def contTarget_def jump_target_valid [OF assms(1)])
  then show ?thesis using xContinue by simp
next
  case xGoto
  have r: "buildJump (None) stmt src b = (lst, b')" using assms(4) xGoto(3) by (simp add: buildStmt_def)
  have "represents b src lst b' [stmt] Jumped (entry_first stmt)"
    by (rule buildJump_covers [OF assms(1,2) r]) (simp_all add: jumps_def)
  then show ?thesis using xGoto by simp
next
  case xLeaf
  then have "buildLeaf stmt src b = (lst, b')"
    using assms(4) by (auto simp: buildStmt_def macroBody_def compoundKinds_def)
  with buildLeaf_covers [OF assms(1,2) this] xLeaf show ?thesis by simp
qed

end

text \<open>build covers the executions of every statement whose nesting is within its depth.\<close>

lemma build_covers: "stmt_covers (build d) (wellshaped d)"
proof (induction d)
  case 0
  show ?case by unfold_locales simp
next
  case (Suc d)
  show ?case
    by unfold_locales (use stmt_covers.buildStmt_covers [OF Suc] in simp)
qed

interpretation stmt_walks: stmt_covers "build d" "wellshaped d" for d
  by (rule build_covers)

end
