(* ===== verification/CFG_Paths.thy ===== *)
theory CFG_Paths
  imports CFG_Covers
begin

text \<open>
  The graphs of whole functions: every execution of a body with the shapes of CFG_Exec is a walk from
  the entry to the exit of the graph BuildStmtCFG returns, goto edges included.
\<close>

section \<open>Walks of a graph\<close>

definition clabel :: "StmtCFG \<Rightarrow> int \<Rightarrow> Node list" where
  "clabel cfg m = (let n = cfgNodes cfg ! nat m in if snKind n = ''stmt'' then [snStmt n] else [])"

inductive cfg_walk :: "StmtCFG \<Rightarrow> int \<Rightarrow> Node list \<Rightarrow> int \<Rightarrow> bool" for cfg where
  here: "valid_id cfg n \<Longrightarrow> cfg_walk cfg n [] n"
| go: "valid_id cfg n \<Longrightarrow> m \<in> set (snSuccs (cfgNodes cfg ! nat n)) \<Longrightarrow> cfg_walk cfg m tr k \<Longrightarrow> cfg_walk cfg n (clabel cfg m @ tr) k"

text \<open>A graph with more edges and the same nodes.\<close>

definition more_edges :: "StmtCFG \<Rightarrow> StmtCFG \<Rightarrow> bool" where
  "more_edges g g' \<longleftrightarrow> length (cfgNodes g') = length (cfgNodes g)
     \<and> (\<forall>i < length (cfgNodes g). snKind (cfgNodes g' ! i) = snKind (cfgNodes g ! i)
          \<and> snStmt (cfgNodes g' ! i) = snStmt (cfgNodes g ! i)
          \<and> set (snSuccs (cfgNodes g ! i)) \<subseteq> set (snSuccs (cfgNodes g' ! i)))"

lemma more_edges_refl [simp]: "more_edges g g"
  by (simp add: more_edges_def)

lemma more_edges_trans: "more_edges a b \<Longrightarrow> more_edges b c \<Longrightarrow> more_edges a c"
  by (auto simp: more_edges_def)

lemma more_edges_valid: "more_edges g g' \<Longrightarrow> valid_id g' i = valid_id g i"
  by (simp add: more_edges_def valid_id_def)

lemma cfg_walk_valid: "cfg_walk cfg i tr j \<Longrightarrow> valid_id cfg i \<and> valid_id cfg j"
  by (induction rule: cfg_walk.induct) auto

lemma cfg_walk_more: "cfg_walk g i tr j \<Longrightarrow> more_edges g g' \<Longrightarrow> cfg_walk g' i tr j"
proof (induction rule: cfg_walk.induct)
  case (here n)
  then show ?case by (simp add: cfg_walk.here more_edges_valid)
next
  case (go n m tr k)
  have "nat m < length (cfgNodes g)" using cfg_walk_valid [OF go(3)] by (auto simp: valid_id_def)
  then have "clabel g' m = clabel g m" using go(5) by (simp add: clabel_def more_edges_def Let_def)
  moreover have "nat n < length (cfgNodes g)" using go(1) by (auto simp: valid_id_def)
  then have "m \<in> set (snSuccs (cfgNodes g' ! nat n))" using go(2,5) unfolding more_edges_def by blast
  ultimately show ?case using cfg_walk.go [of g' n m tr k] go(1,4,5) more_edges_valid by metis
qed

lemma addSucc_more: "more_edges g (addSucc i j g)"
proof -
  have "cfgNodes (addSucc i j g) ! k = (if k = nat i then (cfgNodes g ! k)\<lparr>snSuccs := snSuccs (cfgNodes g ! k) @ [j]\<rparr> else cfgNodes g ! k)"
    if "k < length (cfgNodes g)" for k
    using that by (simp add: addSucc_def)
  then show ?thesis by (auto simp: more_edges_def) (simp_all add: addSucc_def)
qed

lemma gotoStep_more: "more_edges g (gotoStep labels gs g)"
  by (simp add: gotoStep_def addSucc_more split: option.split)

lemma linkGotoLabels_more: "more_edges g (linkGotoLabels g body)"
proof -
  have "more_edges g (fold (gotoStep labels) gss g)" for labels gss
    by (induction gss arbitrary: g) (use more_edges_trans gotoStep_more in fastforce)+
  then show ?thesis by (simp add: linkGotoLabels_def Let_def)
qed

lemma walk_cfg_walk: "walk b i tr j \<Longrightarrow> cfgNodes g = cbNodes b \<Longrightarrow> cfg_walk g i tr j"
proof (induction rule: walk.induct)
  case (here n)
  then show ?case by (simp add: cfg_walk.here valid_id_def valid_def)
next
  case (go n m tr k)
  then have "label b m = clabel g m" by (simp add: label_def clabel_def node_def Let_def)
  with go cfg_walk.go [of g n m tr k] show ?case by (simp add: valid_id_def valid_def node_def)
qed

lemma shaped_mono:
  assumes "shaped ok s" "\<And>c. ok c \<Longrightarrow> ok' c"
  shows "shaped ok' s"
proof -
  have m1: "pred_option ok x \<Longrightarrow> pred_option ok' x" for x by (cases x) (simp_all add: assms(2))
  have m2: "all_stmts ok cs \<Longrightarrow> all_stmts ok' cs" for cs using assms(2) by (auto simp: all_stmts_def list_all_iff)
  have m3: "switch_shaped ok cs \<Longrightarrow> switch_shaped ok' cs" for cs using m2 by (auto simp: switch_shaped_def list_all_iff)
  have m4: "list_all (list_all ok) bs \<Longrightarrow> list_all (list_all ok') bs" for bs using assms(2) by (auto simp: list_all_iff)
  have m5: "pred_option (\<lambda>bd. Kind bd = ''compound_statement'' \<and> starts_well (NamedChildren bd) \<and> all_stmts ok (NamedChildren bd)) x
      \<Longrightarrow> pred_option (\<lambda>bd. Kind bd = ''compound_statement'' \<and> starts_well (NamedChildren bd) \<and> all_stmts ok' (NamedChildren bd)) x"
    for x by (cases x) (simp_all add: m2)
  have m6: "pred_option (\<lambda>bd. switch_shaped ok (casesOf bd)) x \<Longrightarrow> pred_option (\<lambda>bd. switch_shaped ok' (casesOf bd)) x"
    for x by (cases x) (simp_all add: m3)
  show ?thesis using assms(1) m1 m2 m4 m5 m6 unfolding shaped_def by presburger
qed

lemma wellshaped_mono: "wellshaped r s \<Longrightarrow> r \<le> r' \<Longrightarrow> wellshaped r' s"
proof (induction r arbitrary: r' s)
  case (Suc r)
  then obtain k where "r' = Suc k" "r \<le> k" by (cases r') auto
  with Suc shaped_mono [of "wellshaped r" s "wellshaped k"] show ?case by auto
qed simp

text \<open>C8: control_flow.go's over-approximation claim.  For a function body whose statements have the
  shapes of wellshaped, nested no deeper than the builder's bound, every execution that ends by
  falling off the end, by a return, or by a stray break or continue, whatever its conditions choose and
  however often its loops run, is a walk from the entry to the exit of the graph that passes exactly
  the statements of the execution in their order.\<close>

theorem BuildStmtCFG_overapproximates:
  assumes "Kind body = ''compound_statement''" "all_stmts (wellshaped maxDepth) (NamedChildren body)"
    and "exec_seq exec (NamedChildren body) tr out" "out \<noteq> Jumped"
  shows "cfg_walk (BuildStmtCFG body funcEnd) 0 tr 1"
proof -
  let ?b = "emptyBuilder funcEnd"
  have v: "valid ?b 0" "valid ?b 1" using emptyBuilder_wf(4) [of funcEnd] by (simp_all add: valid_def)
  obtain lst b' where r: "buildBlock (build maxDepth) body 0 ?b = (lst, b')" by fastforce
  have s: "steps ?b b'" "src_ok b' lst" using stmt_build.buildBlock_ok [OF emptyBuilder_wf(1) valid_src_ok [OF v(1)] r] by auto
  obtain dst where d: "dest ?b lst b' out dst" "walk b' 0 tr dst"
    using stmt_walks.buildBlock_covers [OF assms(3) emptyBuilder_wf(1) v(1) assms(2) r] by (auto simp: represents_def)
  let ?b2 = "if lst \<ge> 0 then edge lst 1 b' else b'"
  have vd: "valid b' dst" using walk_valid [OF d(2)] by simp
  have v1: "valid b' 1" using steps_valid [OF s(1) v(2)] .
  have ext: "cbExit ?b = 1" using emptyBuilder_wf(1) [of funcEnd] by (simp add: wf_builder_def)
  have g: "grows b' ?b2" by (simp add: grows_edge)
  have "1 \<in> set (snSuccs (node ?b2 dst))"
  proof (cases "out = Fall")
    case True
    then have "dst = lst" "0 \<le> lst" using d(1) valid_neg [OF vd] by (auto simp: dest_def)
    then show ?thesis using edge_in [OF _ v1, of lst] vd by simp
  next
    case False
    then have "jumps ?b out 1"
      using assms(4) ext emptyBuilder_wf(2,3) by (cases out) (auto simp: jumps_def breakTarget_def contTarget_def)
    then have "1 \<in> set (snSuccs (node b' dst))" using d(1) False by (simp add: dest_def)
    then show ?thesis using g vd unfolding grows_def by blast
  qed
  moreover have "label ?b2 1 = []"
  proof -
    have "label ?b 1 = []" by (simp add: label_def emptyBuilder_def newNode_def node_def Let_def)
    then have "label b' 1 = []" using label_grows [OF steps_grows [OF s(1)] v(2)] by simp
    then show ?thesis using label_grows [OF g v1] by simp
  qed
  ultimately have "walk ?b2 dst [] 1" using walk_edge [OF grows_valid [OF g vd] grows_valid [OF g v1]] by simp
  from walk_append [OF walk_grows [OF d(2) g] this] have "walk ?b2 0 tr 1" by simp
  then have "cfg_walk \<lparr>cfgNodes = cbNodes ?b2, cfgEntry = 0, cfgExit = 1\<rparr> 0 tr 1" by (rule walk_cfg_walk) simp
  from cfg_walk_more [OF this linkGotoLabels_more] show ?thesis
    using assms(1) r by (simp add: BuildStmtCFG_def Let_def)
qed

text \<open>The witness: while (c) x; return; with one turn of the loop.\<close>

definition sampleNode :: "string \<Rightarrow> string \<Rightarrow> int \<Rightarrow> Node list \<Rightarrow> Node" where
  "sampleNode k f line cs = TSNode k f True False ''''
     \<lparr>posStartByte = 0, posEndByte = 0, posStartLine = line, posStartColumn = 0, posEndLine = line, posEndColumn = 9\<rparr> cs"

definition xStmt :: Node where "xStmt = sampleNode ''expression_statement'' ''body'' 2 []"
definition whileStmt :: Node where
  "whileStmt = sampleNode ''while_statement'' '''' 2 [sampleNode ''identifier'' ''condition'' 2 [], xStmt]"
definition returnStmt :: Node where "returnStmt = sampleNode ''return_statement'' '''' 3 []"
definition loopBody :: Node where "loopBody = sampleNode ''compound_statement'' ''body'' 1 [whileStmt, returnStmt]"

lemmas sample_simps = sampleNode_def Kind_def NamedChildren_def Children_def isNamed_def ChildByFieldName_def fieldOf_def
  isStmtNode_def

theorem BuildStmtCFG_overapproximates_witness:
  "cfg_walk (BuildStmtCFG loopBody 4) 0 [whileStmt, xStmt, whileStmt, returnStmt] 1"
proof -
  have k: "Kind loopBody = ''compound_statement''" "NamedChildren loopBody = [whileStmt, returnStmt]"
    "isStmtNode whileStmt" "isStmtNode returnStmt" "Kind whileStmt = ''while_statement''" "Kind returnStmt = ''return_statement''"
    "ChildByFieldName ''body'' whileStmt = Some xStmt" "Kind xStmt = ''expression_statement''"
    "\<not> isConstantTrue (ChildByFieldName ''condition'' whileStmt)"
    by (simp_all add: loopBody_def whileStmt_def returnStmt_def xStmt_def sample_simps isConstantTrue_def peelParens.simps)
  have x: "exec xStmt [xStmt] Fall" using k by (intro exec.xLeaf) (simp add: compoundKinds_def)
  have "exec_loop exec whileStmt (Some xStmt) [] True (whileStmt # [xStmt] @ [] @ [whileStmt]) Fall"
    using x by (intro exec_loop.again [where ?out1.0 = Fall] exec_loop.finish) simp_all
  then have w: "exec whileStmt [whileStmt, xStmt, whileStmt] Fall" using k by (intro exec.xWhile) simp_all
  have r: "exec returnStmt [returnStmt] Returned" using k by (intro exec.xReturn)
  have e: "exec_seq exec (NamedChildren loopBody) ([whileStmt, xStmt, whileStmt] @ [returnStmt]) Returned"
    unfolding k(2)
    by (rule exec_seq.seqMore [where ex = exec, OF k(3)], rule w, rule exec_seq.seqStop [where ex = exec, OF k(4)], rule r) simp
  have "wellshaped 2 whileStmt" "wellshaped 2 returnStmt"
    using k by (simp_all add: numeral_2_eq_2 shaped_def)
  then have "all_stmts (wellshaped maxDepth) (NamedChildren loopBody)"
    using wellshaped_mono [of 2 _ maxDepth] by (simp add: k(2) all_stmts_def maxDepth_def)
  from BuildStmtCFG_overapproximates [OF k(1) this e, of 4] show ?thesis by simp
qed

end
