(* ===== verification/Alias_Graph.thy ===== *)
theory Alias_Graph
  imports Graph_Search "HOL-Library.AList" "HOL-Library.Char_ord" "HOL-Library.List_Lexorder"
begin

text \<open>
  The alias graph of internal/graph/alias_graph.go: keys of storage locations, the symmetric edges
  with their provenance, the breadth-first closure of aliases, and the canonical representative of an
  alias set.  The two Go maps are association lists.  Keys are ordered as aliasKeyLess orders them;
  Go compares strings byte by byte, which is the lexicographic order of character codes.
\<close>

datatype AliasKey = AliasKey (akFunctionID: int) (akFileID: int) (akName: string)

datatype AliasEdgeKind =
  AliasEdgeLocal | AliasEdgeReturn | AliasEdgeReturnDangling | AliasEdgeParam | AliasEdgeGlobal

record AliasGraph =
  agEdges :: "(AliasKey \<times> AliasKey list) list"
  agKinds :: "((AliasKey \<times> AliasKey) \<times> AliasEdgeKind) list"

definition aliasKeyLess :: "AliasKey \<Rightarrow> AliasKey \<Rightarrow> bool" where
  "aliasKeyLess a b =
     (if akFunctionID a \<noteq> akFunctionID b then akFunctionID a < akFunctionID b
      else if akFileID a \<noteq> akFileID b then akFileID a < akFileID b
      else akName a < akName b)"

instantiation AliasKey :: linorder
begin

definition "less_AliasKey (a :: AliasKey) b = aliasKeyLess a b"
definition "less_eq_AliasKey (a :: AliasKey) b = (a = b \<or> aliasKeyLess a b)"

instance
proof
  fix x y z :: AliasKey
  show "(x < y) = (x \<le> y \<and> \<not> y \<le> x)" "x \<le> x" "x \<le> y \<Longrightarrow> y \<le> z \<Longrightarrow> x \<le> z"
    "x \<le> y \<Longrightarrow> y \<le> x \<Longrightarrow> x = y" "x \<le> y \<or> y \<le> x"
    by (cases x; cases y; cases z;
        auto simp: less_AliasKey_def less_eq_AliasKey_def aliasKeyLess_def split: if_splits)+
qed

end

definition NewAliasGraph :: AliasGraph where
  "NewAliasGraph = \<lparr>agEdges = [], agKinds = []\<rparr>"

definition edgesOf :: "AliasGraph \<Rightarrow> AliasKey \<Rightarrow> AliasKey list" where
  "edgesOf g a = (case map_of (agEdges g) a of None \<Rightarrow> [] | Some xs \<Rightarrow> xs)"

definition appendUniqueAlias :: "AliasKey list \<Rightarrow> AliasKey \<Rightarrow> AliasKey list" where
  "appendUniqueAlias xs k = (if k \<in> set xs then xs else xs @ [k])"

definition AddWithKind :: "AliasKey \<Rightarrow> AliasKey \<Rightarrow> AliasEdgeKind \<Rightarrow> AliasGraph \<Rightarrow> AliasGraph" where
  "AddWithKind a b kind g =
     (if a = b then g
      else let g1 = g\<lparr>agEdges := AList.update a (appendUniqueAlias (edgesOf g a) b) (agEdges g)\<rparr>;
               g2 = g1\<lparr>agEdges := AList.update b (appendUniqueAlias (edgesOf g1 b) a) (agEdges g1)\<rparr>
           in g2\<lparr>agKinds := AList.update (b, a) kind (AList.update (a, b) kind (agKinds g2))\<rparr>)"

definition AddAlias :: "AliasKey \<Rightarrow> AliasKey \<Rightarrow> AliasGraph \<Rightarrow> AliasGraph" where
  "AddAlias a b g = AddWithKind a b AliasEdgeLocal g"

definition EdgeKind :: "AliasGraph option \<Rightarrow> AliasKey \<Rightarrow> AliasKey \<Rightarrow> AliasEdgeKind" where
  "EdgeKind go a b =
     (case go of None \<Rightarrow> AliasEdgeLocal
      | Some g \<Rightarrow> (case map_of (agKinds g) (a, b) of Some k \<Rightarrow> k | None \<Rightarrow> AliasEdgeLocal))"

text \<open>The breadth-first loop.  follow is the test of an edge: always true for AliasesOf, the edge's kind
  for AliasesOfKind.  seen is the key set in the order of insertion; Go ranges over it in any order.\<close>

fun visitAliases :: "(AliasKey \<Rightarrow> bool) \<Rightarrow> AliasKey list \<Rightarrow> AliasKey list \<Rightarrow> AliasKey list \<Rightarrow> AliasKey list \<times> AliasKey list" where
  "visitAliases follow [] seen queue = (seen, queue)"
| "visitAliases follow (n # ns) seen queue =
     (if n \<in> set seen \<or> \<not> follow n then visitAliases follow ns seen queue
      else visitAliases follow ns (seen @ [n]) (queue @ [n]))"

definition aliasNodes :: "AliasGraph \<Rightarrow> AliasKey set" where
  "aliasNodes g = set (concat (map snd (agEdges g)))"

lemma edgesOf_nodes: "set (edgesOf g a) \<subseteq> aliasNodes g"
  by (auto simp: edgesOf_def aliasNodes_def split: option.splits) (metis map_of_SomeD snd_conv)

lemma visitAliases_spec:
  "visitAliases follow ns seen queue = (seen', queue') \<Longrightarrow>
     (\<exists>new. seen' = seen @ new \<and> queue' = queue @ new \<and> distinct new
        \<and> set new = {n \<in> set ns. follow n} - set seen)"
proof (induction ns arbitrary: seen queue)
  case (Cons n ns)
  show ?case
  proof (cases "n \<in> set seen \<or> \<not> follow n")
    case True
    with Cons.prems have "visitAliases follow ns seen queue = (seen', queue')" by auto
    from Cons.IH [OF this] obtain new where "seen' = seen @ new" "queue' = queue @ new"
      "distinct new" "set new = {n \<in> set ns. follow n} - set seen" by blast
    with True show ?thesis by (intro exI [of _ new]) auto
  next
    case False
    with Cons.prems have "visitAliases follow ns (seen @ [n]) (queue @ [n]) = (seen', queue')" by simp
    from Cons.IH [OF this] obtain new where "seen' = (seen @ [n]) @ new" "queue' = (queue @ [n]) @ new"
      "distinct new" "set new = {n \<in> set ns. follow n} - set (seen @ [n])" by blast
    with False show ?thesis by (intro exI [of _ "n # new"]) auto
  qed
qed simp

function aliasLoop :: "AliasGraph \<Rightarrow> (AliasKey \<Rightarrow> AliasKey \<Rightarrow> bool) \<Rightarrow> AliasKey list \<Rightarrow> AliasKey list \<Rightarrow> AliasKey list" where
  "aliasLoop g follow seen [] = seen"
| "aliasLoop g follow seen (cur # queue) =
     (case visitAliases (follow cur) (edgesOf g cur) seen queue of
        (seen', queue') \<Rightarrow> aliasLoop g follow seen' queue')"
  by pat_completeness auto
termination
proof (relation "measure (\<lambda>(g, follow, seen, queue). 2 * card (aliasNodes g - set seen) + length queue)")
  fix g :: AliasGraph and follow and seen queue seen' queue' :: "AliasKey list" and cur
  assume "(seen', queue') = visitAliases (follow cur) (edgesOf g cur) seen queue"
  then have "visitAliases (follow cur) (edgesOf g cur) seen queue = (seen', queue')" by simp
  from visitAliases_spec [OF this] obtain new where new: "seen' = seen @ new" "queue' = queue @ new" "distinct new"
    "set new = {n \<in> set (edgesOf g cur). follow cur n} - set seen" by blast
  have sub: "set new \<subseteq> aliasNodes g - set seen" using new(4) edgesOf_nodes by auto
  have fin: "finite (aliasNodes g - set seen)" by (simp add: aliasNodes_def)
  have "card (aliasNodes g - set seen') = card ((aliasNodes g - set seen) - set new)"
    using new(1) by (simp add: Diff_eq Int_assoc)
  also have "\<dots> = card (aliasNodes g - set seen) - length new"
    using sub new(3) by (metis List.finite_set card_Diff_subset distinct_card)
  finally have "2 * card (aliasNodes g - set seen') + length queue' < 2 * card (aliasNodes g - set seen) + Suc (length queue)"
    using card_mono [OF fin sub] distinct_card [OF new(3)] new(2) by simp
  then show "((g, follow, seen', queue'), g, follow, seen, cur # queue)
        \<in> measure (\<lambda>(g, follow, seen, queue). 2 * card (aliasNodes g - set seen) + length queue)" by simp
qed simp

declare aliasLoop.simps [simp del]

definition AliasesOf :: "AliasGraph option \<Rightarrow> AliasKey \<Rightarrow> AliasKey list" where
  "AliasesOf go k = (case go of None \<Rightarrow> [k] | Some g \<Rightarrow> aliasLoop g (\<lambda>_ _. True) [k] [k])"

definition AliasesOfKind :: "AliasGraph option \<Rightarrow> AliasKey \<Rightarrow> AliasEdgeKind \<Rightarrow> AliasKey list" where
  "AliasesOfKind go k kind =
     (case go of None \<Rightarrow> [k] | Some g \<Rightarrow> aliasLoop g (\<lambda>a b. EdgeKind go a b = kind) [k] [k])"

definition bestKey :: "AliasKey list \<Rightarrow> AliasKey" where
  "bestKey xs = fold (\<lambda>k2 best. if aliasKeyLess k2 best then k2 else best) (tl xs) (hd xs)"

definition CanonicalKey :: "AliasGraph option \<Rightarrow> AliasKey \<Rightarrow> AliasKey" where
  "CanonicalKey go k = bestKey (AliasesOf go k)"

definition CanonicalKeyOfKind :: "AliasGraph option \<Rightarrow> AliasKey \<Rightarrow> AliasEdgeKind \<Rightarrow> AliasKey" where
  "CanonicalKeyOfKind go k kind = bestKey (AliasesOfKind go k kind)"



section \<open>Closures of aliases\<close>

definition aliasSuccs :: "AliasGraph \<Rightarrow> (AliasKey \<Rightarrow> AliasKey \<Rightarrow> bool) \<Rightarrow> AliasKey \<Rightarrow> AliasKey list" where
  "aliasSuccs g follow a = filter (follow a) (edgesOf g a)"

text \<open>The alias graph is a finite graph, for whatever test of its edges.\<close>

interpretation aliasnet: finite_graph "aliasSuccs g follow" "insert k (aliasNodes g)" for g follow k
  by unfold_locales (use edgesOf_nodes in \<open>auto simp: aliasSuccs_def aliasNodes_def\<close>)

lemma aliasLoop_search:
  assumes "search_inv (aliasSuccs g follow) (\<lambda>_. False) k (set seen) (set queue)" "distinct seen"
  shows "set (aliasLoop g follow seen queue) = {v. reach_avoiding (aliasSuccs g follow) (\<lambda>_. False) k v}
         \<and> distinct (aliasLoop g follow seen queue) \<and> (\<exists>more. aliasLoop g follow seen queue = seen @ more)"
  using assms
proof (induction g follow seen queue rule: aliasLoop.induct)
  case (1 g follow seen)
  then show ?case using aliasnet.search_done by (simp add: aliasLoop.simps)
next
  case (2 g follow seen cur queue)
  obtain seen' queue' where v: "visitAliases (follow cur) (edgesOf g cur) seen queue = (seen', queue')" by fastforce
  from visitAliases_spec [OF this] obtain new where new: "seen' = seen @ new" "queue' = queue @ new" "distinct new"
    "set new = {n \<in> set (edgesOf g cur). follow cur n} - set seen" by blast
  have "search_inv (aliasSuccs g follow) (\<lambda>_. False) k (set seen') (set queue')"
    by (rule aliasnet.search_expand [OF 2(2), where v = cur])
      (use new 2(2) in \<open>auto simp: aliasSuccs_def search_inv_def\<close>)
  moreover have "distinct seen'" using new 2(3) by auto
  ultimately show ?case using 2(1) [OF v [symmetric]] v new(1) by (auto simp: aliasLoop.simps)
qed

lemma aliasLoop_closure:
  "set (aliasLoop g follow [k] [k]) = {v. reach_avoiding (aliasSuccs g follow) (\<lambda>_. False) k v}"
  "distinct (aliasLoop g follow [k] [k])" "aliasLoop g follow [k] [k] \<noteq> []"
  using aliasLoop_search [of g follow k "[k]" "[k]"] aliasnet.search_start by auto

lemma edgesOf_update:
  "edgesOf (h\<lparr>agEdges := AList.update a xs es\<rparr>) x = (if x = a then xs else edgesOf (h\<lparr>agEdges := es\<rparr>) x)"
  "edgesOf (h\<lparr>agEdges := es, agKinds := ks\<rparr>) x = edgesOf (h\<lparr>agEdges := es\<rparr>) x"
  "edgesOf (h\<lparr>agKinds := ks\<rparr>) x = edgesOf h x" "edgesOf (h\<lparr>agEdges := agEdges h\<rparr>) x = edgesOf h x"
  by (simp_all add: edgesOf_def update_conv')

lemma edgesOf_AddWithKind:
  "set (edgesOf (AddWithKind a b kind g) x) =
     set (edgesOf g x) \<union> (if a \<noteq> b \<and> x = a then {b} else {}) \<union> (if a \<noteq> b \<and> x = b then {a} else {})"
proof (cases "a = b")
  case False
  then show ?thesis
    by (simp add: AddWithKind_def Let_def edgesOf_update appendUniqueAlias_def) auto
qed (simp add: AddWithKind_def)

text \<open>A graph as the builders make it: a sequence of Add calls on the empty graph.\<close>

definition aliasGraphOf :: "(AliasKey \<times> AliasKey \<times> AliasEdgeKind) list \<Rightarrow> AliasGraph" where
  "aliasGraphOf adds = fold (\<lambda>(a, b, kind). AddWithKind a b kind) adds NewAliasGraph"

definition aliased :: "(AliasKey \<times> AliasKey \<times> AliasEdgeKind) list \<Rightarrow> (AliasKey \<times> AliasKey) set" where
  "aliased adds = {(x, y). \<exists>kind. (x, y, kind) \<in> set adds \<or> (y, x, kind) \<in> set adds}"

lemma fold_AddWithKind_edges:
  "set (edgesOf (fold (\<lambda>(a, b, kind). AddWithKind a b kind) adds g) x) = set (edgesOf g x) \<union> {y. y \<noteq> x \<and> (x, y) \<in> aliased adds}"
proof (induction adds arbitrary: g)
  case Nil
  then show ?case by (simp add: aliased_def)
next
  case (Cons e adds)
  obtain a b kind where e: "e = (a, b, kind)" by (metis prod_cases3)
  have "{y. y \<noteq> x \<and> (x, y) \<in> aliased (e # adds)} =
      {y. y \<noteq> x \<and> (x, y) \<in> aliased adds} \<union> (if a \<noteq> b \<and> x = a then {b} else {}) \<union> (if a \<noteq> b \<and> x = b then {a} else {})"
    by (auto simp: aliased_def e)
  with Cons.IH [of "AddWithKind a b kind g"] show ?case by (simp add: e edgesOf_AddWithKind Un_ac)
qed

lemma aliasGraphOf_edges: "set (edgesOf (aliasGraphOf adds) x) = {y. y \<noteq> x \<and> (x, y) \<in> aliased adds}"
  unfolding aliasGraphOf_def fold_AddWithKind_edges by (simp add: edgesOf_def NewAliasGraph_def)

lemma reach_rtrancl:
  "reach_avoiding (aliasSuccs (aliasGraphOf adds) (\<lambda>_ _. True)) (\<lambda>_. False) k v \<longleftrightarrow> (k, v) \<in> (aliased adds)\<^sup>*"
proof
  assume "reach_avoiding (aliasSuccs (aliasGraphOf adds) (\<lambda>_ _. True)) (\<lambda>_. False) k v"
  then show "(k, v) \<in> (aliased adds)\<^sup>*"
    by (induction rule: reach_avoiding.induct)
      (auto simp: aliasSuccs_def aliasGraphOf_edges intro: rtrancl_into_rtrancl)
next
  assume "(k, v) \<in> (aliased adds)\<^sup>*"
  then show "reach_avoiding (aliasSuccs (aliasGraphOf adds) (\<lambda>_ _. True)) (\<lambda>_. False) k v"
  proof (induction rule: rtrancl_induct)
    case base
    show ?case by (rule reach_avoiding.here)
  next
    case (step y z)
    then show ?case
      by (cases "y = z") (auto simp: aliasSuccs_def aliasGraphOf_edges intro: reach_avoiding.further)
  qed
qed

lemma aliased_sym: "sym ((aliased adds)\<^sup>*)"
  by (rule sym_rtrancl) (auto simp: sym_def aliased_def)

lemma bestKey_Min: "xs \<noteq> [] \<Longrightarrow> bestKey xs = Min (set xs)"
proof -
  have min: "(\<lambda>k2 best. if aliasKeyLess k2 best then k2 else best) = (min :: AliasKey \<Rightarrow> _)"
    by (auto simp: fun_eq_iff min_def less_AliasKey_def [symmetric])
  assume "xs \<noteq> []"
  then show ?thesis
    unfolding bestKey_def min by (cases xs) (simp_all add: Min.set_eq_fold [symmetric] del: list.set)
qed


section \<open>Properties\<close>

text \<open>C19: the alias closure is the equivalence class.  On a graph built by any sequence of alias edges,
  AliasesOf lists, without duplicates, exactly the keys connected to k by a chain of edges in either
  direction, k itself included; and two keys have the same canonical key exactly when they are so
  connected, so grouping by CanonicalKey is grouping by alias class.\<close>

theorem AliasesOf_component:
  "set (AliasesOf (Some (aliasGraphOf adds)) k) = {v. (k, v) \<in> (aliased adds)\<^sup>*}
   \<and> distinct (AliasesOf (Some (aliasGraphOf adds)) k)
   \<and> (CanonicalKey (Some (aliasGraphOf adds)) k = CanonicalKey (Some (aliasGraphOf adds)) v
        \<longleftrightarrow> (k, v) \<in> (aliased adds)\<^sup>*)"
proof -
  let ?A = "\<lambda>k. set (AliasesOf (Some (aliasGraphOf adds)) k)"
  have set: "?A k = {v. (k, v) \<in> (aliased adds)\<^sup>*}" for k
    by (simp add: AliasesOf_def aliasLoop_closure reach_rtrancl)
  have c: "CanonicalKey (Some (aliasGraphOf adds)) k = Min (?A k)" for k
    using aliasLoop_closure(3) by (simp add: CanonicalKey_def AliasesOf_def bestKey_Min)
  have ne: "?A k \<noteq> {}" "finite (?A k)" for k
    by (simp add: set ex_in_conv [symmetric], rule exI [of _ k], rule rtrancl_refl) simp
  have "Min (?A k) = Min (?A v) \<longleftrightarrow> (k, v) \<in> (aliased adds)\<^sup>*"
  proof
    assume "Min (?A k) = Min (?A v)"
    then have "(k, Min (?A k)) \<in> (aliased adds)\<^sup>*" "(v, Min (?A k)) \<in> (aliased adds)\<^sup>*"
      using Min_in [OF ne(2) ne(1)] set by (metis mem_Collect_eq)+
    then show "(k, v) \<in> (aliased adds)\<^sup>*" using aliased_sym rtrancl_trans by (metis symD)
  next
    assume "(k, v) \<in> (aliased adds)\<^sup>*"
    then have "?A k = ?A v" unfolding set using aliased_sym rtrancl_trans by (metis (mono_tags, lifting) symD)
    then show "Min (?A k) = Min (?A v)" by simp
  qed
  then show ?thesis using set c aliasLoop_closure(2) by (simp add: AliasesOf_def)
qed

end
