(* ===== verification/C_Expr.thy ===== *)
theory C_Expr
  imports Syntax_Tree
begin

text \<open>
  Readers of C expressions in the syntax tree that several analyses share: the parts of an assignment
  (internal/parser/assign_parts.go), the assignments a statement makes itself and the names involved
  (internal/planner: filter_uninit_flow.go, filter_taint_source.go, null_flow.go, filter_int_overflow.go),
  and strconv.ParseInt with base 0, which reads the literals.
\<close>

section \<open>ParseInt\<close>

definition digitValue :: "char \<Rightarrow> int option" where
  "digitValue c =
     (if isDigit c then Some (int (of_char c) - 48)
      else if 97 \<le> (of_char (lowerChar c) :: nat) \<and> (of_char (lowerChar c) :: nat) \<le> 122
      then Some (int (of_char (lowerChar c)) - 87) else None)"

text \<open>The digits, with the underscores that base 0 allows skipped; None is a syntax error.\<close>

fun digitsValue :: "int \<Rightarrow> string \<Rightarrow> int \<Rightarrow> int option" where
  "digitsValue base [] n = Some n"
| "digitsValue base (c # cs) n =
     (if c = CHR ''_'' then digitsValue base cs n
      else case digitValue c of None \<Rightarrow> None | Some d \<Rightarrow> if d \<ge> base then None else digitsValue base cs (n * base + d))"

definition isPrefixLetter :: "char \<Rightarrow> bool" where
  "isPrefixLetter c \<longleftrightarrow> lowerChar c \<in> set ''box''"

fun underscoresOK :: "bool \<Rightarrow> char \<Rightarrow> string \<Rightarrow> bool" where
  "underscoresOK hex prev [] = (prev \<noteq> CHR ''_'')"
| "underscoresOK hex prev (c # cs) =
     (if isDigit c \<or> (hex \<and> 97 \<le> (of_char (lowerChar c) :: nat) \<and> (of_char (lowerChar c) :: nat) \<le> 102)
      then underscoresOK hex (CHR ''0'') cs
      else if c = CHR ''_'' then prev = CHR ''0'' \<and> underscoresOK hex (CHR ''_'') cs
      else prev \<noteq> CHR ''_'' \<and> underscoresOK hex (CHR ''!'') cs)"

definition underscoreOK :: "string \<Rightarrow> bool" where
  "underscoreOK s =
     (case s of
        c0 # c1 # cs \<Rightarrow>
          if c0 = CHR ''0'' \<and> isPrefixLetter c1 then underscoresOK (lowerChar c1 = CHR ''x'') (CHR ''0'') cs
          else underscoresOK False (CHR ''^'') s
      | _ \<Rightarrow> underscoresOK False (CHR ''^'') s)"

text \<open>The magnitude, after the sign.\<close>

definition parseMagnitude :: "string \<Rightarrow> int option" where
  "parseMagnitude s =
     (if s = [] then None
      else
        let (base, ds) =
          (if hd s \<noteq> CHR ''0'' then (10, s)
           else if length s \<ge> 3 \<and> lowerChar (s ! 1) = CHR ''b'' then (2, drop 2 s)
           else if length s \<ge> 3 \<and> lowerChar (s ! 1) = CHR ''o'' then (8, drop 2 s)
           else if length s \<ge> 3 \<and> lowerChar (s ! 1) = CHR ''x'' then (16, drop 2 s)
           else (8, tl s))
        in case digitsValue base ds 0 of
             None \<Rightarrow> None
           | Some n \<Rightarrow> if CHR ''_'' \<in> set ds \<and> \<not> underscoreOK s then None else Some n)"

definition ParseInt64 :: "string \<Rightarrow> int option" where
  "ParseInt64 s =
     (case s of
        [] \<Rightarrow> None
      | c # cs \<Rightarrow>
          let neg = (c = CHR ''-''); body = (if c = CHR ''-'' \<or> c = CHR ''+'' then cs else s) in
          case parseMagnitude body of
            None \<Rightarrow> None
          | Some n \<Rightarrow>
              if \<not> neg \<and> n \<ge> 2 ^ 63 then None
              else if neg \<and> n > 2 ^ 63 then None
              else Some (if neg then - n else n))"

lemma digitValue_bounds: "digitValue c = Some d \<Longrightarrow> 0 \<le> d"
  by (auto simp: digitValue_def isDigit_def of_nat_diff split: if_splits)

lemma digitsValue_bounds: "digitsValue base cs n = Some m \<Longrightarrow> 0 \<le> n \<Longrightarrow> 0 \<le> base \<Longrightarrow> 0 \<le> m"
  by (induction base cs n rule: digitsValue.induct) (auto split: if_splits option.splits dest: digitValue_bounds)

lemma ParseInt64_in64: "ParseInt64 s = Some v \<Longrightarrow> in64 v"
proof -
  assume p: "ParseInt64 s = Some v"
  have m: "parseMagnitude b = Some n \<Longrightarrow> 0 \<le> n" for b n
    using digitsValue_bounds by (fastforce simp: parseMagnitude_def Let_def split: if_splits option.splits)
  from p show ?thesis
    by (auto simp: ParseInt64_def Let_def in64_def minInt64_def maxInt64_def split: list.splits option.splits if_splits dest!: m)
qed


section \<open>Names\<close>

text \<open>The first child for which the reader gives a name.\<close>

fun firstName :: "(Node \<Rightarrow> string) \<Rightarrow> Node list \<Rightarrow> string" where
  "firstName f [] = ''''"
| "firstName f (c # cs) = (if f c \<noteq> '''' then f c else firstName f cs)"

lemma firstName_cong [fundef_cong]:
  "xs = ys \<Longrightarrow> (\<And>c. c \<in> set ys \<Longrightarrow> f c = g c) \<Longrightarrow> firstName f xs = firstName g ys"
  by (induction ys arbitrary: xs) auto

fun declaredChild :: "(Node \<Rightarrow> string) \<Rightarrow> Node list \<Rightarrow> string" where
  "declaredChild f [] = ''''"
| "declaredChild f (c # cs) =
     (if Kind c = ''identifier'' then Text c else if f c \<noteq> '''' then f c else declaredChild f cs)"

lemma declaredChild_cong [fundef_cong]:
  "xs = ys \<Longrightarrow> (\<And>c. c \<in> set ys \<Longrightarrow> f c = g c) \<Longrightarrow> declaredChild f xs = declaredChild g ys"
  by (induction ys arbitrary: xs) auto

function declaratorName :: "Node \<Rightarrow> string" where
  "declaratorName n = (if Kind n = ''identifier'' then Text n else declaredChild declaratorName (NamedChildren n))"
  by pat_completeness auto
termination by (relation "measure size") (simp_all add: size_NamedChildren)

declare declaratorName.simps [simp del]

definition assignTargetName :: "Node \<Rightarrow> string" where
  "assignTargetName lhs =
     (if Kind lhs = ''identifier'' then Text lhs
      else if Kind lhs = ''field_expression'' \<or> Kind lhs = ''subscript_expression'' then Text lhs
      else if Kind lhs = ''pointer_declarator'' \<or> Kind lhs = ''array_declarator'' \<or> Kind lhs = ''function_declarator''
      then declaratorName lhs else '''')"

definition isWrapper :: "Node \<Rightarrow> bool" where
  "isWrapper n \<longleftrightarrow> Kind n = ''parenthesized_expression'' \<or> Kind n = ''cast_expression''"

function rhsVarName :: "Node \<Rightarrow> string" where
  "rhsVarName n =
     (if Kind n = ''identifier'' then Text n
      else if isWrapper n then firstName rhsVarName (NamedChildren n) else '''')"
  by pat_completeness auto
termination by (relation "measure size") (simp_all add: size_NamedChildren)

function copySourceKey :: "Node \<Rightarrow> string" where
  "copySourceKey n =
     (if Kind n = ''identifier'' \<or> Kind n = ''field_expression'' \<or> Kind n = ''subscript_expression'' then Text n
      else if isWrapper n then firstName copySourceKey (NamedChildren n) else '''')"
  by pat_completeness auto
termination by (relation "measure size") (simp_all add: size_NamedChildren)

definition callName :: "Node \<Rightarrow> string" where
  "callName call =
     (case find (\<lambda>c. Kind c = ''identifier'' \<or> Kind c = ''field_expression'') (NamedChildren call) of
        Some c \<Rightarrow> Text c | None \<Rightarrow> '''')"

function rhsCallName :: "Node \<Rightarrow> string" where
  "rhsCallName n =
     (if Kind n = ''call_expression'' then callName n
      else if isWrapper n then firstName rhsCallName (NamedChildren n) else '''')"
  by pat_completeness auto
termination by (relation "measure size") (simp_all add: size_NamedChildren)

declare rhsVarName.simps [simp del] copySourceKey.simps [simp del] rhsCallName.simps [simp del]

definition binaryOperatorToken :: "Node \<Rightarrow> string" where
  "binaryOperatorToken n =
     (case find (\<lambda>c. Kind c \<in> set [''<'', ''<='', ''>'', ''>='', ''&&'', ''||'', ''=='', ''!='', ''+'', ''-'', ''*'', ''/'', ''%''])
         (Children n) of Some c \<Rightarrow> Kind c | None \<Rightarrow> '''')"

text \<open>fieldBaseName scans the key for the first member or subscript access.\<close>

fun fieldBaseScan :: "string \<Rightarrow> string \<Rightarrow> string" where
  "fieldBaseScan seen [] = ''''"
| "fieldBaseScan seen (c # cs) =
     (if c = CHR ''-'' then
        (if cs \<noteq> [] \<and> hd cs = CHR ''>'' then TrimSpace seen else fieldBaseScan (seen @ [c]) cs)
      else if c = CHR ''.'' \<or> c = CHR ''['' then TrimSpace seen
      else fieldBaseScan (seen @ [c]) cs)"

definition fieldBaseName :: "string \<Rightarrow> string" where
  "fieldBaseName key = fieldBaseScan [] key"


section \<open>Assignments\<close>

definition AssignParts :: "Node \<Rightarrow> (Node \<times> Node) option" where
  "AssignParts n =
     (if Kind n = ''assignment_expression'' then
        (case NamedChildren n of l # r # cs \<Rightarrow> Some (l, r) | _ \<Rightarrow> None)
      else if Kind n = ''init_declarator'' then
        (case (ChildByFieldName ''declarator'' n, ChildByFieldName ''value'' n) of
           (Some d, Some v) \<Rightarrow> Some (d, v) | _ \<Rightarrow> None)
      else None)"

text \<open>The targets of a chained assignment, outermost first, and the value they all get.\<close>

function chainTargets :: "Node \<Rightarrow> Node list \<times> Node" where
  "chainTargets n =
     (if Kind n = ''assignment_expression'' then
        (case NamedChildren n of
           l # r # cs \<Rightarrow> (case chainTargets r of (ts, v) \<Rightarrow> (l # ts, v))
         | _ \<Rightarrow> ([], n))
      else ([], n))"
  by pat_completeness auto
termination
proof (relation "measure size")
  fix n l w r cs
  assume "NamedChildren n = l # w" "w = r # cs"
  then have "r \<in> set (NamedChildren n)" by simp
  then show "(r, n) \<in> measure size" by (simp add: size_NamedChildren)
qed simp

declare chainTargets.simps [simp del]

definition appendChainedAssign :: "Node \<Rightarrow> (Node \<times> Node) list" where
  "appendChainedAssign a = (case chainTargets a of (ts, v) \<Rightarrow> map (\<lambda>t. (t, v)) ts)"

definition directAssignments :: "Node \<Rightarrow> (Node \<times> Node) list" where
  "directAssignments stmt =
     (let k = Kind stmt in
      if k = ''assignment_expression'' then appendChainedAssign stmt
      else if k = ''expression_statement'' \<or> k = ''comma_expression'' then
        concat (map appendChainedAssign (filter (\<lambda>c. Kind c = ''assignment_expression'') (NamedChildren stmt)))
      else if k = ''declaration'' then
        List.map_filter AssignParts (filter (\<lambda>c. Kind c = ''init_declarator'') (NamedChildren stmt))
      else if k \<in> set [''if_statement'', ''while_statement'', ''do_statement'', ''for_statement''] then
        (case ChildByFieldName ''condition'' stmt of
           None \<Rightarrow> []
         | Some cond \<Rightarrow> concat (map appendChainedAssign (FindAll ''assignment_expression'' cond)))
      else [])"

text \<open>Every target of a chain gets the value at its end, which is no assignment with two operands.\<close>

lemma chain_value:
  "chainTargets n = (ts, v) \<Longrightarrow> Kind v \<noteq> ''assignment_expression'' \<or> length (NamedChildren v) < 2"
proof (induction n arbitrary: ts v rule: chainTargets.induct)
  case (1 n)
  show ?case
  proof (cases "Kind n = ''assignment_expression'' \<and> (\<exists>l r cs. NamedChildren n = l # r # cs)")
    case True
    then obtain l r cs where n: "Kind n = ''assignment_expression''" "NamedChildren n = l # r # cs" by blast
    obtain ts' v' where "chainTargets r = (ts', v')" by fastforce
    with 1 n show ?thesis by (auto simp: chainTargets.simps [of n])
  next
    case False
    with 1(2) show ?thesis
      by (auto simp: chainTargets.simps [of n] split: list.splits if_splits)
  qed
qed

end
