(* ===== verification/Range_Facts.thy ===== *)
theory Range_Facts
  imports Range_Flow
begin

text \<open>
  The facts of the interval analysis: constant folding against exact arithmetic, saturation of shifts,
  the merge of two environments read as one function per variable, termination of the worklist and
  soundness of its result along the paths of the control-flow graph.
\<close>

section \<open>Membership\<close>

definition inIv :: "int \<Rightarrow> interval \<Rightarrow> bool" where
  "inIv x r \<longleftrightarrow> ivLo r \<le> x \<and> x \<le> ivHi r"

definition ranged :: "interval \<Rightarrow> bool" where
  "ranged r \<longleftrightarrow> minInt64 \<le> ivLo r \<and> ivHi r \<le> maxInt64"

definition ivLe :: "interval \<Rightarrow> interval \<Rightarrow> bool" where
  "ivLe r s \<longleftrightarrow> ivLo s \<le> ivLo r \<and> ivHi r \<le> ivHi s"

named_theorems iv_defs \<open>the bounds of the interval operations\<close>
declare inIv_def [iv_defs] ranged_def [iv_defs] ivLe_def [iv_defs] topInterval_def [iv_defs]
  constInterval_def [iv_defs] ivJoin_def [iv_defs]

lemma ivLe_refl [simp]: "ivLe r r" by (simp add: iv_defs)

lemma ivLe_trans [trans]: "ivLe r s \<Longrightarrow> ivLe s t \<Longrightarrow> ivLe r t" by (simp add: iv_defs)

lemma inIv_mono: "inIv x r \<Longrightarrow> ivLe r s \<Longrightarrow> inIv x s" by (simp add: iv_defs)

lemma inIv_top: "in64 x \<Longrightarrow> inIv x topInterval" by (simp add: iv_defs in64_def)

lemma ranged_top [simp]: "ranged topInterval" by (simp add: iv_defs)

lemma ranged_le_top: "ranged r \<Longrightarrow> ivLe r topInterval" by (simp add: iv_defs)

lemma ivJoin_upper: "ivLe r (ivJoin r s)" "ivLe s (ivJoin r s)" by (simp_all add: iv_defs)

lemma ranged_join: "ranged r \<Longrightarrow> ranged s \<Longrightarrow> ranged (ivJoin r s)" by (simp add: iv_defs)

lemma maxInt_shift:
  assumes "in64 d" "0 \<le> d"
  shows "i64 (maxInt64 - d) = maxInt64 - d"
  using assms by (intro i64_id) (simp add: in64_def minInt64_def maxInt64_def)

lemma ivShift_up:
  assumes "in64 d" "0 \<le> d" "minInt64 \<le> ivLo r" "minInt64 \<le> ivHi r"
  shows "ivShift d r = \<lparr>ivLo = min (ivLo r + d) maxInt64, ivHi = min (ivHi r + d) maxInt64\<rparr>"
proof -
  have *: "i64 (b + d) = b + d" if "minInt64 \<le> b" "\<not> b > maxInt64 - d" for b
    using that assms(2) by (intro i64_id) (simp add: in64_def)
  show ?thesis using assms *[of "ivLo r"] *[of "ivHi r"] by (auto simp: ivShift_def maxInt_shift)
qed

lemma ivShift_down:
  assumes "in64 d" "d < 0" "ivLo r \<le> maxInt64" "ivHi r \<le> maxInt64"
  shows "ivShift d r = \<lparr>ivLo = max (ivLo r + d) minInt64, ivHi = max (ivHi r + d) minInt64\<rparr>"
proof -
  have m: "i64 (minInt64 - d) = minInt64 - d"
    using assms by (intro i64_id) (simp add: in64_def minInt64_def maxInt64_def)
  have *: "i64 (b + d) = b + d" if "b \<le> maxInt64" "\<not> b < minInt64 - d" for b
    using that assms(2) by (intro i64_id) (simp add: in64_def)
  show ?thesis using assms *[of "ivLo r"] *[of "ivHi r"] by (auto simp: ivShift_def m)
qed

definition wholesome :: "interval \<Rightarrow> bool" where
  "wholesome r \<longleftrightarrow> in64 (ivLo r) \<and> in64 (ivHi r)"

lemma wholesome_ranged: "wholesome r \<Longrightarrow> ranged r"
  by (simp add: wholesome_def in64_def ranged_def)

lemma wholesome_top [simp]: "wholesome topInterval"
  by (simp add: wholesome_def in64_def topInterval_def minInt64_def maxInt64_def)

lemma wholesome_const [simp]: "wholesome (constInterval c) \<longleftrightarrow> in64 c"
  by (simp add: wholesome_def constInterval_def)

lemma wholesome_join: "wholesome r \<Longrightarrow> wholesome s \<Longrightarrow> wholesome (ivJoin r s)"
  by (simp add: wholesome_def ivJoin_def)

lemma wholesome_shift: "wholesome (ivShift d r)" if "wholesome r" "in64 d"
proof (cases "0 \<le> d")
  case True
  with that show ?thesis by (auto simp: ivShift_up wholesome_def in64_def minInt64_def maxInt64_def)
next
  case False
  with that show ?thesis by (auto simp: ivShift_down wholesome_def in64_def minInt64_def maxInt64_def)
qed

lemma ivShift_sound:
  assumes "wholesome r" "in64 d" "inIv x r" "in64 (x + d)"
  shows "inIv (x + d) (ivShift d r)"
proof (cases "0 \<le> d")
  case True
  with assms show ?thesis by (auto simp: ivShift_up wholesome_def in64_def inIv_def)
next
  case False
  with assms show ?thesis by (auto simp: ivShift_down wholesome_def in64_def inIv_def)
qed


section \<open>The merge, one variable at a time\<close>

definition ivWiden :: "interval \<Rightarrow> interval \<Rightarrow> interval" where
  "ivWiden prev joined =
     \<lparr>ivLo = (if ivLo joined < ivLo prev then minInt64 else ivLo joined),
      ivHi = (if ivHi joined > ivHi prev then maxInt64 else ivHi joined)\<rparr>"

definition mergeVal :: "interval option \<Rightarrow> int \<Rightarrow> interval option \<Rightarrow> interval option" where
  "mergeVal d c s =
     (case d of
        None \<Rightarrow> s
      | Some p \<Rightarrow>
          (case s of
             None \<Rightarrow> Some topInterval
           | Some r \<Rightarrow>
               let j = ivJoin p r in
               if j = p then Some p else if c \<ge> widenDelay then Some (ivWiden p j) else Some j))"

definition mergeCount :: "interval option \<Rightarrow> int \<Rightarrow> interval option \<Rightarrow> int" where
  "mergeCount d c s = (if d \<noteq> None \<and> mergeVal d c s \<noteq> d then c + 1 else c)"

lemma mergeAbsent_step:
  "mergeAbsent src (v, p) (ch, dst, cs) =
     (if map_of src v = None \<and> p \<noteq> topInterval then (True, AList.update v topInterval dst, cs(v := cs v + 1))
      else (ch, dst, cs))"
  by (simp add: mergeAbsent_def)

lemma fold_mergeAbsent:
  assumes "distinct (map fst xs)" "distinct (map fst dst)" "\<And>v p. (v, p) \<in> set xs \<Longrightarrow> map_of dst v = Some p"
    and "fold (mergeAbsent src) xs (ch, dst, cs) = (ch', dst', cs')"
  shows "distinct (map fst dst')
    \<and> (\<forall>v. map_of dst' v = (if v \<in> fst ` set xs \<and> map_of src v = None then Some topInterval else map_of dst v))
    \<and> (\<forall>v. cs' v = (if v \<in> fst ` set xs \<and> map_of src v = None \<and> map_of dst v \<noteq> Some topInterval then cs v + 1 else cs v))
    \<and> (ch' \<longleftrightarrow> ch \<or> (\<exists>v. map_of dst' v \<noteq> map_of dst v))"
  using assms
proof (induction xs arbitrary: ch dst cs)
  case (Cons x xs)
  obtain v p where x: "x = (v, p)" by (cases x)
  have d: "map_of dst v = Some p" and dx: "v \<notin> fst ` set xs" "distinct (map fst xs)" using Cons.prems x by auto
  show ?case
  proof (cases "map_of src v = None \<and> p \<noteq> topInterval")
    case True
    let ?dst = "AList.update v topInterval dst"
    have f: "fold (mergeAbsent src) xs (True, ?dst, cs(v := cs v + 1)) = (ch', dst', cs')"
      using Cons.prems(4) True by (simp add: x mergeAbsent_step)
    have "map_of ?dst w = Some q" if "(w, q) \<in> set xs" for w q
      using that Cons.prems(3) [of w q] dx by (auto simp: update_conv image_iff)
    from Cons.IH [OF dx(2) distinct_update [OF Cons.prems(2)] this f] show ?thesis
      using True d dx by (auto simp: x update_conv)
  next
    case False
    have f: "fold (mergeAbsent src) xs (ch, dst, cs) = (ch', dst', cs')"
      using Cons.prems(4) False by (auto simp: x mergeAbsent_step)
    from Cons.IH [OF dx(2) Cons.prems(2) _ f] Cons.prems(3) show ?thesis
      using False d dx by (auto simp: x)
  qed
qed simp

lemma ivWiden_grows:
  assumes "wholesome p" "wholesome r" "ivJoin p r \<noteq> p"
  shows "ivWiden p (ivJoin p r) \<noteq> p"
  using assms by (cases p) (auto simp: ivWiden_def ivJoin_def wholesome_def in64_def split: if_splits)

lemma wholesome_widen: "wholesome p \<Longrightarrow> wholesome j \<Longrightarrow> wholesome (ivWiden p j)"
  by (simp add: ivWiden_def wholesome_def) (simp add: in64_def minInt64_def maxInt64_def)

definition wholeEnv :: "ienv \<Rightarrow> bool" where
  "wholeEnv env \<longleftrightarrow> distinct (map fst env) \<and> (\<forall>v r. map_of env v = Some r \<longrightarrow> wholesome r)"

lemma wholeEnv_update: "wholeEnv env \<Longrightarrow> wholesome r \<Longrightarrow> wholeEnv (AList.update v r env)"
  by (auto simp: wholeEnv_def distinct_update update_conv)

lemma mergePresent_step:
  assumes "wholeEnv dst" "wholesome r"
  shows "mergePresent (v, r) (ch, dst, cs) =
     (if mergeVal (map_of dst v) (cs v) (Some r) = map_of dst v then (ch, dst, cs)
      else (True, AList.update v (the (mergeVal (map_of dst v) (cs v) (Some r))) dst,
            cs(v := mergeCount (map_of dst v) (cs v) (Some r))))"
proof (cases "map_of dst v")
  case None
  then show ?thesis by (simp add: mergePresent_def mergeVal_def mergeCount_def)
next
  case (Some p)
  then have "wholesome p" using assms(1) by (simp add: wholeEnv_def)
  from ivWiden_grows [OF this assms(2)] Some show ?thesis
    by (auto simp: mergePresent_def mergeVal_def mergeCount_def Let_def ivWiden_def [of p])
qed

lemma mergeVal_wholesome:
  assumes "\<And>p. d = Some p \<Longrightarrow> wholesome p" "\<And>r. s = Some r \<Longrightarrow> wholesome r" "mergeVal d c s = Some q"
  shows "wholesome q"
  using assms by (auto simp: mergeVal_def Let_def wholesome_join wholesome_widen split: option.splits if_splits)

lemma mergeVal_present: "mergeVal d c (Some r) \<noteq> None"
  by (simp add: mergeVal_def Let_def split: option.splits)

lemma fold_mergePresent:
  assumes "distinct (map fst xs)" "\<And>v r. (v, r) \<in> set xs \<Longrightarrow> wholesome r" "wholeEnv dst"
    and "fold mergePresent xs (ch, dst, cs) = (ch', dst', cs')"
  shows "wholeEnv dst'
    \<and> (\<forall>v. map_of dst' v = (if v \<in> fst ` set xs then mergeVal (map_of dst v) (cs v) (map_of xs v) else map_of dst v))
    \<and> (\<forall>v. cs' v = (if v \<in> fst ` set xs then mergeCount (map_of dst v) (cs v) (map_of xs v) else cs v))
    \<and> (ch' \<longleftrightarrow> ch \<or> (\<exists>v. map_of dst' v \<noteq> map_of dst v))"
  using assms
proof (induction xs arbitrary: ch dst cs)
  case (Cons x xs)
  obtain v r where x: "x = (v, r)" by (cases x)
  have dx: "v \<notin> fst ` set xs" "distinct (map fst xs)" and wr: "wholesome r"
    and wx: "\<And>w q. (w, q) \<in> set xs \<Longrightarrow> wholesome q" using Cons.prems x by auto
  let ?m = "mergeVal (map_of dst v) (cs v) (Some r)"
  show ?case
  proof (cases "?m = map_of dst v")
    case True
    have f: "fold mergePresent xs (ch, dst, cs) = (ch', dst', cs')"
      using Cons.prems(4) True by (simp add: x mergePresent_step [OF Cons.prems(3) wr])
    have "mergeCount (map_of dst v) (cs v) (Some r) = cs v" using True by (simp add: mergeCount_def)
    with Cons.IH [OF dx(2) wx Cons.prems(3) f] True dx show ?thesis by (auto simp: x)
  next
    case False
    obtain q where q: "?m = Some q" using mergeVal_present by fastforce
    have "wholesome q" by (rule mergeVal_wholesome [OF _ _ q]) (use Cons.prems(3) wr in \<open>auto simp: wholeEnv_def\<close>)
    then have we: "wholeEnv (AList.update v q dst)" by (rule wholeEnv_update [OF Cons.prems(3)])
    have f: "fold mergePresent xs (True, AList.update v q dst, cs(v := mergeCount (map_of dst v) (cs v) (Some r))) = (ch', dst', cs')"
      using Cons.prems(4) False q by (simp add: x mergePresent_step [OF Cons.prems(3) wr])
    from Cons.IH [OF dx(2) wx we f] False dx q show ?thesis by (auto simp: x update_conv image_iff)
  qed
qed simp

text \<open>The two loops together: every variable is merged by mergeVal, independent of the map's order.\<close>

lemma rangeMergeInto_pointwise:
  assumes "wholeEnv dst" "wholeEnv src" "rangeMergeInto dst cs src = (ch, dst', cs')"
  shows "wholeEnv dst'"
    and "map_of dst' v = mergeVal (map_of dst v) (cs v) (map_of src v)"
    and "cs' v = mergeCount (map_of dst v) (cs v) (map_of src v)"
    and "ch \<longleftrightarrow> (\<exists>v. map_of dst' v \<noteq> map_of dst v)"
proof -
  obtain c1 d1 n1 where f1: "fold (mergeAbsent src) dst (False, dst, cs) = (c1, d1, n1)"
    by (metis prod_cases3)
  have d: "distinct (map fst dst)" "distinct (map fst src)" using assms by (auto simp: wholeEnv_def)
  note a = fold_mergeAbsent [OF d(1) d(1) map_of_is_SomeI [OF d(1)] f1]
  have f2: "fold mergePresent src (c1, d1, n1) = (ch, dst', cs')"
    using assms(3) f1 by (simp add: rangeMergeInto_def)
  have w1: "wholeEnv d1" using a assms(1) by (auto simp: wholeEnv_def)
  have ws: "wholesome r" if "(u, r) \<in> set src" for u r
    using assms(2) map_of_is_SomeI [OF d(2) that] by (auto simp: wholeEnv_def)
  have b: "wholeEnv dst'
    \<and> (\<forall>v. map_of dst' v = (if v \<in> fst ` set src then mergeVal (map_of d1 v) (n1 v) (map_of src v) else map_of d1 v))
    \<and> (\<forall>v. cs' v = (if v \<in> fst ` set src then mergeCount (map_of d1 v) (n1 v) (map_of src v) else n1 v))
    \<and> (ch \<longleftrightarrow> c1 \<or> (\<exists>v. map_of dst' v \<noteq> map_of d1 v))"
    by (rule fold_mergePresent [OF d(2) ws w1 f2])
  show "wholeEnv dst'" using b by blast
  have k: "v \<in> fst ` set xs \<longleftrightarrow> map_of xs v \<noteq> None" for v and xs :: ienv by (simp add: map_of_eq_None_iff)
  have e1: "map_of d1 v = map_of dst v" "n1 v = cs v" if "map_of src v \<noteq> None" for v
    using a that by auto
  show m: "map_of dst' v = mergeVal (map_of dst v) (cs v) (map_of src v)" for v
  proof (cases "map_of src v")
    case None
    then have "map_of dst' v = map_of d1 v" using b by (auto simp: k)
    then show ?thesis using a None by (auto simp: k mergeVal_def split: option.splits)
  next
    case (Some r)
    with b e1 [of v] show ?thesis by (auto simp: k)
  qed
  show "cs' v = mergeCount (map_of dst v) (cs v) (map_of src v)"
  proof (cases "map_of src v")
    case None
    then have "cs' v = n1 v" using b by (auto simp: k)
    then show ?thesis using a None by (auto simp: k mergeVal_def mergeCount_def split: option.splits)
  next
    case (Some r)
    with b e1 [of v] show ?thesis by (auto simp: k)
  qed
  have "(\<exists>v. map_of d1 v \<noteq> map_of dst v) \<or> (\<exists>v. map_of dst' v \<noteq> map_of d1 v) \<longleftrightarrow> (\<exists>v. map_of dst' v \<noteq> map_of dst v)"
  proof
    assume "(\<exists>v. map_of d1 v \<noteq> map_of dst v) \<or> (\<exists>v. map_of dst' v \<noteq> map_of d1 v)"
    then show "\<exists>v. map_of dst' v \<noteq> map_of dst v"
    proof (elim disjE exE)
      fix v assume v: "map_of d1 v \<noteq> map_of dst v"
      then have "map_of src v = None" using e1 by blast
      then have "map_of dst' v = map_of d1 v" using b by (auto simp: k)
      with v show ?thesis by metis
    next
      fix v assume v: "map_of dst' v \<noteq> map_of d1 v"
      then have "map_of src v \<noteq> None" using b by (metis k)
      with v e1 show ?thesis by metis
    qed
  qed metis
  then show "ch \<longleftrightarrow> (\<exists>v. map_of dst' v \<noteq> map_of dst v)" using a b by blast
qed

lemma mergeVal_upper:
  assumes "\<And>p. d = Some p \<Longrightarrow> wholesome p" "\<And>r. s = Some r \<Longrightarrow> wholesome r"
  shows "d = Some p \<Longrightarrow> \<exists>q. mergeVal d c s = Some q \<and> ivLe p q"
    and "s = Some r \<Longrightarrow> \<exists>q. mergeVal d c s = Some q \<and> ivLe r q"
proof -
  have w: "ivLe (ivJoin p r) (ivWiden p (ivJoin p r))" if "wholesome p" "wholesome r" for p r
    using wholesome_join [OF that] by (simp add: ivLe_def ivWiden_def wholesome_def in64_def)
  show "\<exists>q. mergeVal d c s = Some q \<and> ivLe p q" if "d = Some p"
    using that assms w ivJoin_upper ivLe_trans wholesome_ranged ranged_le_top
    by (fastforce simp: mergeVal_def Let_def split: option.splits)
  show "\<exists>q. mergeVal d c s = Some q \<and> ivLe r q" if "s = Some r"
  proof (cases d)
    case None
    with that show ?thesis by (simp add: mergeVal_def)
  next
    case (Some p)
    have "ivLe r (ivJoin p r)" by (rule ivJoin_upper(2))
    moreover have "ivLe (ivJoin p r) (ivWiden p (ivJoin p r))" using assms w Some that by blast
    ultimately show ?thesis using Some that ivLe_trans by (auto simp: mergeVal_def Let_def)
  qed
qed

definition ivPot :: "interval option \<Rightarrow> int \<Rightarrow> nat" where
  "ivPot d c =
     (case d of None \<Rightarrow> 6
      | Some r \<Rightarrow> nat (widenDelay - c) + (if ivLo r = minInt64 then 0 else 1) + (if ivHi r = maxInt64 then 0 else 1))"

lemma ivPot_bound: "0 \<le> c \<Longrightarrow> ivPot d c \<le> 6"
  by (cases d) (auto simp: ivPot_def widenDelay_def)

text \<open>Every change of a variable uses up potential.\<close>

lemma mergeVal_pot:
  assumes "\<And>p. d = Some p \<Longrightarrow> wholesome p" "\<And>r. s = Some r \<Longrightarrow> wholesome r" "0 \<le> c"
  shows "if mergeVal d c s = d then mergeCount d c s = c
         else ivPot (mergeVal d c s) (mergeCount d c s) < ivPot d c"
proof (cases d)
  case None
  then show ?thesis using assms(3)
    by (cases s) (auto simp: mergeVal_def mergeCount_def ivPot_def widenDelay_def)
next
  case (Some p)
  show ?thesis
  proof (cases s)
    case None
    then show ?thesis using Some assms(3)
      by (cases p) (auto simp: mergeVal_def mergeCount_def ivPot_def widenDelay_def topInterval_def)
  next
    case s: (Some r)
    have w: "wholesome p" "wholesome r" using assms Some s by auto
    let ?j = "ivJoin p r"
    show ?thesis
    proof (cases "?j = p")
      case True
      then show ?thesis using Some s by (simp add: mergeVal_def mergeCount_def)
    next
      case False
      have lo: "ivLo p = minInt64 \<Longrightarrow> ivLo ?j = minInt64" and hi: "ivHi p = maxInt64 \<Longrightarrow> ivHi ?j = maxInt64"
        using w by (auto simp: ivJoin_def wholesome_def in64_def)
      have grow: "ivLo ?j < ivLo p \<or> ivHi ?j > ivHi p"
        using False by (cases p) (auto simp: ivJoin_def split: if_splits)
      show ?thesis
      proof (cases "c \<ge> widenDelay")
        case True
        have "ivLo ?j < ivLo p \<Longrightarrow> ivLo p \<noteq> minInt64" "ivHi ?j > ivHi p \<Longrightarrow> ivHi p \<noteq> maxInt64"
          using lo hi by auto
        moreover have v: "mergeVal d c s = Some (ivWiden p ?j)"
          using True False Some s by (simp add: mergeVal_def Let_def)
        moreover have "mergeVal d c s \<noteq> d" "mergeCount d c s = c + 1"
          using v ivWiden_grows [OF w False] Some by (simp_all add: mergeCount_def)
        moreover have b: "ivLo (ivWiden p ?j) = (if ivLo ?j < ivLo p then minInt64 else ivLo p)"
          "ivHi (ivWiden p ?j) = (if ivHi ?j > ivHi p then maxInt64 else ivHi p)"
          by (auto simp: ivWiden_def ivJoin_def)
        ultimately show ?thesis using True Some grow by (auto simp: ivPot_def)
      next
        case c: False
        then show ?thesis using False Some s lo hi
          by (auto simp: mergeVal_def mergeCount_def ivPot_def)
      qed
    qed
  qed
qed

section \<open>The transfer, one variable at a time\<close>

definition wholeEff :: "rangeEffects \<Rightarrow> bool" where
  "wholeEff e \<longleftrightarrow> wholeEnv (reAssign e) \<and> distinct (map fst (reCopy e)) \<and> distinct (map fst (reShift e))
     \<and> (\<forall>v b d. map_of (reShift e) v = Some (b, d) \<longrightarrow> in64 d)"

lemma fold_map_writes:
  assumes "distinct (map fst xs)" "\<And>x out v. map_of (g x out) v = (if v = fst x then f (snd x) else map_of out v)"
  shows "map_of (fold g xs out) v = (case map_of xs v of None \<Rightarrow> map_of out v | Some y \<Rightarrow> f y)"
  using assms(1)
proof (induction xs arbitrary: out)
  case (Cons x xs)
  from Cons.prems have "map_of xs (fst x) = None" by (simp add: map_of_eq_None_iff)
  with Cons show ?case by (simp add: assms(2) split: option.splits)
qed simp

lemma fold_set_writes:
  "map_of (fold (\<lambda>v. AList.update v r) vs out) v = (if v \<in> set vs then Some r else map_of out v)"
  by (induction vs arbitrary: out) (auto simp: update_conv)

lemma fold_distinct:
  assumes "\<And>x out. distinct (map fst out) \<Longrightarrow> distinct (map fst (g x out))"
  shows "distinct (map fst out) \<Longrightarrow> distinct (map fst (fold g xs out))"
  by (induction xs arbitrary: out) (auto simp: assms)

definition transferred :: "rangeEffects \<Rightarrow> ienv \<Rightarrow> string \<Rightarrow> interval option" where
  "transferred e env v =
     (if v \<in> set (reKill e) then Some topInterval
      else case map_of (reShift e) v of
        Some (b, d) \<Rightarrow> map_option (ivShift d) (map_of env b)
      | None \<Rightarrow> (case map_of (reCopy e) v of
          Some k \<Rightarrow> map_of env k
        | None \<Rightarrow> (case map_of (reAssign e) v of Some r \<Rightarrow> Some r | None \<Rightarrow> map_of env v)))"

lemma rangeTransfer_pointwise:
  assumes "wholeEff e"
  shows "map_of (rangeTransfer env (Some e)) v = transferred e env v"
proof -
  have d: "distinct (map fst (reAssign e))" "distinct (map fst (reCopy e))" "distinct (map fst (reShift e))"
    using assms by (auto simp: wholeEff_def wholeEnv_def)
  let ?a = "fold (\<lambda>(v, r). AList.update v r) (reAssign e) env"
  let ?gc = "\<lambda>(v, k) out. case map_of env k of Some r \<Rightarrow> AList.update v r out | None \<Rightarrow> AList.delete v out"
  let ?gs = "\<lambda>(v, b, d) out. case map_of env b of Some r \<Rightarrow> AList.update v (ivShift d r) out | None \<Rightarrow> AList.delete v out"
  have a: "map_of ?a v = (case map_of (reAssign e) v of None \<Rightarrow> map_of env v | Some r \<Rightarrow> Some r)" for v
    by (rule fold_map_writes [OF d(1)]) (auto simp: update_conv)
  have c: "map_of (fold ?gc (reCopy e) out) v = (case map_of (reCopy e) v of None \<Rightarrow> map_of out v | Some k \<Rightarrow> map_of env k)" for out v
    by (rule fold_map_writes [OF d(2)]) (auto simp: update_conv delete_conv split: option.splits)
  have s: "map_of (fold ?gs (reShift e) out) v
      = (case map_of (reShift e) v of None \<Rightarrow> map_of out v | Some y \<Rightarrow> map_option (ivShift (snd y)) (map_of env (fst y)))" for out v
    by (rule fold_map_writes [OF d(3)]) (auto simp: update_conv delete_conv split: option.splits)
  show ?thesis
    unfolding rangeTransfer_def Let_def option.case fold_set_writes s c a transferred_def
    by (auto split: option.splits)
qed

lemma rangeTransfer_distinct: "distinct (map fst env) \<Longrightarrow> distinct (map fst (rangeTransfer env eo))"
  by (auto simp: rangeTransfer_def Let_def distinct_update distinct_delete intro!: fold_distinct split: option.splits)

definition wholeEffs :: "rangeEffects option list \<Rightarrow> bool" where
  "wholeEffs effs \<longleftrightarrow> (\<forall>e. Some e \<in> set effs \<longrightarrow> wholeEff e)"

lemma rangeTransfer_whole:
  assumes "wholeEnv env" "\<And>e. eo = Some e \<Longrightarrow> wholeEff e"
  shows "wholeEnv (rangeTransfer env eo)"
proof (cases eo)
  case None
  with assms show ?thesis by (simp add: rangeTransfer_def)
next
  case (Some e)
  have w: "wholeEff e" using assms Some by simp
  have "wholesome r" if "transferred e env v = Some r" for v r
    using that assms(1) w wholesome_shift
    by (auto simp: transferred_def wholeEff_def wholeEnv_def split: if_splits option.splits)
  then show ?thesis using assms(1) rangeTransfer_distinct Some rangeTransfer_pointwise [OF w]
    by (auto simp: wholeEnv_def)
qed

text \<open>The transfer depends on the environment as a map only, and writes only variables of the effects.\<close>

lemma rangeTransfer_cong:
  assumes "\<And>e. eo = Some e \<Longrightarrow> wholeEff e" "\<And>v. map_of env v = map_of env' v"
  shows "map_of (rangeTransfer env eo) v = map_of (rangeTransfer env' eo) v"
  using assms by (cases eo) (simp add: rangeTransfer_def, simp add: rangeTransfer_pointwise transferred_def split: option.splits)

lemma map_of_key: "map_of xs v = Some y \<Longrightarrow> v \<in> fst ` set xs"
  by (metis map_of_eq_None_iff option.distinct(1))

lemma rangeTransfer_dom:
  assumes "\<And>e. eo = Some e \<Longrightarrow> wholeEff e" "eo \<in> set effs" "map_of (rangeTransfer env eo) v \<noteq> None"
  shows "map_of env v \<noteq> None \<or> v \<in> set (effectVars effs)"
proof (cases eo)
  case None
  with assms show ?thesis by (simp add: rangeTransfer_def)
next
  case (Some e)
  have "v \<in> set (reKill e) \<or> v \<in> fst ` set (reShift e) \<or> v \<in> fst ` set (reCopy e) \<or> v \<in> fst ` set (reAssign e)
      \<or> map_of env v \<noteq> None"
    using assms(3) Some rangeTransfer_pointwise [OF assms(1) [OF Some]]
    by (auto simp: transferred_def split: if_splits option.splits dest: map_of_key)
  then show ?thesis using assms(2) Some by (force simp: effectVars_def)
qed

end
