(* ===== verification/Const_Fold.thy ===== *)
theory Const_Fold
  imports Range_Facts
begin

text \<open>
  The constant folding of planner/range_flow.go against exact integer arithmetic: a reference that
  gives no value when an operation leaves the range of int64, and where the code departs from it.
\<close>

definition exactResult :: "string \<Rightarrow> int \<Rightarrow> int \<Rightarrow> int" where
  "exactResult op l r =
     (if op = ''*'' then l * r else if op = ''+'' then l + r else if op = ''-'' then l - r else go_quot l r)"

definition exactOp :: "string \<Rightarrow> int \<Rightarrow> int \<Rightarrow> int option" where
  "exactOp op l r =
     (if op = ''/'' \<and> r = 0 then None else if in64 (exactResult op l r) then Some (exactResult op l r) else None)"

function exactValue :: "Node \<Rightarrow> int option" where
  "exactValue n =
     (case peelFirst n of
        None \<Rightarrow> None
      | Some m \<Rightarrow>
          if Kind m = ''number_literal'' then ParseInt64 (TrimSpace (Text m))
          else if Kind m \<noteq> ''binary_expression'' then None
          else if binaryOperatorToken m \<notin> set [''*'', ''+'', ''-'', ''/''] then None
          else (case NamedChildren m of
                  [a, b] \<Rightarrow> (case (exactValue a, exactValue b) of
                               (Some l, Some r) \<Rightarrow> exactOp (binaryOperatorToken m) l r
                             | _ \<Rightarrow> None)
                | _ \<Rightarrow> None))"
  by pat_completeness auto
termination
  by (relation "measure size") (auto dest: peeled_operands_smaller)

declare exactValue.simps [simp del]

lemma i64_cong: "\<exists>k. i64 x = x - k * 2 ^ 64"
proof
  show "i64 x = x - ((x + 2 ^ 63) div 2 ^ 64) * 2 ^ 64"
    by (simp add: i64_def minus_div_mult_eq_mod [symmetric])
qed

lemma i64_period: "i64 (x + k * 2 ^ 64) = i64 x"
proof -
  have "x + k * 2 ^ 64 + 2 ^ 63 = x + 2 ^ 63 + k * 2 ^ 64" by (rule add.assoc [THEN trans]) simp
  then show ?thesis unfolding i64_def by (simp only: mod_mult_self1)
qed

lemma i64_sum_sign:
  assumes "in64 l" "in64 r" "\<not> in64 (l + r)"
  shows "(l > 0 \<and> r > 0 \<and> i64 (l + r) < 0) \<or> (l < 0 \<and> r < 0 \<and> i64 (l + r) \<ge> 0)"
proof (cases "l + r > maxInt64")
  case True
  have "i64 (l + r) = i64 (l + r + (-1) * 2 ^ 64)" by (rule i64_period [symmetric])
  also have "\<dots> = l + r - 2 ^ 64" using True assms by (subst i64_id) (simp_all add: in64_def minInt64_def maxInt64_def)
  finally show ?thesis using True assms by (simp add: in64_def minInt64_def maxInt64_def)
next
  case False
  have "i64 (l + r) = i64 (l + r + 1 * 2 ^ 64)" by (rule i64_period [symmetric])
  also have "\<dots> = l + r + 2 ^ 64" using False assms by (subst i64_id) (simp_all add: in64_def minInt64_def maxInt64_def)
  finally show ?thesis using False assms by (simp add: in64_def minInt64_def maxInt64_def)
qed

lemma i64_sum_exact:
  assumes "in64 l" "in64 r" "in64 (l + r)"
  shows "\<not> ((l > 0 \<and> r > 0 \<and> i64 (l + r) < 0) \<or> (l < 0 \<and> r < 0 \<and> i64 (l + r) \<ge> 0))"
  using assms by (simp add: i64_id)

lemma go_quot_times: "b \<noteq> 0 \<Longrightarrow> go_quot (a * b) b = a"
  by (auto simp: go_quot_def abs_mult sgn_mult mult.commute abs_sgn_eq zero_less_mult_iff sgn_if)

lemma go_rem_bound:
  assumes "b \<noteq> 0"
  shows "\<bar>a - b * go_quot a b\<bar> < \<bar>b\<bar>"
proof -
  have "a - b * go_quot a b = sgn a * (\<bar>a\<bar> mod \<bar>b\<bar>)"
  proof -
    have "b * go_quot a b = sgn a * (\<bar>b\<bar> * (\<bar>a\<bar> div \<bar>b\<bar>))"
      by (simp add: go_quot_def abs_sgn mult_ac)
    moreover have "a = sgn a * \<bar>a\<bar>" by (simp add: sgn_mult_abs)
    ultimately have "a - b * go_quot a b = sgn a * (\<bar>a\<bar> - \<bar>b\<bar> * (\<bar>a\<bar> div \<bar>b\<bar>))"
      by (simp add: right_diff_distrib)
    then show ?thesis by (simp add: minus_mult_div_eq_mod)
  qed
  moreover have "\<bar>a\<bar> mod \<bar>b\<bar> < \<bar>b\<bar>" "0 \<le> \<bar>a\<bar> mod \<bar>b\<bar>" using assms by simp_all
  ultimately show ?thesis by (auto simp: abs_mult sgn_if)
qed

text \<open>The check after a multiplication: dividing back finds every product that wrapped.\<close>

lemma product_check:
  assumes "in64 l" "in64 r" "l \<noteq> 0"
  shows "\<not> (i64 (go_quot (i64 (l * r)) l) \<noteq> r \<or> (l = -1 \<and> r = minInt64)) \<longleftrightarrow> in64 (l * r)"
proof
  assume "in64 (l * r)"
  then have p: "i64 (l * r) = l * r" by (rule i64_id)
  have "go_quot (l * r) l = r" using go_quot_times [OF assms(3), of r] by (simp add: mult.commute)
  moreover have "\<not> (l = -1 \<and> r = minInt64)" using \<open>in64 (l * r)\<close> by (auto simp: in64_def minInt64_def maxInt64_def)
  ultimately show "\<not> (i64 (go_quot (i64 (l * r)) l) \<noteq> r \<or> (l = -1 \<and> r = minInt64))"
    using p i64_id [OF assms(2)] by simp
next
  assume a: "\<not> (i64 (go_quot (i64 (l * r)) l) \<noteq> r \<or> (l = -1 \<and> r = minInt64))"
  define p where "p = i64 (l * r)"
  define q where "q = go_quot p l"
  have p64: "in64 p" by (simp add: p_def)
  obtain k where k: "p = l * r - k * 2 ^ 64" using i64_cong unfolding p_def by blast
  have rem: "\<bar>p - l * q\<bar> < \<bar>l\<bar>" unfolding q_def by (rule go_rem_bound [OF assms(3)])
  have iq: "i64 q = r" using a by (simp add: q_def p_def)
  show "in64 (l * r)"
  proof (cases "in64 q")
    case True
    then have "q = r" using iq i64_id by simp
    then have "\<bar>k * 2 ^ 64\<bar> < \<bar>l\<bar>" using rem k by simp
    moreover have "\<bar>l\<bar> \<le> 2 ^ 63" using assms(1) by (auto simp: in64_def minInt64_def maxInt64_def)
    ultimately have "k = 0" by (auto simp: abs_mult)
    then show ?thesis using p64 k by simp
  next
    case False
    have "\<bar>p\<bar> div \<bar>l\<bar> \<le> \<bar>p\<bar>" using zdiv_mono2 [of "\<bar>p\<bar>" 1 "\<bar>l\<bar>"] assms(3) by simp
    moreover have "0 \<le> \<bar>p\<bar> div \<bar>l\<bar>" using assms(3) by (simp add: pos_imp_zdiv_nonneg_iff)
    ultimately have "\<bar>q\<bar> \<le> \<bar>p\<bar>" by (auto simp: q_def go_quot_def abs_mult sgn_if)
    then have q: "q = 2 ^ 63" and p: "p = - (2 ^ 63)" using False p64 by (auto simp: in64_def minInt64_def maxInt64_def)
    have "r = minInt64" using iq by (simp add: q i64_def minInt64_def)
    moreover have "l = -1" using rem assms(1) unfolding p q by (auto simp: in64_def minInt64_def maxInt64_def abs_if split: if_splits)
    ultimately show ?thesis using a by simp
  qed
qed

lemma foldOp_checked:
  assumes "in64 l" "in64 r" "op = ''*'' \<or> op = ''+''"
  shows "foldOp op l r = exactOp op l r"
proof (cases "op = ''*''")
  case True
  have z: "in64 0" by (simp add: in64_def minInt64_def maxInt64_def)
  show ?thesis
  proof (cases "l = 0 \<or> r = 0")
    case True
    then show ?thesis using \<open>op = ''*''\<close> z by (elim disjE) (simp_all add: foldOp_def exactOp_def exactResult_def)
  next
    case False
    note c = product_check [OF assms(1,2)]
    have f: "foldOp op l r = (if i64 (go_quot (i64 (l * r)) l) \<noteq> r \<or> (l = -1 \<and> r = minInt64) then None else Some (i64 (l * r)))"
      using True False unfolding foldOp_def Let_def by simp
    have x: "exactOp op l r = (if in64 (l * r) then Some (l * r) else None)"
      using True by (simp add: exactOp_def exactResult_def)
    show ?thesis using c False i64_id [of "l * r"] unfolding f x by metis
  qed
next
  case False
  then have op: "op = ''+''" using assms(3) by simp
  have f: "foldOp op l r = (if (l > 0 \<and> r > 0 \<and> i64 (l + r) < 0) \<or> (l < 0 \<and> r < 0 \<and> i64 (l + r) \<ge> 0)
      then None else Some (i64 (l + r)))"
    unfolding foldOp_def Let_def op by simp
  have x: "exactOp op l r = (if in64 (l + r) then Some (l + r) else None)"
    by (simp add: exactOp_def exactResult_def op)
  show ?thesis
  proof (cases "in64 (l + r)")
    case True
    show ?thesis
      unfolding f x if_P [OF True]
      using if_not_P [OF i64_sum_exact [OF assms(1,2) True]] i64_id [OF True] by simp
  next
    case False
    show ?thesis unfolding f x if_P [OF i64_sum_sign [OF assms(1,2) False]] if_not_P [OF False] by (rule refl)
  qed
qed

lemma foldOp_exact:
  assumes "in64 l" "in64 r" "op \<in> set [''*'', ''+'', ''-'', ''/'']" "exactOp op l r = Some v"
  shows "foldOp op l r = Some v"
proof (cases "op = ''*'' \<or> op = ''+''")
  case True
  with foldOp_checked [OF assms(1,2)] assms(4) show ?thesis by simp
next
  case False
  with assms(3,4) show ?thesis
    by (auto simp: foldOp_def exactOp_def exactResult_def i64_id split: if_splits)
qed

lemma exactValue_in64: "exactValue n = Some v \<Longrightarrow> in64 v"
  by (auto simp: exactValue.simps [of n] ParseInt64_in64 exactOp_def split: option.splits if_splits list.splits)

lemma foldOp_in64: "foldOp op l r = Some v \<Longrightarrow> in64 v"
  by (auto simp: foldOp_def Let_def in64_nonneg split: if_splits)

lemma foldConstExpr_in64: "foldConstExpr n = Some v \<Longrightarrow> in64 v"
  by (auto simp: foldConstExpr.simps [of n] ParseInt64_in64 foldOp_in64 split: option.splits if_splits list.splits)

definition checkedOps :: "Node \<Rightarrow> bool" where
  "checkedOps n \<longleftrightarrow> (\<forall>m \<in> set (preorder n). Kind m = ''binary_expression'' \<longrightarrow> binaryOperatorToken m \<notin> {''-'', ''/''})"

lemma checkedOps_named: "checkedOps n \<Longrightarrow> c \<in> set (NamedChildren n) \<Longrightarrow> checkedOps c"
  by (auto simp: checkedOps_def preorder.simps [of n])

lemma checkedOps_peeled: "peelFirst n = Some m \<Longrightarrow> checkedOps n \<Longrightarrow> checkedOps m"
proof (induction n rule: peelFirst.induct)
  case (1 n)
  show ?case
  proof (cases "isWrapper n")
    case True
    then obtain c cs where c: "NamedChildren n = c # cs" "peelFirst c = Some m"
      using 1(2) by (auto simp: peelFirst.simps [of n] split: list.splits)
    with 1(1) [OF True c(1) c(2)] 1(3) checkedOps_named [of n c] show ?thesis by simp
  next
    case False
    with 1(2,3) show ?thesis by (simp add: peelFirst.simps [of n])
  qed
qed

lemma checkedOps_token: "checkedOps m \<Longrightarrow> Kind m = ''binary_expression'' \<Longrightarrow> binaryOperatorToken m \<notin> {''-'', ''/''}"
  by (auto simp: checkedOps_def preorder.simps [of m])

text \<open>The two folds on an expression with an operator agree as soon as they do on its operands.\<close>

lemma exact_complete: "exactValue n = Some v \<Longrightarrow> foldConstExpr n = Some v"
proof (induction n arbitrary: v rule: exactValue.induct)
  case (1 n)
  from 1(3) obtain m where m: "peelFirst n = Some m" by (auto simp: exactValue.simps [of n] split: option.splits)
  show ?case
  proof (cases "Kind m = ''number_literal''")
    case True
    with 1(3) m show ?thesis by (simp add: exactValue.simps [of n] foldConstExpr.simps [of n])
  next
    case nl: False
    with 1(3) m obtain a b l r where e: "Kind m = ''binary_expression''" "NamedChildren m = [a, b]"
        "binaryOperatorToken m \<in> set [''*'', ''+'', ''-'', ''/'']" "exactValue a = Some l" "exactValue b = Some r"
        "exactOp (binaryOperatorToken m) l r = Some v"
      by (auto simp: exactValue.simps [of n] split: option.splits if_splits list.splits)
    have k: "\<not> Kind m \<noteq> ''binary_expression''" "\<not> binaryOperatorToken m \<notin> set [''*'', ''+'', ''-'', ''/'']"
      using e(1,3) by simp_all
    have "foldConstExpr a = Some l" by (rule 1(1) [OF m nl k e(2) refl refl e(4)])
    moreover have "foldConstExpr b = Some r" by (rule 1(2) [OF m nl k e(2) refl refl e(5)])
    moreover have "foldOp (binaryOperatorToken m) l r = Some v"
      by (rule foldOp_exact [OF exactValue_in64 [OF e(4)] exactValue_in64 [OF e(5)] e(3,6)])
    ultimately show ?thesis using m nl e(1,2,3) by (simp add: foldConstExpr.simps [of n])
  qed
qed

lemma checked_sound: "foldConstExpr n = Some v \<Longrightarrow> checkedOps n \<Longrightarrow> exactValue n = Some v"
proof (induction n arbitrary: v rule: foldConstExpr.induct)
  case (1 n)
  from 1(3) obtain m where m: "peelFirst n = Some m" by (auto simp: foldConstExpr.simps [of n] split: option.splits)
  have cm: "checkedOps m" by (rule checkedOps_peeled [OF m 1(4)])
  show ?case
  proof (cases "Kind m = ''number_literal''")
    case True
    with 1(3) m show ?thesis by (simp add: exactValue.simps [of n] foldConstExpr.simps [of n])
  next
    case nl: False
    with 1(3) m obtain a b l r where e: "Kind m = ''binary_expression''" "NamedChildren m = [a, b]"
        "binaryOperatorToken m \<in> set [''*'', ''+'', ''-'', ''/'']" "foldConstExpr a = Some l" "foldConstExpr b = Some r"
        "foldOp (binaryOperatorToken m) l r = Some v"
      by (auto simp: foldConstExpr.simps [of n] split: option.splits if_splits list.splits)
    have k: "\<not> Kind m \<noteq> ''binary_expression''" "\<not> binaryOperatorToken m \<notin> set [''*'', ''+'', ''-'', ''/'']"
      using e(1,3) by simp_all
    have c: "checkedOps a" "checkedOps b" using checkedOps_named [OF cm] e(2) by simp_all
    have "exactValue a = Some l" by (rule 1(1) [OF m nl k e(2) refl refl e(4) c(1)])
    moreover have "exactValue b = Some r" by (rule 1(2) [OF m nl k e(2) refl refl e(5) c(2)])
    moreover have "exactOp (binaryOperatorToken m) l r = Some v"
      using foldOp_checked [OF foldConstExpr_in64 [OF e(4)] foldConstExpr_in64 [OF e(5)]] e(3,6)
        checkedOps_token [OF cm e(1)] by auto
    ultimately show ?thesis using m nl e(1,2,3) by (simp add: exactValue.simps [of n])
  qed
qed

text \<open>C23: constant folding is exact where C gives the expression a value.  Every literal expression whose
  intermediate results stay in the range of int64 and that divides by no zero folds to its exact value, a
  folded value is always in that range, and without subtractions and divisions an expression folds only to
  its exact value: the overflow checks of + and * miss nothing.\<close>

theorem foldConstExpr_exact:
  "(\<forall>v. exactValue n = Some v \<longrightarrow> foldConstExpr n = Some v)
   \<and> (\<forall>v. foldConstExpr n = Some v \<longrightarrow> in64 v \<and> (checkedOps n \<longrightarrow> exactValue n = Some v))"
  using exact_complete checked_sound foldConstExpr_in64 by blast

text \<open>The witness: 2 * 3, and the literal products beside it.\<close>

definition leafNode0 :: "string \<Rightarrow> string \<Rightarrow> Node" where
  "leafNode0 k t = TSNode k '''' True False t
     \<lparr>posStartByte = 0, posEndByte = 0, posStartLine = 0, posStartColumn = 0, posEndLine = 0, posEndColumn = 0\<rparr> []"

definition operatorLeaf :: "string \<Rightarrow> Node" where
  "operatorLeaf k = TSNode k '''' False False k
     \<lparr>posStartByte = 0, posEndByte = 0, posStartLine = 0, posStartColumn = 0, posEndLine = 0, posEndColumn = 0\<rparr> []"

definition binaryNode :: "string \<Rightarrow> Node \<Rightarrow> Node \<Rightarrow> Node" where
  "binaryNode op a b = TSNode ''binary_expression'' '''' True False ''''
     \<lparr>posStartByte = 0, posEndByte = 0, posStartLine = 0, posStartColumn = 0, posEndLine = 0, posEndColumn = 0\<rparr>
     [a, operatorLeaf op, b]"

lemmas small_nodes = leafNode0_def operatorLeaf_def binaryNode_def Kind_def Text_def Children_def NamedChildren_def
  isNamed_def binaryOperatorToken_def isWrapper_def

lemma twoTimesThree:
  "exactValue (binaryNode ''*'' (leafNode0 ''number_literal'' ''2'') (leafNode0 ''number_literal'' ''3'')) = Some 6"
proof -
  have p: "ParseInt64 (TrimSpace ''2'') = Some 2" "ParseInt64 (TrimSpace ''3'') = Some 3" by code_simp+
  show ?thesis
    by (simp add: exactValue.simps peelFirst.simps small_nodes p exactOp_def exactResult_def in64_def minInt64_def maxInt64_def)
qed

theorem foldConstExpr_exact_witness:
  "foldConstExpr (binaryNode ''*'' (leafNode0 ''number_literal'' ''2'') (leafNode0 ''number_literal'' ''3'')) = Some 6"
  using foldConstExpr_exact twoTimesThree by blast

text \<open>A subtraction has no such check: the least int64, built from literals, minus one folds to the greatest.\<close>

lemma subtraction_wraps: "foldOp ''-'' minInt64 1 = Some maxInt64 \<and> exactOp ''-'' minInt64 1 = None"
  by (simp add: foldOp_def exactOp_def exactResult_def i64_def in64_def minInt64_def maxInt64_def)

end
