(* ===== verification/Range_Sound.thy ===== *)
theory Range_Sound
  imports Const_Fold CFG_Wf
begin

text \<open>
  Termination of the interval analysis and soundness of its result: the invariant of the worklist
  iteration, a potential that every change of an environment uses up, the fixpoint at the end, and the
  values a run along the edges of the graph can give to the variables assigned on it.
\<close>

section \<open>The worklist invariant\<close>

definition envLe :: "ienv \<Rightarrow> ienv \<Rightarrow> bool" where
  "envLe a b \<longleftrightarrow> (\<forall>v r. map_of a v = Some r \<longrightarrow> (\<exists>q. map_of b v = Some q \<and> ivLe r q))"

lemma envLe_refl: "envLe a a" by (simp add: envLe_def)

lemma envLe_trans: "envLe a b \<Longrightarrow> envLe b c \<Longrightarrow> envLe a c"
  unfolding envLe_def using ivLe_trans by meson

definition rangeOK :: "nat \<Rightarrow> string set \<Rightarrow> rangeState \<Rightarrow> bool" where
  "rangeOK n V s \<longleftrightarrow>
     length (rsIn s) = n \<and> length (rsCount s) = n \<and> length (rsQueued s) = n \<and> distinct (rsWork s)
     \<and> set (rsWork s) \<subseteq> {..<n}
     \<and> (\<forall>i<n. rsQueued s ! i \<longleftrightarrow> i \<in> set (rsWork s))
     \<and> (\<forall>i<n. wholeEnv (rsIn s ! i) \<and> (\<forall>v. 0 \<le> (rsCount s ! i) v) \<and> (\<forall>v. map_of (rsIn s ! i) v \<noteq> None \<longrightarrow> v \<in> V))"

definition nodePot :: "string set \<Rightarrow> rangeState \<Rightarrow> nat \<Rightarrow> nat" where
  "nodePot V s i = (\<Sum>v\<in>V. ivPot (map_of (rsIn s ! i) v) ((rsCount s ! i) v))"

definition rangePot :: "nat \<Rightarrow> string set \<Rightarrow> rangeState \<Rightarrow> nat" where
  "rangePot n V s = (\<Sum>i<n. nodePot V s i)"

text \<open>What handing one out-environment to a list of successors does.\<close>

definition handed :: "nat \<Rightarrow> string set \<Rightarrow> ienv \<Rightarrow> nat set \<Rightarrow> rangeState \<Rightarrow> rangeState \<Rightarrow> bool" where
  "handed n V out ms s t \<longleftrightarrow>
     rangeOK n V t
     \<and> (\<forall>i<n. envLe (rsIn s ! i) (rsIn t ! i))
     \<and> (\<forall>i<n. i \<in> set (rsWork s) \<longrightarrow> i \<in> set (rsWork t))
     \<and> (\<forall>i<n. i \<in> set (rsWork t) \<or> (\<forall>v. map_of (rsIn t ! i) v = map_of (rsIn s ! i) v))
     \<and> (\<forall>m\<in>ms. envLe out (rsIn t ! m))
     \<and> length (rsWork t) + rangePot n V t \<le> length (rsWork s) + rangePot n V s"

lemma handedD:
  assumes "handed n V out ms s t"
  shows "rangeOK n V t"
    and "i < n \<Longrightarrow> envLe (rsIn s ! i) (rsIn t ! i)"
    and "i < n \<Longrightarrow> i \<in> set (rsWork s) \<Longrightarrow> i \<in> set (rsWork t)"
    and "i < n \<Longrightarrow> i \<notin> set (rsWork t) \<Longrightarrow> map_of (rsIn t ! i) v = map_of (rsIn s ! i) v"
    and "m \<in> ms \<Longrightarrow> envLe out (rsIn t ! m)"
    and "length (rsWork t) + rangePot n V t \<le> length (rsWork s) + rangePot n V s"
  using assms unfolding handed_def by blast+

lemma handed_refl: "rangeOK n V s \<Longrightarrow> handed n V out {} s s"
  by (simp add: handed_def envLe_refl)

lemma handed_trans:
  assumes "handed n V out ms s t" "handed n V out ks t u" "ms \<subseteq> {..<n}"
  shows "handed n V out (ms \<union> ks) s u"
proof -
  have "envLe out (rsIn u ! m)" if "m \<in> ms" for m
  proof -
    have "m < n" using that assms(3) by auto
    then have "envLe (rsIn t ! m) (rsIn u ! m)" using assms(2) by (simp add: handed_def)
    moreover have "envLe out (rsIn t ! m)" using that assms(1) by (simp add: handed_def)
    ultimately show ?thesis using envLe_trans by blast
  qed
  moreover have "i \<in> set (rsWork u) \<or> (\<forall>v. map_of (rsIn u ! i) v = map_of (rsIn s ! i) v)" if "i < n" for i
  proof -
    have "i \<in> set (rsWork u) \<or> (\<forall>v. map_of (rsIn u ! i) v = map_of (rsIn t ! i) v)"
      and "i \<in> set (rsWork t) \<or> (\<forall>v. map_of (rsIn t ! i) v = map_of (rsIn s ! i) v)"
      and "i \<in> set (rsWork t) \<longrightarrow> i \<in> set (rsWork u)"
      using assms that by (simp_all add: handed_def)
    then show ?thesis by metis
  qed
  ultimately show ?thesis using assms unfolding handed_def
    by (auto intro: envLe_trans)
qed

lemma rangeSucc_handed:
  assumes ok: "rangeOK n V s" and fin: "finite V" and m: "nat succ < n"
    and out: "wholeEnv out" "\<And>v. map_of out v \<noteq> None \<Longrightarrow> v \<in> V"
  shows "handed n V out {nat succ} s (rangeSucc out succ s)"
proof -
  let ?m = "nat succ" and ?d = "rsIn s ! nat succ" and ?c = "rsCount s ! nat succ"
  have ln: "length (rsIn s) = n" "length (rsCount s) = n" "length (rsQueued s) = n"
    and wk: "distinct (rsWork s)" "set (rsWork s) \<subseteq> {..<n}"
    and qd: "\<And>i. i < n \<Longrightarrow> rsQueued s ! i \<longleftrightarrow> i \<in> set (rsWork s)"
    and ev: "\<And>i. i < n \<Longrightarrow> wholeEnv (rsIn s ! i)" "\<And>i v. i < n \<Longrightarrow> 0 \<le> (rsCount s ! i) v"
      "\<And>i v. i < n \<Longrightarrow> map_of (rsIn s ! i) v \<noteq> None \<Longrightarrow> v \<in> V"
    using ok unfolding rangeOK_def by blast+
  obtain ch dst cs where r: "rangeMergeInto ?d ?c out = (ch, dst, cs)" by (metis prod_cases3)
  have wd: "wholeEnv ?d" and c0: "\<And>v. 0 \<le> ?c v" and dV: "\<And>v. map_of ?d v \<noteq> None \<Longrightarrow> v \<in> V"
    using ev [OF m] by simp_all
  note p = rangeMergeInto_pointwise [OF wd out(1) r]
  have lens: "?m < length (rsIn s)" "?m < length (rsCount s)" "?m < length (rsQueued s)"
    using ln m by simp_all
  let ?t = "rangeSucc out succ s"
  have t: "rsIn ?t = (rsIn s)[?m := dst]" "rsCount ?t = (rsCount s)[?m := cs]"
    "rsWork ?t = (if ch \<and> ?m \<notin> set (rsWork s) then ?m # rsWork s else rsWork s)"
    "rsQueued ?t = (if ch \<and> ?m \<notin> set (rsWork s) then (rsQueued s)[?m := True] else rsQueued s)"
    using qd [OF m] by (auto simp: rangeSucc_def r Let_def)
  have wh: "\<And>v q. map_of ?d v = Some q \<Longrightarrow> wholesome q" "\<And>v q. map_of out v = Some q \<Longrightarrow> wholesome q"
    using wd out(1) by (auto simp: wholeEnv_def)
  have pot: "if map_of dst v = map_of ?d v then cs v = ?c v
     else ivPot (map_of dst v) (cs v) < ivPot (map_of ?d v) (?c v)" for v
    unfolding p(2,3) by (rule mergeVal_pot [OF wh c0])
  have up: "envLe ?d dst"
  proof (unfold envLe_def p(2), intro allI impI)
    fix v r assume a: "map_of ?d v = Some r"
    show "\<exists>q. mergeVal (map_of ?d v) (?c v) (map_of out v) = Some q \<and> ivLe r q"
      by (rule mergeVal_upper(1) [OF wh a])
  qed
  have up2: "envLe out dst"
  proof (unfold envLe_def p(2), intro allI impI)
    fix v r assume a: "map_of out v = Some r"
    show "\<exists>q. mergeVal (map_of ?d v) (?c v) (map_of out v) = Some q \<and> ivLe r q"
      by (rule mergeVal_upper(2) [OF wh a])
  qed
  note up = up up2
  have mv: "mergeVal d c x \<noteq> None \<Longrightarrow> d \<noteq> None \<or> x \<noteq> None" for d x :: "interval option" and c
    by (auto simp: mergeVal_def)
  have dV': "v \<in> V" if "map_of dst v \<noteq> None" for v
    using mv [OF that [unfolded p(2)]] dV out(2) by blast
  have cs0: "0 \<le> cs v" for v using c0 [of v] by (simp add: p(3) mergeCount_def)
  have okt: "rangeOK n V ?t"
    unfolding rangeOK_def t
  proof (intro conjI allI impI)
    show "length ((rsIn s)[?m := dst]) = n" "length ((rsCount s)[?m := cs]) = n" using ln by simp_all
    show "length (if ch \<and> ?m \<notin> set (rsWork s) then (rsQueued s)[?m := True] else rsQueued s) = n" using ln by simp
    show "distinct (if ch \<and> ?m \<notin> set (rsWork s) then ?m # rsWork s else rsWork s)"
      "set (if ch \<and> ?m \<notin> set (rsWork s) then ?m # rsWork s else rsWork s) \<subseteq> {..<n}" using wk m by simp_all
    fix i assume i: "i < n"
    show "(if ch \<and> ?m \<notin> set (rsWork s) then (rsQueued s)[?m := True] else rsQueued s) ! i
        = (i \<in> set (if ch \<and> ?m \<notin> set (rsWork s) then ?m # rsWork s else rsWork s))"
      using qd [OF i] ln i by (cases "i = ?m") auto
    show "wholeEnv ((rsIn s)[?m := dst] ! i)" using ev(1) [OF i] p(1) lens by (simp add: nth_list_update)
    fix v
    show "0 \<le> ((rsCount s)[?m := cs] ! i) v" using ev(2) [OF i] cs0 lens by (simp add: nth_list_update)
    assume "map_of ((rsIn s)[?m := dst] ! i) v \<noteq> None"
    then show "v \<in> V" using ev(3) [OF i] dV' lens by (simp add: nth_list_update split: if_splits)
  qed
  have other: "nodePot V ?t i = nodePot V s i" if "i \<noteq> ?m" for i
    using that by (simp add: nodePot_def t)
  have mine: "nodePot V ?t ?m = (\<Sum>v\<in>V. ivPot (map_of dst v) (cs v))" using lens by (simp add: nodePot_def t)
  have theirs: "nodePot V s ?m = (\<Sum>v\<in>V. ivPot (map_of ?d v) (?c v))" by (simp add: nodePot_def)
  have le: "ivPot (map_of dst v) (cs v) \<le> ivPot (map_of ?d v) (?c v)" for v using pot [of v] by (auto split: if_splits)
  have "rangePot n V ?t = nodePot V ?t ?m + (\<Sum>i\<in>{..<n} - {?m}. nodePot V s i)"
    using other m by (simp add: rangePot_def sum.remove [of _ ?m])
  moreover have "rangePot n V s = nodePot V s ?m + (\<Sum>i\<in>{..<n} - {?m}. nodePot V s i)"
    using m by (simp add: rangePot_def sum.remove [of _ ?m])
  moreover have "nodePot V ?t ?m \<le> nodePot V s ?m" unfolding mine theirs using le by (intro sum_mono)
  moreover have "nodePot V ?t ?m < nodePot V s ?m" if c: ch
  proof -
    obtain v where v: "map_of dst v \<noteq> map_of ?d v" using p(4) c by metis
    then have "v \<in> V" using dV dV' by (metis)
    with v pot [of v] le fin show ?thesis unfolding mine theirs
      by (intro sum_strict_mono_ex1) auto
  qed
  ultimately have "length (rsWork ?t) + rangePot n V ?t \<le> length (rsWork s) + rangePot n V s"
    by (auto simp: t)
  moreover have "\<forall>i<n. envLe (rsIn s ! i) (rsIn ?t ! i)" using up lens by (auto simp: t nth_list_update envLe_refl)
  moreover have "envLe out (rsIn ?t ! ?m)" using up lens by (simp add: t)
  moreover have "i \<in> set (rsWork ?t) \<or> (\<forall>v. map_of (rsIn ?t ! i) v = map_of (rsIn s ! i) v)" if "i < n" for i
    using p(4) lens by (cases "i = ?m") (auto simp: t)
  ultimately show ?thesis using okt by (auto simp: handed_def t)
qed

lemma fold_rangeSucc_handed:
  assumes "rangeOK n V s" "finite V" "\<And>m. m \<in> set ms \<Longrightarrow> nat m < n"
    and "wholeEnv out" "\<And>v. map_of out v \<noteq> None \<Longrightarrow> v \<in> V"
  shows "handed n V out (nat ` set ms) s (fold (rangeSucc out) ms s)"
  using assms
proof (induction ms arbitrary: s)
  case (Cons m ms)
  have a: "handed n V out {nat m} s (rangeSucc out m s)"
    using Cons.prems by (intro rangeSucc_handed) auto
  then have "rangeOK n V (rangeSucc out m s)" by (simp add: handed_def)
  from Cons.IH [OF this] Cons.prems have "handed n V out (nat ` set ms) (rangeSucc out m s) (fold (rangeSucc out) ms (rangeSucc out m s))"
    by simp
  from handed_trans [OF a this] Cons.prems show ?case by simp
qed (simp add: handed_refl)

section \<open>The iteration ends at a fixpoint\<close>

definition edgesOK :: "StmtNode list \<Rightarrow> rangeEffects option list \<Rightarrow> ienv list \<Rightarrow> nat \<Rightarrow> bool" where
  "edgesOK nodes effs ins i \<longleftrightarrow>
     (\<forall>m \<in> set (snSuccs (nodes ! i)). envLe (rangeTransfer (ins ! i) (effs ! i)) (ins ! nat m))"

definition goodEffs :: "nat \<Rightarrow> rangeEffects option list \<Rightarrow> bool" where
  "goodEffs n effs \<longleftrightarrow> length effs = n \<and> wholeEffs effs"

definition goodSuccs :: "StmtNode list \<Rightarrow> bool" where
  "goodSuccs nodes \<longleftrightarrow> (\<forall>nd \<in> set nodes. \<forall>m \<in> set (snSuccs nd). nat m < length nodes)"

lemma goodEffs_nth: "goodEffs n effs \<Longrightarrow> i < n \<Longrightarrow> effs ! i = Some e \<Longrightarrow> wholeEff e"
  unfolding goodEffs_def wholeEffs_def by (metis nth_mem)

lemma goodSuccs_nth: "goodSuccs nodes \<Longrightarrow> i < length nodes \<Longrightarrow> m \<in> set (snSuccs (nodes ! i)) \<Longrightarrow> nat m < length nodes"
  unfolding goodSuccs_def by (meson nth_mem)

lemma rangeLoop_fixpoint:
  assumes succs: "goodSuccs nodes" and effs: "goodEffs (length nodes) effs"
  shows "rangeOK (length nodes) (set (effectVars effs)) s
    \<Longrightarrow> (\<And>i. i < length nodes \<Longrightarrow> i \<notin> set (rsWork s) \<Longrightarrow> edgesOK nodes effs (rsIn s) i)
    \<Longrightarrow> length (rsWork s) + rangePot (length nodes) (set (effectVars effs)) s \<le> fuel
    \<Longrightarrow> \<exists>ins. rangeLoop fuel nodes effs s = Some ins \<and> length ins = length nodes
          \<and> (\<forall>i<length nodes. wholeEnv (ins ! i) \<and> edgesOK nodes effs ins i)"
proof (induction fuel arbitrary: s)
  case (0 s)
  then have w: "rsWork s = []" by simp
  with 0 have "rangeLoop 0 nodes effs s = Some (rsIn s)" by (simp add: rangeLoop.simps [of 0])
  moreover have "length (rsIn s) = length nodes" "\<forall>i<length nodes. wholeEnv (rsIn s ! i)"
    using 0(1) unfolding rangeOK_def by blast+
  ultimately show ?case using 0(2) w by simp
next
  case (Suc fuel s)
  let ?n = "length nodes" and ?V = "set (effectVars effs)"
  show ?case
  proof (cases "rsWork s")
    case Nil
    then have "rangeLoop (Suc fuel) nodes effs s = Some (rsIn s)" by (simp add: rangeLoop.simps [of "Suc fuel"])
    moreover have "length (rsIn s) = length nodes" "\<forall>i<length nodes. wholeEnv (rsIn s ! i)"
      using Suc.prems(1) unfolding rangeOK_def by blast+
    ultimately show ?thesis using Suc.prems(2) Nil by simp
  next
    case (Cons k work)
    let ?s1 = "s\<lparr>rsWork := work, rsQueued := (rsQueued s)[k := False]\<rparr>"
    let ?out = "rangeTransfer (rsIn s ! k) (effs ! k)"
    let ?s2 = "fold (rangeSucc ?out) (snSuccs (nodes ! k)) ?s1"
    have ln: "length (rsIn s) = ?n" "length (rsCount s) = ?n" "length (rsQueued s) = ?n"
      and wk: "distinct (rsWork s)" "set (rsWork s) \<subseteq> {..<?n}"
      and qd: "\<And>i. i < ?n \<Longrightarrow> rsQueued s ! i \<longleftrightarrow> i \<in> set (rsWork s)"
      and ev: "\<And>i. i < ?n \<Longrightarrow> wholeEnv (rsIn s ! i) \<and> (\<forall>v. 0 \<le> (rsCount s ! i) v) \<and> (\<forall>v. map_of (rsIn s ! i) v \<noteq> None \<longrightarrow> v \<in> ?V)"
      using Suc.prems(1) unfolding rangeOK_def by blast+
    have k: "k < ?n" "k \<notin> set work" "distinct work" "set work \<subseteq> {..<?n}" using wk Cons by auto
    have ok1: "rangeOK ?n ?V ?s1"
      unfolding rangeOK_def using ln k ev qd Cons by (auto simp: nth_list_update)
    have el: "effs ! k \<in> set effs" using effs k(1) by (simp add: goodEffs_def)
    have wo: "wholeEnv ?out" using ev [OF k(1)] goodEffs_nth [OF effs k(1)] by (intro rangeTransfer_whole) auto
    have vo: "v \<in> ?V" if "map_of ?out v \<noteq> None" for v
      using rangeTransfer_dom [OF goodEffs_nth [OF effs k(1)] el that] ev [OF k(1)] by blast
    have ms: "nat m < ?n" if "m \<in> set (snSuccs (nodes ! k))" for m
      by (rule goodSuccs_nth [OF succs k(1) that])
    have h: "handed ?n ?V ?out (nat ` set (snSuccs (nodes ! k))) ?s1 ?s2"
      by (rule fold_rangeSucc_handed [OF ok1 _ ms wo vo]) simp_all
    have e2: "edgesOK nodes effs (rsIn ?s2) i" if i: "i < ?n" "i \<notin> set (rsWork ?s2)" for i
      unfolding edgesOK_def
    proof
      fix m assume m: "m \<in> set (snSuccs (nodes ! i))"
      have mn: "nat m < ?n" by (rule goodSuccs_nth [OF succs i(1) m])
      have same: "map_of (rsIn ?s2 ! i) v = map_of (rsIn s ! i) v" for v
        using handedD(4) [OF h i] by simp
      have tr: "map_of (rangeTransfer (rsIn ?s2 ! i) (effs ! i)) v = map_of (rangeTransfer (rsIn s ! i) (effs ! i)) v" for v
        by (rule rangeTransfer_cong [OF goodEffs_nth [OF effs i(1)] same])
      have "envLe (rangeTransfer (rsIn s ! i) (effs ! i)) (rsIn ?s2 ! nat m)"
      proof (cases "i = k")
        case True
        then show ?thesis using handedD(5) [OF h] m by simp
      next
        case False
        then have "i \<notin> set (rsWork s)" using handedD(3) [OF h i(1)] i(2) Cons by auto
        then have "envLe (rangeTransfer (rsIn s ! i) (effs ! i)) (rsIn s ! nat m)"
          using Suc.prems(2) [OF i(1)] m by (simp add: edgesOK_def)
        moreover have "envLe (rsIn s ! nat m) (rsIn ?s2 ! nat m)" using handedD(2) [OF h mn] by simp
        ultimately show ?thesis using envLe_trans by blast
      qed
      then show "envLe (rangeTransfer (rsIn ?s2 ! i) (effs ! i)) (rsIn ?s2 ! nat m)"
        by (simp add: envLe_def tr)
    qed
    have "length work + rangePot ?n ?V ?s1 < length (rsWork s) + rangePot ?n ?V s"
      by (simp add: Cons rangePot_def nodePot_def)
    then have "length (rsWork ?s2) + rangePot ?n ?V ?s2 \<le> fuel"
      using handedD(6) [OF h] Suc.prems(3) by simp
    moreover have "rangeOK ?n ?V ?s2" by (rule handedD(1) [OF h])
    ultimately obtain ins where "rangeLoop fuel nodes effs ?s2 = Some ins \<and> length ins = ?n
        \<and> (\<forall>i<?n. wholeEnv (ins ! i) \<and> edgesOK nodes effs ins i)"
      using Suc.IH e2 by meson
    moreover have "rangeLoop (Suc fuel) nodes effs s = rangeLoop fuel nodes effs ?s2"
      using Cons by (simp add: rangeLoop.simps [of "Suc fuel"] Let_def)
    ultimately show ?thesis by metis
  qed
qed

lemma startRange_ok: "rangeOK n V (startRange n)"
  by (auto simp: rangeOK_def startRange_def wholeEnv_def)

lemma sum_list_bound: "finite A \<Longrightarrow> (\<And>i. i \<in> A \<Longrightarrow> f i \<le> c) \<Longrightarrow> sum f A \<le> card A * (c::nat)"
  using sum_bounded_above [of A f c] by simp

lemma startRange_pot: "length (rsWork (startRange n)) + rangePot n (set (effectVars effs)) (startRange n) \<le> analyzeFuel n effs"
proof -
  have "nodePot (set (effectVars effs)) (startRange n) i = 6 * length (effectVars effs)" if "i < n" for i
    using that by (simp add: nodePot_def startRange_def ivPot_def effectVars_def distinct_card [symmetric] length_remdups_card_conv)
  then show ?thesis by (simp add: rangePot_def analyzeFuel_def startRange_def)
qed

lemma runRangeDataflow_fixpoint:
  assumes "goodSuccs (cfgNodes cfg)" "goodEffs (length (cfgNodes cfg)) effs"
  shows "\<exists>ins. runRangeDataflow cfg effs = Some ins \<and> length ins = length (cfgNodes cfg)
     \<and> (\<forall>i<length (cfgNodes cfg). wholeEnv (ins ! i) \<and> edgesOK (cfgNodes cfg) effs ins i)"
  unfolding runRangeDataflow_def Let_def
  by (rule rangeLoop_fixpoint [OF assms startRange_ok _ startRange_pot]) (simp add: startRange_def)

section \<open>The effects the code extracts\<close>

definition wholeCalls :: "(string \<Rightarrow> interval option) option \<Rightarrow> bool" where
  "wholeCalls callResult \<longleftrightarrow> (\<forall>f c r. callResult = Some f \<longrightarrow> f c = Some r \<longrightarrow> wholesome r)"

lemma shiftFromExpr_in64: "shiftFromExpr n = Some (b, d) \<Longrightarrow> in64 d"
  by (auto simp: shiftFromExpr_def Let_def ParseInt64_in64 split: if_splits list.splits)

lemma fold_keeps: "P x \<Longrightarrow> (\<And>a b. P b \<Longrightarrow> P (f a b)) \<Longrightarrow> P (fold f xs x)"
  by (induction xs arbitrary: x) auto

lemma in64_unit: "in64 0" "in64 1" "in64 (-1)"
  by (simp_all add: in64_def minInt64_def maxInt64_def)

lemma updateShift_in64: "updateShift n = Some (b, d) \<Longrightarrow> in64 d"
proof -
  assume a: "updateShift n = Some (b, d)"
  have "in64 (snd (fold (\<lambda>c (name, delta). if Kind c = ''++'' then (name, 1) else if Kind c = ''--'' then (name, -1)
      else if Kind c = ''identifier'' then (Text c, delta) else (name, delta)) cs ('''', 0)))" for cs
    by (rule fold_keeps [where P = "\<lambda>x. in64 (snd x)"]) (auto simp: in64_unit split: prod.splits)
  from this [of "Children n"] a show ?thesis by (auto simp: updateShift_def split: if_splits prod.splits)
qed

lemma wholeEff_none: "wholeEff noEffects"
  by (simp add: wholeEff_def noEffects_def wholeEnv_def)

lemma wholeEff_writes:
  assumes "wholeEff e"
  shows "wholesome r \<Longrightarrow> wholeEff (e\<lparr>reAssign := AList.update v r (reAssign e)\<rparr>)"
    and "in64 d \<Longrightarrow> wholeEff (e\<lparr>reShift := AList.update v (b, d) (reShift e)\<rparr>)"
    and "wholeEff (e\<lparr>reCopy := AList.update v k (reCopy e)\<rparr>)"
    and "wholeEff (e\<lparr>reKill := ks\<rparr>)"
  using assms by (auto simp: wholeEff_def wholeEnv_update distinct_update update_conv)

lemma assignEffect_whole:
  assumes "wholeCalls callResult" "wholeEff e"
  shows "wholeEff (assignEffect callResult p e)"
proof -
  have "wholesome c" if "constFromExpr n = Some c" for n c
    using that foldConstExpr_in64 by (auto simp: constFromExpr_def)
  moreover have "wholesome r" if "callResult = Some f" "f c = Some r" for f c r
    using that assms(1) by (auto simp: wholeCalls_def)
  ultimately show ?thesis using assms(2)
    by (auto simp: assignEffect_def Let_def wholeEff_writes shiftFromExpr_in64 split: option.splits)
qed

lemma updateEffect_whole: "wholeEff e \<Longrightarrow> wholeEff (updateEffect u e)"
  by (auto simp: updateEffect_def wholeEff_writes updateShift_in64 split: option.splits)

lemma buildRangeEffects_good:
  assumes "wholeCalls callResult"
  shows "goodEffs (length (cfgNodes cfg)) (buildRangeEffects cfg callResult)"
proof -
  have "wholeEff e" if "nodeEffects callResult n = Some e" for n e
  proof -
    have "wholeEff (fold updateEffect us (fold (assignEffect callResult) ps noEffects))" for us ps
      by (intro fold_keeps [where P = wholeEff] wholeEff_none assignEffect_whole [OF assms] updateEffect_whole)
    with that show ?thesis by (auto simp: nodeEffects_def split: if_splits)
  qed
  then show ?thesis by (auto simp: goodEffs_def wholeEffs_def buildRangeEffects_def)
qed

section \<open>Runs\<close>

text \<open>The known values after a statement: each is justified by the effect that wins for its variable.\<close>

definition justified :: "rangeEffects \<Rightarrow> (string \<Rightarrow> int option) \<Rightarrow> string \<Rightarrow> int \<Rightarrow> bool" where
  "justified e val v x \<longleftrightarrow>
     (if v \<in> set (reKill e) then True
      else case map_of (reShift e) v of
        Some (b, d) \<Rightarrow> (\<exists>y. val b = Some y \<and> x = y + d)
      | None \<Rightarrow> (case map_of (reCopy e) v of
          Some k \<Rightarrow> val k = Some x
        | None \<Rightarrow> (case map_of (reAssign e) v of Some r \<Rightarrow> inIv x r | None \<Rightarrow> val v = Some x)))"

definition effect_result :: "rangeEffects option \<Rightarrow> (string \<Rightarrow> int option) \<Rightarrow> (string \<Rightarrow> int option) \<Rightarrow> bool" where
  "effect_result eo val val' \<longleftrightarrow>
     (case eo of None \<Rightarrow> val' = val | Some e \<Rightarrow> \<forall>v x. val' v = Some x \<longrightarrow> in64 x \<and> justified e val v x)"

text \<open>A run from the entry: at first no value is known; a variable is known once a statement of this run assigned it.\<close>

inductive range_run :: "StmtCFG \<Rightarrow> rangeEffects option list \<Rightarrow> int \<Rightarrow> (string \<Rightarrow> int option) \<Rightarrow> bool"
  for cfg effs where
  runStart: "range_run cfg effs (cfgEntry cfg) (\<lambda>_. None)"
| runStep: "range_run cfg effs i val \<Longrightarrow> m \<in> set (snSuccs (cfgNodes cfg ! nat i)) \<Longrightarrow> effect_result (effs ! nat i) val val'
    \<Longrightarrow> range_run cfg effs m val'"

definition envCovers :: "(string \<Rightarrow> int option) \<Rightarrow> ienv \<Rightarrow> bool" where
  "envCovers val env \<longleftrightarrow> (\<forall>v x. val v = Some x \<longrightarrow> (\<exists>r. map_of env v = Some r \<and> inIv x r))"

lemma transferred_covers:
  assumes w: "wholeEff e" "wholeEnv env" and c: "envCovers val env" and x: "in64 x" "justified e val v x"
  shows "\<exists>r. transferred e env v = Some r \<and> inIv x r"
proof (cases "v \<in> set (reKill e)")
  case True
  then show ?thesis using inIv_top [OF x(1)] by (simp add: transferred_def)
next
  case nk: False
  show ?thesis
  proof (cases "map_of (reShift e) v")
    case (Some bd)
    obtain b d where bd: "bd = (b, d)" by (cases bd)
    with Some x nk obtain y where y: "val b = Some y" "x = y + d" by (auto simp: justified_def)
    then obtain r where r: "map_of env b = Some r" "inIv y r" using c by (auto simp: envCovers_def)
    have "wholesome r" "in64 d" using w r Some bd by (auto simp: wholeEnv_def wholeEff_def)
    from ivShift_sound [OF this r(2)] y x r Some bd nk show ?thesis by (simp add: transferred_def)
  next
    case ns: None
    show ?thesis
    proof (cases "map_of (reCopy e) v")
      case (Some k)
      with x c nk ns show ?thesis by (auto simp: justified_def envCovers_def transferred_def)
    next
      case None
      with x c nk ns show ?thesis
        by (auto simp: justified_def envCovers_def transferred_def split: option.splits)
    qed
  qed
qed

lemma rangeTransfer_covers:
  assumes "\<And>e. eo = Some e \<Longrightarrow> wholeEff e" "wholeEnv env" "envCovers val env" "effect_result eo val val'"
  shows "envCovers val' (rangeTransfer env eo)"
proof (cases eo)
  case None
  with assms show ?thesis by (simp add: effect_result_def rangeTransfer_def)
next
  case (Some e)
  have "\<exists>r. map_of (rangeTransfer env (Some e)) v = Some r \<and> inIv x r" if "val' v = Some x" for v x
    unfolding rangeTransfer_pointwise [OF assms(1) [OF Some]]
    by (rule transferred_covers [OF assms(1) [OF Some] assms(2,3)])
      (use assms(4) Some that in \<open>auto simp: effect_result_def\<close>)
  with Some show ?thesis by (simp add: envCovers_def)
qed

lemma envCovers_mono: "envCovers val a \<Longrightarrow> envLe a b \<Longrightarrow> envCovers val b"
  unfolding envCovers_def envLe_def using inIv_mono by meson

lemma wf_goodSuccs: "wf_cfg cfg \<Longrightarrow> goodSuccs (cfgNodes cfg)"
  unfolding goodSuccs_def
proof (intro ballI)
  fix nd m assume w: "wf_cfg cfg" and nd: "nd \<in> set (cfgNodes cfg)" and m: "m \<in> set (snSuccs nd)"
  from wf_cfg_mem [OF w nd] w have "\<forall>t \<in> targets nd. valid_id cfg t" unfolding wf_cfg_def by metis
  with m have "valid_id cfg m" by (auto simp: targets_def)
  then show "nat m < length (cfgNodes cfg)" by (auto simp: valid_id_def)
qed

lemma range_run_covered:
  assumes "wf_cfg cfg" "goodEffs (length (cfgNodes cfg)) effs"
    and "\<forall>i<length (cfgNodes cfg). wholeEnv (ins ! i) \<and> edgesOK (cfgNodes cfg) effs ins i"
    and "range_run cfg effs i val"
  shows "nat i < length (cfgNodes cfg) \<and> envCovers val (ins ! nat i)"
  using assms(4)
proof (induction rule: range_run.induct)
  case runStart
  have "0 < length (cfgNodes cfg)" "cfgEntry cfg = 0" using assms(1) unfolding wf_cfg_def by linarith+
  then show ?case by (simp add: envCovers_def)
next
  case (runStep i val m val')
  then have i: "nat i < length (cfgNodes cfg)" "envCovers val (ins ! nat i)" by simp_all
  have "envCovers val' (rangeTransfer (ins ! nat i) (effs ! nat i))"
    using rangeTransfer_covers [OF goodEffs_nth [OF assms(2) i(1)] _ i(2) runStep(3)] assms(3) i(1) by blast
  moreover have "envLe (rangeTransfer (ins ! nat i) (effs ! nat i)) (ins ! nat m)"
    using assms(3) i(1) runStep(2) by (simp add: edgesOK_def)
  ultimately show ?case
    using envCovers_mono goodSuccs_nth [OF wf_goodSuccs [OF assms(1)] i(1) runStep(2)] by blast
qed

lemma rangeAt_covers:
  assumes "wf_cfg cfg" "wholeCalls callResult"
    and "range_run cfg (buildRangeEffects cfg callResult) (snID n) val" "NodeAt cfg line = Some n" "val v = Some x"
  shows "inIv x (rangeAt (Some \<lparr>rfCfg = cfg, rfIn = runRangeDataflow cfg (buildRangeEffects cfg callResult)\<rparr>) v line)"
proof -
  note g = buildRangeEffects_good [OF assms(2), of cfg]
  obtain ins where i: "runRangeDataflow cfg (buildRangeEffects cfg callResult) = Some ins"
      "\<forall>i<length (cfgNodes cfg). wholeEnv (ins ! i) \<and> edgesOK (cfgNodes cfg) (buildRangeEffects cfg callResult) ins i"
    using runRangeDataflow_fixpoint [OF wf_goodSuccs [OF assms(1)] g] by blast
  obtain r where "map_of (ins ! nat (snID n)) v = Some r" "inIv x r"
    using range_run_covered [OF assms(1) g i(2) assms(3)] assms(5) unfolding envCovers_def by blast
  then show ?thesis using assms(4) i(1) by (simp add: rangeAt_def)
qed

lemma rangeAt_wholesome:
  assumes "wf_cfg cfg" "wholeCalls callResult" "NodeAt cfg line = Some n"
  shows "wholesome (rangeAt (Some \<lparr>rfCfg = cfg, rfIn = runRangeDataflow cfg (buildRangeEffects cfg callResult)\<rparr>) v line)"
proof -
  note g = buildRangeEffects_good [OF assms(2), of cfg]
  obtain ins where i: "runRangeDataflow cfg (buildRangeEffects cfg callResult) = Some ins"
      "\<forall>i<length (cfgNodes cfg). wholeEnv (ins ! i) \<and> edgesOK (cfgNodes cfg) (buildRangeEffects cfg callResult) ins i"
    using runRangeDataflow_fixpoint [OF wf_goodSuccs [OF assms(1)] g] by blast
  obtain k where "k < length (cfgNodes cfg)" "cfgNodes cfg ! k = n" using NodeAt_mem [OF assms(3)] by (metis in_set_conv_nth)
  moreover from this have "snID n = int k" using assms(1) by (auto simp: wf_cfg_def valid_id_def dest: spec [of _ "int k"])
  ultimately have w: "wholeEnv (ins ! nat (snID n))" using i(2) by simp
  show ?thesis
  proof (cases "map_of (ins ! nat (snID n)) v")
    case None
    then show ?thesis using assms(3) i(1) by (simp add: rangeAt_def wholesome_def topInterval_def in64_def minInt64_def maxInt64_def)
  next
    case (Some r)
    then have "wholesome r" using w by (simp add: wholeEnv_def)
    then show ?thesis using assms(3) i(1) Some by (simp add: rangeAt_def)
  qed
qed

lemma analyzeRanges_flow:
  assumes "Kind body = ''compound_statement''"
  shows "analyzeRanges body funcEnd callResult
    = Some \<lparr>rfCfg = BuildStmtCFG body funcEnd,
            rfIn = runRangeDataflow (BuildStmtCFG body funcEnd) (buildRangeEffects (BuildStmtCFG body funcEnd) callResult)\<rparr>"
  using assms by (simp add: analyzeRanges_def Let_def)

lemma analyzeRanges_covers:
  assumes "Kind body = ''compound_statement''" "wholeCalls callResult"
    and "range_run (BuildStmtCFG body funcEnd) (buildRangeEffects (BuildStmtCFG body funcEnd) callResult) (snID n) val"
    and "NodeAt (BuildStmtCFG body funcEnd) line = Some n" "val v = Some x"
  shows "inIv x (rangeAt (analyzeRanges body funcEnd callResult) v line)"
  unfolding analyzeRanges_flow [OF assms(1)] by (rule rangeAt_covers [OF built_graph_wf assms(2-5)])


section \<open>Properties\<close>

text \<open>C24: the interval analysis of every function body ends.  Loops in the graph included, the worklist
  is empty after at most one iteration per node and six more per node and variable: an environment
  either stays or uses up one of the few changes widening leaves it.  Every node gets an environment
  whose intervals lie in the range of int64.\<close>

theorem analyzeRanges_terminates:
  assumes "Kind body = ''compound_statement''" "wholeCalls callResult"
  shows "\<exists>ins. analyzeRanges body funcEnd callResult = Some \<lparr>rfCfg = BuildStmtCFG body funcEnd, rfIn = Some ins\<rparr>
     \<and> length ins = length (cfgNodes (BuildStmtCFG body funcEnd))
     \<and> (\<forall>i<length ins. \<forall>v r. map_of (ins ! i) v = Some r \<longrightarrow> in64 (ivLo r) \<and> in64 (ivHi r))"
proof -
  let ?cfg = "BuildStmtCFG body funcEnd"
  obtain ins where i: "runRangeDataflow ?cfg (buildRangeEffects ?cfg callResult) = Some ins"
      "length ins = length (cfgNodes ?cfg)" "\<forall>i<length (cfgNodes ?cfg). wholeEnv (ins ! i)"
    using runRangeDataflow_fixpoint [OF wf_goodSuccs [OF built_graph_wf] buildRangeEffects_good [OF assms(2)]] by blast
  then show ?thesis
    by (intro exI [of _ ins]) (simp add: analyzeRanges_flow [OF assms(1)] wholeEnv_def wholesome_def)
qed

definition emptyBody :: Node where
  "emptyBody = leafNode0 ''compound_statement'' ''{}''"

theorem analyzeRanges_terminates_witness:
  "\<exists>ins. analyzeRanges emptyBody 1 None = Some \<lparr>rfCfg = BuildStmtCFG emptyBody 1, rfIn = Some ins\<rparr>
     \<and> length ins = length (cfgNodes (BuildStmtCFG emptyBody 1))"
proof -
  have "Kind emptyBody = ''compound_statement''" "wholeCalls None"
    by (simp_all add: emptyBody_def leafNode0_def Kind_def wholeCalls_def)
  from analyzeRanges_terminates [OF this, of 1] show ?thesis by blast
qed

text \<open>C3: the interval analysis is sound for what a run has assigned.  Take any run along the edges of a
  well-formed graph, with statements acting as their extracted effects say (a constant, a copy, a shift
  that does not overflow, an unknown value), and any variable whose value this run determined.  At the
  statement a line resolves to, the value lies in the interval the analysis reports for that line,
  through any joins, loops and widening on the way.\<close>

theorem rangeFlow_sound:
  assumes "wf_cfg cfg" "wholeCalls callResult"
    and "range_run cfg (buildRangeEffects cfg callResult) (snID n) val" "NodeAt cfg line = Some n" "val v = Some x"
  shows "inIv x (rangeAt (Some \<lparr>rfCfg = cfg, rfIn = runRangeDataflow cfg (buildRangeEffects cfg callResult)\<rparr>) v line)"
  by (rule rangeAt_covers [OF assms])

text \<open>The witness: d = 7; followed by a use of d.\<close>

definition plainStmt :: "int \<Rightarrow> Node \<Rightarrow> int list \<Rightarrow> StmtNode" where
  "plainStmt i n ss = \<lparr>snID = i, snKind = ''stmt'', snStartLine = i, snEndLine = i, snStartColumn = 1, snIsControl = False,
     snStmt = n, snSuccs = ss, snTrueSuccs = [], snFalseSuccs = []\<rparr>"

definition assignSeven :: Node where
  "assignSeven = TSNode ''assignment_expression'' '''' True False ''d = 7''
     \<lparr>posStartByte = 0, posEndByte = 0, posStartLine = 0, posStartColumn = 0, posEndLine = 0, posEndColumn = 0\<rparr>
     [leafNode0 ''identifier'' ''d'', operatorLeaf ''='', leafNode0 ''number_literal'' ''7'']"

definition lineCFG :: StmtCFG where
  "lineCFG = \<lparr>cfgNodes = [(plainStmt 0 NullNode [2])\<lparr>snKind := ''entry''\<rparr>, (plainStmt 1 NullNode [])\<lparr>snKind := ''exit''\<rparr>,
                        plainStmt 2 assignSeven [3], plainStmt 3 NullNode [1]], cfgEntry = 0, cfgExit = 1\<rparr>"

lemma lineCFG_wf: "wf_cfg lineCFG"
proof -
  have "snID (cfgNodes lineCFG ! nat i) = i \<and> snIsControl (cfgNodes lineCFG ! nat i) = isControlKind (Kind (snStmt (cfgNodes lineCFG ! nat i)))
      \<and> (\<forall>t \<in> targets (cfgNodes lineCFG ! nat i). valid_id lineCFG t)"
    if "valid_id lineCFG i" for i
  proof -
    from that have "i = 0 \<or> i = 1 \<or> i = 2 \<or> i = 3" by (auto simp: valid_id_def lineCFG_def)
    then show ?thesis
      by (elim disjE) (simp_all add: valid_id_def lineCFG_def plainStmt_def targets_def assignSeven_def Kind_def isControlKind_def)
  qed
  moreover have "cfgEntry lineCFG = 0" "cfgExit lineCFG = 1" "2 \<le> length (cfgNodes lineCFG)"
    by (simp_all add: lineCFG_def)
  ultimately show ?thesis unfolding wf_cfg_def by blast
qed

lemma lineCFG_effects:
  "buildRangeEffects lineCFG None =
     [None, None, Some (noEffects\<lparr>reAssign := [(''d'', constInterval 7)]\<rparr>), Some noEffects]"
proof -
  have s: "ParseInt64 (TrimSpace ''7'') = Some 7" by code_simp
  have d: "directAssignments assignSeven = [(leafNode0 ''identifier'' ''d'', leafNode0 ''number_literal'' ''7'')]"
    by (simp add: directAssignments_def appendChainedAssign_def chainTargets.simps assignSeven_def small_nodes)
  have u: "FindAll ''update_expression'' assignSeven = []" "FindAll ''update_expression'' NullNode = []" "directAssignments NullNode = []"
    by (simp_all add: FindAll_def findAllLoop.simps assignSeven_def small_nodes directAssignments_def isNull_def)
  have f: "constFromExpr (leafNode0 ''number_literal'' ''7'') = Some (constInterval 7)"
    by (simp add: constFromExpr_def foldConstExpr.simps peelFirst.simps small_nodes s)
  have t: "assignTargetName (leafNode0 ''identifier'' ''d'') = ''d''" by (simp add: assignTargetName_def small_nodes)
  show ?thesis
    by (simp add: buildRangeEffects_def lineCFG_def nodeEffects_def plainStmt_def d u assignEffect_def f t noEffects_def)
qed

theorem rangeFlow_sound_witness:
  "inIv 7 (rangeAt (Some \<lparr>rfCfg = lineCFG, rfIn = runRangeDataflow lineCFG (buildRangeEffects lineCFG None)\<rparr>) ''d'' 3)"
proof -
  let ?effs = "buildRangeEffects lineCFG None"
  have j: "in64 7" by (simp add: in64_def minInt64_def maxInt64_def)
  have s0: "range_run lineCFG ?effs 0 (\<lambda>_. None)"
    using runStart [of lineCFG ?effs] by (simp add: lineCFG_def)
  have s2: "range_run lineCFG ?effs 2 (\<lambda>_. None)"
    by (rule runStep [OF s0]) (simp_all add: effect_result_def lineCFG_effects, simp add: lineCFG_def plainStmt_def)
  have s3: "range_run lineCFG ?effs (snID (plainStmt 3 NullNode [1])) ((\<lambda>_. None)(''d'' := Some 7))"
    by (rule runStep [OF s2])
      (simp_all add: effect_result_def lineCFG_effects justified_def noEffects_def j inIv_def constInterval_def,
       simp_all add: lineCFG_def plainStmt_def)
  have w: "wholeCalls None" by (simp add: wholeCalls_def)
  have n: "NodeAt lineCFG 3 = Some (plainStmt 3 NullNode [1])"
    by (simp add: NodeAt_def lineCFG_def nodeAtStep_def plainStmt_def)
  show ?thesis by (rule rangeFlow_sound [OF lineCFG_wf w s3 n]) simp
qed

text \<open>
  A variable that some path leaves unassigned has no such guarantee.  On the diamond of
  if (c) d = 0; else y = 1; the else branch, which knows nothing of d, is merged before the first fact
  on d arrives and is not visited again: the join keeps [0, 0], a certain zero.
\<close>

definition diamondCFG :: StmtCFG where
  "diamondCFG = \<lparr>cfgNodes = [plainStmt 0 NullNode [2], plainStmt 1 NullNode [], plainStmt 2 NullNode [3, 4],
     plainStmt 3 NullNode [5], plainStmt 4 NullNode [5], plainStmt 5 NullNode [1]], cfgEntry = 0, cfgExit = 1\<rparr>"

lemma absent_path_forgotten:
  "map_option (\<lambda>ins. map_of (ins ! 5) ''d'')
     (runRangeDataflow diamondCFG
       [None, None, Some noEffects, Some (noEffects\<lparr>reAssign := [(''d'', constInterval 0)]\<rparr>),
        Some (noEffects\<lparr>reAssign := [(''y'', constInterval 1)]\<rparr>), Some noEffects])
   = Some (Some (constInterval 0))"
  by code_simp

end
