(* ===== verification/Const_Text.thy ===== *)
theory Const_Text
  imports C_Expr
begin

text \<open>
  Constant expressions as text: internal/parser/constant_symbols.go from NonZeroConstantValue on, and the
  environment of known constants it consults.  The two maps of ConstantEnv are the lists of their keys.
\<close>

section \<open>The environment\<close>

record ConstantEnv =
  ceNonZero :: "string list"
  ceZero :: "string list"

definition NewConstantEnv :: ConstantEnv where
  "NewConstantEnv = \<lparr>ceNonZero = [], ceZero = []\<rparr>"

definition envNonZero :: "ConstantEnv \<Rightarrow> string \<Rightarrow> bool" where
  "envNonZero e name \<longleftrightarrow> TrimSpace name \<in> set (ceNonZero e)"

definition envIsZero :: "ConstantEnv \<Rightarrow> string \<Rightarrow> bool" where
  "envIsZero e name \<longleftrightarrow> TrimSpace name \<in> set (ceZero e)"


section \<open>Literals\<close>

definition TrimRight :: "string \<Rightarrow> string \<Rightarrow> string" where
  "TrimRight s cutset = rev (dropWhile (\<lambda>c. c \<in> set cutset) (rev s))"

definition IsSizeofExpr :: "string \<Rightarrow> bool" where
  "IsSizeofExpr text =
     (let t = TrimSpace text in
      if \<not> HasPrefix t ''sizeof'' then False
      else case drop 6 t of
             [] \<Rightarrow> True
           | c # cs \<Rightarrow> c = CHR ''('' \<or> c = CHR '' '' \<or> c = CHR 0x09 \<or> c = CHR 0x0D \<or> c = CHR 0x0A)"

fun balancedFrom :: "int \<Rightarrow> string \<Rightarrow> bool" where
  "balancedFrom depth [] \<longleftrightarrow> depth = 0"
| "balancedFrom depth (c # cs) \<longleftrightarrow>
     (if c = CHR ''('' then balancedFrom (depth + 1) cs
      else if c = CHR '')'' then depth - 1 \<ge> 0 \<and> balancedFrom (depth - 1) cs
      else balancedFrom depth cs)"

definition balanced :: "string \<Rightarrow> bool" where
  "balanced s \<longleftrightarrow> balancedFrom 0 s"

lemma trimBy_length: "length (trimBy p s) \<le> length s"
  using length_dropWhile_le [of p "rev (dropWhile p s)"] length_dropWhile_le [of p s]
  by (simp add: trimBy_def)

lemma TrimSpace_length: "length (TrimSpace s) \<le> length s"
  by (simp add: TrimSpace_def trimBy_length)

function stripParens :: "string \<Rightarrow> string" where
  "stripParens s =
     (if length s \<ge> 2 \<and> hd s = CHR ''('' \<and> last s = CHR '')'' \<and> balanced (butlast (tl s))
      then stripParens (TrimSpace (butlast (tl s))) else s)"
  by pat_completeness auto
termination
proof (relation "measure length")
  fix s :: string
  assume "length s \<ge> 2 \<and> hd s = CHR ''('' \<and> last s = CHR '')'' \<and> balanced (butlast (tl s))"
  then show "(TrimSpace (butlast (tl s)), s) \<in> measure length"
    using TrimSpace_length [of "butlast (tl s)"] by auto
qed simp

declare stripParens.simps [simp del]

lemma stripParens_length: "length (stripParens s) \<le> length s"
proof (induction s rule: stripParens.induct)
  case (1 s)
  then show ?case
    using TrimSpace_length [of "butlast (tl s)"] by (auto simp: stripParens.simps [of s] intro: order_trans)
qed

definition signedLiteral :: "string \<Rightarrow> int option" where
  "signedLiteral t =
     (let neg = HasPrefix t ''-'';
          u = TrimRight (if neg \<or> HasPrefix t ''+'' then TrimSpace (tl t) else t) ''uUlL''
      in if u = [] then None else map_option (\<lambda>v. if neg then i64 (- v) else v) (ParseInt64 u))"

definition parseConstantInt :: "string \<Rightarrow> int option" where
  "parseConstantInt text =
     (let t = TrimSpace text in
      if t = [] then None else signedLiteral (TrimSpace (stripParens t)))"

definition IsZeroConstantValue :: "string \<Rightarrow> bool" where
  "IsZeroConstantValue text = (if IsSizeofExpr text then False else parseConstantInt text = Some 0)"


section \<open>Operators\<close>

text \<open>The operator token at a position, with its precedence; the rest of the text starts after its first character.\<close>

definition operatorAt :: "char \<Rightarrow> string \<Rightarrow> (string \<times> int) option" where
  "operatorAt c cs =
     (if c = CHR ''*'' \<or> c = CHR ''/'' \<or> c = CHR ''%'' then Some ([c], 40)
      else if c = CHR ''+'' \<or> c = CHR ''-'' then Some ([c], 30)
      else if c = CHR ''<'' then (if cs \<noteq> [] \<and> hd cs = CHR ''<'' then Some (''<<'', 20) else None)
      else if c = CHR ''>'' then (if cs \<noteq> [] \<and> hd cs = CHR ''>'' then Some (''>>'', 20) else None)
      else None)"

text \<open>The scan of topLevelBinaryOp: the position, the depth, the least precedence and the operator that has it.\<close>

fun operatorScan :: "nat \<Rightarrow> nat \<Rightarrow> int \<Rightarrow> (nat \<times> string) option \<Rightarrow> string \<Rightarrow> (nat \<times> string) option" where
  "operatorScan i depth minPrio best [] = best"
| "operatorScan i depth minPrio best (c # cs) =
     (if c = CHR ''('' then operatorScan (i + 1) (depth + 1) minPrio best cs
      else if c = CHR '')'' then operatorScan (i + 1) (depth - 1) minPrio best cs
      else if depth \<noteq> 0 then operatorScan (i + 1) depth minPrio best cs
      else case operatorAt c cs of
             None \<Rightarrow> operatorScan (i + 1) depth minPrio best cs
           | Some (tok, prio) \<Rightarrow>
               let minPrio' = (if prio < minPrio then prio else minPrio);
                   best' = (if prio < minPrio then Some (i, tok) else best)
               in if length tok = 2 then operatorScan (i + 2) depth minPrio' best' (tl cs)
                  else operatorScan (i + 1) depth minPrio' best' cs)"

definition topLevelBinaryOp :: "string \<Rightarrow> (string \<times> string \<times> string) option" where
  "topLevelBinaryOp t =
     (case operatorScan 0 0 (2 ^ 30) None t of
        None \<Rightarrow> None
      | Some (i, tok) \<Rightarrow>
          let left = TrimSpace (take i t); right = TrimSpace (drop (i + length tok) t)
          in if left = [] \<or> right = [] then None else Some (left, tok, right))"

lemma operatorScan_range:
  "operatorScan i depth mp best cs = Some (j, tok) \<Longrightarrow>
     best = Some (j, tok) \<or> (i \<le> j \<and> j < i + length cs \<and> tok \<noteq> [])"
proof (induction i depth mp best cs rule: operatorScan.induct)
  case (2 i depth mp best c cs)
  show ?case
  proof (cases "c = CHR ''('' \<or> c = CHR '')'' \<or> depth \<noteq> 0 \<or> operatorAt c cs = None")
    case True
    then have "operatorScan (i + 1) (if c = CHR ''('' then depth + 1 else if c = CHR '')'' then depth - 1 else depth) mp best cs
        = Some (j, tok)"
      using "2.prems" by (cases "depth = 0") auto
    then show ?thesis using "2.IH"(1-4) True by (cases "depth = 0") (auto split: if_splits)
  next
    case False
    then obtain t prio where o: "operatorAt c cs = Some (t, prio)" by auto
    have t: "t \<noteq> []" and two: "length t = 2 \<Longrightarrow> cs \<noteq> []" using o by (auto simp: operatorAt_def split: if_splits)
    let ?b = "if prio < mp then Some (i, t) else best"
    show ?thesis
    proof (cases "length t = 2")
      case True
      have "?b = Some (j, tok) \<or> (i + 2 \<le> j \<and> j < i + 2 + length (tl cs) \<and> tok \<noteq> [])"
        using "2.IH"(5) [of "(t, prio)" t prio] "2.prems" False o True by (simp add: Let_def)
      then show ?thesis using t two [OF True] by (auto split: if_splits)
    next
      case n: False
      have "?b = Some (j, tok) \<or> (i + 1 \<le> j \<and> j < i + 1 + length cs \<and> tok \<noteq> [])"
        using "2.IH"(6) [of "(t, prio)" t prio] "2.prems" False o n by (simp add: Let_def)
      then show ?thesis using t by (auto split: if_splits)
    qed
  qed
qed simp

lemma topLevelBinaryOp_shorter:
  assumes "topLevelBinaryOp t = Some (l, op, r)"
  shows "length l < length t" "length r < length t"
proof -
  obtain i tok where s: "operatorScan 0 0 (2 ^ 30) None t = Some (i, tok)" "l = TrimSpace (take i t)" "r = TrimSpace (drop (i + length tok) t)"
    using assms by (auto simp: topLevelBinaryOp_def Let_def split: option.splits if_splits)
  have "i < length t" "tok \<noteq> []" using operatorScan_range [OF s(1)] by auto
  then show "length l < length t" "length r < length t"
    using TrimSpace_length [of "take i t"] TrimSpace_length [of "drop (i + length tok) t"] s(2,3)
    by (auto simp: Suc_le_eq neq_Nil_conv)
qed

text \<open>The text under the folders: white space and outer parentheses removed.\<close>

definition bareText :: "string \<Rightarrow> string" where
  "bareText t = TrimSpace (stripParens t)"

lemma bareText_length: "length (bareText t) \<le> length t"
  using TrimSpace_length [of "stripParens t"] stripParens_length [of t] by (simp add: bareText_def)

lemma operand_shorter:
  assumes "TrimSpace s = t" "topLevelBinaryOp (bareText t) = Some (l, op, r)"
  shows "length l < length s" "length r < length s"
  using topLevelBinaryOp_shorter [OF assms(2)] bareText_length [of t] TrimSpace_length [of s] assms(1) by auto

lemma tail_shorter: "TrimSpace s = c # cs \<Longrightarrow> length cs < length s"
  using TrimSpace_length [of s] by simp

definition foldWidth :: nat where "foldWidth = 32"

function constantIntValue :: "string \<Rightarrow> int option" where
  "constantIntValue text =
     (case TrimSpace text of
        [] \<Rightarrow> None
      | c # cs \<Rightarrow>
          if c = CHR ''+'' \<or> c = CHR ''-'' then
            map_option (\<lambda>v. if c = CHR ''-'' then i64 (- v) else v) (constantIntValue cs)
          else
            let t = bareText (c # cs) in
            if t = [] then None
            else case topLevelBinaryOp (bareText (c # cs)) of
              None \<Rightarrow> parseConstantInt t
            | Some (left, op, right) \<Rightarrow>
                (case (constantIntValue left, constantIntValue right) of
                   (Some lv, Some rv) \<Rightarrow>
                     if op = ''*'' then
                       (let p = i64 (lv * rv)
                        in if lv \<noteq> 0 \<and> i64 (go_quot p lv) \<noteq> rv then None
                           else if p \<ge> 2 ^ foldWidth then None else Some p)
                     else if op = ''<<'' then
                       (if rv < 0 \<or> rv \<ge> int foldWidth then None
                        else let s = i64 (lv * 2 ^ nat rv)
                             in if s div 2 ^ nat rv \<noteq> lv then None
                                else if s \<ge> 2 ^ foldWidth then None else Some s)
                     else None
                 | _ \<Rightarrow> None))"
  by pat_completeness auto
termination
  by (relation "measure length") (auto dest: tail_shorter operand_shorter)

function isLiteralConstant :: "string \<Rightarrow> bool" where
  "isLiteralConstant text =
     (case TrimSpace text of
        [] \<Rightarrow> False
      | c # cs \<Rightarrow>
          if c = CHR ''+'' \<or> c = CHR ''-'' then isLiteralConstant cs
          else
            let t = bareText (c # cs) in
            if t = [] then False
            else case topLevelBinaryOp (bareText (c # cs)) of
              None \<Rightarrow> parseConstantInt t \<noteq> None
            | Some (left, op, right) \<Rightarrow> isLiteralConstant left \<and> isLiteralConstant right)"
  by pat_completeness auto
termination
  by (relation "measure length") (auto dest: tail_shorter operand_shorter)

function foldNonZeroConstant :: "ConstantEnv option \<Rightarrow> string \<Rightarrow> bool" where
  "foldNonZeroConstant env text =
     (case TrimSpace text of
        [] \<Rightarrow> False
      | c # cs \<Rightarrow>
          if c = CHR ''+'' \<or> c = CHR ''-'' then foldNonZeroConstant env cs
          else
            let t = bareText (c # cs) in
            if t = [] then False
            else case topLevelBinaryOp (bareText (c # cs)) of
              None \<Rightarrow>
                if IsSizeofExpr t then True
                else (case parseConstantInt t of
                        Some v \<Rightarrow> v \<noteq> 0
                      | None \<Rightarrow> (case env of None \<Rightarrow> False | Some e \<Rightarrow> envNonZero e t))
            | Some (left, op, right) \<Rightarrow>
                if op = ''*'' then
                  (case constantIntValue t of
                     Some v \<Rightarrow> v \<noteq> 0
                   | None \<Rightarrow> if isLiteralConstant t then False
                             else foldNonZeroConstant env left \<and> foldNonZeroConstant env right)
                else if op = ''<<'' then
                  (case constantIntValue t of
                     Some v \<Rightarrow> v \<noteq> 0
                   | None \<Rightarrow> if isLiteralConstant t then False else foldNonZeroConstant env left)
                else False)"
  by pat_completeness auto
termination
  by (relation "measure (\<lambda>(env, text). length text)") (auto dest: tail_shorter operand_shorter)

declare constantIntValue.simps [simp del] isLiteralConstant.simps [simp del] foldNonZeroConstant.simps [simp del]

definition NonZeroConstantValue :: "string \<Rightarrow> bool" where
  "NonZeroConstantValue text =
     (case parseConstantInt text of Some v \<Rightarrow> v \<noteq> 0 | None \<Rightarrow> foldNonZeroConstant None text)"

definition NonZeroExpr :: "ConstantEnv \<Rightarrow> string \<Rightarrow> bool" where
  "NonZeroExpr e expr = foldNonZeroConstant (Some e) expr"

end
