(* ===== verification/Const_Roundtrip.thy ===== *)
theory Const_Roundtrip
  imports Const_Text Const_Fold
begin

text \<open>
  Literal constant expressions printed as a macro body spells them, with their operands in parentheses,
  and read back by the scanner and the folders of parser/constant_symbols.go: the value that comes out is
  the value of the expression, exactly when it stays within the bounds the code allows.
\<close>

section \<open>Expressions and their text\<close>

datatype LitExpr = LitNum nat | LitMul LitExpr LitExpr | LitShl LitExpr LitExpr | LitMinus nat

fun litText :: "LitExpr \<Rightarrow> string" where
  "litText (LitNum n) = digitsOf n"
| "litText (LitMul a b) = ''('' @ litText a @ '')'' @ '' * '' @ ''('' @ litText b @ '')''"
| "litText (LitShl a b) = ''('' @ litText a @ '')'' @ '' << '' @ ''('' @ litText b @ '')''"
| "litText (LitMinus n) = ''-'' @ digitsOf n"

text \<open>The value: literals of int64, products and shifts below two to the 32nd that do not leave int64.\<close>

definition mulValue :: "int \<Rightarrow> int \<Rightarrow> int option" where
  "mulValue x y = (if (in64 (x * y) \<or> (x = -1 \<and> y = minInt64)) \<and> i64 (x * y) < 2 ^ 32 then Some (i64 (x * y)) else None)"

definition shlValue :: "int \<Rightarrow> int \<Rightarrow> int option" where
  "shlValue x y = (if 0 \<le> y \<and> y < 32 \<and> in64 (x * 2 ^ nat y) \<and> x * 2 ^ nat y < 2 ^ 32 then Some (x * 2 ^ nat y) else None)"

fun litValue :: "LitExpr \<Rightarrow> int option" where
  "litValue (LitNum n) = (if n < 2 ^ 63 then Some (int n) else None)"
| "litValue (LitMul a b) = Option.bind (litValue a) (\<lambda>x. Option.bind (litValue b) (mulValue x))"
| "litValue (LitShl a b) = Option.bind (litValue a) (\<lambda>x. Option.bind (litValue b) (shlValue x))"
| "litValue (LitMinus n) = (if n < 2 ^ 63 then Some (- int n) else None)"

fun litFits :: "LitExpr \<Rightarrow> bool" where
  "litFits (LitNum n) \<longleftrightarrow> n < 2 ^ 63"
| "litFits (LitMul a b) \<longleftrightarrow> litFits a \<and> litFits b"
| "litFits (LitShl a b) \<longleftrightarrow> litFits a \<and> litFits b"
| "litFits (LitMinus n) \<longleftrightarrow> n < 2 ^ 63"


section \<open>Characters of the text\<close>

lemma digit_plain: "isDigit c \<Longrightarrow> c \<notin> set ''()*/%+-<> _uUlL'' \<and> \<not> isSpace c"
  by (auto simp: isDigit_def isSpace_def)

lemma litText_ends:
  "litText e \<noteq> [] \<and> \<not> isSpace (hd (litText e)) \<and> \<not> isSpace (last (litText e)) \<and> last (litText e) \<notin> set ''uUlL''"
proof (cases e)
  case (LitNum n)
  have "isDigit (hd (digitsOf n))" "isDigit (last (digitsOf n))"
    using digitsOf_digits [of n] digitsOf_nonempty [of n] by simp_all
  with digit_plain digitsOf_nonempty LitNum show ?thesis by fastforce
next
  case (LitMinus n)
  have "isDigit (last (digitsOf n))" using digitsOf_digits [of n] digitsOf_nonempty [of n] by simp
  then have "\<not> isSpace (last (digitsOf n)) \<and> last (digitsOf n) \<notin> set ''uUlL''" using digit_plain by fastforce
  with digitsOf_nonempty LitMinus show ?thesis by (simp add: isSpace_def)
qed (simp_all add: isSpace_def)

lemma TrimSpace_litText [simp]: "TrimSpace (litText e) = litText e"
  unfolding TrimSpace_def by (rule trimBy_id) (simp add: litText_ends)

lemma TrimSpace_paren [simp]: "TrimSpace (CHR ''('' # s @ [CHR '')'']) = CHR ''('' # s @ [CHR '')'']"
  unfolding TrimSpace_def by (rule trimBy_id) (simp add: isSpace_def)

lemma trimBy_right: "p c \<Longrightarrow> trimBy p (s @ [c]) = trimBy p s"
  by (cases "\<forall>x \<in> set s. p x") (auto simp: trimBy_def dropWhile_append2 dropWhile_append1 dropWhile_eq_Nil_conv [THEN iffD2])

lemma trimBy_left: "p c \<Longrightarrow> trimBy p (c # s) = trimBy p s"
  by (simp add: trimBy_def)

lemma balancedFrom_digits: "\<forall>c \<in> set ds. isDigit c \<Longrightarrow> balancedFrom d (ds @ s) = balancedFrom d s"
  by (induction ds) (auto dest: digit_plain)

lemma balancedFrom_litText: "0 \<le> d \<Longrightarrow> balancedFrom d (litText e @ s) = balancedFrom d s"
proof (induction e arbitrary: d s)
  case (LitNum n)
  then show ?case by (simp add: balancedFrom_digits digitsOf_digits)
next
  case (LitMinus n)
  then show ?case by (simp add: balancedFrom_digits digitsOf_digits)
qed simp_all

lemma balanced_litText [simp]: "balanced (litText e)"
  using balancedFrom_litText [of 0 e "[]"] by (simp add: balanced_def)

lemma stripParens_litText [simp]: "stripParens (litText e) = litText e"
proof (cases e)
  case (LitNum n)
  have "isDigit (hd (digitsOf n))" using digitsOf_digits [of n] digitsOf_nonempty [of n] by simp
  then have "hd (digitsOf n) \<noteq> CHR ''(''" by (auto dest: digit_plain)
  with LitNum show ?thesis by (simp add: stripParens.simps [of "digitsOf n"])
next
  case (LitMul a b)
  let ?s = "litText e"
  have "tl ?s = (litText a @ '')'' @ '' * (''@ litText b) @ [CHR '')'']" using LitMul by simp
  then have "butlast (tl ?s) = litText a @ '')'' @ '' * (''@ litText b" by (simp only: butlast_snoc)
  then have "\<not> balanced (butlast (tl ?s))" by (simp add: balanced_def balancedFrom_litText)
  then show ?thesis by (simp add: stripParens.simps [of ?s])
next
  case (LitShl a b)
  let ?s = "litText e"
  have "tl ?s = (litText a @ '')'' @ '' << ('' @ litText b) @ [CHR '')'']" using LitShl by simp
  then have "butlast (tl ?s) = litText a @ '')'' @ '' << ('' @ litText b" by (simp only: butlast_snoc)
  then have "\<not> balanced (butlast (tl ?s))" by (simp add: balanced_def balancedFrom_litText)
  then show ?thesis by (simp add: stripParens.simps [of ?s])
next
  case (LitMinus n)
  then show ?thesis by (simp add: stripParens.simps)
qed

lemma stripParens_paren [simp]: "stripParens (CHR ''('' # litText e @ [CHR '')'']) = litText e"
  by (subst stripParens.simps) (simp add: Suc_le_eq litText_ends)

lemma bareText_litText [simp]: "bareText (litText e) = litText e" "bareText (CHR ''('' # litText e @ [CHR '')'']) = litText e"
  by (simp_all add: bareText_def)


section \<open>The scan\<close>

lemma operatorScan_digits:
  "\<forall>c \<in> set ds. isDigit c \<Longrightarrow> operatorScan i d mp best (ds @ s) = operatorScan (i + length ds) d mp best s"
proof (induction ds arbitrary: i)
  case (Cons c ds)
  then have "operatorAt c (ds @ s) = None" "c \<noteq> CHR ''(''" "c \<noteq> CHR '')''"
    using digit_plain [of c] by (auto simp: operatorAt_def)
  with Cons show ?case by (cases "d = 0") simp_all
qed simp

lemma operatorScan_inside:
  "operatorScan i (Suc d) mp best (litText e @ s) = operatorScan (i + length (litText e)) (Suc d) mp best s"
proof (induction e arbitrary: i d s)
  case (LitNum n)
  then show ?case by (simp add: operatorScan_digits digitsOf_digits)
next
  case (LitMinus n)
  then show ?case by (simp add: operatorScan_digits digitsOf_digits)
qed (simp_all add: ac_simps)



lemma topLevel_num: "topLevelBinaryOp (digitsOf n) = None"
  using operatorScan_digits [OF digitsOf_digits, of 0 0 "2 ^ 30" None n "[]"] by (simp add: topLevelBinaryOp_def)

lemma topLevel_minus: "topLevelBinaryOp (CHR ''-'' # digitsOf n) = None"
  using operatorScan_digits [OF digitsOf_digits, of 1 0 30 "Some (0, ''-'')" n "[]"]
  by (simp add: topLevelBinaryOp_def operatorAt_def TrimSpace_def trimBy_def)

lemma take_length_more: "take (n + length xs) (xs @ ys) = xs @ take n ys" "drop (n + length xs) (xs @ ys) = drop n ys"
  by simp_all

lemma topLevel_mul:
  "topLevelBinaryOp (litText (LitMul a b)) = Some (CHR ''('' # litText a @ [CHR '')''], ''*'', CHR ''('' # litText b @ [CHR '')''])"
proof -
  let ?A = "CHR ''('' # litText a @ [CHR '')'']" and ?B = "CHR ''('' # litText b @ [CHR '')'']"
  let ?t = "litText (LitMul a b)"
  have t: "?t = ?A @ '' * '' @ ?B" by simp
  have s: "operatorScan 0 0 (2 ^ 30) None ?t = Some (1 + length ?A, ''*'')"
    by (simp add: operatorScan_inside operatorAt_def)
  have l: "TrimSpace (take (1 + length ?A) ?t) = ?A"
    unfolding t take_length_more using trimBy_right [of isSpace "CHR '' ''" ?A] TrimSpace_paren [of "litText a"]
    by (simp add: TrimSpace_def isSpace_def)
  have "drop (1 + length ?A + length ''*'') ?t = CHR '' '' # ?B"
    unfolding t using take_length_more(2) [of 2 ?A "'' * '' @ ?B"] by simp
  then have r: "TrimSpace (drop (1 + length ?A + length ''*'') ?t) = ?B"
    using trimBy_left [of isSpace "CHR '' ''" ?B] TrimSpace_paren [of "litText b"]
    by (simp add: TrimSpace_def isSpace_def)
  show ?thesis unfolding topLevelBinaryOp_def s option.case prod.case Let_def l r by simp
qed

lemma topLevel_shl:
  "topLevelBinaryOp (litText (LitShl a b)) = Some (CHR ''('' # litText a @ [CHR '')''], ''<<'', CHR ''('' # litText b @ [CHR '')''])"
proof -
  let ?A = "CHR ''('' # litText a @ [CHR '')'']" and ?B = "CHR ''('' # litText b @ [CHR '')'']"
  let ?t = "litText (LitShl a b)"
  have t: "?t = ?A @ '' << '' @ ?B" by simp
  have s: "operatorScan 0 0 (2 ^ 30) None ?t = Some (1 + length ?A, ''<<'')"
    by (simp add: operatorScan_inside operatorAt_def)
  have l: "TrimSpace (take (1 + length ?A) ?t) = ?A"
    unfolding t take_length_more using trimBy_right [of isSpace "CHR '' ''" ?A] TrimSpace_paren [of "litText a"]
    by (simp add: TrimSpace_def isSpace_def)
  have "drop (1 + length ?A + length ''<<'') ?t = CHR '' '' # ?B"
    unfolding t using take_length_more(2) [of 3 ?A "'' << '' @ ?B"] by simp
  then have r: "TrimSpace (drop (1 + length ?A + length ''<<'') ?t) = ?B"
    using trimBy_left [of isSpace "CHR '' ''" ?B] TrimSpace_paren [of "litText b"]
    by (simp add: TrimSpace_def isSpace_def)
  show ?thesis unfolding topLevelBinaryOp_def s option.case prod.case Let_def l r by simp
qed

section \<open>Literals\<close>

lemma digitsValue_append:
  "digitsValue base (xs @ ys) a = Option.bind (digitsValue base xs a) (digitsValue base ys)"
  by (induction base xs a rule: digitsValue.induct) (auto split: option.splits)

lemma digitValue_digit: "n < (10 :: nat) \<Longrightarrow> digitValue (char_of (48 + n)) = Some (int n)"
  by (simp add: digitValue_def isDigit_digit of_char_of)

lemma digit_not_underscore: "isDigit c \<Longrightarrow> c \<noteq> CHR ''_''"
  by (auto simp: isDigit_def)

lemma digitsValue_digitsOf: "digitsValue 10 (digitsOf n) 0 = Some (int n)"
proof (induction n rule: digitsOf.induct)
  case (1 n)
  show ?case
  proof (cases "n < 10")
    case True
    then show ?thesis using digit_not_underscore [OF isDigit_digit [OF True]]
      by (simp add: digitsOf.simps [of n] digitValue_digit)
  next
    case False
    have m: "n mod 10 < 10" by simp
    have "int (n div 10) * 10 + int (n mod 10) = int n" "int (n mod 10) < 10" by (simp_all add: zdiv_int zmod_int)
    then have "digitsValue 10 [char_of (48 + n mod 10)] (int (n div 10)) = Some (int n)"
      using digit_not_underscore [OF isDigit_digit [OF m]] by (simp add: digitValue_digit)
    with 1 False show ?thesis by (simp add: digitsOf.simps [of n] digitsValue_append)
  qed
qed

lemma digitsOf_leading: "n > 0 \<Longrightarrow> hd (digitsOf n) \<noteq> CHR ''0''"
proof (induction n rule: digitsOf.induct)
  case (1 n)
  show ?case
  proof (cases "n < 10")
    case True
    then have "of_char (char_of (48 + n) :: char) = 48 + n" by (simp add: of_char_of)
    then have "char_of (48 + n) \<noteq> CHR ''0''" using 1(2) by (intro notI) simp
    then show ?thesis using True by (simp add: digitsOf.simps [of n])
  next
    case False
    then show ?thesis using 1(1) digitsOf_nonempty by (simp add: digitsOf.simps [of n])
  qed
qed

lemma parseMagnitude_digitsOf: "parseMagnitude (digitsOf n) = Some (int n)"
proof (cases "n = 0")
  case True
  have "digitsOf 0 = ''0''" "parseMagnitude ''0'' = Some 0" by code_simp+
  with True show ?thesis by simp
next
  case False
  have "CHR ''_'' \<notin> set (digitsOf n)" using digitsOf_digits digit_not_underscore by blast
  with False show ?thesis
    by (simp add: parseMagnitude_def digitsOf_nonempty digitsOf_leading digitsValue_digitsOf)
qed

lemma digitsOf_head: "\<exists>c cs. digitsOf n = c # cs \<and> isDigit c"
  using digitsOf_digits [of n] digitsOf_nonempty [of n] by (cases "digitsOf n") auto

lemma ParseInt64_digitsOf: "ParseInt64 (digitsOf n) = (if n < 2 ^ 63 then Some (int n) else None)"
proof -
  obtain c cs where c: "digitsOf n = c # cs" "isDigit c" using digitsOf_head by blast
  then have "c \<noteq> CHR ''-''" "c \<noteq> CHR ''+''" by (auto dest: digit_plain)
  moreover have "int n \<ge> 2 ^ 63 \<longleftrightarrow> \<not> n < 2 ^ 63" by (simp add: not_less flip: of_nat_le_iff)
  ultimately show ?thesis using parseMagnitude_digitsOf [of n] c(1) by (simp add: ParseInt64_def)
qed

lemma TrimRight_id: "s = [] \<or> last s \<notin> set cs \<Longrightarrow> TrimRight s cs = s"
  by (cases s rule: rev_cases) (simp_all add: TrimRight_def)

lemma signedLiteral_digitsOf: "signedLiteral (digitsOf n) = (if n < 2 ^ 63 then Some (int n) else None)"
proof -
  obtain c cs where c: "digitsOf n = c # cs" "isDigit c" using digitsOf_head by blast
  have "last (digitsOf n) \<notin> set ''uUlL''" using litText_ends [of "LitNum n"] by simp
  then have "TrimRight (digitsOf n) ''uUlL'' = digitsOf n" by (intro TrimRight_id) simp
  moreover have "\<not> HasPrefix (digitsOf n) ''-''" "\<not> HasPrefix (digitsOf n) ''+''"
    using c by (auto simp: HasPrefix_def dest: digit_plain)
  ultimately show ?thesis using ParseInt64_digitsOf [of n] digitsOf_nonempty [of n] by (simp add: signedLiteral_def)
qed

lemma signedLiteral_paren: "signedLiteral (CHR ''('' # s @ [CHR '')'']) = None"
proof -
  have "TrimRight (CHR ''('' # s @ [CHR '')'']) ''uUlL'' = CHR ''('' # s @ [CHR '')'']" by (rule TrimRight_id) simp
  moreover have "ParseInt64 (CHR ''('' # s @ [CHR '')'']) = None"
    by (simp add: ParseInt64_def parseMagnitude_def digitValue_def lowerChar_def isDigit_def)
  ultimately show ?thesis by (simp add: signedLiteral_def HasPrefix_def)
qed

lemma signedLiteral_minus: "signedLiteral (CHR ''-'' # digitsOf n) = (if n < 2 ^ 63 then Some (- int n) else None)"
proof -
  have "last (digitsOf n) \<notin> set ''uUlL''" using litText_ends [of "LitNum n"] by simp
  then have "TrimRight (digitsOf n) ''uUlL'' = digitsOf n" by (intro TrimRight_id) simp
  moreover have "TrimSpace (digitsOf n) = digitsOf n" using TrimSpace_litText [of "LitNum n"] by simp
  moreover have "i64 (- int n) = - int n" if "n < 2 ^ 63"
    using that by (intro i64_id) (simp add: in64_def minInt64_def maxInt64_def)
  ultimately show ?thesis using ParseInt64_digitsOf [of n] digitsOf_nonempty [of n] by (simp add: signedLiteral_def HasPrefix_def)
qed

lemma parseConstantInt_litText:
  "parseConstantInt (litText e) = (case e of LitNum n \<Rightarrow> litValue e | LitMinus n \<Rightarrow> litValue e | _ \<Rightarrow> None)"
proof -
  have p: "parseConstantInt (litText e) = signedLiteral (litText e)"
    using litText_ends [of e] by (simp add: parseConstantInt_def)
  show ?thesis
  proof (cases e)
    case (LitNum n)
    with p signedLiteral_digitsOf show ?thesis by simp
  next
    case (LitMul a b)
    with p signedLiteral_paren [of "litText a @ '') * ('' @ litText b"] show ?thesis by simp
  next
    case (LitShl a b)
    with p signedLiteral_paren [of "litText a @ '') << ('' @ litText b"] show ?thesis by simp
  next
    case (LitMinus n)
    with p signedLiteral_minus show ?thesis by simp
  qed
qed


section \<open>The folders\<close>

lemma litText_sign:
  "hd (litText e) = CHR ''-'' \<longleftrightarrow> (\<exists>n. e = LitMinus n)" "hd (litText e) \<noteq> CHR ''+''"
proof -
  have "(hd (litText e) = CHR ''-'' \<longleftrightarrow> (\<exists>n. e = LitMinus n)) \<and> hd (litText e) \<noteq> CHR ''+''"
  proof (cases e)
    case (LitNum n)
    obtain c cs where c: "digitsOf n = c # cs" "isDigit c" using digitsOf_head by blast
    then have "c \<noteq> CHR ''-''" "c \<noteq> CHR ''+''" by (auto dest: digit_plain)
    with LitNum c(1) show ?thesis by simp
  qed simp_all
  then show "hd (litText e) = CHR ''-'' \<longleftrightarrow> (\<exists>n. e = LitMinus n)" "hd (litText e) \<noteq> CHR ''+''" by blast+
qed

text \<open>What each folder does on a text without a sign in front, and on a text with one.\<close>

lemma litText_plain: "\<nexists>n. e = LitMinus n \<Longrightarrow> \<exists>c cs. litText e = c # cs \<and> c \<noteq> CHR ''-'' \<and> c \<noteq> CHR ''+''"
  using litText_sign [of e] litText_ends [of e] by (cases "litText e") auto

definition operandText :: "LitExpr \<Rightarrow> string" where
  "operandText a = CHR ''('' # litText a @ [CHR '')'']"

definition topOperator :: "LitExpr \<Rightarrow> (string \<times> string \<times> string) option" where
  "topOperator e = (case e of LitMul a b \<Rightarrow> Some (operandText a, ''*'', operandText b)
     | LitShl a b \<Rightarrow> Some (operandText a, ''<<'', operandText b) | _ \<Rightarrow> None)"

lemma topLevel_litText: "topLevelBinaryOp (litText e) = topOperator e"
  using topLevel_num topLevel_minus topLevel_mul topLevel_shl by (cases e) (simp_all add: topOperator_def operandText_def)

lemma operandText_facts:
  "TrimSpace (operandText a) = operandText a" "bareText (operandText a) = litText a"
  "operandText a = CHR ''('' # litText a @ [CHR '')'']"
  by (simp_all add: operandText_def)

lemma mul_product:
  assumes "in64 x" "in64 y"
  shows "(let p = i64 (x * y) in if x \<noteq> 0 \<and> i64 (go_quot p x) \<noteq> y then None else if p \<ge> 2 ^ foldWidth then None else Some p)
    = mulValue x y"
proof (cases "x = 0")
  case True
  have "in64 0" by (simp add: in64_def minInt64_def maxInt64_def)
  then show ?thesis using True by (simp add: mulValue_def Let_def foldWidth_def i64_id)
next
  case False
  note c = product_check [OF assms False]
  show ?thesis
  proof (cases "i64 (go_quot (i64 (x * y)) x) = y")
    case True
    then have "in64 (x * y) \<or> (x = -1 \<and> y = minInt64)" using c by blast
    then show ?thesis using True by (simp add: mulValue_def Let_def foldWidth_def not_le)
  next
    case ne: False
    have "\<not> (x = -1 \<and> y = minInt64)"
    proof
      assume "x = -1 \<and> y = minInt64"
      with ne show False by (simp add: i64_def go_quot_def minInt64_def)
    qed
    then have "\<not> (in64 (x * y) \<or> (x = -1 \<and> y = minInt64))" using c ne by blast
    then have "mulValue x y = None" unfolding mulValue_def by metis
    then show ?thesis using ne False by (simp only: Let_def) simp
  qed
qed

lemma shl_product:
  assumes "in64 x"
  shows "(if y < 0 \<or> y \<ge> int foldWidth then None
     else let s = i64 (x * 2 ^ nat y) in if s div 2 ^ nat y \<noteq> x then None else if s \<ge> 2 ^ foldWidth then None else Some s)
    = shlValue x y"
proof (cases "0 \<le> y \<and> y < 32")
  case False
  then show ?thesis by (auto simp: shlValue_def foldWidth_def)
next
  case True
  define m :: int where "m = 2 ^ nat y"
  have m: "0 < m" "m \<le> 2 ^ 31"
    using True power_increasing [of "nat y" 31 "2 :: int"] by (auto simp: m_def)
  have "i64 (x * m) div m = x \<longleftrightarrow> in64 (x * m)"
  proof
    assume "in64 (x * m)"
    then show "i64 (x * m) div m = x" using m by (simp add: i64_id)
  next
    assume d: "i64 (x * m) div m = x"
    obtain k where k: "i64 (x * m) = x * m - k * 2 ^ 64" using i64_cong by blast
    have "i64 (x * m) = m * (i64 (x * m) div m) + i64 (x * m) mod m" by simp
    then have "- k * 2 ^ 64 = i64 (x * m) mod m" unfolding d using k by (simp add: mult.commute)
    moreover have "0 \<le> i64 (x * m) mod m" "i64 (x * m) mod m < 2 ^ 31" using m by (simp, metis pos_mod_bound order_less_le_trans)
    ultimately have "k = 0" by auto
    then have "i64 (x * m) = x * m" using k by simp
    then show "in64 (x * m)" using in64_i64 [of "x * m"] by simp
  qed
  note key = this
  show ?thesis
  proof (cases "in64 (x * m)")
    case i: True
    then show ?thesis using True key i64_id [OF i] unfolding shlValue_def Let_def foldWidth_def m_def [symmetric] by simp
  next
    case False
    then show ?thesis using True key unfolding shlValue_def Let_def foldWidth_def m_def [symmetric] by simp
  qed
qed

lemma litValue_in64: "litValue e = Some v \<Longrightarrow> in64 v"
proof (cases e)
  case (LitNum n)
  then show "litValue e = Some v \<Longrightarrow> in64 v" by (auto intro!: in64_nonneg split: if_splits)
next
  case (LitMinus n)
  then show "litValue e = Some v \<Longrightarrow> in64 v" by (auto simp: in64_def minInt64_def maxInt64_def split: if_splits)
qed (auto simp: mulValue_def shlValue_def bind_eq_Some_conv split: if_splits)


lemma literal_number: "topOperator e = None \<Longrightarrow> parseConstantInt (litText e) = litValue e"
  using parseConstantInt_litText [of e] by (cases e) (simp_all add: topOperator_def)

lemma bind_some_pair:
  "Option.bind x (\<lambda>v. Option.bind y (f v)) = (case (x, y) of (Some v, Some w) \<Rightarrow> f v w | _ \<Rightarrow> None)"
  by (cases x; cases y) simp_all

lemma foldWidth_int: "int foldWidth = 32" "(2 :: int) ^ foldWidth = 2 ^ 32"
  by (simp_all add: foldWidth_def)

lemma constantIntValue_core:
  assumes s: "TrimSpace s = c # cs" "c \<noteq> CHR ''+''" "c \<noteq> CHR ''-''" "bareText (c # cs) = litText e"
    and sub: "\<And>a b. e = LitMul a b \<or> e = LitShl a b
        \<Longrightarrow> constantIntValue (operandText a) = litValue a \<and> constantIntValue (operandText b) = litValue b"
  shows "constantIntValue s = litValue e"
proof -
  have ne: "bareText (c # cs) \<noteq> []" using litText_ends s(4) by simp
  have tl: "topLevelBinaryOp (bareText (c # cs)) = topOperator e" using topLevel_litText s(4) by simp
  show ?thesis
  proof (cases e)
    case (LitMul a b)
    have t: "topOperator e = Some (operandText a, ''*'', operandText b)" using LitMul by (simp add: topOperator_def)
    have ab: "constantIntValue (operandText a) = litValue a" "constantIntValue (operandText b) = litValue b" using sub LitMul by blast+
    have v: "constantIntValue s = (case (litValue a, litValue b) of (Some lv, Some rv) \<Rightarrow>
        (let p = i64 (lv * rv) in if lv \<noteq> 0 \<and> i64 (go_quot p lv) \<noteq> rv then None
           else if p \<ge> 2 ^ foldWidth then None else Some p) | _ \<Rightarrow> None)"
      using s(1-3) ne tl t ab by (cases "litValue a"; cases "litValue b") (simp_all add: constantIntValue.simps [of s])
    have "constantIntValue s = (case (litValue a, litValue b) of (Some lv, Some rv) \<Rightarrow> mulValue lv rv | _ \<Rightarrow> None)"
      unfolding v using mul_product [OF litValue_in64 litValue_in64] by (simp split: option.split)
    then show ?thesis using LitMul by (simp add: bind_some_pair)
  next
    case (LitShl a b)
    have t: "topOperator e = Some (operandText a, ''<<'', operandText b)" using LitShl by (simp add: topOperator_def)
    have ab: "constantIntValue (operandText a) = litValue a" "constantIntValue (operandText b) = litValue b" using sub LitShl by blast+
    have v: "constantIntValue s = (case (litValue a, litValue b) of (Some lv, Some rv) \<Rightarrow>
        (if rv < 0 \<or> rv \<ge> int foldWidth then None
         else let s = i64 (lv * 2 ^ nat rv) in if s div 2 ^ nat rv \<noteq> lv then None
              else if s \<ge> 2 ^ foldWidth then None else Some s) | _ \<Rightarrow> None)"
      using s(1-3) ne tl t ab by (cases "litValue a"; cases "litValue b") (simp_all add: constantIntValue.simps [of s])
    have "constantIntValue s = (case (litValue a, litValue b) of (Some lv, Some rv) \<Rightarrow> shlValue lv rv | _ \<Rightarrow> None)"
      unfolding v using shl_product [OF litValue_in64] by (simp split: option.split)
    then show ?thesis using LitShl by (simp add: bind_some_pair)
  next
    case (LitNum n)
    then have "topOperator e = None" by (simp add: topOperator_def)
    with s ne tl show ?thesis using literal_number [of e] by (simp add: constantIntValue.simps [of s])
  next
    case (LitMinus n)
    then have "topOperator e = None" by (simp add: topOperator_def)
    with s ne tl show ?thesis using literal_number [of e] by (simp add: constantIntValue.simps [of s])
  qed
qed

lemma operandText_head: "TrimSpace (operandText a) = CHR ''('' # (litText a @ [CHR '')''])"
  "bareText (CHR ''('' # (litText a @ [CHR '')''])) = litText a"
  by (simp_all add: operandText_def)

lemma constantIntValue_operand: "constantIntValue (operandText e) = litValue e"
proof (induction e)
  case (LitMul x y)
  then show ?case by (intro constantIntValue_core [OF operandText_head(1) _ _ operandText_head(2)]) auto
next
  case (LitShl x y)
  then show ?case by (intro constantIntValue_core [OF operandText_head(1) _ _ operandText_head(2)]) auto
qed (intro constantIntValue_core [OF operandText_head(1) _ _ operandText_head(2)]; auto)+

lemma constantIntValue_plain: "\<nexists>n. e = LitMinus n \<Longrightarrow> constantIntValue (litText e) = litValue e"
proof -
  assume "\<nexists>n. e = LitMinus n"
  then obtain c cs where c: "litText e = c # cs" "c \<noteq> CHR ''-''" "c \<noteq> CHR ''+''" using litText_plain by blast
  show ?thesis
    by (rule constantIntValue_core [of _ c cs]) (use c constantIntValue_operand TrimSpace_litText [of e] bareText_litText(1) [of e] in auto)
qed

lemma constantIntValue_litText: "constantIntValue (litText e) = litValue e"
proof (cases "\<exists>n. e = LitMinus n")
  case True
  then obtain n where e: "e = LitMinus n" by blast
  have "TrimSpace (litText e) = CHR ''-'' # digitsOf n" using TrimSpace_litText [of e] e by simp
  moreover have "constantIntValue (digitsOf n) = litValue (LitNum n)" using constantIntValue_plain [of "LitNum n"] by simp
  moreover have "i64 (- int n) = - int n" if "n < 2 ^ 63"
    using that by (intro i64_id) (simp add: in64_def minInt64_def maxInt64_def)
  ultimately show ?thesis using e by (simp add: constantIntValue.simps [of "CHR ''-'' # digitsOf n"])
qed (simp add: constantIntValue_plain)

lemma isLiteral_core:
  assumes s: "TrimSpace s = c # cs" "c \<noteq> CHR ''+''" "c \<noteq> CHR ''-''" "bareText (c # cs) = litText e" and f: "litFits e"
    and sub: "\<And>a b. e = LitMul a b \<or> e = LitShl a b \<Longrightarrow> isLiteralConstant (operandText a) \<and> isLiteralConstant (operandText b)"
  shows "isLiteralConstant s"
proof -
  have ne: "bareText (c # cs) \<noteq> []" using litText_ends s(4) by simp
  have tl: "topLevelBinaryOp (bareText (c # cs)) = topOperator e" using topLevel_litText s(4) by simp
  have i: "isLiteralConstant s = (case topOperator e of None \<Rightarrow> parseConstantInt (litText e) \<noteq> None
      | Some (left, op, right) \<Rightarrow> isLiteralConstant left \<and> isLiteralConstant right)"
    using s ne tl by (simp add: isLiteralConstant.simps [of s])
  show ?thesis
  proof (cases "topOperator e")
    case None
    have "litValue e \<noteq> None" using f None by (cases e) (simp_all add: topOperator_def)
    then show ?thesis using i None literal_number [OF None] by simp
  next
    case (Some q)
    then show ?thesis using i sub by (cases e) (auto simp: topOperator_def)
  qed
qed

lemma isLiteral_operand: "litFits e \<Longrightarrow> isLiteralConstant (operandText e)"
proof (induction e)
  case (LitMul x y)
  then show ?case by (intro isLiteral_core [OF operandText_head(1) _ _ operandText_head(2)]) auto
next
  case (LitShl x y)
  then show ?case by (intro isLiteral_core [OF operandText_head(1) _ _ operandText_head(2)]) auto
qed (intro isLiteral_core [OF operandText_head(1) _ _ operandText_head(2)]; auto)+

lemma isLiteral_plain: "\<nexists>n. e = LitMinus n \<Longrightarrow> litFits e \<Longrightarrow> isLiteralConstant (litText e)"
proof -
  assume a: "\<nexists>n. e = LitMinus n" "litFits e"
  then obtain c cs where c: "litText e = c # cs" "c \<noteq> CHR ''-''" "c \<noteq> CHR ''+''" using litText_plain by blast
  show ?thesis
    by (rule isLiteral_core [of _ c cs e])
      (use a c isLiteral_operand TrimSpace_litText [of e] bareText_litText(1) [of e] in auto)
qed

lemma NonZero_litText:
  assumes "litFits e"
  shows "NonZeroConstantValue (litText e) \<longleftrightarrow> (\<exists>v. litValue e = Some v \<and> v \<noteq> 0)"
proof (cases "topOperator e")
  case None
  have "litValue e \<noteq> None" using assms None by (cases e) (simp_all add: topOperator_def)
  then show ?thesis using literal_number [OF None] by (auto simp: NonZeroConstantValue_def)
next
  case (Some q)
  then have nm: "\<nexists>n. e = LitMinus n" by (auto simp: topOperator_def)
  then obtain c cs where c: "litText e = c # cs" "c \<noteq> CHR ''-''" "c \<noteq> CHR ''+''" using litText_plain by blast
  have p: "parseConstantInt (litText e) = None"
    using Some parseConstantInt_litText [of e] by (cases e) (simp_all add: topOperator_def)
  obtain left op right where q: "q = (left, op, right)" "op = ''*'' \<or> op = ''<<''"
    using Some by (cases e) (auto simp: topOperator_def)
  have t: "TrimSpace (litText e) = c # cs" "bareText (c # cs) = litText e" using c TrimSpace_litText [of e] bareText_litText(1) [of e] by simp_all
  have tl: "topLevelBinaryOp (litText e) = Some (left, op, right)" using topLevel_litText [of e] Some q(1) by simp
  have "foldNonZeroConstant None (litText e) = (case constantIntValue (litText e) of Some v \<Rightarrow> v \<noteq> 0 | None \<Rightarrow> False)"
    using q(2) c t tl isLiteral_plain [OF nm assms] litText_ends [of e]
    by (auto simp: foldNonZeroConstant.simps [of None "c # cs"] split: option.splits)
  then show ?thesis using p constantIntValue_litText [of e] by (auto simp: NonZeroConstantValue_def split: option.splits)
qed

section \<open>The meaning of a fold\<close>

fun exactLit :: "LitExpr \<Rightarrow> int" where
  "exactLit (LitNum n) = int n"
| "exactLit (LitMinus n) = - int n"
| "exactLit (LitMul a b) = exactLit a * exactLit b"
| "exactLit (LitShl a b) = exactLit a * 2 ^ nat (exactLit b)"

fun noMinus :: "LitExpr \<Rightarrow> bool" where
  "noMinus (LitMinus n) \<longleftrightarrow> False"
| "noMinus (LitNum n) \<longleftrightarrow> True"
| "noMinus (LitMul a b) \<longleftrightarrow> noMinus a \<and> noMinus b"
| "noMinus (LitShl a b) \<longleftrightarrow> noMinus a \<and> noMinus b"

lemma litValue_exact: "noMinus e \<Longrightarrow> litValue e = Some v \<Longrightarrow> v = exactLit e \<and> 0 \<le> v"
proof (induction e arbitrary: v)
  case (LitMul a b)
  then obtain x y where xy: "litValue a = Some x" "litValue b = Some y" "mulValue x y = Some v"
    by (auto simp: bind_eq_Some_conv)
  with LitMul have "x = exactLit a" "y = exactLit b" "0 \<le> x" "0 \<le> y" by auto
  with xy(3) show ?case by (auto simp: mulValue_def i64_id split: if_splits)
next
  case (LitShl a b)
  then obtain x y where xy: "litValue a = Some x" "litValue b = Some y" "shlValue x y = Some v"
    by (auto simp: bind_eq_Some_conv)
  with LitShl have "x = exactLit a" "y = exactLit b" "0 \<le> x" "0 \<le> y" by auto
  with xy(3) show ?case by (auto simp: shlValue_def split: if_splits)
qed (auto split: if_splits)

lemma litValue_small:
  assumes "topOperator e \<noteq> None" "litValue e = Some v"
  shows "v < 2 ^ 32"
  using assms by (cases e) (auto simp: topOperator_def mulValue_def shlValue_def bind_eq_Some_conv split: if_splits)



text \<open>
  Where the folding is not sound: a shift whose left operand is not zero counts as non-zero whatever
  stands behind it, so an operator the scan does not know, of lower precedence, is swallowed with the
  right operand; and a product with a negative factor is not checked against the width.
\<close>

lemma shift_swallows_and: "NonZeroConstantValue ''2 << 1 & 1'' \<and> (2 :: int) * 2 ^ 1 mod 2 = 0"
  by code_simp

lemma negative_product_wraps: "NonZeroConstantValue ''65536 * (-65536)'' \<and> (65536 :: int) * -65536 mod 2 ^ 32 = 0"
proof -
  have "NonZeroConstantValue ''65536 * (-65536)''" by code_simp
  then show ?thesis by simp
qed

end
