(* ===== verification/Const_Env.thy ===== *)
theory Const_Env
  imports Const_Text
begin

text \<open>
  The environment of compile-time constants of parser/constant_symbols.go: collecting it from the macros,
  enumerators and const variables of a file, merging two environments, and merging numeric -D defines.
\<close>

section \<open>Merging\<close>

definition dropConstant :: "string \<Rightarrow> ConstantEnv \<Rightarrow> ConstantEnv" where
  "dropConstant name e = e\<lparr>ceNonZero := removeAll name (ceNonZero e), ceZero := removeAll name (ceZero e)\<rparr>"

definition addNonZero :: "string \<Rightarrow> ConstantEnv \<Rightarrow> ConstantEnv" where
  "addNonZero name e = e\<lparr>ceNonZero := List.insert name (ceNonZero e)\<rparr>"

definition addZero :: "string \<Rightarrow> ConstantEnv \<Rightarrow> ConstantEnv" where
  "addZero name e = e\<lparr>ceZero := List.insert name (ceZero e)\<rparr>"

definition mergeNonZero :: "string \<Rightarrow> ConstantEnv \<Rightarrow> ConstantEnv" where
  "mergeNonZero name e = (if name \<in> set (ceZero e) then dropConstant name e else addNonZero name e)"

definition mergeZero :: "string \<Rightarrow> ConstantEnv \<Rightarrow> ConstantEnv" where
  "mergeZero name e = (if name \<in> set (ceNonZero e) then dropConstant name e else addZero name e)"

definition mergeEnv :: "ConstantEnv \<Rightarrow> ConstantEnv option \<Rightarrow> ConstantEnv" where
  "mergeEnv e other =
     (case other of None \<Rightarrow> e
      | Some f \<Rightarrow> fold mergeZero (ceZero f) (fold mergeNonZero (ceNonZero f) e))"

definition MergeDefines :: "(string \<times> int) list \<Rightarrow> ConstantEnv \<Rightarrow> ConstantEnv" where
  "MergeDefines defines e = fold (\<lambda>(name, v). if v = 0 then mergeZero name else mergeNonZero name) defines e"


section \<open>Collecting\<close>

text \<open>The name and the replacement text of a macro definition.\<close>

definition defParts :: "Node \<Rightarrow> string \<times> string" where
  "defParts d =
     fold (\<lambda>c (name, v). if Kind c = ''identifier'' then (if name = '''' then Text c else name, v)
                         else if Kind c = ''preproc_arg'' then (name, Text c) else (name, v))
       (NamedChildren d) ('''', '''')"

definition collectDef :: "Node \<Rightarrow> ConstantEnv \<Rightarrow> ConstantEnv" where
  "collectDef d env =
     (case defParts d of (name, v) \<Rightarrow>
        if name = '''' \<or> v = '''' then env
        else if NonZeroConstantValue v then addNonZero name env
        else if IsZeroConstantValue v then addZero name env else env)"

definition collectFunctionDef :: "Node \<Rightarrow> ConstantEnv \<Rightarrow> ConstantEnv" where
  "collectFunctionDef d env =
     (case defParts d of (name, v) \<Rightarrow>
        if name = '''' \<or> v = '''' \<or> (\<not> NonZeroConstantValue v \<and> \<not> IsZeroConstantValue v) then env
        else if NonZeroConstantValue v then addNonZero (name @ ''()'') env
        else addZero (name @ ''()'') env)"

text \<open>Enumerators, with the running value and whether it is known.\<close>

definition enumName :: "Node \<Rightarrow> string" where
  "enumName en = fold (\<lambda>c name. if Kind c = ''identifier'' \<and> name = '''' then Text c else name) (NamedChildren en) ''''"

definition collectEnumerator :: "Node \<Rightarrow> ConstantEnv \<times> int \<times> bool \<Rightarrow> ConstantEnv \<times> int \<times> bool" where
  "collectEnumerator en st =
     (case st of (env, running, valid) \<Rightarrow>
        let name = enumName en;
            record_value = (\<lambda>v. (if v = 0 then addZero name env else addNonZero name env, i64 (v + 1), True))
        in if name = '''' then st
           else if CHR ''='' \<in> set (Text en) then
             (case parseConstantInt (TrimSpace (tl (dropWhile (\<lambda>c. c \<noteq> CHR ''='') (Text en)))) of
                None \<Rightarrow> (env, running, False)
              | Some v \<Rightarrow> record_value v)
           else if \<not> valid then st
           else record_value running)"

definition declParts :: "Node \<Rightarrow> string \<times> string" where
  "declParts d =
     fold (\<lambda>c (name, v). if Kind c = ''identifier'' then (if name = '''' then Text c else name, v)
                         else if Kind c = ''number_literal'' \<or> Kind c = ''parenthesized_expression''
                         then (name, if v = '''' then Text c else v) else (name, v))
       (NamedChildren d) ('''', '''')"

definition collectInitializer :: "Node \<Rightarrow> ConstantEnv \<Rightarrow> ConstantEnv" where
  "collectInitializer child env =
     (if Kind child \<noteq> ''init_declarator'' then env
      else if strContains (Text child) ''*'' then env
      else case declParts child of (name, v) \<Rightarrow>
        if name = '''' \<or> v = '''' then env
        else if NonZeroConstantValue v then addNonZero name env
        else if IsZeroConstantValue v then addZero name env else env)"

definition collectDeclaration :: "Node \<Rightarrow> ConstantEnv \<Rightarrow> ConstantEnv" where
  "collectDeclaration decl env =
     (if \<not> strContains (Text decl) ''const'' then env else fold collectInitializer (NamedChildren decl) env)"

definition CollectConstantSymbols :: "Node \<Rightarrow> ConstantEnv" where
  "CollectConstantSymbols root =
     (let e1 = fold collectDef (FindAll ''preproc_def'' root) NewConstantEnv;
          e2 = fold collectFunctionDef (FindAll ''preproc_function_def'' root) e1;
          e3 = fst (fold collectEnumerator (FindAll ''enumerator'' root) (e2, 0, True))
      in fold collectDeclaration (FindAll ''declaration'' root) e3)"


section \<open>Agreement\<close>

definition consistentEnv :: "ConstantEnv \<Rightarrow> bool" where
  "consistentEnv e \<longleftrightarrow> set (ceNonZero e) \<inter> set (ceZero e) = {}"

named_theorems env_ops \<open>the key sets of the environment operations\<close>

lemma env_sets [env_ops]:
  "set (ceNonZero (dropConstant n e)) = set (ceNonZero e) - {n}" "set (ceZero (dropConstant n e)) = set (ceZero e) - {n}"
  "set (ceNonZero (addNonZero n e)) = insert n (set (ceNonZero e))" "ceZero (addNonZero n e) = ceZero e"
  "set (ceZero (addZero n e)) = insert n (set (ceZero e))" "ceNonZero (addZero n e) = ceNonZero e"
  by (auto simp: dropConstant_def addNonZero_def addZero_def)

lemma fold_mergeNonZero:
  "set xs \<inter> set (ceZero e) \<inter> set (ceNonZero e) = {} \<Longrightarrow> distinct xs \<Longrightarrow>
   set (ceNonZero (fold mergeNonZero xs e)) = (set (ceNonZero e) \<union> set xs) - (set xs \<inter> set (ceZero e))
   \<and> set (ceZero (fold mergeNonZero xs e)) = set (ceZero e) - set xs"
proof (induction xs arbitrary: e)
  case (Cons x xs)
  have "set xs \<inter> set (ceZero (mergeNonZero x e)) \<inter> set (ceNonZero (mergeNonZero x e)) = {}"
    using Cons.prems by (auto simp: mergeNonZero_def env_ops)
  from Cons.IH [OF this] Cons.prems show ?case by (auto simp: mergeNonZero_def env_ops)
qed simp

lemma fold_mergeZero:
  "set xs \<inter> set (ceZero e) \<inter> set (ceNonZero e) = {} \<Longrightarrow> distinct xs \<Longrightarrow>
   set (ceZero (fold mergeZero xs e)) = (set (ceZero e) \<union> set xs) - (set xs \<inter> set (ceNonZero e))
   \<and> set (ceNonZero (fold mergeZero xs e)) = set (ceNonZero e) - set xs"
proof (induction xs arbitrary: e)
  case (Cons x xs)
  have "set xs \<inter> set (ceZero (mergeZero x e)) \<inter> set (ceNonZero (mergeZero x e)) = {}"
    using Cons.prems by (auto simp: mergeZero_def env_ops)
  from Cons.IH [OF this] Cons.prems show ?case by (auto simp: mergeZero_def env_ops)
qed simp

definition keyed :: "ConstantEnv \<Rightarrow> bool" where
  "keyed e \<longleftrightarrow> distinct (ceNonZero e) \<and> distinct (ceZero e)"

lemma merge_sets:
  assumes "consistentEnv e" "consistentEnv f" "keyed f"
  shows "set (ceNonZero (mergeEnv e (Some f))) = (set (ceNonZero e) \<union> set (ceNonZero f)) - (set (ceZero e) \<union> set (ceZero f))"
    and "set (ceZero (mergeEnv e (Some f))) = (set (ceZero e) \<union> set (ceZero f)) - (set (ceNonZero e) \<union> set (ceNonZero f))"
proof -
  let ?e1 = "fold mergeNonZero (ceNonZero f) e"
  have d: "distinct (ceNonZero f)" "distinct (ceZero f)" using assms(3) by (simp_all add: keyed_def)
  have c: "set (ceNonZero e) \<inter> set (ceZero e) = {}" "set (ceNonZero f) \<inter> set (ceZero f) = {}"
    using assms by (simp_all add: consistentEnv_def)
  have a: "set (ceNonZero ?e1) = (set (ceNonZero e) \<union> set (ceNonZero f)) - (set (ceNonZero f) \<inter> set (ceZero e))"
    "set (ceZero ?e1) = set (ceZero e) - set (ceNonZero f)"
    using fold_mergeNonZero [of "ceNonZero f" e] c d by auto
  have "set (ceZero f) \<inter> set (ceZero ?e1) \<inter> set (ceNonZero ?e1) = {}" using a c by auto
  note b = fold_mergeZero [OF this d(2)]
  show "set (ceNonZero (mergeEnv e (Some f))) = (set (ceNonZero e) \<union> set (ceNonZero f)) - (set (ceZero e) \<union> set (ceZero f))"
    "set (ceZero (mergeEnv e (Some f))) = (set (ceZero e) \<union> set (ceZero f)) - (set (ceNonZero e) \<union> set (ceNonZero f))"
    using a b c by (auto simp: mergeEnv_def)
qed

text \<open>Merging two consistent environments keeps exactly what neither contradicts.  A name is non-zero
  afterwards just when one of them says so and neither says zero, and symmetrically; so the result is
  consistent again, and it does not matter which of the two is merged into the other.\<close>

theorem mergeEnv_agreement:
  assumes "consistentEnv e" "consistentEnv f" "keyed e" "keyed f"
  shows "(envNonZero (mergeEnv e (Some f)) n \<longleftrightarrow> (envNonZero e n \<or> envNonZero f n) \<and> \<not> envIsZero e n \<and> \<not> envIsZero f n)
     \<and> (envIsZero (mergeEnv e (Some f)) n \<longleftrightarrow> (envIsZero e n \<or> envIsZero f n) \<and> \<not> envNonZero e n \<and> \<not> envNonZero f n)
     \<and> consistentEnv (mergeEnv e (Some f))
     \<and> (envNonZero (mergeEnv e (Some f)) n \<longleftrightarrow> envNonZero (mergeEnv f (Some e)) n)"
  using merge_sets [OF assms(1,2,4)] merge_sets [OF assms(2,1,3)]
  by (auto simp: envNonZero_def envIsZero_def consistentEnv_def)

theorem mergeEnv_agreement_witness:
  "\<not> envNonZero (mergeEnv (addNonZero ''N'' NewConstantEnv) (Some (addZero ''N'' NewConstantEnv))) ''N''"
proof -
  let ?e = "addNonZero ''N'' NewConstantEnv" and ?f = "addZero ''N'' NewConstantEnv"
  have "consistentEnv ?e" "consistentEnv ?f" "keyed ?e" "keyed ?f"
    by (simp_all add: consistentEnv_def keyed_def addNonZero_def addZero_def NewConstantEnv_def)
  note m = mergeEnv_agreement [OF this, of "''N''"]
  have "envIsZero ?f ''N''" by (simp add: envIsZero_def addZero_def NewConstantEnv_def TrimSpace_def trimBy_def isSpace_def)
  with m show ?thesis by blast
qed

text \<open>
  Three environments are another matter: the conflict of the first two is forgotten, and a third one
  brings the name back.  So what a run of merges over the files knows depends on their order.
\<close>

lemma merge_forgets_conflict:
  "let a = addNonZero ''N'' NewConstantEnv; z = addZero ''N'' NewConstantEnv in
     envNonZero (mergeEnv (mergeEnv a (Some z)) (Some a)) ''N'' \<and> \<not> envNonZero (mergeEnv (mergeEnv a (Some a)) (Some z)) ''N''"
  by code_simp

text \<open>
  The running value of enumerators is not started again for the next enum: in a file with
  enum { A = 5 } and enum { B } the first enumerator of the second, whose value is zero, counts as
  non-zero.
\<close>

definition namedNode :: "string \<Rightarrow> string \<Rightarrow> Node list \<Rightarrow> Node" where
  "namedNode k t cs = TSNode k '''' True False t
     \<lparr>posStartByte = 0, posEndByte = 0, posStartLine = 0, posStartColumn = 0, posEndLine = 0, posEndColumn = 0\<rparr> cs"

lemma next_enum_continues:
  "envNonZero
     (CollectConstantSymbols (namedNode ''translation_unit'' ''enum { A = 5 }; enum { B };''
        [namedNode ''enum_specifier'' ''enum { A = 5 }'' [namedNode ''enumerator'' ''A = 5'' [namedNode ''identifier'' ''A'' [], namedNode ''number_literal'' ''5'' []]],
         namedNode ''enum_specifier'' ''enum { B }'' [namedNode ''enumerator'' ''B'' [namedNode ''identifier'' ''B'' []]]]))
     ''B''"
  by code_simp

end
