(* ===== verification/Planner_Program.thy ===== *)
theory Planner_Program
  imports Const_Env Range_Flow
begin

text \<open>
  What the planner's filters know of the scanned program: the functions and files of the store, the
  parsed root of every file (the parse itself is tree-sitter's), and the per-file cache of function bodies
  and definitions of planner/null_flow.go.  The standard functions named by the tables of
  internal/apikb are here too.  The cache fills each file once from unchanging roots, so it is
  modelled by what it answers; its borrows of trees are those of the parser's cache.
\<close>

record dbFunction =
  fnID :: int
  fnName :: string
  fnFileID :: int
  fnStartLine :: int
  fnEndLine :: int
  fnIsStatic :: bool

record dbFile =
  dfID :: int
  dfRoot :: Node

definition NonZeroReturnFunctions :: "string list" where
  "NonZeroReturnFunctions = [''getpid'', ''getppid'', ''getuid'', ''geteuid'', ''getgid'', ''getegid'']"

definition NonZeroReturn :: "string \<Rightarrow> bool" where
  "NonZeroReturn name \<longleftrightarrow> name \<in> set NonZeroReturnFunctions"

definition NoReturnCalls :: "string list" where
  "NoReturnCalls = [''abort'', ''exit'', ''_exit'', ''_Exit'', ''quick_exit'', ''__assert_fail'']"

definition IsNoReturnCall :: "string \<Rightarrow> bool" where
  "IsNoReturnCall name \<longleftrightarrow> name \<in> set NoReturnCalls"


section \<open>Functions of a file\<close>

text \<open>The last body and the first definition that start on a line.\<close>

definition functionBodies :: "Node \<Rightarrow> (int \<times> Node) list" where
  "functionBodies root =
     fold (\<lambda>d bodies. case FindFirst ''compound_statement'' d of
                        None \<Rightarrow> bodies | Some b \<Rightarrow> AList.update (StartLine d) b bodies)
       (FindAll ''function_definition'' root) []"

definition functionDefs :: "Node \<Rightarrow> (int \<times> Node) list" where
  "functionDefs root =
     fold (\<lambda>d defs. if map_of defs (StartLine d) = None then AList.update (StartLine d) d defs else defs)
       (FindAll ''function_definition'' root) []"

definition nodeOr :: "Node option \<Rightarrow> Node" where
  "nodeOr o' = (case o' of None \<Rightarrow> NullNode | Some n \<Rightarrow> n)"

definition bodyOf :: "dbFile \<Rightarrow> dbFunction \<Rightarrow> Node" where
  "bodyOf file fn = nodeOr (map_of (functionBodies (dfRoot file)) (fnStartLine fn))"

definition defFor :: "dbFile \<Rightarrow> dbFunction \<Rightarrow> Node" where
  "defFor file fn = nodeOr (map_of (functionDefs (dfRoot file)) (fnStartLine fn))"

definition paramNamesOfDeclarator :: "Node \<Rightarrow> string list" where
  "paramNamesOfDeclarator decl =
     concat (map (\<lambda>pl. filter (\<lambda>nm. nm \<noteq> '''')
                   (map declaratorName (filter (\<lambda>p. Kind p = ''parameter_declaration'') (NamedChildren pl))))
       (filter (\<lambda>c. Kind c = ''parameter_list'') (NamedChildren decl)))"

function findFunctionDeclarator :: "Node \<Rightarrow> Node" where
  "findFunctionDeclarator n =
     (if Kind n \<noteq> ''pointer_declarator'' then NullNode
      else case find (\<lambda>c. Kind c = ''function_declarator'') (NamedChildren n) of
             Some c \<Rightarrow> c
           | None \<Rightarrow>
               (case filter (\<lambda>c. Kind c = ''pointer_declarator'') (NamedChildren n) of
                  [] \<Rightarrow> NullNode
                | c # cs \<Rightarrow> findFunctionDeclarator (last (c # cs))))"
  by pat_completeness auto
termination
proof (relation "measure size")
  fix n c cs
  assume "filter (\<lambda>c. Kind c = ''pointer_declarator'') (NamedChildren n) = c # cs"
  then have "set (c # cs) \<subseteq> set (NamedChildren n)" by (metis filter_is_subset)
  moreover have "last (c # cs) \<in> set (c # cs)" by (rule last_in_set) simp
  ultimately have "last (c # cs) \<in> set (NamedChildren n)" by blast
  then show "(last (c # cs), n) \<in> measure size" by (simp add: size_NamedChildren)
qed simp

fun paramNamesFrom :: "Node list \<Rightarrow> string list" where
  "paramNamesFrom [] = []"
| "paramNamesFrom (c # cs) =
     (if Kind c = ''function_declarator'' then paramNamesOfDeclarator c
      else if Kind c = ''pointer_declarator'' \<and> Kind (findFunctionDeclarator c) \<noteq> ''''
      then paramNamesOfDeclarator (findFunctionDeclarator c)
      else paramNamesFrom cs)"

definition paramNamesOfDef :: "Node \<Rightarrow> string list" where
  "paramNamesOfDef d = paramNamesFrom (NamedChildren d)"

text \<open>The ordinal index of a parameter name; of two equal names the later index counts.\<close>

definition paramsFor :: "dbFile \<Rightarrow> dbFunction \<Rightarrow> (string \<times> nat) list" where
  "paramsFor file fn =
     (let d = defFor file fn in
      if Kind d = '''' then []
      else fold (\<lambda>(i, p) out. if p \<noteq> '''' then AList.update p i out else out)
             (List.enumerate 0 (paramNamesOfDef d)) [])"

definition callArgs :: "Node \<Rightarrow> Node list" where
  "callArgs call =
     (case find (\<lambda>c. Kind c = ''argument_list'') (NamedChildren call) of None \<Rightarrow> [] | Some c \<Rightarrow> NamedChildren c)"

definition listFilesByID :: "dbFile list \<Rightarrow> (int \<times> dbFile) list" where
  "listFilesByID files = fold (\<lambda>f. AList.update (dfID f) f) files []"

end
