(* ===== verification/Return_Summary.thy ===== *)
theory Return_Summary
  imports Planner_Program
begin

text \<open>
  The return summaries of internal/planner/return_summary.go: whether every return of a function yields
  a value that is not zero, memoized and guarded against cycles.  The state of the resolver is its memo
  and the functions being visited.  The mutual recursion of funcNonZero, exprInterval and
  nonZeroReturn is opened on the summary of a function and tied with fuel; None means that the fuel
  ran out, which the number of functions prevents.
\<close>

section \<open>The resolver\<close>

record resolver =
  rvFuncByName :: "(string \<times> int list) list"
  rvFnByID :: "(int \<times> dbFunction) list"
  rvFileByID :: "(int \<times> dbFile) list"
  rvGlobalConsts :: "ConstantEnv option"

record summaryState =
  rvMemo :: "(int \<times> bool) list"
  rvVisiting :: "int list"

definition buildGlobalConstants :: "(int \<times> dbFile) list \<Rightarrow> ConstantEnv" where
  "buildGlobalConstants files =
     fold (\<lambda>(_, f) env. if Kind (dfRoot f) = '''' then env else mergeEnv env (Some (CollectConstantSymbols (dfRoot f))))
       files NewConstantEnv"

definition newReturnSummaryResolver :: "dbFunction list \<Rightarrow> dbFile list \<Rightarrow> resolver" where
  "newReturnSummaryResolver funcs files =
     \<lparr>rvFuncByName = fold (\<lambda>fn m. AList.update (fnName fn)
                             ((case map_of m (fnName fn) of None \<Rightarrow> [] | Some ids \<Rightarrow> ids) @ [fnID fn]) m) funcs [],
      rvFnByID = fold (\<lambda>fn. AList.update (fnID fn) fn) funcs [],
      rvFileByID = listFilesByID files,
      rvGlobalConsts = Some (buildGlobalConstants (listFilesByID files))\<rparr>"

definition funcIDs :: "resolver \<Rightarrow> string \<Rightarrow> int list" where
  "funcIDs rv name = (case map_of (rvFuncByName rv) name of None \<Rightarrow> [] | Some ids \<Rightarrow> ids)"

definition returnExpr :: "Node \<Rightarrow> Node option" where
  "returnExpr ret = (case NamedChildren ret of [] \<Rightarrow> None | c # cs \<Rightarrow> Some c)"

definition literalInterval :: "string \<Rightarrow> interval option" where
  "literalInterval s = map_option constInterval (signedLiteral (TrimSpace s))"

definition positiveInterval :: interval where
  "positiveInterval = \<lparr>ivLo = 1, ivHi = maxInt64\<rparr>"


section \<open>Summaries\<close>

type_synonym summarizer = "int \<Rightarrow> summaryState \<Rightarrow> (bool \<times> summaryState) option"

fun allNonZero :: "summarizer \<Rightarrow> int list \<Rightarrow> summaryState \<Rightarrow> (bool \<times> summaryState) option" where
  "allNonZero summ [] st = Some (True, st)"
| "allNonZero summ (i # ids) st =
     (case summ i st of
        None \<Rightarrow> None
      | Some (b, st') \<Rightarrow> if b then allNonZero summ ids st' else Some (False, st'))"

definition nonZeroReturnWith :: "summarizer \<Rightarrow> resolver \<Rightarrow> string \<Rightarrow> summaryState \<Rightarrow> (bool \<times> summaryState) option" where
  "nonZeroReturnWith summ rv name st =
     (if NonZeroReturn name then Some (True, st)
      else if funcIDs rv name = [] then Some (False, st)
      else allNonZero summ (funcIDs rv name) st)"

text \<open>The first operand with an interval.\<close>

fun firstInterval ::
  "(Node \<Rightarrow> summaryState \<Rightarrow> (interval option \<times> summaryState) option) \<Rightarrow> Node list \<Rightarrow> summaryState
     \<Rightarrow> (interval option \<times> summaryState) option" where
  "firstInterval f [] st = Some (None, st)"
| "firstInterval f (c # cs) st =
     (case f c st of
        None \<Rightarrow> None
      | Some (Some iv, st') \<Rightarrow> Some (Some iv, st')
      | Some (None, st') \<Rightarrow> firstInterval f cs st')"

lemma firstInterval_cong [fundef_cong]:
  "xs = ys \<Longrightarrow> st = st' \<Longrightarrow> (\<And>c s. c \<in> set ys \<Longrightarrow> f c s = g c s) \<Longrightarrow> firstInterval f xs st = firstInterval g ys st'"
  by (induction ys arbitrary: xs st st') (auto split: option.split prod.split)



function exprInterval ::
  "summarizer \<Rightarrow> resolver \<Rightarrow> rangeFlow option \<Rightarrow> ConstantEnv \<Rightarrow> Node \<Rightarrow> summaryState
     \<Rightarrow> (interval option \<times> summaryState) option" where
  "exprInterval summ rv flow cenv expr st =
     (if Kind expr = ''number_literal'' then Some (literalInterval (Text expr), st)
      else if Kind expr = ''sizeof_expression'' then Some (Some positiveInterval, st)
      else if Kind expr = ''identifier'' then
        (if envNonZero cenv (Text expr) then Some (Some positiveInterval, st)
         else case flow of None \<Rightarrow> Some (None, st) | Some fl \<Rightarrow> Some (Some (rangeAt flow (Text expr) (StartLine expr)), st))
      else if Kind expr = ''binary_expression'' then
        Some (if NonZeroExpr cenv (Text expr) then Some positiveInterval else None, st)
      else if Kind expr = ''conditional_expression'' then
        (case (ChildByFieldName ''consequence'' expr, ChildByFieldName ''alternative'' expr) of
           (Some cons, Some alt) \<Rightarrow>
             (case exprInterval summ rv flow cenv cons st of
                None \<Rightarrow> None
              | Some (civ, st1) \<Rightarrow>
                  (case exprInterval summ rv flow cenv alt st1 of
                     None \<Rightarrow> None
                   | Some (aiv, st2) \<Rightarrow>
                       Some (case (civ, aiv) of
                               (Some c, Some a) \<Rightarrow> if isNonZero c \<and> isNonZero a then Some positiveInterval else None
                             | _ \<Rightarrow> None, st2)))
         | _ \<Rightarrow> Some (None, st))
      else if isWrapper expr then firstInterval (exprInterval summ rv flow cenv) (NamedChildren expr) st
      else if Kind expr = ''unary_expression'' then Some (literalInterval (Text expr), st)
      else if Kind expr = ''call_expression'' then
        (if callName expr = '''' then Some (None, st)
         else case nonZeroReturnWith summ rv (callName expr) st of
                None \<Rightarrow> None
              | Some (b, st') \<Rightarrow> Some (if b then Some positiveInterval else None, st'))
      else Some (None, st))"
  by pat_completeness auto
termination
  by (relation "measure (\<lambda>(summ, rv, flow, cenv, expr, st). size expr)")
    (simp_all add: size_NamedChildren size_ChildByFieldName)

declare exprInterval.simps [simp del]

text \<open>Every return of a function; the first that is not proven decides.\<close>

fun returnsNonZero ::
  "summarizer \<Rightarrow> resolver \<Rightarrow> rangeFlow option \<Rightarrow> ConstantEnv \<Rightarrow> Node list \<Rightarrow> summaryState \<Rightarrow> (bool \<times> summaryState) option" where
  "returnsNonZero summ rv flow cenv [] st = Some (True, st)"
| "returnsNonZero summ rv flow cenv (ret # rets) st =
     (case returnExpr ret of
        None \<Rightarrow> Some (False, st)
      | Some expr \<Rightarrow>
          (case exprInterval summ rv flow cenv expr st of
             None \<Rightarrow> None
           | Some (Some iv, st') \<Rightarrow>
               if isNonZero iv then returnsNonZero summ rv flow cenv rets st' else Some (False, st')
           | Some (None, st') \<Rightarrow> Some (False, st')))"

definition constsFor :: "resolver \<Rightarrow> Node \<Rightarrow> ConstantEnv" where
  "constsFor rv root = (case rvGlobalConsts rv of Some c \<Rightarrow> c | None \<Rightarrow> CollectConstantSymbols root)"

definition flowFor :: "dbFile \<Rightarrow> dbFunction \<Rightarrow> rangeFlow option" where
  "flowFor file fn = analyzeRanges (bodyOf file fn) (fnEndLine fn) None"

definition setMemo :: "int \<Rightarrow> bool \<Rightarrow> summaryState \<Rightarrow> summaryState" where
  "setMemo i b st = st\<lparr>rvMemo := AList.update i b (rvMemo st)\<rparr>"

text \<open>What remains to do once the function is marked as visited.\<close>

definition summarizeFunction :: "summarizer \<Rightarrow> resolver \<Rightarrow> int \<Rightarrow> summaryState \<Rightarrow> (bool \<times> summaryState) option" where
  "summarizeFunction summ rv i st =
     (case map_of (rvFnByID rv) i of
        None \<Rightarrow> Some (False, setMemo i False st)
      | Some fn \<Rightarrow>
          (case map_of (rvFileByID rv) (fnFileID fn) of
             None \<Rightarrow> Some (False, setMemo i False st)
           | Some file \<Rightarrow>
               let body = bodyOf file fn; rets = FindAll ''return_statement'' body in
               if Kind body \<noteq> ''compound_statement'' then Some (False, setMemo i False st)
               else if rets = [] then Some (False, setMemo i False st)
               else (case returnsNonZero summ rv (flowFor file fn) (constsFor rv (dfRoot file)) rets st of
                       None \<Rightarrow> None
                     | Some (b, st') \<Rightarrow> Some (b, setMemo i b st'))))"

fun funcNonZero :: "nat \<Rightarrow> resolver \<Rightarrow> int \<Rightarrow> summaryState \<Rightarrow> (bool \<times> summaryState) option" where
  "funcNonZero fuel rv i st =
     (case map_of (rvMemo st) i of
        Some v \<Rightarrow> Some (v, st)
      | None \<Rightarrow>
          if i \<in> set (rvVisiting st) then Some (False, st)
          else case fuel of
                 0 \<Rightarrow> None
               | Suc k \<Rightarrow>
                   (case summarizeFunction (funcNonZero k rv) rv i (st\<lparr>rvVisiting := i # rvVisiting st\<rparr>) of
                      None \<Rightarrow> None
                    | Some (b, st') \<Rightarrow> Some (b, st'\<lparr>rvVisiting := removeAll i (rvVisiting st')\<rparr>)))"

declare funcNonZero.simps [simp del]

text \<open>One iteration per function, and one for a function the store does not know.\<close>

definition summaryFuel :: "resolver \<Rightarrow> nat" where
  "summaryFuel rv = length (rvFnByID rv) + 1"

definition nonZeroReturn :: "resolver \<Rightarrow> string \<Rightarrow> summaryState \<Rightarrow> (bool \<times> summaryState) option" where
  "nonZeroReturn rv = nonZeroReturnWith (funcNonZero (summaryFuel rv) rv) rv"

definition callResult :: "resolver \<Rightarrow> string \<Rightarrow> summaryState \<Rightarrow> (interval option \<times> summaryState) option" where
  "callResult rv name st =
     map_option (\<lambda>(b, st'). (if b then Some positiveInterval else None, st')) (nonZeroReturn rv name st)"

definition freshSummary :: summaryState where
  "freshSummary = \<lparr>rvMemo = [], rvVisiting = []\<rparr>"

end
