(* ===== verification/Return_Sound.thy ===== *)
theory Return_Sound
  imports Return_Summary Range_Facts
begin

text \<open>
  What a return summary means: the values an expression may have, with calls returning what the called
  function may return, and the proofs that summarizing a function always ends and that a function
  summarized as non-zero never returns zero.  The interface between an expression and the summaries of
  the functions it calls is the locale summary_provider.
\<close>

section \<open>Values\<close>

definition operandsOf :: "Node \<Rightarrow> Node list" where
  "operandsOf e = filter (\<lambda>c. Kind c \<noteq> ''comment'' \<and> Kind c \<noteq> ''type_descriptor'') (NamedChildren e)"

definition evalKinds :: "string list" where
  "evalKinds = [''number_literal'', ''unary_expression'', ''sizeof_expression'', ''identifier'', ''binary_expression'',
     ''conditional_expression'', ''parenthesized_expression'', ''cast_expression'', ''call_expression'']"

text \<open>
  The values an expression may have.  A literal has its value, a sizeof is positive, a name the constants
  call non-zero is not zero, another name lies in its interval, a folded text is not zero; parentheses and
  casts keep the value; a call of a contract function is not zero, any other call returns what one of
  the functions of that name may return.  Everything else may have any value.
\<close>

inductive mayEval ::
  "resolver \<Rightarrow> rangeFlow option \<Rightarrow> ConstantEnv \<Rightarrow> (int \<Rightarrow> int \<Rightarrow> bool) \<Rightarrow> Node \<Rightarrow> int \<Rightarrow> bool"
  for rv flow cenv ret where
  evLiteral: "Kind e = ''number_literal'' \<or> Kind e = ''unary_expression'' \<Longrightarrow>
    (case literalInterval (Text e) of None \<Rightarrow> True | Some iv \<Rightarrow> inIv x iv) \<Longrightarrow> mayEval rv flow cenv ret e x"
| evSizeof: "Kind e = ''sizeof_expression'' \<Longrightarrow> 0 < x \<Longrightarrow> mayEval rv flow cenv ret e x"
| evName: "Kind e = ''identifier'' \<Longrightarrow>
    (if envNonZero cenv (Text e) then x \<noteq> 0 else inIv x (rangeAt flow (Text e) (StartLine e))) \<Longrightarrow>
    mayEval rv flow cenv ret e x"
| evFold: "Kind e = ''binary_expression'' \<Longrightarrow> (NonZeroExpr cenv (Text e) \<longrightarrow> x \<noteq> 0) \<Longrightarrow> mayEval rv flow cenv ret e x"
| evBranch: "Kind e = ''conditional_expression'' \<Longrightarrow>
    ChildByFieldName ''consequence'' e = Some c \<or> ChildByFieldName ''alternative'' e = Some c \<Longrightarrow>
    mayEval rv flow cenv ret c x \<Longrightarrow> mayEval rv flow cenv ret e x"
| evBroken: "Kind e = ''conditional_expression'' \<Longrightarrow>
    ChildByFieldName ''consequence'' e = None \<or> ChildByFieldName ''alternative'' e = None \<Longrightarrow> mayEval rv flow cenv ret e x"
| evWrap: "isWrapper e \<Longrightarrow> c \<in> set (operandsOf e) \<Longrightarrow> mayEval rv flow cenv ret c x \<Longrightarrow> mayEval rv flow cenv ret e x"
| evContract: "Kind e = ''call_expression'' \<Longrightarrow> NonZeroReturn (callName e) \<Longrightarrow> x \<noteq> 0 \<Longrightarrow> mayEval rv flow cenv ret e x"
| evCall: "Kind e = ''call_expression'' \<Longrightarrow> \<not> NonZeroReturn (callName e) \<Longrightarrow> i \<in> set (funcIDs rv (callName e)) \<Longrightarrow> ret i x \<Longrightarrow>
    mayEval rv flow cenv ret e x"
| evUnknownCall: "Kind e = ''call_expression'' \<Longrightarrow> \<not> NonZeroReturn (callName e) \<Longrightarrow> funcIDs rv (callName e) = [] \<Longrightarrow>
    mayEval rv flow cenv ret e x"
| evOther: "Kind e \<notin> set evalKinds \<Longrightarrow> mayEval rv flow cenv ret e x"

lemma mayEval_mono [mono]:
  "(\<And>i x. ret i x \<longrightarrow> ret' i x) \<Longrightarrow> mayEval rv flow cenv ret e x \<longrightarrow> mayEval rv flow cenv ret' e x"
proof
  assume r: "\<And>i x. ret i x \<longrightarrow> ret' i x" and "mayEval rv flow cenv ret e x"
  from this(2) show "mayEval rv flow cenv ret' e x"
    by induction (blast intro: mayEval.intros r [rule_format])+
qed

text \<open>
  The values a function may return: the value of the expression of one of its returns, in any finite nesting of calls;
  anything, when its body is not at hand or returns no expression.
\<close>

inductive mayReturn :: "resolver \<Rightarrow> int \<Rightarrow> int \<Rightarrow> bool" for rv where
  retExpr: "map_of (rvFnByID rv) i = Some fn \<Longrightarrow> map_of (rvFileByID rv) (fnFileID fn) = Some file \<Longrightarrow>
    ret \<in> set (FindAll ''return_statement'' (bodyOf file fn)) \<Longrightarrow> returnExpr ret = Some e \<Longrightarrow>
    mayEval rv (flowFor file fn) (constsFor rv (dfRoot file)) (mayReturn rv) e x \<Longrightarrow> mayReturn rv i x"
| retBare: "map_of (rvFnByID rv) i = Some fn \<Longrightarrow> map_of (rvFileByID rv) (fnFileID fn) = Some file \<Longrightarrow>
    ret \<in> set (FindAll ''return_statement'' (bodyOf file fn)) \<Longrightarrow> returnExpr ret = None \<Longrightarrow> mayReturn rv i x"
| retNone: "map_of (rvFnByID rv) i = Some fn \<Longrightarrow> map_of (rvFileByID rv) (fnFileID fn) = Some file \<Longrightarrow>
    FindAll ''return_statement'' (bodyOf file fn) = [] \<Longrightarrow> mayReturn rv i x"
| retUnknown: "map_of (rvFnByID rv) i = None \<or> (\<exists>fn. map_of (rvFnByID rv) i = Some fn \<and>
      (map_of (rvFileByID rv) (fnFileID fn) = None
       \<or> (\<exists>file. map_of (rvFileByID rv) (fnFileID fn) = Some file \<and> Kind (bodyOf file fn) \<noteq> ''compound_statement'')))
    \<Longrightarrow> mayReturn rv i x"


section \<open>Trees as the parser builds them\<close>

function allNodes :: "Node \<Rightarrow> Node list" where
  "allNodes n = n # concat (map allNodes (Children n))"
  by pat_completeness auto
termination
  by (relation "measure size") (auto dest: size_Children)

declare allNodes.simps [simp del]

text \<open>Parentheses and casts have one operand beside comments and types.\<close>

definition tidyNode :: "Node \<Rightarrow> bool" where
  "tidyNode n \<longleftrightarrow> (\<forall>m \<in> set (allNodes n). isWrapper m \<longrightarrow> length (operandsOf m) \<le> 1)"

lemma NamedChildren_sub: "c \<in> set (NamedChildren n) \<Longrightarrow> c \<in> set (Children n)"
  by (simp add: NamedChildren_def)

lemma tidyNode_child: "tidyNode n \<Longrightarrow> c \<in> set (Children n) \<Longrightarrow> tidyNode c"
  by (auto simp: tidyNode_def allNodes.simps [of n])

lemma tidyNode_preorder: "tidyNode n \<Longrightarrow> m \<in> set (preorder n) \<Longrightarrow> tidyNode m"
proof (induction n rule: preorder.induct)
  case (1 n)
  then show ?case using tidyNode_child NamedChildren_sub by (auto simp: preorder.simps [of n])
qed

lemma tidyNode_field: "tidyNode n \<Longrightarrow> ChildByFieldName f n = Some c \<Longrightarrow> tidyNode c"
  by (auto simp: ChildByFieldName_def find_Some_iff intro: tidyNode_child)

lemma tidyNode_wrapper: "tidyNode n \<Longrightarrow> isWrapper n \<Longrightarrow> c \<in> set (operandsOf n) \<Longrightarrow> d \<in> set (operandsOf n) \<Longrightarrow> c = d"
  by (cases "operandsOf n") (auto simp: tidyNode_def allNodes.simps [of n])

lemma tidyNode_FindAll: "tidyNode n \<Longrightarrow> m \<in> set (FindAll k n) \<Longrightarrow> tidyNode m"
  using FindAll_def findAllLoop_preorder [of k "[n]" "[]"] tidyNode_preorder
  by (auto simp: FindAll_def split: if_splits)

section \<open>Expressions over the summaries of the functions they call\<close>

lemmas kind_simps = isWrapper_def evalKinds_def

lemma mayEval_literal:
  assumes "mayEval rv flow cenv ret e x" "Kind e = ''number_literal'' \<or> Kind e = ''unary_expression''"
  shows "case literalInterval (Text e) of None \<Rightarrow> True | Some iv \<Rightarrow> inIv x iv"
  using assms by cases (auto simp: kind_simps)

lemma mayEval_sizeof: "mayEval rv flow cenv ret e x \<Longrightarrow> Kind e = ''sizeof_expression'' \<Longrightarrow> 0 < x"
  by (erule mayEval.cases) (auto simp: kind_simps)

lemma mayEval_name:
  "mayEval rv flow cenv ret e x \<Longrightarrow> Kind e = ''identifier'' \<Longrightarrow>
   if envNonZero cenv (Text e) then x \<noteq> 0 else inIv x (rangeAt flow (Text e) (StartLine e))"
  by (erule mayEval.cases) (auto simp: kind_simps)

lemma mayEval_fold: "mayEval rv flow cenv ret e x \<Longrightarrow> Kind e = ''binary_expression'' \<Longrightarrow> NonZeroExpr cenv (Text e) \<Longrightarrow> x \<noteq> 0"
  by (erule mayEval.cases) (auto simp: kind_simps)

lemma mayEval_branch:
  "mayEval rv flow cenv ret e x \<Longrightarrow> Kind e = ''conditional_expression'' \<Longrightarrow>
   ChildByFieldName ''consequence'' e = Some c \<Longrightarrow> ChildByFieldName ''alternative'' e = Some a \<Longrightarrow>
   mayEval rv flow cenv ret c x \<or> mayEval rv flow cenv ret a x"
  by (erule mayEval.cases) (auto simp: kind_simps)

lemma mayEval_wrap:
  "mayEval rv flow cenv ret e x \<Longrightarrow> isWrapper e \<Longrightarrow> \<exists>c \<in> set (operandsOf e). mayEval rv flow cenv ret c x"
  by (erule mayEval.cases) (auto simp: kind_simps)

lemma mayEval_call:
  "mayEval rv flow cenv ret e x \<Longrightarrow> Kind e = ''call_expression'' \<Longrightarrow>
   if NonZeroReturn (callName e) then x \<noteq> 0
   else funcIDs rv (callName e) = [] \<or> (\<exists>i \<in> set (funcIDs rv (callName e)). ret i x)"
  by (erule mayEval.cases) (auto simp: kind_simps)

locale summary_provider =
  fixes rv :: resolver and summ :: summarizer and inv :: "'v \<Rightarrow> summaryState \<Rightarrow> bool" and ret :: "int \<Rightarrow> int \<Rightarrow> bool"
  assumes summ_ok: "inv V st \<Longrightarrow> \<exists>b st'. summ i st = Some (b, st') \<and> inv V st' \<and> (b \<longrightarrow> \<not> ret i 0)"
begin

lemma allNonZero_ok:
  "inv V st \<Longrightarrow> \<exists>b st'. allNonZero summ ids st = Some (b, st') \<and> inv V st' \<and> (b \<longrightarrow> (\<forall>i \<in> set ids. \<not> ret i 0))"
proof (induction ids arbitrary: st)
  case (Cons i ids)
  obtain b st1 where s: "summ i st = Some (b, st1)" "inv V st1" "b \<longrightarrow> \<not> ret i 0" using summ_ok [OF Cons.prems] by blast
  show ?case
  proof (cases b)
    case True
    with s Cons.IH [OF s(2)] show ?thesis by auto
  next
    case False
    with s show ?thesis by auto
  qed
qed auto

lemma call_ok:
  assumes "inv V st" "Kind e = ''call_expression''"
  shows "\<exists>b st'. nonZeroReturnWith summ rv (callName e) st = Some (b, st') \<and> inv V st'
     \<and> (b \<longrightarrow> \<not> mayEval rv flow cenv ret e 0)"
proof -
  obtain b st' where a: "allNonZero summ (funcIDs rv (callName e)) st = Some (b, st')" "inv V st'"
    "b \<longrightarrow> (\<forall>i \<in> set (funcIDs rv (callName e)). \<not> ret i 0)" using allNonZero_ok [OF assms(1)] by blast
  have nz: "\<not> mayEval rv flow cenv ret e 0"
    if "NonZeroReturn (callName e) \<or> (funcIDs rv (callName e) \<noteq> [] \<and> (\<forall>i \<in> set (funcIDs rv (callName e)). \<not> ret i 0))"
    using that mayEval_call [OF _ assms(2)] by (metis empty_iff list.set(1))
  show ?thesis
  proof (cases "NonZeroReturn (callName e) \<or> funcIDs rv (callName e) = []")
    case True
    then show ?thesis using nz assms(1) by (auto simp: nonZeroReturnWith_def)
  next
    case False
    then show ?thesis using nz a by (auto simp: nonZeroReturnWith_def)
  qed
qed

definition interval_ok :: "rangeFlow option \<Rightarrow> ConstantEnv \<Rightarrow> Node \<Rightarrow> interval option \<Rightarrow> bool" where
  "interval_ok flow cenv e r \<longleftrightarrow> (\<forall>iv. r = Some iv \<longrightarrow> isNonZero iv \<longrightarrow> \<not> mayEval rv flow cenv ret e 0)"

lemma interval_ok_None [simp]: "interval_ok flow cenv e None"
  by (simp add: interval_ok_def)

lemma nonZero_not_in: "isNonZero iv \<Longrightarrow> \<not> inIv 0 iv"
  by (auto simp: isNonZero_def inIv_def)

lemma leaf_ok:
  "Kind e = ''number_literal'' \<or> Kind e = ''unary_expression'' \<Longrightarrow> interval_ok flow cenv e (literalInterval (Text e))"
  "Kind e = ''sizeof_expression'' \<Longrightarrow> interval_ok flow cenv e r"
  "Kind e = ''identifier'' \<Longrightarrow> envNonZero cenv (Text e) \<Longrightarrow> interval_ok flow cenv e r"
  "Kind e = ''identifier'' \<Longrightarrow> \<not> envNonZero cenv (Text e) \<Longrightarrow> interval_ok flow cenv e (Some (rangeAt flow (Text e) (StartLine e)))"
  "Kind e = ''binary_expression'' \<Longrightarrow> NonZeroExpr cenv (Text e) \<Longrightarrow> interval_ok flow cenv e r"
  unfolding interval_ok_def using nonZero_not_in
  by (fastforce dest: mayEval_literal split: option.splits, fastforce dest: mayEval_sizeof, fastforce dest: mayEval_name,
      fastforce dest: mayEval_name, fastforce dest: mayEval_fold)

lemma branch_ok:
  assumes "Kind e = ''conditional_expression''"
    "ChildByFieldName ''consequence'' e = Some c" "ChildByFieldName ''alternative'' e = Some a"
    "interval_ok flow cenv c (Some civ)" "interval_ok flow cenv a (Some aiv)" "isNonZero civ" "isNonZero aiv"
  shows "interval_ok flow cenv e r"
  using assms mayEval_branch [OF _ assms(1-3)] unfolding interval_ok_def by blast

lemma firstInterval_ok:
  assumes "\<And>c s. c \<in> set cs \<Longrightarrow> inv V s \<Longrightarrow> \<exists>r s'. f c s = Some (r, s') \<and> inv V s' \<and> P c r"
  shows "inv V st \<Longrightarrow> \<exists>r st'. firstInterval f cs st = Some (r, st') \<and> inv V st' \<and> (r = None \<or> (\<exists>c \<in> set cs. P c r))"
  using assms
proof (induction cs arbitrary: st)
  case (Cons c cs)
  obtain r s' where r: "f c st = Some (r, s')" "inv V s'" "P c r" using Cons.prems by (meson list.set_intros(1))
  show ?case
  proof (cases r)
    case None
    have "\<exists>r st'. firstInterval f cs s' = Some (r, st') \<and> inv V st' \<and> (r = None \<or> (\<exists>c \<in> set cs. P c r))"
      using Cons.IH [OF r(2)] Cons.prems(2) by simp
    then show ?thesis using r None by auto
  next
    case (Some iv)
    with r show ?thesis by auto
  qed
qed simp

text \<open>An expression is evaluated without fail, and one with a non-zero interval has no zero value.\<close>

lemma exprInterval_ok:
  "tidyNode e \<Longrightarrow> inv V st \<Longrightarrow>
     \<exists>r st'. exprInterval summ rv flow cenv e st = Some (r, st') \<and> inv V st' \<and> interval_ok flow cenv e r
       \<and> (Kind e = ''comment'' \<or> Kind e = ''type_descriptor'' \<longrightarrow> r = None)"
proof (induction e arbitrary: st rule: measure_induct_rule [of size])
  case (less e)
  note i = exprInterval.simps [of summ rv flow cenv e st]
  consider (lit) "Kind e = ''number_literal'' \<or> Kind e = ''unary_expression''" | (size) "Kind e = ''sizeof_expression''"
    | (name) "Kind e = ''identifier''" | (bin) "Kind e = ''binary_expression''" | (cond) "Kind e = ''conditional_expression''"
    | (wrap) "isWrapper e" | (call) "Kind e = ''call_expression''" | (other) "Kind e \<notin> set evalKinds"
    by (auto simp: evalKinds_def isWrapper_def)
  then show ?case
  proof cases
    case lit
    then show ?thesis using i less.prems(2) leaf_ok(1) [OF lit] by (auto simp: isWrapper_def)
  next
    case size
    then show ?thesis using i less.prems(2) leaf_ok(2) by auto
  next
    case name
    then show ?thesis using i less.prems(2) leaf_ok(3,4) by (auto split: option.splits)
  next
    case bin
    then show ?thesis using i less.prems(2) leaf_ok(5) by auto
  next
    case call
    obtain b st' where c: "nonZeroReturnWith summ rv (callName e) st = Some (b, st')" "inv V st'"
      "b \<longrightarrow> \<not> mayEval rv flow cenv ret e 0" using call_ok [OF less.prems(2) call] by blast
    then show ?thesis using i call less.prems(2) by (auto simp: isWrapper_def interval_ok_def)
  next
    case other
    then show ?thesis using i less.prems(2) by (auto simp: isWrapper_def evalKinds_def)
  next
    case wrap
    have each: "\<exists>r s'. exprInterval summ rv flow cenv c s = Some (r, s') \<and> inv V s' \<and> (interval_ok flow cenv c r
        \<and> (Kind c = ''comment'' \<or> Kind c = ''type_descriptor'' \<longrightarrow> r = None))" if "c \<in> set (NamedChildren e)" "inv V s" for c s
      using less.IH [OF size_NamedChildren [OF that(1)] tidyNode_child [OF less.prems(1) NamedChildren_sub [OF that(1)]] that(2)]
      by blast
    from firstInterval_ok [where P = "\<lambda>c r. interval_ok flow cenv c r \<and> (Kind c = ''comment'' \<or> Kind c = ''type_descriptor'' \<longrightarrow> r = None)" and f = "exprInterval summ rv flow cenv" and cs = "NamedChildren e", OF each less.prems(2)]
    obtain r st' where r: "firstInterval (exprInterval summ rv flow cenv) (NamedChildren e) st = Some (r, st')" "inv V st'"
      "r = None \<or> (\<exists>c \<in> set (NamedChildren e). interval_ok flow cenv c r \<and> (Kind c = ''comment'' \<or> Kind c = ''type_descriptor'' \<longrightarrow> r = None))"
      by blast
    have "interval_ok flow cenv e r"
      unfolding interval_ok_def
    proof (intro allI impI notI)
      fix iv assume iv: "r = Some iv" "isNonZero iv" and m: "mayEval rv flow cenv ret e 0"
      then obtain c where c: "c \<in> set (operandsOf e)" "interval_ok flow cenv c r" using r(3) by (auto simp: operandsOf_def)
      from m wrap obtain d where d: "d \<in> set (operandsOf e)" "mayEval rv flow cenv ret d 0"
        using mayEval_wrap by blast
      have "c = d" by (rule tidyNode_wrapper [OF less.prems(1) wrap c(1) d(1)])
      with c(2) d(2) iv show False by (simp add: interval_ok_def)
    qed
    then show ?thesis using i wrap r(1,2) by (auto simp: isWrapper_def)
  next
    case cond
    show ?thesis
    proof (cases "ChildByFieldName ''consequence'' e = None \<or> ChildByFieldName ''alternative'' e = None")
      case True
      then show ?thesis using i cond less.prems(2) by (auto simp: isWrapper_def split: option.splits)
    next
      case False
      then obtain c a where ca: "ChildByFieldName ''consequence'' e = Some c" "ChildByFieldName ''alternative'' e = Some a" by auto
      obtain civ st1 where c: "exprInterval summ rv flow cenv c st = Some (civ, st1)" "inv V st1" "interval_ok flow cenv c civ"
        using less.IH [OF size_ChildByFieldName [OF ca(1)] tidyNode_field [OF less.prems(1) ca(1)] less.prems(2)] by blast
      obtain aiv st2 where a: "exprInterval summ rv flow cenv a st1 = Some (aiv, st2)" "inv V st2" "interval_ok flow cenv a aiv"
        using less.IH [OF size_ChildByFieldName [OF ca(2)] tidyNode_field [OF less.prems(1) ca(2)] c(2)] by blast
      let ?r = "case (civ, aiv) of (Some c, Some a) \<Rightarrow> if isNonZero c \<and> isNonZero a then Some positiveInterval else None | _ \<Rightarrow> None"
      have "exprInterval summ rv flow cenv e st = Some (?r, st2)" using i cond ca c(1) a(1) by simp
      moreover have "interval_ok flow cenv e ?r"
        using branch_ok [OF cond ca] c(3) a(3) by (auto split: option.splits)
      ultimately show ?thesis using a(2) cond by auto
    qed
  qed
qed

lemma returnsNonZero_ok:
  "\<forall>r \<in> set rets. tidyNode r \<Longrightarrow> inv V st \<Longrightarrow>
     \<exists>b st'. returnsNonZero summ rv flow cenv rets st = Some (b, st') \<and> inv V st'
       \<and> (b \<longrightarrow> (\<forall>r \<in> set rets. \<exists>e. returnExpr r = Some e \<and> \<not> mayEval rv flow cenv ret e 0))"
proof (induction rets arbitrary: st)
  case (Cons r rets)
  show ?case
  proof (cases "returnExpr r")
    case None
    with Cons.prems show ?thesis by auto
  next
    case (Some e)
    then have "e \<in> set (NamedChildren r)" by (auto simp: returnExpr_def split: list.splits)
    then have t: "tidyNode e" using Cons.prems(1) tidyNode_child NamedChildren_sub by fastforce
    obtain iv st1 where e: "exprInterval summ rv flow cenv e st = Some (iv, st1)" "inv V st1" "interval_ok flow cenv e iv"
      using exprInterval_ok [OF t Cons.prems(2)] by blast
    show ?thesis
    proof (cases "\<exists>i. iv = Some i \<and> isNonZero i")
      case True
      then obtain i where i: "iv = Some i" "isNonZero i" by blast
      then have n: "\<not> mayEval rv flow cenv ret e 0" using e(3) by (simp add: interval_ok_def)
      have "\<forall>r \<in> set rets. tidyNode r" using Cons.prems(1) by simp
      from Cons.IH [OF this e(2)] show ?thesis using Some e(1) i n by auto
    next
      case False
      then show ?thesis using Some e by (cases iv) auto
    qed
  qed
qed auto

end

section \<open>Functions\<close>

definition tidyProgram :: "resolver \<Rightarrow> bool" where
  "tidyProgram rv \<longleftrightarrow> (\<forall>(i, file) \<in> set (rvFileByID rv). tidyNode (dfRoot file))"

lemma tidyNode_Null: "tidyNode NullNode"
  by (simp add: tidyNode_def allNodes.simps [of NullNode] Children_def isWrapper_def Kind_def)

lemma tidyNode_FindFirst: "tidyNode n \<Longrightarrow> FindFirst k n = Some m \<Longrightarrow> tidyNode m"
  using tidyNode_preorder by (auto simp: FindFirst_def findFirstLoop_preorder find_Some_iff split: if_splits)

lemma functionBodies_tidy:
  assumes "tidyNode root" "map_of (functionBodies root) l = Some b"
  shows "tidyNode b"
proof -
  have "\<forall>l b. map_of (functionBodies root) l = Some b \<longrightarrow> tidyNode b"
    unfolding functionBodies_def
  proof (rule fold_keeps_set [where P = "\<lambda>m. \<forall>l b. map_of m l = Some b \<longrightarrow> tidyNode b"])
    fix d and m :: "(int \<times> Node) list" assume d: "d \<in> set (FindAll ''function_definition'' root)" and m: "\<forall>l b. map_of m l = Some b \<longrightarrow> tidyNode b"
    have t: "FindFirst ''compound_statement'' d = Some b \<Longrightarrow> tidyNode b" for b
      using tidyNode_FindFirst [OF tidyNode_FindAll [OF assms(1) d]] by blast
    show "\<forall>l b. map_of (case FindFirst ''compound_statement'' d of None \<Rightarrow> m | Some b \<Rightarrow> AList.update (StartLine d) b m) l = Some b
        \<longrightarrow> tidyNode b"
      using t m by (cases "FindFirst ''compound_statement'' d") (simp_all add: update_conv)
  qed simp
  with assms(2) show ?thesis by blast
qed

lemma bodyOf_tidy: "tidyNode (dfRoot file) \<Longrightarrow> tidyNode (bodyOf file fn)"
  using functionBodies_tidy tidyNode_Null by (auto simp: bodyOf_def nodeOr_def split: option.splits)

lemma tidyProgram_file: "tidyProgram rv \<Longrightarrow> map_of (rvFileByID rv) j = Some file \<Longrightarrow> tidyNode (dfRoot file)"
  unfolding tidyProgram_def by (auto dest: map_of_SomeD)

definition memoSound :: "resolver \<Rightarrow> summaryState \<Rightarrow> bool" where
  "memoSound rv st \<longleftrightarrow> (\<forall>i. map_of (rvMemo st) i = Some True \<longrightarrow> \<not> mayReturn rv i 0)"

definition knownFunctions :: "resolver \<Rightarrow> int set" where
  "knownFunctions rv = fst ` set (rvFnByID rv)"

definition summaryInv :: "nat \<Rightarrow> resolver \<Rightarrow> int set \<Rightarrow> summaryState \<Rightarrow> bool" where
  "summaryInv k rv V st \<longleftrightarrow> set (rvVisiting st) = V \<and> card (knownFunctions rv - V) < k \<and> memoSound rv st"

lemma memoSound_set: "memoSound rv st \<Longrightarrow> (b \<longrightarrow> \<not> mayReturn rv i 0) \<Longrightarrow> memoSound rv (setMemo i b st)"
  by (auto simp: memoSound_def setMemo_def update_conv split: if_splits)

lemma memoSound_visiting [simp]: "memoSound rv (st\<lparr>rvVisiting := xs\<rparr>) \<longleftrightarrow> memoSound rv st"
  by (simp add: memoSound_def)

lemma setMemo_visiting [simp]: "rvVisiting (setMemo i b st) = rvVisiting st"
  by (simp add: setMemo_def)

lemma mayReturn_body:
  assumes "map_of (rvFnByID rv) i = Some fn" "map_of (rvFileByID rv) (fnFileID fn) = Some file"
    "Kind (bodyOf file fn) = ''compound_statement''" "FindAll ''return_statement'' (bodyOf file fn) \<noteq> []"
    "\<forall>r \<in> set (FindAll ''return_statement'' (bodyOf file fn)). \<exists>e. returnExpr r = Some e
       \<and> \<not> mayEval rv (flowFor file fn) (constsFor rv (dfRoot file)) (mayReturn rv) e x"
  shows "\<not> mayReturn rv i x"
proof
  assume "mayReturn rv i x"
  then show False using assms by cases auto
qed

lemma summarizeFunction_ok:
  assumes ih: "summary_provider (funcNonZero k rv) (summaryInv k rv) (mayReturn rv)" and tidy: "tidyProgram rv"
    and st: "set (rvVisiting st) = V" "memoSound rv st" "i \<in> knownFunctions rv \<Longrightarrow> card (knownFunctions rv - V) < k"
  shows "\<exists>b st'. summarizeFunction (funcNonZero k rv) rv i st = Some (b, st') \<and> set (rvVisiting st') = V
     \<and> memoSound rv st' \<and> (b \<longrightarrow> \<not> mayReturn rv i 0)"
proof (cases "\<exists>fn file. map_of (rvFnByID rv) i = Some fn \<and> map_of (rvFileByID rv) (fnFileID fn) = Some file
     \<and> Kind (bodyOf file fn) = ''compound_statement'' \<and> FindAll ''return_statement'' (bodyOf file fn) \<noteq> []")
  case False
  then have "summarizeFunction (funcNonZero k rv) rv i st = Some (False, setMemo i False st)"
    by (auto simp: summarizeFunction_def Let_def split: option.splits)
  then show ?thesis using st(1,2) memoSound_set [OF st(2)] by auto
next
  case True
  then obtain fn fl where f: "map_of (rvFnByID rv) i = Some fn" "map_of (rvFileByID rv) (fnFileID fn) = Some fl"
    "Kind (bodyOf fl fn) = ''compound_statement''" "FindAll ''return_statement'' (bodyOf fl fn) \<noteq> []" by blast
  let ?rets = "FindAll ''return_statement'' (bodyOf fl fn)"
  have "i \<in> knownFunctions rv" using f(1) unfolding knownFunctions_def by (metis map_of_key)
  then have inv: "summaryInv k rv V st" using st by (simp add: summaryInv_def)
  have "\<forall>r \<in> set ?rets. tidyNode r"
    using tidyNode_FindAll bodyOf_tidy tidyProgram_file [OF tidy f(2)] by blast
  from summary_provider.returnsNonZero_ok [OF ih this inv]
  obtain b st' where r: "returnsNonZero (funcNonZero k rv) rv (flowFor fl fn) (constsFor rv (dfRoot fl)) ?rets st = Some (b, st')"
    "summaryInv k rv V st'"
    "b \<longrightarrow> (\<forall>r \<in> set ?rets. \<exists>e. returnExpr r = Some e
       \<and> \<not> mayEval rv (flowFor fl fn) (constsFor rv (dfRoot fl)) (mayReturn rv) e 0)" by blast
  have nz: "b \<longrightarrow> \<not> mayReturn rv i 0" using mayReturn_body [OF f] r(3) by blast
  have "summarizeFunction (funcNonZero k rv) rv i st = Some (b, setMemo i b st')"
    using f r(1) by (simp add: summarizeFunction_def Let_def)
  then show ?thesis using nz memoSound_set [OF _ nz] r(2) by (auto simp: summaryInv_def)
qed

lemma funcNonZero_ok:
  assumes ih: "\<And>j. k = Suc j \<Longrightarrow> summary_provider (funcNonZero j rv) (summaryInv j rv) (mayReturn rv)"
    and tidy: "tidyProgram rv" and st: "summaryInv k rv V st"
  shows "\<exists>b st'. funcNonZero k rv i st = Some (b, st') \<and> summaryInv k rv V st' \<and> (b \<longrightarrow> \<not> mayReturn rv i 0)"
proof (cases "map_of (rvMemo st) i")
  case (Some v)
  then show ?thesis using st by (auto simp: funcNonZero.simps [of k] summaryInv_def memoSound_def)
next
  case None
  show ?thesis
  proof (cases "i \<in> set (rvVisiting st)")
    case True
    then show ?thesis using st None by (auto simp: funcNonZero.simps [of k])
  next
    case False
    obtain j where j: "k = Suc j" using st by (cases k) (auto simp: summaryInv_def)
    let ?st = "st\<lparr>rvVisiting := i # rvVisiting st\<rparr>"
    have V: "set (rvVisiting st) = V" "i \<notin> V" using st False by (auto simp: summaryInv_def)
    have fin: "finite (knownFunctions rv)" by (simp add: knownFunctions_def)
    have less: "card (knownFunctions rv - insert i V) < j" if "i \<in> knownFunctions rv"
    proof -
      have "card (knownFunctions rv - insert i V) < card (knownFunctions rv - V)"
        using that V(2) fin by (intro psubset_card_mono) auto
      with st j show ?thesis by (simp add: summaryInv_def)
    qed
    have sv: "set (rvVisiting ?st) = insert i V" "memoSound rv ?st" using st V by (simp_all add: summaryInv_def)
    obtain b st' where r: "summarizeFunction (funcNonZero j rv) rv i ?st = Some (b, st')" "set (rvVisiting st') = insert i V"
        "memoSound rv st'" "b \<longrightarrow> \<not> mayReturn rv i 0"
      using summarizeFunction_ok [OF ih [OF j] tidy sv less] by blast
    have "funcNonZero k rv i st = Some (b, st'\<lparr>rvVisiting := removeAll i (rvVisiting st')\<rparr>)"
      using None False r(1) unfolding j by (simp add: funcNonZero.simps [of "Suc j"])
    moreover have "summaryInv k rv V (st'\<lparr>rvVisiting := removeAll i (rvVisiting st')\<rparr>)"
      using r(2,3) V(2) st by (auto simp: summaryInv_def)
    ultimately show ?thesis using r(4) by blast
  qed
qed

lemma funcNonZero_provides:
  "tidyProgram rv \<Longrightarrow> summary_provider (funcNonZero k rv) (summaryInv k rv) (mayReturn rv)"
proof (induction k)
  case 0
  show ?case by (rule summary_provider.intro, rule funcNonZero_ok [OF _ 0]) simp_all
next
  case (Suc k)
  show ?case by (rule summary_provider.intro, rule funcNonZero_ok [OF _ Suc.prems]) (use Suc in simp_all)
qed

text \<open>
  The resolver of the model is a provider, at every fuel and for every program whose trees are tidy: the law is
  discharged on funcNonZero itself, with the tidiness kept in the invariant.
\<close>

definition resolverInv :: "nat \<Rightarrow> resolver \<Rightarrow> int set \<Rightarrow> summaryState \<Rightarrow> bool" where
  "resolverInv k rv V st \<longleftrightarrow> tidyProgram rv \<and> summaryInv k rv V st"

interpretation resolved: summary_provider rv "funcNonZero k rv" "resolverInv k rv" "mayReturn rv" for rv k
  by (rule summary_provider.intro)
    (use summary_provider.summ_ok [OF funcNonZero_provides] in \<open>fastforce simp: resolverInv_def\<close>)


section \<open>Queries\<close>

text \<open>A filter asks for one call after the other, with the memo of the earlier answers.\<close>

fun nonZeroQueries :: "resolver \<Rightarrow> string list \<Rightarrow> summaryState \<Rightarrow> (bool list \<times> summaryState) option" where
  "nonZeroQueries rv [] st = Some ([], st)"
| "nonZeroQueries rv (n # ns) st =
     (case nonZeroReturn rv n st of
        None \<Rightarrow> None
      | Some (b, st') \<Rightarrow> map_option (\<lambda>(bs, st''). (b # bs, st'')) (nonZeroQueries rv ns st'))"

definition neverZero :: "resolver \<Rightarrow> string \<Rightarrow> bool" where
  "neverZero rv n \<longleftrightarrow> NonZeroReturn n \<or> (funcIDs rv n \<noteq> [] \<and> (\<forall>i \<in> set (funcIDs rv n). \<not> mayReturn rv i 0))"

lemma nonZeroReturn_ok:
  assumes "resolverInv (summaryFuel rv) rv V st"
  shows "\<exists>b st'. nonZeroReturn rv n st = Some (b, st') \<and> resolverInv (summaryFuel rv) rv V st' \<and> (b \<longrightarrow> neverZero rv n)"
proof -
  obtain b st' where "allNonZero (funcNonZero (summaryFuel rv) rv) (funcIDs rv n) st = Some (b, st')"
    "resolverInv (summaryFuel rv) rv V st'" "b \<longrightarrow> (\<forall>i \<in> set (funcIDs rv n). \<not> mayReturn rv i 0)"
    using resolved.allNonZero_ok [OF assms] by blast
  then show ?thesis using assms by (auto simp: nonZeroReturn_def nonZeroReturnWith_def neverZero_def)
qed

lemma nonZeroQueries_ok:
  "resolverInv (summaryFuel rv) rv V st \<Longrightarrow>
   \<exists>bs st'. nonZeroQueries rv ns st = Some (bs, st') \<and> list_all2 (\<lambda>n b. b \<longrightarrow> neverZero rv n) ns bs"
proof (induction ns arbitrary: st)
  case (Cons n ns)
  obtain b st1 where b: "nonZeroReturn rv n st = Some (b, st1)" "resolverInv (summaryFuel rv) rv V st1" "b \<longrightarrow> neverZero rv n"
    using nonZeroReturn_ok [OF Cons.prems] by blast
  from Cons.IH [OF b(2)] b(1,3) show ?case by auto
qed simp

lemma fresh_resolverInv: "tidyProgram rv \<Longrightarrow> resolverInv (summaryFuel rv) rv {} freshSummary"
proof -
  have "card (fst ` set (rvFnByID rv)) \<le> length (rvFnByID rv)"
    by (metis card_length length_map list.set_map)
  then show "tidyProgram rv \<Longrightarrow> resolverInv (summaryFuel rv) rv {} freshSummary"
    by (simp add: resolverInv_def summaryInv_def freshSummary_def memoSound_def knownFunctions_def summaryFuel_def)
qed


text \<open>The witness: a function that returns 7, and one that calls itself and returns what it returns.\<close>

definition tinyNode :: "string \<Rightarrow> string \<Rightarrow> string \<Rightarrow> int \<Rightarrow> Node list \<Rightarrow> Node" where
  "tinyNode k f t l cs = TSNode k f True False t
     \<lparr>posStartByte = 0, posEndByte = 0, posStartLine = l, posStartColumn = 0, posEndLine = l, posEndColumn = 0\<rparr> cs"

definition tinyFunction :: "int \<Rightarrow> Node \<Rightarrow> Node" where
  "tinyFunction l e = tinyNode ''function_definition'' '''' '''' l
     [tinyNode ''compound_statement'' ''body'' '''' l [tinyNode ''return_statement'' '''' '''' l [e]]]"

definition tinyProgram :: resolver where
  "tinyProgram = newReturnSummaryResolver
     [\<lparr>fnID = 1, fnName = ''seven'', fnFileID = 1, fnStartLine = 1, fnEndLine = 1, fnIsStatic = False\<rparr>,
      \<lparr>fnID = 2, fnName = ''loop'', fnFileID = 1, fnStartLine = 2, fnEndLine = 2, fnIsStatic = False\<rparr>]
     [\<lparr>dfID = 1, dfRoot = tinyNode ''translation_unit'' '''' '''' 0
        [tinyFunction 0 (tinyNode ''number_literal'' '''' ''7'' 0 []),
         tinyFunction 1 (tinyNode ''call_expression'' '''' ''loop()'' 1
           [tinyNode ''identifier'' ''function'' ''loop'' 1 [], tinyNode ''argument_list'' ''arguments'' ''()'' 1 []])]\<rparr>]"

lemma tidyNode_unfold: "tidyNode n \<longleftrightarrow> (isWrapper n \<longrightarrow> length (operandsOf n) \<le> 1) \<and> (\<forall>c \<in> set (Children n). tidyNode c)"
  unfolding tidyNode_def by (subst allNodes.simps) auto

lemma tidyNode_tiny: "tidyNode (tinyNode k f t l cs) \<longleftrightarrow>
   (isWrapper (tinyNode k f t l cs) \<longrightarrow> length (operandsOf (tinyNode k f t l cs)) \<le> 1) \<and> (\<forall>c \<in> set cs. tidyNode c)"
  by (subst tidyNode_unfold) (simp add: tinyNode_def Children_def)

lemma tinyProgram_tidy: "tidyProgram tinyProgram"
  by (simp add: tinyProgram_def newReturnSummaryResolver_def tidyProgram_def listFilesByID_def tidyNode_tiny
      tinyFunction_def isWrapper_def) (simp add: tinyNode_def Kind_def)


end
