(* ===== verification/Call_Sites.thy ===== *)
theory Call_Sites
  imports Planner_Program
begin

text \<open>
  The call sites of internal/planner/call_sites.go: the argument texts of every direct call of the program
  by the name of the called function, and what they say of a parameter of that function.  A file that the
  resolver can not read or parse has the null root and so no calls; a failing list of files is None.
\<close>

section \<open>The resolver\<close>

record callSite =
  csFileID :: int
  csArgs :: "string list"

type_synonym callSiteResolver = "(string \<times> callSite list) list"

definition sitesOf :: "callSiteResolver \<Rightarrow> string \<Rightarrow> callSite list" where
  "sitesOf r name = (case map_of r name of None \<Rightarrow> [] | Some ss \<Rightarrow> ss)"

definition addSite :: "int \<Rightarrow> Node \<Rightarrow> callSiteResolver \<Rightarrow> callSiteResolver" where
  "addSite fid call r =
     (if callName call = '''' then r
      else AList.update (callName call) (sitesOf r (callName call) @ [\<lparr>csFileID = fid, csArgs = map Text (callArgs call)\<rparr>]) r)"

definition newCallSiteResolver :: "dbFile list option \<Rightarrow> callSiteResolver" where
  "newCallSiteResolver files =
     (case files of
        None \<Rightarrow> []
      | Some fs \<Rightarrow> fold (\<lambda>f r. fold (addSite (dfID f)) (FindAll ''call_expression'' (dfRoot f)) r) fs [])"


section \<open>Verdicts\<close>

definition siteStep :: "int \<Rightarrow> nat \<Rightarrow> bool \<Rightarrow> callSite \<Rightarrow> bool \<times> bool \<Rightarrow> bool \<times> bool" where
  "siteStep fid index static site = (\<lambda>(zeroReachable, allNonZero).
     if static \<and> csFileID site \<noteq> fid then (zeroReachable, allNonZero)
     else if length (csArgs site) \<le> index then (zeroReachable, False)
     else let arg = TrimSpace (csArgs site ! index) in
       (zeroReachable \<or> IsZeroConstantValue arg, allNonZero \<and> NonZeroConstantValue arg))"

definition paramVerdict :: "callSiteResolver \<Rightarrow> string \<Rightarrow> int \<Rightarrow> nat \<Rightarrow> bool \<Rightarrow> bool \<times> bool" where
  "paramVerdict r name fid index static =
     (if sitesOf r name = [] then (False, False)
      else fold (siteStep fid index static) (sitesOf r name) (False, True))"

definition summaryStep :: "int \<Rightarrow> nat \<Rightarrow> bool \<Rightarrow> callSite \<Rightarrow> int \<times> int \<Rightarrow> int \<times> int" where
  "summaryStep fid index static site = (\<lambda>(sites, nonZero).
     if static \<and> csFileID site \<noteq> fid then (sites, nonZero)
     else (sites + 1,
           if index < length (csArgs site) \<and> NonZeroConstantValue (TrimSpace (csArgs site ! index)) then nonZero + 1 else nonZero))"

definition paramSummary :: "callSiteResolver \<Rightarrow> string \<Rightarrow> int \<Rightarrow> nat \<Rightarrow> bool \<Rightarrow> int \<times> int" where
  "paramSummary r name fid index static = fold (summaryStep fid index static) (sitesOf r name) (0, 0)"


section \<open>What the resolver holds\<close>

text \<open>The direct calls of a program: the file, the name and the argument texts of each.\<close>

definition programCalls :: "dbFile list \<Rightarrow> (string \<times> callSite) list" where
  "programCalls fs = concat (map (\<lambda>f. map (\<lambda>c. (callName c, \<lparr>csFileID = dfID f, csArgs = map Text (callArgs c)\<rparr>))
     (FindAll ''call_expression'' (dfRoot f))) fs)"

lemma sitesOf_addSite:
  "name \<noteq> '''' \<Longrightarrow> sitesOf (addSite fid c r) name
     = sitesOf r name @ (if callName c = name then [\<lparr>csFileID = fid, csArgs = map Text (callArgs c)\<rparr>] else [])"
  by (auto simp: addSite_def sitesOf_def update_conv)

lemma sitesOf_addSites:
  "name \<noteq> '''' \<Longrightarrow> sitesOf (fold (addSite fid) cs r) name
     = sitesOf r name @ map (\<lambda>c. \<lparr>csFileID = fid, csArgs = map Text (callArgs c)\<rparr>) (filter (\<lambda>c. callName c = name) cs)"
  by (induction cs arbitrary: r) (simp_all add: sitesOf_addSite)

lemma sitesOf_resolver:
  assumes "name \<noteq> ''''"
  shows "sitesOf (newCallSiteResolver (Some fs)) name = map snd (filter (\<lambda>(n, s). n = name) (programCalls fs))"
proof -
  have "sitesOf (fold (\<lambda>f r. fold (addSite (dfID f)) (FindAll ''call_expression'' (dfRoot f)) r) fs r) name
      = sitesOf r name @ map snd (filter (\<lambda>(n, s). n = name) (programCalls fs))" for r
    using assms by (induction fs arbitrary: r)
      (simp_all add: sitesOf_addSites programCalls_def filter_map o_def)
  from this [of "[]"] show ?thesis by (simp add: newCallSiteResolver_def sitesOf_def)
qed

text \<open>The sites that count for a function: all of them, or those of its own file when it is static.\<close>

definition relevant :: "int \<Rightarrow> bool \<Rightarrow> callSite \<Rightarrow> bool" where
  "relevant fid static s \<longleftrightarrow> \<not> static \<or> csFileID s = fid"

definition argAt :: "nat \<Rightarrow> callSite \<Rightarrow> string option" where
  "argAt index s = (if index < length (csArgs s) then Some (TrimSpace (csArgs s ! index)) else None)"

lemma fold_siteStep:
  "fold (siteStep fid index static) ss (z, a)
     = (z \<or> (\<exists>s \<in> set ss. relevant fid static s \<and> (\<exists>t. argAt index s = Some t \<and> IsZeroConstantValue t)),
        a \<and> (\<forall>s \<in> set ss. relevant fid static s \<longrightarrow> (\<exists>t. argAt index s = Some t \<and> NonZeroConstantValue t)))"
  by (induction ss arbitrary: z a) (auto simp: siteStep_def relevant_def argAt_def Let_def)

lemma fold_summaryStep:
  "fold (summaryStep fid index static) ss (n, m)
     = (n + int (length (filter (relevant fid static) ss)),
        m + int (length (filter (\<lambda>s. relevant fid static s \<and> (\<exists>t. argAt index s = Some t \<and> NonZeroConstantValue t)) ss)))"
  by (induction ss arbitrary: n m) (auto simp: summaryStep_def relevant_def argAt_def)

lemma paramVerdict_cases:
  "paramVerdict r name fid index static
     = (\<exists>s \<in> set (sitesOf r name). relevant fid static s \<and> (\<exists>t. argAt index s = Some t \<and> IsZeroConstantValue t),
        sitesOf r name \<noteq> [] \<and>
        (\<forall>s \<in> set (sitesOf r name). relevant fid static s \<longrightarrow> (\<exists>t. argAt index s = Some t \<and> NonZeroConstantValue t)))"
  by (simp add: paramVerdict_def fold_siteStep)

lemma paramSummary_counts:
  "paramSummary r name fid index static
     = (int (length (filter (relevant fid static) (sitesOf r name))),
        int (length (filter (\<lambda>s. relevant fid static s \<and> (\<exists>t. argAt index s = Some t \<and> NonZeroConstantValue t)) (sitesOf r name))))"
  by (simp add: paramSummary_def fold_summaryStep)

text \<open>
  A static function that only its namesakes in other files are called: no site counts for it, and it is
  reported as called with non-zero arguments everywhere.
\<close>

lemma static_vacuous:
  "sitesOf r name \<noteq> [] \<Longrightarrow> \<forall>s \<in> set (sitesOf r name). csFileID s \<noteq> fid \<Longrightarrow>
     paramVerdict r name fid index True = (False, True) \<and> paramSummary r name fid index True = (0, 0)"
  by (simp add: paramVerdict_cases paramSummary_counts relevant_def)

lemma length_filter_conj_le: "length (filter (\<lambda>x. P x \<and> Q x) xs) \<le> length (filter P xs)"
  by (induction xs) auto

lemma length_filter_conj_eq: "length (filter (\<lambda>x. P x \<and> Q x) xs) = length (filter P xs) \<longleftrightarrow> (\<forall>x \<in> set xs. P x \<longrightarrow> Q x)"
proof (induction xs)
  case (Cons x xs)
  show ?case using Cons length_filter_conj_le [of P Q xs] by (cases "P x"; cases "Q x") auto
qed simp

text \<open>The verdict on a parameter is a statement about the calls of the program.  Some call passes a literal
  zero exactly when zeroReachable is set; allNonZero is set exactly when the name is called at all and
  every call that counts passes a constant the folder calls non-zero, a missing argument counting
  against it; and the two counters of the summary agree with it.\<close>

theorem paramVerdict_exact:
  assumes "name \<noteq> ''''"
    and "(zero, nonzero) = paramVerdict (newCallSiteResolver (Some fs)) name fid index static"
    and "(sites, good) = paramSummary (newCallSiteResolver (Some fs)) name fid index static"
  shows "(zero \<longleftrightarrow> (\<exists>s. (name, s) \<in> set (programCalls fs) \<and> relevant fid static s
                     \<and> (\<exists>t. argAt index s = Some t \<and> IsZeroConstantValue t)))
    \<and> (nonzero \<longleftrightarrow> (\<exists>s. (name, s) \<in> set (programCalls fs)) \<and>
           (\<forall>s. (name, s) \<in> set (programCalls fs) \<longrightarrow> relevant fid static s \<longrightarrow>
              (\<exists>t. argAt index s = Some t \<and> NonZeroConstantValue t)))
    \<and> 0 \<le> good \<and> good \<le> sites
    \<and> (nonzero \<longleftrightarrow> good = sites \<and> (\<exists>s. (name, s) \<in> set (programCalls fs)))"
proof -
  let ?ss = "sitesOf (newCallSiteResolver (Some fs)) name"
  have mem: "s \<in> set ?ss \<longleftrightarrow> (name, s) \<in> set (programCalls fs)" for s
    by (force simp: sitesOf_resolver [OF assms(1)])
  have ne: "?ss \<noteq> [] \<longleftrightarrow> (\<exists>s. (name, s) \<in> set (programCalls fs))" using mem by (cases ?ss) auto
  have z: "zero \<longleftrightarrow> (\<exists>s. (name, s) \<in> set (programCalls fs) \<and> relevant fid static s
                     \<and> (\<exists>t. argAt index s = Some t \<and> IsZeroConstantValue t))"
    using assms(2) mem by (auto simp: paramVerdict_cases)
  have nz: "nonzero \<longleftrightarrow> (\<exists>s. (name, s) \<in> set (programCalls fs)) \<and>
           (\<forall>s. (name, s) \<in> set (programCalls fs) \<longrightarrow> relevant fid static s \<longrightarrow>
              (\<exists>t. argAt index s = Some t \<and> NonZeroConstantValue t))"
    using assms(2) mem ne by (auto simp: paramVerdict_cases)
  have g: "0 \<le> good \<and> good \<le> sites"
    using assms(3) by (simp add: paramSummary_counts length_filter_conj_le)
  have "nonzero \<longleftrightarrow> good = sites \<and> (\<exists>s. (name, s) \<in> set (programCalls fs))"
    using assms(3) nz mem by (simp add: paramSummary_counts length_filter_conj_eq) blast
  with z nz g show ?thesis by blast
qed

text \<open>The witness: one call f(0) and one call f(3, x) in a file.\<close>

definition flatNode :: "string \<Rightarrow> string \<Rightarrow> Node list \<Rightarrow> Node" where
  "flatNode k t cs = TSNode k '''' True False t
     \<lparr>posStartByte = 0, posEndByte = 0, posStartLine = 0, posStartColumn = 0, posEndLine = 0, posEndColumn = 0\<rparr> cs"

definition callNode :: "string list \<Rightarrow> Node" where
  "callNode args = flatNode ''call_expression'' ''''
     [flatNode ''identifier'' ''f'' [], flatNode ''argument_list'' '''' (map (\<lambda>a. flatNode ''identifier'' a []) args)]"

definition callFile :: dbFile where
  "callFile = \<lparr>dfID = 7, dfRoot = flatNode ''translation_unit'' '''' [callNode [''0''], callNode [''3'', ''x'']]\<rparr>"

lemma callFile_verdict:
  "paramVerdict (newCallSiteResolver (Some [callFile])) ''f'' 7 0 True = (True, False)"
  "paramSummary (newCallSiteResolver (Some [callFile])) ''f'' 7 0 True = (2, 1)"
  by code_simp+

theorem paramVerdict_exact_witness:
  "\<exists>s. (''f'', s) \<in> set (programCalls [callFile]) \<and> (\<exists>t. argAt 0 s = Some t \<and> IsZeroConstantValue t)"
  using paramVerdict_exact [OF _ callFile_verdict(1) [symmetric] callFile_verdict(2) [symmetric]] by auto

end
