(* ===== verification/Global_Invariants.thy ===== *)
theory Global_Invariants
  imports Return_Sound Call_Sites
begin

text \<open>
  The cross-function invariants of internal/planner/global_invariants.go: which file-scope variables and
  field chains are taken to be non-zero, from zero guards and from assignments that are never zero.  A
  Go set of names is a list of names; an unreadable file has the null root.
\<close>

section \<open>Names and conditions\<close>

definition normalizeTarget :: "string \<Rightarrow> string" where
  "normalizeTarget s = filter (\<lambda>c. \<not> isSpace c) s"

definition BinaryOperator :: "Node \<Rightarrow> string" where
  "BinaryOperator n =
     (case find (\<lambda>c. Kind c \<in> set [''*'', ''/'', ''%'', ''+'', ''-'', ''=='', ''!='', ''<'', ''>'', ''<='', ''>='', ''&&'', ''||'',
                                ''&'', ''|'', ''^'', ''<<'', ''>>'']) (Children n) of
        Some c \<Rightarrow> Kind c | None \<Rightarrow> '''')"

text \<open>Below the parentheses; None stands for empty parentheses, where the callers return at once.\<close>

function belowParens :: "Node \<Rightarrow> Node option" where
  "belowParens n =
     (if Kind n \<noteq> ''parenthesized_expression'' then Some n
      else case NamedChildren n of [] \<Rightarrow> None | c # cs \<Rightarrow> belowParens c)"
  by pat_completeness auto
termination by (relation "measure size") (simp_all add: size_NamedChildren)

declare belowParens.simps [simp del]

definition bareOperandVar :: "Node \<Rightarrow> string" where
  "bareOperandVar n =
     (case belowParens n of None \<Rightarrow> '''' | Some m \<Rightarrow> if Kind m = ''identifier'' then Text m else '''')"

definition isZeroLiteralNode :: "Node \<Rightarrow> bool" where
  "isZeroLiteralNode n \<longleftrightarrow> Kind n = ''number_literal'' \<and> ParseInt64 (TrimSpace (Text n)) = Some 0"

definition assignTargetText :: "Node \<Rightarrow> string" where
  "assignTargetText lhs =
     (case belowParens lhs of
        None \<Rightarrow> ''''
      | Some m \<Rightarrow> if Kind m = ''identifier'' \<or> Kind m = ''field_expression'' then normalizeTarget (Text m) else '''')"

definition firstOperand :: "Node list \<Rightarrow> string list" where
  "firstOperand cs = (case filter (\<lambda>nm. nm \<noteq> '''') (map bareOperandVar cs) of [] \<Rightarrow> [] | nm # nms \<Rightarrow> [nm])"

definition zeroGuardedVarAST :: "Node \<Rightarrow> string list" where
  "zeroGuardedVarAST cond =
     (case belowParens cond of
        None \<Rightarrow> []
      | Some c \<Rightarrow>
          if Kind c = ''unary_expression'' \<and> HasPrefix (TrimSpace (Text c)) ''!'' then firstOperand (NamedChildren c)
          else if Kind c = ''binary_expression'' \<and> BinaryOperator c = ''=='' then
            firstOperand (filter (\<lambda>k. \<not> isZeroLiteralNode k) (NamedChildren c))
          else if Kind c = ''binary_expression'' \<and> BinaryOperator c = ''*'' then
            filter (\<lambda>nm. nm \<noteq> '''') (map bareOperandVar (NamedChildren c))
          else [])"

function peelSingle :: "Node \<Rightarrow> Node option" where
  "peelSingle n =
     (if Kind n \<noteq> ''parenthesized_expression'' then Some n
      else case NamedChildren n of [c] \<Rightarrow> peelSingle c | _ \<Rightarrow> None)"
  by pat_completeness auto
termination by (relation "measure size") (simp_all add: size_NamedChildren)

declare peelSingle.simps [simp del]

definition orExitGuardedVars :: "Node \<Rightarrow> string list" where
  "orExitGuardedVars cond =
     (case peelSingle cond of
        None \<Rightarrow> []
      | Some c \<Rightarrow>
          if Kind c \<noteq> ''binary_expression'' \<or> BinaryOperator c \<noteq> ''||'' then []
          else case NamedChildren c of [a, b] \<Rightarrow> zeroGuardedVarAST a @ zeroGuardedVarAST b | _ \<Rightarrow> [])"

definition exitsEarly :: "Node \<Rightarrow> bool" where
  "exitsEarly stmt \<longleftrightarrow>
     (\<exists>k \<in> set [''return_statement'', ''continue_statement'', ''break_statement'', ''goto_statement'']. FindFirst k stmt \<noteq> None)"

definition callsNoReturn :: "Node \<Rightarrow> string list \<Rightarrow> bool" where
  "callsNoReturn consequence macros \<longleftrightarrow>
     (\<exists>call \<in> set (FindAll ''call_expression'' consequence). IsNoReturnCall (callName call) \<or> callName call \<in> set macros)"

definition backfillsToNonZero :: "Node \<Rightarrow> string list \<Rightarrow> bool" where
  "backfillsToNonZero consequence guarded \<longleftrightarrow>
     (\<exists>assign \<in> set (FindAll ''assignment_expression'' consequence).
        case NamedChildren assign of
          lhs # rhs # cs \<Rightarrow> bareOperandVar lhs \<in> set guarded \<and> \<not> isZeroLiteralNode rhs
        | _ \<Rightarrow> False)"


section \<open>Declarations\<close>

function declaredName :: "Node \<Rightarrow> string" where
  "declaredName n = (if Kind n = ''identifier'' then Text n else firstName declaredName (NamedChildren n))"
  by pat_completeness auto
termination by (relation "measure size") (simp_all add: size_NamedChildren)

declare declaredName.simps [simp del]

definition functionRanges :: "Node \<Rightarrow> (int \<times> int) list" where
  "functionRanges root = map (\<lambda>fn. (StartLine fn, EndLine fn)) (FindAll ''function_definition'' root)"

definition inFunction :: "(int \<times> int) list \<Rightarrow> int \<Rightarrow> bool" where
  "inFunction ranges line \<longleftrightarrow> (\<exists>(a, b) \<in> set ranges. a \<le> line \<and> line \<le> b)"

definition fileDeclarations :: "Node \<Rightarrow> Node list" where
  "fileDeclarations root = filter (\<lambda>d. \<not> inFunction (functionRanges root) (StartLine d)) (FindAll ''declaration'' root)"

definition globalDeclarators :: "string list" where
  "globalDeclarators = [''init_declarator'', ''identifier'', ''pointer_declarator'', ''array_declarator'',
     ''function_declarator'', ''parenthesized_declarator'']"

definition collectFileGlobals :: "Node \<Rightarrow> string list" where
  "collectFileGlobals root =
     concat (map (\<lambda>decl. filter (\<lambda>nm. nm \<noteq> '''') (map declaredName
       (filter (\<lambda>c. Kind c \<in> set globalDeclarators) (NamedChildren decl)))) (fileDeclarations root))"

definition collectGlobalInitializers :: "Node \<Rightarrow> string list" where
  "collectGlobalInitializers root =
     concat (map (\<lambda>decl. map declaredName
       (filter (\<lambda>i. declaredName i \<noteq> '''' \<and> 2 \<le> length (NamedChildren i) \<and> NonZeroConstantValue (Text (last (NamedChildren i))))
          (FindAll ''init_declarator'' decl))) (fileDeclarations root))"

definition collectLocalNames :: "Node \<Rightarrow> string list" where
  "collectLocalNames body =
     concat (map (\<lambda>k. concat (map (\<lambda>decl. filter (\<lambda>nm. nm \<noteq> '''') (map declaredName (NamedChildren decl))) (FindAll k body)))
       [''declaration'', ''parameter_declaration''])"


section \<open>Macros that do not return\<close>

definition isIdentByte :: "char \<Rightarrow> bool" where
  "isIdentByte c \<longleftrightarrow> c = CHR ''_'' \<or> isLetter c \<or> isDigit c"

definition macroBodyCalls :: "string \<Rightarrow> string \<Rightarrow> bool" where
  "macroBodyCalls body callee \<longleftrightarrow>
     (\<exists>i \<in> set [0..<Suc (length body) - length callee].
        take (length callee) (drop i body) = callee
        \<and> \<not> (0 < i \<and> isIdentByte (body ! (i - 1)))
        \<and> (let rest = dropWhile (\<lambda>c. c = CHR '' '' \<or> c = CHR 0x09) (drop (i + length callee) body) in
             rest \<noteq> [] \<and> hd rest = CHR ''(''))"

definition macroParts :: "Node \<Rightarrow> string \<times> string" where
  "macroParts d = fold (\<lambda>c (name, body).
       if Kind c = ''identifier'' then (if name = '''' then Text c else name, body)
       else if Kind c = ''preproc_arg'' then (name, Text c) else (name, body)) (NamedChildren d) ('''', '''')"

definition macroBodies :: "Node list \<Rightarrow> (string \<times> string) list" where
  "macroBodies roots =
     fold (\<lambda>root bodies. if Kind root = '''' then bodies else
       fold (\<lambda>k bs. fold (\<lambda>d b. case macroParts d of (name, body) \<Rightarrow>
              if name \<noteq> '''' \<and> body \<noteq> '''' then AList.update name body b else b) (FindAll k root) bs)
         [''preproc_function_def'', ''preproc_def''] bodies) roots []"

text \<open>One round over the bodies adds each name that calls a function of the table or a name found before.\<close>

definition callsNever :: "string \<Rightarrow> string list \<Rightarrow> bool" where
  "callsNever body noReturn \<longleftrightarrow>
     (\<exists>callee \<in> set NoReturnCalls. macroBodyCalls body callee) \<or> (\<exists>callee \<in> set noReturn. macroBodyCalls body callee)"

definition macroStep :: "string \<times> string \<Rightarrow> string list \<Rightarrow> string list" where
  "macroStep = (\<lambda>(name, body) nr. if name \<notin> set nr \<and> callsNever body nr then nr @ [name] else nr)"

definition macroRound :: "(string \<times> string) list \<Rightarrow> string list \<Rightarrow> string list" where
  "macroRound bodies noReturn = fold macroStep bodies noReturn"

lemma macroRound_prefix: "\<exists>new. macroRound bodies nr = nr @ new \<and> set new \<subseteq> fst ` set bodies \<and> set new \<inter> set nr = {}"
proof (induction bodies arbitrary: nr)
  case (Cons nb bodies)
  obtain new where n: "macroRound bodies (macroStep nb nr) = macroStep nb nr @ new" "set new \<subseteq> fst ` set bodies"
    "set new \<inter> set (macroStep nb nr) = {}"
    using Cons.IH by blast
  have "macroRound (nb # bodies) nr = macroRound bodies (macroStep nb nr)" by (simp add: macroRound_def)
  with n show ?case by (cases nb) (auto simp: macroStep_def split: if_splits)
qed (simp add: macroRound_def)

function macroClosure :: "(string \<times> string) list \<Rightarrow> string list \<Rightarrow> string list" where
  "macroClosure bodies noReturn =
     (let noReturn' = macroRound bodies noReturn in if noReturn' = noReturn then noReturn else macroClosure bodies noReturn')"
  by pat_completeness auto
termination
proof (relation "measure (\<lambda>(bodies, nr). card (fst ` set bodies - set nr))")
  fix bodies :: "(string \<times> string) list" and nr nr'
  assume nr': "nr' = macroRound bodies nr" "nr' \<noteq> nr"
  then obtain new where new: "nr' = nr @ new" "set new \<subseteq> fst ` set bodies" "set new \<inter> set nr = {}"
    using macroRound_prefix by metis
  with nr'(2) obtain x where "x \<in> set new" by (cases new) auto
  with new have "fst ` set bodies - set nr' \<subset> fst ` set bodies - set nr" by auto
  then show "((bodies, nr'), bodies, nr) \<in> measure (\<lambda>(bodies, nr). card (fst ` set bodies - set nr))"
    by (simp add: psubset_card_mono)
qed simp

declare macroClosure.simps [simp del]

definition collectNoReturnMacros :: "Node list \<Rightarrow> string list" where
  "collectNoReturnMacros roots = macroClosure (macroBodies roots) []"

section \<open>Zero guards\<close>

record globalInvariants =
  nonZeroVars :: "string list"

definition newGlobalInvariants :: globalInvariants where
  "newGlobalInvariants = \<lparr>nonZeroVars = []\<rparr>"

definition markNonZero :: "string \<Rightarrow> globalInvariants \<Rightarrow> globalInvariants" where
  "markNonZero target gi = gi\<lparr>nonZeroVars := List.insert target (nonZeroVars gi)\<rparr>"

definition invNonZero :: "globalInvariants \<Rightarrow> string \<Rightarrow> bool" where
  "invNonZero gi name \<longleftrightarrow> normalizeTarget name \<in> set (nonZeroVars gi)"

definition recordNonZeroAssignsAfter :: "Node \<Rightarrow> int \<Rightarrow> string \<Rightarrow> globalInvariants \<Rightarrow> globalInvariants" where
  "recordNonZeroAssignsAfter body afterLine varName gi =
     fold (\<lambda>assign gi.
        if StartLine assign \<le> afterLine then gi
        else case NamedChildren assign of
               lhs # rhs # cs \<Rightarrow>
                 if bareOperandVar rhs \<noteq> varName \<or> assignTargetText lhs = '''' then gi
                 else markNonZero (assignTargetText lhs) gi
             | _ \<Rightarrow> gi) (FindAll ''assignment_expression'' body) gi"

definition diesOn :: "Node \<Rightarrow> string list \<Rightarrow> bool" where
  "diesOn consequence macros \<longleftrightarrow> exitsEarly consequence \<or> callsNoReturn consequence macros"

definition guardedVars :: "Node \<Rightarrow> Node \<Rightarrow> string list \<Rightarrow> string list" where
  "guardedVars cond consequence macros =
     (if zeroGuardedVarAST cond = [] \<and> diesOn consequence macros then orExitGuardedVars cond else zeroGuardedVarAST cond)"

definition scanGuard :: "Node \<Rightarrow> string list \<Rightarrow> string list \<Rightarrow> string list \<Rightarrow> Node \<Rightarrow> globalInvariants \<Rightarrow> globalInvariants" where
  "scanGuard body globals locals macros ifStmt gi =
     (case (ChildByFieldName ''condition'' ifStmt, ChildByFieldName ''consequence'' ifStmt) of
        (Some cond, Some consequence) \<Rightarrow>
          (let guarded = guardedVars cond consequence macros in
           if guarded = [] then gi
           else if \<not> diesOn consequence macros \<and> \<not> backfillsToNonZero consequence guarded then gi
           else fold (\<lambda>v gi. recordNonZeroAssignsAfter body (EndLine ifStmt) v
                        (if v \<in> set globals \<and> v \<notin> set locals then markNonZero v gi else gi)) guarded gi)
      | _ \<Rightarrow> gi)"

definition scanZeroGuardedAssignments ::
  "Node \<Rightarrow> string list \<Rightarrow> string list \<Rightarrow> string list \<Rightarrow> globalInvariants \<Rightarrow> globalInvariants" where
  "scanZeroGuardedAssignments body globals locals macros gi =
     fold (scanGuard body globals locals macros) (FindAll ''if_statement'' body) gi"

definition scanInvariants :: "Node \<Rightarrow> string list \<Rightarrow> globalInvariants \<Rightarrow> globalInvariants" where
  "scanInvariants root macros gi =
     fold (\<lambda>fn gi. case FindFirst ''compound_statement'' fn of
                      None \<Rightarrow> gi
                    | Some body \<Rightarrow> scanZeroGuardedAssignments body (collectFileGlobals root) (collectLocalNames body) macros gi)
       (FindAll ''function_definition'' root) gi"


section \<open>Assignments that are never zero\<close>

record targetInfo =
  tiHasAssignment :: bool
  tiAllNonZero :: bool

type_synonym scanState = "(string \<times> targetInfo) list \<times> summaryState"

definition isSimpleAssign :: "Node \<Rightarrow> bool" where
  "isSimpleAssign assign \<longleftrightarrow> (\<exists>c \<in> set (Children assign). Kind c = ''='')"

definition isNonZeroSource :: "resolver \<Rightarrow> Node \<Rightarrow> summaryState \<Rightarrow> (bool \<times> summaryState) option" where
  "isNonZeroSource rv rhs st =
     (let text = TrimSpace (Text rhs) in
      if NonZeroConstantValue text then Some (True, st)
      else if (case rvGlobalConsts rv of None \<Rightarrow> False | Some c \<Rightarrow> envNonZero c text \<or> NonZeroExpr c text) then Some (True, st)
      else if rhsCallName rhs = '''' then Some (False, st)
      else nonZeroReturn rv (rhsCallName rhs) st)"

text \<open>The target of an assignment that counts, and whether it is a file-scope variable.\<close>

definition assignTarget :: "string list \<Rightarrow> Node \<Rightarrow> (string \<times> bool) option" where
  "assignTarget globals lhs =
     (if Kind lhs = ''field_expression'' then Some (normalizeTarget (Text lhs), False)
      else if Kind lhs = ''identifier'' \<and> Text lhs \<in> set globals then Some (Text lhs, True)
      else None)"

definition targetEntry :: "string list \<Rightarrow> string \<Rightarrow> bool \<Rightarrow> (string \<times> targetInfo) list \<Rightarrow> targetInfo" where
  "targetEntry inits target isGlobal tis =
     (case map_of tis target of
        Some info \<Rightarrow> info
      | None \<Rightarrow> \<lparr>tiHasAssignment = False, tiAllNonZero = \<not> (isGlobal \<and> target \<notin> set inits)\<rparr>)"

definition scanAssign :: "resolver \<Rightarrow> string list \<Rightarrow> string list \<Rightarrow> Node \<Rightarrow> scanState \<Rightarrow> scanState option" where
  "scanAssign rv globals inits assign = (\<lambda>(tis, st).
     case NamedChildren assign of
       lhs # rhs # cs \<Rightarrow>
         (case assignTarget globals lhs of
            None \<Rightarrow> Some (tis, st)
          | Some (target, isGlobal) \<Rightarrow>
              let info = (targetEntry inits target isGlobal tis)\<lparr>tiHasAssignment := True\<rparr> in
              if \<not> isSimpleAssign assign then Some (AList.update target (info\<lparr>tiAllNonZero := False\<rparr>) tis, st)
              else (case isNonZeroSource rv rhs st of
                      None \<Rightarrow> None
                    | Some (b, st') \<Rightarrow>
                        Some (AList.update target (if b then info else info\<lparr>tiAllNonZero := False\<rparr>) tis, st')))
     | _ \<Rightarrow> Some (tis, st))"

fun foldSome :: "('a \<Rightarrow> 's \<Rightarrow> 's option) \<Rightarrow> 'a list \<Rightarrow> 's \<Rightarrow> 's option" where
  "foldSome f [] s = Some s"
| "foldSome f (x # xs) s = (case f x s of None \<Rightarrow> None | Some s' \<Rightarrow> foldSome f xs s')"

definition scanTargets :: "resolver \<Rightarrow> Node list \<Rightarrow> scanState \<Rightarrow> scanState option" where
  "scanTargets rv roots =
     foldSome (\<lambda>root s. if Kind root = '''' then Some s
                 else foldSome (scanAssign rv (collectFileGlobals root) (collectGlobalInitializers root))
                        (FindAll ''assignment_expression'' root) s) roots"

definition markTargets :: "(string \<times> targetInfo) list \<Rightarrow> globalInvariants \<Rightarrow> globalInvariants" where
  "markTargets tis gi =
     fold (\<lambda>(target, info) gi. if tiHasAssignment info \<and> tiAllNonZero info then markNonZero target gi else gi) tis gi"

definition scanNonZeroSourceAssignments ::
  "resolver option \<Rightarrow> Node list \<Rightarrow> globalInvariants \<times> summaryState \<Rightarrow> (globalInvariants \<times> summaryState) option" where
  "scanNonZeroSourceAssignments resolver roots = (\<lambda>(gi, st).
     case resolver of
       None \<Rightarrow> Some (gi, st)
     | Some rv \<Rightarrow> map_option (\<lambda>(tis, st'). (markTargets tis gi, st')) (scanTargets rv roots ([], st)))"

text \<open>The files are None when the store can not list them or there is no parser.\<close>

definition buildGlobalInvariants ::
  "dbFile list option \<Rightarrow> resolver option \<Rightarrow> summaryState \<Rightarrow> (globalInvariants \<times> summaryState) option" where
  "buildGlobalInvariants files resolver st =
     (case files of
        None \<Rightarrow> Some (newGlobalInvariants, st)
      | Some fs \<Rightarrow>
          (let roots = map dfRoot fs; macros = collectNoReturnMacros roots;
               gi = fold (\<lambda>root gi. if Kind root = '''' then gi else scanInvariants root macros gi) roots newGlobalInvariants in
           scanNonZeroSourceAssignments resolver roots (gi, st)))"

end
