(* ===== verification/Invariant_Facts.thy ===== *)
theory Invariant_Facts
  imports Global_Invariants
begin

text \<open>
  What the cross-function invariants are worth: which macros never return, what an exiting guard proves of
  its variables, and what is known of a target whose assignments are never zero.
\<close>

section \<open>Macros that do not return\<close>

text \<open>A text calls a name that stands alone before an opening parenthesis.\<close>

definition callsInText :: "string \<Rightarrow> string \<Rightarrow> bool" where
  "callsInText body callee \<longleftrightarrow> (\<exists>pre blanks post. body = pre @ callee @ blanks @ CHR ''('' # post
     \<and> set blanks \<subseteq> {CHR '' '', CHR 0x09} \<and> (pre = [] \<or> \<not> isIdentByte (last pre)))"

lemma dropWhile_split: "dropWhile p xs = y # ys \<Longrightarrow> \<exists>zs. xs = zs @ y # ys \<and> (\<forall>z \<in> set zs. p z)"
  by (metis set_takeWhileD takeWhile_dropWhile_id)

lemma dropWhile_blanks: "(\<forall>z \<in> set zs. p z) \<Longrightarrow> \<not> p y \<Longrightarrow> dropWhile p (zs @ y # ys) = y # ys"
  by (induction zs) auto

lemma macroBodyCalls_text: "macroBodyCalls body callee \<longleftrightarrow> callsInText body callee"
proof
  let ?p = "\<lambda>c. c = CHR '' '' \<or> c = CHR 0x09"
  assume "macroBodyCalls body callee"
  then obtain i where mem: "i \<in> set [0..<Suc (length body) - length callee]" and i: "take (length callee) (drop i body) = callee"
      "\<not> (0 < i \<and> isIdentByte (body ! (i - 1)))"
    and rest: "dropWhile ?p (drop (i + length callee) body) \<noteq> []" "hd (dropWhile ?p (drop (i + length callee) body)) = CHR ''(''"
    unfolding macroBodyCalls_def Let_def by blast
  have len: "i + length callee \<le> length body" using mem by auto
  obtain post where "dropWhile ?p (drop (i + length callee) body) = CHR ''('' # post"
    using rest by (cases "dropWhile ?p (drop (i + length callee) body)") auto
  from dropWhile_split [OF this]
  obtain blanks where b: "drop (i + length callee) body = blanks @ CHR ''('' # post" "\<forall>z \<in> set blanks. ?p z"
    by (elim exE conjE)
  have "drop i body = take (length callee) (drop i body) @ drop (length callee) (drop i body)"
    by (rule append_take_drop_id [symmetric])
  also have "\<dots> = callee @ drop (i + length callee) body" unfolding i(1) drop_drop by (simp only: add.commute)
  finally have "body = take i body @ callee @ blanks @ CHR ''('' # post"
    using append_take_drop_id [of i body] b(1) by simp
  moreover have "take i body = [] \<or> \<not> isIdentByte (last (take i body))"
    using i(2) len by (cases i) (auto simp: take_Suc_conv_app_nth)
  ultimately show "callsInText body callee" using b(2) unfolding callsInText_def by blast
next
  assume "callsInText body callee"
  then obtain pre blanks post where t: "body = pre @ callee @ blanks @ CHR ''('' # post"
    "set blanks \<subseteq> {CHR '' '', CHR 0x09}" "pre = [] \<or> \<not> isIdentByte (last pre)" unfolding callsInText_def by blast
  have d: "dropWhile (\<lambda>c. c = CHR '' '' \<or> c = CHR 0x09) (blanks @ CHR ''('' # post) = CHR ''('' # post"
    by (rule dropWhile_blanks) (use t(2) in auto)
  have p: "\<not> (0 < length pre \<and> isIdentByte (body ! (length pre - 1)))"
    using t(3) by (auto simp: t(1) nth_append last_conv_nth)
  have "length pre \<in> set [0..<Suc (length body) - length callee]" using t(1) by simp
  then show "macroBodyCalls body callee"
    unfolding macroBodyCalls_def Let_def by (rule bexI [rotated]) (use d p t(1) in simp)
qed

inductive noReturnMacro :: "(string \<times> string) list \<Rightarrow> string \<Rightarrow> bool" for bodies where
  callsTable: "map_of bodies name = Some body \<Longrightarrow> callee \<in> set NoReturnCalls \<Longrightarrow> callsInText body callee \<Longrightarrow>
    noReturnMacro bodies name"
| callsMacro: "map_of bodies name = Some body \<Longrightarrow> noReturnMacro bodies callee \<Longrightarrow> callsInText body callee \<Longrightarrow>
    noReturnMacro bodies name"

lemma macroRound_sound:
  assumes "distinct (map fst bodies)" "\<forall>n \<in> set nr. noReturnMacro bodies n"
  shows "\<forall>n \<in> set (macroRound bodies nr). noReturnMacro bodies n"
  unfolding macroRound_def
proof (rule fold_keeps_set [where P = "\<lambda>nr. \<forall>n \<in> set nr. noReturnMacro bodies n", OF assms(2)])
  fix nb and nr :: "string list"
  assume "nb \<in> set bodies" and nr: "\<forall>n \<in> set nr. noReturnMacro bodies n"
  moreover obtain name body where nb: "nb = (name, body)" by (cases nb)
  ultimately have m: "map_of bodies name = Some body" using assms(1) by simp
  show "\<forall>n \<in> set (macroStep nb nr). noReturnMacro bodies n"
    using nr m by (auto simp: nb macroStep_def callsNever_def macroBodyCalls_text intro: noReturnMacro.intros)
qed

lemma macroRound_stable:
  assumes "macroRound bodies nr = nr" "(name, body) \<in> set bodies"
    and "callsNever body nr"
  shows "name \<in> set nr"
proof -
  obtain xs ys where split: "bodies = xs @ (name, body) # ys" using assms(2) by (meson split_list)
  obtain n1 where n1: "macroRound xs nr = nr @ n1" using macroRound_prefix by blast
  obtain n2 where n2: "macroRound ys (macroStep (name, body) (nr @ n1)) = macroStep (name, body) (nr @ n1) @ n2"
    using macroRound_prefix by blast
  have "macroRound bodies nr = macroStep (name, body) (nr @ n1) @ n2"
    using n1 n2 by (simp add: macroRound_def split)
  moreover have "callsNever body (nr @ n1)" using assms(3) by (auto simp: callsNever_def)
  ultimately have "name \<in> set (macroRound bodies nr)" by (auto simp: macroStep_def)
  with assms(1) show ?thesis by simp
qed

lemma macroClosure_sound:
  "distinct (map fst bodies) \<Longrightarrow> \<forall>n \<in> set nr. noReturnMacro bodies n \<Longrightarrow> \<forall>n \<in> set (macroClosure bodies nr). noReturnMacro bodies n"
proof (induction bodies nr rule: macroClosure.induct)
  case (1 bodies nr)
  then show ?case using macroRound_sound [OF 1(2,3)] by (subst macroClosure.simps) (auto simp: Let_def)
qed

lemma macroClosure_stable: "macroRound bodies (macroClosure bodies nr) = macroClosure bodies nr"
  by (induction bodies nr rule: macroClosure.induct) (subst (1 2) macroClosure.simps, simp add: Let_def)

lemma macroBodies_distinct: "distinct (map fst (macroBodies roots))"
  unfolding macroBodies_def
  by (rule fold_keeps_set [where P = "\<lambda>m. distinct (map fst m)"])
    (auto intro!: fold_keeps_set [where P = "\<lambda>m. distinct (map fst m)"] simp: distinct_update split: prod.split)

text \<open>C26: the macros that do not return are exactly the least set: those whose text calls one of the standard
  functions, or a macro of the set, as a name of its own before an opening parenthesis.  The rounds over the
  bodies end, and their order does not matter.\<close>

theorem collectNoReturnMacros_least:
  "n \<in> set (collectNoReturnMacros roots) \<longleftrightarrow> noReturnMacro (macroBodies roots) n"
proof
  let ?b = "macroBodies roots"
  show "n \<in> set (collectNoReturnMacros roots) \<Longrightarrow> noReturnMacro ?b n"
    using macroClosure_sound [OF macroBodies_distinct, of "[]"] unfolding collectNoReturnMacros_def by simp
  assume "noReturnMacro ?b n"
  then show "n \<in> set (collectNoReturnMacros roots)"
    unfolding collectNoReturnMacros_def
    by induction
      (rule macroRound_stable [OF macroClosure_stable], erule map_of_SomeD,
       use macroBodyCalls_text in \<open>unfold callsNever_def, blast\<close>)+
qed

section \<open>What an exiting guard proves\<close>

text \<open>The value of a condition over the tests the reader knows; None when it is anything else.\<close>

function condVal :: "(string \<Rightarrow> int) \<Rightarrow> Node \<Rightarrow> int option" where
  "condVal env n =
     (if Kind n = ''parenthesized_expression'' then
        (case NamedChildren n of [c] \<Rightarrow> condVal env c | _ \<Rightarrow> None)
      else if Kind n = ''identifier'' then Some (env (Text n))
      else if Kind n = ''number_literal'' then ParseInt64 (TrimSpace (Text n))
      else if Kind n = ''null'' then Some 0
      else if Kind n = ''unary_expression'' \<and> HasPrefix (TrimSpace (Text n)) ''!'' then
        (case NamedChildren n of [c] \<Rightarrow> map_option (\<lambda>v. if v = 0 then 1 else 0) (condVal env c) | _ \<Rightarrow> None)
      else if Kind n = ''binary_expression'' then
        (case NamedChildren n of
           [a, b] \<Rightarrow>
             (case (condVal env a, condVal env b) of
                (Some v, Some w) \<Rightarrow>
                  if BinaryOperator n = ''=='' then Some (if v = w then 1 else 0)
                  else if BinaryOperator n = ''||'' then Some (if v \<noteq> 0 \<or> w \<noteq> 0 then 1 else 0)
                  else if BinaryOperator n = ''*'' then Some (v * w)
                  else None
              | _ \<Rightarrow> None)
         | _ \<Rightarrow> None)
      else None)"
  by pat_completeness auto
termination
  by (relation "measure (\<lambda>(env, n). size n)") (simp_all, (metis size_NamedChildren list.set_intros)+)

declare condVal.simps [simp del]

text \<open>The tests are comparisons with zero: no product, and one side of an equality is a zero.\<close>

definition zeroOperand :: "Node \<Rightarrow> bool" where
  "zeroOperand k \<longleftrightarrow> isZeroLiteralNode k \<or> Kind k = ''null''"

definition zeroTests :: "Node \<Rightarrow> bool" where
  "zeroTests n \<longleftrightarrow> (\<forall>m \<in> set (preorder n). Kind m = ''binary_expression'' \<longrightarrow>
     BinaryOperator m \<noteq> ''*'' \<and> (BinaryOperator m = ''=='' \<longrightarrow> (\<exists>k \<in> set (NamedChildren m). zeroOperand k)))"

lemma zeroTests_child: "zeroTests n \<Longrightarrow> c \<in> set (NamedChildren n) \<Longrightarrow> zeroTests c"
  unfolding zeroTests_def by (subst (asm) preorder.simps) auto

lemma zeroTests_self: "zeroTests n \<Longrightarrow> Kind n = ''binary_expression'' \<Longrightarrow>
   BinaryOperator n \<noteq> ''*'' \<and> (BinaryOperator n = ''=='' \<longrightarrow> (\<exists>k \<in> set (NamedChildren n). zeroOperand k))"
  unfolding zeroTests_def by (subst (asm) preorder.simps) auto

lemma belowParens_value:
  "condVal env n = Some v \<Longrightarrow> zeroTests n \<Longrightarrow> \<exists>m. belowParens n = Some m \<and> condVal env m = Some v \<and> zeroTests m
     \<and> Kind m \<noteq> ''parenthesized_expression''"
proof (induction n rule: measure_induct_rule [of size])
  case (less n)
  show ?case
  proof (cases "Kind n = ''parenthesized_expression''")
    case True
    with less.prems(1) obtain c where c: "NamedChildren n = [c]" "condVal env c = Some v"
      by (subst (asm) condVal.simps) (auto split: list.splits)
    then have "size c < size n" "zeroTests c" using size_NamedChildren zeroTests_child [OF less.prems(2)] by auto
    from less.IH [OF this(1) c(2) this(2)] show ?thesis using True c(1) by (subst belowParens.simps) auto
  next
    case False
    with less.prems show ?thesis by (subst belowParens.simps) auto
  qed
qed

lemma bareOperandVar_value:
  assumes "condVal env n = Some v" "zeroTests n" "bareOperandVar n \<noteq> ''''"
  shows "env (bareOperandVar n) = v"
proof -
  obtain m where m: "belowParens n = Some m" "condVal env m = Some v" using belowParens_value [OF assms(1,2)] by blast
  then have "Kind m = ''identifier''" "bareOperandVar n = Text m" using assms(3) by (auto simp: bareOperandVar_def split: if_splits)
  with m(2) show ?thesis by (subst (asm) condVal.simps) simp
qed

lemma zeroOperand_value:
  "zeroOperand k \<Longrightarrow> condVal env k = Some v \<Longrightarrow> v = 0"
  by (subst (asm) condVal.simps) (auto simp: zeroOperand_def isZeroLiteralNode_def split: if_splits)

lemma null_no_var: "Kind k = ''null'' \<Longrightarrow> bareOperandVar k = ''''"
  by (simp add: bareOperandVar_def belowParens.simps [of k])

lemma firstOperand_in: "v \<in> set (firstOperand cs) \<Longrightarrow> v \<noteq> '''' \<and> (\<exists>c \<in> set cs. v = bareOperandVar c)"
proof -
  assume "v \<in> set (firstOperand cs)"
  then obtain nms where "filter (\<lambda>nm. nm \<noteq> []) (map bareOperandVar cs) = v # nms"
    by (cases "filter (\<lambda>nm. nm \<noteq> []) (map bareOperandVar cs)") (auto simp: firstOperand_def)
  then have "v \<in> set (filter (\<lambda>nm. nm \<noteq> []) (map bareOperandVar cs))" by simp
  then show ?thesis by auto
qed

lemma zeroGuardedVarAST_sound:
  assumes "condVal env cond = Some 0" "zeroTests cond" "v \<in> set (zeroGuardedVarAST cond)"
  shows "env v \<noteq> 0"
proof -
  obtain m where m: "belowParens cond = Some m" "condVal env m = Some 0" "zeroTests m" "Kind m \<noteq> ''parenthesized_expression''"
    using belowParens_value [OF assms(1,2)] by blast
  consider (neg) "Kind m = ''unary_expression''" "HasPrefix (TrimSpace (Text m)) ''!''" "v \<in> set (firstOperand (NamedChildren m))"
    | (eq) "Kind m = ''binary_expression''" "BinaryOperator m = ''==''"
        "v \<in> set (firstOperand (filter (\<lambda>k. \<not> isZeroLiteralNode k) (NamedChildren m)))"
    using assms(3) m(1) zeroTests_self [OF m(3)] by (auto simp: zeroGuardedVarAST_def split: if_splits)
  then show ?thesis
  proof cases
    case neg
    obtain c w where c: "NamedChildren m = [c]" "condVal env c = Some w" "w \<noteq> 0"
      using m(2) neg(1,2) by (subst (asm) condVal.simps) (auto split: list.splits if_splits)
    then have "zeroTests c" using zeroTests_child [OF m(3)] by simp
    then show ?thesis using firstOperand_in [OF neg(3)] bareOperandVar_value [OF c(2)] c by auto
  next
    case eq
    obtain a b x y where ab: "NamedChildren m = [a, b]" "condVal env a = Some x" "condVal env b = Some y" "x \<noteq> y"
      using m(2) eq(1,2) by (subst (asm) condVal.simps) (auto split: list.splits option.splits if_splits)
    have z: "zeroTests a" "zeroTests b" using zeroTests_child [OF m(3)] ab(1) by auto
    obtain k where k: "k \<in> {a, b}" "\<not> isZeroLiteralNode k" "v = bareOperandVar k" "v \<noteq> ''''"
      using firstOperand_in [OF eq(3)] ab(1) by (auto split: if_splits)
    have "\<not> zeroOperand k" using k null_no_var by (auto simp: zeroOperand_def)
    moreover have "zeroOperand a \<or> zeroOperand b" using zeroTests_self [OF m(3) eq(1)] eq(2) ab(1) by auto
    ultimately show ?thesis using k ab z zeroOperand_value bareOperandVar_value by (metis insertE singletonD)
  qed
qed

lemma peelSingle_value:
  "condVal env n = Some v \<Longrightarrow> zeroTests n \<Longrightarrow> \<exists>m. peelSingle n = Some m \<and> condVal env m = Some v \<and> zeroTests m"
proof (induction n rule: measure_induct_rule [of size])
  case (less n)
  show ?case
  proof (cases "Kind n = ''parenthesized_expression''")
    case True
    with less.prems(1) obtain c where c: "NamedChildren n = [c]" "condVal env c = Some v"
      by (subst (asm) condVal.simps) (auto split: list.splits)
    then have "size c < size n" "zeroTests c" using size_NamedChildren zeroTests_child [OF less.prems(2)] by auto
    from less.IH [OF this(1) c(2) this(2)] show ?thesis using True c(1) by (subst peelSingle.simps) auto
  next
    case False
    with less.prems show ?thesis by (subst peelSingle.simps) auto
  qed
qed

lemma orExitGuardedVars_sound:
  assumes "condVal env cond = Some 0" "zeroTests cond" "v \<in> set (orExitGuardedVars cond)"
  shows "env v \<noteq> 0"
proof -
  obtain m where m: "peelSingle cond = Some m" "condVal env m = Some 0" "zeroTests m" using peelSingle_value [OF assms(1,2)] by blast
  then obtain a b where ab: "NamedChildren m = [a, b]" "Kind m = ''binary_expression''" "BinaryOperator m = ''||''"
      "v \<in> set (zeroGuardedVarAST a) \<or> v \<in> set (zeroGuardedVarAST b)"
    using assms(3) that [OF sym] by (auto simp: orExitGuardedVars_def split: if_splits list.splits)
  then have "condVal env a = Some 0" "condVal env b = Some 0"
    using m(2) by (subst (asm) condVal.simps, auto split: list.splits option.splits if_splits)+
  moreover have "zeroTests a" "zeroTests b" using zeroTests_child [OF m(3)] ab(1) by auto
  ultimately show ?thesis using ab(4) zeroGuardedVarAST_sound by blast
qed


text \<open>The witness: if (a == 0 || !b) return; with a = 3 and b = 2.\<close>

definition opToken :: "string \<Rightarrow> Node" where
  "opToken k = TSNode k '''' False False k
     \<lparr>posStartByte = 0, posEndByte = 0, posStartLine = 0, posStartColumn = 0, posEndLine = 0, posEndColumn = 0\<rparr> []"

definition binNode :: "string \<Rightarrow> Node \<Rightarrow> Node \<Rightarrow> Node" where
  "binNode k a b = flatNode ''binary_expression'' '''' [a, opToken k, b]"

definition varNode :: "string \<Rightarrow> Node" where
  "varNode x = flatNode ''identifier'' x []"

definition guardCond :: Node where
  "guardCond = flatNode ''parenthesized_expression'' ''''
     [binNode ''||'' (binNode ''=='' (varNode ''a'') (flatNode ''number_literal'' ''0'' []))
        (flatNode ''unary_expression'' ''!b'' [opToken ''!'', varNode ''b''])]"

definition guardBody :: Node where
  "guardBody = flatNode ''return_statement'' '''' []"

definition guardEnv :: "string \<Rightarrow> int" where
  "guardEnv x = (if x = ''a'' then 3 else if x = ''b'' then 2 else 0)"


text \<open>
  Without that restriction the scan is wrong: it reads if (x * y) return as a guard on x and y, whose
  survivors have a zero product; it does not read x * y == 0, the form its comment names; and it takes x
  from x == 5.
\<close>

lemma product_guard_inverted:
  "guardedVars (binNode ''*'' (varNode ''x'') (varNode ''y'')) guardBody [] = [''x'', ''y'']
   \<and> condVal (\<lambda>_. 0) (binNode ''*'' (varNode ''x'') (varNode ''y'')) = Some 0"
  by code_simp

lemma product_zero_guard_unread:
  "guardedVars (binNode ''=='' (binNode ''*'' (varNode ''x'') (varNode ''y'')) (flatNode ''number_literal'' ''0'' [])) guardBody [] = []"
  by code_simp

lemma equality_guard_other_value:
  "guardedVars (binNode ''=='' (varNode ''x'') (flatNode ''number_literal'' ''5'' [])) guardBody [] = [''x'']
   \<and> condVal (\<lambda>_. 0) (binNode ''=='' (varNode ''x'') (flatNode ''number_literal'' ''5'' [])) = Some 0"
  by code_simp


section \<open>Targets whose assignments are never zero\<close>

definition neverZeroSource :: "resolver \<Rightarrow> Node \<Rightarrow> bool" where
  "neverZeroSource rv rhs \<longleftrightarrow>
     NonZeroConstantValue (TrimSpace (Text rhs))
     \<or> (\<exists>c. rvGlobalConsts rv = Some c \<and> (envNonZero c (TrimSpace (Text rhs)) \<or> NonZeroExpr c (TrimSpace (Text rhs))))
     \<or> (rhsCallName rhs \<noteq> '''' \<and> neverZero rv (rhsCallName rhs))"

text \<open>The target an assignment writes, and whether the value is never zero.\<close>

definition writeOf :: "resolver \<Rightarrow> string list \<Rightarrow> Node \<Rightarrow> (string \<times> bool) option" where
  "writeOf rv globals assign =
     (case NamedChildren assign of
        lhs # rhs # cs \<Rightarrow>
          map_option (\<lambda>(t, g). (t, isSimpleAssign assign \<and> neverZeroSource rv rhs)) (assignTarget globals lhs)
      | _ \<Rightarrow> None)"

definition fileWrites :: "resolver \<Rightarrow> Node \<Rightarrow> (string \<times> bool) set" where
  "fileWrites rv root = (if Kind root = '''' then {} else
     {w. \<exists>assign \<in> set (FindAll ''assignment_expression'' root). writeOf rv (collectFileGlobals root) assign = Some w})"

definition scanOK :: "resolver \<Rightarrow> (string \<times> bool) set \<Rightarrow> scanState \<Rightarrow> bool" where
  "scanOK rv W s \<longleftrightarrow> resolverInv (summaryFuel rv) rv {} (snd s) \<and> distinct (map fst (fst s))
     \<and> (\<forall>(t, good) \<in> W. \<exists>info. map_of (fst s) t = Some info \<and> (tiAllNonZero info \<longrightarrow> good))
     \<and> (\<forall>t info. map_of (fst s) t = Some info \<longrightarrow> (\<exists>good. (t, good) \<in> W))"

lemma foldSome_grows:
  assumes "\<And>x W s. x \<in> set xs \<Longrightarrow> P W s \<Longrightarrow> \<exists>s'. f x s = Some s' \<and> P (W \<union> F x) s'"
  shows "P W s \<Longrightarrow> \<exists>s'. foldSome f xs s = Some s' \<and> P (W \<union> (\<Union>x \<in> set xs. F x)) s'"
  using assms
proof (induction xs arbitrary: W s)
  case (Cons x xs)
  obtain s1 where s1: "f x s = Some s1" "P (W \<union> F x) s1" using Cons.prems by (meson list.set_intros(1))
  have "\<exists>s'. foldSome f xs s1 = Some s' \<and> P ((W \<union> F x) \<union> (\<Union>x \<in> set xs. F x)) s'"
    by (rule Cons.IH [OF s1(2)]) (use Cons.prems(2) in auto)
  then show ?case using s1(1) by (simp add: Un_assoc)
qed simp

lemma isNonZeroSource_ok:
  assumes "resolverInv (summaryFuel rv) rv {} st"
  shows "\<exists>b st'. isNonZeroSource rv rhs st = Some (b, st') \<and> resolverInv (summaryFuel rv) rv {} st' \<and> (b \<longrightarrow> neverZeroSource rv rhs)"
  using nonZeroReturn_ok [OF assms, of "rhsCallName rhs"] assms
  by (auto simp: isNonZeroSource_def neverZeroSource_def Let_def split: option.splits)

lemma scanOK_update:
  assumes "scanOK rv W (tis, st)" "resolverInv (summaryFuel rv) rv {} st'"
    and "tiAllNonZero info \<longrightarrow> tiAllNonZero (targetEntry inits t g tis) \<and> good"
  shows "scanOK rv (insert (t, good) W) (AList.update t info tis, st')"
proof -
  let ?m = "map_of (AList.update t info tis)"
  have old: "distinct (map fst tis)" "\<And>u good. (u, good) \<in> W \<Longrightarrow> \<exists>i. map_of tis u = Some i \<and> (tiAllNonZero i \<longrightarrow> good)"
    "\<And>u i. map_of tis u = Some i \<Longrightarrow> \<exists>good. (u, good) \<in> W"
    using assms(1) by (auto simp: scanOK_def)
  have "\<exists>i. ?m u = Some i \<and> (tiAllNonZero i \<longrightarrow> good')" if "(u, good') \<in> insert (t, good) W" for u good'
  proof (cases "u = t")
    case True
    have "tiAllNonZero info \<longrightarrow> good'"
    proof (cases "(t, good') \<in> W")
      case mem: True
      then show ?thesis using old(2) [OF mem] assms(3) by (auto simp: targetEntry_def)
    qed (use that True assms(3) in auto)
    then show ?thesis using True by (simp add: update_conv)
  next
    case False
    then show ?thesis using that old(2) by (auto simp: update_conv)
  qed
  moreover have "\<exists>good'. (u, good') \<in> insert (t, good) W" if "?m u = Some i" for u i
    using that old(3) by (cases "u = t") (auto simp: update_conv)
  ultimately show ?thesis using assms(2) distinct_update [OF old(1)] by (auto simp: scanOK_def)
qed

lemma scanAssign_ok:
  assumes "scanOK rv W s"
  shows "\<exists>s'. scanAssign rv globals inits assign s = Some s'
     \<and> scanOK rv (W \<union> {w. writeOf rv globals assign = Some w}) s'"
proof -
  obtain tis st where s: "s = (tis, st)" by (cases s)
  consider (wr) lhs rhs cs t g where "NamedChildren assign = lhs # rhs # cs" "assignTarget globals lhs = Some (t, g)"
    | (none) "writeOf rv globals assign = None" "scanAssign rv globals inits assign s = Some s"
    by (cases "NamedChildren assign" rule: remdups_adj.cases; cases "assignTarget globals (hd (NamedChildren assign))")
      (auto simp: writeOf_def scanAssign_def s)
  then show ?thesis
  proof cases
    case wr
    let ?info = "(targetEntry inits t g tis)\<lparr>tiHasAssignment := True\<rparr>"
    have st: "resolverInv (summaryFuel rv) rv {} st" using assms by (simp add: scanOK_def s)
    obtain b st' where b: "isNonZeroSource rv rhs st = Some (b, st')" "resolverInv (summaryFuel rv) rv {} st'"
      "b \<longrightarrow> neverZeroSource rv rhs" using isNonZeroSource_ok [OF st] by blast
    have w: "{w. writeOf rv globals assign = Some w} = {(t, isSimpleAssign assign \<and> neverZeroSource rv rhs)}"
      by (auto simp: writeOf_def wr)
    show ?thesis
    proof (cases "isSimpleAssign assign")
      case True
      have "scanOK rv (insert (t, isSimpleAssign assign \<and> neverZeroSource rv rhs) W)
         (AList.update t (if b then ?info else ?info\<lparr>tiAllNonZero := False\<rparr>) tis, st')"
        by (rule scanOK_update [OF assms [unfolded s] b(2), of _ inits t g]) (use b True in auto)
      then show ?thesis unfolding w using True b by (simp add: scanAssign_def wr Let_def s)
    next
      case False
      have "scanOK rv (insert (t, isSimpleAssign assign \<and> neverZeroSource rv rhs) W)
         (AList.update t (?info\<lparr>tiAllNonZero := False\<rparr>) tis, st)"
        by (rule scanOK_update [OF assms [unfolded s] st, of _ inits t g]) simp
      then show ?thesis unfolding w using False by (simp add: scanAssign_def wr Let_def s)
    qed
  qed (use assms in auto)
qed

lemma scanTargets_ok:
  assumes "scanOK rv W s"
  shows "\<exists>s'. scanTargets rv roots s = Some s' \<and> scanOK rv (W \<union> (\<Union>root \<in> set roots. fileWrites rv root)) s'"
  unfolding scanTargets_def
proof (rule foldSome_grows [where P = "scanOK rv", OF _ assms])
  fix root W s assume ok: "scanOK rv W s"
  have "\<exists>s'. foldSome (scanAssign rv (collectFileGlobals root) (collectGlobalInitializers root)) (FindAll ''assignment_expression'' root) s = Some s'
     \<and> scanOK rv (W \<union> (\<Union>a \<in> set (FindAll ''assignment_expression'' root). {w. writeOf rv (collectFileGlobals root) a = Some w})) s'"
    by (rule foldSome_grows [where P = "scanOK rv", OF scanAssign_ok ok])
  moreover have "(\<Union>a \<in> set (FindAll ''assignment_expression'' root). {w. writeOf rv (collectFileGlobals root) a = Some w})
     = {w. \<exists>a \<in> set (FindAll ''assignment_expression'' root). writeOf rv (collectFileGlobals root) a = Some w}" by blast
  ultimately show "\<exists>s'. (if Kind root = '''' then Some s
       else foldSome (scanAssign rv (collectFileGlobals root) (collectGlobalInitializers root)) (FindAll ''assignment_expression'' root) s) = Some s'
     \<and> scanOK rv (W \<union> fileWrites rv root) s'"
    using ok by (cases s) (simp add: fileWrites_def)
qed

lemma set_markTargets:
  "set (nonZeroVars (markTargets tis gi)) = set (nonZeroVars gi) \<union> {t. \<exists>info. (t, info) \<in> set tis \<and> tiHasAssignment info \<and> tiAllNonZero info}"
  unfolding markTargets_def by (induction tis arbitrary: gi) (auto simp: markNonZero_def split: prod.splits)


text \<open>The witness: int g = 5; and a function that assigns 3 to it and then decrements it.\<close>

definition declNode :: "int \<Rightarrow> string \<Rightarrow> string option \<Rightarrow> Node" where
  "declNode l x v = tinyNode ''declaration'' '''' '''' l
     [case v of None \<Rightarrow> tinyNode ''identifier'' '''' x l []
      | Some t \<Rightarrow> tinyNode ''init_declarator'' '''' '''' l [tinyNode ''identifier'' '''' x l [], tinyNode ''number_literal'' '''' t l []]]"

definition assignNode :: "int \<Rightarrow> string \<Rightarrow> string \<Rightarrow> Node" where
  "assignNode l x t = tinyNode ''expression_statement'' '''' '''' l [tinyNode ''assignment_expression'' '''' '''' l
     [tinyNode ''identifier'' '''' x l [], opToken ''='', tinyNode ''number_literal'' '''' t l []]]"

definition bodyNode :: "int \<Rightarrow> Node list \<Rightarrow> Node" where
  "bodyNode l cs = tinyNode ''function_definition'' '''' '''' l [tinyNode ''compound_statement'' '''' '''' l cs]"

definition decrementRoot :: Node where
  "decrementRoot = tinyNode ''translation_unit'' '''' '''' 0
     [declNode 0 ''g'' (Some ''5''), bodyNode 1 [assignNode 1 ''g'' ''3'',
        tinyNode ''update_expression'' '''' ''g--'' 1 [tinyNode ''identifier'' '''' ''g'' 1 []]]]"

definition noResolver :: resolver where
  "noResolver = newReturnSummaryResolver [] []"

lemma noResolver_tidy: "tidyProgram noResolver"
  by (simp add: noResolver_def newReturnSummaryResolver_def tidyProgram_def listFilesByID_def)

text \<open>The decrement is not an assignment expression, so that g stays marked, although the comment counts it.\<close>

lemma decrement_unseen:
  "map_option (nonZeroVars \<circ> fst) (scanNonZeroSourceAssignments (Some noResolver) [decrementRoot] (newGlobalInvariants, freshSummary))
     = Some [''g'']"
  by code_simp


text \<open>
  A second file with a variable of that name that starts at zero: its initial value is not asked for, since
  the target is known from the first file.
\<close>

definition initializedRoot :: Node where
  "initializedRoot = tinyNode ''translation_unit'' '''' '''' 0 [declNode 0 ''g'' (Some ''5''), bodyNode 1 [assignNode 1 ''g'' ''3'']]"

definition zeroedRoot :: Node where
  "zeroedRoot = tinyNode ''translation_unit'' '''' '''' 0 [declNode 0 ''g'' None, bodyNode 1 [assignNode 1 ''g'' ''7'']]"

lemma second_file_initial_zero:
  "map_option (nonZeroVars \<circ> fst) (scanNonZeroSourceAssignments (Some noResolver) [initializedRoot, zeroedRoot] (newGlobalInvariants, freshSummary))
     = Some [''g'']
   \<and> map_option (nonZeroVars \<circ> fst) (scanNonZeroSourceAssignments (Some noResolver) [zeroedRoot, initializedRoot] (newGlobalInvariants, freshSummary))
     = Some []"
  by code_simp

end
