(* ===== verification/Return_Exact.thy ===== *)
theory Return_Exact
  imports Return_Sound
begin

text \<open>
  The memo and the cycle guard of the return summaries do not change an answer.  The reference is a summary
  without state: the functions that are non-zero by a finite nesting of calls.  Whenever the resolver is
  asked, and in whatever order, it answers exactly that.
\<close>

section \<open>The reference\<close>

definition pureCall :: "(int \<Rightarrow> bool) \<Rightarrow> resolver \<Rightarrow> string \<Rightarrow> bool" where
  "pureCall nz rv name \<longleftrightarrow> NonZeroReturn name \<or> (funcIDs rv name \<noteq> [] \<and> (\<forall>i \<in> set (funcIDs rv name). nz i))"

fun firstSome :: "(Node \<Rightarrow> interval option) \<Rightarrow> Node list \<Rightarrow> interval option" where
  "firstSome f [] = None"
| "firstSome f (c # cs) = (case f c of Some iv \<Rightarrow> Some iv | None \<Rightarrow> firstSome f cs)"

lemma firstSome_cong [fundef_cong]:
  "xs = ys \<Longrightarrow> (\<And>c. c \<in> set ys \<Longrightarrow> f c = g c) \<Longrightarrow> firstSome f xs = firstSome g ys"
  by (induction ys arbitrary: xs) (auto split: option.split)

function pureExpr :: "(int \<Rightarrow> bool) \<Rightarrow> resolver \<Rightarrow> rangeFlow option \<Rightarrow> ConstantEnv \<Rightarrow> Node \<Rightarrow> interval option" where
  "pureExpr nz rv flow cenv expr =
     (if Kind expr = ''number_literal'' \<or> Kind expr = ''unary_expression'' then literalInterval (Text expr)
      else if Kind expr = ''sizeof_expression'' then Some positiveInterval
      else if Kind expr = ''identifier'' then
        (if envNonZero cenv (Text expr) then Some positiveInterval
         else map_option (\<lambda>fl. rangeAt flow (Text expr) (StartLine expr)) flow)
      else if Kind expr = ''binary_expression'' then (if NonZeroExpr cenv (Text expr) then Some positiveInterval else None)
      else if Kind expr = ''conditional_expression'' then
        (case (ChildByFieldName ''consequence'' expr, ChildByFieldName ''alternative'' expr) of
           (Some cons, Some alt) \<Rightarrow>
             (case (pureExpr nz rv flow cenv cons, pureExpr nz rv flow cenv alt) of
                (Some c, Some a) \<Rightarrow> if isNonZero c \<and> isNonZero a then Some positiveInterval else None
              | _ \<Rightarrow> None)
         | _ \<Rightarrow> None)
      else if isWrapper expr then firstSome (pureExpr nz rv flow cenv) (NamedChildren expr)
      else if Kind expr = ''call_expression'' \<and> callName expr \<noteq> '''' \<and> pureCall nz rv (callName expr) then Some positiveInterval
      else None)"
  by pat_completeness auto
termination
  by (relation "measure (\<lambda>(nz, rv, flow, cenv, expr). size expr)") (simp_all add: size_NamedChildren size_ChildByFieldName)

declare pureExpr.simps [simp del]

definition provenReturn :: "(int \<Rightarrow> bool) \<Rightarrow> resolver \<Rightarrow> rangeFlow option \<Rightarrow> ConstantEnv \<Rightarrow> Node \<Rightarrow> bool" where
  "provenReturn nz rv flow cenv ret \<longleftrightarrow>
     (\<exists>e iv. returnExpr ret = Some e \<and> pureExpr nz rv flow cenv e = Some iv \<and> isNonZero iv)"

definition pureFun :: "(int \<Rightarrow> bool) \<Rightarrow> resolver \<Rightarrow> int \<Rightarrow> bool" where
  "pureFun nz rv i \<longleftrightarrow> (\<exists>fn file. map_of (rvFnByID rv) i = Some fn \<and> map_of (rvFileByID rv) (fnFileID fn) = Some file
     \<and> Kind (bodyOf file fn) = ''compound_statement'' \<and> FindAll ''return_statement'' (bodyOf file fn) \<noteq> []
     \<and> (\<forall>ret \<in> set (FindAll ''return_statement'' (bodyOf file fn)).
          provenReturn nz rv (flowFor file fn) (constsFor rv (dfRoot file)) ret))"

text \<open>Non-zero by a nesting of calls of at most n.\<close>

fun provenIn :: "resolver \<Rightarrow> nat \<Rightarrow> int \<Rightarrow> bool" where
  "provenIn rv 0 i = False"
| "provenIn rv (Suc n) i = pureFun (provenIn rv n) rv i"

definition provenNonZero :: "resolver \<Rightarrow> int \<Rightarrow> bool" where
  "provenNonZero rv i \<longleftrightarrow> (\<exists>n. provenIn rv n i)"


section \<open>What a summary asks for\<close>

function askedIDs :: "resolver \<Rightarrow> Node \<Rightarrow> int set" where
  "askedIDs rv e =
     (if Kind e = ''conditional_expression'' then
        (case (ChildByFieldName ''consequence'' e, ChildByFieldName ''alternative'' e) of
           (Some c, Some a) \<Rightarrow> askedIDs rv c \<union> askedIDs rv a | _ \<Rightarrow> {})
      else if isWrapper e then \<Union>(askedIDs rv ` set (NamedChildren e))
      else if Kind e = ''call_expression'' \<and> \<not> NonZeroReturn (callName e) then set (funcIDs rv (callName e)) else {})"
  by pat_completeness auto
termination
  by (relation "measure (\<lambda>(rv, e). size e)") (simp_all add: size_NamedChildren size_ChildByFieldName)

declare askedIDs.simps [simp del]

definition funAsked :: "resolver \<Rightarrow> int \<Rightarrow> int set" where
  "funAsked rv i = {j. \<exists>fn file ret e. map_of (rvFnByID rv) i = Some fn \<and> map_of (rvFileByID rv) (fnFileID fn) = Some file
     \<and> ret \<in> set (FindAll ''return_statement'' (bodyOf file fn)) \<and> returnExpr ret = Some e \<and> j \<in> askedIDs rv e}"

lemma finite_askedIDs: "finite (askedIDs rv e)"
proof (induction rv e rule: askedIDs.induct)
  case (1 rv e)
  then show ?case by (subst askedIDs.simps) (auto split: option.splits)
qed

lemma finite_funAsked: "finite (funAsked rv i)"
proof (cases "map_of (rvFnByID rv) i")
  case (Some fn)
  show ?thesis
  proof (cases "map_of (rvFileByID rv) (fnFileID fn)")
    case (Some fl)
    have "funAsked rv i \<subseteq> (\<Union>ret \<in> set (FindAll ''return_statement'' (bodyOf fl fn)). \<Union>e \<in> set_option (returnExpr ret). askedIDs rv e)"
      using Some \<open>map_of (rvFnByID rv) i = Some fn\<close> by (auto simp: funAsked_def)
    then show ?thesis by (rule finite_subset) (simp add: finite_askedIDs)
  qed (simp add: funAsked_def Some)
qed (simp add: funAsked_def)

lemma firstSome_eqI: "(\<And>c. c \<in> set cs \<Longrightarrow> f c = g c) \<Longrightarrow> firstSome f cs = firstSome g cs"
  by (rule firstSome_cong) simp_all

text \<open>An expression depends on the asked functions only.\<close>

lemma pureExpr_cong:
  "(\<And>i. i \<in> askedIDs rv e \<Longrightarrow> nz i = nz' i) \<Longrightarrow> pureExpr nz rv flow cenv e = pureExpr nz' rv flow cenv e"
proof (induction e rule: measure_induct_rule [of size])
  case (less e)
  consider (cond) "Kind e = ''conditional_expression''" | (wrap) "isWrapper e" | (call) "Kind e = ''call_expression''"
    | (other) "Kind e \<noteq> ''conditional_expression''" "\<not> isWrapper e" "Kind e \<noteq> ''call_expression''" by blast
  then show ?case
  proof cases
    case cond
    show ?thesis
    proof (cases "ChildByFieldName ''consequence'' e = None \<or> ChildByFieldName ''alternative'' e = None")
      case True
      then show ?thesis using cond by (subst (1 2) pureExpr.simps) (auto split: option.splits)
    next
      case False
      then obtain c a where ca: "ChildByFieldName ''consequence'' e = Some c" "ChildByFieldName ''alternative'' e = Some a" by auto
      have as: "askedIDs rv e = askedIDs rv c \<union> askedIDs rv a" using cond ca by (subst askedIDs.simps) simp
      have "pureExpr nz rv flow cenv c = pureExpr nz' rv flow cenv c"
        by (rule less.IH [OF size_ChildByFieldName [OF ca(1)]]) (use less.prems as in blast)
      moreover have "pureExpr nz rv flow cenv a = pureExpr nz' rv flow cenv a"
        by (rule less.IH [OF size_ChildByFieldName [OF ca(2)]]) (use less.prems as in blast)
      ultimately show ?thesis using cond ca by (subst (1 2) pureExpr.simps) simp
    qed
  next
    case wrap
    then have as: "askedIDs rv e = \<Union>(askedIDs rv ` set (NamedChildren e))" by (subst askedIDs.simps) (auto simp: isWrapper_def)
    have "pureExpr nz rv flow cenv c = pureExpr nz' rv flow cenv c" if "c \<in> set (NamedChildren e)" for c
      by (rule less.IH [OF size_NamedChildren [OF that]]) (use less.prems as that in blast)
    then have "firstSome (pureExpr nz rv flow cenv) (NamedChildren e) = firstSome (pureExpr nz' rv flow cenv) (NamedChildren e)"
      by (rule firstSome_eqI)
    then show ?thesis using wrap by (subst (1 2) pureExpr.simps) (auto simp: isWrapper_def)
  next
    case call
    then have "\<not> NonZeroReturn (callName e) \<Longrightarrow> askedIDs rv e = set (funcIDs rv (callName e))"
      by (subst askedIDs.simps) (simp add: isWrapper_def)
    then have "pureCall nz rv (callName e) = pureCall nz' rv (callName e)" using less.prems by (auto simp: pureCall_def)
    then show ?thesis using call by (subst (1 2) pureExpr.simps) (simp add: isWrapper_def)
  next
    case other
    then show ?thesis by (subst (1 2) pureExpr.simps) simp
  qed
qed

text \<open>A tidy expression that is proven needs every function it asks for.\<close>

lemma firstSome_in: "firstSome f cs = Some iv \<Longrightarrow> \<exists>c \<in> set cs. f c = Some iv"
  by (induction cs) (auto split: option.splits)

lemma asks_nothing: "Kind c = ''comment'' \<or> Kind c = ''type_descriptor'' \<Longrightarrow> askedIDs rv c = {} \<and> pureExpr nz rv flow cenv c = None"
  by (subst askedIDs.simps, subst pureExpr.simps) (auto simp: isWrapper_def)

lemma pureExpr_needs:
  "tidyNode e \<Longrightarrow> pureExpr nz rv flow cenv e = Some iv \<Longrightarrow> isNonZero iv \<Longrightarrow> i \<in> askedIDs rv e \<Longrightarrow> nz i"
proof (induction e arbitrary: iv rule: measure_induct_rule [of size])
  case (less e)
  consider (cond) "Kind e = ''conditional_expression''" | (wrap) "isWrapper e" | (call) "Kind e = ''call_expression''"
    | (other) "Kind e \<noteq> ''conditional_expression''" "\<not> isWrapper e" "Kind e \<noteq> ''call_expression''" by blast
  then show ?case
  proof cases
    case cond
    then obtain c a where ca: "ChildByFieldName ''consequence'' e = Some c" "ChildByFieldName ''alternative'' e = Some a"
      and i: "i \<in> askedIDs rv c \<or> i \<in> askedIDs rv a"
      using less.prems(4) by (subst (asm) askedIDs.simps) (auto split: option.splits)
    obtain civ aiv where v: "pureExpr nz rv flow cenv c = Some civ" "isNonZero civ" "pureExpr nz rv flow cenv a = Some aiv" "isNonZero aiv"
      using less.prems(2) cond ca by (subst (asm) pureExpr.simps) (auto split: option.splits if_splits)
    note sz = size_ChildByFieldName [OF ca(1)] size_ChildByFieldName [OF ca(2)]
    note td = tidyNode_field [OF less.prems(1) ca(1)] tidyNode_field [OF less.prems(1) ca(2)]
    from i show ?thesis using less.IH [OF sz(1) td(1) v(1,2)] less.IH [OF sz(2) td(2) v(3,4)] by blast
  next
    case wrap
    then obtain c where c: "c \<in> set (NamedChildren e)" "i \<in> askedIDs rv c"
      using less.prems(4) by (subst (asm) askedIDs.simps) (auto simp: isWrapper_def split: if_splits)
    have "firstSome (pureExpr nz rv flow cenv) (NamedChildren e) = Some iv"
      using less.prems(2) wrap by (subst (asm) pureExpr.simps) (auto simp: isWrapper_def)
    then obtain d where d: "d \<in> set (NamedChildren e)" "pureExpr nz rv flow cenv d = Some iv" using firstSome_in by blast
    have "c \<in> set (operandsOf e)" "d \<in> set (operandsOf e)" using c d asks_nothing by (auto simp: operandsOf_def)
    then have "c = d" by (rule tidyNode_wrapper [OF less.prems(1) wrap])
    with c d less.IH [OF size_NamedChildren [OF d(1)] tidyNode_child [OF less.prems(1) NamedChildren_sub [OF d(1)]] d(2) less.prems(3)]
    show ?thesis by simp
  next
    case call
    then have "pureCall nz rv (callName e)" using less.prems(2) by (subst (asm) pureExpr.simps) (auto simp: isWrapper_def split: if_splits)
    then show ?thesis using less.prems(4) call by (subst (asm) askedIDs.simps) (auto simp: isWrapper_def pureCall_def split: if_splits)
  next
    case other
    then show ?thesis using less.prems(4) by (subst (asm) askedIDs.simps) simp
  qed
qed

lemma pureFun_needs:
  assumes "tidyProgram rv" "pureFun nz rv i" "j \<in> funAsked rv i"
  shows "nz j"
proof -
  obtain fn fl ret e where f: "map_of (rvFnByID rv) i = Some fn" "map_of (rvFileByID rv) (fnFileID fn) = Some fl"
    "ret \<in> set (FindAll ''return_statement'' (bodyOf fl fn))" "returnExpr ret = Some e" "j \<in> askedIDs rv e"
    using assms(3) unfolding funAsked_def by blast
  obtain iv where iv: "pureExpr nz rv (flowFor fl fn) (constsFor rv (dfRoot fl)) e = Some iv" "isNonZero iv"
    using assms(2) f(1-4) by (auto simp: pureFun_def provenReturn_def)
  have "tidyNode ret" using tidyNode_FindAll [OF bodyOf_tidy [OF tidyProgram_file [OF assms(1) f(2)]] f(3)] .
  moreover have "e \<in> set (NamedChildren ret)" using f(4) by (auto simp: returnExpr_def split: list.splits)
  ultimately have "tidyNode e" using tidyNode_child NamedChildren_sub by blast
  from pureExpr_needs [OF this iv f(5)] show ?thesis .
qed

lemma pureFun_cong:
  assumes "\<And>j. j \<in> funAsked rv i \<Longrightarrow> nz j = nz' j"
  shows "pureFun nz rv i = pureFun nz' rv i"
proof -
  have "provenReturn nz rv (flowFor fl fn) (constsFor rv (dfRoot fl)) ret
      = provenReturn nz' rv (flowFor fl fn) (constsFor rv (dfRoot fl)) ret"
    if "map_of (rvFnByID rv) i = Some fn" "map_of (rvFileByID rv) (fnFileID fn) = Some fl"
      "ret \<in> set (FindAll ''return_statement'' (bodyOf fl fn))" for fn fl ret
  proof (cases "returnExpr ret")
    case (Some e)
    have "pureExpr nz rv (flowFor fl fn) (constsFor rv (dfRoot fl)) e
        = pureExpr nz' rv (flowFor fl fn) (constsFor rv (dfRoot fl)) e"
      by (rule pureExpr_cong, rule assms) (use that Some in \<open>unfold funAsked_def, blast\<close>)
    then show ?thesis using Some by (simp add: provenReturn_def)
  qed (simp add: provenReturn_def)
  then show ?thesis unfolding pureFun_def by metis
qed

lemma provenIn_Suc: "tidyProgram rv \<Longrightarrow> provenIn rv n i \<Longrightarrow> provenIn rv (Suc n) i"
proof (induction n arbitrary: i)
  case (Suc n)
  have "provenIn rv n j = provenIn rv (Suc n) j" if "j \<in> funAsked rv i" for j
    using pureFun_needs [OF Suc.prems(1) _ that, of "provenIn rv n"] Suc.IH [OF Suc.prems(1)] Suc.prems(2) by auto
  then have "pureFun (provenIn rv n) rv i = pureFun (provenIn rv (Suc n)) rv i" by (rule pureFun_cong)
  with Suc.prems(2) show ?case by simp
qed simp

lemma provenIn_mono: "tidyProgram rv \<Longrightarrow> provenIn rv n i \<Longrightarrow> n \<le> m \<Longrightarrow> provenIn rv m i"
  by (induction m) (auto simp: le_Suc_eq simp del: provenIn.simps intro: provenIn_Suc)

text \<open>The reference is a fixed point.\<close>

lemma provenNonZero_fixed:
  assumes "tidyProgram rv"
  shows "pureFun (provenNonZero rv) rv i = provenNonZero rv i"
proof
  assume p: "pureFun (provenNonZero rv) rv i"
  have "\<forall>j \<in> funAsked rv i. \<exists>n. provenIn rv n j" using pureFun_needs [OF assms p] by (simp add: provenNonZero_def)
  then obtain f where f: "\<forall>j \<in> funAsked rv i. provenIn rv (f j) j" by metis
  let ?n = "Max (f ` funAsked rv i)"
  have "provenIn rv ?n j" if "j \<in> funAsked rv i" for j
    by (rule provenIn_mono [OF assms]) (use f that finite_funAsked in auto)
  then have "pureFun (provenIn rv ?n) rv i = pureFun (provenNonZero rv) rv i"
    by (intro pureFun_cong) (auto simp: provenNonZero_def)
  then have "provenIn rv (Suc ?n) i" using p by simp
  then show "provenNonZero rv i" unfolding provenNonZero_def by blast
next
  assume "provenNonZero rv i"
  then obtain n where n: "provenIn rv n i" by (auto simp: provenNonZero_def)
  then obtain m where m: "n = Suc m" "pureFun (provenIn rv m) rv i" by (cases n) auto
  have "pureFun (provenIn rv m) rv i = pureFun (provenNonZero rv) rv i"
    by (rule pureFun_cong) (use pureFun_needs [OF assms m(2)] in \<open>auto simp: provenNonZero_def\<close>)
  with m(2) show "pureFun (provenNonZero rv) rv i" by simp
qed

section \<open>Summaries with state\<close>

text \<open>
  The interface of an expression to the summaries, now with the exact answer: for a function the caller
  may ask for, the answer is that of the reference, and the invariant is kept.
\<close>

locale exact_summaries =
  fixes rv :: resolver and summ :: summarizer and kept :: "'v \<Rightarrow> summaryState \<Rightarrow> bool"
    and asks :: "'v \<Rightarrow> int set" and nz :: "int \<Rightarrow> bool"
  assumes summ_exact: "kept V st \<Longrightarrow> i \<in> asks V \<Longrightarrow> \<exists>st'. summ i st = Some (nz i, st') \<and> kept V st'"
begin

lemma allNonZero_exact:
  "kept V st \<Longrightarrow> set ids \<subseteq> asks V \<Longrightarrow> \<exists>st'. allNonZero summ ids st = Some (\<forall>i \<in> set ids. nz i, st') \<and> kept V st'"
proof (induction ids arbitrary: st)
  case (Cons i ids)
  have "i \<in> asks V" using Cons.prems(2) by simp
  from summ_exact [OF Cons.prems(1) this] obtain st1 where s: "summ i st = Some (nz i, st1)" "kept V st1" by blast
  show ?case
  proof (cases "nz i")
    case True
    with s Cons.IH [OF s(2)] Cons.prems(2) show ?thesis by auto
  next
    case False
    with s show ?thesis by auto
  qed
qed simp

lemma nonZeroReturnWith_exact:
  "kept V st \<Longrightarrow> (\<not> NonZeroReturn name \<longrightarrow> set (funcIDs rv name) \<subseteq> asks V) \<Longrightarrow>
   \<exists>st'. nonZeroReturnWith summ rv name st = Some (pureCall nz rv name, st') \<and> kept V st'"
  using allNonZero_exact [of V st "funcIDs rv name"] by (auto simp: nonZeroReturnWith_def pureCall_def)

lemma firstInterval_exact:
  assumes "\<And>c s. c \<in> set cs \<Longrightarrow> kept V s \<Longrightarrow> \<exists>s'. f c s = Some (g c, s') \<and> kept V s'"
  shows "kept V st \<Longrightarrow> \<exists>st'. firstInterval f cs st = Some (firstSome g cs, st') \<and> kept V st'"
  using assms
proof (induction cs arbitrary: st)
  case (Cons c cs)
  obtain s' where c: "f c st = Some (g c, s')" "kept V s'" using Cons.prems by (meson list.set_intros(1))
  show ?case
  proof (cases "g c")
    case None
    have "\<exists>st'. firstInterval f cs s' = Some (firstSome g cs, st') \<and> kept V st'"
      by (rule Cons.IH [OF c(2)]) (use Cons.prems(2) in simp)
    with c None show ?thesis by simp
  next
    case (Some iv)
    with c show ?thesis by simp
  qed
qed simp

lemma exprInterval_exact:
  "kept V st \<Longrightarrow> askedIDs rv e \<subseteq> asks V \<Longrightarrow>
   \<exists>st'. exprInterval summ rv flow cenv e st = Some (pureExpr nz rv flow cenv e, st') \<and> kept V st'"
proof (induction e arbitrary: st rule: measure_induct_rule [of size])
  case (less e)
  note i = exprInterval.simps [of summ rv flow cenv e st] and p = pureExpr.simps [of nz rv flow cenv e]
  consider (cond) "Kind e = ''conditional_expression''" | (wrap) "isWrapper e" | (call) "Kind e = ''call_expression''"
    | (other) "Kind e \<noteq> ''conditional_expression''" "\<not> isWrapper e" "Kind e \<noteq> ''call_expression''" by blast
  then show ?case
  proof cases
    case cond
    show ?thesis
    proof (cases "ChildByFieldName ''consequence'' e = None \<or> ChildByFieldName ''alternative'' e = None")
      case True
      then show ?thesis using i p cond less.prems(1) by (auto split: option.splits)
    next
      case False
      then obtain c a where ca: "ChildByFieldName ''consequence'' e = Some c" "ChildByFieldName ''alternative'' e = Some a" by auto
      have as: "askedIDs rv c \<subseteq> asks V" "askedIDs rv a \<subseteq> asks V"
        using less.prems(2) cond ca by (simp_all add: askedIDs.simps [of rv e])
      obtain st1 where c: "exprInterval summ rv flow cenv c st = Some (pureExpr nz rv flow cenv c, st1)" "kept V st1"
        using less.IH [OF size_ChildByFieldName [OF ca(1)] less.prems(1) as(1)] by blast
      obtain st2 where a: "exprInterval summ rv flow cenv a st1 = Some (pureExpr nz rv flow cenv a, st2)" "kept V st2"
        using less.IH [OF size_ChildByFieldName [OF ca(2)] c(2) as(2)] by blast
      show ?thesis using i p cond ca c(1) a by simp
    qed
  next
    case wrap
    have as: "askedIDs rv c \<subseteq> asks V" if "c \<in> set (NamedChildren e)" for c
    proof -
      have "askedIDs rv e = \<Union>(askedIDs rv ` set (NamedChildren e))"
        using wrap by (auto simp: askedIDs.simps [of rv e] isWrapper_def)
      with less.prems(2) that show ?thesis by blast
    qed
    have "\<exists>st'. firstInterval (exprInterval summ rv flow cenv) (NamedChildren e) st
        = Some (firstSome (pureExpr nz rv flow cenv) (NamedChildren e), st') \<and> kept V st'"
      by (rule firstInterval_exact [OF less.IH [OF size_NamedChildren _ as] less.prems(1)])
    then show ?thesis using i p wrap by (auto simp: isWrapper_def)
  next
    case call
    have "\<not> NonZeroReturn (callName e) \<longrightarrow> set (funcIDs rv (callName e)) \<subseteq> asks V"
      using less.prems(2) call by (auto simp: askedIDs.simps [of rv e] isWrapper_def)
    from nonZeroReturnWith_exact [OF less.prems(1) this] show ?thesis using i p call less.prems(1)
      by (auto simp: isWrapper_def)
  next
    case other
    then show ?thesis using i p less.prems(1) by (auto split: option.splits)
  qed
qed

lemma returnsNonZero_exact:
  "kept V st \<Longrightarrow> (\<And>r e. r \<in> set rets \<Longrightarrow> returnExpr r = Some e \<Longrightarrow> askedIDs rv e \<subseteq> asks V) \<Longrightarrow>
   \<exists>st'. returnsNonZero summ rv flow cenv rets st = Some (\<forall>r \<in> set rets. provenReturn nz rv flow cenv r, st') \<and> kept V st'"
proof (induction rets arbitrary: st)
  case (Cons r rets)
  show ?case
  proof (cases "returnExpr r")
    case None
    with Cons.prems(1) show ?thesis by (auto simp: provenReturn_def)
  next
    case (Some e)
    obtain st1 where e: "exprInterval summ rv flow cenv e st = Some (pureExpr nz rv flow cenv e, st1)" "kept V st1"
      using exprInterval_exact [OF Cons.prems(1) Cons.prems(2) [of r e]] Some by (meson list.set_intros(1))
    show ?thesis
    proof (cases "provenReturn nz rv flow cenv r")
      case True
      then obtain iv where "pureExpr nz rv flow cenv e = Some iv" "isNonZero iv" using Some by (auto simp: provenReturn_def)
      moreover have "\<exists>st'. returnsNonZero summ rv flow cenv rets st1
          = Some (\<forall>r \<in> set rets. provenReturn nz rv flow cenv r, st') \<and> kept V st'"
        by (rule Cons.IH [OF e(2)]) (use Cons.prems(2) in auto)
      ultimately show ?thesis using Some e(1) True by simp
    next
      case False
      then show ?thesis using Some e by (auto simp: provenReturn_def split: option.splits)
    qed
  qed
qed simp

end

text \<open>A function may be asked for below the stack if every function of the stack needs it.\<close>

definition neededBy :: "resolver \<Rightarrow> int set \<Rightarrow> int set" where
  "neededBy rv V = {i. \<forall>j \<in> V. \<forall>n. provenIn rv n j \<longrightarrow> (\<exists>m < n. provenIn rv m i)}"

definition memoExact :: "resolver \<Rightarrow> summaryState \<Rightarrow> bool" where
  "memoExact rv st \<longleftrightarrow> (\<forall>i b. map_of (rvMemo st) i = Some b \<longrightarrow> b = provenNonZero rv i)"

definition exactInv :: "nat \<Rightarrow> resolver \<Rightarrow> int set \<Rightarrow> summaryState \<Rightarrow> bool" where
  "exactInv k rv V st \<longleftrightarrow> tidyProgram rv \<and> set (rvVisiting st) = V \<and> card (knownFunctions rv - V) < k \<and> memoExact rv st"

lemma neededBy_visited: "i \<in> V \<Longrightarrow> i \<in> neededBy rv V \<Longrightarrow> \<not> provenNonZero rv i"
proof -
  assume i: "i \<in> V" "i \<in> neededBy rv V"
  have "\<not> provenIn rv n i" for n
  proof (induction n rule: less_induct)
    case (less n)
    then show ?case using i by (auto simp: neededBy_def)
  qed
  then show ?thesis by (simp add: provenNonZero_def)
qed

lemma neededBy_asked:
  assumes "tidyProgram rv" "i \<in> neededBy rv V"
  shows "funAsked rv i \<subseteq> neededBy rv (insert i V)"
proof
  fix j assume j: "j \<in> funAsked rv i"
  have step: "\<exists>m < n. provenIn rv m j" if "provenIn rv n i" for n
  proof (cases n)
    case (Suc m)
    with that have "pureFun (provenIn rv m) rv i" by simp
    then show ?thesis using pureFun_needs [OF assms(1) _ j] Suc by blast
  qed (use that in simp)
  have "\<exists>m < n. provenIn rv m j" if k: "k \<in> insert i V" "provenIn rv n k" for k n
  proof (cases "k = i")
    case True
    with step k(2) show ?thesis by simp
  next
    case False
    then obtain m where "m < n" "provenIn rv m i" using assms(2) k by (auto simp: neededBy_def)
    then show ?thesis using step by (meson less_trans)
  qed
  then show "j \<in> neededBy rv (insert i V)" by (auto simp: neededBy_def)
qed

lemma memoExact_set: "memoExact rv st \<Longrightarrow> b = provenNonZero rv i \<Longrightarrow> memoExact rv (setMemo i b st)"
  by (auto simp: memoExact_def setMemo_def update_conv split: if_splits)

lemma memoExact_visiting [simp]: "memoExact rv (st\<lparr>rvVisiting := xs\<rparr>) \<longleftrightarrow> memoExact rv st"
  by (simp add: memoExact_def)

lemma summarizeFunction_exact:
  assumes ih: "exact_summaries (funcNonZero k rv) (exactInv k rv) (neededBy rv) (provenNonZero rv)" and tidy: "tidyProgram rv"
    and st: "set (rvVisiting st) = insert i V" "memoExact rv st" "i \<in> neededBy rv V"
      "i \<in> knownFunctions rv \<Longrightarrow> card (knownFunctions rv - insert i V) < k"
  shows "\<exists>st'. summarizeFunction (funcNonZero k rv) rv i st = Some (provenNonZero rv i, st')
     \<and> set (rvVisiting st') = insert i V \<and> memoExact rv st'"
proof (cases "\<exists>fn fl. map_of (rvFnByID rv) i = Some fn \<and> map_of (rvFileByID rv) (fnFileID fn) = Some fl
     \<and> Kind (bodyOf fl fn) = ''compound_statement'' \<and> FindAll ''return_statement'' (bodyOf fl fn) \<noteq> []")
  case False
  then have "\<not> pureFun (provenNonZero rv) rv i" unfolding pureFun_def by blast
  then have n: "\<not> provenNonZero rv i" using provenNonZero_fixed [OF tidy] by simp
  from False have "summarizeFunction (funcNonZero k rv) rv i st = Some (False, setMemo i False st)"
    by (auto simp: summarizeFunction_def Let_def split: option.splits)
  then show ?thesis using st(1) memoExact_set [OF st(2), of False i] n by simp
next
  case True
  then obtain fn fl where f: "map_of (rvFnByID rv) i = Some fn" "map_of (rvFileByID rv) (fnFileID fn) = Some fl"
    "Kind (bodyOf fl fn) = ''compound_statement''" "FindAll ''return_statement'' (bodyOf fl fn) \<noteq> []" by blast
  let ?rets = "FindAll ''return_statement'' (bodyOf fl fn)" and ?flow = "flowFor fl fn" and ?cenv = "constsFor rv (dfRoot fl)"
  have "i \<in> knownFunctions rv" using f(1) unfolding knownFunctions_def by (metis map_of_key)
  then have inv: "exactInv k rv (insert i V) st" using st tidy by (simp add: exactInv_def)
  have as: "askedIDs rv e \<subseteq> neededBy rv (insert i V)" if "r \<in> set ?rets" "returnExpr r = Some e" for r e
    using neededBy_asked [OF tidy st(3)] f(1,2) that unfolding funAsked_def by blast
  obtain st' where r: "returnsNonZero (funcNonZero k rv) rv ?flow ?cenv ?rets st
      = Some (\<forall>r \<in> set ?rets. provenReturn (provenNonZero rv) rv ?flow ?cenv r, st')" "exactInv k rv (insert i V) st'"
    using exact_summaries.returnsNonZero_exact [OF ih inv, of ?rets rv ?flow ?cenv] as by blast
  have b: "(\<forall>r \<in> set ?rets. provenReturn (provenNonZero rv) rv ?flow ?cenv r) = provenNonZero rv i"
    unfolding provenNonZero_fixed [OF tidy, of i, symmetric] using f by (simp add: pureFun_def)
  have "summarizeFunction (funcNonZero k rv) rv i st = Some (provenNonZero rv i, setMemo i (provenNonZero rv i) st')"
    using f r(1) b by (simp add: summarizeFunction_def Let_def)
  then show ?thesis using memoExact_set r(2) by (simp add: exactInv_def)
qed

lemma funcNonZero_exact:
  assumes ih: "\<And>j. k = Suc j \<Longrightarrow> exact_summaries (funcNonZero j rv) (exactInv j rv) (neededBy rv) (provenNonZero rv)"
    and st: "exactInv k rv V st" "i \<in> neededBy rv V"
  shows "\<exists>st'. funcNonZero k rv i st = Some (provenNonZero rv i, st') \<and> exactInv k rv V st'"
proof (cases "map_of (rvMemo st) i")
  case (Some v)
  then show ?thesis using st(1) by (auto simp: funcNonZero.simps [of k] exactInv_def memoExact_def)
next
  case None
  show ?thesis
  proof (cases "i \<in> V")
    case True
    then show ?thesis using st None neededBy_visited [OF True st(2)] by (auto simp: funcNonZero.simps [of k] exactInv_def)
  next
    case False
    obtain j where j: "k = Suc j" using st(1) by (cases k) (auto simp: exactInv_def)
    let ?st = "st\<lparr>rvVisiting := i # rvVisiting st\<rparr>"
    have V: "set (rvVisiting st) = V" and tidy: "tidyProgram rv" using st(1) by (auto simp: exactInv_def)
    have less: "card (knownFunctions rv - insert i V) < j" if "i \<in> knownFunctions rv"
    proof -
      have "card (knownFunctions rv - insert i V) < card (knownFunctions rv - V)"
        using that False by (intro psubset_card_mono) (auto simp: knownFunctions_def)
      with st(1) j show ?thesis by (simp add: exactInv_def)
    qed
    have sv: "set (rvVisiting ?st) = insert i V" "memoExact rv ?st" using st(1) V by (simp_all add: exactInv_def)
    obtain st' where r: "summarizeFunction (funcNonZero j rv) rv i ?st = Some (provenNonZero rv i, st')"
        "set (rvVisiting st') = insert i V" "memoExact rv st'"
      using summarizeFunction_exact [OF ih [OF j] tidy sv st(2) less] by blast
    have "funcNonZero k rv i st = Some (provenNonZero rv i, st'\<lparr>rvVisiting := removeAll i (rvVisiting st')\<rparr>)"
      using None False r(1) V unfolding j by (simp add: funcNonZero.simps [of "Suc j"])
    moreover have "exactInv k rv V (st'\<lparr>rvVisiting := removeAll i (rvVisiting st')\<rparr>)"
      using r(2,3) False st(1) by (auto simp: exactInv_def)
    ultimately show ?thesis by blast
  qed
qed

lemma funcNonZero_exact_all: "exact_summaries (funcNonZero k rv) (exactInv k rv) (neededBy rv) (provenNonZero rv)"
proof (induction k)
  case 0
  show ?case by (rule exact_summaries.intro, rule funcNonZero_exact) simp_all
next
  case (Suc k)
  show ?case by (rule exact_summaries.intro, rule funcNonZero_exact) (use Suc in simp_all)
qed

interpretation exact: exact_summaries rv "funcNonZero k rv" "exactInv k rv" "neededBy rv" "provenNonZero rv" for rv k
  by (rule funcNonZero_exact_all)

text \<open>The invariant between queries: nothing is being visited.\<close>

definition idle :: "resolver \<Rightarrow> summaryState \<Rightarrow> bool" where
  "idle rv st \<longleftrightarrow> exactInv (summaryFuel rv) rv {} st"

lemma idle_fresh: "tidyProgram rv \<Longrightarrow> idle rv freshSummary"
  using fresh_resolverInv [of rv] by (simp add: idle_def exactInv_def resolverInv_def summaryInv_def memoExact_def freshSummary_def)

lemma nonZeroReturn_exact:
  "idle rv st \<Longrightarrow> \<exists>st'. nonZeroReturn rv name st = Some (pureCall (provenNonZero rv) rv name, st') \<and> idle rv st'"
  unfolding idle_def nonZeroReturn_def using exact.nonZeroReturnWith_exact [of "summaryFuel rv" rv "{}" st name]
  by (simp add: neededBy_def)

lemma nonZeroQueries_exact:
  "idle rv st \<Longrightarrow> \<exists>st'. nonZeroQueries rv ns st = Some (map (pureCall (provenNonZero rv) rv) ns, st') \<and> idle rv st'"
proof (induction ns arbitrary: st)
  case (Cons n ns)
  obtain st1 where s: "nonZeroReturn rv n st = Some (pureCall (provenNonZero rv) rv n, st1)" "idle rv st1"
    using nonZeroReturn_exact [OF Cons.prems] by blast
  from Cons.IH [OF s(2)] s(1) show ?case by auto
qed simp

text \<open>C29: the memo and the cycle guard change no answer.  Any sequence of queries from an empty memo is answered,
  each by the reference that has no state: the name is a contract function, or it has definitions and all of
  them are non-zero by a finite nesting of calls.  So no answer depends on the order of the queries, and
  being met inside a cycle never spoils what is remembered of a function.\<close>

theorem return_summary_exact:
  assumes "tidyProgram rv"
  shows "\<exists>st. nonZeroQueries rv ns freshSummary = Some (map (pureCall (provenNonZero rv) rv) ns, st)"
  using nonZeroQueries_exact [OF idle_fresh [OF assms]] by blast

text \<open>The witness: the program of the function that returns 7 and the one that returns its own result.\<close>

theorem return_summary_exact_witness:
  "\<exists>st. nonZeroQueries tinyProgram [''loop'', ''seven'', ''loop''] freshSummary
      = Some (map (pureCall (provenNonZero tinyProgram) tinyProgram) [''loop'', ''seven'', ''loop''], st)"
  by (rule return_summary_exact [OF tinyProgram_tidy])

end
