(* ===== verification/Candidates.thy ===== *)
theory Candidates
  imports Prelude "HOL-Library.Multiset" "HOL-Library.AList"
begin

text \<open>
  The candidates of a vulnerability, the ledger of the dismissed ones and the contract of a filter
  (internal/planner/filter.go), with the filters that decide each candidate on its own: from
  filter_type_expr.go, filter_non_nullable.go, filter_array_oob_precedence.go, filter_ownership.go,
  filter_extended.go, filter_inline_suppression.go and filter_boundary_fail_open.go.  A candidate has the
  fields the modelled stages read or write; the others pass through them untouched.  What the
  store answers is a parameter: an error text or the rows, their JSON properties already parsed.
\<close>

section \<open>Candidates and the ledger\<close>

record CallChainHop =
  hopCaller :: string
  hopCallee :: string
  hopLine :: int
  hopFile :: string

record Candidate =
  DerefEventID :: int
  FunctionID :: int
  FunctionName :: string
  VariableName :: string
  APIName :: string
  Category :: string
  LocationID :: int
  FileID :: int
  Line :: int
  HasDefiniteNull :: bool
  IsReachable :: bool
  CallChain :: "CallChainHop list"
  Callers :: "string list"
  NonNullable :: bool
  IsTypeExpr :: bool
  SuspicionLevel :: string
  GuardStrength :: string
  NullOriginTier :: string
  CallerNullDetail :: string
  ChainKind :: string
  ChainRoot :: string
  DerefLines :: "int list"
  ChainFunctions :: "string list"
  ReverseFunc :: string
  DivisorInterval :: string
  DivisorCallers :: string
  ClusterSites :: "string list"
  Array :: string
  Index :: string
  Size :: int
  SizeArgument :: string
  DstCapacity :: string
  CopySize :: string
  BufferDefLine :: int
  BufferDefKind :: string
  IndexOriginLine :: int
  Origin :: string
  InitWrite :: string
  MayFree :: bool
  CrossFunction :: bool

record Dismissed =
  dmFunctionName :: string
  dmVariableName :: string
  dmLine :: int
  dmFilter :: string
  dmReason :: string

type_synonym 'a answer = "string + 'a"

record CandidateFilter =
  cfName :: string
  cfApply :: "Candidate list \<Rightarrow> (Candidate list \<times> Dismissed list) answer"

definition dismissal :: "string \<Rightarrow> Candidate \<Rightarrow> string \<Rightarrow> Dismissed" where
  "dismissal filterName c reason = \<lparr>dmFunctionName = FunctionName c, dmVariableName = VariableName c, dmLine = Line c,
     dmFilter = filterName, dmReason = reason\<rparr>"

definition dismiss :: "Dismissed list \<Rightarrow> Candidate \<Rightarrow> string \<Rightarrow> string \<Rightarrow> Dismissed list" where
  "dismiss dropped c filterName reason = dropped @ [dismissal filterName c reason]"

definition partitionBy :: "Candidate list \<Rightarrow> (Candidate \<Rightarrow> bool) \<Rightarrow> (Candidate \<Rightarrow> string) \<Rightarrow> string
    \<Rightarrow> Candidate list \<times> Dismissed list" where
  "partitionBy candidates keep reason filterName =
     fold (\<lambda>c (kept, dropped). if keep c then (kept @ [c], dropped) else (kept, dismiss dropped c filterName (reason c)))
       candidates ([], [])"

text \<open>The loop of the filters that change a candidate before they keep it, or dismiss it with a reason.\<close>

definition sift :: "(Candidate \<Rightarrow> string + Candidate) \<Rightarrow> string \<Rightarrow> Candidate list \<Rightarrow> Candidate list \<times> Dismissed list" where
  "sift decide filterName candidates =
     fold (\<lambda>c (kept, dropped). case decide c of
              Inr c' \<Rightarrow> (kept @ [c'], dropped)
            | Inl reason \<Rightarrow> (kept, dismiss dropped c filterName reason))
       candidates ([], [])"


text \<open>A candidate with nothing but a place, for the concrete examples.\<close>

definition plainCandidate :: "int \<Rightarrow> string \<Rightarrow> string \<Rightarrow> int \<Rightarrow> Candidate" where
  "plainCandidate fid fn v line = \<lparr>DerefEventID = 1, FunctionID = fid, FunctionName = fn, VariableName = v, APIName = '''',
     Category = '''', LocationID = 0, FileID = 1, Line = line, HasDefiniteNull = False, IsReachable = False, CallChain = [],
     Callers = [], NonNullable = False, IsTypeExpr = False, SuspicionLevel = ''suspected'', GuardStrength = '''', NullOriginTier = '''',
     CallerNullDetail = '''', ChainKind = '''', ChainRoot = '''', DerefLines = [], ChainFunctions = [], ReverseFunc = '''',
     DivisorInterval = '''', DivisorCallers = '''', ClusterSites = [], Array = '''', Index = '''', Size = 0, SizeArgument = '''',
     DstCapacity = '''', CopySize = '''', BufferDefLine = 0, BufferDefKind = '''', IndexOriginLine = 0, Origin = '''', InitWrite = '''', MayFree = False, CrossFunction = False\<rparr>"


section \<open>The contract of a filter\<close>

text \<open>What a filter may change of a candidate: never its identity or its lines, and its tier only to confirmed.\<close>

definition identity :: "Candidate \<Rightarrow> int \<times> int \<times> string \<times> string \<times> int \<times> int \<times> int list" where
  "identity c = (DerefEventID c, FunctionID c, FunctionName c, VariableName c, FileID c, Line c, DerefLines c)"

definition refines :: "Candidate \<Rightarrow> Candidate \<Rightarrow> bool" where
  "refines c c' \<longleftrightarrow> identity c' = identity c \<and> (SuspicionLevel c' = SuspicionLevel c \<or> SuspicionLevel c' = ''confirmed'')"

definition site :: "Candidate \<Rightarrow> string \<times> string \<times> int" where
  "site c = (FunctionName c, VariableName c, Line c)"

definition ledgerSite :: "Dismissed \<Rightarrow> string \<times> string \<times> int" where
  "ledgerSite d = (dmFunctionName d, dmVariableName d, dmLine d)"

text \<open>
  Every candidate is decided once: kept in its place, or recorded in the ledger with the name of the
  filter and a reason.  The outcome of a candidate that is not kept is None.
\<close>

definition keptOf :: "Candidate option list \<Rightarrow> Candidate list" where
  "keptOf rs = concat (map (\<lambda>r. case r of None \<Rightarrow> [] | Some c \<Rightarrow> [c]) rs)"

definition lostOf :: "Candidate list \<Rightarrow> Candidate option list \<Rightarrow> Candidate list" where
  "lostOf cs rs = map fst (filter (\<lambda>(c, r). r = None) (zip cs rs))"

definition outcome :: "Candidate \<Rightarrow> Candidate option \<Rightarrow> bool" where
  "outcome c r \<longleftrightarrow> (\<forall>c'. r = Some c' \<longrightarrow> refines c c')"

definition accounted :: "string set \<Rightarrow> Candidate list \<Rightarrow> Candidate list \<Rightarrow> Dismissed list \<Rightarrow> bool" where
  "accounted names cs kept dropped \<longleftrightarrow> (\<exists>rs. list_all2 outcome cs rs \<and> kept = keptOf rs
     \<and> mset (map ledgerSite dropped) = mset (map site (lostOf cs rs))
     \<and> (\<forall>d \<in> set dropped. dmFilter d \<in> names \<and> dmReason d \<noteq> ''''))"

locale filter_stage =
  fixes f :: CandidateFilter
  assumes accounts: "cfApply f cs = Inr (kept, dropped) \<Longrightarrow> accounted {cfName f} cs kept dropped"

lemma refines_refl [simp]: "refines c c"
  by (simp add: refines_def)

lemma refines_trans: "refines a b \<Longrightarrow> refines b c \<Longrightarrow> refines a c"
  by (auto simp: refines_def)

lemma refines_site: "refines c c' \<Longrightarrow> site c' = site c"
  by (simp add: refines_def identity_def site_def)

lemma keptOf_simps [simp]: "keptOf [] = []" "keptOf (None # rs) = keptOf rs" "keptOf (Some c # rs) = c # keptOf rs"
  by (simp_all add: keptOf_def)

lemma lostOf_simps [simp]: "lostOf [] [] = []" "lostOf (c # cs) (None # rs) = c # lostOf cs rs"
  "lostOf (c # cs) (Some c' # rs) = lostOf cs rs"
  by (simp_all add: lostOf_def)

lemma outcome_simps [simp]: "outcome c None" "outcome c (Some c') \<longleftrightarrow> refines c c'"
  by (simp_all add: outcome_def)

lemma accounted_all [simp]: "accounted names cs cs []"
proof -
  have "list_all2 outcome cs (map Some cs) \<and> keptOf (map Some cs) = cs \<and> lostOf cs (map Some cs) = []"
    by (induction cs) simp_all
  then show ?thesis unfolding accounted_def by (intro exI [of _ "map Some cs"]) simp
qed

lemma accounted_mono: "accounted A cs kept dropped \<Longrightarrow> A \<subseteq> B \<Longrightarrow> accounted B cs kept dropped"
  unfolding accounted_def by blast

text \<open>Stages in a row account for what they are given together.\<close>

lemma outcomes_compose:
  "list_all2 outcome cs rs \<Longrightarrow> list_all2 outcome (keptOf rs) qs \<Longrightarrow>
   \<exists>ps. list_all2 outcome cs ps \<and> keptOf ps = keptOf qs
     \<and> mset (map site (lostOf cs ps)) = mset (map site (lostOf cs rs)) + mset (map site (lostOf (keptOf rs) qs))"
proof (induction cs rs arbitrary: qs rule: list_all2_induct)
  case Nil
  then show ?case by (intro exI [of _ "[]"]) simp
next
  case (Cons c cs r rs)
  show ?case
  proof (cases r)
    case None
    with Cons.prems Cons.IH obtain ps where "list_all2 outcome cs ps" "keptOf ps = keptOf qs"
      "mset (map site (lostOf cs ps)) = mset (map site (lostOf cs rs)) + mset (map site (lostOf (keptOf rs) qs))" by auto
    then show ?thesis using None by (intro exI [of _ "None # ps"]) simp
  next
    case (Some c1)
    with Cons.prems obtain q qs' where q: "qs = q # qs'" "outcome c1 q" "list_all2 outcome (keptOf rs) qs'"
      by (auto simp: list_all2_Cons1)
    with Cons.IH obtain ps where p: "list_all2 outcome cs ps" "keptOf ps = keptOf qs'"
      "mset (map site (lostOf cs ps)) = mset (map site (lostOf cs rs)) + mset (map site (lostOf (keptOf rs) qs'))" by blast
    have c1: "refines c c1" using Cons.hyps(1) Some by simp
    show ?thesis
    proof (cases q)
      case None
      with p q Some c1 show ?thesis by (intro exI [of _ "None # ps"]) (simp add: refines_site)
    next
      case (Some c2)
      with q c1 have "refines c c2" using refines_trans by auto
      with p q Some \<open>r = Some c1\<close> show ?thesis by (intro exI [of _ "Some c2 # ps"]) simp
    qed
  qed
qed

lemma accounted_trans:
  assumes "accounted A cs mid d1" "accounted B mid kept d2"
  shows "accounted (A \<union> B) cs kept (d1 @ d2)"
proof -
  obtain rs qs where r: "list_all2 outcome cs rs" "mid = keptOf rs" "mset (map ledgerSite d1) = mset (map site (lostOf cs rs))"
      "\<forall>d \<in> set d1. dmFilter d \<in> A \<and> dmReason d \<noteq> ''''"
    and q: "list_all2 outcome mid qs" "kept = keptOf qs" "mset (map ledgerSite d2) = mset (map site (lostOf mid qs))"
      "\<forall>d \<in> set d2. dmFilter d \<in> B \<and> dmReason d \<noteq> ''''"
    using assms unfolding accounted_def by metis
  obtain ps where "list_all2 outcome cs ps" "keptOf ps = keptOf qs"
     "mset (map site (lostOf cs ps)) = mset (map site (lostOf cs rs)) + mset (map site (lostOf (keptOf rs) qs))"
    using outcomes_compose [OF r(1) q(1) [unfolded r(2)]] by blast
  then show ?thesis unfolding accounted_def using r q by (intro exI [of _ ps]) auto
qed

lemma length_outcomes: "list_all2 outcome cs rs \<Longrightarrow> length (keptOf rs) + length (lostOf cs rs) = length cs"
proof (induction cs rs rule: list_all2_induct)
  case (Cons c cs r rs)
  then show ?case by (cases r) simp_all
qed simp

lemma accounted_count: "accounted names cs kept dropped \<Longrightarrow> length kept + length dropped = length cs"
proof -
  assume "accounted names cs kept dropped"
  then obtain rs where r: "list_all2 outcome cs rs" "kept = keptOf rs" "mset (map ledgerSite dropped) = mset (map site (lostOf cs rs))"
    unfolding accounted_def by blast
  have "length (lostOf cs rs) = length dropped" using mset_eq_length [OF r(3)] by simp
  with r length_outcomes [OF r(1)] show ?thesis by simp
qed

text \<open>Sifting accounts for its candidates when it changes them within the contract and has reasons.\<close>

lemma sift_fold:
  "fold (\<lambda>c (kept, dropped). case decide c of Inr c' \<Rightarrow> (kept @ [c'], dropped) | Inl reason \<Rightarrow> (kept, dismiss dropped c name reason))
     cs (kept, dropped)
   = (kept @ keptOf (map (\<lambda>c. case decide c of Inr c' \<Rightarrow> Some c' | Inl reason \<Rightarrow> None) cs),
      dropped @ concat (map (\<lambda>c. case decide c of Inr c' \<Rightarrow> [] | Inl reason \<Rightarrow> [dismissal name c reason]) cs))"
  by (induction cs arbitrary: kept dropped) (simp_all add: dismiss_def split: sum.split)

lemma sift_accounted:
  assumes "\<And>c c'. c \<in> set cs \<Longrightarrow> decide c = Inr c' \<Longrightarrow> refines c c'" "\<And>c r. c \<in> set cs \<Longrightarrow> decide c = Inl r \<Longrightarrow> r \<noteq> ''''"
    and "sift decide name cs = (kept, dropped)"
  shows "accounted {name} cs kept dropped"
proof -
  let ?r = "\<lambda>c. case decide c of Inr c' \<Rightarrow> Some c' | Inl reason \<Rightarrow> None"
  let ?d = "\<lambda>c. case decide c of Inr c' \<Rightarrow> [] | Inl reason \<Rightarrow> [dismissal name c reason]"
  have s: "kept = keptOf (map ?r cs)" "dropped = concat (map ?d cs)" using assms(3) sift_fold [where decide = decide and name = name and cs = cs and kept = "[]" and dropped = "[]"]
    by (simp_all add: sift_def)
  have "list_all2 outcome cs (map ?r cs)" using assms(1)
    by (induction cs) (auto split: sum.split)
  moreover have "mset (map ledgerSite (concat (map ?d cs))) = mset (map site (lostOf cs (map ?r cs)))"
    by (induction cs) (simp_all add: ledgerSite_def dismissal_def site_def split: sum.split)
  moreover have "\<forall>d \<in> set (concat (map ?d cs)). dmFilter d \<in> {name} \<and> dmReason d \<noteq> ''''"
    using assms(2) by (auto simp: dismissal_def split: sum.splits)
  ultimately show ?thesis unfolding accounted_def s by blast
qed

lemma partitionBy_sift: "partitionBy cs keep reason name = sift (\<lambda>c. if keep c then Inr c else Inl (reason c)) name cs"
proof -
  have "fold (\<lambda>c (kept, dropped). if keep c then (kept @ [c], dropped) else (kept, dismiss dropped c name (reason c))) cs (k, d)
      = fold (\<lambda>c (kept, dropped). case (if keep c then Inr c else Inl (reason c)) of Inr c' \<Rightarrow> (kept @ [c'], dropped)
            | Inl reason \<Rightarrow> (kept, dismiss dropped c name reason)) cs (k, d)" for k d
    by (induction cs arbitrary: k d) simp_all
  then show ?thesis by (simp add: partitionBy_def sift_def)
qed

lemma partitionBy_accounted:
  "(\<And>c. reason c \<noteq> '''') \<Longrightarrow> partitionBy cs keep reason name = (kept, dropped) \<Longrightarrow> accounted {name} cs kept dropped"
  unfolding partitionBy_sift by (rule sift_accounted) (auto split: if_splits)

end
