(* ===== verification/Simple_Filters.thy ===== *)
theory Simple_Filters
  imports Candidates
begin

text \<open>
  The filters that decide each candidate on its own or by a table of the store, each with its proof that it
  meets the contract of a filter.
\<close>

section \<open>Tags of the detector\<close>

definition TypeExprFilter :: CandidateFilter where
  "TypeExprFilter = \<lparr>cfName = ''sizeof_pseudo_deref'',
     cfApply = (\<lambda>cs. Inr (partitionBy cs (\<lambda>c. \<not> IsTypeExpr c)
        (\<lambda>c. ''sizeof/alignof type expression, not a runtime dereference'') ''sizeof_pseudo_deref''))\<rparr>"

definition NonNullableFilter :: CandidateFilter where
  "NonNullableFilter = \<lparr>cfName = ''non_nullable_array_suppress'',
     cfApply = (\<lambda>cs. Inr (partitionBy cs (\<lambda>c. \<not> NonNullable c)
        (\<lambda>c. ''variable is a non-nullable stack/global array or non-pointer'') ''non_nullable_array_suppress''))\<rparr>"

text \<open>The weak tier of uninitialised reads: nothing was seen that leaves the variable unwritten.\<close>

definition weakUninitTier :: "Candidate \<Rightarrow> bool" where
  "weakUninitTier c \<longleftrightarrow> InitWrite c = ''none'' \<and> (Origin c = ''heap_uninit'' \<or> Origin c = ''struct_partial_uninit'')"

definition UninitWeakTierFilter :: CandidateFilter where
  "UninitWeakTierFilter = \<lparr>cfName = ''uninit_weak_tier'',
     cfApply = (\<lambda>cs. Inr (partitionBy cs (\<lambda>c. \<not> weakUninitTier c)
       (\<lambda>c. ''init@unseen: no in-tree callee error path leaves '' @ VariableName c @ '' unwritten before the read at line ''
             @ formatInt (Line c) @ '' (fail-open assumption; auto-dismissed)'')
       ''uninit_weak_tier''))\<rparr>"

text \<open>A candidate of a struct is of the weak tier as one of the heap is.\<close>

lemma struct_is_weak_tier: "weakUninitTier (c\<lparr>Origin := ''struct_partial_uninit'', InitWrite := ''none''\<rparr>)"
  by (simp add: weakUninitTier_def)

definition LeakProofFilter :: CandidateFilter where
  "LeakProofFilter = \<lparr>cfName = ''leak_proof'', cfApply = (\<lambda>cs. Inr (cs, []))\<rparr>"


section \<open>Tables of the store\<close>

text \<open>A location is a file and a line; the covered keys are those of the buffer accesses.\<close>

definition locationKey :: "int \<times> int \<Rightarrow> string" where
  "locationKey = (\<lambda>(fid, line). formatInt fid @ '':'' @ formatInt line)"

definition precedenceLocations :: "Candidate list \<Rightarrow> int list" where
  "precedenceLocations cs =
     fold (\<lambda>c ids. if NonNullable c \<and> 0 < LocationID c \<and> LocationID c \<notin> set ids then ids @ [LocationID c] else ids) cs []"

definition ArrayOOBPrecedenceFilter ::
  "(int list \<Rightarrow> (int \<times> (int \<times> int)) list answer) \<Rightarrow> string list answer \<Rightarrow> CandidateFilter" where
  "ArrayOOBPrecedenceFilter listLocations coveredKeys = \<lparr>cfName = ''array_oob_precedence'',
     cfApply = (\<lambda>cs.
       if precedenceLocations cs = [] then Inr (cs, [])
       else case listLocations (precedenceLocations cs) of
              Inl e \<Rightarrow> Inl (''array oob precedence filter: list locations: '' @ e)
            | Inr locs \<Rightarrow>
                (case coveredKeys of
                   Inl e \<Rightarrow> Inl (''array oob precedence filter: '' @ e)
                 | Inr covered \<Rightarrow>
                     Inr (partitionBy cs
                       (\<lambda>c. \<not> NonNullable c \<or> LocationID c \<le> 0
                            \<or> (case map_of locs (LocationID c) of None \<Rightarrow> True | Some loc \<Rightarrow> locationKey loc \<notin> set covered))
                       (\<lambda>c. ''array out-of-bounds BUFFER_ACCESS already covers this location'')
                       ''array_oob_precedence'')))\<rparr>"

definition siteKey :: "int \<Rightarrow> string \<Rightarrow> int \<Rightarrow> string" where
  "siteKey fid name line = formatInt fid @ '':'' @ name @ '':'' @ formatInt line"

text \<open>A variable node of the graph: its ID, its function, and the name and line of its properties.\<close>

record variableRef =
  vrNode :: int
  vrFunction :: int
  vrName :: string
  vrLine :: int

definition namedRefs :: "variableRef list \<Rightarrow> (int \<times> variableRef) list" where
  "namedRefs nodes = fold (\<lambda>n m. if vrName n = '''' then m else AList.update (vrNode n) n m) nodes []"

definition transferredKeys :: "int list \<Rightarrow> variableRef list \<Rightarrow> string list" where
  "transferredKeys sources nodes =
     concat (map (\<lambda>s. case map_of (namedRefs nodes) s of None \<Rightarrow> [] | Some n \<Rightarrow> [siteKey (vrFunction n) (vrName n) (vrLine n)]) sources)"

definition OwnershipTransferFilter :: "int list answer \<Rightarrow> variableRef list answer \<Rightarrow> CandidateFilter" where
  "OwnershipTransferFilter edges nodes = \<lparr>cfName = ''ownership_transfer'',
     cfApply = (\<lambda>cs.
       case edges of
         Inl e \<Rightarrow> Inl (''ownership transfer filter: '' @ e)
       | Inr sources \<Rightarrow>
           if sources = [] then Inr (cs, [])
           else (case nodes of
                   Inl e \<Rightarrow> Inr (cs, [])
                 | Inr ns \<Rightarrow>
                     Inr (partitionBy cs
                       (\<lambda>c. siteKey (FunctionID c) (VariableName c) (Line c) \<notin> set (transferredKeys sources ns))
                       (\<lambda>c. ''variable '' @ VariableName c @ '' is ownership-transferred (returned or stored to a global)'')
                       ''ownership_transfer'')))\<rparr>"

text \<open>A release event: its function, and the variable and the allocation line of its properties.\<close>

definition ReleaseFilter :: "string \<Rightarrow> (int \<times> string \<times> int) list answer \<Rightarrow> CandidateFilter" where
  "ReleaseFilter eventType releaseEvents = \<lparr>cfName = ''has_release'',
     cfApply = (\<lambda>cs.
       case releaseEvents of
         Inl e \<Rightarrow> Inl (''release filter ('' @ eventType @ ''): '' @ e)
       | Inr evs \<Rightarrow>
           Inr (partitionBy cs
             (\<lambda>c. siteKey (FunctionID c) (VariableName c) (Line c)
                    \<notin> set (map (\<lambda>(fid, v, l). siteKey fid v l) (filter (\<lambda>(fid, v, l). v \<noteq> '''') evs)))
             (\<lambda>c. ''variable '' @ VariableName c @ '' is released in function '' @ FunctionName c)
             ''has_release''))\<rparr>"

text \<open>An event that proves a secret: its ID and whether the value is proven.\<close>

definition HardcodedSecretProofFilter :: "(int \<times> bool) list answer \<Rightarrow> CandidateFilter" where
  "HardcodedSecretProofFilter events = \<lparr>cfName = ''hardcoded_secret_proof'',
     cfApply = (\<lambda>cs.
       case events of
         Inl e \<Rightarrow> Inl (''hardcoded secret proof: '' @ e)
       | Inr evs \<Rightarrow>
           Inr (map (\<lambda>c. if (DerefEventID c, True) \<in> set evs then c\<lparr>SuspicionLevel := ''confirmed''\<rparr> else c) cs, []))\<rparr>"

text \<open>A suppression: its file, its line and its type; a store that can not be read suppresses nothing.\<close>

definition suppressed :: "string \<Rightarrow> (int \<times> int \<times> string) list \<Rightarrow> (int \<times> int) list" where
  "suppressed vulnType sups =
     map (\<lambda>(fid, line, t). (fid, line)) (filter (\<lambda>(fid, line, t). t = ''all'' \<or> t = vulnType) sups)"

definition InlineSuppressionFilter :: "string \<Rightarrow> (int \<times> int \<times> string) list answer \<Rightarrow> CandidateFilter" where
  "InlineSuppressionFilter vulnType sups = \<lparr>cfName = ''inline_suppression'',
     cfApply = (\<lambda>cs.
       case sups of
         Inl e \<Rightarrow> Inr (cs, [])
       | Inr ss \<Rightarrow>
           Inr (sift (\<lambda>c. if (FileID c, Line c) \<in> set (suppressed vulnType ss)
                          then Inl ''in-source suppression (secguard-disable)'' else Inr c) ''inline_suppression'' cs))\<rparr>"


section \<open>Boundary scans\<close>

definition hasCallerNullLiteralWitness :: "Candidate \<Rightarrow> bool" where
  "hasCallerNullLiteralWitness c \<longleftrightarrow> strContains (CallerNullDetail c) ''passes NULL''"

definition boundaryKeep :: "string \<Rightarrow> Candidate \<Rightarrow> bool" where
  "boundaryKeep mode c \<longleftrightarrow>
     (if NullOriginTier c \<in> set [''opaque-origin'', ''external-unknown'', ''callback-entry'', ''assumed-return''] then False
      else if NullOriginTier c = ''caller-arg'' then
        (if ChainKind c = ''root'' then False
         else if CallChain c \<noteq> [] \<or> Callers c \<noteq> [] then True
         else if ChainKind c = ''hop'' then mode \<noteq> ''all''
         else mode \<noteq> ''all'' \<and> hasCallerNullLiteralWitness c)
      else True)"

definition boundaryReason :: "string \<Rightarrow> string" where
  "boundaryReason tier = ''boundary scan: non-proving null origin '' @ [CHR 0x22] @ tier @ [CHR 0x22]
     @ '' with no concrete in-tree NULL witness (auto-dismissed; scan the worktree root or set [scan].boundary_auto_dismiss=''
     @ [CHR 0x22] @ ''off'' @ [CHR 0x22] @ '' to judge it)''"

definition BoundaryFailOpenFilter :: "bool \<Rightarrow> string \<Rightarrow> CandidateFilter" where
  "BoundaryFailOpenFilter boundary mode = (let m = (if boundary then mode else ''off'') in
     \<lparr>cfName = ''boundary_fail_open'',
      cfApply = (\<lambda>cs.
        if m = ''off'' \<or> cs = [] then Inr (cs, [])
        else Inr (sift (\<lambda>c. if boundaryKeep m c then Inr c else Inl (boundaryReason (NullOriginTier c))) ''boundary_fail_open'' cs))\<rparr>)"


section \<open>Safe functions\<close>

definition SafeFunctions :: "string list" where
  "SafeFunctions = [''memcpy_s'', ''memmove_s'', ''memset_s'', ''strcpy_s'', ''strncpy_s'', ''sprintf_s'', ''snprintf_s'', ''vsprintf_s'',
     ''vsnprintf_s'', ''strcat_s'', ''strncat_s'', ''strlcpy'', ''strlcat'', ''execve'', ''execv'', ''execvp'', ''execl'', ''execlp'',
     ''execle'', ''sqlite3_prepare_v2'', ''sqlite3_bind_text'', ''sqlite3_bind_int'', ''sqlite3_bind_blob'', ''mkstemp'', ''openat'']"

definition SafeWrappers :: "string list" where
  "SafeWrappers = [''SafeCopy_copy'', ''SafeCopy_strcpy'', ''SafeQuery_prepare'', ''SafeQuery_bind_text'', ''SafeQuery_exec'',
     ''ResourceHandle_create'', ''ResourceHandle_destroy'', ''LockGuard_create'', ''LockGuard_release'', ''SafeExecArg'',
     ''validate_exec_arg'', ''sanitize_argv'', ''strip_crlf'', ''escape_crlf'', ''validate_header'', ''sanitize_header_value'',
     ''escape_newlines'', ''strip_newlines'', ''validate_log'', ''sanitize_log_message'']"

definition IsSafeFunction :: "string \<Rightarrow> bool" where
  "IsSafeFunction name \<longleftrightarrow> name \<in> set SafeFunctions"

definition IsSafeWrapper :: "string \<Rightarrow> bool" where
  "IsSafeWrapper name \<longleftrightarrow> name \<in> set SafeWrappers"

definition isExecvFamily :: "string \<Rightarrow> bool" where
  "isExecvFamily name \<longleftrightarrow> name \<in> set [''execv'', ''execvp'', ''execve'', ''execl'', ''execlp'', ''execle'', ''posix_spawn'', ''posix_spawnp'']"

definition overflowCategories :: "string list" where
  "overflowCategories = [''bounded_copy_overflow'', ''bounded_copy_var_size'', ''secure_copy_overflow'', ''secure_copy_var_size'',
     ''secure_constraint_violation'', ''secure_scanf_overflow'', ''secure_scanf_var_size'']"

definition wrapperOnly :: "Candidate \<Rightarrow> string \<Rightarrow> string + Candidate" where
  "wrapperOnly c what =
     (if IsSafeWrapper (FunctionName c) then Inl (''function '' @ FunctionName c @ '' is a safe wrapper for '' @ what) else Inr c)"

definition safeDecision :: "Candidate \<Rightarrow> string + Candidate" where
  "safeDecision c =
     (if Category c \<in> set overflowCategories then Inr c
      else if Category c = ''argument_injection'' then wrapperOnly c ''argument injection''
      else if Category c = ''path_traversal'' then Inr c
      else if Category c = ''command_injection'' \<and> isExecvFamily (APIName c) then Inr c
      else if Category c = ''format_string'' then wrapperOnly c ''format strings''
      else if Category c = ''resource_acquire'' then wrapperOnly c ''resource lifetimes''
      else if IsSafeWrapper (FunctionName c) then Inl (''function '' @ FunctionName c @ '' is a safe wrapper'')
      else if IsSafeFunction (APIName c) then Inl (''API '' @ APIName c @ '' is a known-safe function'')
      else Inr c)"

definition SafeFunctionFilter :: CandidateFilter where
  "SafeFunctionFilter = \<lparr>cfName = ''safe_function_exclude'', cfApply = (\<lambda>cs. Inr (sift safeDecision ''safe_function_exclude'' cs))\<rparr>"


section \<open>The contract is met\<close>

lemma map_accounted: "(\<And>c. c \<in> set cs \<Longrightarrow> refines c (g c)) \<Longrightarrow> accounted names cs (map g cs) []"
proof -
  assume g: "\<And>c. c \<in> set cs \<Longrightarrow> refines c (g c)"
  have "list_all2 outcome cs (map (Some \<circ> g) cs) \<and> keptOf (map (Some \<circ> g) cs) = map g cs \<and> lostOf cs (map (Some \<circ> g) cs) = []"
    using g by (induction cs) simp_all
  then show ?thesis unfolding accounted_def by (intro exI [of _ "map (Some \<circ> g) cs"]) simp
qed

interpretation type_expr: filter_stage TypeExprFilter
  by unfold_locales (auto simp: TypeExprFilter_def elim!: partitionBy_accounted [rotated])

interpretation non_nullable: filter_stage NonNullableFilter
  by unfold_locales (auto simp: NonNullableFilter_def elim!: partitionBy_accounted [rotated])

interpretation uninit_weak: filter_stage UninitWeakTierFilter
  by unfold_locales (auto simp: UninitWeakTierFilter_def elim!: partitionBy_accounted [rotated])

interpretation leak_proof: filter_stage LeakProofFilter
  by unfold_locales (auto simp: LeakProofFilter_def)

interpretation array_oob: filter_stage "ArrayOOBPrecedenceFilter listLocations coveredKeys" for listLocations coveredKeys
  by unfold_locales (auto simp: ArrayOOBPrecedenceFilter_def split: if_splits sum.splits elim!: partitionBy_accounted [rotated])

interpretation ownership: filter_stage "OwnershipTransferFilter edges nodes" for edges nodes
  by unfold_locales (auto simp: OwnershipTransferFilter_def split: if_splits sum.splits elim!: partitionBy_accounted [rotated])

interpretation release: filter_stage "ReleaseFilter eventType releaseEvents" for eventType releaseEvents
  by unfold_locales (auto simp: ReleaseFilter_def split: if_splits sum.splits elim!: partitionBy_accounted [rotated])

interpretation secret: filter_stage "HardcodedSecretProofFilter events" for events
  by unfold_locales (auto simp: HardcodedSecretProofFilter_def refines_def identity_def intro: map_accounted split: sum.splits)

interpretation suppression: filter_stage "InlineSuppressionFilter vulnType sups" for vulnType sups
proof unfold_locales
  fix cs kept dropped assume "cfApply (InlineSuppressionFilter vulnType sups) cs = Inr (kept, dropped)"
  then show "accounted {cfName (InlineSuppressionFilter vulnType sups)} cs kept dropped"
    by (cases sups) (auto simp: InlineSuppressionFilter_def split: if_splits elim!: sift_accounted [rotated 2])
qed

interpretation boundary: filter_stage "BoundaryFailOpenFilter inBoundary mode" for inBoundary mode
proof unfold_locales
  fix cs kept dropped assume "cfApply (BoundaryFailOpenFilter inBoundary mode) cs = Inr (kept, dropped)"
  then show "accounted {cfName (BoundaryFailOpenFilter inBoundary mode)} cs kept dropped"
    by (auto simp: BoundaryFailOpenFilter_def Let_def boundaryReason_def split: if_splits elim!: sift_accounted [rotated 2])
qed

interpretation safe_function: filter_stage SafeFunctionFilter
proof unfold_locales
  have d: "refines c c'" if "safeDecision c = Inr c'" for c c'
    using that by (auto simp: safeDecision_def wrapperOnly_def split: if_splits)
  have r: "r \<noteq> ''''" if "safeDecision c = Inl r" for c r
    using that by (auto simp: safeDecision_def wrapperOnly_def split: if_splits)
  fix cs kept dropped assume "cfApply SafeFunctionFilter cs = Inr (kept, dropped)"
  then show "accounted {cfName SafeFunctionFilter} cs kept dropped"
    using sift_accounted [of cs safeDecision, OF d r] by (simp add: SafeFunctionFilter_def)
qed

end
