(* ===== verification/Range_Filter.thy ===== *)
theory Range_Filter
  imports Return_Exact Global_Invariants Range_Sound Simple_Filters
begin

text \<open>
  The divide-by-zero filter of internal/planner/filter_range.go.  It puts the interval analysis, the return
  summaries, the cross-function invariants and the call sites together: a candidate whose divisor is never
  zero is dismissed, one whose divisor is always zero is confirmed, and the others are kept with what is
  known of them.  The answers of the resolver are those from an empty memo, which are its
  answers in every state between two queries.
\<close>

section \<open>Texts\<close>

definition intervalText :: "interval \<Rightarrow> string" where
  "intervalText r = ''['' @ (if ivLo r = minInt64 then ''-inf'' else formatInt (ivLo r)) @ '', ''
     @ (if ivHi r = maxInt64 then ''+inf'' else formatInt (ivHi r)) @ '']''"

definition isIdentStart :: "char \<Rightarrow> bool" where
  "isIdentStart c \<longleftrightarrow> c = CHR ''_'' \<or> isLetter c"

definition isIdentCont :: "char \<Rightarrow> bool" where
  "isIdentCont c \<longleftrightarrow> isIdentStart c \<or> isDigit c"

definition bareIdentVar :: "string \<Rightarrow> string" where
  "bareIdentVar text =
     (let s = TrimSpace text in
      case s of [] \<Rightarrow> '''' | c # cs \<Rightarrow> if isIdentStart c \<and> list_all isIdentCont cs then s else '''')"

text \<open>
  The pattern of a call: white space, opening parentheses, white space, a name, white space and an
  opening parenthesis.  The classes of neighbouring parts are disjoint, so each part is as long as it can be.
\<close>

definition isReSpace :: "char \<Rightarrow> bool" where
  "isReSpace c \<longleftrightarrow> c \<in> set [CHR '' '', CHR 0x09, CHR 0x0A, CHR 0x0C, CHR 0x0D]"

definition callNameFromDivisorText :: "string \<Rightarrow> string" where
  "callNameFromDivisorText text =
     (let body = dropWhile isReSpace (dropWhile (\<lambda>c. c = CHR ''('') (dropWhile isReSpace (TrimSpace text)));
          name = takeWhile isIdentCont body;
          rest = dropWhile isReSpace (dropWhile isIdentCont body) in
      if name \<noteq> [] \<and> isIdentStart (hd name) \<and> rest \<noteq> [] \<and> hd rest = CHR ''('' then name else '''')"


section \<open>What the filter loads\<close>

record eventProps =
  epDivisor :: string
  epDefinitelyZero :: bool

record rangeStore =
  rsEvents :: "int list \<Rightarrow> (int \<times> eventProps) list answer"
  rsFunctions :: "dbFunction list option"
  rsFiles :: "dbFile list option"
  rsFunctionsByIDs :: "int list \<Rightarrow> (int \<times> dbFunction) list"

definition candidateEvents :: "Candidate list \<Rightarrow> int list" where
  "candidateEvents cs = fold (\<lambda>c ids. if DerefEventID c \<in> set ids then ids else ids @ [DerefEventID c]) cs []"

definition candidateFuncIDs :: "Candidate list \<Rightarrow> int list" where
  "candidateFuncIDs cs = remdups (map FunctionID cs)"

definition orEmpty :: "'a list option \<Rightarrow> 'a list" where
  "orEmpty o' = (case o' of None \<Rightarrow> [] | Some xs \<Rightarrow> xs)"

definition storeResolver :: "rangeStore \<Rightarrow> resolver" where
  "storeResolver store = newReturnSummaryResolver (orEmpty (rsFunctions store)) (orEmpty (rsFiles store))"

definition resolverAnswer :: "resolver \<Rightarrow> string \<Rightarrow> bool" where
  "resolverAnswer rv name = (case nonZeroReturn rv name freshSummary of None \<Rightarrow> False | Some (b, st) \<Rightarrow> b)"

definition callOracle :: "resolver \<Rightarrow> string \<Rightarrow> interval option" where
  "callOracle rv name = (if resolverAnswer rv name then Some positiveInterval else None)"

definition storeInvariants :: "rangeStore \<Rightarrow> globalInvariants" where
  "storeInvariants store =
     (case buildGlobalInvariants (rsFiles store) (Some (storeResolver store)) freshSummary of
        None \<Rightarrow> newGlobalInvariants | Some (gi, st) \<Rightarrow> gi)"

text \<open>The function and the file of a candidate.\<close>

definition functionOf :: "rangeStore \<Rightarrow> int list \<Rightarrow> int \<Rightarrow> (dbFunction \<times> dbFile) option" where
  "functionOf store ids fid =
     (case map_of (rsFunctionsByIDs store ids) fid of
        None \<Rightarrow> None
      | Some fn \<Rightarrow> map_option (\<lambda>fl. (fn, fl)) (map_of (listFilesByID (orEmpty (rsFiles store))) (fnFileID fn)))"

definition buildFlow :: "rangeStore \<Rightarrow> int list \<Rightarrow> int \<Rightarrow> rangeFlow option" where
  "buildFlow store ids fid =
     (case functionOf store ids fid of
        None \<Rightarrow> None
      | Some (fn, fl) \<Rightarrow> analyzeRanges (bodyOf fl fn) (fnEndLine fn) (Some (callOracle (storeResolver store))))"

definition divisorText :: "(int \<times> eventProps) list \<Rightarrow> Candidate \<Rightarrow> string" where
  "divisorText evs c = (case map_of evs (DerefEventID c) of None \<Rightarrow> '''' | Some e \<Rightarrow> epDivisor e)"

definition divisorOf :: "(int \<times> eventProps) list \<Rightarrow> Candidate \<Rightarrow> string" where
  "divisorOf evs c = bareIdentVar (divisorText evs c)"

definition rawDivisor :: "(int \<times> eventProps) list \<Rightarrow> Candidate \<Rightarrow> string" where
  "rawDivisor evs c = TrimSpace (divisorText evs c)"

definition callDivisorName :: "(int \<times> eventProps) list \<Rightarrow> Candidate \<Rightarrow> string" where
  "callDivisorName evs c = callNameFromDivisorText (divisorText evs c)"

definition isDefinitelyZeroEvent :: "(int \<times> eventProps) list \<Rightarrow> Candidate \<Rightarrow> bool" where
  "isDefinitelyZeroEvent evs c = (case map_of evs (DerefEventID c) of None \<Rightarrow> False | Some e \<Rightarrow> epDefinitelyZero e)"


section \<open>The two passes\<close>

definition atLine :: "Candidate \<Rightarrow> string" where
  "atLine c = '' at line '' @ formatInt (Line c)"

definition confirm :: "Candidate \<Rightarrow> Candidate" where
  "confirm c = c\<lparr>SuspicionLevel := ''confirmed''\<rparr>"

text \<open>A bare divisor, by the invariants and by its interval at the line.\<close>

definition bareDecision :: "globalInvariants \<Rightarrow> rangeFlow option \<Rightarrow> string \<Rightarrow> Candidate \<Rightarrow> string + Candidate" where
  "bareDecision gi flow divisor c =
     (if invNonZero gi divisor
      then Inl (''divisor '' @ divisor @ '' is proven non-zero by a cross-function invariant'' @ atLine c)
      else let r = rangeAt flow divisor (Line c) in
        if isNonZero r then Inl (''divisor '' @ divisor @ '' is provably non-zero'' @ atLine c)
        else if isDefinitelyZero r then Inr (confirm c)
        else if \<not> isTop r then Inr (c\<lparr>DivisorInterval := intervalText r\<rparr>)
        else Inr c)"

definition complexDecision ::
  "resolver \<Rightarrow> globalInvariants \<Rightarrow> (int \<times> eventProps) list \<Rightarrow> Candidate \<Rightarrow> string + Candidate" where
  "complexDecision rv gi evs c =
     (if callDivisorName evs c \<noteq> '''' \<and> resolverAnswer rv (callDivisorName evs c)
      then Inl (''divisor '' @ callDivisorName evs c @ ''() provably returns non-zero'' @ atLine c)
      else if rawDivisor evs c \<noteq> '''' \<and> invNonZero gi (rawDivisor evs c)
      then Inl (''divisor '' @ rawDivisor evs c @ '' is proven non-zero by a cross-function invariant'' @ atLine c)
      else Inr c)"

definition rangeDecision ::
  "resolver \<Rightarrow> globalInvariants \<Rightarrow> (int \<Rightarrow> rangeFlow option) \<Rightarrow> (int \<times> eventProps) list \<Rightarrow> Candidate \<Rightarrow> string + Candidate" where
  "rangeDecision rv gi flows evs c =
     (if isDefinitelyZeroEvent evs c then Inr (confirm c)
      else case flows (FunctionID c) of
             None \<Rightarrow> Inr c
           | Some flow \<Rightarrow>
               if divisorOf evs c = '''' then complexDecision rv gi evs c
               else bareDecision gi (Some flow) (divisorOf evs c) c)"

definition callersText :: "int \<Rightarrow> int \<Rightarrow> string" where
  "callersText n nz = formatInt n @ '' direct call sites, '' @ formatInt nz @ '' pass non-zero constants''"

text \<open>A divisor that is a parameter, by the calls of the function.\<close>

definition paramDecision :: "callSiteResolver \<Rightarrow> dbFunction \<Rightarrow> string \<Rightarrow> nat \<Rightarrow> Candidate \<Rightarrow> string + Candidate" where
  "paramDecision sites fn divisor idx c =
     (case paramVerdict sites (fnName fn) (fnFileID fn) idx (fnIsStatic fn) of
        (zero, safe) \<Rightarrow>
          if zero then Inr (confirm c)
          else if safe \<and> fnIsStatic fn
          then Inl (''divisor '' @ divisor @ '' is a parameter every direct caller passes non-zero'' @ atLine c)
          else (case paramSummary sites (fnName fn) (fnFileID fn) idx (fnIsStatic fn) of
                  (n, nz) \<Rightarrow> Inr (if 0 < n then c\<lparr>DivisorCallers := callersText n nz\<rparr> else c)))"

definition propagateDecision ::
  "callSiteResolver \<Rightarrow> (int \<Rightarrow> (dbFunction \<times> dbFile) option) \<Rightarrow> (int \<times> eventProps) list \<Rightarrow> Candidate \<Rightarrow> string + Candidate" where
  "propagateDecision sites funs evs c =
     (if SuspicionLevel c = ''confirmed'' then Inr c
      else case funs (FunctionID c) of
             None \<Rightarrow> Inr c
           | Some (fn, fl) \<Rightarrow>
               if divisorOf evs c = '''' then Inr c
               else (case map_of (paramsFor fl fn) (divisorOf evs c) of
                       None \<Rightarrow> Inr c
                     | Some idx \<Rightarrow> paramDecision sites fn (divisorOf evs c) idx c))"

definition applyRange :: "rangeStore \<Rightarrow> Candidate list \<Rightarrow> (Candidate list \<times> Dismissed list) answer" where
  "applyRange store cs =
     (case rsEvents store (candidateEvents cs) of
        Inl e \<Rightarrow> Inl (''range: load events: '' @ e)
      | Inr evs \<Rightarrow>
          (let ids = candidateFuncIDs cs; rv = storeResolver store;
               (kept, dropped) = sift (rangeDecision rv (storeInvariants store) (buildFlow store ids) evs) ''range'' cs;
               (finalKept, dropped') =
                 sift (propagateDecision (newCallSiteResolver (rsFiles store)) (functionOf store ids) evs) ''range'' kept in
           Inr (finalKept, dropped @ dropped')))"

definition RangeFilter :: "bool \<Rightarrow> rangeStore \<Rightarrow> CandidateFilter" where
  "RangeFilter hasParser store = \<lparr>cfName = ''range'',
     cfApply = (\<lambda>cs. if \<not> hasParser then Inr (cs, []) else applyRange store cs)\<rparr>"


section \<open>The contract is met\<close>

lemma confirm_refines [simp]: "refines c (confirm c)"
  by (simp add: refines_def confirm_def identity_def)

lemma rangeDecision_contract:
  "rangeDecision rv gi flows evs c = Inr c' \<Longrightarrow> refines c c'"
  "rangeDecision rv gi flows evs c = Inl why \<Longrightarrow> why \<noteq> ''''"
  by (auto simp: rangeDecision_def complexDecision_def bareDecision_def Let_def refines_def identity_def confirm_def
      split: if_splits option.splits)

lemma propagateDecision_contract:
  "propagateDecision sites funs evs c = Inr c' \<Longrightarrow> refines c c'"
  "propagateDecision sites funs evs c = Inl why \<Longrightarrow> why \<noteq> ''''"
  by (auto simp: propagateDecision_def paramDecision_def refines_def identity_def confirm_def
      split: if_splits option.splits prod.splits)

interpretation range: filter_stage "RangeFilter hasParser store" for hasParser store
proof unfold_locales
  fix cs kept dropped assume a: "cfApply (RangeFilter hasParser store) cs = Inr (kept, dropped)"
  show "accounted {cfName (RangeFilter hasParser store)} cs kept dropped"
  proof (cases hasParser)
    case False
    with a show ?thesis by (auto simp: RangeFilter_def)
  next
    case True
    with a obtain evs where "rsEvents store (candidateEvents cs) = Inr evs"
      by (auto simp: RangeFilter_def applyRange_def split: sum.splits)
    moreover let ?d1 = "rangeDecision (storeResolver store) (storeInvariants store) (buildFlow store (candidateFuncIDs cs)) evs"
      and ?d2 = "propagateDecision (newCallSiteResolver (rsFiles store)) (functionOf store (candidateFuncIDs cs)) evs"
    obtain k1 x1 where s1: "sift ?d1 ''range'' cs = (k1, x1)" by (cases "sift ?d1 ''range'' cs")
    obtain k2 x2 where s2: "sift ?d2 ''range'' k1 = (k2, x2)" by (cases "sift ?d2 ''range'' k1")
    ultimately have "kept = k2" "dropped = x1 @ x2" using a True s1 s2 by (auto simp: RangeFilter_def applyRange_def Let_def)
    moreover have "accounted {''range''} cs k1 x1" by (rule sift_accounted [OF rangeDecision_contract s1])
    moreover have "accounted {''range''} k1 k2 x2" by (rule sift_accounted [OF propagateDecision_contract s2])
    ultimately show ?thesis using accounted_trans [of "{''range''}" cs k1 x1 "{''range''}" k2 x2] by (simp add: RangeFilter_def)
  qed
qed

end
