(* ===== verification/Range_Verdicts.thy ===== *)
theory Range_Verdicts
  imports Range_Filter
begin

text \<open>
  What the verdicts of the divide-by-zero filter are worth: in every state between two queries the resolver
  answers as from an empty memo, and a verdict by the interval of the divisor agrees with every run.
\<close>

lemma resolverAnswer_exact:
  assumes "tidyProgram rv"
  shows "resolverAnswer rv name = pureCall (provenNonZero rv) rv name"
  using nonZeroReturn_exact [OF idle_fresh [OF assms], of name] by (auto simp: resolverAnswer_def)

lemma resolverAnswer_any_state:
  assumes "idle rv st"
  shows "\<exists>st'. nonZeroReturn rv name st = Some (resolverAnswer rv name, st') \<and> idle rv st'"
proof -
  have "tidyProgram rv" using assms by (simp add: idle_def exactInv_def)
  with nonZeroReturn_exact [OF assms, of name] resolverAnswer_exact show ?thesis by simp
qed

lemma callOracle_any_state:
  assumes "idle rv st"
  shows "\<exists>st'. callResult rv name st = Some (callOracle rv name, st') \<and> idle rv st'"
proof -
  obtain st' where "nonZeroReturn rv name st = Some (resolverAnswer rv name, st')" "idle rv st'"
    using resolverAnswer_any_state [OF assms] by blast
  then show ?thesis unfolding callResult_def callOracle_def by simp
qed

lemma wholeCalls_oracle: "wholeCalls (Some (callOracle rv))"
  by (auto simp: wholeCalls_def callOracle_def wholesome_def positiveInterval_def in64_def minInt64_def maxInt64_def split: if_splits)

lemma intervals_zero:
  "isNonZero r \<Longrightarrow> inIv x r \<Longrightarrow> x \<noteq> 0"
  "isDefinitelyZero r \<Longrightarrow> inIv x r \<Longrightarrow> x = 0"
  by (auto simp: isNonZero_def isDefinitelyZero_def inIv_def)

text \<open>The runs of the function of a candidate that reach its line.\<close>

definition runAtLine :: "rangeStore \<Rightarrow> int list \<Rightarrow> Candidate \<Rightarrow> (string \<Rightarrow> int option) \<Rightarrow> bool" where
  "runAtLine store ids c val \<longleftrightarrow> (\<exists>fn fl cfg n. functionOf store ids (FunctionID c) = Some (fn, fl)
     \<and> Kind (bodyOf fl fn) = ''compound_statement'' \<and> cfg = BuildStmtCFG (bodyOf fl fn) (fnEndLine fn)
     \<and> NodeAt cfg (Line c) = Some n
     \<and> range_run cfg (buildRangeEffects cfg (Some (callOracle (storeResolver store)))) (snID n) val)"

lemma run_in_interval:
  assumes "runAtLine store ids c val" "val v = Some x"
  shows "\<exists>flow. buildFlow store ids (FunctionID c) = Some flow \<and> inIv x (rangeAt (Some flow) v (Line c))"
proof -
  obtain fn fl cfg n where r: "functionOf store ids (FunctionID c) = Some (fn, fl)" "Kind (bodyOf fl fn) = ''compound_statement''"
    "cfg = BuildStmtCFG (bodyOf fl fn) (fnEndLine fn)" "NodeAt cfg (Line c) = Some n"
    "range_run cfg (buildRangeEffects cfg (Some (callOracle (storeResolver store)))) (snID n) val"
    using assms(1) unfolding runAtLine_def by blast
  have "wf_cfg cfg" unfolding r(3) by (rule built_graph_wf)
  from rangeAt_covers [OF this wholeCalls_oracle r(5,4) assms(2)]
  show ?thesis using r by (auto simp: buildFlow_def analyzeRanges_def Let_def)
qed


text \<open>The witness: d = 7; return 1 / d; in a function of one file.\<close>

definition divBody :: Node where
  "divBody = tinyNode ''compound_statement'' ''body'' '''' 0
     [tinyNode ''expression_statement'' '''' ''d = 7;'' 1 [tinyNode ''assignment_expression'' '''' ''d = 7'' 1
        [tinyNode ''identifier'' ''left'' ''d'' 1 [], operatorLeaf ''='', tinyNode ''number_literal'' ''right'' ''7'' 1 []]],
      tinyNode ''return_statement'' '''' ''return 1 / d;'' 2 []]"

definition divFunction :: dbFunction where
  "divFunction = \<lparr>fnID = 5, fnName = ''f'', fnFileID = 1, fnStartLine = 1, fnEndLine = 3, fnIsStatic = False\<rparr>"

definition divFile :: dbFile where
  "divFile = \<lparr>dfID = 1, dfRoot = tinyNode ''translation_unit'' '''' '''' 0 [tinyNode ''function_definition'' '''' '''' 0 [divBody]]\<rparr>"

definition divStore :: rangeStore where
  "divStore = \<lparr>rsEvents = (\<lambda>ids. Inr [(9, \<lparr>epDivisor = ''d'', epDefinitelyZero = False\<rparr>)]), rsFunctions = Some [divFunction],
     rsFiles = Some [divFile], rsFunctionsByIDs = (\<lambda>ids. [(5, divFunction)])\<rparr>"

definition divCandidate :: Candidate where
  "divCandidate = \<lparr>DerefEventID = 9, FunctionID = 5, FunctionName = ''f'', VariableName = ''d'', APIName = '''',
     Category = ''divide_by_zero'', LocationID = 0, FileID = 1, Line = 3, HasDefiniteNull = False, IsReachable = False, CallChain = [],
     Callers = [], NonNullable = False, IsTypeExpr = False, SuspicionLevel = ''suspected'', GuardStrength = '''', NullOriginTier = '''',
     CallerNullDetail = '''', ChainKind = '''', ChainRoot = '''', DerefLines = [], ChainFunctions = [], ReverseFunc = '''',
     DivisorInterval = '''', DivisorCallers = '''', ClusterSites = [], Array = '''', Index = '''', Size = 0, SizeArgument = '''',
     DstCapacity = '''', CopySize = '''', BufferDefLine = 0, BufferDefKind = '''', IndexOriginLine = 0, Origin = '''', InitWrite = '''', MayFree = False, CrossFunction = False\<rparr>"

definition divEvents :: "(int \<times> eventProps) list" where
  "divEvents = [(9, \<lparr>epDivisor = ''d'', epDefinitelyZero = False\<rparr>)]"

lemma div_function: "functionOf divStore [5] 5 = Some (divFunction, divFile)" "bodyOf divFile divFunction = divBody"
  by code_simp+

lemma div_cfg:
  "cfgEntry (BuildStmtCFG divBody 3) = 0" "snSuccs (cfgNodes (BuildStmtCFG divBody 3) ! 0) = [2]"
  "snSuccs (cfgNodes (BuildStmtCFG divBody 3) ! 2) = [3]" "map_option snID (NodeAt (BuildStmtCFG divBody 3) 3) = Some 3"
  by code_simp+

lemma div_effects: "buildRangeEffects (BuildStmtCFG divBody 3) calls =
   [None, None, Some \<lparr>reAssign = [(''d'', \<lparr>ivLo = 7, ivHi = 7\<rparr>)], reCopy = [], reShift = [], reKill = []\<rparr>,
    Some \<lparr>reAssign = [], reCopy = [], reShift = [], reKill = []\<rparr>]"
  by code_simp

lemma div_run: "runAtLine divStore [5] divCandidate ((\<lambda>_. None)(''d'' := Some 7))"
proof -
  let ?cfg = "BuildStmtCFG divBody 3" and ?calls = "Some (callOracle (storeResolver divStore))"
  let ?effs = "buildRangeEffects ?cfg ?calls"
  have j: "in64 7" by (simp add: in64_def minInt64_def maxInt64_def)
  have s0: "range_run ?cfg ?effs 0 (\<lambda>_. None)" using runStart [of ?cfg ?effs] by (simp add: div_cfg)
  have s2: "range_run ?cfg ?effs 2 (\<lambda>_. None)" by (rule runStep [OF s0]) (simp_all add: div_cfg effect_result_def div_effects)
  have s3: "range_run ?cfg ?effs 3 ((\<lambda>_. None)(''d'' := Some 7))"
    by (rule runStep [OF s2]) (simp_all add: div_cfg effect_result_def div_effects justified_def j inIv_def)
  obtain n where n: "NodeAt ?cfg 3 = Some n" "snID n = 3" using div_cfg(4) by auto
  have "Kind divBody = ''compound_statement''" by (simp add: divBody_def tinyNode_def Kind_def)
  moreover have "functionOf divStore [5] (FunctionID divCandidate) = Some (divFunction, divFile)" "fnEndLine divFunction = 3"
    "Line divCandidate = 3" by (simp_all add: div_function divCandidate_def divFunction_def)
  ultimately show ?thesis using s3 n unfolding runAtLine_def by (metis div_function(2))
qed


text \<open>
  The pattern of a call only looks at the start of the divisor: the quotient by f() - 1 is judged by f, and a
  compound of two calls is dismissed when the first one never returns zero.
\<close>

lemma call_prefix_taken: "callNameFromDivisorText ''(f(x) - f(y))'' = ''f'' \<and> callNameFromDivisorText ''getpid() - getpid()'' = ''getpid''"
  by code_simp

end
