(* ===== verification/Call_Reach.thy ===== *)
theory Call_Reach
  imports Simple_Filters Planner_Program Graph_Search "HOL-Library.Char_ord" "HOL-Library.List_Lexorder"
begin

text \<open>
  The call-reach filter of internal/planner/filter_call_reach.go: the functions reachable from the entry
  points of the program over CALL edges, the concrete chain of calls to each, and the filter that drops
  what can not be reached.  Go iterates over the reachable nodes in an unspecified order when it adopts
  callers; that order is a parameter.
\<close>

section \<open>The graph layer\<close>

text \<open>
  A function node is the ID of its function and its own ID; an edge its source, its destination and the
  call line of its properties, zero when there is none.
\<close>

record callGraphStore =
  cgFunctions :: "dbFunction list answer"
  cgFunctionNodes :: "(int \<times> int) list answer"
  cgAddrTaken :: "int list answer"
  cgFiles :: "(int \<times> string) list answer"
  cgCalls :: "(int \<times> int \<times> int) list answer"

record callReachResult =
  crFuncNode :: "(int \<times> int) list"
  crEntries :: "int list"
  crReachable :: "int list"
  crNodeName :: "(int \<times> string) list"
  crNodeFile :: "(int \<times> string) list"
  crParent :: "(int \<times> int) list"
  crCallLine :: "((int \<times> int) \<times> int) list"
  crCallers :: "(int \<times> int list) list"

type_synonym adjacency = "(int \<times> int list) list"

definition neighbours :: "adjacency \<Rightarrow> int \<Rightarrow> int list" where
  "neighbours adj n = (case map_of adj n of None \<Rightarrow> [] | Some ds \<Rightarrow> ds)"

definition addNeighbour :: "int \<Rightarrow> int \<Rightarrow> adjacency \<Rightarrow> adjacency" where
  "addNeighbour s d adj = AList.update s (neighbours adj s @ [d]) adj"

definition firstNodes :: "(int \<times> int) list \<Rightarrow> (int \<times> int) list" where
  "firstNodes nodes = fold (\<lambda>(e, i) m. if map_of m e = None then AList.update e i m else m) nodes []"

definition entryNodes :: "dbFunction list \<Rightarrow> (int \<times> int) list \<Rightarrow> int list" where
  "entryNodes funcs funcNode =
     concat (map (\<lambda>fn. case map_of funcNode (fnID fn) of
                        None \<Rightarrow> [] | Some n \<Rightarrow> if fnName fn = ''main'' \<or> \<not> fnIsStatic fn then [n] else []) funcs)"

definition mainNodes :: "dbFunction list \<Rightarrow> (int \<times> int) list \<Rightarrow> int list" where
  "mainNodes funcs funcNode =
     concat (map (\<lambda>fn. case map_of funcNode (fnID fn) of
                        None \<Rightarrow> [] | Some n \<Rightarrow> if fnName fn = ''main'' then [n] else []) funcs)"

definition withAddrTaken :: "int list \<Rightarrow> int list \<Rightarrow> int list" where
  "withAddrTaken entries addrs = fold (\<lambda>a es. if a \<in> set es then es else es @ [a]) addrs entries"

definition nodeNames :: "dbFunction list \<Rightarrow> (int \<times> int) list \<Rightarrow> (int \<times> string) list" where
  "nodeNames funcs funcNode =
     fold (\<lambda>fn m. case map_of funcNode (fnID fn) of None \<Rightarrow> m | Some n \<Rightarrow> AList.update n (fnName fn) m) funcs []"

definition nodeFiles :: "dbFunction list \<Rightarrow> (int \<times> int) list \<Rightarrow> (int \<times> string) list \<Rightarrow> (int \<times> string) list" where
  "nodeFiles funcs funcNode files =
     fold (\<lambda>fn m. case map_of funcNode (fnID fn) of None \<Rightarrow> m
                 | Some n \<Rightarrow> AList.update n (case map_of (rev files) (fnFileID fn) of None \<Rightarrow> '''' | Some p \<Rightarrow> p) m) funcs []"

definition callLines :: "(int \<times> int \<times> int) list \<Rightarrow> ((int \<times> int) \<times> int) list" where
  "callLines edges = fold (\<lambda>(s, d, l) m. if 0 < l then AList.update (s, d) l m else m) edges []"


section \<open>The searches\<close>

definition discover :: "int list \<Rightarrow> int list \<times> int list \<Rightarrow> int list \<times> int list" where
  "discover dsts st = fold (\<lambda>d (seen, queue). if d \<in> set seen then (seen, queue) else (seen @ [d], queue @ [d])) dsts st"

definition adjTargets :: "adjacency \<Rightarrow> int set" where
  "adjTargets adj = \<Union>(set ` snd ` set adj)"

lemma finite_adjTargets [simp]: "finite (adjTargets adj)"
  by (simp add: adjTargets_def)

lemma neighbours_targets: "set (neighbours adj n) \<subseteq> adjTargets adj"
  by (cases "map_of adj n") (auto simp: neighbours_def adjTargets_def dest!: map_of_SomeD)

lemma discover_new:
  "\<exists>new. discover dsts (seen, queue) = (seen @ new, queue @ new) \<and> distinct new \<and> set new = set dsts - set seen"
proof (induction dsts arbitrary: seen queue)
  case Nil
  show ?case by (simp add: discover_def)
next
  case (Cons d dsts)
  show ?case
  proof (cases "d \<in> set seen")
    case True
    with Cons [of seen queue] show ?thesis by (auto simp: discover_def)
  next
    case False
    obtain new where n: "discover dsts (seen @ [d], queue @ [d]) = ((seen @ [d]) @ new, (queue @ [d]) @ new)" "distinct new"
      "set new = set dsts - set (seen @ [d])" using Cons by blast
    then show ?thesis using False by (intro exI [of _ "d # new"]) (auto simp: discover_def)
  qed
qed

lemma unseen_count:
  assumes "distinct new" "set new \<subseteq> T" "set new \<inter> S = {}" "finite T"
  shows "length new + card (T - (S \<union> set new)) = card (T - S)"
proof -
  have "T - S = (T - (S \<union> set new)) \<union> set new" using assms(2,3) by auto
  moreover have "card ((T - (S \<union> set new)) \<union> set new) = card (T - (S \<union> set new)) + card (set new)"
    by (rule card_Un_disjoint) (use assms(4) in auto)
  ultimately show ?thesis using assms(1) by (simp add: distinct_card)
qed

text \<open>The search over CALL edges from the queue; a node enters the queue when it is first seen.\<close>

function callReachLoop :: "adjacency \<Rightarrow> int list \<Rightarrow> int list \<Rightarrow> int list" where
  "callReachLoop adj [] seen = seen"
| "callReachLoop adj (n # queue) seen =
     (case discover (neighbours adj n) (seen, queue) of (seen', queue') \<Rightarrow> callReachLoop adj queue' seen')"
  by pat_completeness auto
termination
proof (relation "measure (\<lambda>(adj, queue, seen). length queue + card (adjTargets adj - set seen))")
  fix adj :: adjacency and n queue seen seen' queue'
  assume d: "(seen', queue') = discover (neighbours adj n) (seen, queue)"
  obtain new where n: "seen' = seen @ new" "queue' = queue @ new" "distinct new" "set new = set (neighbours adj n) - set seen"
    using discover_new [of "neighbours adj n" seen queue] d by auto
  have "length new + card (adjTargets adj - (set seen \<union> set new)) = card (adjTargets adj - set seen)"
    by (rule unseen_count) (use n neighbours_targets [of adj n] in auto)
  then show "((adj, queue', seen'), adj, n # queue, seen) \<in> measure (\<lambda>(adj, queue, seen). length queue + card (adjTargets adj - set seen))"
    using n by simp
qed simp

text \<open>The same search with the predecessor of each node; a root is its own predecessor.\<close>

definition adoptNew :: "int \<Rightarrow> int list \<Rightarrow> (int \<times> int) list \<times> int list \<Rightarrow> (int \<times> int) list \<times> int list" where
  "adoptNew n dsts st =
     fold (\<lambda>d (parent, queue). if map_of parent d = None then (AList.update d n parent, queue @ [d]) else (parent, queue)) dsts st"

definition rootParents :: "int list \<Rightarrow> (int \<times> int) list \<times> int list" where
  "rootParents roots =
     fold (\<lambda>r (parent, queue). if map_of parent r = None then (AList.update r r parent, queue @ [r]) else (parent, queue)) roots ([], [])"

lemma adoptNew_new:
  "\<exists>new. snd (adoptNew n dsts (parent, queue)) = queue @ new \<and> distinct new \<and> set new = set dsts - dom (map_of parent)
     \<and> map_of (fst (adoptNew n dsts (parent, queue))) = (\<lambda>d. if d \<in> set new then Some n else map_of parent d)"
proof (induction dsts arbitrary: parent queue)
  case Nil
  show ?case by (simp add: adoptNew_def)
next
  case (Cons d dsts)
  show ?case
  proof (cases "map_of parent d")
    case (Some p)
    with Cons [of parent queue] show ?thesis by (auto simp: adoptNew_def)
  next
    case None
    obtain new where n: "snd (adoptNew n dsts (AList.update d n parent, queue @ [d])) = (queue @ [d]) @ new" "distinct new"
      "set new = set dsts - dom (map_of (AList.update d n parent))"
      "map_of (fst (adoptNew n dsts (AList.update d n parent, queue @ [d])))
         = (\<lambda>e. if e \<in> set new then Some n else map_of (AList.update d n parent) e)"
      using Cons by blast
    have "d \<notin> set new" "dom (map_of (AList.update d n parent)) = insert d (dom (map_of parent))"
      using n(3) by (auto simp: update_conv')
    then show ?thesis using n None by (intro exI [of _ "d # new"]) (auto simp: adoptNew_def update_conv' fun_eq_iff)
  qed
qed

function parentLoop :: "adjacency \<Rightarrow> int list \<Rightarrow> (int \<times> int) list \<Rightarrow> (int \<times> int) list" where
  "parentLoop adj [] parent = parent"
| "parentLoop adj (n # queue) parent =
     (case adoptNew n (neighbours adj n) (parent, queue) of (parent', queue') \<Rightarrow> parentLoop adj queue' parent')"
  by pat_completeness auto
termination
proof (relation "measure (\<lambda>(adj, queue, parent). length queue + card (adjTargets adj - dom (map_of parent)))")
  fix adj :: adjacency and n queue and parent parent' :: "(int \<times> int) list" and queue'
  assume d: "(parent', queue') = adoptNew n (neighbours adj n) (parent, queue)"
  obtain new where n: "queue' = queue @ new" "distinct new" "set new = set (neighbours adj n) - dom (map_of parent)"
    "map_of parent' = (\<lambda>d. if d \<in> set new then Some n else map_of parent d)"
    using adoptNew_new [of n "neighbours adj n" parent queue] d by (metis fst_conv snd_conv)
  have dom: "dom (map_of parent') = dom (map_of parent) \<union> set new" using n(4) by (auto split: if_splits)
  have "length new + card (adjTargets adj - (dom (map_of parent) \<union> set new)) = card (adjTargets adj - dom (map_of parent))"
    by (rule unseen_count) (use n neighbours_targets [of adj n] in auto)
  then show "((adj, queue', parent'), adj, n # queue, parent)
      \<in> measure (\<lambda>(adj, queue, parent). length queue + card (adjTargets adj - dom (map_of parent)))"
    using n dom by simp
qed simp

text \<open>A reachable node that is no main function and has no chain is linked to a caller that has one.\<close>

definition hasChain :: "(int \<times> int) list \<Rightarrow> int \<Rightarrow> bool" where
  "hasChain parent nd \<longleftrightarrow> (case map_of parent nd of None \<Rightarrow> False | Some p \<Rightarrow> p \<noteq> nd)"

fun findCaller :: "int list \<Rightarrow> (int \<times> int) list \<Rightarrow> int \<Rightarrow> int list \<Rightarrow> int option" where
  "findCaller mains parent nd [] = None"
| "findCaller mains parent nd (caller # callers) =
     (if caller \<noteq> nd \<and> (hasChain parent caller \<or> caller \<in> set mains) then Some caller
      else findCaller mains parent nd callers)"

definition adoptCaller :: "int list \<Rightarrow> adjacency \<Rightarrow> int \<Rightarrow> (int \<times> int) list \<Rightarrow> (int \<times> int) list" where
  "adoptCaller mains callersOf nd parent =
     (if nd \<in> set mains then parent
      else if hasChain parent nd then parent
      else case findCaller mains parent nd (neighbours callersOf nd) of
             None \<Rightarrow> parent | Some caller \<Rightarrow> AList.update nd caller parent)"


section \<open>The result\<close>

definition buildCallReach ::
  "(int list \<Rightarrow> int list) \<Rightarrow> dbFunction list \<Rightarrow> (int \<times> int) list \<Rightarrow> int list \<Rightarrow> (int \<times> string) list \<Rightarrow> (int \<times> int \<times> int) list
     \<Rightarrow> callReachResult" where
  "buildCallReach ord funcs nodes addrs files edges =
     (let funcNode = firstNodes nodes;
          entries = withAddrTaken (entryNodes funcs funcNode) addrs;
          adj = fold (\<lambda>(s, d, l). addNeighbour s d) edges [];
          back = fold (\<lambda>(s, d, l). addNeighbour d s) edges [];
          (seen, queue) = discover entries ([], []);
          reachable = callReachLoop adj queue seen;
          mains = mainNodes funcs funcNode;
          (parent0, queue0) = rootParents (mains @ addrs);
          parent = fold (adoptCaller mains back) (ord reachable) (parentLoop adj queue0 parent0) in
      \<lparr>crFuncNode = funcNode, crEntries = entries, crReachable = reachable, crNodeName = nodeNames funcs funcNode,
       crNodeFile = nodeFiles funcs funcNode files, crParent = parent, crCallLine = callLines edges, crCallers = back\<rparr>)"

definition computeCallReach :: "(int list \<Rightarrow> int list) \<Rightarrow> callGraphStore \<Rightarrow> callReachResult answer" where
  "computeCallReach ord store =
     (case cgFunctions store of
        Inl e \<Rightarrow> Inl (''filter call reach: list functions: '' @ e)
      | Inr funcs \<Rightarrow>
          (case cgFunctionNodes store of
             Inl e \<Rightarrow> Inl (''filter call reach: list function nodes: '' @ e)
           | Inr nodes \<Rightarrow>
               (case cgAddrTaken store of
                  Inl e \<Rightarrow> Inl (''filter call reach: list addr-taken edges: '' @ e)
                | Inr addrs \<Rightarrow>
                    (case cgCalls store of
                       Inl e \<Rightarrow> Inl (''filter call reach: list call edges: '' @ e)
                     | Inr edges \<Rightarrow>
                         Inr (buildCallReach ord funcs nodes addrs (case cgFiles store of Inl e \<Rightarrow> [] | Inr fs \<Rightarrow> fs) edges)))))"

text \<open>The cache keeps a success only.\<close>

record callReachCache =
  ccDone :: bool
  ccResult :: "callReachResult answer"

definition cacheGet :: "(int list \<Rightarrow> int list) \<Rightarrow> callGraphStore \<Rightarrow> callReachCache \<Rightarrow> callReachResult answer \<times> callReachCache" where
  "cacheGet ord store cache =
     (if ccDone cache then (ccResult cache, cache)
      else let r = computeCallReach ord store in
           (r, \<lparr>ccDone = (case r of Inl e \<Rightarrow> False | Inr res \<Rightarrow> True), ccResult = r\<rparr>))"

definition nameAt :: "(int \<times> string) list \<Rightarrow> int \<Rightarrow> string" where
  "nameAt m n = (case map_of m n of None \<Rightarrow> '''' | Some s \<Rightarrow> s)"

definition maxCallChainHops :: nat where "maxCallChainHops = 64"

definition chainHop :: "callReachResult \<Rightarrow> int \<Rightarrow> int \<Rightarrow> CallChainHop" where
  "chainHop r prev nd = \<lparr>hopCaller = nameAt (crNodeName r) prev, hopCallee = nameAt (crNodeName r) nd,
     hopLine = (case map_of (crCallLine r) (prev, nd) of None \<Rightarrow> 0 | Some l \<Rightarrow> l), hopFile = nameAt (crNodeFile r) prev\<rparr>"

function chainLoop :: "callReachResult \<Rightarrow> int \<Rightarrow> int list \<Rightarrow> CallChainHop list \<Rightarrow> CallChainHop list" where
  "chainLoop r nd visited hops =
     (if nd \<in> set visited \<or> maxCallChainHops \<le> length hops then hops
      else case map_of (crParent r) nd of
             None \<Rightarrow> hops
           | Some prev \<Rightarrow> if prev = nd then hops else chainLoop r prev (nd # visited) (hops @ [chainHop r prev nd]))"
  by pat_completeness auto
termination
  by (relation "measure (\<lambda>(r, nd, visited, hops). maxCallChainHops - length hops)") auto

declare chainLoop.simps [simp del]

definition callChain :: "callReachResult \<Rightarrow> int \<Rightarrow> CallChainHop list" where
  "callChain r fid = (case map_of (crFuncNode r) fid of None \<Rightarrow> [] | Some n \<Rightarrow> rev (chainLoop r n [] []))"

definition callersOf :: "callReachResult \<Rightarrow> int \<Rightarrow> string list" where
  "callersOf r fid =
     (case map_of (crFuncNode r) fid of
        None \<Rightarrow> []
      | Some n \<Rightarrow>
          sort (remdups (filter (\<lambda>nm. nm \<noteq> '''' \<and> nm \<noteq> nameAt (crNodeName r) n)
                  (map (nameAt (crNodeName r)) (neighbours (crCallers r) n)))))"


section \<open>The filter\<close>

definition reachDecision :: "callReachResult \<Rightarrow> Candidate \<Rightarrow> string + Candidate" where
  "reachDecision r c =
     (if FunctionID c = 0 then Inr (c\<lparr>IsReachable := True\<rparr>)
      else case map_of (crFuncNode r) (FunctionID c) of
             None \<Rightarrow> Inr (c\<lparr>IsReachable := True\<rparr>)
           | Some n \<Rightarrow>
               if n \<in> set (crReachable r)
               then Inr (c\<lparr>IsReachable := True, CallChain := callChain r (FunctionID c), Callers := callersOf r (FunctionID c)\<rparr>)
               else Inl (''function '' @ FunctionName c @ '' is not reachable from an entry point''))"

definition CallReachFilter :: "callReachResult answer \<Rightarrow> CandidateFilter" where
  "CallReachFilter result = \<lparr>cfName = ''call_reach'',
     cfApply = (\<lambda>cs.
       if cs = [] then Inr (cs, [])
       else case result of Inl e \<Rightarrow> Inl e | Inr r \<Rightarrow> Inr (sift (reachDecision r) ''call_reach'' cs))\<rparr>"

interpretation call_reach: filter_stage "CallReachFilter result" for result
proof unfold_locales
  fix cs kept dropped assume a: "cfApply (CallReachFilter result) cs = Inr (kept, dropped)"
  have "refines c c'" if "reachDecision r c = Inr c'" for r c c'
    using that by (auto simp: reachDecision_def refines_def identity_def split: if_splits option.splits)
  moreover have "why \<noteq> ''''" if "reachDecision r c = Inl why" for r c why
    using that by (auto simp: reachDecision_def split: if_splits option.splits)
  ultimately have "sift (reachDecision r) ''call_reach'' cs = (kept, dropped) \<Longrightarrow> accounted {''call_reach''} cs kept dropped" for r
    using sift_accounted [of cs "reachDecision r" "''call_reach''" kept dropped] by blast
  then show "accounted {cfName (CallReachFilter result)} cs kept dropped"
    using a by (cases result) (auto simp: CallReachFilter_def split: if_splits)
qed

end
