(* ===== verification/Call_Reach_Facts.thy ===== *)
theory Call_Reach_Facts
  imports Call_Reach
begin

text \<open>
  What the call-reach filter decides: a candidate is dropped exactly when no entry point reaches its
  function over CALL edges, and the chain it shows is a path of real calls, whatever the order in
  which Go iterates over the reachable nodes.
\<close>

section \<open>The graph\<close>

definition callRel :: "(int \<times> int \<times> int) list \<Rightarrow> (int \<times> int) set" where
  "callRel edges = {(s, d). \<exists>l. (s, d, l) \<in> set edges}"

lemma neighbours_add: "d' \<in> set (neighbours (addNeighbour s d adj) x) \<longleftrightarrow> d' \<in> set (neighbours adj x) \<or> (x = s \<and> d' = d)"
proof -
  have "neighbours (addNeighbour s d adj) s = neighbours adj s @ [d]" "x \<noteq> s \<Longrightarrow> neighbours (addNeighbour s d adj) x = neighbours adj x"
    by (simp_all add: neighbours_def addNeighbour_def update_conv)
  then show ?thesis by (cases "x = s") auto
qed

lemma callRel_iff: "(x, y) \<in> callRel edges \<longleftrightarrow> (\<exists>l. (x, y, l) \<in> set edges)"
  by (simp add: callRel_def)

lemma neighbours_forward:
  "d \<in> set (neighbours (fold (\<lambda>(s, d, l). addNeighbour s d) edges adj) x) \<longleftrightarrow> d \<in> set (neighbours adj x) \<or> (x, d) \<in> callRel edges"
proof (induction edges arbitrary: adj)
  case (Cons e edges)
  obtain s t l where "e = (s, t, l)" by (cases e)
  with Cons show ?case by (auto simp: neighbours_add callRel_iff)
qed (simp add: callRel_iff)

lemma neighbours_back:
  "s \<in> set (neighbours (fold (\<lambda>(s, d, l). addNeighbour d s) edges adj) x) \<longleftrightarrow> s \<in> set (neighbours adj x) \<or> (s, x) \<in> callRel edges"
proof (induction edges arbitrary: adj)
  case (Cons e edges)
  obtain t d l where "e = (t, d, l)" by (cases e)
  with Cons show ?case by (auto simp: neighbours_add callRel_iff)
qed (simp add: callRel_iff)

lemma neighbours_Nil [simp]: "neighbours [] x = []"
  by (simp add: neighbours_def)

text \<open>The graph of the search, with one root above the entry points.\<close>

definition callSucc :: "adjacency \<Rightarrow> int list \<Rightarrow> int option \<Rightarrow> int option list" where
  "callSucc adj entries v = (case v of None \<Rightarrow> map Some entries | Some n \<Rightarrow> map Some (neighbours adj n))"

definition callNodes :: "adjacency \<Rightarrow> int list \<Rightarrow> int option set" where
  "callNodes adj entries = insert None (Some ` (set entries \<union> adjTargets adj))"

interpretation call_graph: finite_graph "callSucc adj entries" "callNodes adj entries" for adj entries
proof unfold_locales
  show "finite (callNodes adj entries)" by (simp add: callNodes_def)
  show "set (callSucc adj entries v) \<subseteq> callNodes adj entries" for v
    using neighbours_targets [of adj] by (cases v) (auto simp: callNodes_def callSucc_def)
qed

definition callInv :: "adjacency \<Rightarrow> int list \<Rightarrow> int list \<Rightarrow> int list \<Rightarrow> bool" where
  "callInv adj entries seen queue \<longleftrightarrow>
     search_inv (callSucc adj entries) (\<lambda>_. False) None (insert None (Some ` set seen)) (Some ` set queue)"

lemma callInv_start: "discover entries ([], []) = (seen, queue) \<Longrightarrow> callInv adj entries seen queue"
proof -
  assume d: "discover entries ([], []) = (seen, queue)"
  obtain new where n: "seen = new" "queue = new" "set new = set entries"
    using discover_new [of entries "[]" "[]"] d by auto
  show ?thesis unfolding callInv_def
    by (rule call_graph.search_expand [OF call_graph.search_start, where v = None]) (use n in \<open>auto simp: callSucc_def\<close>)
qed

lemma callInv_step:
  assumes "callInv adj entries seen (n # queue)" "discover (neighbours adj n) (seen, queue) = (seen', queue')"
  shows "callInv adj entries seen' queue'"
proof -
  obtain new where n: "seen' = seen @ new" "queue' = queue @ new" "set new = set (neighbours adj n) - set seen"
    using discover_new [of "neighbours adj n" seen queue] assms(2) by auto
  have "set queue \<subseteq> set seen" using assms(1) by (auto simp: callInv_def search_inv_def)
  then show ?thesis unfolding callInv_def
    by (intro call_graph.search_expand [OF assms(1) [unfolded callInv_def], where v = "Some n"])
      (use n in \<open>auto simp: callSucc_def\<close>)
qed

lemma callInv_loop: "callInv adj entries seen queue \<Longrightarrow> callInv adj entries (callReachLoop adj queue seen) []"
proof (induction adj queue seen rule: callReachLoop.induct)
  case (2 adj n queue seen)
  obtain seen' queue' where d: "discover (neighbours adj n) (seen, queue) = (seen', queue')" by (cases "discover (neighbours adj n) (seen, queue)")
  with callInv_step [OF 2(2) d] 2(1) show ?case by simp
qed simp

lemma reach_callRel:
  assumes "\<And>x d. d \<in> set (neighbours adj x) \<longleftrightarrow> (x, d) \<in> callRel edges"
  shows "reach_avoiding (callSucc adj entries) (\<lambda>_. False) None (Some n) \<longleftrightarrow> (\<exists>e \<in> set entries. (e, n) \<in> (callRel edges)\<^sup>*)"
proof
  have "reach_avoiding (callSucc adj entries) (\<lambda>_. False) None v \<Longrightarrow> \<forall>n. v = Some n \<longrightarrow> (\<exists>e \<in> set entries. (e, n) \<in> (callRel edges)\<^sup>*)" for v
  proof (induction rule: reach_avoiding.induct)
    case (further b c)
    show ?case
    proof (intro allI impI)
      fix n assume "c = Some n"
      then show "\<exists>e \<in> set entries. (e, n) \<in> (callRel edges)\<^sup>*"
        using further assms by (cases b) (auto simp: callSucc_def intro: rtrancl_into_rtrancl)
    qed
  qed simp
  then show "reach_avoiding (callSucc adj entries) (\<lambda>_. False) None (Some n) \<Longrightarrow> \<exists>e \<in> set entries. (e, n) \<in> (callRel edges)\<^sup>*" by blast
next
  assume "\<exists>e \<in> set entries. (e, n) \<in> (callRel edges)\<^sup>*"
  then obtain e where e: "e \<in> set entries" "(e, n) \<in> (callRel edges)\<^sup>*" by blast
  from e(2) show "reach_avoiding (callSucc adj entries) (\<lambda>_. False) None (Some n)"
  proof (induction rule: rtrancl_induct)
    case base
    then show ?case by (rule reach_avoiding.further [OF reach_avoiding.here]) (use e(1) in \<open>auto simp: callSucc_def\<close>)
  next
    case (step y z)
    then show ?case by (intro reach_avoiding.further [OF step.IH]) (use assms in \<open>auto simp: callSucc_def\<close>)
  qed
qed

text \<open>The entry points: main, every function that is not static, and every function whose address is taken.\<close>

definition entryPoint :: "dbFunction list \<Rightarrow> (int \<times> int) list \<Rightarrow> int list \<Rightarrow> int \<Rightarrow> bool" where
  "entryPoint funcs nodes addrs e \<longleftrightarrow> e \<in> set addrs
     \<or> (\<exists>fn \<in> set funcs. map_of (firstNodes nodes) (fnID fn) = Some e \<and> (fnName fn = ''main'' \<or> \<not> fnIsStatic fn))"

lemma set_withAddrTaken: "set (withAddrTaken entries addrs) = set entries \<union> set addrs"
  unfolding withAddrTaken_def by (induction addrs arbitrary: entries) auto

lemma set_entryNodes: "e \<in> set (entryNodes funcs funcNode) \<longleftrightarrow>
   (\<exists>fn \<in> set funcs. map_of funcNode (fnID fn) = Some e \<and> (fnName fn = ''main'' \<or> \<not> fnIsStatic fn))"
proof -
  have "e \<in> set (case m of None \<Rightarrow> [] | Some n \<Rightarrow> if P then [n] else []) \<longleftrightarrow> m = Some e \<and> P" for m P
    by (cases m) auto
  then show ?thesis by (simp add: entryNodes_def)
qed

lemma entries_entryPoint: "e \<in> set (withAddrTaken (entryNodes funcs (firstNodes nodes)) addrs) \<longleftrightarrow> entryPoint funcs nodes addrs e"
  by (simp add: set_withAddrTaken set_entryNodes entryPoint_def disj_commute)

lemma buildCallReach_fields:
  "crFuncNode (buildCallReach ord funcs nodes addrs files edges) = firstNodes nodes"
  "crEntries (buildCallReach ord funcs nodes addrs files edges) = withAddrTaken (entryNodes funcs (firstNodes nodes)) addrs"
  by (simp_all add: buildCallReach_def Let_def split: prod.split)

lemma buildCallReach_reachable:
  "n \<in> set (crReachable (buildCallReach ord funcs nodes addrs files edges))
     \<longleftrightarrow> (\<exists>e. entryPoint funcs nodes addrs e \<and> (e, n) \<in> (callRel edges)\<^sup>*)"
proof -
  let ?adj = "fold (\<lambda>(s, d, l). addNeighbour s d) edges []"
  let ?en = "withAddrTaken (entryNodes funcs (firstNodes nodes)) addrs"
  obtain seen queue where d: "discover ?en ([], []) = (seen, queue)" by (cases "discover ?en ([], [])")
  have r: "crReachable (buildCallReach ord funcs nodes addrs files edges) = callReachLoop ?adj queue seen"
    by (simp add: buildCallReach_def Let_def d split: prod.split)
  have "insert None (Some ` set (callReachLoop ?adj queue seen)) = {v. reach_avoiding (callSucc ?adj ?en) (\<lambda>_. False) None v}"
    by (rule call_graph.search_done)
      (use callInv_loop [OF callInv_start [OF d], of ?adj] in \<open>simp add: callInv_def\<close>)
  then have "n \<in> set (callReachLoop ?adj queue seen) \<longleftrightarrow> reach_avoiding (callSucc ?adj ?en) (\<lambda>_. False) None (Some n)" by (auto simp: set_eq_iff)
  also have "\<dots> \<longleftrightarrow> (\<exists>e \<in> set ?en. (e, n) \<in> (callRel edges)\<^sup>*)" by (rule reach_callRel) (simp add: neighbours_forward)
  finally show ?thesis unfolding r entries_entryPoint Bex_def .
qed

text \<open>C5: the call-reach filter drops a candidate exactly when its function has a node in the graph and no entry
  point, which is main, a function that is not static or one whose address is taken, reaches that node
  over the CALL edges; a candidate outside every function or without a node is kept.\<close>

theorem call_reach_exact:
  assumes "cgFunctions store = Inr funcs" and "cgFunctionNodes store = Inr nodes" and "cgAddrTaken store = Inr addrs"
    and "cgCalls store = Inr edges" and "computeCallReach ord store = Inr r"
  shows "(\<exists>why. reachDecision r c = Inl why) \<longleftrightarrow>
    FunctionID c \<noteq> 0 \<and> (\<exists>n. map_of (firstNodes nodes) (FunctionID c) = Some n
      \<and> (\<forall>e. entryPoint funcs nodes addrs e \<longrightarrow> (e, n) \<notin> (callRel edges)\<^sup>*))"
proof -
  obtain files where r: "r = buildCallReach ord funcs nodes addrs files edges"
    using assms by (auto simp: computeCallReach_def)
  show ?thesis
    unfolding reachDecision_def r buildCallReach_fields buildCallReach_reachable by (auto split: option.splits)
qed


section \<open>Chains\<close>

definition realParents :: "(int \<times> int \<times> int) list \<Rightarrow> (int \<times> int) list \<Rightarrow> bool" where
  "realParents edges parent \<longleftrightarrow> (\<forall>d p. map_of parent d = Some p \<longrightarrow> p \<noteq> d \<longrightarrow> (p, d) \<in> callRel edges)"

lemma rootParents_self:
  "\<forall>d p. map_of (fst (rootParents roots)) d = Some p \<longrightarrow> p = d"
  unfolding rootParents_def
proof (rule fold_keeps_set [where P = "\<lambda>st. \<forall>d p. map_of (fst st) d = Some p \<longrightarrow> p = d"])
  fix r :: int and st :: "(int \<times> int) list \<times> int list"
  assume "\<forall>d p. map_of (fst st) d = Some p \<longrightarrow> p = d"
  then show "\<forall>d p. map_of (fst (case st of (parent, queue) \<Rightarrow>
      if map_of parent r = None then (AList.update r r parent, queue @ [r]) else (parent, queue))) d = Some p \<longrightarrow> p = d"
    by (auto simp: update_conv' split: prod.splits if_splits)
qed simp

lemma parentLoop_real:
  "(\<And>x d. d \<in> set (neighbours adj x) \<Longrightarrow> (x, d) \<in> callRel edges) \<Longrightarrow> realParents edges parent \<Longrightarrow> realParents edges (parentLoop adj queue parent)"
proof (induction adj queue parent rule: parentLoop.induct)
  case (2 adj n queue parent)
  obtain parent' queue' where a: "adoptNew n (neighbours adj n) (parent, queue) = (parent', queue')"
    by (cases "adoptNew n (neighbours adj n) (parent, queue)")
  obtain new where n: "set new = set (neighbours adj n) - dom (map_of parent)"
    "map_of parent' = (\<lambda>d. if d \<in> set new then Some n else map_of parent d)"
    using adoptNew_new [of n "neighbours adj n" parent queue] a by auto
  have "realParents edges parent'" using 2(2) [of _ n] 2(3) n by (auto simp: realParents_def split: if_splits)
  with 2(1) [OF a [symmetric] 2(2)] a show ?case by simp
qed simp

lemma findCaller_in: "findCaller mains parent nd callers = Some c \<Longrightarrow> c \<in> set callers \<and> c \<noteq> nd"
  by (induction callers) (auto split: if_splits)

lemma adoptCaller_real:
  assumes "\<And>x s. s \<in> set (neighbours backward x) \<Longrightarrow> (s, x) \<in> callRel edges" "realParents edges parent"
  shows "realParents edges (adoptCaller mains backward nd parent)"
  using assms(2) findCaller_in [of mains parent nd "neighbours backward nd"] assms(1) [of _ nd]
  by (auto simp: adoptCaller_def realParents_def update_conv' split: option.splits if_splits)

lemma buildCallReach_parents: "realParents edges (crParent (buildCallReach ord funcs nodes addrs files edges))"
proof -
  let ?adj = "fold (\<lambda>(s, d, l). addNeighbour s d) edges []" and ?backward = "fold (\<lambda>(s, d, l). addNeighbour d s) edges []"
  let ?mains = "mainNodes funcs (firstNodes nodes)"
  obtain parent0 queue0 where p0: "rootParents (?mains @ addrs) = (parent0, queue0)" by (cases "rootParents (?mains @ addrs)")
  have "realParents edges parent0" using rootParents_self [of "?mains @ addrs"] p0 by (auto simp: realParents_def)
  then have "realParents edges (parentLoop ?adj queue0 parent0)" by (rule parentLoop_real [rotated]) (simp add: neighbours_forward)
  then have "realParents edges (fold (adoptCaller ?mains ?backward) xs (parentLoop ?adj queue0 parent0))" for xs
    by (rule fold_keeps_set [where P = "realParents edges"]) (rule adoptCaller_real, simp_all add: neighbours_back)
  then show ?thesis by (simp add: buildCallReach_def Let_def p0 split: prod.split)
qed

text \<open>A path of calls, from its last function backward to its first, with the hops in between.\<close>

fun hopsOf :: "callReachResult \<Rightarrow> int list \<Rightarrow> CallChainHop list" where
  "hopsOf r (n # p # ps) = chainHop r p n # hopsOf r (p # ps)"
| "hopsOf r _ = []"

fun callPath :: "(int \<times> int \<times> int) list \<Rightarrow> int list \<Rightarrow> bool" where
  "callPath edges (n # p # ps) \<longleftrightarrow> (p, n) \<in> callRel edges \<and> callPath edges (p # ps)"
| "callPath edges _ \<longleftrightarrow> True"

lemma chainLoop_path:
  "realParents edges (crParent r) \<Longrightarrow> length hops \<le> maxCallChainHops \<Longrightarrow>
    \<exists>ns. chainLoop r nd visited hops = hops @ hopsOf r (nd # ns) \<and> callPath edges (nd # ns)
      \<and> length hops + length ns \<le> maxCallChainHops \<and> distinct (butlast (nd # ns)) \<and> set (butlast (nd # ns)) \<inter> set visited = {}"
proof (induction r nd visited hops rule: chainLoop.induct)
  case (1 r nd visited hops)
  show ?case
  proof (cases "\<exists>prev. nd \<notin> set visited \<and> length hops < maxCallChainHops \<and> map_of (crParent r) nd = Some prev \<and> prev \<noteq> nd")
    case False
    then have "chainLoop r nd visited hops = hops" by (subst chainLoop.simps) (auto split: option.split)
    then show ?thesis using 1(3) by (intro exI [of _ "[]"]) simp
  next
    case True
    then obtain prev where p: "nd \<notin> set visited" "length hops < maxCallChainHops" "map_of (crParent r) nd = Some prev" "prev \<noteq> nd" by blast
    obtain ns where n: "chainLoop r prev (nd # visited) (hops @ [chainHop r prev nd])
        = (hops @ [chainHop r prev nd]) @ hopsOf r (prev # ns)" "callPath edges (prev # ns)"
      "length (hops @ [chainHop r prev nd]) + length ns \<le> maxCallChainHops" "distinct (butlast (prev # ns))"
      "set (butlast (prev # ns)) \<inter> set (nd # visited) = {}"
      using 1(1) [OF _ p(3) p(4) 1(2)] p by auto
    have "chainLoop r nd visited hops = chainLoop r prev (nd # visited) (hops @ [chainHop r prev nd])"
      using p by (subst chainLoop.simps) simp
    moreover have "(prev, nd) \<in> callRel edges" using 1(2) p unfolding realParents_def by blast
    ultimately show ?thesis using n p by (intro exI [of _ "prev # ns"]) auto
  qed
qed

text \<open>A call chain is real.  For any order of adopting callers, the chain shown for a function is a walk of
  CALL edges that ends at the node of the function, hop by hop, with at most 64 hops and without
  calling any function twice on the way, even when the predecessors form a cycle.\<close>

theorem call_chain_real:
  assumes "cgCalls store = Inr edges" and "computeCallReach ord store = Inr r" and "map_of (crFuncNode r) fid = Some n"
  shows "\<exists>ns. callChain r fid = rev (hopsOf r (n # ns)) \<and> callPath edges (n # ns) \<and> length (callChain r fid) \<le> 64
    \<and> distinct (butlast (n # ns))"
proof -
  obtain funcs nodes addrs files where r: "r = buildCallReach ord funcs nodes addrs files edges"
    using assms(1,2) by (auto simp: computeCallReach_def split: sum.splits)
  have "realParents edges (crParent r)" unfolding r by (rule buildCallReach_parents)
  from chainLoop_path [OF this, of "[]" n "[]"] obtain ns where n: "chainLoop r n [] [] = hopsOf r (n # ns)" "callPath edges (n # ns)"
    "length ns \<le> maxCallChainHops" "distinct (butlast (n # ns))" by auto
  have "length (hopsOf r (n # ns)) = length ns" by (induction ns arbitrary: n) simp_all
  with n show ?thesis using assms(3) by (intro exI [of _ ns]) (simp add: callChain_def maxCallChainHops_def)
qed

text \<open>
  The witness: two static functions a and b that call each other, where the address of b is taken, and a third
  that nothing calls.
\<close>

definition mutualFunction :: "int \<Rightarrow> string \<Rightarrow> dbFunction" where
  "mutualFunction i name = \<lparr>fnID = i, fnName = name, fnFileID = 1, fnStartLine = 1, fnEndLine = 2, fnIsStatic = True\<rparr>"

definition mutualStore :: callGraphStore where
  "mutualStore = \<lparr>cgFunctions = Inr [mutualFunction 1 ''a'', mutualFunction 2 ''b'', mutualFunction 3 ''lone''],
     cgFunctionNodes = Inr [(1, 11), (2, 12), (3, 13)], cgAddrTaken = Inr [12], cgFiles = Inr [(1, ''m.c'')],
     cgCalls = Inr [(11, 12, 5), (12, 11, 7)]\<rparr>"

definition mutualResult :: callReachResult where
  "mutualResult = \<lparr>crFuncNode = [(1, 11), (2, 12), (3, 13)], crEntries = [12], crReachable = [12, 11],
     crNodeName = [(11, ''a''), (12, ''b''), (13, ''lone'')], crNodeFile = [(11, ''m.c''), (12, ''m.c''), (13, ''m.c'')],
     crParent = [(12, 11), (11, 12)], crCallLine = [((11, 12), 5), ((12, 11), 7)], crCallers = [(12, [11]), (11, [12])]\<rparr>"

text \<open>
  The address-taken b is a root of the chains, but the adoption only spares main functions: b is linked to its
  caller a although a is below b, and the predecessors form the cycle that the comment rules out.
\<close>

lemma adoption_cycle: "computeCallReach id mutualStore = Inr mutualResult"
  by code_simp

lemma adoption_cycle_chain:
  "callChain mutualResult 2 = [\<lparr>hopCaller = ''b'', hopCallee = ''a'', hopLine = 7, hopFile = ''m.c''\<rparr>,
     \<lparr>hopCaller = ''a'', hopCallee = ''b'', hopLine = 5, hopFile = ''m.c''\<rparr>]"
  by code_simp

theorem call_reach_exact_witness:
  "\<exists>n. map_of (firstNodes [(1, 11), (2, 12), (3, 13)]) 3 = Some n
     \<and> (\<forall>e. entryPoint [mutualFunction 1 ''a'', mutualFunction 2 ''b'', mutualFunction 3 ''lone''] [(1, 11), (2, 12), (3, 13)] [12] e
            \<longrightarrow> (e, n) \<notin> (callRel [(11, 12, 5), (12, 11, 7)])\<^sup>*)"
proof -
  have "\<exists>why. reachDecision mutualResult (plainCandidate 3 ''lone'' ''x'' 2) = Inl why"
    by (simp add: reachDecision_def mutualResult_def plainCandidate_def)
  then show ?thesis
    using call_reach_exact [of mutualStore "[mutualFunction 1 ''a'', mutualFunction 2 ''b'', mutualFunction 3 ''lone'']"
        "[(1, 11), (2, 12), (3, 13)]" "[12]" "[(11, 12, 5), (12, 11, 7)]" id mutualResult "plainCandidate 3 ''lone'' ''x'' 2"]
      adoption_cycle by (simp add: mutualStore_def plainCandidate_def)
qed

theorem call_chain_real_witness:
  "\<exists>ns. callPath [(11, 12, 5), (12, 11, 7)] (12 # ns) \<and> length (callChain mutualResult 2) \<le> 64"
proof -
  have "cgCalls mutualStore = Inr [(11, 12, 5), (12, 11, 7)]" by (simp add: mutualStore_def)
  from call_chain_real [OF this adoption_cycle, of 2 12] show ?thesis by (auto simp: mutualResult_def)
qed

end
