(* ===== verification/Lock_Order.thy ===== *)
theory Lock_Order
  imports Call_Reach Range_Filter
begin

text \<open>
  The order of locks: the builder of LOCK_ORDER edges (internal/graph/lock_order.go, nodesInRange of
  graph/helpers.go, extractCallName of graph/call_graph.go) and the filter that confirms a deadlock by a
  cycle of them (internal/planner/filter_lock_order.go).  Go iterates over maps in an unspecified order; the
  order in which the search takes neighbours, and the one in which it looks for the other function, are parameters.
\<close>

section \<open>The calls of a function\<close>

text \<open>sort.Search: the least index with the property, if it holds from some index on.\<close>

function searchLoop :: "(nat \<Rightarrow> bool) \<Rightarrow> nat \<Rightarrow> nat \<Rightarrow> nat" where
  "searchLoop f i j = (if i < j then (if f ((i + j) div 2) then searchLoop f i ((i + j) div 2) else searchLoop f (Suc ((i + j) div 2)) j) else i)"
  by pat_completeness auto
termination by (relation "measure (\<lambda>(f, i, j). j - i)") auto

declare searchLoop.simps [simp del]

definition sortSearch :: "nat \<Rightarrow> (nat \<Rightarrow> bool) \<Rightarrow> nat" where
  "sortSearch n f = searchLoop f 0 n"

definition nodesInRange :: "Node list \<Rightarrow> int \<Rightarrow> int \<Rightarrow> Node list" where
  "nodesInRange nodes start fin =
     (if fin < start then []
      else let lo = sortSearch (length nodes) (\<lambda>i. start \<le> StartLine (nodes ! i));
               hi = sortSearch (length nodes) (\<lambda>i. fin < StartLine (nodes ! i)) in
           drop lo (take hi nodes))"

definition extractCallName :: "Node \<Rightarrow> string" where
  "extractCallName n =
     (case find (\<lambda>c. Kind c = ''identifier'' \<or> Kind c = ''field_expression'') (NamedChildren n) of None \<Rightarrow> '''' | Some c \<Rightarrow> Text c)"

definition firstArgText :: "Node \<Rightarrow> string" where
  "firstArgText call =
     (case find (\<lambda>c. Kind c = ''argument_list'') (NamedChildren call) of
        None \<Rightarrow> ''''
      | Some args \<Rightarrow> (case NamedChildren args of [] \<Rightarrow> '''' | a # as \<Rightarrow> TrimPrefix (TrimSpace (Text a)) ''&''))"


section \<open>Acquisition under a held lock\<close>

definition lockCalls :: "string list" where
  "lockCalls = [''pthread_mutex_lock'', ''pthread_rwlock_wrlock'', ''EnterCriticalSection'', ''pthread_mutex_timedlock'',
     ''pthread_rwlock_rdlock'', ''pthread_spin_lock'', ''mtx_lock'', ''EnterSRWLock'']"

definition unlockCalls :: "string list" where
  "unlockCalls = [''pthread_mutex_unlock'', ''pthread_rwlock_unlock'', ''LeaveCriticalSection'', ''pthread_spin_unlock'',
     ''mtx_unlock'', ''LeaveSRWLock'']"

text \<open>A call is its name and its first argument; the state is the held locks and the edges so far.\<close>

definition lockStep :: "string \<times> string \<Rightarrow> string list \<times> (string \<times> string) list \<Rightarrow> string list \<times> (string \<times> string) list" where
  "lockStep = (\<lambda>(name, m) (held, edges).
     if m = '''' then (held, edges)
     else let (held1, edges1) = (if name \<in> set lockCalls
                then (held @ [m], edges @ map (\<lambda>h. (h, m)) (filter (\<lambda>h. h \<noteq> m) held)) else (held, edges)) in
       (if name \<in> set unlockCalls then filter (\<lambda>h. h \<noteq> m) held1 else held1, edges1))"

definition lockEdges :: "(string \<times> string) list \<Rightarrow> (string \<times> string) list" where
  "lockEdges calls = snd (fold lockStep calls ([], []))"

definition functionLocks :: "Node list \<Rightarrow> dbFunction \<Rightarrow> (string \<times> string) list" where
  "functionLocks calls f =
     map (\<lambda>call. (extractCallName call, firstArgText call)) (nodesInRange calls (fnStartLine f) (fnEndLine f))"

text \<open>The edges of a file, each with the function that holds the locks.\<close>

definition fileLockEdges :: "Node \<Rightarrow> dbFunction list \<Rightarrow> (string \<times> string \<times> string) list" where
  "fileLockEdges root funcs =
     concat (map (\<lambda>f. map (\<lambda>(h, m). (h, m, fnName f)) (lockEdges (functionLocks (FindAll ''call_expression'' root) f))) funcs)"


section \<open>The filter\<close>

record lockProps =
  lpMutexA :: string
  lpMutexB :: string
  lpTimed :: bool

record lockStore =
  lsEdges :: "(int \<times> int \<times> string) list answer"
  lsEvents :: "int list \<Rightarrow> (int \<times> lockProps) list answer"
  lsNodes :: "(int \<times> string) list option"

text \<open>The names of the nodes of a kind; a failed query gives none.\<close>

definition namesByNode :: "(int \<times> string) list option \<Rightarrow> (int \<times> string) list" where
  "namesByNode rows = (case rows of None \<Rightarrow> [] | Some ns \<Rightarrow> fold (\<lambda>(i, n) m. if n = '''' then m else AList.update i n m) ns [])"

definition lockNames :: "lockStore \<Rightarrow> (int \<times> string) list" where
  "lockNames store = namesByNode (lsNodes store)"

definition lockName :: "(int \<times> string) list \<Rightarrow> int \<Rightarrow> string" where
  "lockName names i = (case map_of names i of None \<Rightarrow> '''' | Some n \<Rightarrow> n)"

type_synonym lockAdj = "(string \<times> string list) list"

definition lockSucc :: "lockAdj \<Rightarrow> string \<Rightarrow> string list" where
  "lockSucc adj n = (case map_of adj n of None \<Rightarrow> [] | Some ms \<Rightarrow> ms)"

definition addLock :: "(int \<times> string) list \<Rightarrow> int \<times> int \<times> string \<Rightarrow> lockAdj \<Rightarrow> lockAdj" where
  "addLock names = (\<lambda>(s, d, fn) adj.
     let src = lockName names s; dst = lockName names d in
     if src = '''' \<or> dst = '''' \<or> src = dst then adj
     else if dst \<in> set (lockSucc adj src) then adj else AList.update src (lockSucc adj src @ [dst]) adj)"

definition lockGraph :: "(int \<times> string) list \<Rightarrow> (int \<times> int \<times> string) list \<Rightarrow> lockAdj" where
  "lockGraph names edges = fold (addLock names) edges []"

text \<open>The functions that hold a pair in this order.\<close>

definition edgeHolders :: "(int \<times> string) list \<Rightarrow> (int \<times> int \<times> string) list \<Rightarrow> string \<Rightarrow> string \<Rightarrow> string list" where
  "edgeHolders names edges src dst =
     remdups (map (\<lambda>(s, d, fn). fn) (filter (\<lambda>(s, d, fn). lockName names s = src \<and> lockName names d = dst \<and> src \<noteq> '''' \<and> dst \<noteq> ''''
        \<and> src \<noteq> dst \<and> fn \<noteq> '''') edges))"

definition reverseHolder :: "(string list \<Rightarrow> string list) \<Rightarrow> string list \<Rightarrow> string \<Rightarrow> string" where
  "reverseHolder ord fns self =
     (case find (\<lambda>fn. fn \<noteq> self) (ord fns) of Some fn \<Rightarrow> fn | None \<Rightarrow> (case ord fns of [] \<Rightarrow> '''' | fn # rest \<Rightarrow> fn))"

definition pushNew :: "string list \<Rightarrow> string list \<times> string list \<Rightarrow> string list \<times> string list" where
  "pushNew ms st = fold (\<lambda>m (visited, stack). if m \<in> set visited then (visited, stack) else (visited @ [m], m # stack)) ms st"

definition lockTargets :: "lockAdj \<Rightarrow> string set" where
  "lockTargets adj = \<Union>(set ` snd ` set adj)"

lemma lockSucc_targets: "set (lockSucc adj n) \<subseteq> lockTargets adj"
  by (cases "map_of adj n") (auto simp: lockSucc_def lockTargets_def dest!: map_of_SomeD)

lemma pushNew_new:
  "\<exists>new. fst (pushNew ms (visited, stack)) = visited @ new \<and> snd (pushNew ms (visited, stack)) = rev new @ stack
     \<and> distinct new \<and> set new = set ms - set visited"
proof (induction ms arbitrary: visited stack)
  case Nil
  show ?case by (simp add: pushNew_def)
next
  case (Cons m ms)
  show ?case
  proof (cases "m \<in> set visited")
    case True
    with Cons [of visited stack] show ?thesis by (auto simp: pushNew_def)
  next
    case False
    obtain new where "fst (pushNew ms (visited @ [m], m # stack)) = (visited @ [m]) @ new"
      "snd (pushNew ms (visited @ [m], m # stack)) = rev new @ m # stack" "distinct new" "set new = set ms - set (visited @ [m])"
      using Cons by blast
    then show ?thesis using False by (intro exI [of _ "m # new"]) (auto simp: pushNew_def)
  qed
qed

text \<open>The search of reachable, with ord the order in which the neighbours are taken.\<close>

function lockLoop :: "lockAdj \<Rightarrow> string \<Rightarrow> string list \<Rightarrow> string list \<Rightarrow> bool" where
  "lockLoop adj goal [] visited = False"
| "lockLoop adj goal (n # stack) visited =
     (if goal \<in> set (lockSucc adj n) then True
      else lockLoop adj goal (snd (pushNew (lockSucc adj n) (visited, stack))) (fst (pushNew (lockSucc adj n) (visited, stack))))"
  by pat_completeness auto
termination
proof (relation "measure (\<lambda>(adj, goal, stack, visited). length stack + card (lockTargets adj - set visited))")
  fix adj :: lockAdj and goal n stack visited
  obtain new where n: "fst (pushNew (lockSucc adj n) (visited, stack)) = visited @ new"
    "snd (pushNew (lockSucc adj n) (visited, stack)) = rev new @ stack" "distinct new" "set new = set (lockSucc adj n) - set visited"
    using pushNew_new by blast
  have "length new + card (lockTargets adj - (set visited \<union> set new)) = card (lockTargets adj - set visited)"
    by (rule unseen_count) (use n lockSucc_targets [of adj n] in \<open>auto simp: lockTargets_def\<close>)
  then show "((adj, goal, snd (pushNew (lockSucc adj n) (visited, stack)), fst (pushNew (lockSucc adj n) (visited, stack))),
      adj, goal, n # stack, visited) \<in> measure (\<lambda>(adj, goal, stack, visited). length stack + card (lockTargets adj - set visited))"
    using n by simp
qed simp

declare lockLoop.simps [simp del]

definition lockReachable :: "lockAdj \<Rightarrow> string \<Rightarrow> string \<Rightarrow> bool" where
  "lockReachable adj src dst \<longleftrightarrow> src = dst \<or> lockLoop adj dst [src] [src]"

definition orderedAdj :: "(string list \<Rightarrow> string list) \<Rightarrow> lockAdj \<Rightarrow> lockAdj" where
  "orderedAdj ord adj = map (\<lambda>(n, ms). (n, ord ms)) adj"

definition lockDecision ::
  "(string list \<Rightarrow> string list) \<Rightarrow> (int \<times> string) list \<Rightarrow> (int \<times> int \<times> string) list \<Rightarrow> (int \<times> lockProps) list \<Rightarrow> Candidate \<Rightarrow> Candidate" where
  "lockDecision ord names edges evs c =
     (case map_of evs (DerefEventID c) of
        None \<Rightarrow> c
      | Some p \<Rightarrow>
          if lpMutexA p = '''' \<or> lpMutexB p = '''' then c
          else let c1 = (if ReverseFunc c = ''''
                   then c\<lparr>ReverseFunc := reverseHolder ord (edgeHolders names edges (lpMutexB p) (lpMutexA p)) (FunctionName c)\<rparr> else c);
                   adj = orderedAdj ord (lockGraph names edges) in
            if lpTimed p then c1
            else if lockReachable adj (lpMutexA p) (lpMutexB p) \<and> lockReachable adj (lpMutexB p) (lpMutexA p)
            then c1\<lparr>SuspicionLevel := ''confirmed''\<rparr> else c1)"

definition LockOrderFilter :: "(string list \<Rightarrow> string list) \<Rightarrow> lockStore \<Rightarrow> CandidateFilter" where
  "LockOrderFilter ord store = \<lparr>cfName = ''lock_order'',
     cfApply = (\<lambda>cs.
       case lsEdges store of
         Inl e \<Rightarrow> Inl (''lock order: '' @ e)
       | Inr edges \<Rightarrow>
           if edges = [] then Inr (cs, [])
           else case lsEvents store (candidateEvents cs) of
                  Inl e \<Rightarrow> Inl (''lock order: load events: '' @ e)
                | Inr evs \<Rightarrow> Inr (map (lockDecision ord (lockNames store) edges evs) cs, []))\<rparr>"

lemma lockDecision_refines: "refines c (lockDecision ord names edges evs c)"
  by (auto simp: lockDecision_def Let_def refines_def identity_def split: option.splits)

interpretation lock_order: filter_stage "LockOrderFilter ord store" for ord store
  by unfold_locales (auto simp: LockOrderFilter_def lockDecision_refines intro: map_accounted split: sum.splits if_splits)

end
