(* ===== verification/Shared_Access.thy ===== *)
theory Shared_Access
  imports Lock_Order
begin

text \<open>
  Accesses to globals: the builder of GLOBAL_ACCESS edges (internal/graph/shared_access.go) and the filter that
  confirms data races by them (internal/planner/filter_shared_access.go).
\<close>

section \<open>Names of globals\<close>

definition inLines :: "dbFunction list \<Rightarrow> int \<Rightarrow> bool" where
  "inLines funcs line \<longleftrightarrow> list_ex (\<lambda>f. fnStartLine f \<le> line \<and> line \<le> fnEndLine f) funcs"

definition identifiersIn :: "Node \<Rightarrow> string list" where
  "identifiersIn n = map Text (FindAll ''identifier'' n)"

definition collectGlobalNames :: "Node \<Rightarrow> dbFunction list \<Rightarrow> string list" where
  "collectGlobalNames root funcs =
     remdups (concat (map (\<lambda>decl. concat (map (\<lambda>child.
         (if Kind child = ''identifier'' then [Text child] else []) @ identifiersIn child) (NamedChildren decl)))
       (filter (\<lambda>decl. \<not> inLines funcs (StartLine decl)) (FindAll ''declaration'' root))))"


section \<open>Accesses of a function\<close>

definition assignedNames :: "Node \<Rightarrow> string list" where
  "assignedNames a = (case NamedChildren a of [] \<Rightarrow> [] | target # rest \<Rightarrow> identifiersIn target)"

definition functionWrites :: "string list \<Rightarrow> Node \<Rightarrow> dbFunction \<Rightarrow> string list" where
  "functionWrites globals root f =
     filter (\<lambda>x. x \<in> set globals)
       (concat (map assignedNames (nodesInRange (FindAll ''assignment_expression'' root) (fnStartLine f) (fnEndLine f)))
        @ concat (map identifiersIn (nodesInRange (FindAll ''update_expression'' root) (fnStartLine f) (fnEndLine f))))"

definition functionReads :: "string list \<Rightarrow> string list \<Rightarrow> Node \<Rightarrow> dbFunction \<Rightarrow> string list" where
  "functionReads globals writes root f =
     filter (\<lambda>x. x \<in> set globals \<and> x \<notin> set writes)
       (map Text (nodesInRange (FindAll ''identifier'' root) (fnStartLine f) (fnEndLine f)))"

definition accessKind :: "string list \<Rightarrow> string list \<Rightarrow> string \<Rightarrow> string" where
  "accessKind writes reads g =
     (if g \<in> set writes \<and> g \<in> set reads then ''read_write''
      else if g \<in> set writes then ''write''
      else if g \<in> set reads then ''read''
      else '''')"

text \<open>The edges of a file: the function, the global and the access.\<close>

definition fileAccesses :: "Node \<Rightarrow> dbFunction list \<Rightarrow> (dbFunction \<times> string \<times> string) list" where
  "fileAccesses root funcs =
     (let globals = collectGlobalNames root funcs in
      concat (map (\<lambda>f.
        let writes = functionWrites globals root f; reads = functionReads globals writes root f in
        map (\<lambda>g. (f, g, accessKind writes reads g)) (filter (\<lambda>g. accessKind writes reads g \<noteq> '''') globals)) funcs))"


section \<open>The filter\<close>

record accessStore =
  asEdges :: "(int \<times> int \<times> string) list answer"
  asEvents :: "int list \<Rightarrow> (int \<times> string \<times> string) list answer"
  asFunctions :: "(int \<times> string) list option"
  asGlobals :: "(int \<times> string) list option"

definition addAccess :: "(int \<times> string) list \<Rightarrow> (int \<times> string) list \<Rightarrow> int \<times> int \<times> string
    \<Rightarrow> ((string \<times> string) \<times> string) list \<Rightarrow> ((string \<times> string) \<times> string) list" where
  "addAccess funcs globals = (\<lambda>(src, dst, access) m.
     let fn = lockName funcs src; g = lockName globals dst in
     if fn = '''' \<or> g = '''' then m else AList.update (g, fn) access m)"

definition accessByFunc :: "accessStore \<Rightarrow> (int \<times> int \<times> string) list \<Rightarrow> ((string \<times> string) \<times> string) list" where
  "accessByFunc store edges = fold (addAccess (namesByNode (asFunctions store)) (namesByNode (asGlobals store))) edges []"

definition threadAccess :: "((string \<times> string) \<times> string) list \<Rightarrow> string \<Rightarrow> string \<Rightarrow> string" where
  "threadAccess table g fn = (case map_of table (g, fn) of None \<Rightarrow> '''' | Some a \<Rightarrow> a)"

definition threadAccesses :: "((string \<times> string) \<times> string) list \<Rightarrow> string \<Rightarrow> string \<Rightarrow> string list" where
  "threadAccesses table g threads =
     filter (\<lambda>a. a \<noteq> '''') (map (\<lambda>t. threadAccess table g (TrimSpace t)) (SplitByte CHR '','' threads))"

definition racing :: "string list \<Rightarrow> bool" where
  "racing accesses \<longleftrightarrow>
     (let writers = length (filter (\<lambda>a. strContains a ''write'') accesses);
          readers = length (filter (\<lambda>a. \<not> strContains a ''write'') accesses) in
      1 \<le> writers \<and> 2 \<le> writers + readers)"

definition accessDecision :: "((string \<times> string) \<times> string) list \<Rightarrow> (int \<times> string \<times> string) list \<Rightarrow> Candidate \<Rightarrow> Candidate" where
  "accessDecision table evs c =
     (if Category c \<noteq> ''shared_data_race'' then c
      else case map_of evs (DerefEventID c) of
        None \<Rightarrow> c
      | Some (v, threads) \<Rightarrow>
          if v = '''' \<or> threads = '''' then c
          else if racing (threadAccesses table v threads) then c\<lparr>SuspicionLevel := ''confirmed''\<rparr> else c)"

definition SharedAccessFilter :: "accessStore \<Rightarrow> CandidateFilter" where
  "SharedAccessFilter store = \<lparr>cfName = ''shared_access'',
     cfApply = (\<lambda>cs.
       case asEdges store of
         Inl e \<Rightarrow> Inl (''shared access: '' @ e)
       | Inr edges \<Rightarrow>
           if edges = [] then Inr (cs, [])
           else case asEvents store (candidateEvents cs) of
                  Inl e \<Rightarrow> Inl (''shared access: load events: '' @ e)
                | Inr evs \<Rightarrow> Inr (map (accessDecision (accessByFunc store edges) evs) cs, []))\<rparr>"

lemma accessDecision_refines: "refines c (accessDecision table evs c)"
  by (auto simp: accessDecision_def refines_def identity_def split: option.splits)

interpretation shared_access: filter_stage "SharedAccessFilter store" for store
  by unfold_locales (auto simp: SharedAccessFilter_def accessDecision_refines intro: map_accounted split: sum.splits if_splits)

end
