(* ===== verification/OOB_Filter.thy ===== *)
theory OOB_Filter
  imports Range_Verdicts Const_Text
begin

text \<open>
  The filters that decide buffer candidates by intervals: range_oob (internal/planner/filter_range_oob.go)
  for an index and a capacity, buffer_range (filter_buffer_range.go) for a copy size and a destination.
\<close>

section \<open>Texts of indices\<close>

function stripOOBParens :: "string \<Rightarrow> string" where
  "stripOOBParens s =
     (if HasPrefix s ''('' \<and> HasSuffix s '')'' \<and> 2 \<le> length s then stripOOBParens (TrimSpace (butlast (tl s))) else s)"
  by pat_completeness auto
termination
proof (relation "measure length")
  fix s :: string
  assume "HasPrefix s ''('' \<and> HasSuffix s '')'' \<and> 2 \<le> length s"
  then show "(TrimSpace (butlast (tl s)), s) \<in> measure length"
    using length_trimBy [of isSpace "butlast (tl s)"] by (auto simp: TrimSpace_def)
qed simp

declare stripOOBParens.simps [simp del]

definition parseOOBConst :: "string \<Rightarrow> int option" where
  "parseOOBConst s =
     (let t = TrimRight (stripOOBParens (TrimSpace s)) ''uUlL'' in
      if t = [] then None
      else if hd t = CHR ''-'' \<or> hd t = CHR ''+''
      then (if tl t = [] then None
            else map_option (\<lambda>v. if hd t = CHR ''-'' then i64 (- v) else v) (ParseInt64 (tl t)))
      else ParseInt64 t)"

definition isBareIdent :: "string \<Rightarrow> bool" where
  "isBareIdent s \<longleftrightarrow> s \<noteq> [] \<and> isIdentStart (hd s) \<and> (\<forall>c \<in> set (tl s). isIdentCont c)"

definition stringsIndex :: "string \<Rightarrow> string \<Rightarrow> nat option" where
  "stringsIndex s sub = find (\<lambda>i. HasPrefix (drop i s) sub) [0..<Suc (length s)]"

text \<open>How an index is read: a constant, a variable, a variable and a constant, or nothing known.\<close>

datatype indexForm = IxConst int | IxVar string | IxShift string int | IxOther

definition shiftForm :: "string \<Rightarrow> string \<Rightarrow> indexForm option" where
  "shiftForm s op =
     (case stringsIndex s op of
        None \<Rightarrow> None
      | Some i \<Rightarrow>
          if i = 0 \<or> \<not> isBareIdent (TrimSpace (take i s)) then None
          else map_option (\<lambda>v. IxShift (TrimSpace (take i s)) (if op = '' - '' \<or> op = ''-'' then i64 (- v) else v))
                 (parseOOBConst (TrimSpace (drop (i + length op) s))))"

fun firstForm :: "string \<Rightarrow> string list \<Rightarrow> indexForm" where
  "firstForm s [] = IxOther"
| "firstForm s (op # ops) = (case shiftForm s op of None \<Rightarrow> firstForm s ops | Some f \<Rightarrow> f)"

definition readIndex :: "string \<Rightarrow> indexForm" where
  "readIndex text =
     (let s = TrimSpace text in
      case parseOOBConst s of
        Some v \<Rightarrow> IxConst v
      | None \<Rightarrow> if isBareIdent s then IxVar s else firstForm s ['' - '', '' + '', ''-'', ''+''])"

definition indexIntervalAt :: "rangeFlow \<Rightarrow> string \<Rightarrow> int \<Rightarrow> interval" where
  "indexIntervalAt flow text line =
     (case readIndex text of
        IxConst v \<Rightarrow> \<lparr>ivLo = v, ivHi = v\<rparr>
      | IxVar v \<Rightarrow> rangeAt (Some flow) v line
      | IxShift v d \<Rightarrow> ivShift d (rangeAt (Some flow) v line)
      | IxOther \<Rightarrow> topInterval)"


section \<open>The filter of indices\<close>

text \<open>The flow of a function, whose calls are all unknown.\<close>

definition plainFlow :: "rangeStore \<Rightarrow> int list \<Rightarrow> int \<Rightarrow> rangeFlow option" where
  "plainFlow store ids fid =
     (case functionOf store ids fid of
        None \<Rightarrow> None
      | Some (fn, fl) \<Rightarrow> analyzeRanges (bodyOf fl fn) (fnEndLine fn) None)"

definition hasIndex :: "Candidate \<Rightarrow> bool" where
  "hasIndex c \<longleftrightarrow> 0 < Size c \<and> Index c \<noteq> ''''"

text \<open>The sign for membership, in UTF-8.\<close>

definition elementOf :: string where
  "elementOf = [CHR '' '', CHR 0xE2, CHR 0x88, CHR 0x88, CHR '' '']"

definition boundsText :: "interval \<Rightarrow> string" where
  "boundsText r = ''['' @ formatInt (ivLo r) @ '','' @ formatInt (ivHi r) @ '']''"

definition indexDecision :: "(int \<Rightarrow> rangeFlow option) \<Rightarrow> Candidate \<Rightarrow> string + Candidate" where
  "indexDecision flows c =
     (case flows (FunctionID c) of
        None \<Rightarrow> Inr c
      | Some flow \<Rightarrow>
          if \<not> hasIndex c then Inr c
          else let r = indexIntervalAt flow (Index c) (Line c) in
            if Size c \<le> ivLo r then Inr (confirm c)
            else if 0 \<le> ivLo r \<and> ivHi r < Size c
            then Inl (''index '' @ Index c @ elementOf @ boundsText r @ '' fits '' @ Array c @ ''['' @ formatInt (Size c) @ '']'')
            else Inr c)"

definition RangeOOBFilter :: "bool \<Rightarrow> rangeStore \<Rightarrow> CandidateFilter" where
  "RangeOOBFilter hasParser store = \<lparr>cfName = ''range_oob'',
     cfApply = (\<lambda>cs.
       if \<not> hasParser \<or> filter hasIndex cs = [] then Inr (cs, [])
       else Inr (sift (indexDecision (\<lambda>fid. if fid \<in> set (map FunctionID (filter hasIndex cs))
                   then plainFlow store (candidateFuncIDs (filter hasIndex cs)) fid else None)) ''range_oob'' cs))\<rparr>"


section \<open>The filter of copies\<close>

text \<open>The position of the parenthesis that closes the first one.\<close>

fun closeParen :: "string \<Rightarrow> nat \<Rightarrow> int \<Rightarrow> nat option" where
  "closeParen [] i depth = None"
| "closeParen (c # cs) i depth =
     (if c = CHR ''('' then closeParen cs (Suc i) (depth + 1)
      else if c = CHR '')'' then (if depth - 1 = 0 then Some i else closeParen cs (Suc i) (depth - 1))
      else closeParen cs (Suc i) depth)"

definition dropCast :: "string \<Rightarrow> string" where
  "dropCast s =
     (if HasPrefix s ''(''
      then (case closeParen s 0 0 of
              None \<Rightarrow> s
            | Some e \<Rightarrow> if 0 < e \<and> e + 1 < length s then TrimSpace (drop (e + 1) s) else s)
      else s)"

datatype sizeForm = SzConst int | SzVar string | SzOther

definition readSize :: "string \<Rightarrow> sizeForm" where
  "readSize text =
     (let s = dropCast (TrimSpace text) in
      case ParseDecimal64 s of
        Some v \<Rightarrow> SzConst v
      | None \<Rightarrow> if HasPrefix s ''sizeof'' then SzOther else if isBareIdent s then SzVar s else SzOther)"

definition resolveIntervalExpr :: "rangeFlow \<Rightarrow> string \<Rightarrow> int \<Rightarrow> interval" where
  "resolveIntervalExpr flow text line =
     (case readSize text of
        SzConst v \<Rightarrow> \<lparr>ivLo = v, ivHi = v\<rparr>
      | SzVar v \<Rightarrow> rangeAt (Some flow) v line
      | SzOther \<Rightarrow> topInterval)"

definition hasSizes :: "Candidate \<Rightarrow> bool" where
  "hasSizes c \<longleftrightarrow> SizeArgument c \<noteq> '''' \<and> DstCapacity c \<noteq> ''''"

definition bufferDecision :: "(int \<Rightarrow> rangeFlow option) \<Rightarrow> Candidate \<Rightarrow> string + Candidate" where
  "bufferDecision flows c =
     (if \<not> hasSizes c then Inr c
      else case flows (FunctionID c) of
             None \<Rightarrow> Inr c
           | Some flow \<Rightarrow>
               let copy = resolveIntervalExpr flow (SizeArgument c) (Line c); cap = resolveIntervalExpr flow (DstCapacity c) (Line c) in
               if isTop copy \<or> isTop cap then Inr c
               else if ivHi cap < ivLo copy then Inr (confirm c)
               else if ivHi copy \<le> ivLo cap
               then Inl (''copy size '' @ SizeArgument c @ '' interval '' @ boundsText copy @ '' is within destination capacity ''
                         @ DstCapacity c @ '' interval '' @ boundsText cap)
               else Inr c)"

definition BufferRangeFilter :: "bool \<Rightarrow> rangeStore \<Rightarrow> CandidateFilter" where
  "BufferRangeFilter hasParser store = \<lparr>cfName = ''buffer_range'',
     cfApply = (\<lambda>cs.
       if \<not> hasParser \<or> filter hasSizes cs = [] then Inr (cs, [])
       else Inr (sift (bufferDecision (\<lambda>fid. if fid \<in> set (map FunctionID (filter hasSizes cs))
                   then plainFlow store (candidateFuncIDs (filter hasSizes cs)) fid else None)) ''buffer_range'' cs))\<rparr>"


section \<open>The contract is met\<close>

lemma indexDecision_contract:
  "indexDecision flows c = Inr c' \<Longrightarrow> refines c c'" "indexDecision flows c = Inl why \<Longrightarrow> why \<noteq> ''''"
  by (auto simp: indexDecision_def Let_def split: if_splits option.splits)

lemma bufferDecision_contract:
  "bufferDecision flows c = Inr c' \<Longrightarrow> refines c c'" "bufferDecision flows c = Inl why \<Longrightarrow> why \<noteq> ''''"
  by (auto simp: bufferDecision_def Let_def split: if_splits option.splits)

interpretation range_oob: filter_stage "RangeOOBFilter hasParser store" for hasParser store
proof unfold_locales
  fix cs kept dropped assume "cfApply (RangeOOBFilter hasParser store) cs = Inr (kept, dropped)"
  then show "accounted {cfName (RangeOOBFilter hasParser store)} cs kept dropped"
    by (auto simp: RangeOOBFilter_def split: if_splits intro: sift_accounted [OF indexDecision_contract])
qed

interpretation buffer_range: filter_stage "BufferRangeFilter hasParser store" for hasParser store
proof unfold_locales
  fix cs kept dropped assume "cfApply (BufferRangeFilter hasParser store) cs = Inr (kept, dropped)"
  then show "accounted {cfName (BufferRangeFilter hasParser store)} cs kept dropped"
    by (auto simp: BufferRangeFilter_def split: if_splits intro: sift_accounted [OF bufferDecision_contract])
qed


section \<open>Verdicts agree with runs\<close>

text \<open>A run of the function of a candidate up to its line, in which calls return anything.\<close>

definition plainRunAtLine :: "rangeStore \<Rightarrow> int list \<Rightarrow> Candidate \<Rightarrow> (string \<Rightarrow> int option) \<Rightarrow> bool" where
  "plainRunAtLine store ids c val \<longleftrightarrow> (\<exists>fn fl cfg n. functionOf store ids (FunctionID c) = Some (fn, fl)
     \<and> Kind (bodyOf fl fn) = ''compound_statement'' \<and> cfg = BuildStmtCFG (bodyOf fl fn) (fnEndLine fn)
     \<and> NodeAt cfg (Line c) = Some n \<and> range_run cfg (buildRangeEffects cfg None) (snID n) val)"

lemma wholeCalls_none: "wholeCalls None"
  by (simp add: wholeCalls_def)

lemma plain_run_in_interval:
  assumes "plainRunAtLine store ids c val"
  obtains flow where "plainFlow store ids (FunctionID c) = Some flow"
    "\<And>v x. val v = Some x \<Longrightarrow> inIv x (rangeAt (Some flow) v (Line c))" "\<And>v. wholesome (rangeAt (Some flow) v (Line c))"
proof -
  obtain fn fl cfg n where r: "functionOf store ids (FunctionID c) = Some (fn, fl)" "Kind (bodyOf fl fn) = ''compound_statement''"
    "cfg = BuildStmtCFG (bodyOf fl fn) (fnEndLine fn)" "NodeAt cfg (Line c) = Some n"
    "range_run cfg (buildRangeEffects cfg None) (snID n) val"
    using assms unfolding plainRunAtLine_def by blast
  have w: "wf_cfg cfg" unfolding r(3) by (rule built_graph_wf)
  let ?flow = "\<lparr>rfCfg = cfg, rfIn = runRangeDataflow cfg (buildRangeEffects cfg None)\<rparr>"
  have "plainFlow store ids (FunctionID c) = Some ?flow" using r by (simp add: plainFlow_def analyzeRanges_def Let_def)
  then show thesis by (rule that) (rule rangeAt_covers [OF w wholeCalls_none r(5,4)], assumption,
      rule rangeAt_wholesome [OF w wholeCalls_none r(4)])
qed

text \<open>What the text of an index or a size means in a run: a shift that does not leave 64 bits.\<close>

definition indexValue :: "(string \<Rightarrow> int option) \<Rightarrow> indexForm \<Rightarrow> int option" where
  "indexValue val f =
     (case f of
        IxConst v \<Rightarrow> Some v
      | IxVar v \<Rightarrow> val v
      | IxShift v d \<Rightarrow> (case val v of None \<Rightarrow> None | Some x \<Rightarrow> if in64 (x + d) then Some (x + d) else None)
      | IxOther \<Rightarrow> None)"

definition sizeValue :: "(string \<Rightarrow> int option) \<Rightarrow> sizeForm \<Rightarrow> int option" where
  "sizeValue val f = (case f of SzConst v \<Rightarrow> Some v | SzVar v \<Rightarrow> val v | SzOther \<Rightarrow> None)"

lemma parseOOBConst_in64: "parseOOBConst s = Some v \<Longrightarrow> in64 v"
  by (auto simp: parseOOBConst_def Let_def ParseInt64_in64 split: if_splits)

lemma shiftForm_in64: "shiftForm s op = Some f \<Longrightarrow> \<exists>v d. f = IxShift v d \<and> in64 d"
  by (auto simp: shiftForm_def parseOOBConst_in64 split: option.splits if_splits)

lemma firstForm_in64: "firstForm s ops = IxShift v d \<Longrightarrow> in64 d"
  by (induction s ops rule: firstForm.induct) (auto split: option.splits dest: shiftForm_in64)

lemma firstForm_shift: "firstForm s ops = IxOther \<or> (\<exists>v d. firstForm s ops = IxShift v d)"
  by (induction s ops rule: firstForm.induct) (auto split: option.splits dest: shiftForm_in64)

lemma readIndex_in64: "readIndex s = IxShift v d \<Longrightarrow> in64 d"
  by (auto simp: readIndex_def Let_def split: option.splits if_splits dest: shiftForm_in64)

lemma index_in_interval:
  assumes "\<And>v x. val v = Some x \<Longrightarrow> inIv x (rangeAt (Some flow) v line)" "\<And>v. wholesome (rangeAt (Some flow) v line)"
    and "indexValue val (readIndex s) = Some x"
  shows "inIv x (indexIntervalAt flow s line)"
proof (cases "readIndex s")
  case (IxShift v d)
  then obtain y where y: "val v = Some y" "x = y + d" "in64 (y + d)"
    using assms(3) by (auto simp: indexValue_def split: option.splits if_splits)
  show ?thesis using ivShift_sound [OF assms(2) readIndex_in64 [OF IxShift] assms(1) [OF y(1)] y(3)] IxShift y(2)
    by (simp add: indexIntervalAt_def)
qed (use assms in \<open>auto simp: indexValue_def indexIntervalAt_def inIv_def\<close>)

lemma size_in_interval:
  assumes "\<And>v x. val v = Some x \<Longrightarrow> inIv x (rangeAt (Some flow) v line)" "sizeValue val (readSize s) = Some x"
  shows "inIv x (resolveIntervalExpr flow s line)"
  using assms by (cases "readSize s") (auto simp: sizeValue_def resolveIntervalExpr_def inIv_def)


definition indexCandidate :: Candidate where
  "indexCandidate = divCandidate\<lparr>Index := ''d + 1'', Size := 10, Array := ''a''\<rparr>"

lemma div_plain_run:
  assumes "FunctionID c = 5" "Line c = 3"
  shows "plainRunAtLine divStore [5] c ((\<lambda>_. None)(''d'' := Some 7))"
proof -
  let ?cfg = "BuildStmtCFG divBody 3"
  let ?effs = "buildRangeEffects ?cfg None"
  have j: "in64 7" by (simp add: in64_def minInt64_def maxInt64_def)
  have s0: "range_run ?cfg ?effs 0 (\<lambda>_. None)" using runStart [of ?cfg ?effs] by (simp add: div_cfg)
  have s2: "range_run ?cfg ?effs 2 (\<lambda>_. None)" by (rule runStep [OF s0]) (simp_all add: div_cfg effect_result_def div_effects)
  have s3: "range_run ?cfg ?effs 3 ((\<lambda>_. None)(''d'' := Some 7))"
    by (rule runStep [OF s2]) (simp_all add: div_cfg effect_result_def div_effects justified_def j inIv_def)
  obtain n where n: "NodeAt ?cfg 3 = Some n" "snID n = 3" using div_cfg(4) by auto
  have "Kind divBody = ''compound_statement''" "fnEndLine divFunction = 3"
    by (simp_all add: divBody_def tinyNode_def Kind_def divFunction_def)
  then show ?thesis using s3 n assms div_function unfolding plainRunAtLine_def by metis
qed


text \<open>The same of copies, for sizes read as a number or a variable.\<close>

lemma copy_verdict_sound:
  assumes "plainRunAtLine store ids c val" "sizeValue val (readSize (SizeArgument c)) = Some n" "sizeValue val (readSize (DstCapacity c)) = Some m"
  shows "case bufferDecision (plainFlow store ids) c of
      Inl why \<Rightarrow> n \<le> m
    | Inr c' \<Rightarrow> SuspicionLevel c' \<noteq> SuspicionLevel c \<longrightarrow> m < n"
proof -
  obtain flow where f: "plainFlow store ids (FunctionID c) = Some flow"
    "\<And>v x. val v = Some x \<Longrightarrow> inIv x (rangeAt (Some flow) v (Line c))"
  proof (rule plain_run_in_interval [OF assms(1)])
    fix flow assume "plainFlow store ids (FunctionID c) = Some flow"
      "\<And>v x. val v = Some x \<Longrightarrow> inIv x (rangeAt (Some flow) v (Line c))"
    then show thesis by (rule that)
  qed
  have "inIv y (resolveIntervalExpr flow t (Line c))" if "sizeValue val (readSize t) = Some y" for t y
    by (rule size_in_interval [OF _ that]) (rule f(2))
  then have "inIv n (resolveIntervalExpr flow (SizeArgument c) (Line c))" "inIv m (resolveIntervalExpr flow (DstCapacity c) (Line c))"
    using assms(2,3) by simp_all
  then show ?thesis using f(1) by (auto simp: bufferDecision_def Let_def inIv_def confirm_def)
qed

text \<open>A negative size is within every capacity, although the copy takes it as a huge unsigned number.\<close>

definition copyCandidate :: "string \<Rightarrow> Candidate" where
  "copyCandidate n = divCandidate\<lparr>SizeArgument := n, DstCapacity := ''8''\<rparr>"

lemma negative_size_dismissed: "\<exists>why. bufferDecision (plainFlow divStore [5]) (copyCandidate ''-1'') = Inl why"
proof -
  have r: "readSize ''-1'' = SzConst (- 1)" "readSize ''8'' = SzConst 8" by code_simp+
  have "plainRunAtLine divStore [5] (copyCandidate ''-1'') ((\<lambda>_. None)(''d'' := Some 7))"
    by (rule div_plain_run) (simp_all add: copyCandidate_def divCandidate_def)
  then obtain flow where "plainFlow divStore [5] (FunctionID (copyCandidate ''-1'')) = Some flow"
    by (rule plain_run_in_interval)
  then show ?thesis using r
    by (simp add: bufferDecision_def hasSizes_def copyCandidate_def resolveIntervalExpr_def isTop_def minInt64_def maxInt64_def)
qed

text \<open>What looks like a cast is dropped also from a sum, and the rest is read as a constant.\<close>

lemma sum_read_as_constant: "readSize ''(n)+5'' = SzConst 5"
  by code_simp

end
