(* ===== verification/Overflow_Guards.thy ===== *)
theory Overflow_Guards
  imports OOB_Filter
begin

text \<open>
  The filters of integer overflows: int_overflow_guard (internal/planner/filter_int_overflow.go) dismisses arithmetic
  whose operands are bounded, unsigned_sub_guard (filter_unsigned_sub.go) a subtraction behind a comparison.
  The census of call sites is that of filter_taint_source_callsites.go; how it is built is not modelled.
\<close>

section \<open>Guards\<close>

definition guardMaxBound :: int where "guardMaxBound = 32768"

text \<open>fmt.Sscanf with one decimal verb: a sign and the longest run of digits, the rest of the text ignored.\<close>

definition scanDecimal :: "string \<Rightarrow> int option" where
  "scanDecimal s =
     (let neg = (s \<noteq> [] \<and> hd s = CHR ''-''); body = (if s \<noteq> [] \<and> (hd s = CHR ''-'' \<or> hd s = CHR ''+'') then tl s else s);
          ds = takeWhile isDigit body in
      ParseDecimal64 (if ds = [] then '''' else (if neg then ''-'' else '''') @ ds))"

definition parseIntLiteral :: "string \<Rightarrow> int option" where
  "parseIntLiteral s = scanDecimal (TrimRight (TrimSpace s) ''uUlL'')"

function isConstOperand :: "Node \<Rightarrow> bool" where
  "isConstOperand n =
     (Kind n = ''number_literal''
      \<or> (Kind n = ''parenthesized_expression'' \<or> Kind n = ''cast_expression'') \<and> (\<exists>c \<in> set (NamedChildren n). isConstOperand c))"
  by pat_completeness auto
termination by (relation "measure size") (simp_all add: size_NamedChildren)

declare isConstOperand.simps [simp del]

definition operandPathName :: "Node \<Rightarrow> string" where
  "operandPathName n = (if Kind n \<in> set [''identifier'', ''field_expression'', ''subscript_expression''] then Text n else '''')"

text \<open>The bound of one comparison; a constant on the left turns > and >= around, and nothing else does.\<close>

definition comparisonBound :: "string \<Rightarrow> Node \<Rightarrow> Node \<Rightarrow> (string \<times> int) list" where
  "comparisonBound op a b =
     (if isConstOperand a = isConstOperand b then []
      else let (v, k, op1) = (if isConstOperand a then (b, a, if op = ''>'' then ''<'' else if op = ''>='' then ''<='' else op) else (a, b, op)) in
        if operandPathName v = '''' then []
        else (case parseIntLiteral (Text k) of
                None \<Rightarrow> []
              | Some limit \<Rightarrow> [(operandPathName v, if op1 = ''<'' then i64 (limit - 1) else limit)]))"

function guardBounds :: "Node \<Rightarrow> (string \<times> int) list" where
  "guardBounds n =
     (if Kind n = ''parenthesized_expression'' then (case NamedChildren n of [] \<Rightarrow> [] | c # cs \<Rightarrow> guardBounds c)
      else if Kind n \<noteq> ''binary_expression'' then []
      else let op = binaryOperatorToken n in
        if op = ''&&'' then concat (map guardBounds (NamedChildren n))
        else if op \<notin> set [''<'', ''<='', ''>'', ''>=''] then []
        else (case NamedChildren n of [a, b] \<Rightarrow> comparisonBound op a b | _ \<Rightarrow> []))"
  by pat_completeness auto
termination by (relation "measure size") (auto intro: size_NamedChildren)

declare guardBounds.simps [simp del]

definition reassignedBetween :: "Node \<Rightarrow> string \<Rightarrow> int \<Rightarrow> int \<Rightarrow> bool" where
  "reassignedBetween body op start stop \<longleftrightarrow>
     list_ex (\<lambda>a. start < StartLine a \<and> StartLine a < stop
       \<and> (case NamedChildren a of [] \<Rightarrow> False | t # ts \<Rightarrow> Kind t = ''identifier'' \<and> Text t = op))
       (FindAll ''assignment_expression'' body)"

record guardSite =
  gsCond :: Node
  gsLine :: int
  gsBodyStart :: int
  gsBodyEnd :: int

definition guardSiteOf :: "string \<Rightarrow> int \<Rightarrow> Node \<Rightarrow> guardSite list" where
  "guardSiteOf field line n =
     (if line \<le> StartLine n then []
      else case (ChildByFieldName ''condition'' n, ChildByFieldName field n) of
             (Some c, Some b) \<Rightarrow> [\<lparr>gsCond = c, gsLine = StartLine n, gsBodyStart = StartLine b, gsBodyEnd = EndLine b\<rparr>]
           | _ \<Rightarrow> [])"

definition guardSites :: "Node \<Rightarrow> int \<Rightarrow> guardSite list" where
  "guardSites body line =
     concat (map (guardSiteOf ''consequence'' line) (FindAll ''if_statement'' body))
     @ concat (map (guardSiteOf ''body'' line) (FindAll ''while_statement'' body @ FindAll ''for_statement'' body))"

definition addBound :: "string \<times> int \<Rightarrow> (string \<times> int) list \<Rightarrow> (string \<times> int) list" where
  "addBound = (\<lambda>(op, b) m. case map_of m op of
     None \<Rightarrow> AList.update op b m
   | Some prev \<Rightarrow> if b < prev then AList.update op b m else m)"

definition siteBounds :: "Node \<Rightarrow> int \<Rightarrow> guardSite \<Rightarrow> (string \<times> int) list" where
  "siteBounds body line s =
     (if line < gsBodyStart s \<or> gsBodyEnd s < line then []
      else filter (\<lambda>(op, b). \<not> reassignedBetween body op (gsLine s) line) (guardBounds (gsCond s)))"

definition operandBounds :: "Node \<Rightarrow> int \<Rightarrow> (string \<times> int) list" where
  "operandBounds body line = fold addBound (concat (map (siteBounds body line) (guardSites body line))) []"


section \<open>Operands\<close>

definition cTypeKeywords :: "string list" where
  "cTypeKeywords = [''char'', ''int'', ''unsigned'', ''signed'', ''short'', ''long'', ''float'', ''double'', ''void'',
     ''const'', ''volatile'', ''static'', ''auto'', ''register'', ''extern'', ''typedef'', ''inline'',
     ''restrict'', ''struct'', ''union'', ''enum'', ''_Bool'', ''_Complex'', ''_Imaginary'', ''sizeof'']"

text \<open>What follows the closing parenthesis.\<close>

fun afterParen :: "int \<Rightarrow> string \<Rightarrow> string" where
  "afterParen depth [] = []"
| "afterParen depth (c # cs) =
     (if c = CHR ''('' then afterParen (depth + 1) cs
      else if c = CHR '')'' then (if depth - 1 = 0 then cs else afterParen (depth - 1) cs)
      else afterParen depth cs)"

lemma length_afterParen: "length (afterParen depth s) \<le> length s"
  by (induction depth s rule: afterParen.induct) auto

definition isBlank :: "char \<Rightarrow> bool" where
  "isBlank c \<longleftrightarrow> c = CHR '' '' \<or> c = CHR 0x09 \<or> c = CHR 0x0A"

text \<open>The sizeof with parentheses at the start of a text, given the character before it.\<close>

definition sizeofRest :: "char option \<Rightarrow> string \<Rightarrow> string option" where
  "sizeofRest prev s =
     (if HasPrefix s ''sizeof'' \<and> (case prev of None \<Rightarrow> True | Some c \<Rightarrow> \<not> isIdentByte c)
         \<and> (drop 6 s = [] \<or> \<not> isIdentByte (hd (drop 6 s)))
      then (case dropWhile isBlank (drop 6 s) of
              [] \<Rightarrow> None
            | c # cs \<Rightarrow> if c = CHR ''('' then Some (afterParen 0 (c # cs)) else None)
      else None)"

lemma sizeofRest_shorter: "sizeofRest prev s = Some r \<Longrightarrow> length r < length s"
proof -
  assume "sizeofRest prev s = Some r"
  then obtain c cs where r: "HasPrefix s ''sizeof''" "dropWhile isBlank (drop 6 s) = c # cs" "r = afterParen 0 (c # cs)"
    by (auto simp: sizeofRest_def split: if_splits list.splits)
  have "length (c # cs) \<le> length (drop 6 s)" using length_dropWhile_le [of isBlank "drop 6 s"] r(2) by simp
  then show ?thesis using length_afterParen [of 0 "c # cs"] r(3) by auto
qed

function stripSizeof :: "char option \<Rightarrow> string \<Rightarrow> string" where
  "stripSizeof prev [] = []"
| "stripSizeof prev (c # cs) =
     (case sizeofRest prev (c # cs) of
        Some r \<Rightarrow> CHR ''1'' # stripSizeof (Some CHR '')'') r
      | None \<Rightarrow> c # stripSizeof (Some c) cs)"
  by pat_completeness auto
termination by (relation "measure (\<lambda>(prev, s). length s)") (auto dest: sizeofRest_shorter)

definition stripSizeofTypes :: "string \<Rightarrow> string" where
  "stripSizeofTypes s = stripSizeof None s"

definition flushOperand :: "string \<Rightarrow> string list" where
  "flushOperand cur =
     (let s = TrimSpace cur in
      if s = '''' \<or> s = ''sizeof'' \<or> s \<in> set cTypeKeywords \<or> parseIntLiteral s \<noteq> None then [] else [s])"

definition isOperandBreak :: "char \<Rightarrow> bool" where
  "isOperandBreak c \<longleftrightarrow> isBlank c \<or> c \<in> set ''()*+/%,;=''"

fun operandScan :: "string \<Rightarrow> string \<Rightarrow> string list" where
  "operandScan cur [] = flushOperand cur"
| "operandScan cur (c # cs) =
     (if isOperandBreak c then flushOperand cur @ operandScan '''' cs
      else if c = CHR ''-'' then
        (case cs of
           d # ds \<Rightarrow> if d = CHR ''>'' then operandScan (cur @ ''->'') ds else flushOperand cur @ operandScan '''' cs
         | [] \<Rightarrow> flushOperand cur @ operandScan '''' cs)
      else operandScan (cur @ [c]) cs)"

definition identifiersInExpr :: "string \<Rightarrow> string list" where
  "identifiersInExpr text = operandScan '''' (stripSizeofTypes text)"


section \<open>The filter of bounded arithmetic\<close>

definition isEarlyExit :: "Node \<Rightarrow> bool" where
  "isEarlyExit stmt \<longleftrightarrow> FindFirst ''return_statement'' stmt \<noteq> None \<or> FindFirst ''goto_statement'' stmt \<noteq> None"

definition containsDivision :: "Node \<Rightarrow> bool" where
  "containsDivision n \<longleftrightarrow> list_ex (\<lambda>b. binaryOperatorToken b = ''/'') (FindAll ''binary_expression'' n)"

function unwrapParenNode :: "Node \<Rightarrow> Node" where
  "unwrapParenNode n =
     (if Kind n = ''parenthesized_expression'' then (case NamedChildren n of [] \<Rightarrow> n | c # cs \<Rightarrow> unwrapParenNode c) else n)"
  by pat_completeness auto
termination by (relation "measure size") (auto intro: size_NamedChildren)

declare unwrapParenNode.simps [simp del]

definition isOperand :: "string list \<Rightarrow> Node \<Rightarrow> bool" where
  "isOperand ops n \<longleftrightarrow> operandPathName n \<noteq> '''' \<and> operandPathName n \<in> set ops"

definition overflowGuardMatchesOperands :: "Node \<Rightarrow> string list \<Rightarrow> bool" where
  "overflowGuardMatchesOperands cond ops \<longleftrightarrow>
     (let n = unwrapParenNode cond in
      Kind n = ''binary_expression'' \<and> binaryOperatorToken n \<in> set [''>'', ''>='', ''<'', ''<='']
      \<and> (case NamedChildren n of
           [a, b] \<Rightarrow> isOperand ops a \<and> containsDivision b \<or> isOperand ops b \<and> containsDivision a
         | _ \<Rightarrow> False))"

definition hasOverflowCheckGuard :: "Node \<Rightarrow> int \<Rightarrow> string list \<Rightarrow> bool" where
  "hasOverflowCheckGuard body line ops \<longleftrightarrow>
     list_ex (\<lambda>n. StartLine n < line
       \<and> (case (ChildByFieldName ''condition'' n, ChildByFieldName ''consequence'' n) of
            (Some cond, Some cons) \<Rightarrow> isEarlyExit cons \<and> overflowGuardMatchesOperands cond ops
          | _ \<Rightarrow> False))
       (FindAll ''if_statement'' body)"

text \<open>The census of the call sites of a parameter: literal, tainted and variable arguments, and the integer constants.\<close>

record argCensus =
  acAddrTaken :: "string list"
  acShapes :: "int \<Rightarrow> nat \<Rightarrow> (int \<times> int \<times> int) option"
  acConstVals :: "int \<Rightarrow> nat \<Rightarrow> int list"

definition callerConstBound :: "argCensus \<Rightarrow> int \<Rightarrow> string \<Rightarrow> nat \<Rightarrow> int option" where
  "callerConstBound cs fid fn idx =
     (if fn \<in> set (acAddrTaken cs) then None
      else case acShapes cs fid idx of
        None \<Rightarrow> None
      | Some (literal, tainted, variable) \<Rightarrow>
          if literal = 0 \<or> tainted \<noteq> 0 \<or> variable \<noteq> 0 then None
          else if int (length (acConstVals cs fid idx)) \<noteq> literal then None
          else Some (fold max (acConstVals cs fid idx) (- 1)))"

definition compoundBody :: "rangeStore \<Rightarrow> int list \<Rightarrow> int \<Rightarrow> (dbFunction \<times> dbFile \<times> Node) option" where
  "compoundBody store ids fid =
     (case functionOf store ids fid of
        None \<Rightarrow> None
      | Some (fn, fl) \<Rightarrow> if Kind (bodyOf fl fn) = ''compound_statement'' then Some (fn, fl, bodyOf fl fn) else None)"

definition boundedByGuard :: "rangeStore \<Rightarrow> int list \<Rightarrow> Candidate \<Rightarrow> string \<Rightarrow> bool" where
  "boundedByGuard store ids c op \<longleftrightarrow>
     (case compoundBody store ids (FunctionID c) of
        None \<Rightarrow> False
      | Some (fn, fl, body) \<Rightarrow>
          (case map_of (operandBounds body (Line c)) op of None \<Rightarrow> False | Some b \<Rightarrow> 0 < b \<and> b < guardMaxBound))"

definition boundedByFlow :: "rangeStore \<Rightarrow> int list \<Rightarrow> Candidate \<Rightarrow> string \<Rightarrow> bool" where
  "boundedByFlow store ids c op \<longleftrightarrow>
     compoundBody store ids (FunctionID c) \<noteq> None
     \<and> (case plainFlow store ids (FunctionID c) of
          None \<Rightarrow> False
        | Some flow \<Rightarrow> let r = rangeAt (Some flow) op (Line c) in 0 \<le> ivLo r \<and> ivHi r < guardMaxBound)"

definition boundedByCallers :: "argCensus option \<Rightarrow> rangeStore \<Rightarrow> int list \<Rightarrow> Candidate \<Rightarrow> string \<Rightarrow> bool" where
  "boundedByCallers census store ids c op \<longleftrightarrow>
     (case (census, compoundBody store ids (FunctionID c)) of
        (Some cs, Some (fn, fl, body)) \<Rightarrow>
          (case map_of (paramsFor fl fn) op of
             None \<Rightarrow> False
           | Some idx \<Rightarrow> (case callerConstBound cs (FunctionID c) (FunctionName c) idx of None \<Rightarrow> False | Some b \<Rightarrow> b < guardMaxBound))
      | _ \<Rightarrow> False)"

definition checkedOverflow :: "rangeStore \<Rightarrow> int list \<Rightarrow> Candidate \<Rightarrow> string list \<Rightarrow> bool" where
  "checkedOverflow store ids c ops \<longleftrightarrow>
     (case compoundBody store ids (FunctionID c) of None \<Rightarrow> False | Some (fn, fl, body) \<Rightarrow> hasOverflowCheckGuard body (Line c) ops)"

text \<open>The loop over the operands; at the first one without a bound an explicit check decides.\<close>

fun allBounded :: "(string \<Rightarrow> bool) \<Rightarrow> bool \<Rightarrow> string list \<Rightarrow> bool" where
  "allBounded bounded checked [] = True"
| "allBounded bounded checked (op # ops) = (if bounded op then allBounded bounded checked ops else checked)"

definition overflowDecision :: "argCensus option \<Rightarrow> rangeStore \<Rightarrow> int list \<Rightarrow> Candidate \<Rightarrow> string + Candidate" where
  "overflowDecision census store ids c =
     (if Category c \<notin> set [''size_calc_overflow'', ''size_mul_const_overflow'', ''integer_overflow''] then Inr c
      else let ops = identifiersInExpr (VariableName c) in
        if ops = [] then Inr c
        else if allBounded (\<lambda>op. boundedByGuard store ids c op \<or> boundedByFlow store ids c op \<or> boundedByCallers census store ids c op)
                  (checkedOverflow store ids c ops) ops
        then Inl (''size operands are bounded to < '' @ formatInt guardMaxBound @ '', so the arithmetic cannot overflow'')
        else Inr c)"

definition IntOverflowGuardFilter :: "bool \<Rightarrow> argCensus option \<Rightarrow> rangeStore \<Rightarrow> CandidateFilter" where
  "IntOverflowGuardFilter hasParser census store = \<lparr>cfName = ''int_overflow_guard'',
     cfApply = (\<lambda>cs.
       if \<not> hasParser then Inr (cs, [])
       else Inr (sift (overflowDecision census store (candidateFuncIDs cs)) ''int_overflow_guard'' cs))\<rparr>"


section \<open>The filter of guarded subtractions\<close>

definition normExprText :: "string \<Rightarrow> string" where
  "normExprText s = concat (Fields s)"

definition isSubtraction :: "string \<Rightarrow> Node \<Rightarrow> bool" where
  "isSubtraction text e \<longleftrightarrow> binaryOperatorToken e = ''-'' \<and> normExprText (Text e) = normExprText text \<and> length (NamedChildren e) = 2"

definition findUnsignedSub :: "Node \<Rightarrow> string \<Rightarrow> int \<Rightarrow> Node option" where
  "findUnsignedSub body text line =
     (let es = filter (isSubtraction text) (FindAll ''binary_expression'' body) in
      case find (\<lambda>e. StartLine e = line) es of
        Some e \<Rightarrow> Some e
      | None \<Rightarrow> (case es of [] \<Rightarrow> None | e # rest \<Rightarrow> Some e))"

definition protects :: "string \<Rightarrow> string \<Rightarrow> Node \<Rightarrow> bool" where
  "protects lhs rhs condition \<longleftrightarrow>
     Kind condition = ''binary_expression''
     \<and> (case NamedChildren condition of
          [a, b] \<Rightarrow>
            (let op = binaryOperatorToken condition; left = normExprText (Text a); right = normExprText (Text b) in
             op \<in> set [''>'', ''>=''] \<and> left = rhs \<and> right = lhs \<or> op \<in> set [''<'', ''<=''] \<and> left = lhs \<and> right = rhs)
        | _ \<Rightarrow> False)"

definition unsignedSubEntryGuard :: "Node \<Rightarrow> Node \<Rightarrow> bool" where
  "unsignedSubEntryGuard body sub \<longleftrightarrow>
     (let lhs = Text (NamedChildren sub ! 0); rhs = Text (NamedChildren sub ! 1); l = bareIdentVar lhs; r = bareIdentVar rhs in
      list_ex (\<lambda>n. StartLine n < StartLine sub
        \<and> (case (ChildByFieldName ''condition'' n, ChildByFieldName ''consequence'' n) of
             (Some cond, Some cons) \<Rightarrow> isEarlyExit cons \<and> protects (normExprText lhs) (normExprText rhs) (unwrapParenNode cond)
           | _ \<Rightarrow> False)
        \<and> \<not> (l \<noteq> '''' \<and> reassignedBetween body l (StartLine n) (StartLine sub))
        \<and> \<not> (r \<noteq> '''' \<and> reassignedBetween body r (StartLine n) (StartLine sub)))
        (FindAll ''if_statement'' body))"

definition isUnsignedSub :: "Candidate \<Rightarrow> bool" where
  "isUnsignedSub c \<longleftrightarrow> Category c = ''unsigned_sub_underflow''"

definition unsignedSubDecision :: "rangeStore \<Rightarrow> int list \<Rightarrow> Candidate \<Rightarrow> string + Candidate" where
  "unsignedSubDecision store ids c =
     (if \<not> isUnsignedSub c then Inr c
      else case compoundBody store ids (FunctionID c) of
        None \<Rightarrow> Inr c
      | Some (fn, fl, body) \<Rightarrow>
          (case findUnsignedSub body (VariableName c) (Line c) of
             None \<Rightarrow> Inr c
           | Some sub \<Rightarrow>
               if unsignedSubEntryGuard body sub
               then Inl ''unsigned subtraction is protected by a preceding `consumed <= total` early-return guard''
               else Inr c))"

definition UnsignedSubGuardFilter :: "bool \<Rightarrow> rangeStore \<Rightarrow> CandidateFilter" where
  "UnsignedSubGuardFilter hasParser store = \<lparr>cfName = ''unsigned_sub_guard'',
     cfApply = (\<lambda>cs.
       if \<not> hasParser \<or> filter isUnsignedSub cs = [] then Inr (cs, [])
       else Inr (sift (unsignedSubDecision store (candidateFuncIDs (filter isUnsignedSub cs))) ''unsigned_sub_guard'' cs))\<rparr>"

lemma overflowDecision_contract:
  "overflowDecision census store ids c = Inr c' \<Longrightarrow> refines c c'" "overflowDecision census store ids c = Inl why \<Longrightarrow> why \<noteq> ''''"
  by (auto simp: overflowDecision_def Let_def split: if_splits)

lemma unsignedSubDecision_contract:
  "unsignedSubDecision store ids c = Inr c' \<Longrightarrow> refines c c'" "unsignedSubDecision store ids c = Inl why \<Longrightarrow> why \<noteq> ''''"
  by (auto simp: unsignedSubDecision_def split: if_splits option.splits)

interpretation int_overflow: filter_stage "IntOverflowGuardFilter hasParser census store" for hasParser census store
  by unfold_locales
    (auto simp: IntOverflowGuardFilter_def split: if_splits intro: sift_accounted [OF overflowDecision_contract])

interpretation unsigned_sub: filter_stage "UnsignedSubGuardFilter hasParser store" for hasParser store
  by unfold_locales
    (auto simp: UnsignedSubGuardFilter_def split: if_splits intro: sift_accounted [OF unsignedSubDecision_contract])

end
