(* ===== verification/Buffer_Flow.thy ===== *)
theory Buffer_Flow
  imports OOB_Filter
begin

text \<open>
  The filter that annotates candidates of buffer overflows (internal/planner/filter_buffer_flow.go): where the
  buffer is allocated or declared, and where the index or the size of the copy comes from.  It
  drops nothing and changes no tier.
\<close>

section \<open>Latest lines\<close>

text \<open>The loops that keep the greatest line with a property, 0 if there is none.\<close>

definition latestLine :: "(int \<Rightarrow> bool) \<Rightarrow> Node list \<Rightarrow> int" where
  "latestLine ok nodes = fold (\<lambda>n best. if ok (StartLine n) \<and> best < StartLine n then StartLine n else best) nodes 0"

definition isAllocName :: "string \<Rightarrow> bool" where
  "isAllocName name \<longleftrightarrow>
     name \<in> set [''malloc'', ''calloc'', ''realloc'', ''alloca'', ''strdup'', ''strndup'', ''xmalloc'', ''xcalloc'', ''zmalloc'',
       ''zalloc'', ''scalloc'']
     \<or> strContains name ''alloc''"

definition castCall :: "Node \<Rightarrow> Node" where
  "castCall rhs =
     (if Kind rhs = ''cast_expression''
      then (case find (\<lambda>c. Kind c = ''call_expression'') (NamedChildren rhs) of None \<Rightarrow> rhs | Some c \<Rightarrow> c) else rhs)"

definition allocates :: "string \<Rightarrow> Node \<Rightarrow> bool" where
  "allocates name n \<longleftrightarrow>
     (case AssignParts n of
        None \<Rightarrow> False
      | Some (lhs, rhs) \<Rightarrow>
          assignTargetName lhs = name \<and> Kind (castCall rhs) = ''call_expression''
          \<and> rhsCallName (castCall rhs) \<noteq> '''' \<and> isAllocName (rhsCallName (castCall rhs)))"

definition findAllocLine :: "Node \<Rightarrow> string \<Rightarrow> int \<Rightarrow> int" where
  "findAllocLine body name useLine =
     latestLine (\<lambda>l. l \<le> useLine) (filter (allocates name) (FindAll ''assignment_expression'' body @ FindAll ''init_declarator'' body))"


section \<open>Declarations\<close>

definition isNameNode :: "Node \<Rightarrow> bool" where
  "isNameNode n \<longleftrightarrow> Kind n = ''identifier'' \<or> Kind n = ''field_identifier''"

fun flowDeclChild :: "(Node \<Rightarrow> string) \<Rightarrow> Node list \<Rightarrow> string" where
  "flowDeclChild f [] = ''''"
| "flowDeclChild f (c # cs) = (if isNameNode c then Text c else if f c \<noteq> '''' then f c else flowDeclChild f cs)"

lemma flowDeclChild_cong [fundef_cong]:
  "xs = ys \<Longrightarrow> (\<And>c. c \<in> set ys \<Longrightarrow> f c = g c) \<Longrightarrow> flowDeclChild f xs = flowDeclChild g ys"
  by (induction ys arbitrary: xs) auto

function flowDeclName :: "Node \<Rightarrow> string" where
  "flowDeclName n = (if isNameNode n then Text n else flowDeclChild flowDeclName (NamedChildren n))"
  by pat_completeness auto
termination by (relation "measure size") (simp_all add: size_NamedChildren)

declare flowDeclName.simps [simp del]

definition declaresArray :: "string \<Rightarrow> Node \<Rightarrow> bool" where
  "declaresArray name decl \<longleftrightarrow> list_ex (\<lambda>ad. flowDeclName ad = name) (FindAll ''array_declarator'' decl)"

definition findArrayDeclLine :: "Node \<Rightarrow> Node \<Rightarrow> string \<Rightarrow> int \<Rightarrow> int" where
  "findArrayDeclLine body root name useLine =
     latestLine (\<lambda>l. l \<le> useLine)
       (filter (declaresArray name)
         (concat (map (FindAll ''declaration'') (filter (\<lambda>scope. Kind scope \<noteq> '''') [body, root]))))"

definition findFieldDeclLine :: "Node \<Rightarrow> string \<Rightarrow> int" where
  "findFieldDeclLine root name =
     (case find (declaresArray name) (FindAll ''field_declaration'' root) of None \<Rightarrow> 0 | Some fd \<Rightarrow> StartLine fd)"

text \<open>What follows the last occurrence of a separator.\<close>

fun afterLast :: "string \<Rightarrow> string \<Rightarrow> string option" where
  "afterLast sep [] = None"
| "afterLast sep (c # cs) =
     (case afterLast sep cs of
        Some r \<Rightarrow> Some r
      | None \<Rightarrow> if HasPrefix (c # cs) sep then Some (drop (length sep) (c # cs)) else None)"

definition fieldPart :: "string \<Rightarrow> string" where
  "fieldPart name =
     (case afterLast ''->'' name of
        Some r \<Rightarrow> TrimSpace r
      | None \<Rightarrow> (case afterLast ''.'' name of Some r \<Rightarrow> TrimSpace r | None \<Rightarrow> name))"

definition findBufferDef :: "Node \<Rightarrow> Node \<Rightarrow> string \<Rightarrow> int \<Rightarrow> int \<times> string" where
  "findBufferDef body root arrName useLine =
     (let name = TrimSpace arrName; alloc = findAllocLine body name useLine;
          arr = findArrayDeclLine body root name useLine; fld = findFieldDeclLine root (fieldPart name) in
      if 0 < alloc then (alloc, ''alloc'')
      else if 0 < arr then (arr, ''array'')
      else if 0 < fld then (fld, ''field'')
      else (0, ''''))"


section \<open>Origins\<close>

definition assigns :: "string \<Rightarrow> Node \<Rightarrow> bool" where
  "assigns v n \<longleftrightarrow> (case AssignParts n of None \<Rightarrow> False | Some (lhs, rhs) \<Rightarrow> assignTargetName lhs = v)"

definition findValueOrigin :: "Node \<Rightarrow> string \<Rightarrow> int \<Rightarrow> int" where
  "findValueOrigin body expr useLine =
     (let v = TrimSpace expr in
      if v = '''' \<or> \<not> isBareIdent v then 0
      else latestLine (\<lambda>l. l < useLine)
        (filter (\<lambda>n. declaratorName n = v) (FindAll ''init_declarator'' body)
         @ filter (assigns v) (FindAll ''assignment_expression'' body)))"

definition originExpr :: "Candidate \<Rightarrow> string" where
  "originExpr c = (if Index c \<noteq> '''' then Index c else if CopySize c \<noteq> '''' then CopySize c else SizeArgument c)"


section \<open>The filter\<close>

definition annotate :: "rangeStore \<Rightarrow> int list \<Rightarrow> Candidate \<Rightarrow> Candidate" where
  "annotate store ids c =
     (if Array c = '''' then c
      else case functionOf store ids (FunctionID c) of
        None \<Rightarrow> c
      | Some (fn, fl) \<Rightarrow>
          let body = bodyOf fl fn in
          if Kind body \<noteq> ''compound_statement'' then c
          else case findBufferDef body (dfRoot fl) (Array c) (Line c) of (line, kind) \<Rightarrow>
            c\<lparr>BufferDefLine := line, BufferDefKind := kind,
              IndexOriginLine := (if originExpr c = '''' then IndexOriginLine c else findValueOrigin body (originExpr c) (Line c))\<rparr>)"

definition BufferFlowFilter :: "bool \<Rightarrow> rangeStore \<Rightarrow> CandidateFilter" where
  "BufferFlowFilter hasParser store = \<lparr>cfName = ''buffer_flow'',
     cfApply = (\<lambda>cs.
       if \<not> hasParser \<or> cs = [] then Inr (cs, [])
       else Inr (map (annotate store (candidateFuncIDs (filter (\<lambda>c. Array c \<noteq> '''') cs))) cs, []))\<rparr>"

lemma annotate_refines: "refines c (annotate store ids c)"
  by (auto simp: annotate_def refines_def identity_def Let_def split: option.splits prod.splits)

interpretation buffer_flow: filter_stage "BufferFlowFilter hasParser store" for hasParser store
  by unfold_locales (auto simp: BufferFlowFilter_def annotate_refines intro: map_accounted split: if_splits)


section \<open>What the annotations name\<close>

lemma latestLine_from:
  assumes "fold (\<lambda>n best. if ok (StartLine n) \<and> best < StartLine n then StartLine n else best) nodes b = l"
  shows "b \<le> l \<and> (\<forall>n \<in> set nodes. ok (StartLine n) \<longrightarrow> StartLine n \<le> l) \<and> (l = b \<or> (\<exists>n \<in> set nodes. ok l \<and> StartLine n = l))"
  using assms
proof (induction nodes arbitrary: b)
  case (Cons n nodes)
  let ?b = "if ok (StartLine n) \<and> b < StartLine n then StartLine n else b"
  have "fold (\<lambda>n best. if ok (StartLine n) \<and> best < StartLine n then StartLine n else best) nodes ?b = l" using Cons.prems by simp
  from Cons.IH [OF this] show ?case by (auto split: if_splits)
qed simp

lemma latestLine_exact:
  "(\<forall>n \<in> set nodes. ok (StartLine n) \<longrightarrow> StartLine n \<le> latestLine ok nodes)
   \<and> 0 \<le> latestLine ok nodes \<and> (latestLine ok nodes = 0 \<or> (\<exists>n \<in> set nodes. ok (latestLine ok nodes) \<and> StartLine n = latestLine ok nodes))"
  using latestLine_from [where b = 0 and nodes = nodes and ok = ok, OF refl] by (auto simp: latestLine_def)

text \<open>An allocation is named only if it is one of the buffer, not after the use, and the last such; it takes precedence.\<close>

lemma alloc_annotation:
  assumes "findBufferDef body root arr line = (l, ''alloc'')"
  shows "l \<le> line \<and> (\<exists>n. allocates (TrimSpace arr) n \<and> StartLine n = l
      \<and> n \<in> set (FindAll ''assignment_expression'' body @ FindAll ''init_declarator'' body))"
proof -
  let ?ns = "filter (allocates (TrimSpace arr)) (FindAll ''assignment_expression'' body @ FindAll ''init_declarator'' body)"
  have "0 < l" "latestLine (\<lambda>l. l \<le> line) ?ns = l" using assms by (auto simp: findBufferDef_def findAllocLine_def Let_def split: if_splits)
  with latestLine_exact [where ok = "\<lambda>l. l \<le> line" and nodes = ?ns] show ?thesis by auto
qed

text \<open>The declaration is searched in the whole file, so the array of another function that lies before the use is taken
  over the one of the file, whatever is in scope.\<close>

definition twoArrays :: Node where
  "twoArrays = tinyNode ''translation_unit'' '''' '''' 0
     [tinyNode ''declaration'' '''' '''' 1 [tinyNode ''array_declarator'' '''' '''' 1 [tinyNode ''identifier'' '''' ''buf'' 1 []]],
      tinyNode ''function_definition'' '''' '''' 2 [tinyNode ''declaration'' '''' '''' 3
        [tinyNode ''array_declarator'' '''' '''' 3 [tinyNode ''identifier'' '''' ''buf'' 3 []]]],
      tinyNode ''function_definition'' '''' '''' 6 [tinyNode ''compound_statement'' '''' '''' 6 []]]"

lemma declaration_of_other_function:
  "findBufferDef (tinyNode ''compound_statement'' '''' '''' 6 []) twoArrays ''buf'' 8 = (4, ''array'')"
  by code_simp

end
