(* ===== verification/Worklist.thy ===== *)
theory Worklist
  imports CFG_Wf
begin

text \<open>
  The worklist that the forward analyses of internal/planner/null_flow.go share (the loops of runDataflow and
  runMustDataflow): one value per node, a stack of nodes that starts with all of them, and a merge that says
  whether the value of a successor changed.  The locale states what an analysis has to provide for the
  loop to end at a fixpoint; the analyses are its interpretations.
\<close>

section \<open>The loop\<close>

record 'a workState =
  wsIn :: "'a list"
  wsWork :: "nat list"
  wsQueued :: "bool list"

definition workSucc :: "('a \<Rightarrow> 'a \<Rightarrow> bool \<times> 'a) \<Rightarrow> (nat \<Rightarrow> 'a) \<Rightarrow> int \<Rightarrow> 'a workState \<Rightarrow> 'a workState" where
  "workSucc merge out succ s =
     (let m = nat succ in
      case merge (wsIn s ! m) (out m) of (changed, dst) \<Rightarrow>
        let s1 = s\<lparr>wsIn := (wsIn s)[m := dst]\<rparr> in
        if changed \<and> \<not> wsQueued s ! m then s1\<lparr>wsQueued := (wsQueued s)[m := True], wsWork := m # wsWork s\<rparr> else s1)"

fun workLoop :: "nat \<Rightarrow> ('a \<Rightarrow> 'a \<Rightarrow> bool \<times> 'a) \<Rightarrow> (nat \<Rightarrow> 'a \<Rightarrow> nat \<Rightarrow> 'a) \<Rightarrow> StmtNode list \<Rightarrow> 'a workState \<Rightarrow> 'a list option" where
  "workLoop fuel merge send nodes s =
     (case wsWork s of
        [] \<Rightarrow> Some (wsIn s)
      | n # work \<Rightarrow>
          (case fuel of
             0 \<Rightarrow> None
           | Suc k \<Rightarrow>
               workLoop k merge send nodes
                 (fold (workSucc merge (send n (wsIn s ! n))) (snSuccs (nodes ! n))
                   (s\<lparr>wsWork := work, wsQueued := (wsQueued s)[n := False]\<rparr>))))"

declare workLoop.simps [simp del]

definition startWork :: "nat \<Rightarrow> (nat \<Rightarrow> 'a) \<Rightarrow> 'a workState" where
  "startWork n init = \<lparr>wsIn = map init [0..<n], wsWork = rev [0..<n], wsQueued = replicate n True\<rparr>"

lemma workLoop_done: "wsWork s = [] \<Longrightarrow> workLoop fuel merge send nodes s = Some (wsIn s)"
  by (simp add: workLoop.simps)

lemma workLoop_step: "wsWork s = n # work \<Longrightarrow> workLoop (Suc k) merge send nodes s = workLoop k merge send nodes
    (fold (workSucc merge (send n (wsIn s ! n))) (snSuccs (nodes ! n)) (s\<lparr>wsWork := work, wsQueued := (wsQueued s)[n := False]\<rparr>))"
  by (subst workLoop.simps) simp

text \<open>The nodes in work are those marked as queued.\<close>

definition workOK :: "nat \<Rightarrow> 'a workState \<Rightarrow> bool" where
  "workOK n s \<longleftrightarrow> length (wsIn s) = n \<and> length (wsQueued s) = n \<and> distinct (wsWork s) \<and> set (wsWork s) = {i. i < n \<and> wsQueued s ! i}"

lemma startWork_ok: "workOK n (startWork n init)"
  by (auto simp: workOK_def startWork_def)

lemma workSucc_ok: "workOK n s \<Longrightarrow> nat m < n \<Longrightarrow> workOK n (workSucc merge out m s)"
  by (auto simp: workOK_def workSucc_def Let_def nth_list_update split: prod.splits)

lemma fold_workSucc_ok: "workOK n s \<Longrightarrow> \<forall>m \<in> set ms. nat m < n \<Longrightarrow> workOK n (fold (workSucc merge out) ms s)"
  by (induction ms arbitrary: s) (simp_all add: workSucc_ok)

lemma workOK_pop:
  "workOK n s \<Longrightarrow> wsWork s = i # work \<Longrightarrow> workOK n (s\<lparr>wsWork := work, wsQueued := (wsQueued s)[i := False]\<rparr>) \<and> i < n"
proof -
  assume ok: "workOK n s" and w: "wsWork s = i # work"
  have i: "i < n" "i \<notin> set work" using ok w by (auto simp: workOK_def)
  have "j \<in> set work \<longleftrightarrow> j < n \<and> (wsQueued s)[i := False] ! j" for j
  proof (cases "j = i")
    case True
    then show ?thesis using i ok by (simp add: workOK_def)
  next
    case False
    have "j \<in> set (wsWork s) \<longleftrightarrow> j < n \<and> wsQueued s ! j" using ok by (simp add: workOK_def)
    with False w show ?thesis by simp
  qed
  with ok w i show ?thesis by (auto simp: workOK_def)
qed

section \<open>What an analysis provides\<close>

locale worklist =
  fixes merge :: "'a \<Rightarrow> 'a \<Rightarrow> bool \<times> 'a"
    and send :: "nat \<Rightarrow> 'a \<Rightarrow> nat \<Rightarrow> 'a"
    and nodes :: "StmtNode list"
    and good :: "'a \<Rightarrow> bool"
    and rank :: "'a \<Rightarrow> nat"
    and below :: "'a \<Rightarrow> 'a \<Rightarrow> bool"
  assumes succs: "i < length nodes \<Longrightarrow> m \<in> set (snSuccs (nodes ! i)) \<Longrightarrow> nat m < length nodes"
    and good_send: "i < length nodes \<Longrightarrow> j < length nodes \<Longrightarrow> good a \<Longrightarrow> good (send i a j)"
    and good_merge: "good a \<Longrightarrow> good b \<Longrightarrow> good (snd (merge a b))"
    and merge_same: "good a \<Longrightarrow> good b \<Longrightarrow> \<not> fst (merge a b) \<Longrightarrow> snd (merge a b) = a"
    and merge_rank: "good a \<Longrightarrow> good b \<Longrightarrow> fst (merge a b) \<Longrightarrow> rank (snd (merge a b)) < rank a"
    and merge_below: "good a \<Longrightarrow> good b \<Longrightarrow> below b (snd (merge a b))"
    and below_merge: "good a \<Longrightarrow> good b \<Longrightarrow> below x a \<Longrightarrow> below x (snd (merge a b))"
begin

definition pot :: "'a workState \<Rightarrow> nat" where
  "pot s = length (wsWork s) + sum_list (map rank (wsIn s))"

definition allGood :: "'a workState \<Rightarrow> bool" where
  "allGood s \<longleftrightarrow> (\<forall>a \<in> set (wsIn s). good a)"

text \<open>What handing a value to the nodes of a set does.\<close>

definition passedTo :: "(nat \<Rightarrow> 'a) \<Rightarrow> nat set \<Rightarrow> 'a workState \<Rightarrow> 'a workState \<Rightarrow> bool" where
  "passedTo out A s s' \<longleftrightarrow> allGood s' \<and> pot s' \<le> pot s \<and> length (wsIn s') = length (wsIn s) \<and> length (wsQueued s') = length (wsQueued s)
     \<and> (\<forall>m < length (wsIn s). (wsQueued s ! m \<longrightarrow> wsQueued s' ! m) \<and> (wsIn s' ! m \<noteq> wsIn s ! m \<longrightarrow> wsQueued s' ! m)
         \<and> (m \<in> A \<longrightarrow> below (out m) (wsIn s' ! m)) \<and> (\<forall>x. below x (wsIn s ! m) \<longrightarrow> below x (wsIn s' ! m)))"

lemma passedTo_refl: "allGood s \<Longrightarrow> passedTo out {} s s"
  by (simp add: passedTo_def)

lemma passedTo_trans:
  assumes "passedTo out A s t" "passedTo out B t u" shows "passedTo out (A \<union> B) s u"
proof -
  have "m < length (wsIn s) \<longrightarrow> (wsQueued s ! m \<longrightarrow> wsQueued u ! m) \<and> (wsIn u ! m \<noteq> wsIn s ! m \<longrightarrow> wsQueued u ! m)
     \<and> (m \<in> A \<union> B \<longrightarrow> below (out m) (wsIn u ! m)) \<and> (\<forall>x. below x (wsIn s ! m) \<longrightarrow> below x (wsIn u ! m))" for m
    using assms unfolding passedTo_def by (cases "wsIn t ! m = wsIn s ! m") auto
  with assms show ?thesis by (simp add: passedTo_def)
qed

lemma sum_list_rank:
  assumes "m < length xs" "rank d < rank (xs ! m)"
  shows "sum_list (map rank (xs[m := d])) < sum_list (map rank xs)"
proof -
  have "sum_list (map rank (xs[m := d])) + rank (xs ! m) = sum_list (map rank xs) + rank d"
    using assms(1) elem_le_sum_list [of m "map rank xs"] by (simp add: map_update sum_list_update)
  with assms(2) show ?thesis by simp
qed

lemma workSucc_handed:
  assumes "allGood s" "workOK n s" "nat m < n" "good (out (nat m))"
  shows "passedTo out {nat m} s (workSucc merge out m s)"
proof -
  let ?a = "wsIn s ! nat m" and ?b = "out (nat m)"
  have l: "nat m < length (wsIn s)" "nat m < length (wsQueued s)" using assms(2,3) by (simp_all add: workOK_def)
  have g: "good ?a" using assms(1) l by (simp add: allGood_def)
  obtain ch d where md: "merge ?a ?b = (ch, d)" by (cases "merge ?a ?b")
  have d: "good d" "below ?b d" "\<And>x. below x ?a \<Longrightarrow> below x d" "\<not> ch \<Longrightarrow> d = ?a" "ch \<Longrightarrow> rank d < rank ?a"
    using good_merge [OF g assms(4)] merge_below [OF g assms(4)] below_merge [OF g assms(4)] merge_same [OF g assms(4)]
      merge_rank [OF g assms(4)] md by auto
  have ag: "allGood (workSucc merge out m s)"
    using assms(1) d(1) set_update_subset_insert [of "wsIn s" "nat m" d] by (auto simp: workSucc_def Let_def md allGood_def)
  have p: "pot (workSucc merge out m s) \<le> pot s"
  proof (cases ch)
    case True
    from sum_list_rank [OF l(1) d(5) [OF True]] show ?thesis by (auto simp: workSucc_def Let_def md pot_def)
  next
    case False
    then show ?thesis by (simp add: workSucc_def Let_def md pot_def d(4))
  qed
  have "(wsQueued s ! j \<longrightarrow> wsQueued (workSucc merge out m s) ! j)
     \<and> (wsIn (workSucc merge out m s) ! j \<noteq> wsIn s ! j \<longrightarrow> wsQueued (workSucc merge out m s) ! j)
     \<and> (j \<in> {nat m} \<longrightarrow> below (out j) (wsIn (workSucc merge out m s) ! j))
     \<and> (\<forall>x. below x (wsIn s ! j) \<longrightarrow> below x (wsIn (workSucc merge out m s) ! j))" if "j < length (wsIn s)" for j
    using l d(2,3,4) by (auto simp: workSucc_def Let_def md nth_list_update)
  with ag p show ?thesis by (simp add: passedTo_def workSucc_def Let_def md)
qed

lemma fold_workSucc_handed:
  assumes "allGood s" "workOK n s" "\<forall>m \<in> set ms. nat m < n \<and> good (out (nat m))"
  shows "passedTo out (nat ` set ms) s (fold (workSucc merge out) ms s)"
  using assms
proof (induction ms arbitrary: s)
  case Nil
  then show ?case by (simp add: passedTo_refl)
next
  case (Cons m ms)
  have h: "passedTo out {nat m} s (workSucc merge out m s)" using Cons.prems by (intro workSucc_handed) auto
  then have "allGood (workSucc merge out m s)" by (simp add: passedTo_def)
  moreover have "workOK n (workSucc merge out m s)" using Cons.prems by (intro workSucc_ok) auto
  ultimately have "passedTo out (nat ` set ms) (workSucc merge out m s) (fold (workSucc merge out) ms (workSucc merge out m s))"
    using Cons.prems by (intro Cons.IH) auto
  from passedTo_trans [OF h this] show ?case by simp
qed

definition edgesHeld :: "'a list \<Rightarrow> nat \<Rightarrow> bool" where
  "edgesHeld ins i \<longleftrightarrow> (\<forall>m \<in> set (snSuccs (nodes ! i)). below (send i (ins ! i) (nat m)) (ins ! nat m))"

text \<open>With as much fuel as the potential the loop ends, with good values at a fixpoint.\<close>

lemma workLoop_fixpoint:
  assumes "workOK (length nodes) s" "allGood s" "pot s \<le> fuel"
    and "\<forall>i < length nodes. \<not> wsQueued s ! i \<longrightarrow> edgesHeld (wsIn s) i"
  shows "\<exists>ins. workLoop fuel merge send nodes s = Some ins \<and> length ins = length nodes \<and> (\<forall>a \<in> set ins. good a)
    \<and> (\<forall>i < length nodes. edgesHeld ins i)"
  using assms
proof (induction fuel arbitrary: s)
  case 0
  then have "wsWork s = []" by (simp add: pot_def)
  then have "\<not> wsQueued s ! i" if "i < length nodes" for i using 0(1) that by (auto simp: workOK_def)
  then show ?case using 0 \<open>wsWork s = []\<close> by (auto simp: workLoop_done workOK_def allGood_def)
next
  case (Suc fuel)
  show ?case
  proof (cases "wsWork s")
    case Nil
    then have "\<not> wsQueued s ! i" if "i < length nodes" for i using Suc.prems(1) that by (auto simp: workOK_def)
    then show ?thesis using Suc.prems Nil by (auto simp: workLoop_done workOK_def allGood_def)
  next
    case (Cons n work)
    let ?s = "s\<lparr>wsWork := work, wsQueued := (wsQueued s)[n := False]\<rparr>" and ?out = "send n (wsIn s ! n)"
    let ?t = "fold (workSucc merge ?out) (snSuccs (nodes ! n)) ?s"
    have ok: "workOK (length nodes) ?s" and n: "n < length nodes" using workOK_pop [OF Suc.prems(1) Cons] by auto
    have ag: "allGood ?s" using Suc.prems(2) by (simp add: allGood_def)
    have gn: "good (wsIn s ! n)" using Suc.prems(1,2) n by (simp add: allGood_def workOK_def)
    have su: "\<forall>m \<in> set (snSuccs (nodes ! n)). nat m < length nodes \<and> good (?out (nat m))"
      using succs [OF n] good_send [OF n _ gn] by blast
    have h: "passedTo ?out (nat ` set (snSuccs (nodes ! n))) ?s ?t" by (rule fold_workSucc_handed [OF ag ok su])
    have okt: "workOK (length nodes) ?t" using su by (intro fold_workSucc_ok [OF ok]) auto
    have len: "length (wsIn s) = length nodes" "length (wsQueued s) = length nodes" using Suc.prems(1) by (simp_all add: workOK_def)
    have same: "wsIn ?t ! i = wsIn s ! i" if "i < length nodes" "\<not> wsQueued ?t ! i" for i
      using h that len by (auto simp: passedTo_def)
    have keeps: "below x (wsIn ?t ! i)" if "i < length nodes" "below x (wsIn s ! i)" for x i
      using h that len by (auto simp: passedTo_def)
    have "edgesHeld (wsIn ?t) i" if i: "i < length nodes" "\<not> wsQueued ?t ! i" for i
    proof (cases "i = n")
      case True
      with h su same [OF i] len show ?thesis by (auto simp: edgesHeld_def passedTo_def)
    next
      case False
      then have "\<not> wsQueued s ! i" using h i len by (auto simp: passedTo_def nth_list_update)
      then have "edgesHeld (wsIn s) i" using Suc.prems(4) i(1) by blast
      then show ?thesis using same [OF i] keeps succs [OF i(1)] by (auto simp: edgesHeld_def)
    qed
    moreover have "pot ?s < pot s" using Cons by (simp add: pot_def)
    then have "pot ?t \<le> fuel" using h Suc.prems(3) by (simp add: passedTo_def)
    moreover have "allGood ?t" using h by (simp add: passedTo_def)
    ultimately show ?thesis using Suc.IH [OF okt] by (simp add: workLoop_step [OF Cons])
  qed
qed

lemma startWork_fixpoint:
  assumes "\<And>i. i < length nodes \<Longrightarrow> good (init i)" "length nodes + sum_list (map (\<lambda>i. rank (init i)) [0..<length nodes]) \<le> fuel"
  shows "\<exists>ins. workLoop fuel merge send nodes (startWork (length nodes) init) = Some ins \<and> length ins = length nodes
    \<and> (\<forall>a \<in> set ins. good a) \<and> (\<forall>i < length nodes. edgesHeld ins i)"
  by (rule workLoop_fixpoint [OF startWork_ok]) (use assms in \<open>auto simp: allGood_def pot_def startWork_def o_def\<close>)

end

section \<open>Invariants\<close>

text \<open>What holds of every value at the start and is kept by every merge along an edge holds of the result.\<close>

lemma workLoop_invariant:
  assumes "workLoop fuel merge send nodes s = Some ins" "\<forall>i < length (wsIn s). P i (wsIn s ! i)" "workOK (length nodes) s"
    and "\<And>i m. i < length nodes \<Longrightarrow> m \<in> set (snSuccs (nodes ! i)) \<Longrightarrow> nat m < length nodes"
    and "\<And>i m a b. i < length nodes \<Longrightarrow> m \<in> set (snSuccs (nodes ! i)) \<Longrightarrow> P i a \<Longrightarrow> P (nat m) b \<Longrightarrow> P (nat m) (snd (merge b (send i a (nat m))))"
  shows "\<forall>i < length ins. P i (ins ! i)"
  using assms(1,2,3)
proof (induction fuel arbitrary: s)
  case 0
  then show ?case by (auto simp: workLoop.simps [of 0] split: list.splits)
next
  case (Suc fuel)
  show ?case
  proof (cases "wsWork s")
    case Nil
    then show ?thesis using Suc.prems by (simp add: workLoop_done)
  next
    case (Cons n work)
    let ?s = "s\<lparr>wsWork := work, wsQueued := (wsQueued s)[n := False]\<rparr>" and ?out = "send n (wsIn s ! n)"
    have ok: "workOK (length nodes) ?s" and n: "n < length nodes" using workOK_pop [OF Suc.prems(3) Cons] by auto
    have pn: "P n (wsIn s ! n)" using Suc.prems(2,3) n by (simp add: workOK_def)
    have "set ms \<subseteq> set (snSuccs (nodes ! n)) \<Longrightarrow> workOK (length nodes) t \<Longrightarrow> \<forall>i < length (wsIn t). P i (wsIn t ! i) \<Longrightarrow>
        \<forall>i < length (wsIn (fold (workSucc merge ?out) ms t)). P i (wsIn (fold (workSucc merge ?out) ms t) ! i)" for ms t
    proof (induction ms arbitrary: t)
      case (Cons m ms)
      have m: "m \<in> set (snSuccs (nodes ! n))" "nat m < length nodes" using Cons.prems(1) assms(4) [OF n] by auto
      have "P (nat m) (wsIn t ! nat m)" using Cons.prems(2,3) m(2) by (simp add: workOK_def)
      then have "P (nat m) (snd (merge (wsIn t ! nat m) (?out (nat m))))" by (rule assms(5) [OF n m(1) pn])
      moreover have "nat m < length (wsIn t)" using Cons.prems(2) m(2) by (simp add: workOK_def)
      ultimately have "\<forall>i < length (wsIn (workSucc merge ?out m t)). P i (wsIn (workSucc merge ?out m t) ! i)"
        using Cons.prems(3) by (auto simp: workSucc_def Let_def nth_list_update split: prod.splits)
      with Cons.IH [OF _ workSucc_ok [OF Cons.prems(2) m(2)]] Cons.prems(1) show ?case by simp
    qed simp
    from this [of "snSuccs (nodes ! n)" ?s] ok Suc.prems(2)
    have "\<forall>i < length (wsIn (fold (workSucc merge ?out) (snSuccs (nodes ! n)) ?s)). P i (wsIn (fold (workSucc merge ?out) (snSuccs (nodes ! n)) ?s) ! i)"
      by simp
    moreover have "workOK (length nodes) (fold (workSucc merge ?out) (snSuccs (nodes ! n)) ?s)"
      by (rule fold_workSucc_ok [OF ok]) (use assms(4) [OF n] in blast)
    ultimately show ?thesis using Suc.IH Suc.prems(1) by (simp add: workLoop_step [OF Cons])
  qed
qed

end
