(* ===== verification/Fact_Flow.thy ===== *)
theory Fact_Flow
  imports Worklist C_Expr
begin

text \<open>
  The flow engine of internal/planner/null_flow.go that the analyses of nullness, taint, freed memory and
  initialisation share: sources that may reach a statement (runDataflow) and facts that hold on every
  path (runMustDataflow), over the effects of each statement.  A map from variables to sets of sources
  is the list of its pairs, a map from variables to booleans the list of the variables it holds for.
  The edges a guard kills sources on are a parameter.
\<close>

section \<open>Effects\<close>

record flowEffects =
  feGen :: "string list"
  feKill :: "string list"
  feCopy :: "(string \<times> string) list"
  feFieldBase :: "(string \<times> string) list"
  feKillBase :: "string list"

definition effAt :: "flowEffects option list \<Rightarrow> nat \<Rightarrow> flowEffects option" where
  "effAt effs i = (if i < length effs then effs ! i else None)"

definition isFieldOf :: "string \<Rightarrow> string \<Rightarrow> bool" where
  "isFieldOf k base \<longleftrightarrow> HasPrefix k (base @ ''->'') \<or> HasPrefix k (base @ ''.'') \<or> HasPrefix k (base @ ''['')"

definition isKilled :: "flowEffects \<Rightarrow> string \<Rightarrow> bool" where
  "isKilled e v \<longleftrightarrow> v \<in> set (feKill e) \<or> list_ex (isFieldOf v) (feKillBase e)"


section \<open>Sources that may reach\<close>

type_synonym factSet = "(string \<times> nat) list"

definition copied :: "factSet \<Rightarrow> (string \<times> string) list \<Rightarrow> factSet" where
  "copied facts pairs = concat (map (\<lambda>(lhs, rhs). map (\<lambda>(v, s). (lhs, s)) (filter (\<lambda>(v, s). v = rhs) facts)) pairs)"

definition flowTransfer :: "factSet \<Rightarrow> flowEffects option \<Rightarrow> nat \<Rightarrow> factSet" where
  "flowTransfer facts eff n =
     (case eff of
        None \<Rightarrow> facts
      | Some e \<Rightarrow>
          (let kept = filter (\<lambda>(v, s). v \<notin> fst ` set (feCopy e)) facts;
               moved = kept @ copied facts (feCopy e) @ copied facts (feFieldBase e) in
           filter (\<lambda>(v, s). \<not> isKilled e v) moved @ map (\<lambda>v. (v, n)) (feGen e)))"

definition mergeFacts :: "factSet \<Rightarrow> factSet \<Rightarrow> bool \<times> factSet" where
  "mergeFacts dst src = (let new = remdups (filter (\<lambda>x. x \<notin> set dst) src) in (new \<noteq> [], dst @ new))"

text \<open>What a node hands to a successor; edgeKills names the variables a guard clears on the edge.\<close>

definition sendFacts :: "flowEffects option list \<Rightarrow> (nat \<Rightarrow> nat \<Rightarrow> string list) \<Rightarrow> nat \<Rightarrow> factSet \<Rightarrow> nat \<Rightarrow> factSet" where
  "sendFacts effs edgeKills n facts m = filter (\<lambda>(v, s). v \<notin> set (edgeKills n m)) (flowTransfer facts (effAt effs n) n)"

definition seedFacts :: "StmtCFG \<Rightarrow> string list \<Rightarrow> nat \<Rightarrow> factSet" where
  "seedFacts cfg seeds i = (if i = nat (cfgEntry cfg) then map (\<lambda>v. (v, i)) (remdups seeds) else [])"

definition writtenVars :: "flowEffects option list \<Rightarrow> string list \<Rightarrow> string list" where
  "writtenVars effs seeds = remdups (seeds @ concat (map (\<lambda>eff. case eff of None \<Rightarrow> []
     | Some e \<Rightarrow> feGen e @ map fst (feCopy e) @ map fst (feFieldBase e)) effs))"

text \<open>Every node once, and again for every pair of a variable and a source that can be added to a node.\<close>

definition factFuel :: "nat \<Rightarrow> flowEffects option list \<Rightarrow> string list \<Rightarrow> nat" where
  "factFuel n effs seeds = n + n * (length (writtenVars effs seeds) * n)"

definition runDataflow :: "StmtCFG \<Rightarrow> flowEffects option list \<Rightarrow> string list \<Rightarrow> (nat \<Rightarrow> nat \<Rightarrow> string list) \<Rightarrow> factSet list option" where
  "runDataflow cfg effs seeds edgeKills =
     (let n = length (cfgNodes cfg) in
      workLoop (factFuel n effs seeds) mergeFacts (sendFacts effs edgeKills) (cfgNodes cfg) (startWork n (seedFacts cfg seeds)))"


section \<open>Facts on every path\<close>

definition mustTransfer :: "string list \<Rightarrow> flowEffects option \<Rightarrow> string list" where
  "mustTransfer held eff =
     (case eff of
        None \<Rightarrow> held
      | Some e \<Rightarrow>
          (let kept = filter (\<lambda>v. v \<notin> fst ` set (feCopy e)) held;
               moved = kept @ map fst (filter (\<lambda>(lhs, rhs). rhs \<in> set held) (feCopy e)) in
           filter (\<lambda>v. \<not> isKilled e v) moved @ feGen e))"

definition mustMerge :: "string list \<Rightarrow> string list \<Rightarrow> bool \<times> string list" where
  "mustMerge dst src = (let both = filter (\<lambda>v. v \<in> set src) dst in (length both < length dst, both))"

definition universe :: "flowEffects option list \<Rightarrow> string list \<Rightarrow> string list" where
  "universe effs seeds = remdups (seeds @ concat (map (\<lambda>eff. case eff of None \<Rightarrow> []
     | Some e \<Rightarrow> feGen e @ feKill e @ map fst (feCopy e) @ map snd (feCopy e)) effs))"

definition sendMust :: "flowEffects option list \<Rightarrow> nat \<Rightarrow> string list \<Rightarrow> nat \<Rightarrow> string list" where
  "sendMust effs n held m = mustTransfer held (effAt effs n)"

definition mustInit :: "StmtCFG \<Rightarrow> flowEffects option list \<Rightarrow> string list \<Rightarrow> nat \<Rightarrow> string list" where
  "mustInit cfg effs seeds i = (if i = nat (cfgEntry cfg) then remdups seeds else universe effs seeds)"

definition mustFuel :: "nat \<Rightarrow> flowEffects option list \<Rightarrow> string list \<Rightarrow> nat" where
  "mustFuel n effs seeds = n + n * length (universe effs seeds)"

definition runMustDataflow :: "StmtCFG \<Rightarrow> flowEffects option list \<Rightarrow> string list \<Rightarrow> string list list option" where
  "runMustDataflow cfg effs seeds =
     (let n = length (cfgNodes cfg) in
      workLoop (mustFuel n effs seeds) mustMerge (sendMust effs) (cfgNodes cfg) (startWork n (mustInit cfg effs seeds)))"

definition genAt :: "flowEffects option list \<Rightarrow> nat \<Rightarrow> string list" where
  "genAt effs i = (case effAt effs i of None \<Rightarrow> [] | Some e \<Rightarrow> feGen e)"


section \<open>Positions\<close>

record flowSpan =
  spID :: int
  spStart :: int
  spEnd :: int
  spColumn :: int
  spControl :: bool

definition spanOf :: "StmtNode \<Rightarrow> flowSpan" where
  "spanOf n = \<lparr>spID = snID n, spStart = snStartLine n, spEnd = snEndLine n, spColumn = snStartColumn n, spControl = snIsControl n\<rparr>"

definition snapshotSpans :: "StmtCFG \<Rightarrow> flowSpan list" where
  "snapshotSpans cfg = map spanOf (filter (\<lambda>n. snKind n = ''stmt'') (cfgNodes cfg))"

definition positionStep :: "int \<Rightarrow> int \<Rightarrow> flowSpan \<Rightarrow> flowSpan option \<Rightarrow> flowSpan option" where
  "positionStep line column sp best =
     (if line < spStart sp \<or> spEnd sp < line then best
      else if 0 < column \<and> (spColumn sp \<le> 0 \<or> column < spColumn sp) then best
      else case best of
             None \<Rightarrow> Some sp
           | Some b \<Rightarrow>
               (let br = spEnd b - spStart b; nr = spEnd sp - spStart sp in
                if 0 < column then
                  (if nr < br \<or> nr = br \<and> spColumn b < spColumn sp then Some sp
                   else if nr = br \<and> spColumn sp = spColumn b \<and> spControl b \<and> \<not> spControl sp then Some sp
                   else best)
                else if nr < br \<or> nr = br \<and> spControl b \<and> \<not> spControl sp then Some sp
                else best))"

definition nodeAtSpans :: "flowSpan list \<Rightarrow> int \<Rightarrow> int \<Rightarrow> flowSpan option" where
  "nodeAtSpans spans line column =
     (case fold (positionStep line column) spans None of
        Some sp \<Rightarrow> Some sp
      | None \<Rightarrow> if 0 < column then fold (positionStep line 0) spans None else None)"


section \<open>Results\<close>

record flowResult =
  frSpans :: "flowSpan list"
  frIn :: "factSet list option"
  frMust :: "string list list option"
  frGenAt :: "nat \<Rightarrow> string list"

definition analyzeFlowMust :: "StmtCFG \<Rightarrow> flowEffects option list \<Rightarrow> flowResult" where
  "analyzeFlowMust cfg effs = \<lparr>frSpans = snapshotSpans cfg, frIn = runDataflow cfg effs [] (\<lambda>n m. []),
     frMust = runMustDataflow cfg effs [], frGenAt = genAt effs\<rparr>"

definition reaching :: "flowResult \<Rightarrow> string \<Rightarrow> int \<Rightarrow> bool" where
  "reaching flow v line =
     (case nodeAtSpans (frSpans flow) line 0 of
        None \<Rightarrow> False
      | Some sp \<Rightarrow>
          (case frIn flow of None \<Rightarrow> False | Some ins \<Rightarrow> v \<in> fst ` set (ins ! nat (spID sp)))
          \<or> v \<in> set (frGenAt flow (nat (spID sp))))"

definition mustReaching :: "flowResult \<Rightarrow> string \<Rightarrow> int \<Rightarrow> bool" where
  "mustReaching flow v line =
     (case frMust flow of
        None \<Rightarrow> False
      | Some ins \<Rightarrow>
          (case nodeAtSpans (frSpans flow) line 0 of
             None \<Rightarrow> False
           | Some sp \<Rightarrow> v \<in> set (ins ! nat (spID sp)) \<or> v \<in> set (frGenAt flow (nat (spID sp)))))"

end
