(* ===== verification/Freed_Flow.thy ===== *)
theory Freed_Flow
  imports Fact_Flow Simple_Filters Range_Filter
begin

text \<open>
  The effects of statements on freed memory: what a call may write through an address (internal/parser/
  address_taken.go, value_names.go), the transfer effects of a node, and the free sites and aliases the store
  knows (internal/planner/null_flow.go).  These analyses run with nonNullKills and definiteKills off,
  so the effects of macros and of library functions that only those flags switch on are not here.
\<close>

section \<open>Addresses passed to calls\<close>

definition isTypeChar :: "char \<Rightarrow> bool" where
  "isTypeChar c \<longleftrightarrow> isIdentByte c \<or> c = CHR '' '' \<or> c = CHR 0x09 \<or> c = CHR ''*''"

definition typeShapedText :: "string \<Rightarrow> bool" where
  "typeShapedText s \<longleftrightarrow> TrimSpace s \<noteq> '''' \<and> list_all isTypeChar (TrimSpace s)"

text \<open>The names bound in a function tell (A) & x with a type from one with a value; None is no oracle.\<close>

type_synonym scopeNames = "string list option"

definition castBinaryOperand :: "scopeNames \<Rightarrow> Node \<Rightarrow> Node option" where
  "castBinaryOperand names n =
     (case ChildByFieldName ''operator'' n of
        None \<Rightarrow> None
      | Some op \<Rightarrow>
          if Text op \<noteq> ''&'' then None
          else (case NamedChildren n of
                  [l, r] \<Rightarrow>
                    if Kind l \<noteq> ''parenthesized_expression'' then None
                    else (case NamedChildren l of
                            [a] \<Rightarrow>
                              if (case names of None \<Rightarrow> False | Some ns \<Rightarrow> Kind a = ''identifier'' \<and> Text a \<in> set ns) then None
                              else if \<not> typeShapedText (Text a) then None else Some r
                          | _ \<Rightarrow> None)
                | _ \<Rightarrow> None))"

definition addressOfOperand :: "Node \<Rightarrow> Node option" where
  "addressOfOperand n =
     (if Kind n \<noteq> ''pointer_expression'' \<or> \<not> HasPrefix (TrimSpace (Text n)) ''&'' then None
      else case NamedChildren n of [] \<Rightarrow> None | a # as \<Rightarrow> peelParens a)"

function addressTakenTarget :: "scopeNames \<Rightarrow> Node \<Rightarrow> Node option" where
  "addressTakenTarget names n =
     (if isWrapper n then (case NamedChildren n of [] \<Rightarrow> None | c # cs \<Rightarrow> addressTakenTarget names (last (c # cs)))
      else if Kind n = ''binary_expression'' then Option.bind (castBinaryOperand names n) peelParens
      else addressOfOperand n)"
  by pat_completeness auto
termination
proof (relation "measure (\<lambda>(names, n). size n)")
  fix names :: scopeNames and n c cs assume "NamedChildren n = c # cs"
  then have "last (c # cs) \<in> set (NamedChildren n)" by simp
  then show "((names, last (c # cs)), names, n) \<in> measure (\<lambda>(names, n). size n)" by (simp add: size_NamedChildren)
qed simp

declare addressTakenTarget.simps [simp del]

definition addrTakenVar :: "scopeNames \<Rightarrow> Node \<Rightarrow> string" where
  "addrTakenVar names arg =
     (case addressTakenTarget names arg of None \<Rightarrow> '''' | Some t \<Rightarrow> if Kind t = ''identifier'' then Text t else '''')"


section \<open>Bound names\<close>

definition isTypePositionKind :: "string \<Rightarrow> bool" where
  "isTypePositionKind kind \<longleftrightarrow> kind \<in> set [''primitive_type'', ''sized_type_specifier'', ''type_identifier'', ''struct_specifier'',
     ''union_specifier'', ''enum_specifier'', ''storage_class_specifier'', ''type_qualifier'', ''attribute_specifier'',
     ''attribute_declaration'', ''comment'']"

function firstIdentifierName :: "Node \<Rightarrow> string" where
  "firstIdentifierName n = (if Kind n = ''identifier'' then Text n else firstName firstIdentifierName (NamedChildren n))"
  by pat_completeness auto
termination by (relation "measure size") (simp_all add: size_NamedChildren)

declare firstIdentifierName.simps [simp del]

definition boundParams :: "Node \<Rightarrow> string list" where
  "boundParams funcDef =
     (case Option.bind (ChildByFieldName ''declarator'' funcDef) (ChildByFieldName ''parameters'') of
        None \<Rightarrow> []
      | Some params \<Rightarrow>
          List.map_filter (\<lambda>p. map_option firstIdentifierName (ChildByFieldName ''declarator'' p))
            (filter (\<lambda>p. Kind p = ''parameter_declaration'') (NamedChildren params)))"

definition boundLocals :: "Node \<Rightarrow> string list" where
  "boundLocals funcDef =
     (case ChildByFieldName ''body'' funcDef of
        None \<Rightarrow> []
      | Some body \<Rightarrow>
          concat (map (\<lambda>decl. map firstIdentifierName (filter (\<lambda>c. \<not> isTypePositionKind (Kind c)) (NamedChildren decl)))
            (FindAll ''declaration'' body)))"

definition FunctionBoundNames :: "Node \<Rightarrow> string list" where
  "FunctionBoundNames funcDef =
     (if Kind funcDef \<noteq> ''function_definition'' then [] else filter (\<lambda>x. x \<noteq> '''') (boundParams funcDef @ boundLocals funcDef))"

definition ParentIn :: "Node \<Rightarrow> Node \<Rightarrow> Node option" where
  "ParentIn root n = find (\<lambda>p. n \<in> set (Children p)) (preorder root)"

definition FunctionBoundNamesByBody :: "Node \<Rightarrow> Node \<Rightarrow> scopeNames" where
  "FunctionBoundNamesByBody root body =
     (if Kind body \<noteq> ''compound_statement'' then None
      else case ParentIn root body of
        None \<Rightarrow> None
      | Some fn \<Rightarrow> if Kind fn \<noteq> ''function_definition'' then None else Some (FunctionBoundNames fn))"

text \<open>The oracle of a body, remembered under its first byte.\<close>

definition scopeOracle :: "Node \<Rightarrow> Node \<Rightarrow> (int \<times> scopeNames) list \<Rightarrow> scopeNames \<times> (int \<times> scopeNames) list" where
  "scopeOracle root body cache =
     (case map_of cache (StartByte body) of
        Some names \<Rightarrow> (names, cache)
      | None \<Rightarrow> (let names = FunctionBoundNamesByBody root body in (names, (StartByte body, names) # cache)))"


section \<open>Effects of a node\<close>

type_synonym lineMap = "(int \<times> string list) list"

definition lineVars :: "lineMap \<Rightarrow> int \<Rightarrow> string list" where
  "lineVars m line = (case map_of m line of None \<Rightarrow> [] | Some vs \<Rightarrow> vs)"

definition addLineVar :: "int \<Rightarrow> string \<Rightarrow> lineMap \<Rightarrow> lineMap" where
  "addLineVar line v m = AList.update line (lineVars m line @ [v]) m"

definition isControlFlowHeaderStmt :: "string \<Rightarrow> bool" where
  "isControlFlowHeaderStmt kind \<longleftrightarrow> kind \<in> set [''if_statement'', ''while_statement'', ''do_statement'', ''for_statement'',
     ''switch_statement'', ''preproc_ifdef'', ''preproc_ifndef'', ''preproc_if'']"

definition assignmentEffect :: "Node \<times> Node \<Rightarrow> flowEffects \<Rightarrow> flowEffects" where
  "assignmentEffect p e =
     (let name = assignTargetName (fst p);
          e1 = (if Kind (fst p) = ''identifier'' then e\<lparr>feKillBase := List.insert name (feKillBase e)\<rparr> else e) in
      if name = '''' then e
      else if copySourceKey (snd p) \<noteq> '''' then e1\<lparr>feCopy := AList.update name (copySourceKey (snd p)) (feCopy e1)\<rparr>
      else e1)"

definition addOutputParamKills :: "scopeNames \<Rightarrow> Node \<Rightarrow> flowEffects \<Rightarrow> flowEffects" where
  "addOutputParamKills names call e =
     (case NamedChildren call of
        callee # args # rest \<Rightarrow>
          if Kind args \<noteq> ''argument_list'' then e
          else e\<lparr>feKill := feKill e @ filter (\<lambda>x. x \<noteq> '''') (map (addrTakenVar names) (NamedChildren args))\<rparr>
      | _ \<Rightarrow> e)"

definition lineEffects :: "lineMap \<Rightarrow> lineMap \<Rightarrow> (int \<times> (string \<times> string) list) list \<Rightarrow> int \<Rightarrow> flowEffects" where
  "lineEffects gens kills copies line = \<lparr>feGen = lineVars gens line, feKill = lineVars kills line,
     feCopy = fold (\<lambda>(lhs, rhs). AList.update lhs rhs) (case map_of copies line of None \<Rightarrow> [] | Some cs \<Rightarrow> cs) [],
     feFieldBase = [], feKillBase = []\<rparr>"

definition collectNodeEffects ::
  "lineMap \<Rightarrow> lineMap \<Rightarrow> (int \<times> (string \<times> string) list) list \<Rightarrow> scopeNames \<Rightarrow> StmtNode \<Rightarrow> flowEffects" where
  "collectNodeEffects gens kills copies names n =
     fold (addOutputParamKills names) (FindAll ''call_expression'' (snStmt n))
       (fold assignmentEffect (directAssignments (snStmt n))
         (if isControlFlowHeaderStmt (Kind (snStmt n)) then lineEffects [] [] [] (snStartLine n)
          else lineEffects gens kills copies (snStartLine n)))"

definition buildEffects ::
  "StmtCFG \<Rightarrow> lineMap \<Rightarrow> lineMap \<Rightarrow> (int \<times> (string \<times> string) list) list \<Rightarrow> scopeNames \<Rightarrow> flowEffects option list" where
  "buildEffects cfg gens kills copies names =
     map (\<lambda>n. if snKind n \<noteq> ''stmt'' then None else Some (collectNodeEffects gens kills copies names n)) (cfgNodes cfg)"


section \<open>Free sites and aliases\<close>

text \<open>What the store answers: functions and files, the release edges with the function that releases, the alias edges
  with the field they name, and the references they connect.  None is a failed query.\<close>

record freedStore =
  fdProgram :: rangeStore
  fdReleases :: "(int \<times> string) list option"
  fdAliases :: "(int \<times> int \<times> string) list option"
  fdRefs :: "variableRef list option"

definition wantedRefs :: "int list \<Rightarrow> variableRef list \<Rightarrow> (int \<times> variableRef) list" where
  "wantedRefs ids refs = namedRefs (filter (\<lambda>r. vrFunction r \<in> set ids) refs)"

definition loadFreeSites :: "freedStore \<Rightarrow> int list \<Rightarrow> int \<Rightarrow> lineMap" where
  "loadFreeSites store ids fid =
     (case (fdReleases store, fdRefs store) of
        (Some edges, Some refs) \<Rightarrow>
          fold (\<lambda>(src, fn) m. case map_of (wantedRefs ids refs) src of
                  None \<Rightarrow> m
                | Some r \<Rightarrow> if fn = ''free'' \<and> vrFunction r = fid \<and> fid \<noteq> 0 then addLineVar (vrLine r) (vrName r) m else m) edges []
      | _ \<Rightarrow> [])"

type_synonym aliasMap = "(string \<times> (string \<times> int) list) list"

definition loadAliases :: "freedStore \<Rightarrow> int list \<Rightarrow> int \<Rightarrow> aliasMap" where
  "loadAliases store ids fid =
     (case (fdAliases store, fdRefs store) of
        (Some edges, Some refs) \<Rightarrow>
          fold (\<lambda>(src, dst, fld) m. case (map_of (wantedRefs ids refs) src, map_of (wantedRefs ids refs) dst) of
                  (Some a, Some b) \<Rightarrow>
                    if fld \<noteq> '''' \<or> vrName a = vrName b \<or> vrFunction a \<noteq> fid then m
                    else AList.update (vrName a) ((case map_of m (vrName a) of None \<Rightarrow> [] | Some sites \<Rightarrow> sites) @ [(vrName b, vrLine a)]) m
                | _ \<Rightarrow> m) edges []
      | _ \<Rightarrow> [])"

definition latestAliasBase :: "(string \<times> int) list \<Rightarrow> int \<Rightarrow> string option" where
  "latestAliasBase sites line =
     map_option fst (fold (\<lambda>s best. if line < snd s then best
                        else case best of None \<Rightarrow> Some s | Some b \<Rightarrow> if snd b < snd s then Some s else best) sites None)"

definition expandGenToAliases :: "aliasMap \<Rightarrow> lineMap \<Rightarrow> lineMap" where
  "expandGenToAliases aliases gens =
     map (\<lambda>(line, vars). (line, vars @ concat (map (\<lambda>v. map fst (filter (\<lambda>(alias, sites). latestAliasBase sites line = Some v) aliases)) vars))) gens"

definition freeAlreadySeeded :: "lineMap \<Rightarrow> int \<Rightarrow> string \<Rightarrow> bool" where
  "freeAlreadySeeded gens line v \<longleftrightarrow> v \<in> set (lineVars gens line)"

text \<open>Every assignment in a statement, then every initialisation.\<close>

definition assignmentsIn :: "Node \<Rightarrow> (Node \<times> Node) list" where
  "assignmentsIn stmt =
     List.map_filter (\<lambda>a. case NamedChildren a of l # r # rest \<Rightarrow> Some (l, r) | _ \<Rightarrow> None) (FindAll ''assignment_expression'' stmt)
     @ List.map_filter AssignParts (FindAll ''init_declarator'' stmt)"

end
