(* ===== verification/Freed_Filters.thy ===== *)
theory Freed_Filters
  imports Freed_Flow
begin

text \<open>
  The filters of uses after free (internal/planner/filter_lifetime.go) and of double frees (filter_double_free.go):
  a source is a free, a reassignment kills it, and a candidate is dismissed if no source reaches it and
  confirmed if one does on every path.  The functions are analysed in the order in which Go ranges
  over a map, a parameter here, because they share the cache of the scope oracles.
\<close>

section \<open>Flows of the functions\<close>

text \<open>The properties of an event that can be read: the line of the free, that of a first free, its variable, and
  whether a callee frees.\<close>

record freeProps =
  fpFreeLine :: int
  fpFirstFree :: int
  fpVariable :: string
  fpIndirect :: bool

type_synonym freedFlows = "(int \<times> flowResult) list"

definition freedFlow ::
  "freedStore \<Rightarrow> (int \<Rightarrow> lineMap) \<Rightarrow> (Node \<Rightarrow> lineMap) \<Rightarrow> int list \<Rightarrow> int \<Rightarrow> freedFlows \<times> (int \<times> scopeNames) list \<Rightarrow> freedFlows \<times> (int \<times> scopeNames) list" where
  "freedFlow store gensOf killsOf ids fid = (\<lambda>(flows, cache).
     case functionOf (fdProgram store) ids fid of
       None \<Rightarrow> (flows, cache)
     | Some (fn, fl) \<Rightarrow>
         let body = bodyOf fl fn in
         if Kind body \<noteq> ''compound_statement'' then (flows, cache)
         else case scopeOracle (dfRoot fl) body cache of
           (names, cache1) \<Rightarrow>
             let cfg = BuildStmtCFG body (fnEndLine fn) in
             (AList.update fid (analyzeFlowMust cfg (buildEffects cfg (gensOf fid) (killsOf body) [] names)) flows, cache1))"

definition buildFreedFlows :: "freedStore \<Rightarrow> (int \<Rightarrow> lineMap) \<Rightarrow> (Node \<Rightarrow> lineMap) \<Rightarrow> int list \<Rightarrow> int list \<Rightarrow> freedFlows" where
  "buildFreedFlows store gensOf killsOf ids order = fst (fold (freedFlow store gensOf killsOf ids) order ([], []))"


section \<open>Uses after free\<close>

definition seedFree :: "(int \<times> freeProps) list \<Rightarrow> Candidate \<Rightarrow> lineMap \<Rightarrow> lineMap" where
  "seedFree evs c m =
     (case map_of evs (DerefEventID c) of
        None \<Rightarrow> m
      | Some p \<Rightarrow>
          if fpFreeLine p = 0 \<or> fpVariable p = '''' then m
          else if fpIndirect p \<or> \<not> freeAlreadySeeded m (fpFreeLine p) (fpVariable p)
          then addLineVar (fpFreeLine p) (fpVariable p) m else m)"

definition lifetimeGens :: "freedStore \<Rightarrow> (int \<times> freeProps) list \<Rightarrow> Candidate list \<Rightarrow> int \<Rightarrow> lineMap" where
  "lifetimeGens store evs cs fid =
     expandGenToAliases (loadAliases store (candidateFuncIDs cs) fid)
       (fold (seedFree evs) (filter (\<lambda>c. FunctionID c = fid) cs) (loadFreeSites store (candidateFuncIDs cs) fid))"

definition lifetimeKills :: "Node \<Rightarrow> lineMap" where
  "lifetimeKills body =
     fold (\<lambda>(l, r) m. if Kind l = ''identifier'' \<and> rhsVarName r = '''' then addLineVar (StartLine l) (Text l) m else m) (assignmentsIn body) []"

definition lifetimeDecision :: "freedFlows \<Rightarrow> Candidate \<Rightarrow> string + Candidate" where
  "lifetimeDecision flows c =
     (case map_of flows (FunctionID c) of
        None \<Rightarrow> Inr c
      | Some flow \<Rightarrow>
          if \<not> reaching flow (VariableName c) (Line c)
          then Inl (''variable '' @ VariableName c @ '' is reassigned or the free does not reach the use at line '' @ formatInt (Line c))
          else if \<not> MayFree c \<and> mustReaching flow (VariableName c) (Line c) then Inr (c\<lparr>SuspicionLevel := ''confirmed''\<rparr>)
          else Inr c)"

definition LifetimeFilter :: "bool \<Rightarrow> (int list \<Rightarrow> int list) \<Rightarrow> (int \<times> freeProps) list answer \<Rightarrow> freedStore \<Rightarrow> CandidateFilter" where
  "LifetimeFilter hasParser order events store = \<lparr>cfName = ''lifetime'',
     cfApply = (\<lambda>cs.
       if \<not> hasParser then Inr (cs, [])
       else case events of
         Inl e \<Rightarrow> Inl (''lifetime: load events: '' @ e)
       | Inr evs \<Rightarrow>
           (let ids = candidateFuncIDs cs in
            Inr (sift (lifetimeDecision (buildFreedFlows store (lifetimeGens store evs cs) lifetimeKills ids (order ids))) ''lifetime'' cs)))\<rparr>"


section \<open>Exclusive branches\<close>

definition findEnclosingIf :: "Node \<Rightarrow> int \<Rightarrow> Node option" where
  "findEnclosingIf body line =
     fold (\<lambda>n best. if line < StartLine n \<or> EndLine n < line then best
             else case best of
               None \<Rightarrow> Some n
             | Some b \<Rightarrow> if EndLine n - StartLine n < EndLine b - StartLine b then Some n else best)
       (FindAll ''if_statement'' body) None"

function isLiteralNode :: "Node \<Rightarrow> bool" where
  "isLiteralNode n =
     (Kind n \<in> set [''number_literal'', ''string_literal'', ''char_literal'']
      \<or> isWrapper n \<and> (\<exists>c \<in> set (NamedChildren n). isLiteralNode c))"
  by pat_completeness auto
termination by (relation "measure size") (simp_all add: size_NamedChildren)

declare isLiteralNode.simps [simp del]

definition ifEqVarConst :: "Node \<Rightarrow> (string \<times> string) option" where
  "ifEqVarConst ifNode =
     (case Option.bind (ChildByFieldName ''condition'' ifNode) peelParens of
        None \<Rightarrow> None
      | Some n \<Rightarrow>
          if Kind n \<noteq> ''binary_expression'' \<or> binaryOperatorToken n \<noteq> ''=='' then None
          else (case NamedChildren n of
                  [l, r] \<Rightarrow>
                    if Kind l = ''identifier'' \<and> isLiteralNode r then Some (Text l, Text r)
                    else if Kind r = ''identifier'' \<and> isLiteralNode l then Some (Text r, Text l) else None
                | _ \<Rightarrow> None))"

definition mutuallyExclusiveIfs :: "Node \<Rightarrow> int \<Rightarrow> int \<Rightarrow> bool" where
  "mutuallyExclusiveIfs body line1 line2 \<longleftrightarrow>
     (case (findEnclosingIf body line1, findEnclosingIf body line2) of
        (Some if1, Some if2) \<Rightarrow>
          StartLine if1 \<noteq> StartLine if2
          \<and> (case (ifEqVarConst if1, ifEqVarConst if2) of
               (Some (v1, c1), Some (v2, c2)) \<Rightarrow> v1 = v2 \<and> c1 \<noteq> c2
             | _ \<Rightarrow> False)
      | _ \<Rightarrow> False)"


section \<open>Double frees\<close>

definition firstFreeOf :: "(int \<times> freeProps) list \<Rightarrow> Candidate \<Rightarrow> (int \<times> string) option" where
  "firstFreeOf evs c =
     (case map_of evs (DerefEventID c) of
        None \<Rightarrow> None
      | Some p \<Rightarrow> if fpFirstFree p = 0 \<or> fpVariable p = '''' then None else Some (fpFirstFree p, fpVariable p))"

definition doubleFreeGens :: "freedStore \<Rightarrow> (int \<times> freeProps) list \<Rightarrow> Candidate list \<Rightarrow> int \<Rightarrow> lineMap" where
  "doubleFreeGens store evs cs fid =
     expandGenToAliases (loadAliases store (candidateFuncIDs cs) fid)
       (fold (\<lambda>c m. case firstFreeOf evs c of
                 None \<Rightarrow> m
               | Some (line, v) \<Rightarrow> if freeAlreadySeeded m line v then m else addLineVar line v m)
         (filter (\<lambda>c. FunctionID c = fid) cs) [])"

definition killTarget :: "Node \<Rightarrow> string" where
  "killTarget l = (if assignTargetName l = '''' then declaratorName l else assignTargetName l)"

definition doubleFreeKills :: "Node \<Rightarrow> lineMap" where
  "doubleFreeKills body =
     fold (\<lambda>(l, r) m. if killTarget l = '''' \<or> rhsVarName r \<noteq> '''' then m else addLineVar (StartLine l) (killTarget l) m) (assignmentsIn body) []"

definition exclusiveFrees :: "freedStore \<Rightarrow> (int \<times> freeProps) list \<Rightarrow> Candidate list \<Rightarrow> int list" where
  "exclusiveFrees store evs cs =
     map DerefEventID (filter (\<lambda>c.
       case (functionOf (fdProgram store) (candidateFuncIDs cs) (FunctionID c), firstFreeOf evs c) of
         (Some (fn, fl), Some (line, v)) \<Rightarrow>
           Kind (bodyOf fl fn) = ''compound_statement'' \<and> mutuallyExclusiveIfs (bodyOf fl fn) line (Line c)
       | _ \<Rightarrow> False) cs)"

definition doubleFreeDecision :: "freedFlows \<Rightarrow> int list \<Rightarrow> Candidate \<Rightarrow> string + Candidate" where
  "doubleFreeDecision flows exclusive c =
     (if CrossFunction c then Inr c
      else case map_of flows (FunctionID c) of
        None \<Rightarrow> Inr c
      | Some flow \<Rightarrow>
          if \<not> reaching flow (VariableName c) (Line c)
          then Inl (''variable '' @ VariableName c @ '' is reassigned before the second free at line '' @ formatInt (Line c))
          else if DerefEventID c \<in> set exclusive
          then Inl (''first free and second free at line '' @ formatInt (Line c) @ '' are in mutually-exclusive if branches'')
          else if \<not> MayFree c \<and> mustReaching flow (VariableName c) (Line c) then Inr (c\<lparr>SuspicionLevel := ''confirmed''\<rparr>)
          else Inr c)"

definition DoubleFreeFilter :: "bool \<Rightarrow> (int list \<Rightarrow> int list) \<Rightarrow> (int \<times> freeProps) list answer \<Rightarrow> freedStore \<Rightarrow> CandidateFilter" where
  "DoubleFreeFilter hasParser order events store = \<lparr>cfName = ''double_free_flow'',
     cfApply = (\<lambda>cs.
       if \<not> hasParser then Inr (cs, [])
       else case events of
         Inl e \<Rightarrow> Inl (''double free: load events: '' @ e)
       | Inr evs \<Rightarrow>
           (let ids = candidateFuncIDs cs in
            Inr (sift (doubleFreeDecision (buildFreedFlows store (doubleFreeGens store evs cs) doubleFreeKills ids (order ids))
                   (exclusiveFrees store evs cs)) ''double_free_flow'' cs)))\<rparr>"


section \<open>The contract is met\<close>

lemma lifetimeDecision_contract:
  "lifetimeDecision flows c = Inr c' \<Longrightarrow> refines c c'" "lifetimeDecision flows c = Inl why \<Longrightarrow> why \<noteq> ''''"
  by (auto simp: lifetimeDecision_def refines_def identity_def split: if_splits option.splits)

lemma doubleFreeDecision_contract:
  "doubleFreeDecision flows exclusive c = Inr c' \<Longrightarrow> refines c c'" "doubleFreeDecision flows exclusive c = Inl why \<Longrightarrow> why \<noteq> ''''"
  by (auto simp: doubleFreeDecision_def refines_def identity_def split: if_splits option.splits)

interpretation lifetime: filter_stage "LifetimeFilter hasParser order events store" for hasParser order events store
  by unfold_locales
    (auto simp: LifetimeFilter_def Let_def split: if_splits sum.splits intro: sift_accounted [OF lifetimeDecision_contract])

interpretation double_free: filter_stage "DoubleFreeFilter hasParser order events store" for hasParser order events store
  by unfold_locales
    (auto simp: DoubleFreeFilter_def Let_def split: if_splits sum.splits intro: sift_accounted [OF doubleFreeDecision_contract])

end
