(* ===== verification/Filter_Chain.thy ===== *)
theory Filter_Chain
  imports Call_Reach Shared_Access Overflow_Guards Buffer_Flow Freed_Filters
begin

text \<open>
  The filter loop of Planner.Plan in internal/planner/planner.go, and the chains of filter_chain.go whose
  filters are all modelled.  A filter that fails keeps its input and is recorded with its error; a
  list that became empty skips the filters that are left.
\<close>

section \<open>The loop\<close>

record FilterStats =
  fsName :: string
  fsInputCount :: int
  fsOutputCount :: int
  fsError :: string

record chainResult =
  chStats :: "FilterStats list"
  chDismissed :: "Dismissed list"
  chCandidates :: "Candidate list"
  chShortCircuited :: bool

definition skippedStats :: "CandidateFilter \<Rightarrow> FilterStats" where
  "skippedStats f = \<lparr>fsName = cfName f, fsInputCount = 0, fsOutputCount = 0, fsError = ''''\<rparr>"

text \<open>One filter: what it leaves, what it adds to the ledger, and its error text.\<close>

definition applyOne :: "CandidateFilter \<Rightarrow> Candidate list \<Rightarrow> Candidate list \<times> Dismissed list \<times> string" where
  "applyOne f cs = (case cfApply f cs of Inl e \<Rightarrow> (cs, [], e) | Inr (filtered, dropped) \<Rightarrow> (filtered, dropped, ''''))"

fun applyFilters :: "CandidateFilter list \<Rightarrow> chainResult \<Rightarrow> chainResult" where
  "applyFilters [] s = s"
| "applyFilters (f # fs) s =
     (if chCandidates s = []
      then s\<lparr>chStats := chStats s @ map skippedStats (f # fs), chShortCircuited := True\<rparr>
      else (case applyOne f (chCandidates s) of
              (filtered, dropped, err) \<Rightarrow>
                applyFilters fs (s\<lparr>chStats := chStats s @ [\<lparr>fsName = cfName f, fsInputCount = int (length (chCandidates s)),
                     fsOutputCount = int (length filtered), fsError = err\<rparr>],
                   chDismissed := chDismissed s @ dropped, chCandidates := filtered\<rparr>)))"

definition runChain :: "CandidateFilter list \<Rightarrow> Candidate list \<Rightarrow> chainResult" where
  "runChain fs seed = applyFilters fs \<lparr>chStats = [], chDismissed = [], chCandidates = seed, chShortCircuited = False\<rparr>"

definition droppedByReason :: "Dismissed list \<Rightarrow> (string \<times> int) list" where
  "droppedByReason ds =
     fold (\<lambda>d m. AList.update (dmFilter d) ((case map_of m (dmFilter d) of None \<Rightarrow> 0 | Some n \<Rightarrow> n) + 1) m) ds []"


section \<open>Chains\<close>

text \<open>The suppression filter comes first in every chain.\<close>

definition withSuppression :: "string \<Rightarrow> (int \<times> int \<times> string) list answer \<Rightarrow> CandidateFilter list \<Rightarrow> CandidateFilter list" where
  "withSuppression vulnType sups fs = InlineSuppressionFilter vulnType sups # fs"

definition chainDefault :: "callReachResult answer \<Rightarrow> CandidateFilter list" where
  "chainDefault reach = [CallReachFilter reach, SafeFunctionFilter]"

definition chainDivideByZero :: "callReachResult answer \<Rightarrow> bool \<Rightarrow> rangeStore \<Rightarrow> CandidateFilter list" where
  "chainDivideByZero reach hasParser store = [CallReachFilter reach, SafeFunctionFilter, RangeFilter hasParser store]"

definition chainMemoryLeak ::
  "callReachResult answer \<Rightarrow> (int \<times> string \<times> int) list answer \<Rightarrow> int list answer \<Rightarrow> variableRef list answer \<Rightarrow> CandidateFilter list" where
  "chainMemoryLeak reach releases edges nodes =
     [CallReachFilter reach, SafeFunctionFilter, ReleaseFilter ''MEMORY_RELEASE'' releases, OwnershipTransferFilter edges nodes, LeakProofFilter]"

definition chainResourceLeak ::
  "callReachResult answer \<Rightarrow> (int \<times> string \<times> int) list answer \<Rightarrow> int list answer \<Rightarrow> variableRef list answer \<Rightarrow> CandidateFilter list" where
  "chainResourceLeak reach releases edges nodes =
     [CallReachFilter reach, SafeFunctionFilter, ReleaseFilter ''RESOURCE_RELEASE'' releases, OwnershipTransferFilter edges nodes, LeakProofFilter]"

definition chainHardcodedSecret :: "callReachResult answer \<Rightarrow> (int \<times> bool) list answer \<Rightarrow> CandidateFilter list" where
  "chainHardcodedSecret reach events = [CallReachFilter reach, SafeFunctionFilter, HardcodedSecretProofFilter events]"

definition chainBufferOverflow :: "callReachResult answer \<Rightarrow> bool \<Rightarrow> rangeStore \<Rightarrow> CandidateFilter list" where
  "chainBufferOverflow reach hasParser store =
     [CallReachFilter reach, SafeFunctionFilter, RangeOOBFilter hasParser store, BufferRangeFilter hasParser store, BufferFlowFilter hasParser store]"

definition chainIntegerOverflow :: "callReachResult answer \<Rightarrow> bool \<Rightarrow> argCensus option \<Rightarrow> rangeStore \<Rightarrow> CandidateFilter list" where
  "chainIntegerOverflow reach hasParser census store =
     [CallReachFilter reach, SafeFunctionFilter, IntOverflowGuardFilter hasParser census store, UnsignedSubGuardFilter hasParser store]"

definition chainDeadlock :: "callReachResult answer \<Rightarrow> (string list \<Rightarrow> string list) \<Rightarrow> lockStore \<Rightarrow> CandidateFilter list" where
  "chainDeadlock reach names locks = [CallReachFilter reach, SafeFunctionFilter, LockOrderFilter names locks]"

definition chainRaceCondition :: "callReachResult answer \<Rightarrow> accessStore \<Rightarrow> CandidateFilter list" where
  "chainRaceCondition reach accesses = [CallReachFilter reach, SafeFunctionFilter, SharedAccessFilter accesses]"

definition chainLifetime ::
  "callReachResult answer \<Rightarrow> bool \<Rightarrow> (int list \<Rightarrow> int list) \<Rightarrow> (int \<times> freeProps) list answer \<Rightarrow> freedStore \<Rightarrow> CandidateFilter list" where
  "chainLifetime reach hasParser order frees freed = [CallReachFilter reach, SafeFunctionFilter, LifetimeFilter hasParser order frees freed]"

definition chainDoubleFree ::
  "callReachResult answer \<Rightarrow> bool \<Rightarrow> (int list \<Rightarrow> int list) \<Rightarrow> (int \<times> freeProps) list answer \<Rightarrow> freedStore \<Rightarrow> CandidateFilter list" where
  "chainDoubleFree reach hasParser order frees freed = [CallReachFilter reach, SafeFunctionFilter, DoubleFreeFilter hasParser order frees freed]"

definition stages :: "CandidateFilter list \<Rightarrow> bool" where
  "stages fs \<longleftrightarrow> (\<forall>f \<in> set fs. filter_stage f)"

lemma stages_simps [simp]: "stages []" "stages (f # fs) \<longleftrightarrow> filter_stage f \<and> stages fs"
  by (auto simp: stages_def)

lemmas modelled_stages = suppression.filter_stage_axioms call_reach.filter_stage_axioms safe_function.filter_stage_axioms
  range.filter_stage_axioms release.filter_stage_axioms ownership.filter_stage_axioms leak_proof.filter_stage_axioms
  secret.filter_stage_axioms type_expr.filter_stage_axioms non_nullable.filter_stage_axioms array_oob.filter_stage_axioms
  boundary.filter_stage_axioms uninit_weak.filter_stage_axioms range_oob.filter_stage_axioms buffer_range.filter_stage_axioms
  buffer_flow.filter_stage_axioms int_overflow.filter_stage_axioms unsigned_sub.filter_stage_axioms
  lock_order.filter_stage_axioms shared_access.filter_stage_axioms lifetime.filter_stage_axioms double_free.filter_stage_axioms

lemma modelled_chains:
  "stages (withSuppression v sups (chainDefault reach))"
  "stages (withSuppression v sups (chainDivideByZero reach hasParser store))"
  "stages (withSuppression v sups (chainMemoryLeak reach releases edges nodes))"
  "stages (withSuppression v sups (chainResourceLeak reach releases edges nodes))"
  "stages (withSuppression v sups (chainHardcodedSecret reach events))"
  "stages (withSuppression v sups (chainBufferOverflow reach hasParser store))"
  "stages (withSuppression v sups (chainIntegerOverflow reach hasParser census store))"
  "stages (withSuppression v sups (chainDeadlock reach names locks))"
  "stages (withSuppression v sups (chainRaceCondition reach accesses))"
  "stages (withSuppression v sups (chainLifetime reach hasParser order frees freed))"
  "stages (withSuppression v sups (chainDoubleFree reach hasParser order frees freed))"
  by (simp_all add: withSuppression_def chainDefault_def chainDivideByZero_def chainMemoryLeak_def chainResourceLeak_def
      chainHardcodedSecret_def chainBufferOverflow_def chainIntegerOverflow_def chainDeadlock_def chainRaceCondition_def
      chainLifetime_def chainDoubleFree_def modelled_stages)


section \<open>What the loop keeps\<close>

lemma applyOne_accounted: "filter_stage f \<Longrightarrow> applyOne f cs = (kept, dropped, err) \<Longrightarrow> accounted {cfName f} cs kept dropped"
  by (auto simp: applyOne_def filter_stage_def split: sum.splits)

lemma applyFilters_grows:
  "\<exists>sts ds. chStats (applyFilters fs s) = chStats s @ sts \<and> chDismissed (applyFilters fs s) = chDismissed s @ ds"
proof (induction fs arbitrary: s)
  case (Cons f fs)
  obtain k d e where a: "applyOne f (chCandidates s) = (k, d, e)" by (cases "applyOne f (chCandidates s)")
  show ?case
  proof (cases "chCandidates s = []")
    case False
    let ?s = "s\<lparr>chStats := chStats s @ [\<lparr>fsName = cfName f, fsInputCount = int (length (chCandidates s)),
                     fsOutputCount = int (length k), fsError = e\<rparr>], chDismissed := chDismissed s @ d, chCandidates := k\<rparr>"
    from Cons.IH [of ?s] obtain sts ds where "chStats (applyFilters fs ?s) = chStats ?s @ sts"
      "chDismissed (applyFilters fs ?s) = chDismissed ?s @ ds" by blast
    with a False show ?thesis by simp
  qed simp
qed simp

lemma applyFilters_accounted:
  assumes "stages fs"
  shows "\<exists>ds. chDismissed (applyFilters fs s) = chDismissed s @ ds
     \<and> accounted (cfName ` set fs) (chCandidates s) (chCandidates (applyFilters fs s)) ds"
  using assms
proof (induction fs arbitrary: s)
  case (Cons f fs)
  obtain k d e where a: "applyOne f (chCandidates s) = (k, d, e)" by (cases "applyOne f (chCandidates s)")
  show ?case
  proof (cases "chCandidates s = []")
    case False
    let ?s = "s\<lparr>chStats := chStats s @ [\<lparr>fsName = cfName f, fsInputCount = int (length (chCandidates s)),
                     fsOutputCount = int (length k), fsError = e\<rparr>], chDismissed := chDismissed s @ d, chCandidates := k\<rparr>"
    obtain ds where ds: "chDismissed (applyFilters fs ?s) = chDismissed ?s @ ds"
      "accounted (cfName ` set fs) k (chCandidates (applyFilters fs ?s)) ds" using Cons.IH [of ?s] Cons.prems by auto
    have "accounted {cfName f} (chCandidates s) k d" using applyOne_accounted [OF _ a] Cons.prems by simp
    from accounted_trans [OF this ds(2)] ds(1) a False show ?thesis by (intro exI [of _ "d @ ds"]) simp
  qed (auto intro: exI [of _ "[]"])
qed simp

text \<open>C30: nothing is lost on the way through a chain of filters.  Every seed candidate ends either among the
  remaining candidates, in its place and with its identity, its tier unchanged or raised to confirmed, or in the
  ledger of dismissals, once, with the name of a filter of the chain and a reason; the counts add up.  This
  holds for the chains of divide-by-zero, both leaks, hard-coded secrets, buffer and integer overflows, deadlocks,
  races, uses after free and double frees and for the default chain, with the suppression filter
  first, whatever the store answers.
\<close>

theorem chains_account:
  assumes "fs \<in> {withSuppression v sups (chainDefault reach), withSuppression v sups (chainDivideByZero reach hasParser store),
      withSuppression v sups (chainMemoryLeak reach releases edges nodes), withSuppression v sups (chainResourceLeak reach releases edges nodes),
      withSuppression v sups (chainHardcodedSecret reach events), withSuppression v sups (chainBufferOverflow reach hasParser store),
      withSuppression v sups (chainIntegerOverflow reach hasParser census store), withSuppression v sups (chainDeadlock reach names locks),
      withSuppression v sups (chainRaceCondition reach accesses), withSuppression v sups (chainLifetime reach hasParser order frees freed),
      withSuppression v sups (chainDoubleFree reach hasParser order frees freed)}"
  shows "accounted (cfName ` set fs) seed (chCandidates (runChain fs seed)) (chDismissed (runChain fs seed))
    \<and> length (chCandidates (runChain fs seed)) + length (chDismissed (runChain fs seed)) = length seed"
proof -
  have "stages fs" using assms modelled_chains by auto
  from applyFilters_accounted [OF this, of "\<lparr>chStats = [], chDismissed = [], chCandidates = seed, chShortCircuited = False\<rparr>"]
  have "accounted (cfName ` set fs) seed (chCandidates (runChain fs seed)) (chDismissed (runChain fs seed))"
    by (auto simp: runChain_def)
  with accounted_count [OF this] show ?thesis by blast
qed

theorem chains_account_witness:
  "length (chCandidates (runChain (withSuppression ''divide-by-zero'' (Inr [(1, 3, ''all'')]) (chainDefault (Inl ''no such table'')))
      [plainCandidate 1 ''f'' ''p'' 3, plainCandidate 1 ''g'' ''q'' 9]))
   + length (chDismissed (runChain (withSuppression ''divide-by-zero'' (Inr [(1, 3, ''all'')]) (chainDefault (Inl ''no such table'')))
      [plainCandidate 1 ''f'' ''p'' 3, plainCandidate 1 ''g'' ''q'' 9])) = 2"
  using chains_account [where fs = "withSuppression ''divide-by-zero'' (Inr [(1, 3, ''all'')]) (chainDefault (Inl ''no such table''))"
      and v = "''divide-by-zero''" and sups = "Inr [(1, 3, ''all'')]" and reach = "Inl ''no such table''"
      and seed = "[plainCandidate 1 ''f'' ''p'' 3, plainCandidate 1 ''g'' ''q'' 9]"]
  by simp

text \<open>A filter that fails on what it is given.\<close>

definition plainResult :: "chainResult \<Rightarrow> Dismissed list \<times> Candidate list" where
  "plainResult s = (chDismissed s, chCandidates s)"

lemma applyFilters_plain:
  "plainResult s = plainResult t \<Longrightarrow> plainResult (applyFilters fs s) = plainResult (applyFilters fs t)"
proof (induction fs arbitrary: s t)
  case (Cons f fs)
  show ?case
  proof (cases "chCandidates s = []")
    case True
    with Cons.prems show ?thesis by (simp add: plainResult_def)
  next
    case False
    obtain k d e where a: "applyOne f (chCandidates s) = (k, d, e)" by (cases "applyOne f (chCandidates s)")
    have c: "chCandidates t = chCandidates s" using Cons.prems by (simp add: plainResult_def)
    show ?thesis using Cons.prems a c False Cons.IH by (simp add: plainResult_def)
  qed
qed simp

lemma applyFilters_append: "applyFilters (xs @ ys) s = (if chCandidates (applyFilters xs s) = [] \<and> chShortCircuited (applyFilters xs s) \<and> \<not> chShortCircuited s
    then (applyFilters xs s)\<lparr>chStats := chStats (applyFilters xs s) @ map skippedStats ys\<rparr> else applyFilters ys (applyFilters xs s))"
  if "\<not> chShortCircuited s"
  using that
proof (induction xs arbitrary: s)
  case (Cons x xs)
  show ?case
  proof (cases "chCandidates s = []")
    case False
    obtain k d e where a: "applyOne x (chCandidates s) = (k, d, e)" by (cases "applyOne x (chCandidates s)")
    show ?thesis using False a Cons by simp
  qed (use Cons.prems in simp)
qed simp

lemma applyFilters_empty: "chCandidates s = [] \<Longrightarrow> plainResult (applyFilters fs s) = plainResult s"
  by (cases fs) (simp_all add: plainResult_def)

text \<open>A filter that fails adds its entry to the statistics and nothing else.\<close>

lemma applyFilters_failing:
  assumes "chCandidates s \<noteq> []" "applyOne f (chCandidates s) = (chCandidates s, [], e)"
  shows "plainResult (applyFilters (f # fs) s) = plainResult (applyFilters fs s)"
proof -
  let ?t = "s\<lparr>chStats := chStats s @ [\<lparr>fsName = cfName f, fsInputCount = int (length (chCandidates s)),
                     fsOutputCount = int (length (chCandidates s)), fsError = e\<rparr>],
              chDismissed := chDismissed s @ [], chCandidates := chCandidates s\<rparr>"
  have "applyFilters (f # fs) s = applyFilters fs ?t" using assms by simp
  moreover have "plainResult (applyFilters fs ?t) = plainResult (applyFilters fs s)"
    by (rule applyFilters_plain) (simp add: plainResult_def)
  ultimately show ?thesis by simp
qed

text \<open>Every filter of a chain has one entry, in order; its input is the output of the one before.\<close>

lemma applyFilters_stats:
  "map fsName (chStats (applyFilters fs s)) = map fsName (chStats s) @ map cfName fs"
proof (induction fs arbitrary: s)
  case (Cons f fs)
  obtain k d e where "applyOne f (chCandidates s) = (k, d, e)" by (cases "applyOne f (chCandidates s)")
  with Cons show ?case by (simp add: skippedStats_def o_def)
qed simp

text \<open>C12: a filter that fails changes nothing but the statistics.  If a filter of a chain returns an error on
  every input, the chain leaves the same candidates and the same ledger as the chain without it; the statistics
  still have one entry per filter in order, and the entry of the filter that failed records its error with
  equal counts, or it was skipped because no candidate was left.\<close>

theorem failing_filter_neutral:
  assumes "\<And>cs. cfApply f cs = Inl e"
  shows "chCandidates (runChain (xs @ f # ys) seed) = chCandidates (runChain (xs @ ys) seed)
    \<and> chDismissed (runChain (xs @ f # ys) seed) = chDismissed (runChain (xs @ ys) seed)
    \<and> map fsName (chStats (runChain (xs @ f # ys) seed)) = map cfName (xs @ f # ys)
    \<and> (\<exists>st. chStats (runChain (xs @ f # ys) seed) ! length xs = st
          \<and> (st = skippedStats f \<or> fsError st = e \<and> fsInputCount st = fsOutputCount st))"
proof -
  let ?s0 = "\<lparr>chStats = [], chDismissed = [], chCandidates = seed, chShortCircuited = False\<rparr>"
  let ?mid = "applyFilters xs ?s0"
  have one: "applyOne f cs = (cs, [], e)" for cs using assms by (simp add: applyOne_def)
  have names: "map fsName (chStats ?mid) = map cfName xs" using applyFilters_stats [of xs ?s0] by simp
  have len: "length (chStats ?mid) = length xs" using arg_cong [OF names, of length] by simp
  have fails: "plainResult (applyFilters (f # ys) ?mid) = plainResult (applyFilters ys ?mid)"
  proof (cases "chCandidates ?mid = []")
    case True
    then show ?thesis using applyFilters_empty by metis
  next
    case False
    then show ?thesis using one by (intro applyFilters_failing)
  qed
  have plain: "plainResult (runChain (xs @ f # ys) seed) = plainResult (runChain (xs @ ys) seed)"
    using fails by (simp add: runChain_def applyFilters_append plainResult_def)
  have "chStats (runChain (xs @ f # ys) seed) ! length xs = skippedStats f
     \<or> fsError (chStats (runChain (xs @ f # ys) seed) ! length xs) = e
        \<and> fsInputCount (chStats (runChain (xs @ f # ys) seed) ! length xs) = fsOutputCount (chStats (runChain (xs @ f # ys) seed) ! length xs)"
  proof (cases "chCandidates ?mid = []")
    case True
    then show ?thesis using len by (simp add: runChain_def applyFilters_append nth_append)
  next
    case False
    let ?t = "?mid\<lparr>chStats := chStats ?mid @ [\<lparr>fsName = cfName f, fsInputCount = int (length (chCandidates ?mid)),
                     fsOutputCount = int (length (chCandidates ?mid)), fsError = e\<rparr>]\<rparr>"
    obtain sts where "chStats (applyFilters ys ?t) = chStats ?t @ sts" using applyFilters_grows by blast
    then show ?thesis using False one len by (simp add: runChain_def applyFilters_append nth_append)
  qed
  with plain applyFilters_stats [of "xs @ f # ys" ?s0] show ?thesis by (simp add: plainResult_def runChain_def)
qed

theorem failing_filter_neutral_witness:
  "chCandidates (runChain ([SafeFunctionFilter] @ ReleaseFilter ''MEMORY_RELEASE'' (Inl ''closed'') # [LeakProofFilter]) [plainCandidate 1 ''f'' ''p'' 3])
    = chCandidates (runChain ([SafeFunctionFilter] @ [LeakProofFilter]) [plainCandidate 1 ''f'' ''p'' 3])"
  using failing_filter_neutral [of "ReleaseFilter ''MEMORY_RELEASE'' (Inl ''closed'')" "''release filter (MEMORY_RELEASE): closed''"
      "[SafeFunctionFilter]" "[LeakProofFilter]" "[plainCandidate 1 ''f'' ''p'' 3]"]
  by (simp add: ReleaseFilter_def)

end
