(* ===== verification/Slots.thy ===== *)
theory Slots
  imports Prelude "HOL-Library.Multiset"
begin

text \<open>
  The loop that gathers a list by a key in a map from keys to positions of the result, as three functions of
  internal/planner/planner.go have it, and the groups it computes: one per key, in the order of their
  first members.  An element without a key is a group of its own.
\<close>

definition slotStep :: "('a \<Rightarrow> string option) \<Rightarrow> ('a \<Rightarrow> 'b) \<Rightarrow> ('a \<Rightarrow> 'b \<Rightarrow> 'b) \<Rightarrow> 'a \<Rightarrow>
    (string \<times> nat) list \<times> 'b list \<Rightarrow> (string \<times> nat) list \<times> 'b list" where
  "slotStep key start merge c = (\<lambda>(seen, result).
     case key c of
       None \<Rightarrow> (seen, result @ [start c])
     | Some k \<Rightarrow>
         (case map_of seen k of
            None \<Rightarrow> (seen @ [(k, length result)], result @ [start c])
          | Some i \<Rightarrow> (seen, result[i := merge c (result ! i)])))"

lemma slotStep_unkeyed: "key c = None \<Longrightarrow> slotStep key start merge c (seen, result) = (seen, result @ [start c])"
  by (simp add: slotStep_def)

lemma slotStep_new: "key c = Some k \<Longrightarrow> map_of seen k = None \<Longrightarrow>
   slotStep key start merge c (seen, result) = (seen @ [(k, length result)], result @ [start c])"
  by (simp add: slotStep_def)

lemma slotStep_old: "key c = Some k \<Longrightarrow> map_of seen k = Some i \<Longrightarrow>
   slotStep key start merge c (seen, result) = (seen, result[i := merge c (result ! i)])"
  by (simp add: slotStep_def)

definition gather :: "('a \<Rightarrow> string option) \<Rightarrow> ('a \<Rightarrow> 'b) \<Rightarrow> ('a \<Rightarrow> 'b \<Rightarrow> 'b) \<Rightarrow> 'a list \<Rightarrow> 'b list" where
  "gather key start merge cs = snd (fold (slotStep key start merge) cs ([], []))"


section \<open>The groups of a list\<close>

function groups :: "('a \<Rightarrow> 'k option) \<Rightarrow> 'a list \<Rightarrow> 'a list list" where
  "groups key [] = []"
| "groups key (x # xs) =
     (if key x = None then [x] # groups key xs
      else (x # filter (\<lambda>y. key y = key x) xs) # groups key (filter (\<lambda>y. key y \<noteq> key x) xs))"
  by pat_completeness auto
termination by (relation "measure (length \<circ> snd)") (auto simp: le_imp_less_Suc length_filter_le)

lemma groups_keyed:
  "key x \<noteq> None \<Longrightarrow> groups key (x # xs) = (x # filter (\<lambda>y. key y = key x) xs) # groups key (filter (\<lambda>y. key y \<noteq> key x) xs)"
  by (simp only: groups.simps if_False)

lemma groups_nonempty: "g \<in> set (groups key cs) \<Longrightarrow> g \<noteq> []"
  by (induction key cs rule: groups.induct) (auto split: if_splits)

lemma groups_mset: "mset (concat (groups key cs)) = mset cs"
proof (induction key cs rule: groups.induct)
  case (2 key x xs)
  have "mset (filter (\<lambda>y. key y = key x) xs) + mset (filter (\<lambda>y. key y \<noteq> key x) xs) = mset xs"
    by (simp add: multiset_partition [symmetric])
  with 2 show ?case by simp
qed simp

lemma groups_set: "(\<Union>g \<in> set (groups key cs). set g) = set cs"
  using groups_mset [of key cs] by (metis mset_eq_setD set_concat)

lemma groups_sub: "g \<in> set (groups key cs) \<Longrightarrow> x \<in> set g \<Longrightarrow> x \<in> set cs"
  unfolding groups_set [of key cs, symmetric] by (rule UN_I)

lemma groups_cover: "x \<in> set cs \<Longrightarrow> \<exists>g \<in> set (groups key cs). x \<in> set g"
  unfolding groups_set [of key cs, symmetric] by (erule UN_E) (rule bexI)

lemma groups_key: "g \<in> set (groups key cs) \<Longrightarrow> x \<in> set g \<Longrightarrow> y \<in> set g \<Longrightarrow> key x = key y"
  by (induction key cs rule: groups.induct) (auto split: if_splits)

lemma groups_single: "g \<in> set (groups key cs) \<Longrightarrow> x \<in> set g \<Longrightarrow> key x = None \<Longrightarrow> g = [x]"
  by (induction key cs rule: groups.induct) (auto split: if_splits)

text \<open>A group with a key holds every element with it, in order.\<close>

lemma groups_filter: "g \<in> set (groups key cs) \<Longrightarrow> x \<in> set g \<Longrightarrow> key x \<noteq> None \<Longrightarrow> g = filter (\<lambda>y. key y = key x) cs"
proof (induction key cs rule: groups.induct)
  case (2 key a xs)
  let ?rest = "filter (\<lambda>y. key y \<noteq> key a) xs"
  show ?case
  proof (cases "g \<in> set (groups key ?rest) \<and> key a \<noteq> None")
    case True
    then have "x \<in> set ?rest" using groups_set [of key ?rest] 2(4) by blast
    then have "key x \<noteq> key a" by simp
    then have "filter (\<lambda>y. key y = key x) ?rest = filter (\<lambda>y. key y = key x) (a # xs)" by (auto simp: conj_commute intro!: filter_cong)
    moreover have "g = filter (\<lambda>y. key y = key x) ?rest" using 2 True by blast
    ultimately show ?thesis by simp
  next
    case False
    then show ?thesis using 2 by (auto split: if_splits)
  qed
qed simp

definition groupAdd :: "('a \<Rightarrow> 'k option) \<Rightarrow> 'a \<Rightarrow> 'a list list \<Rightarrow> 'a list list" where
  "groupAdd key x G =
     (if key x = None \<or> (\<forall>g \<in> set G. key (hd g) \<noteq> key x) then G @ [[x]]
      else map (\<lambda>g. if key (hd g) = key x then g @ [x] else g) G)"

lemma groupAdd_map_other: "\<forall>g \<in> set G. key (hd g) \<noteq> key x \<Longrightarrow> map (\<lambda>g. if key (hd g) = key x then g @ [x] else g) G = G"
  by (induction G) auto

lemma groups_hd_key: "g \<in> set (groups key cs) \<Longrightarrow> hd g \<in> set cs"
  using groups_set groups_nonempty by fastforce

lemma groups_snoc: "groups key (xs @ [x]) = groupAdd key x (groups key xs)"
proof (induction key xs rule: groups.induct)
  case (2 key a xs)
  show ?case
  proof (cases "key a = None")
    case True
    with 2 show ?thesis by (auto simp: groupAdd_def)
  next
    case False
    let ?rest = "filter (\<lambda>y. key y \<noteq> key a) xs"
    show ?thesis
    proof (cases "key x = key a")
      case True
      have "\<forall>g \<in> set (groups key ?rest). key (hd g) \<noteq> key x" using groups_hd_key True by fastforce
      then have other: "map (\<lambda>g. if key (hd g) = key x then g @ [x] else g) (groups key ?rest) = groups key ?rest"
        by (rule groupAdd_map_other)
      let ?mine = "a # filter (\<lambda>y. key y = key a) xs"
      have l: "groups key ((a # xs) @ [x]) = (?mine @ [x]) # groups key ?rest" using False True by simp
      have G: "groups key (a # xs) = ?mine # groups key ?rest" by (rule groups_keyed [where key = key and x = a, OF False])
      have "groupAdd key x (groups key (a # xs)) = (?mine @ [x]) # groups key ?rest"
        unfolding groupAdd_def G using False True other by simp
      with l show ?thesis by simp
    next
      case other: False
      then have "groups key ((a # xs) @ [x]) = (a # filter (\<lambda>y. key y = key a) xs) # groups key (?rest @ [x])"
        using groups_keyed [where key = key and x = a and xs = "xs @ [x]", OF False] by (simp del: groups.simps)
      moreover have "groups key (?rest @ [x]) = groupAdd key x (groups key ?rest)" using 2(2) [OF False] other by simp
      ultimately show ?thesis using False other by (auto simp: groupAdd_def)
    qed
  qed
qed (simp add: groupAdd_def)

lemma groups_distinct: "distinct (map (\<lambda>g. key (hd g)) (filter (\<lambda>g. key (hd g) \<noteq> None) (groups key cs)))"
proof (induction key cs rule: groups.induct)
  case (2 key a xs)
  show ?case
  proof (cases "key a = None")
    case False
    have "key (hd g) \<noteq> key a" if "g \<in> set (groups key (filter (\<lambda>y. key y \<noteq> key a) xs))" for g
      using groups_hd_key [OF that] by simp
    with 2 False show ?thesis by fastforce
  qed (use 2 in simp)
qed simp

text \<open>Keys of distinct groups differ.\<close>

lemma groups_index_key:
  assumes "i < length (groups key cs)" "j < length (groups key cs)" "key (hd (groups key cs ! i)) = key (hd (groups key cs ! j))"
    "key (hd (groups key cs ! i)) \<noteq> None"
  shows "i = j"
  using assms
proof (induction key cs arbitrary: i j rule: groups.induct)
  case (2 key a xs)
  show ?case
  proof (cases "key a = None")
    case True
    with 2 show ?thesis by (cases i; cases j) auto
  next
    case False
    let ?r = "groups key (filter (\<lambda>y. key y \<noteq> key a) xs)"
    have ne: "key (hd (?r ! n)) \<noteq> key a" if "n < length ?r" for n using groups_hd_key [OF nth_mem [OF that]] by simp
    have G: "groups key (a # xs) = (a # filter (\<lambda>y. key y = key a) xs) # ?r" by (rule groups_keyed [where key = key and x = a, OF False])
    note p = 2(3-)[unfolded G]
    show ?thesis
    proof (cases i)
      case 0
      with p ne show ?thesis by (cases j) (auto dest: sym)
    next
      case (Suc m)
      with p ne have "j \<noteq> 0" by (cases j) auto
      then obtain n where "j = Suc n" by (cases j) auto
      with p Suc 2(2) [OF False, of m n] show ?thesis by simp
    qed
  qed
qed simp


section \<open>The loop computes the groups\<close>

definition mergeGroup :: "('a \<Rightarrow> 'b) \<Rightarrow> ('a \<Rightarrow> 'b \<Rightarrow> 'b) \<Rightarrow> 'a list \<Rightarrow> 'b" where
  "mergeGroup start merge g = fold merge (tl g) (start (hd g))"

lemma mergeGroup_single [simp]: "mergeGroup start merge [x] = start x"
  by (simp add: mergeGroup_def)

lemma mergeGroup_snoc: "g \<noteq> [] \<Longrightarrow> mergeGroup start merge (g @ [x]) = merge x (mergeGroup start merge g)"
  by (cases g) (simp_all add: mergeGroup_def)

definition slotInv :: "('a \<Rightarrow> string option) \<Rightarrow> 'a list \<Rightarrow> (string \<times> nat) list \<Rightarrow> bool" where
  "slotInv key cs seen \<longleftrightarrow>
     (\<forall>k i. map_of seen k = Some i \<longleftrightarrow> i < length (groups key cs) \<and> key (hd (groups key cs ! i)) = Some k)"

lemma slots_groups:
  "\<exists>seen. fold (slotStep key start merge) cs ([], []) = (seen, map (mergeGroup start merge) (groups key cs)) \<and> slotInv key cs seen"
proof (induction cs rule: rev_induct)
  case Nil
  show ?case by (simp add: slotInv_def)
next
  case (snoc x xs)
  let ?G = "groups key xs" and ?m = "mergeGroup start merge"
  obtain seen where s: "fold (slotStep key start merge) xs ([], []) = (seen, map ?m ?G)" "slotInv key xs seen"
    using snoc by blast
  have hd_app: "hd (g @ [x]) = hd g" if "g \<in> set ?G" for g using groups_nonempty [OF that] by simp
  show ?case
  proof (cases "key x")
    case None
    then have G: "groups key (xs @ [x]) = ?G @ [[x]]" by (simp add: groups_snoc groupAdd_def)
    have "slotInv key (xs @ [x]) seen" using s(2) None unfolding slotInv_def G by (auto simp: nth_append less_Suc_eq)
    with s(1) G None show ?thesis by (simp add: slotStep_unkeyed)
  next
    case (Some k)
    show ?thesis
    proof (cases "map_of seen k")
      case None
      then have "\<forall>g \<in> set ?G. key (hd g) \<noteq> key x" using s(2) Some unfolding slotInv_def by (metis in_set_conv_nth option.discI)
      then have G: "groups key (xs @ [x]) = ?G @ [[x]]" by (simp add: groups_snoc groupAdd_def)
      have "slotInv key (xs @ [x]) (seen @ [(k, length ?G)])"
      proof -
        have m: "map_of (seen @ [(k, length ?G)]) k' = Some i \<longleftrightarrow> map_of seen k' = Some i \<or> k' = k \<and> i = length ?G" for k' i
          using None by (cases "map_of seen k'") (auto simp: map_add_def)
        show ?thesis using s(2) Some unfolding slotInv_def G m by (auto simp: nth_append less_Suc_eq)
      qed
      with s(1) G Some None show ?thesis by (simp add: slotStep_new)
    next
      case i: (Some i)
      then have ik: "i < length ?G" "key (hd (?G ! i)) = key x" using s(2) Some unfolding slotInv_def by auto
      have only: "key (hd (?G ! j)) = key x \<longleftrightarrow> j = i" if "j < length ?G" for j
        using groups_index_key [OF that ik(1)] ik(2) Some by (metis option.distinct(1))
      have G: "groups key (xs @ [x]) = ?G[i := ?G ! i @ [x]]"
      proof -
        have "groups key (xs @ [x]) = map (\<lambda>g. if key (hd g) = key x then g @ [x] else g) ?G"
          using ik Some nth_mem [OF ik(1)] unfolding groups_snoc groupAdd_def by (metis option.discI)
        also have "\<dots> = ?G[i := ?G ! i @ [x]]" by (rule nth_equalityI) (auto simp: only nth_list_update)
        finally show ?thesis .
      qed
      have hdi: "hd (?G ! i @ [x]) = hd (?G ! i)" using hd_app nth_mem [OF ik(1)] by blast
      have "slotInv key (xs @ [x]) seen"
      proof -
        have h: "hd (?G[i := ?G ! i @ [x]] ! j) = hd (?G ! j)" for j
          using hdi by (cases "j = i") (use ik(1) in auto)
        show ?thesis using s(2) unfolding slotInv_def G h by simp
      qed
      moreover have "?m (?G ! i @ [x]) = merge x (?m (?G ! i))" using mergeGroup_snoc groups_nonempty nth_mem [OF ik(1)] by metis
      ultimately show ?thesis using s(1) Some i ik(1) G by (simp add: slotStep_old map_update)
    qed
  qed
qed

theorem gather_groups: "gather key start merge cs = map (mergeGroup start merge) (groups key cs)"
  using slots_groups [of key start merge cs] by (auto simp: gather_def)

lemma gather_all_keyed_distinct:
  assumes "\<And>c. c \<in> set cs \<Longrightarrow> key c \<noteq> None"
  shows "distinct (map (\<lambda>g. key (hd g)) (groups key cs))"
proof -
  have "filter (\<lambda>g. key (hd g) \<noteq> None) (groups key cs) = groups key cs" by (rule filter_True) (use assms groups_hd_key in blast)
  then show ?thesis using groups_distinct [of key cs] by simp
qed

end
