(* ===== verification/Candidate_Dedup.thy ===== *)
theory Candidate_Dedup
  imports Candidates Slots "HOL-Library.Char_ord" "HOL-Library.List_Lexorder"
begin

text \<open>
  What Planner.Plan does with the candidates the filters leave (internal/planner/planner.go): the
  deduplication, the folding of forwarding chains, and the clustering by shape.  Of a type's specification
  (registry.go) the model has the fields they read.
\<close>

section \<open>Deduplication\<close>

record VulnTypeSpec =
  vtName :: string
  vtConvergeByVariable :: bool
  vtConvergeKey :: "(Candidate \<Rightarrow> string) option"
  vtShapeKey :: "(Candidate \<Rightarrow> string) option"

definition suspicionRank :: "string \<Rightarrow> int" where
  "suspicionRank s = (if s = ''confirmed'' then 3 else if s = ''suspected'' then 2 else if s = ''possible'' then 1 else 0)"

definition appendUniqueLine :: "int list \<Rightarrow> int \<Rightarrow> int list" where
  "appendUniqueLine lines line = (if line \<le> 0 then lines else if line \<in> set lines then lines else lines @ [line])"

definition addLines :: "int list \<Rightarrow> int list \<Rightarrow> int list" where
  "addLines lines new = fold (\<lambda>l ls. appendUniqueLine ls l) new lines"

definition dedupKey :: "VulnTypeSpec \<Rightarrow> Candidate \<Rightarrow> string" where
  "dedupKey spec c =
     (case vtConvergeKey spec of
        Some key \<Rightarrow> key c
      | None \<Rightarrow>
          if vtConvergeByVariable spec
          then formatInt (FileID c) @ '':'' @ FunctionName c @ '':'' @ VariableName c
          else formatInt (FileID c) @ '':'' @ formatInt (Line c) @ '':'' @ FunctionName c @ '':'' @ VariableName c)"

definition withOwnLine :: "VulnTypeSpec \<Rightarrow> Candidate \<Rightarrow> Candidate" where
  "withOwnLine spec c =
     (if vtConvergeByVariable spec then c\<lparr>DerefLines := appendUniqueLine (DerefLines c) (Line c)\<rparr> else c)"

definition replaces :: "Candidate \<Rightarrow> Candidate \<Rightarrow> bool" where
  "replaces c keep \<longleftrightarrow> suspicionRank (SuspicionLevel c) > suspicionRank (SuspicionLevel keep)
     \<or> suspicionRank (SuspicionLevel c) = suspicionRank (SuspicionLevel keep) \<and> Line c < Line keep"

definition mergeInto :: "VulnTypeSpec \<Rightarrow> Candidate \<Rightarrow> Candidate \<Rightarrow> Candidate" where
  "mergeInto spec c keep =
     (let lines = (if vtConvergeByVariable spec then addLines (DerefLines keep) (DerefLines c) else DerefLines keep) in
      if replaces c keep then c\<lparr>DerefLines := lines\<rparr> else keep\<lparr>DerefLines := lines\<rparr>)"

definition sortLines :: "Candidate \<Rightarrow> Candidate" where
  "sortLines c = (if 1 < length (DerefLines c) then c\<lparr>DerefLines := sort (DerefLines c)\<rparr> else c)"

definition deduplicateCandidates :: "Candidate list \<Rightarrow> VulnTypeSpec \<Rightarrow> Candidate list" where
  "deduplicateCandidates candidates spec =
     map sortLines (gather (\<lambda>c. Some (dedupKey spec c)) (\<lambda>c. c) (mergeInto spec) (map (withOwnLine spec) candidates))"


section \<open>Forwarding chains\<close>

definition shouldChainFold :: "Candidate \<Rightarrow> bool" where
  "shouldChainFold c \<longleftrightarrow> \<not> HasDefiniteNull c \<and> (NullOriginTier c = ''caller-arg'' \<or> NullOriginTier c = ''callback-entry'')
     \<and> ChainRoot c \<noteq> ''''"

definition chainKey :: "Candidate \<Rightarrow> string option" where
  "chainKey c = (if shouldChainFold c then Some (formatInt (FileID c) @ '':'' @ VariableName c @ '':'' @ ChainRoot c) else None)"

text \<open>A slot is the candidate that is kept and the functions it has seen.\<close>

definition chainStart :: "Candidate \<Rightarrow> Candidate \<times> string list" where
  "chainStart c = (if shouldChainFold c then (c\<lparr>ChainFunctions := []\<rparr>, [FunctionName c]) else (c, []))"

definition chainMerge :: "Candidate \<Rightarrow> Candidate \<times> string list \<Rightarrow> Candidate \<times> string list" where
  "chainMerge c = (\<lambda>(keep, funcs).
     let k1 = keep\<lparr>DerefLines := appendUniqueLine (addLines (DerefLines keep) (DerefLines c)) (Line c)\<rparr>;
         (k2, funcs') = (if FunctionName c \<in> set funcs then (k1, funcs)
                         else (k1\<lparr>ChainFunctions := ChainFunctions k1 @ [FunctionName c]\<rparr>, funcs @ [FunctionName c]))
     in (if Line c < Line k2 then k2\<lparr>Line := Line c\<rparr> else k2, funcs'))"

definition chainDedupCandidates :: "Candidate list \<Rightarrow> Candidate list" where
  "chainDedupCandidates candidates =
     (if length candidates \<le> 1 then candidates
      else map sortLines (map fst (gather chainKey chainStart chainMerge candidates)))"


section \<open>Shapes\<close>

definition shapeOf :: "(Candidate \<Rightarrow> string) \<Rightarrow> Candidate \<Rightarrow> string option" where
  "shapeOf key c = (if key c = '''' then None else Some (key c))"

definition preferShapeRepresentative :: "Candidate \<Rightarrow> Candidate \<Rightarrow> bool" where
  "preferShapeRepresentative c best =
     (if suspicionRank (SuspicionLevel c) \<noteq> suspicionRank (SuspicionLevel best)
      then suspicionRank (SuspicionLevel c) > suspicionRank (SuspicionLevel best)
      else if Line c \<noteq> Line best then Line c < Line best
      else FunctionName c < FunctionName best)"

definition bestMember :: "Candidate list \<Rightarrow> Candidate" where
  "bestMember g = fold (\<lambda>m best. if preferShapeRepresentative m best then m else best) (tl g) (hd g)"

definition clusterSite :: "Candidate \<Rightarrow> string" where
  "clusterSite c = FunctionName c @ '':'' @ formatInt (Line c)"

definition shapeSites :: "Candidate \<Rightarrow> Candidate list \<Rightarrow> string list" where
  "shapeSites rep g = map clusterSite (filter (\<lambda>c. \<not> (FunctionName c = FunctionName rep \<and> Line c = Line rep)) g)"

definition shapeLines :: "Candidate \<Rightarrow> Candidate list \<Rightarrow> int list" where
  "shapeLines rep g = fold (\<lambda>c ls. appendUniqueLine (addLines ls (DerefLines c)) (Line c)) g
     (appendUniqueLine (DerefLines rep) (Line rep))"

text \<open>A group with its key, the empty key for a candidate that opts out.\<close>

definition shapeRepresentative :: "string \<times> Candidate list \<Rightarrow> Candidate" where
  "shapeRepresentative = (\<lambda>(key, g).
     let rep = bestMember g in
     if key = '''' \<or> length g = 1 then rep
     else rep\<lparr>ClusterSites := sort (shapeSites rep g), DerefLines := sort (shapeLines rep g)\<rparr>)"

definition shapeFolded :: "string \<times> Candidate list \<Rightarrow> int" where
  "shapeFolded = (\<lambda>(key, g). if key = '''' \<or> length g = 1 then 0 else int (length g) - 1)"

definition shapeGroups :: "(Candidate \<Rightarrow> string) \<Rightarrow> Candidate list \<Rightarrow> (string \<times> Candidate list) list" where
  "shapeGroups key candidates = gather (shapeOf key) (\<lambda>c. (key c, [c])) (\<lambda>c (k, g). (k, g @ [c])) candidates"

definition clusterShapeCandidates :: "Candidate list \<Rightarrow> VulnTypeSpec \<Rightarrow> Candidate list \<times> int" where
  "clusterShapeCandidates candidates spec =
     (case vtShapeKey spec of
        None \<Rightarrow> (candidates, 0)
      | Some key \<Rightarrow>
          if length candidates \<le> 1 then (candidates, 0)
          else (map shapeRepresentative (shapeGroups key candidates), sum_list (map shapeFolded (shapeGroups key candidates))))"

section \<open>Lines\<close>

lemma set_appendUniqueLine [simp]: "set (appendUniqueLine ls l) = (if l \<le> 0 then set ls else insert l (set ls))"
  by (auto simp: appendUniqueLine_def)

lemma distinct_appendUniqueLine [simp]: "distinct ls \<Longrightarrow> distinct (appendUniqueLine ls l)"
  by (simp add: appendUniqueLine_def)

lemma set_addLines [simp]: "set (addLines ls new) = set ls \<union> {l \<in> set new. 0 < l}"
  unfolding addLines_def by (induction new arbitrary: ls) auto

lemma distinct_addLines [simp]: "distinct ls \<Longrightarrow> distinct (addLines ls new)"
  unfolding addLines_def by (induction new arbitrary: ls) auto

lemma sortLines_only [simp]: "(sortLines c)\<lparr>DerefLines := ls\<rparr> = c\<lparr>DerefLines := ls\<rparr>"
  by (simp add: sortLines_def)

lemma sortLines_lines [simp]: "DerefLines (sortLines c) = sort (DerefLines c)"
proof (cases "DerefLines c")
  case (Cons a as)
  then show ?thesis by (cases as) (simp_all add: sortLines_def)
qed (simp add: sortLines_def)

lemma sortLines_fields [simp]: "Line (sortLines c) = Line c" "SuspicionLevel (sortLines c) = SuspicionLevel c"
  by (simp_all add: sortLines_def)

definition lineUpdate :: "Candidate \<Rightarrow> Candidate \<Rightarrow> bool" where
  "lineUpdate r c \<longleftrightarrow> r = c\<lparr>DerefLines := DerefLines r\<rparr>"

lemma lineUpdate_refl [simp]: "lineUpdate c c"
  by (simp add: lineUpdate_def)

lemma lineUpdate_upd [simp]: "lineUpdate (c\<lparr>DerefLines := ls\<rparr>) c"
  by (simp add: lineUpdate_def)

lemma lineUpdate_ex: "lineUpdate r c \<longleftrightarrow> (\<exists>ls. r = c\<lparr>DerefLines := ls\<rparr>)"
  unfolding lineUpdate_def by (rule iffI, rule exI, assumption, elim exE, hypsubst, simp)

lemma lineUpdate_trans: "lineUpdate r d \<Longrightarrow> lineUpdate d c \<Longrightarrow> lineUpdate r c"
  unfolding lineUpdate_ex by auto

lemma lineUpdate_sortLines [simp]: "lineUpdate (sortLines c) c"
  by (simp add: sortLines_def)

lemma lineUpdate_withOwnLine [simp]: "lineUpdate (withOwnLine spec c) c"
  by (simp add: withOwnLine_def)

lemma lineUpdate_fields:
  assumes "lineUpdate r c"
  shows "Line r = Line c" "SuspicionLevel r = SuspicionLevel c"
  using arg_cong [OF assms [unfolded lineUpdate_def], of Line] arg_cong [OF assms [unfolded lineUpdate_def], of SuspicionLevel]
  by simp_all

section \<open>Deduplication keeps one candidate per key\<close>

lemma replaces_lines [simp]:
  "replaces (c\<lparr>DerefLines := ls\<rparr>) d = replaces c d" "replaces c (d\<lparr>DerefLines := ls\<rparr>) = replaces c d"
  by (simp_all add: replaces_def)

lemma replaces_update: "lineUpdate r c \<Longrightarrow> replaces r d = replaces c d" "lineUpdate r c \<Longrightarrow> replaces d r = replaces d c"
  by (auto simp: lineUpdate_ex)

lemma replaces_irrefl [simp]: "\<not> replaces a a"
  by (simp add: replaces_def)

lemma replaces_asym: "replaces a b \<Longrightarrow> \<not> replaces b a"
  by (auto simp: replaces_def)

lemma not_replaces_trans: "\<not> replaces a b \<Longrightarrow> \<not> replaces b c \<Longrightarrow> \<not> replaces a c"
  by (auto simp: replaces_def)

lemma mergeInto_cases: "lineUpdate (mergeInto spec c keep) (if replaces c keep then c else keep)"
  by (simp add: mergeInto_def Let_def)

lemma mergeInto_lines:
  "DerefLines (mergeInto spec c keep) = (if vtConvergeByVariable spec then addLines (DerefLines keep) (DerefLines c) else DerefLines keep)"
  by (simp add: mergeInto_def Let_def)

text \<open>The member a group is merged to: none of the group would replace it.\<close>

lemma merge_best:
  "\<exists>c \<in> insert keep (set ms). lineUpdate (fold (mergeInto spec) ms keep) c \<and> (\<forall>c' \<in> insert keep (set ms). \<not> replaces c' c)"
proof (induction ms arbitrary: keep)
  case Nil
  then show ?case by (simp add: replaces_def)
next
  case (Cons m ms)
  let ?k = "mergeInto spec m keep"
  obtain w where w: "w \<in> {m, keep}" "lineUpdate ?k w" "\<not> replaces m w" "\<not> replaces keep w"
  proof (cases "replaces m keep")
    case True
    then show ?thesis using that [of m] mergeInto_cases [of spec m keep] replaces_asym by simp
  next
    case False
    then show ?thesis using that [of keep] mergeInto_cases [of spec m keep] by simp
  qed
  obtain c where c: "c \<in> insert ?k (set ms)" "lineUpdate (fold (mergeInto spec) ms ?k) c"
    "\<forall>c' \<in> insert ?k (set ms). \<not> replaces c' c" using Cons.IH by blast
  show ?case
  proof (cases "c = ?k")
    case True
    have up: "lineUpdate (fold (mergeInto spec) (m # ms) keep) w" using lineUpdate_trans [OF c(2) [unfolded True] w(2)] by simp
    have best: "\<not> replaces c' w" if "c' \<in> insert keep (set (m # ms))" for c'
    proof (cases "c' \<in> set ms")
      case True
      with c(3) \<open>c = ?k\<close> have "\<not> replaces c' ?k" by blast
      then show ?thesis using replaces_update(2) [OF w(2)] by blast
    next
      case False
      with that w(3,4) show ?thesis by auto
    qed
    show ?thesis by (rule bexI [of _ w], rule conjI [OF up], rule ballI, erule best) (use w(1) in auto)
  next
    case False
    have "\<not> replaces w c" using c(3) replaces_update(1) [OF w(2)] by simp
    then have "\<not> replaces m c" "\<not> replaces keep c" using w not_replaces_trans by blast+
    moreover have "lineUpdate (fold (mergeInto spec) (m # ms) keep) c" using c(2) by simp
    ultimately show ?thesis using c(1,3) False by auto
  qed
qed

lemma merge_lines:
  "vtConvergeByVariable spec \<Longrightarrow>
   set (DerefLines (fold (mergeInto spec) ms keep)) = set (DerefLines keep) \<union> {l. 0 < l \<and> (\<exists>m \<in> set ms. l \<in> set (DerefLines m))}"
  by (induction ms arbitrary: keep) (auto simp: mergeInto_lines)

lemma merge_distinct: "distinct (DerefLines keep) \<Longrightarrow> distinct (DerefLines (fold (mergeInto spec) ms keep))"
  by (induction ms arbitrary: keep) (auto simp: mergeInto_lines)

lemma merge_positive:
  "\<forall>l \<in> set (DerefLines keep). 0 < l \<Longrightarrow> \<forall>l \<in> set (DerefLines (fold (mergeInto spec) ms keep)). 0 < l"
proof (induction ms arbitrary: keep)
  case (Cons m ms)
  have "\<forall>l \<in> set (DerefLines (mergeInto spec m keep)). 0 < l" using Cons.prems by (auto simp: mergeInto_lines)
  then show ?case using Cons.IH by simp
qed simp

definition dedupGroups :: "VulnTypeSpec \<Rightarrow> Candidate list \<Rightarrow> Candidate list list" where
  "dedupGroups spec cs = groups (\<lambda>c. Some (dedupKey spec c)) (map (withOwnLine spec) cs)"

lemma dedup_groups:
  "deduplicateCandidates cs spec = map (\<lambda>g. sortLines (fold (mergeInto spec) (tl g) (hd g))) (dedupGroups spec cs)"
  by (simp add: deduplicateCandidates_def gather_groups dedupGroups_def mergeGroup_def)

text \<open>The result of a group.\<close>

lemma dedup_group:
  assumes "g \<in> set (dedupGroups spec cs)"
  obtains c where "c \<in> set g" "lineUpdate (sortLines (fold (mergeInto spec) (tl g) (hd g))) c" "\<And>c'. c' \<in> set g \<Longrightarrow> \<not> replaces c' c"
proof -
  have "g \<noteq> []" using assms groups_nonempty unfolding dedupGroups_def by blast
  then have s: "insert (hd g) (set (tl g)) = set g" by (cases g) auto
  obtain c where "c \<in> set g" "lineUpdate (fold (mergeInto spec) (tl g) (hd g)) c" "\<forall>c' \<in> set g. \<not> replaces c' c"
    using merge_best [of "hd g" "tl g" spec] unfolding s by blast
  then show thesis using that lineUpdate_trans [OF lineUpdate_sortLines] by blast
qed

lemma dedup_group_member:
  assumes "g \<in> set (dedupGroups spec cs)" "x \<in> set g"
  shows "set g = {d \<in> withOwnLine spec ` set cs. dedupKey spec d = dedupKey spec x}"
proof -
  have "g = filter (\<lambda>y. Some (dedupKey spec y) = Some (dedupKey spec x)) (map (withOwnLine spec) cs)"
    using groups_filter [OF assms [unfolded dedupGroups_def]] by simp
  then have "set g = set (filter (\<lambda>y. Some (dedupKey spec y) = Some (dedupKey spec x)) (map (withOwnLine spec) cs))" by (rule arg_cong)
  then show ?thesis by auto
qed

definition keyIgnoresLines :: "VulnTypeSpec \<Rightarrow> bool" where
  "keyIgnoresLines spec \<longleftrightarrow> (\<forall>c ls. dedupKey spec (c\<lparr>DerefLines := ls\<rparr>) = dedupKey spec c)"

lemma key_update: "keyIgnoresLines spec \<Longrightarrow> lineUpdate r c \<Longrightarrow> dedupKey spec r = dedupKey spec c"
  by (auto simp: keyIgnoresLines_def lineUpdate_ex)

lemma builtin_keys: "vtConvergeKey spec = None \<Longrightarrow> keyIgnoresLines spec"
  by (simp add: keyIgnoresLines_def dedupKey_def)

text \<open>The key separates what it is made of, when a function name has no colon.\<close>

lemma dedupKey_exact:
  assumes "vtConvergeKey spec = None" "CHR '':'' \<notin> set (FunctionName c)" "CHR '':'' \<notin> set (FunctionName d)"
  shows "dedupKey spec c = dedupKey spec d \<longleftrightarrow> FileID c = FileID d \<and> FunctionName c = FunctionName d \<and> VariableName c = VariableName d
    \<and> (vtConvergeByVariable spec \<or> Line c = Line d)"
proof -
  have n: "CHR '':'' \<notin> set (formatInt x)" for x using formatInt_chars [of "CHR '':''" x] by (auto simp: isDigit_def)
  show ?thesis
    using assms n sep_split by (auto simp: dedupKey_def formatInt_inj dest!: sep_split)
qed

lemma withOwnLine_lines:
  "vtConvergeByVariable spec \<Longrightarrow> set (DerefLines (withOwnLine spec c)) = set (DerefLines c) \<union> {l. 0 < l \<and> l = Line c}"
  by (auto simp: withOwnLine_def)

lemma own_key: "keyIgnoresLines spec \<Longrightarrow> dedupKey spec (withOwnLine spec c) = dedupKey spec c"
  using key_update lineUpdate_withOwnLine by blast

lemma dedup_group_hd: "g \<in> set (dedupGroups spec cs) \<Longrightarrow> hd g \<in> set g \<and> hd g # tl g = g"
  using groups_nonempty unfolding dedupGroups_def by (metis list.set_sel(1) list.collapse)

definition groupResult :: "VulnTypeSpec \<Rightarrow> Candidate list \<Rightarrow> Candidate" where
  "groupResult spec g = sortLines (fold (mergeInto spec) (tl g) (hd g))"

lemma dedup_results: "deduplicateCandidates cs spec = map (groupResult spec) (dedupGroups spec cs)"
  by (simp add: dedup_groups groupResult_def)

lemma groupResult_key:
  assumes "keyIgnoresLines spec" "g \<in> set (dedupGroups spec cs)"
  shows "dedupKey spec (groupResult spec g) = dedupKey spec (hd g)"
proof -
  obtain c where "c \<in> set g" "lineUpdate (groupResult spec g) c" using dedup_group [OF assms(2)] unfolding groupResult_def by blast
  with dedup_group_member [OF assms(2)] dedup_group_hd [OF assms(2)] key_update [OF assms(1)] show ?thesis by force
qed

lemma dedup_keys:
  assumes "keyIgnoresLines spec"
  shows "distinct (map (dedupKey spec) (deduplicateCandidates cs spec))"
    "set (map (dedupKey spec) (deduplicateCandidates cs spec)) = set (map (dedupKey spec) cs)"
proof -
  let ?G = "dedupGroups spec cs" and ?key = "\<lambda>c. Some (dedupKey spec c)" and ?own = "withOwnLine spec"
  have keys: "map ?key (deduplicateCandidates cs spec) = map (\<lambda>g. ?key (hd g)) ?G"
    using groupResult_key [OF assms] by (simp add: dedup_results)
  have "distinct (map ?key (deduplicateCandidates cs spec))"
    using gather_all_keyed_distinct [of "map ?own cs" ?key] unfolding keys dedupGroups_def by simp
  then show "distinct (map (dedupKey spec) (deduplicateCandidates cs spec))" by (auto simp: distinct_map inj_on_def)
  have un: "(\<Union>g \<in> set ?G. set g) = ?own ` set cs" unfolding dedupGroups_def groups_set by simp
  have "(\<lambda>g. dedupKey spec (hd g)) ` set ?G = dedupKey spec ` (\<Union>g \<in> set ?G. set g)"
  proof (intro equalityI subsetI)
    fix k assume "k \<in> dedupKey spec ` (\<Union>g \<in> set ?G. set g)"
    then obtain g x where "g \<in> set ?G" "x \<in> set g" "k = dedupKey spec x" by blast
    then show "k \<in> (\<lambda>g. dedupKey spec (hd g)) ` set ?G" using dedup_group_member dedup_group_hd by force
  qed (use dedup_group_hd in blast)
  then show "set (map (dedupKey spec) (deduplicateCandidates cs spec)) = set (map (dedupKey spec) cs)"
    unfolding un dedup_results using groupResult_key [OF assms] own_key [OF assms] by (simp add: image_image)
qed

lemma groupResult_lines:
  assumes "keyIgnoresLines spec" and g: "g \<in> set (dedupGroups spec cs)" and v: "vtConvergeByVariable spec" and l: "0 < l"
  shows "l \<in> set (DerefLines (groupResult spec g)) \<longleftrightarrow>
    (\<exists>d \<in> set cs. dedupKey spec d = dedupKey spec (groupResult spec g) \<and> (l = Line d \<or> l \<in> set (DerefLines d)))"
proof -
  have members: "set g = {d \<in> withOwnLine spec ` set cs. dedupKey spec d = dedupKey spec (hd g)}"
    by (rule dedup_group_member [OF g]) (use dedup_group_hd [OF g] in blast)
  have "l \<in> set (DerefLines (groupResult spec g)) \<longleftrightarrow> (\<exists>m \<in> set (hd g # tl g). l \<in> set (DerefLines m))"
    using merge_lines [OF v, of "tl g" "hd g"] l by (auto simp: groupResult_def)
  also have "\<dots> \<longleftrightarrow> (\<exists>m \<in> set g. l \<in> set (DerefLines m))" using dedup_group_hd [OF g] by simp
  also have "\<dots> \<longleftrightarrow> (\<exists>d \<in> set cs. dedupKey spec d = dedupKey spec (groupResult spec g) \<and> l \<in> set (DerefLines (withOwnLine spec d)))"
    unfolding members using own_key [OF assms(1)] groupResult_key [OF assms(1) g] by auto
  finally show ?thesis using withOwnLine_lines [OF v] l by auto
qed

lemma groupResult_best:
  assumes "keyIgnoresLines spec" and g: "g \<in> set (dedupGroups spec cs)"
  shows "\<exists>c \<in> set cs. lineUpdate (groupResult spec g) c \<and> (\<forall>d \<in> set cs. dedupKey spec d = dedupKey spec c \<longrightarrow> \<not> replaces d c)"
proof -
  let ?own = "withOwnLine spec"
  obtain c where c: "c \<in> set g" "lineUpdate (groupResult spec g) c" "\<And>c'. c' \<in> set g \<Longrightarrow> \<not> replaces c' c"
    using dedup_group [OF g] unfolding groupResult_def by blast
  have members: "set g = {d \<in> ?own ` set cs. dedupKey spec d = dedupKey spec c}" by (rule dedup_group_member [OF g c(1)])
  obtain a where a: "a \<in> set cs" "c = ?own a" using members c(1) by blast
  have "\<not> replaces d a" if d: "d \<in> set cs" "dedupKey spec d = dedupKey spec a" for d
  proof -
    have "?own d \<in> set g" using d members own_key [OF assms(1)] a by auto
    then show ?thesis using c(3) replaces_update lineUpdate_withOwnLine a by metis
  qed
  then show ?thesis using lineUpdate_trans [OF c(2), of a] a by auto
qed

lemma not_replaces: "\<not> replaces d c \<longleftrightarrow> suspicionRank (SuspicionLevel d) < suspicionRank (SuspicionLevel c)
      \<or> suspicionRank (SuspicionLevel d) = suspicionRank (SuspicionLevel c) \<and> Line c \<le> Line d"
  by (auto simp: replaces_def)

text \<open>C10: deduplication keeps exactly one candidate per key.  The keys of the result are distinct and are the
  keys of the input; each remaining candidate is one of the input apart from its list of lines, none with
  its key has a higher tier, or the same tier at an earlier line; its lines are sorted.  Where the type converges
  by variable, the positive lines it carries are exactly those of all candidates with its key, so that no
  sink is lost.  The key itself must not depend on the list of lines, as no registered one does.
\<close>

theorem dedup_exact:
  assumes "keyIgnoresLines spec"
  shows "distinct (map (dedupKey spec) (deduplicateCandidates cs spec))
    \<and> set (map (dedupKey spec) (deduplicateCandidates cs spec)) = set (map (dedupKey spec) cs)
    \<and> (\<forall>r \<in> set (deduplicateCandidates cs spec). sorted (DerefLines r)
         \<and> (\<exists>c \<in> set cs. r = c\<lparr>DerefLines := DerefLines r\<rparr>
              \<and> (\<forall>d \<in> set cs. dedupKey spec d = dedupKey spec c \<longrightarrow>
                    suspicionRank (SuspicionLevel d) < suspicionRank (SuspicionLevel c)
                  \<or> suspicionRank (SuspicionLevel d) = suspicionRank (SuspicionLevel c) \<and> Line c \<le> Line d))
         \<and> (vtConvergeByVariable spec \<longrightarrow>
              (\<forall>l > 0. l \<in> set (DerefLines r) \<longleftrightarrow>
                 (\<exists>d \<in> set cs. dedupKey spec d = dedupKey spec r \<and> (l = Line d \<or> l \<in> set (DerefLines d))))))"
proof -
  have "\<forall>r \<in> set (deduplicateCandidates cs spec). sorted (DerefLines r)
         \<and> (\<exists>c \<in> set cs. lineUpdate r c \<and> (\<forall>d \<in> set cs. dedupKey spec d = dedupKey spec c \<longrightarrow> \<not> replaces d c))
         \<and> (vtConvergeByVariable spec \<longrightarrow>
              (\<forall>l > 0. l \<in> set (DerefLines r) \<longleftrightarrow>
                 (\<exists>d \<in> set cs. dedupKey spec d = dedupKey spec r \<and> (l = Line d \<or> l \<in> set (DerefLines d)))))"
    using groupResult_best [OF assms] groupResult_lines [OF assms] unfolding dedup_results by (simp add: groupResult_def)
  with dedup_keys [OF assms] show ?thesis unfolding not_replaces lineUpdate_def by blast
qed

text \<open>The specification of null dereferences, as far as it is read here.\<close>

definition nullDerefSpec :: VulnTypeSpec where
  "nullDerefSpec = \<lparr>vtName = ''null-deref'', vtConvergeByVariable = True, vtConvergeKey = None, vtShapeKey = None\<rparr>"

theorem dedup_exact_witness:
  "9 \<in> set (DerefLines (hd (deduplicateCandidates [plainCandidate 1 ''f'' ''p'' 3, plainCandidate 1 ''f'' ''p'' 9] nullDerefSpec)))"
proof -
  let ?cs = "[plainCandidate 1 ''f'' ''p'' 3, plainCandidate 1 ''f'' ''p'' 9]"
  have k: "keyIgnoresLines nullDerefSpec" by (rule builtin_keys) (simp add: nullDerefSpec_def)
  have r: "hd (deduplicateCandidates ?cs nullDerefSpec) \<in> set (deduplicateCandidates ?cs nullDerefSpec)"
    "dedupKey nullDerefSpec (plainCandidate 1 ''f'' ''p'' 9) = dedupKey nullDerefSpec (hd (deduplicateCandidates ?cs nullDerefSpec))"
    by code_simp+
  have "\<forall>l > 0. l \<in> set (DerefLines (hd (deduplicateCandidates ?cs nullDerefSpec))) \<longleftrightarrow>
      (\<exists>d \<in> set ?cs. dedupKey nullDerefSpec d = dedupKey nullDerefSpec (hd (deduplicateCandidates ?cs nullDerefSpec))
         \<and> (l = Line d \<or> l \<in> set (DerefLines d)))"
    using dedup_exact [OF k, of ?cs] r(1) by (simp add: nullDerefSpec_def)
  with r(2) show ?thesis by (simp add: plainCandidate_def)
qed

end
