(* ===== verification/Candidate_Folds.thy ===== *)
theory Candidate_Folds
  imports Candidate_Dedup
begin

text \<open>
  What the two folds after the deduplication keep: every candidate is represented, by itself or by a member of
  its group that lists it.
\<close>

section \<open>Clustering by shape\<close>

lemma prefer_irrefl [simp]: "\<not> preferShapeRepresentative c c"
  by (simp add: preferShapeRepresentative_def)

lemma prefer_asym: "preferShapeRepresentative a b \<Longrightarrow> \<not> preferShapeRepresentative b a"
  by (auto simp: preferShapeRepresentative_def split: if_splits)

lemma not_prefer_trans:
  "\<not> preferShapeRepresentative a b \<Longrightarrow> \<not> preferShapeRepresentative b c \<Longrightarrow> \<not> preferShapeRepresentative a c"
  by (auto simp: preferShapeRepresentative_def split: if_splits)

lemma best_fold:
  "\<exists>c \<in> insert b (set ms). fold (\<lambda>m best. if preferShapeRepresentative m best then m else best) ms b = c
     \<and> (\<forall>d \<in> insert b (set ms). \<not> preferShapeRepresentative d c)"
proof (induction ms arbitrary: b)
  case (Cons m ms)
  let ?w = "if preferShapeRepresentative m b then m else b"
  obtain c where c: "c \<in> insert ?w (set ms)" "fold (\<lambda>m best. if preferShapeRepresentative m best then m else best) ms ?w = c"
    "\<forall>d \<in> insert ?w (set ms). \<not> preferShapeRepresentative d c" using Cons.IH [of ?w] by blast
  have w: "?w \<in> {m, b}" "\<not> preferShapeRepresentative m ?w" "\<not> preferShapeRepresentative b ?w"
    using prefer_asym by auto
  have "\<not> preferShapeRepresentative ?w c" using c(3) by blast
  then have mb: "\<not> preferShapeRepresentative m c" "\<not> preferShapeRepresentative b c" using w(2,3) not_prefer_trans by blast+
  have "c \<in> insert b (set (m # ms))" using c(1) w(1) by (metis insert_iff list.simps(15) singletonD)
  moreover have "\<forall>d \<in> insert b (set (m # ms)). \<not> preferShapeRepresentative d c" using c(3) mb by simp
  ultimately show ?case using c(2) by (intro bexI [of _ c]) simp_all
qed simp

lemma bestMember_best:
  assumes "g \<noteq> []"
  shows "bestMember g \<in> set g" "d \<in> set g \<Longrightarrow> \<not> preferShapeRepresentative d (bestMember g)"
proof -
  have s: "insert (hd g) (set (tl g)) = set g" using assms by (cases g) auto
  show "bestMember g \<in> set g" "d \<in> set g \<Longrightarrow> \<not> preferShapeRepresentative d (bestMember g)"
    using best_fold [of "hd g" "tl g"] unfolding s bestMember_def by auto
qed

lemma set_shapeLines: "set (shapeLines rep g) = set (DerefLines rep) \<union> {l. 0 < l \<and> (l = Line rep \<or> (\<exists>c \<in> set g. l = Line c \<or> l \<in> set (DerefLines c)))}"
proof -
  have "set (fold (\<lambda>c ls. appendUniqueLine (addLines ls (DerefLines c)) (Line c)) g ls)
      = set ls \<union> {l. 0 < l \<and> (\<exists>c \<in> set g. l = Line c \<or> l \<in> set (DerefLines c))}" for ls
    by (induction g arbitrary: ls) auto
  then show ?thesis by (auto simp: shapeLines_def)
qed

lemma distinct_shapeLines: "distinct (DerefLines rep) \<Longrightarrow> distinct (shapeLines rep g)"
proof -
  have "distinct ls \<Longrightarrow> distinct (fold (\<lambda>c ls. appendUniqueLine (addLines ls (DerefLines c)) (Line c)) g ls)" for ls
    by (induction g arbitrary: ls) auto
  then show "distinct (DerefLines rep) \<Longrightarrow> distinct (shapeLines rep g)" by (simp add: shapeLines_def)
qed

text \<open>The groups of the loop are the groups of the shapes, each with the key of its members.\<close>

lemma shapeGroups_groups: "shapeGroups key cs = map (\<lambda>g. (key (hd g), g)) (groups (shapeOf key) cs)"
proof -
  have f: "fold (\<lambda>c (k, g). (k, g @ [c])) ms (k, g) = (k, g @ ms)" for ms k and g :: "Candidate list"
    by (induction ms arbitrary: g) auto
  have "mergeGroup (\<lambda>c. (key c, [c])) (\<lambda>c (k, g). (k, g @ [c])) g = (key (hd g), g)" if "g \<noteq> []" for g
    using that by (cases g) (simp_all add: mergeGroup_def f)
  then show ?thesis by (auto simp: shapeGroups_def gather_groups dest: groups_nonempty)
qed

lemma shapeGroup_key:
  assumes "g \<in> set (groups (shapeOf key) cs)" "c \<in> set g"
  shows "key c = key (hd g)"
proof -
  have "hd g \<in> set g" using groups_nonempty [OF assms(1)] by simp
  then have "shapeOf key c = shapeOf key (hd g)" using groups_key [OF assms] by blast
  then show ?thesis by (simp add: shapeOf_def split: if_splits)
qed

lemma shapeGroup_single:
  assumes "g \<in> set (groups (shapeOf key) cs)" "key (hd g) = ''''"
  shows "length g = 1"
proof -
  have "hd g \<in> set g" using groups_nonempty [OF assms(1)] by simp
  then have "g = [hd g]" using groups_single [OF assms(1)] assms(2) by (simp add: shapeOf_def)
  then show ?thesis by (metis One_nat_def length_Cons list.size(3))
qed

lemma representative_single: "length g = 1 \<Longrightarrow> shapeRepresentative (k, g) = hd g"
  by (cases g) (simp_all add: shapeRepresentative_def bestMember_def)

lemma representative_group:
  "k \<noteq> '''' \<Longrightarrow> length g \<noteq> 1 \<Longrightarrow> shapeRepresentative (k, g) =
     bestMember g\<lparr>ClusterSites := sort (shapeSites (bestMember g) g), DerefLines := sort (shapeLines (bestMember g) g)\<rparr>"
  by (simp add: shapeRepresentative_def Let_def)

lemma folded_count: "g \<in> set (groups (shapeOf key) cs) \<Longrightarrow> 1 + shapeFolded (key (hd g), g) = int (length g)"
  using shapeGroup_single [of g key cs] groups_nonempty [of g "shapeOf key" cs] by (auto simp: shapeFolded_def)

lemma sum_folded: "(\<And>g. g \<in> set G \<Longrightarrow> 1 + shapeFolded (key (hd g), g) = int (length g)) \<Longrightarrow>
   int (length G) + sum_list (map (\<lambda>g. shapeFolded (key (hd g), g)) G) = int (length (concat G))"
proof (induction G)
  case (Cons g G)
  have "1 + shapeFolded (key (hd g), g) = int (length g)" by (rule Cons.prems) simp
  moreover have "int (length G) + sum_list (map (\<lambda>g. shapeFolded (key (hd g), g)) G) = int (length (concat G))"
    by (rule Cons.IH, rule Cons.prems) simp
  ultimately show ?case by simp
qed simp

lemma cluster_count:
  assumes "clusterShapeCandidates cs spec = (rs, folded)"
  shows "int (length rs) + folded = int (length cs)"
proof (cases "vtShapeKey spec")
  case None
  with assms show ?thesis by (auto simp: clusterShapeCandidates_def)
next
  case (Some key)
  show ?thesis
  proof (cases "length cs \<le> 1")
    case True
    with Some assms show ?thesis by (auto simp: clusterShapeCandidates_def)
  next
    case False
    let ?G = "groups (shapeOf key) cs"
    have "length (concat ?G) = length cs" using groups_mset by (metis size_mset)
    moreover have "rs = map shapeRepresentative (shapeGroups key cs)" "folded = sum_list (map shapeFolded (shapeGroups key cs))"
      using Some False assms by (auto simp: clusterShapeCandidates_def)
    ultimately show ?thesis using sum_folded [of ?G key] folded_count [of _ key cs] by (simp add: shapeGroups_groups o_def)
  qed
qed

text \<open>How a result represents a candidate: as itself, or as the best of the candidates with its shape.\<close>

definition stands_for :: "(Candidate \<Rightarrow> string) \<Rightarrow> Candidate list \<Rightarrow> Candidate \<Rightarrow> Candidate \<Rightarrow> bool" where
  "stands_for key cs r c \<longleftrightarrow>
     (\<exists>rep \<in> set cs. key rep = key c \<and> key c \<noteq> ''''
        \<and> r = rep\<lparr>ClusterSites := ClusterSites r, DerefLines := DerefLines r\<rparr>
        \<and> \<not> preferShapeRepresentative c rep
        \<and> (FunctionName c = FunctionName r \<and> Line c = Line r \<or> clusterSite c \<in> set (ClusterSites r))
        \<and> (0 < Line c \<longrightarrow> Line c \<in> set (DerefLines r))
        \<and> (\<forall>l \<in> set (DerefLines c). 0 < l \<longrightarrow> l \<in> set (DerefLines r)))"

lemma stands_forI:
  assumes "rep \<in> set cs" "key rep = key c" "key c \<noteq> ''''" "\<not> preferShapeRepresentative c rep"
    "FunctionName c = FunctionName rep \<and> Line c = Line rep \<or> clusterSite c \<in> set sites"
    "\<And>l. 0 < l \<Longrightarrow> l = Line c \<or> l \<in> set (DerefLines c) \<Longrightarrow> l \<in> set ls"
  shows "stands_for key cs (rep\<lparr>ClusterSites := sort sites, DerefLines := sort ls\<rparr>) c"
proof -
  let ?r = "rep\<lparr>ClusterSites := sort sites, DerefLines := sort ls\<rparr>"
  have "?r = rep\<lparr>ClusterSites := ClusterSites ?r, DerefLines := DerefLines ?r\<rparr>" by simp
  moreover have "FunctionName c = FunctionName ?r \<and> Line c = Line ?r \<or> clusterSite c \<in> set (ClusterSites ?r)" using assms(5) by simp
  moreover have "0 < Line c \<longrightarrow> Line c \<in> set (DerefLines ?r)" "\<forall>l \<in> set (DerefLines c). 0 < l \<longrightarrow> l \<in> set (DerefLines ?r)"
    using assms(6) by simp_all
  ultimately show ?thesis using assms(1-4) unfolding stands_for_def by blast
qed

lemma representative_stands:
  assumes g: "g \<in> set (groups (shapeOf key) cs)" and c: "c \<in> set g" and n: "length g \<noteq> 1"
  shows "stands_for key cs (shapeRepresentative (key (hd g), g)) c"
proof -
  have ne: "g \<noteq> []" by (rule groups_nonempty [OF g])
  let ?b = "bestMember g"
  have k: "key (hd g) \<noteq> ''''" using shapeGroup_single [OF g] n by blast
  have r: "shapeRepresentative (key (hd g), g) =
     ?b\<lparr>ClusterSites := sort (shapeSites ?b g), DerefLines := sort (shapeLines ?b g)\<rparr>" by (rule representative_group [OF k n])
  have b: "?b \<in> set g" "\<not> preferShapeRepresentative c ?b" using bestMember_best [OF ne] c by auto
  have "?b \<in> set cs" by (rule groups_sub [OF g b(1)])
  moreover have "key ?b = key c" "key c \<noteq> ''''" using shapeGroup_key [OF g] b(1) c k by auto
  moreover have "FunctionName c = FunctionName ?b \<and> Line c = Line ?b \<or> clusterSite c \<in> set (shapeSites ?b g)"
    using c by (auto simp: shapeSites_def)
  moreover have "l \<in> set (shapeLines ?b g)" if "0 < l" "l = Line c \<or> l \<in> set (DerefLines c)" for l
    using that c by (auto simp: set_shapeLines)
  ultimately show ?thesis using b(2) unfolding r by (intro stands_forI) auto
qed

lemma clusterShapeCandidates_accounts:
  assumes "clusterShapeCandidates cs spec = (rs, folded)"
  shows "int (length rs) + folded = int (length cs) \<and> 0 \<le> folded
    \<and> (\<forall>c \<in> set cs. c \<in> set rs \<or> (\<exists>key r. vtShapeKey spec = Some key \<and> r \<in> set rs \<and> stands_for key cs r c))"
proof -
  have "0 \<le> folded \<and> (\<forall>c \<in> set cs. c \<in> set rs \<or> (\<exists>key r. vtShapeKey spec = Some key \<and> r \<in> set rs \<and> stands_for key cs r c))"
  proof (cases "vtShapeKey spec = None \<or> length cs \<le> 1")
    case True
    with assms show ?thesis by (auto simp: clusterShapeCandidates_def split: option.splits)
  next
    case False
    then obtain key where key: "vtShapeKey spec = Some key" by auto
    let ?G = "groups (shapeOf key) cs"
    have rs: "rs = map (\<lambda>g. shapeRepresentative (key (hd g), g)) ?G"
      and folded: "folded = sum_list (map (\<lambda>g. shapeFolded (key (hd g), g)) ?G)"
      using assms False key by (auto simp: clusterShapeCandidates_def shapeGroups_groups o_def)
    have "0 \<le> shapeFolded (key (hd g), g)" if "g \<in> set ?G" for g
      using groups_nonempty [OF that] by (cases g) (auto simp: shapeFolded_def)
    then have "0 \<le> folded" unfolding folded by (auto intro!: sum_list_nonneg)
    moreover have "c \<in> set rs \<or> (\<exists>r \<in> set rs. stands_for key cs r c)" if "c \<in> set cs" for c
    proof -
      obtain g where g: "g \<in> set ?G" "c \<in> set g" using groups_cover [OF \<open>c \<in> set cs\<close>] by blast
      show ?thesis
      proof (cases "length g = 1")
        case True
        then have "shapeRepresentative (key (hd g), g) = c" using g(2) by (cases g) (simp_all add: representative_single)
        then show ?thesis using g(1) unfolding rs by force
      next
        case False
        have "shapeRepresentative (key (hd g), g) \<in> set rs" using g(1) unfolding rs by simp
        then show ?thesis using representative_stands [OF g False] by blast
      qed
    qed
    ultimately show ?thesis using key by blast
  qed
  with cluster_count [OF assms] show ?thesis by simp
qed

text \<open>C31: clustering by shape hides nothing.  The candidates that remain and the number reported as folded add
  up to the candidates before.  Every candidate remains as it is, or a row of its shape stands for it:
  the best candidate of the shape, no better one being left out, which is at the same place or lists
  the place of the candidate among its sites, and which carries all its lines.
\<close>

theorem cluster_accounts:
  assumes "clusterShapeCandidates cs spec = (rs, folded)"
  shows "int (length rs) + folded = int (length cs) \<and> 0 \<le> folded
    \<and> (\<forall>c \<in> set cs. c \<in> set rs \<or> (\<exists>key r. vtShapeKey spec = Some key \<and> r \<in> set rs \<and> stands_for key cs r c))"
  using clusterShapeCandidates_accounts [OF assms] .

text \<open>A specification with a shape, for the example.\<close>

definition shapedSpec :: VulnTypeSpec where
  "shapedSpec = \<lparr>vtName = ''out-of-bounds'', vtConvergeByVariable = False, vtConvergeKey = None, vtShapeKey = Some VariableName\<rparr>"

theorem cluster_accounts_witness:
  "int (length (fst (clusterShapeCandidates [plainCandidate 1 ''f'' ''p'' 3, plainCandidate 2 ''g'' ''p'' 9] shapedSpec))) + 1 = 2"
proof -
  let ?cs = "[plainCandidate 1 ''f'' ''p'' 3, plainCandidate 2 ''g'' ''p'' 9]"
  have "snd (clusterShapeCandidates ?cs shapedSpec) = 1" by code_simp
  then have "clusterShapeCandidates ?cs shapedSpec = (fst (clusterShapeCandidates ?cs shapedSpec), 1)" by (simp add: prod_eq_iff)
  from cluster_accounts [OF this] show ?thesis by simp
qed

end
