(* ===== verification/Plan_Stage.thy ===== *)
theory Plan_Stage
  imports Filter_Chain Candidate_Folds
begin

text \<open>
  The stage between the seeds of a type and its ranking, as Planner.Plan composes it
  (internal/planner/planner.go): the filters, the deduplication, the folding of forwarding chains for null
  dereferences, and the clustering, with the summary of the pipeline.
\<close>

section \<open>The stage\<close>

record PipelineSummary =
  psSeedCount :: int
  psFilters :: "FilterStats list"
  psFinalCount :: int
  psDedupedCount :: int
  psShortCircuited :: bool
  psDropped :: "Dismissed list"
  psDroppedByReason :: "(string \<times> int) list"
  psShapeFolded :: int

definition convergeCandidates :: "VulnTypeSpec \<Rightarrow> Candidate list \<Rightarrow> Candidate list" where
  "convergeCandidates spec cs =
     (let deduped = deduplicateCandidates cs spec in
      if vtName spec = ''null-deref'' then chainDedupCandidates deduped else deduped)"

definition planCandidates :: "VulnTypeSpec \<Rightarrow> CandidateFilter list \<Rightarrow> Candidate list \<Rightarrow> Candidate list \<times> PipelineSummary" where
  "planCandidates spec filters seed =
     (let s = runChain filters seed;
          (candidates, folded) = clusterShapeCandidates (convergeCandidates spec (chCandidates s)) spec in
      (candidates,
       \<lparr>psSeedCount = int (length seed), psFilters = chStats s, psFinalCount = int (length (chCandidates s)),
        psDedupedCount = int (length candidates), psShortCircuited = chShortCircuited s, psDropped = chDismissed s,
        psDroppedByReason = droppedByReason (chDismissed s), psShapeFolded = folded\<rparr>))"


section \<open>Typing of candidates\<close>

definition tiers :: "string list" where
  "tiers = [''confirmed'', ''suspected'', ''possible'']"

text \<open>A seed has a tier and a list of distinct lines; a planned candidate a sorted one, with its own line.\<close>

definition looseTyped :: "Candidate \<Rightarrow> bool" where
  "looseTyped c \<longleftrightarrow> SuspicionLevel c \<in> set tiers \<and> distinct (DerefLines c) \<and> (\<forall>l \<in> set (DerefLines c). 0 < l)"

definition ownLine :: "VulnTypeSpec \<Rightarrow> Candidate \<Rightarrow> bool" where
  "ownLine spec c \<longleftrightarrow> (vtConvergeByVariable spec \<longrightarrow> 0 < Line c \<longrightarrow> Line c \<in> set (DerefLines c))"

definition wellTyped :: "VulnTypeSpec \<Rightarrow> Candidate \<Rightarrow> bool" where
  "wellTyped spec c \<longleftrightarrow> looseTyped c \<and> ownLine spec c \<and> sorted (DerefLines c)"

lemma looseTyped_lines: "looseTyped c \<Longrightarrow> distinct ls \<Longrightarrow> \<forall>l \<in> set ls. 0 < l \<Longrightarrow> looseTyped (c\<lparr>DerefLines := ls\<rparr>)"
  by (simp add: looseTyped_def)

lemma sortLines_typed: "looseTyped c \<Longrightarrow> ownLine spec c \<Longrightarrow> wellTyped spec (sortLines c)"
  by (simp add: wellTyped_def looseTyped_def ownLine_def)

lemma sortLines_typedI:
  "SuspicionLevel c \<in> set tiers \<Longrightarrow> distinct (DerefLines c) \<Longrightarrow> \<forall>l \<in> set (DerefLines c). 0 < l \<Longrightarrow>
   (vtConvergeByVariable spec \<Longrightarrow> 0 < Line c \<Longrightarrow> Line c \<in> set (DerefLines c)) \<Longrightarrow> wellTyped spec (sortLines c)"
  by (simp add: wellTyped_def looseTyped_def ownLine_def)

lemma representative_typedI:
  "SuspicionLevel c \<in> set tiers \<Longrightarrow> distinct ls \<Longrightarrow> \<forall>l \<in> set ls. 0 < l \<Longrightarrow> (0 < Line c \<longrightarrow> Line c \<in> set ls) \<Longrightarrow>
   wellTyped spec (c\<lparr>ClusterSites := sites, DerefLines := sort ls\<rparr>)"
  by (simp add: wellTyped_def looseTyped_def ownLine_def)

lemma withOwnLine_typed: "looseTyped c \<Longrightarrow> looseTyped (withOwnLine spec c) \<and> ownLine spec (withOwnLine spec c)"
  by (auto simp: withOwnLine_def looseTyped_def ownLine_def)

lemma dedup_typed:
  assumes "\<forall>c \<in> set cs. looseTyped c" "r \<in> set (deduplicateCandidates cs spec)"
  shows "wellTyped spec r"
proof -
  obtain g where g: "g \<in> set (dedupGroups spec cs)" "r = groupResult spec g" using assms(2) by (auto simp: dedup_results)
  let ?m = "fold (mergeInto spec) (tl g) (hd g)"
  obtain c where c: "c \<in> set g" "lineUpdate (sortLines ?m) c" using dedup_group [OF g(1)] by blast
  have mem: "\<exists>a \<in> set cs. d = withOwnLine spec a" if "d \<in> set g" for d
    using groups_sub [OF g(1) [unfolded dedupGroups_def] that] by auto
  have typed: "looseTyped d \<and> ownLine spec d" if "d \<in> set g" for d using mem [OF that] withOwnLine_typed assms(1) by blast
  have h: "hd g \<in> set g" "hd g # tl g = g" using dedup_group_hd [OF g(1)] by auto
  have same: "SuspicionLevel ?m = SuspicionLevel c" "Line ?m = Line c" using lineUpdate_fields [OF c(2)] by simp_all
  have good: "distinct (DerefLines ?m)" "\<forall>l \<in> set (DerefLines ?m). 0 < l"
    using merge_distinct [of "hd g" spec "tl g"] merge_positive [of "hd g" spec "tl g"] typed [OF h(1)]
    by (simp_all add: looseTyped_def)
  have lines: "l \<in> set (DerefLines ?m)" if "vtConvergeByVariable spec" "0 < l" "l \<in> set (DerefLines c)" for l
  proof -
    have "c = hd g \<or> c \<in> set (tl g)" using c(1) h(2) by (metis set_ConsD)
    then show ?thesis using merge_lines [OF that(1), of "tl g" "hd g"] that by auto
  qed
  have "SuspicionLevel ?m \<in> set tiers" using typed [OF c(1)] same by (simp add: looseTyped_def)
  moreover have "Line ?m \<in> set (DerefLines ?m)" if "vtConvergeByVariable spec" "0 < Line ?m"
    using typed [OF c(1)] that lines [OF that] same(2) by (simp add: ownLine_def)
  ultimately show ?thesis unfolding g(2) groupResult_def by (intro sortLines_typedI good)
qed


section \<open>Folding of chains\<close>

definition slotTyped :: "VulnTypeSpec \<Rightarrow> Candidate \<times> string list \<Rightarrow> bool" where
  "slotTyped spec s \<longleftrightarrow> looseTyped (fst s) \<and> ownLine spec (fst s)"

lemma chainStart_fields [simp]:
  "DerefLines (fst (chainStart c)) = DerefLines c" "Line (fst (chainStart c)) = Line c" "SuspicionLevel (fst (chainStart c)) = SuspicionLevel c"
  by (simp_all add: chainStart_def)

lemma chainMerge_fields [simp]:
  "DerefLines (fst (chainMerge c s)) = appendUniqueLine (addLines (DerefLines (fst s)) (DerefLines c)) (Line c)"
  "Line (fst (chainMerge c s)) = min (Line c) (Line (fst s))"
  "SuspicionLevel (fst (chainMerge c s)) = SuspicionLevel (fst s)"
  by (auto simp: chainMerge_def Let_def split: prod.splits)

lemma chainMerge_typed: "slotTyped spec s \<Longrightarrow> slotTyped spec (chainMerge c s)"
  by (auto simp: slotTyped_def looseTyped_def ownLine_def min_def)

lemma chainSlot_typed:
  assumes "g \<noteq> []" "\<forall>c \<in> set g. wellTyped spec c"
  shows "slotTyped spec (mergeGroup chainStart chainMerge g)"
  unfolding mergeGroup_def
proof (rule fold_keeps_set)
  have "hd g \<in> set g" using assms(1) by simp
  then show "slotTyped spec (chainStart (hd g))" using assms(2) by (auto simp: slotTyped_def wellTyped_def looseTyped_def ownLine_def)
qed (rule chainMerge_typed)

lemma chain_slots:
  "chainDedupCandidates cs = (if length cs \<le> 1 then cs
     else map (\<lambda>g. sortLines (fst (mergeGroup chainStart chainMerge g))) (groups chainKey cs))"
  by (simp add: chainDedupCandidates_def gather_groups)

lemma chain_typed:
  assumes "\<forall>c \<in> set cs. wellTyped spec c" "r \<in> set (chainDedupCandidates cs)"
  shows "wellTyped spec r"
proof (cases "length cs \<le> 1")
  case True
  with assms show ?thesis by (simp add: chain_slots)
next
  case False
  with assms(2) obtain g where g: "g \<in> set (groups chainKey cs)" "r = sortLines (fst (mergeGroup chainStart chainMerge g))"
    by (auto simp: chain_slots)
  have "slotTyped spec (mergeGroup chainStart chainMerge g)"
    by (rule chainSlot_typed [OF groups_nonempty [OF g(1)]]) (use assms(1) groups_sub [OF g(1)] in blast)
  then show ?thesis unfolding g(2) by (intro sortLines_typed) (auto simp: slotTyped_def)
qed

text \<open>No line is lost in a chain.\<close>

lemma chainSlot_lines:
  "(c \<in> set ms \<and> (l = Line c \<or> l \<in> set (DerefLines c)) \<or> l \<in> set (DerefLines (fst s))) \<Longrightarrow> 0 < l \<Longrightarrow>
   l \<in> set (DerefLines (fst (fold chainMerge ms s)))"
proof (induction ms arbitrary: s)
  case (Cons m ms)
  have "c \<in> set ms \<and> (l = Line c \<or> l \<in> set (DerefLines c)) \<or> l \<in> set (DerefLines (fst (chainMerge m s)))"
    using Cons.prems by auto
  from Cons.IH [OF this Cons.prems(2)] show ?case by simp
qed simp

lemma chain_keeps_lines:
  assumes "c \<in> set cs" "l \<in> set (DerefLines c)" "0 < l"
  shows "\<exists>r \<in> set (chainDedupCandidates cs). l \<in> set (DerefLines r)"
proof (cases "length cs \<le> 1")
  case True
  with assms show ?thesis by (auto simp: chain_slots)
next
  case False
  obtain g where g: "g \<in> set (groups chainKey cs)" "c \<in> set g" using groups_cover [OF assms(1)] by blast
  have "c = hd g \<or> c \<in> set (tl g)" using g(2) by (cases g) auto
  then have "l \<in> set (DerefLines (fst (mergeGroup chainStart chainMerge g)))"
    using chainSlot_lines [of c "tl g" l "chainStart (hd g)"] assms unfolding mergeGroup_def by auto
  then show ?thesis using False g(1) by (auto simp: chain_slots)
qed

section \<open>The whole stage\<close>

lemma representative_typed:
  assumes "g \<noteq> []" "\<forall>c \<in> set g. wellTyped spec c"
  shows "wellTyped spec (shapeRepresentative (k, g))"
proof -
  let ?b = "bestMember g"
  have b: "wellTyped spec ?b" using bestMember_best(1) [OF assms(1)] assms(2) by blast
  show ?thesis
  proof (cases "k = '''' \<or> length g = 1")
    case True
    then show ?thesis using b by (auto simp: shapeRepresentative_def)
  next
    case False
    have r: "shapeRepresentative (k, g) = ?b\<lparr>ClusterSites := sort (shapeSites ?b g), DerefLines := sort (shapeLines ?b g)\<rparr>"
      using False by (intro representative_group) auto
    have "\<forall>l \<in> set (shapeLines ?b g). 0 < l" using b by (auto simp: set_shapeLines wellTyped_def looseTyped_def)
    moreover have "distinct (shapeLines ?b g)" using b by (intro distinct_shapeLines) (simp add: wellTyped_def looseTyped_def)
    moreover have "0 < Line ?b \<longrightarrow> Line ?b \<in> set (shapeLines ?b g)" by (simp add: set_shapeLines)
    moreover have "SuspicionLevel ?b \<in> set tiers" using b by (simp add: wellTyped_def looseTyped_def)
    ultimately show ?thesis unfolding r by (intro representative_typedI)
  qed
qed

lemma cluster_typed:
  assumes "\<forall>c \<in> set cs. wellTyped spec c" "clusterShapeCandidates cs spec' = (rs, n)" "r \<in> set rs"
  shows "wellTyped spec r"
proof (cases "vtShapeKey spec' = None \<or> length cs \<le> 1")
  case True
  with assms show ?thesis by (auto simp: clusterShapeCandidates_def split: option.splits)
next
  case False
  then obtain key where "vtShapeKey spec' = Some key" by auto
  with False assms(2,3) obtain g where g: "g \<in> set (groups (shapeOf key) cs)" "r = shapeRepresentative (key (hd g), g)"
    by (auto simp: clusterShapeCandidates_def shapeGroups_groups)
  show ?thesis unfolding g(2)
    by (rule representative_typed [OF groups_nonempty [OF g(1)]]) (use assms(1) groups_sub [OF g(1)] in blast)
qed

lemma cluster_keeps_lines:
  assumes "clusterShapeCandidates cs spec = (rs, n)" "c \<in> set cs" "l \<in> set (DerefLines c)" "0 < l"
  shows "\<exists>r \<in> set rs. l \<in> set (DerefLines r)"
  using clusterShapeCandidates_accounts [OF assms(1)] assms(2-4) unfolding stands_for_def by blast

lemma converge_typed:
  assumes "\<forall>c \<in> set cs. looseTyped c"
  shows "\<forall>c \<in> set (convergeCandidates spec cs). wellTyped spec c"
proof -
  have d: "\<forall>c \<in> set (deduplicateCandidates cs spec). wellTyped spec c" using dedup_typed assms by blast
  show ?thesis using d chain_typed [OF d] by (auto simp: convergeCandidates_def Let_def)
qed

lemma refines_typed: "refines c c' \<Longrightarrow> looseTyped c \<Longrightarrow> looseTyped c'"
  by (auto simp: refines_def identity_def looseTyped_def tiers_def)

lemma keptOf_typed: "list_all2 outcome cs rs \<Longrightarrow> \<forall>c \<in> set cs. looseTyped c \<Longrightarrow> \<forall>c \<in> set (keptOf rs). looseTyped c"
proof (induction cs rs rule: list_all2_induct)
  case (Cons c cs r rs)
  then show ?case using refines_typed by (cases r) auto
qed simp

lemma runChain_typed:
  assumes "stages filters" "\<forall>c \<in> set seed. looseTyped c"
  shows "\<forall>c \<in> set (chCandidates (runChain filters seed)). looseTyped c"
proof -
  let ?s = "\<lparr>chStats = [], chDismissed = [], chCandidates = seed, chShortCircuited = False\<rparr>"
  obtain ds where "accounted (cfName ` set filters) (chCandidates ?s) (chCandidates (applyFilters filters ?s)) ds"
    using applyFilters_accounted [OF assms(1), of ?s] by blast
  then have "\<exists>ds. accounted (cfName ` set filters) seed (chCandidates (runChain filters seed)) ds"
    by (auto simp: runChain_def)
  then show ?thesis using keptOf_typed assms(2) unfolding accounted_def by metis
qed

text \<open>C11: the stage is type-correct.  If every seed has one of the three tiers and a list of distinct positive
  lines, every candidate it hands on has one of the three tiers and a strictly ascending list of positive
  lines, and where the type converges by variable this list contains the candidate's own line.  This
  holds for every chain of filters that meet the contract.
\<close>

theorem plan_typed:
  assumes "stages filters" "\<forall>c \<in> set seed. looseTyped c"
  shows "\<forall>c \<in> set (fst (planCandidates spec filters seed)). SuspicionLevel c \<in> {''confirmed'', ''suspected'', ''possible''}
    \<and> sorted (DerefLines c) \<and> distinct (DerefLines c) \<and> (\<forall>l \<in> set (DerefLines c). 0 < l)
    \<and> (vtConvergeByVariable spec \<longrightarrow> 0 < Line c \<longrightarrow> Line c \<in> set (DerefLines c))"
proof -
  let ?cs = "convergeCandidates spec (chCandidates (runChain filters seed))"
  obtain rs n where r: "clusterShapeCandidates ?cs spec = (rs, n)" by (cases "clusterShapeCandidates ?cs spec")
  have "\<forall>c \<in> set rs. wellTyped spec c" using cluster_typed [OF converge_typed [OF runChain_typed [OF assms]] r] by blast
  moreover have "fst (planCandidates spec filters seed) = rs" using r by (simp add: planCandidates_def Let_def)
  ultimately show ?thesis by (auto simp: wellTyped_def looseTyped_def ownLine_def tiers_def)
qed

theorem plan_typed_witness:
  "list_all (\<lambda>c. sorted (DerefLines c)) (fst (planCandidates nullDerefSpec (withSuppression ''null-deref'' (Inr []) (chainDefault (Inl ''closed'')))
      [plainCandidate 1 ''f'' ''p'' 9, plainCandidate 1 ''f'' ''p'' 3]))"
proof -
  have "\<forall>c \<in> set [plainCandidate 1 ''f'' ''p'' 9, plainCandidate 1 ''f'' ''p'' 3]. looseTyped c"
    by (simp add: looseTyped_def plainCandidate_def tiers_def)
  from plan_typed [OF modelled_chains(1) this] show ?thesis unfolding list_all_iff by blast
qed

lemma nonempty_count: "\<forall>g \<in> set G. g \<noteq> [] \<Longrightarrow> length G \<le> length (concat G)"
proof (induction G)
  case (Cons g G)
  then have "length G \<le> length (concat G)" "1 \<le> length g" by (simp_all add: Suc_le_eq)
  then show ?case by simp
qed simp

lemma groups_count: "length (groups key cs) \<le> length cs"
proof -
  have "length (concat (groups key cs)) = length cs" using groups_mset by (metis size_mset)
  then show ?thesis using nonempty_count [of "groups key cs"] groups_nonempty by fastforce
qed

lemma converge_count: "length (convergeCandidates spec cs) \<le> length cs"
proof -
  have d: "length (deduplicateCandidates cs spec) \<le> length cs"
    using groups_count [of "\<lambda>c. Some (dedupKey spec c)" "map (withOwnLine spec) cs"] by (simp add: dedup_results dedupGroups_def)
  have "length (chainDedupCandidates ds) \<le> length ds" for ds using groups_count [of chainKey ds] by (simp add: chain_slots)
  from this [of "deduplicateCandidates cs spec"] d show ?thesis by (simp add: convergeCandidates_def Let_def)
qed

lemma converge_keeps_lines:
  assumes "keyIgnoresLines spec" "vtConvergeByVariable spec" "c \<in> set cs" "0 < Line c"
  shows "\<exists>r \<in> set (convergeCandidates spec cs). Line c \<in> set (DerefLines r)"
proof -
  have "dedupKey spec c \<in> set (map (dedupKey spec) (deduplicateCandidates cs spec))"
    using dedup_keys(2) [OF assms(1), of cs] assms(3) by simp
  then obtain r where r: "r \<in> set (deduplicateCandidates cs spec)" "dedupKey spec c = dedupKey spec r" by auto
  obtain g where g: "g \<in> set (dedupGroups spec cs)" "r = groupResult spec g" using r(1) by (auto simp: dedup_results)
  have "Line c \<in> set (DerefLines r)" using groupResult_lines [OF assms(1) g(1) assms(2,4)] assms(3) r(2) g(2) by auto
  with r(1) chain_keeps_lines [OF r(1) _ assms(4)] show ?thesis by (auto simp: convergeCandidates_def Let_def)
qed

text \<open>C2: the stage accounts for its seeds.  The summary counts them all: the seeds are those that remain after
  the filters and those in the ledger, and the rows handed on with those folded into a shape are no more than
  the ones that remained.  And it loses no sink: where the type converges by variable, the line of every
  candidate the filters leave is among the lines of a row that is handed on, through deduplication,
  folding of chains and clustering.
\<close>

theorem plan_accounts:
  assumes "stages filters" "keyIgnoresLines spec" "planCandidates spec filters seed = (rows, summary)"
  shows "psSeedCount summary = psFinalCount summary + int (length (psDropped summary))
    \<and> psDedupedCount summary = int (length rows) \<and> psDedupedCount summary + psShapeFolded summary \<le> psFinalCount summary
    \<and> map fsName (psFilters summary) = map cfName filters
    \<and> (vtConvergeByVariable spec \<longrightarrow> (\<forall>c \<in> set (chCandidates (runChain filters seed)). 0 < Line c \<longrightarrow>
         (\<exists>r \<in> set rows. Line c \<in> set (DerefLines r))))"
proof -
  let ?left = "chCandidates (runChain filters seed)"
  let ?cs = "convergeCandidates spec ?left" and ?s = "\<lparr>chStats = [], chDismissed = [], chCandidates = seed, chShortCircuited = False\<rparr>"
  obtain n where n: "clusterShapeCandidates ?cs spec = (rows, n)" and sum: "psSeedCount summary = int (length seed)"
      "psFinalCount summary = int (length ?left)" "psDropped summary = chDismissed (runChain filters seed)"
      "psDedupedCount summary = int (length rows)" "psShapeFolded summary = n" "psFilters summary = chStats (runChain filters seed)"
    using assms(3) by (auto simp: planCandidates_def Let_def split: prod.splits)
  obtain ds where "chDismissed (applyFilters filters ?s) = chDismissed ?s @ ds"
    "accounted (cfName ` set filters) (chCandidates ?s) (chCandidates (applyFilters filters ?s)) ds"
    using applyFilters_accounted [OF assms(1), of ?s] by blast
  then have "accounted (cfName ` set filters) seed ?left (chDismissed (runChain filters seed))" by (simp add: runChain_def)
  from accounted_count [OF this] have "length ?left + length (chDismissed (runChain filters seed)) = length seed" .
  moreover have "int (length rows) + n \<le> int (length ?left)" using cluster_count [OF n] converge_count [of spec ?left] by simp
  moreover have "map fsName (chStats (runChain filters seed)) = map cfName filters"
    using applyFilters_stats [of filters ?s] by (simp add: runChain_def)
  moreover have "\<exists>r \<in> set rows. Line c \<in> set (DerefLines r)"
    if "vtConvergeByVariable spec" "c \<in> set ?left" "0 < Line c" for c
    using converge_keeps_lines [OF assms(2) that] cluster_keeps_lines [OF n] that(3) by blast
  ultimately show ?thesis using sum by auto
qed

theorem plan_accounts_witness:
  "\<exists>rows summary. planCandidates nullDerefSpec (withSuppression ''null-deref'' (Inr [(1, 3, ''all'')]) (chainDefault (Inl ''closed'')))
      [plainCandidate 1 ''f'' ''p'' 9, plainCandidate 1 ''f'' ''p'' 3] = (rows, summary)
    \<and> psSeedCount summary = psFinalCount summary + int (length (psDropped summary)) \<and> length (psFilters summary) = 3"
proof -
  let ?fs = "withSuppression ''null-deref'' (Inr [(1, 3, ''all'')]) (chainDefault (Inl ''closed''))"
  let ?cs = "[plainCandidate 1 ''f'' ''p'' 9, plainCandidate 1 ''f'' ''p'' 3]"
  obtain rows summary where r: "planCandidates nullDerefSpec ?fs ?cs = (rows, summary)" by (cases "planCandidates nullDerefSpec ?fs ?cs")
  have k: "keyIgnoresLines nullDerefSpec" by (rule builtin_keys) (simp add: nullDerefSpec_def)
  note p = plan_accounts [OF modelled_chains(1) k r]
  then have "map fsName (psFilters summary) = map cfName ?fs" by blast
  from arg_cong [OF this, of length] have "length (psFilters summary) = 3" by (simp add: withSuppression_def chainDefault_def)
  with p r show ?thesis by blast
qed

text \<open>
  Folding a chain moves the row to the least line of its members but keeps the function of the first: the place it
  names need not exist.
\<close>

definition chainCandidate :: "int \<Rightarrow> string \<Rightarrow> int \<Rightarrow> Candidate" where
  "chainCandidate fid fn line = (plainCandidate fid fn ''ips'' line)\<lparr>NullOriginTier := ''caller-arg'', ChainRoot := ''send''\<rparr>"

lemma chain_moves_line:
  "map (\<lambda>c. (FunctionName c, Line c)) (chainDedupCandidates [chainCandidate 1 ''body'' 40, chainCandidate 2 ''tail'' 7]) = [(''body'', 7)]"
  by code_simp

text \<open>Nor does it keep the highest tier.\<close>

lemma chain_drops_tier:
  "map SuspicionLevel (chainDedupCandidates
     [chainCandidate 1 ''body'' 40, (chainCandidate 2 ''tail'' 7)\<lparr>SuspicionLevel := ''confirmed''\<rparr>]) = [''suspected'']"
  by code_simp

end
