(* ===== verification/Lock_Order_Facts.thy ===== *)
theory Lock_Order_Facts
  imports Lock_Order Return_Sound
begin

text \<open>
  What the order of locks promises: the calls of a function are found by two binary searches, the edges are the nested
  acquisitions of a sequence of calls, and a confirmed deadlock is a cycle of edges.
\<close>

section \<open>The calls of a function are those in its lines\<close>

lemma searchLoop_end: "\<not> i < j \<Longrightarrow> searchLoop f i j = i"
  by (simp add: searchLoop.simps)

lemma searchLoop_step:
  "i < j \<Longrightarrow> searchLoop f i j = (if f ((i + j) div 2) then searchLoop f i ((i + j) div 2) else searchLoop f (Suc ((i + j) div 2)) j)"
  by (simp add: searchLoop.simps)

lemma searchLoop_least:
  assumes mono: "\<And>a b. f a \<Longrightarrow> a \<le> b \<Longrightarrow> b < n \<Longrightarrow> f b"
    and "i \<le> j" "\<And>k. k < i \<Longrightarrow> \<not> f k" "\<And>k. j \<le> k \<Longrightarrow> k < n \<Longrightarrow> f k" "j \<le> n"
  shows "searchLoop f i j \<le> n \<and> (\<forall>k < n. f k \<longleftrightarrow> searchLoop f i j \<le> k)"
  using assms
proof (induction f i j rule: searchLoop.induct)
  case (1 f i j)
  show ?case
  proof (cases "i < j")
    case False
    then have r: "searchLoop f i j = i" "i = j" using 1(4) by (simp_all add: searchLoop_end)
    have "f k \<longleftrightarrow> i \<le> k" if "k < n" for k using 1(5,6) r(2) that by (meson not_le)
    then show ?thesis using r 1(7) by simp
  next
    case True
    let ?h = "(i + j) div 2"
    have h: "i \<le> ?h" "?h < j" using True by auto
    show ?thesis
    proof (cases "f ?h")
      case t: True
      have "searchLoop f i ?h \<le> n \<and> (\<forall>k < n. f k \<longleftrightarrow> searchLoop f i ?h \<le> k)"
        by (rule 1(1) [OF True t 1(3)]) (use h t 1(3) [OF t] 1(5,7) in auto)
      then show ?thesis using True t by (simp add: searchLoop_step)
    next
      case e: False
      have below: "\<not> f k" if "k < Suc ?h" for k using e 1(3) [of k ?h] that h(2) 1(7) by fastforce
      have "searchLoop f (Suc ?h) j \<le> n \<and> (\<forall>k < n. f k \<longleftrightarrow> searchLoop f (Suc ?h) j \<le> k)"
        by (rule 1(2) [OF True e 1(3) _ below 1(6,7)]) (use h in auto)
      then show ?thesis using True e by (simp add: searchLoop_step)
    qed
  qed
qed

lemma sortSearch_least:
  assumes "\<And>a b. f a \<Longrightarrow> a \<le> b \<Longrightarrow> b < n \<Longrightarrow> f b"
  shows "sortSearch n f \<le> n" "\<And>k. k < n \<Longrightarrow> f k \<longleftrightarrow> sortSearch n f \<le> k"
  using searchLoop_least [of f n 0 n] assms by (auto simp: sortSearch_def)

lemma filter_interval:
  assumes "\<And>k. k < length xs \<Longrightarrow> p (xs ! k) \<longleftrightarrow> a \<le> k \<and> k < b"
  shows "filter p xs = drop a (take b xs)"
proof (cases "a \<le> b")
  case True
  have xs: "xs = take a (take b xs) @ drop a (take b xs) @ drop b xs" by (metis append.assoc append_take_drop_id)
  have "filter p (take a (take b xs)) = []" using assms by (auto simp: filter_empty_conv in_set_conv_nth)
  moreover have "filter p (drop b xs) = []" using assms by (auto simp: filter_empty_conv in_set_conv_nth)
  moreover have "p (drop a (take b xs) ! i)" if "i < length (drop a (take b xs))" for i
  proof -
    have "a + i < length xs" "a + i < b" using that by auto
    then show ?thesis using assms [of "a + i"] by simp
  qed
  then have "filter p (drop a (take b xs)) = drop a (take b xs)" by (auto simp only: filter_id_conv in_set_conv_nth)
  ultimately show ?thesis by (subst xs) (simp only: filter_append append_Nil append_Nil2)
next
  case False
  then have "filter p xs = []" using assms by (auto simp: filter_empty_conv in_set_conv_nth)
  then show ?thesis using False by simp
qed

text \<open>Two searches over the calls in the order of their lines find the calls that start within a function.\<close>

lemma nodesInRange_exact:
  assumes "sorted (map StartLine nodes)"
  shows "nodesInRange nodes s t = filter (\<lambda>n. s \<le> StartLine n \<and> StartLine n \<le> t) nodes"
proof (cases "t < s")
  case True
  then show ?thesis by (auto simp: nodesInRange_def intro!: filter_False [symmetric])
next
  case False
  have m: "StartLine (nodes ! a) \<le> StartLine (nodes ! b)" if "a \<le> b" "b < length nodes" for a b
    using sorted_nth_mono [OF assms, of a b] that by simp
  have "filter (\<lambda>n. s \<le> StartLine n \<and> StartLine n \<le> t) nodes =
      drop (sortSearch (length nodes) (\<lambda>i. s \<le> StartLine (nodes ! i))) (take (sortSearch (length nodes) (\<lambda>i. t < StartLine (nodes ! i))) nodes)"
  proof (rule filter_interval)
    fix k assume k: "k < length nodes"
    have "s \<le> StartLine (nodes ! k) \<longleftrightarrow> sortSearch (length nodes) (\<lambda>i. s \<le> StartLine (nodes ! i)) \<le> k"
      by (rule sortSearch_least(2) [OF _ k]) (use m in fastforce)
    moreover have "t < StartLine (nodes ! k) \<longleftrightarrow> sortSearch (length nodes) (\<lambda>i. t < StartLine (nodes ! i)) \<le> k"
      by (rule sortSearch_least(2) [OF _ k]) (use m in fastforce)
    ultimately show "(s \<le> StartLine (nodes ! k) \<and> StartLine (nodes ! k) \<le> t) \<longleftrightarrow>
        sortSearch (length nodes) (\<lambda>i. s \<le> StartLine (nodes ! i)) \<le> k \<and> k < sortSearch (length nodes) (\<lambda>i. t < StartLine (nodes ! i))"
      by (simp add: not_less [symmetric] not_le)
  qed
  then show ?thesis using False by (simp add: nodesInRange_def Let_def)
qed


section \<open>Edges are nested acquisitions\<close>

definition stillHeld :: "string \<Rightarrow> (string \<times> string) list \<Rightarrow> bool" where
  "stillHeld h calls \<longleftrightarrow> (\<exists>xs n ys. calls = xs @ (n, h) # ys \<and> n \<in> set lockCalls \<and> h \<noteq> '''' \<and> (\<forall>u \<in> set unlockCalls. (u, h) \<notin> set ys))"

lemma lock_unlock_disjoint: "n \<in> set lockCalls \<Longrightarrow> n \<notin> set unlockCalls"
  by (auto simp: lockCalls_def unlockCalls_def)

lemma stillHeld_nil: "\<not> stillHeld h []"
  by (simp add: stillHeld_def)

lemma stillHeld_snoc:
  "stillHeld h (calls @ [(n, m)]) \<longleftrightarrow> (h = m \<and> m \<noteq> '''' \<and> n \<in> set lockCalls) \<or> (stillHeld h calls \<and> \<not> (h = m \<and> n \<in> set unlockCalls))"
proof
  assume "stillHeld h (calls @ [(n, m)])"
  then obtain xs k ys where s: "calls @ [(n, m)] = xs @ (k, h) # ys" "k \<in> set lockCalls" "h \<noteq> ''''" "\<forall>u \<in> set unlockCalls. (u, h) \<notin> set ys"
    unfolding stillHeld_def by blast
  show "(h = m \<and> m \<noteq> '''' \<and> n \<in> set lockCalls) \<or> (stillHeld h calls \<and> \<not> (h = m \<and> n \<in> set unlockCalls))"
  proof (cases ys rule: rev_cases)
    case Nil
    then show ?thesis using s by simp
  next
    case (snoc zs z)
    then have "calls = xs @ (k, h) # zs" "z = (n, m)" using s(1) by simp_all
    then have "stillHeld h calls" using s(2-4) snoc unfolding stillHeld_def
      by (intro exI [of _ xs] exI [of _ k] exI [of _ zs]) auto
    moreover have "\<not> (h = m \<and> n \<in> set unlockCalls)" using s(4) snoc \<open>z = (n, m)\<close> by auto
    ultimately show ?thesis by blast
  qed
next
  assume "(h = m \<and> m \<noteq> '''' \<and> n \<in> set lockCalls) \<or> (stillHeld h calls \<and> \<not> (h = m \<and> n \<in> set unlockCalls))"
  then show "stillHeld h (calls @ [(n, m)])"
  proof (elim disjE conjE)
    assume "h = m" "m \<noteq> ''''" "n \<in> set lockCalls"
    then show ?thesis unfolding stillHeld_def by (intro exI [of _ calls] exI [of _ n] exI [of _ "[]"]) simp
  next
    assume a: "stillHeld h calls" "\<not> (h = m \<and> n \<in> set unlockCalls)"
    then obtain xs k ys where "calls = xs @ (k, h) # ys" "k \<in> set lockCalls" "h \<noteq> ''''" "\<forall>u \<in> set unlockCalls. (u, h) \<notin> set ys"
      unfolding stillHeld_def by blast
    then show ?thesis using a(2) unfolding stillHeld_def
      by (intro exI [of _ xs] exI [of _ k] exI [of _ "ys @ [(n, m)]"]) auto
  qed
qed

definition nestedLock :: "(string \<times> string) list \<Rightarrow> string \<Rightarrow> string \<Rightarrow> bool" where
  "nestedLock calls h m \<longleftrightarrow> (\<exists>xs n ys. calls = xs @ (n, m) # ys \<and> n \<in> set lockCalls \<and> m \<noteq> '''' \<and> m \<noteq> h \<and> stillHeld h xs)"

lemma nestedLock_snoc:
  "nestedLock (calls @ [(n, m)]) h k \<longleftrightarrow> nestedLock calls h k \<or> (k = m \<and> n \<in> set lockCalls \<and> m \<noteq> '''' \<and> m \<noteq> h \<and> stillHeld h calls)"
  (is "?l \<longleftrightarrow> ?r")
proof
  assume ?l
  then obtain xs l ys where s: "calls @ [(n, m)] = xs @ (l, k) # ys" "l \<in> set lockCalls" "k \<noteq> ''''" "k \<noteq> h" "stillHeld h xs"
    unfolding nestedLock_def by blast
  then show ?r
  proof (cases ys rule: rev_cases)
    case (snoc zs z)
    then have "calls = xs @ (l, k) # zs" using s(1) by simp
    then show ?thesis using s(2-) unfolding nestedLock_def by auto
  qed simp
next
  assume ?r
  then show ?l
  proof (elim disjE conjE)
    assume "nestedLock calls h k"
    then obtain xs l ys where "calls = xs @ (l, k) # ys" "l \<in> set lockCalls" "k \<noteq> ''''" "k \<noteq> h" "stillHeld h xs"
      unfolding nestedLock_def by blast
    then show ?l unfolding nestedLock_def by (intro exI [of _ xs] exI [of _ l] exI [of _ "ys @ [(n, m)]"]) simp
  next
    assume "k = m" "n \<in> set lockCalls" "m \<noteq> ''''" "m \<noteq> h" "stillHeld h calls"
    then show ?l unfolding nestedLock_def by (intro exI [of _ calls] exI [of _ n] exI [of _ "[]"]) simp
  qed
qed

lemma lockStep_pair:
  "lockStep (n, m) (held, edges) =
     (if m = '''' then (held, edges)
      else if n \<in> set lockCalls then (held @ [m], edges @ map (\<lambda>h. (h, m)) (filter (\<lambda>h. h \<noteq> m) held))
      else (if n \<in> set unlockCalls then filter (\<lambda>h. h \<noteq> m) held else held, edges))"
  using lock_unlock_disjoint [of n] by (simp add: lockStep_def)

lemma lock_fold:
  "set (fst (fold lockStep calls ([], []))) = {h. stillHeld h calls}
     \<and> set (snd (fold lockStep calls ([], []))) = {(h, m). nestedLock calls h m}"
proof (induction calls rule: rev_induct)
  case Nil
  show ?case by (simp add: stillHeld_nil nestedLock_def)
next
  case (snoc c calls)
  obtain n m where c: "c = (n, m)" by (cases c)
  obtain held edges where f: "fold lockStep calls ([], []) = (held, edges)" by (cases "fold lockStep calls ([], [])")
  have ih: "set held = {h. stillHeld h calls}" "set edges = {(h, m). nestedLock calls h m}" using snoc f by auto
  have "stillHeld h calls \<Longrightarrow> h \<noteq> ''''" for h by (auto simp: stillHeld_def)
  then show ?case using lock_unlock_disjoint [of n]
    by (auto simp: f c lockStep_pair ih stillHeld_snoc nestedLock_snoc)
qed

lemma lockEdges_nested: "(h, m) \<in> set (lockEdges calls) \<longleftrightarrow> nestedLock calls h m"
  using lock_fold [of calls] by (simp add: lockEdges_def)


section \<open>The search decides reachability\<close>

definition lockRel :: "lockAdj \<Rightarrow> (string \<times> string) set" where
  "lockRel adj = {(a, b). b \<in> set (lockSucc adj a)}"

definition namedEdges :: "(int \<times> string) list \<Rightarrow> (int \<times> int \<times> string) list \<Rightarrow> (string \<times> string) set" where
  "namedEdges names edges = {(a, b). a \<noteq> '''' \<and> b \<noteq> '''' \<and> a \<noteq> b
     \<and> (\<exists>(s, d, fn) \<in> set edges. lockName names s = a \<and> lockName names d = b)}"

lemma lockSucc_update: "lockSucc (AList.update a ms adj) n = (if n = a then ms else lockSucc adj n)"
  by (simp add: lockSucc_def update_conv')

lemma addLock_rel: "lockRel (addLock names e adj) = lockRel adj \<union> namedEdges names [e]"
  by (cases e) (auto simp: addLock_def Let_def lockRel_def lockSucc_update namedEdges_def split: if_splits)

lemma lockGraph_rel: "lockRel (lockGraph names edges) = namedEdges names edges"
proof (induction edges rule: rev_induct)
  case Nil
  show ?case by (simp add: lockGraph_def lockRel_def lockSucc_def namedEdges_def)
next
  case (snoc e edges)
  have "namedEdges names (edges @ [e]) = namedEdges names edges \<union> namedEdges names [e]" by (auto simp: namedEdges_def)
  then show ?case using snoc by (simp add: lockGraph_def addLock_rel)
qed

lemma orderedAdj_rel: "(\<And>xs. set (ord xs) = set xs) \<Longrightarrow> lockRel (orderedAdj ord adj) = lockRel adj"
  by (auto simp: lockRel_def lockSucc_def orderedAdj_def map_of_map split: option.splits)

lemma lockLoop_sound: "lockLoop adj goal stack visited \<Longrightarrow> \<exists>n \<in> set stack. (n, goal) \<in> (lockRel adj)\<^sup>+"
proof (induction adj goal stack visited rule: lockLoop.induct)
  case (2 adj goal n stack visited)
  show ?case
  proof (cases "goal \<in> set (lockSucc adj n)")
    case True
    then show ?thesis by (auto simp: lockRel_def)
  next
    case False
    obtain k where k: "k \<in> set (snd (pushNew (lockSucc adj n) (visited, stack)))" "(k, goal) \<in> (lockRel adj)\<^sup>+"
      using 2 False by (auto simp: lockLoop.simps)
    then have "k \<in> set stack \<or> k \<in> set (lockSucc adj n)" using pushNew_new [of "lockSucc adj n" visited stack] by auto
    then show ?thesis using k(2) by (auto simp: lockRel_def intro: trancl_into_trancl2)
  qed
qed (simp add: lockLoop.simps)

lemma lockLoop_complete:
  assumes "\<not> lockLoop adj goal stack visited" "set stack \<subseteq> set visited"
    and "\<And>v. v \<in> set visited \<Longrightarrow> v \<notin> set stack \<Longrightarrow> goal \<notin> set (lockSucc adj v) \<and> set (lockSucc adj v) \<subseteq> set visited"
    and "v \<in> set visited"
  shows "(v, goal) \<notin> (lockRel adj)\<^sup>+"
  using assms
proof (induction adj goal stack visited rule: lockLoop.induct)
  case (1 adj goal visited)
  show ?case
  proof
    assume "(v, goal) \<in> (lockRel adj)\<^sup>+"
    moreover have "(v, k) \<in> (lockRel adj)\<^sup>+ \<Longrightarrow> k \<in> set visited \<and> k \<noteq> goal" for k
      by (induction rule: trancl_induct) (use 1(3,4) in \<open>auto simp: lockRel_def\<close>)
    ultimately show False by blast
  qed
next
  case (2 adj goal n stack visited)
  have g: "goal \<notin> set (lockSucc adj n)" using 2(2) by (auto simp: lockLoop.simps split: if_splits)
  obtain new where new: "fst (pushNew (lockSucc adj n) (visited, stack)) = visited @ new"
    "snd (pushNew (lockSucc adj n) (visited, stack)) = rev new @ stack" "set new = set (lockSucc adj n) - set visited"
    using pushNew_new [of "lockSucc adj n" visited stack] by blast
  show ?case
  proof (rule 2(1) [OF g])
    show "\<not> lockLoop adj goal (snd (pushNew (lockSucc adj n) (visited, stack))) (fst (pushNew (lockSucc adj n) (visited, stack)))"
      using 2(2) g by (simp add: lockLoop.simps)
    show "set (snd (pushNew (lockSucc adj n) (visited, stack))) \<subseteq> set (fst (pushNew (lockSucc adj n) (visited, stack)))"
      using new 2(3) by auto
    show "v \<in> set (fst (pushNew (lockSucc adj n) (visited, stack)))" using new 2(5) by simp
  next
    fix w assume w: "w \<in> set (fst (pushNew (lockSucc adj n) (visited, stack)))" "w \<notin> set (snd (pushNew (lockSucc adj n) (visited, stack)))"
    then have "w \<in> set visited" "w \<notin> set stack" using new by auto
    then show "goal \<notin> set (lockSucc adj w) \<and> set (lockSucc adj w) \<subseteq> set (fst (pushNew (lockSucc adj n) (visited, stack)))"
      using 2(4) [of w] g new by (cases "w = n") auto
  qed
qed

lemma lockReachable_iff: "lockReachable adj a b \<longleftrightarrow> (a, b) \<in> (lockRel adj)\<^sup>*"
proof -
  have "lockLoop adj b [a] [a] \<longleftrightarrow> (a, b) \<in> (lockRel adj)\<^sup>+"
    using lockLoop_sound [of adj b "[a]" "[a]"] lockLoop_complete [of adj b "[a]" "[a]" a] by auto
  then show ?thesis by (auto simp: lockReachable_def rtrancl_eq_or_trancl)
qed


section \<open>What the filter confirms\<close>

text \<open>C33: whatever the order in which maps are iterated, the lock-order filter confirms a candidate of two named
  mutexes whose acquisition has no timeout exactly when the two lie on a cycle of the recorded edges, and
  keeps the tier of every other candidate.\<close>

theorem lock_order_exact:
  assumes ord: "\<And>xs. set (ord xs) = set xs"
  shows "SuspicionLevel (lockDecision ord names edges evs c) =
    (case map_of evs (DerefEventID c) of
       None \<Rightarrow> SuspicionLevel c
     | Some p \<Rightarrow> if lpMutexA p \<noteq> '''' \<and> lpMutexB p \<noteq> '''' \<and> \<not> lpTimed p
           \<and> (lpMutexA p, lpMutexB p) \<in> (namedEdges names edges)\<^sup>* \<and> (lpMutexB p, lpMutexA p) \<in> (namedEdges names edges)\<^sup>*
         then ''confirmed'' else SuspicionLevel c)"
  by (simp add: lockDecision_def Let_def lockReachable_iff orderedAdj_rel [OF ord] lockGraph_rel split: option.splits)

definition lockEvents :: "(int \<times> lockProps) list" where
  "lockEvents = [(1, \<lparr>lpMutexA = ''a'', lpMutexB = ''b'', lpTimed = False\<rparr>)]"

theorem lock_order_exact_witness:
  "SuspicionLevel (lockDecision rev [(1, ''a''), (2, ''b'')] [(1, 2, ''f''), (2, 1, ''g'')] lockEvents (plainCandidate 1 ''f'' ''a'' 3)) = ''confirmed''"
proof -
  let ?e = "namedEdges [(1, ''a''), (2, ''b'')] [(1, 2, ''f''), (2, 1, ''g'')]"
  have "(''a'', ''b'') \<in> ?e" "(''b'', ''a'') \<in> ?e" by (simp_all add: namedEdges_def lockName_def)
  then show ?thesis
    by (subst lock_order_exact [of rev]) (auto simp: lockEvents_def plainCandidate_def)
qed

text \<open>The recorded order is the order of nested acquisitions.  In a file whose calls are listed in the order of
  their lines, an edge from h to m with holder g is recorded exactly when a function g of the file, among the
  calls that start in its lines, takes m by a locking call while it holds another h, that is, after a call that
  locks h and is followed by no call that unlocks h.\<close>

theorem lock_edges_exact:
  assumes "sorted (map StartLine (FindAll ''call_expression'' root))"
  shows "(h, m, g) \<in> set (fileLockEdges root funcs) \<longleftrightarrow>
    (\<exists>f \<in> set funcs. fnName f = g \<and> nestedLock (map (\<lambda>call. (extractCallName call, firstArgText call))
        (filter (\<lambda>call. fnStartLine f \<le> StartLine call \<and> StartLine call \<le> fnEndLine f) (FindAll ''call_expression'' root))) h m)"
  using assms by (auto simp: fileLockEdges_def functionLocks_def nodesInRange_exact lockEdges_nested [symmetric])

definition lockCall :: "int \<Rightarrow> string \<Rightarrow> string \<Rightarrow> Node" where
  "lockCall l n m = tinyNode ''call_expression'' '''' '''' l [tinyNode ''identifier'' ''function'' n l [],
     tinyNode ''argument_list'' ''arguments'' '''' l [tinyNode ''pointer_expression'' '''' (CHR ''&'' # m) l []]]"

definition lockFile :: Node where
  "lockFile = tinyNode ''translation_unit'' '''' '''' 0 [lockCall 1 ''mtx_lock'' ''a'', lockCall 2 ''mtx_lock'' ''b'', lockCall 3 ''mtx_unlock'' ''a'']"

definition lockFunction :: dbFunction where
  "lockFunction = \<lparr>fnID = 5, fnName = ''f'', fnFileID = 1, fnStartLine = 1, fnEndLine = 9, fnIsStatic = False\<rparr>"

theorem lock_edges_exact_witness:
  "sorted (map StartLine (FindAll ''call_expression'' lockFile))
     \<and> list_ex (\<lambda>f. fnName f = ''f'' \<and> nestedLock (map (\<lambda>call. (extractCallName call, firstArgText call))
        (filter (\<lambda>call. fnStartLine f \<le> StartLine call \<and> StartLine call \<le> fnEndLine f) (FindAll ''call_expression'' lockFile))) ''a'' ''b'') [lockFunction]"
proof -
  have s: "sorted (map StartLine (FindAll ''call_expression'' lockFile))" by code_simp
  moreover have "(''a'', ''b'', ''f'') \<in> set (fileLockEdges lockFile [lockFunction])" by code_simp
  ultimately show ?thesis using lock_edges_exact [OF s, of "''a''" "''b''" "''f''" "[lockFunction]"] by simp
qed

end
