(* ===== verification/Shared_Access_Facts.thy ===== *)
theory Shared_Access_Facts
  imports Shared_Access Lock_Order_Facts
begin

text \<open>
  What the accesses to globals promise: the recorded ones are exact, and a race is confirmed by two accesses of
  which one is a write.
\<close>

section \<open>What is recorded\<close>

definition inFunctionLines :: "dbFunction \<Rightarrow> Node \<Rightarrow> bool" where
  "inFunctionLines f n \<longleftrightarrow> fnStartLine f \<le> StartLine n \<and> StartLine n \<le> fnEndLine f"

text \<open>A name stands on the left of an assignment of the function, or in an update.\<close>

definition writtenIn :: "Node \<Rightarrow> dbFunction \<Rightarrow> string \<Rightarrow> bool" where
  "writtenIn root f x \<longleftrightarrow>
     (\<exists>a \<in> set (FindAll ''assignment_expression'' root). inFunctionLines f a \<and> x \<in> set (assignedNames a))
     \<or> (\<exists>u \<in> set (FindAll ''update_expression'' root). inFunctionLines f u \<and> x \<in> set (identifiersIn u))"

definition mentionedIn :: "Node \<Rightarrow> dbFunction \<Rightarrow> string \<Rightarrow> bool" where
  "mentionedIn root f x \<longleftrightarrow> (\<exists>i \<in> set (FindAll ''identifier'' root). inFunctionLines f i \<and> Text i = x)"

definition inLineOrder :: "Node \<Rightarrow> bool" where
  "inLineOrder root \<longleftrightarrow> list_all (\<lambda>k. sorted (map StartLine (FindAll k root))) [''assignment_expression'', ''update_expression'', ''identifier'']"

lemma nodesInRange_set:
  assumes "inLineOrder root" "k \<in> {''assignment_expression'', ''update_expression'', ''identifier''}"
  shows "set (nodesInRange (FindAll k root) (fnStartLine f) (fnEndLine f)) = {n \<in> set (FindAll k root). inFunctionLines f n}"
  using assms by (auto simp: inLineOrder_def nodesInRange_exact inFunctionLines_def)

lemma functionWrites_set:
  assumes "inLineOrder root"
  shows "x \<in> set (functionWrites globals root f) \<longleftrightarrow> x \<in> set globals \<and> writtenIn root f x"
  by (simp add: functionWrites_def nodesInRange_set [OF assms] writtenIn_def Bex_def) blast

lemma functionReads_set:
  assumes "inLineOrder root"
  shows "x \<in> set (functionReads globals writes root f) \<longleftrightarrow> x \<in> set globals \<and> x \<notin> set writes \<and> mentionedIn root f x"
  by (auto simp: functionReads_def nodesInRange_set [OF assms] mentionedIn_def)

lemma accessKind_exact:
  assumes "inLineOrder root" "g \<in> set globals"
  shows "accessKind (functionWrites globals root f) (functionReads globals (functionWrites globals root f) root f) g =
    (if writtenIn root f g then ''write'' else if mentionedIn root f g then ''read'' else '''')"
  using assms(2) by (auto simp: accessKind_def functionWrites_set [OF assms(1)] functionReads_set [OF assms(1)])

lemma fileAccesses_set:
  "(f, g, a) \<in> set (fileAccesses root funcs) \<longleftrightarrow> f \<in> set funcs \<and> g \<in> set (collectGlobalNames root funcs) \<and> a \<noteq> ''''
    \<and> accessKind (functionWrites (collectGlobalNames root funcs) root f)
        (functionReads (collectGlobalNames root funcs) (functionWrites (collectGlobalNames root funcs) root f) root f) g = a"
  by (auto simp: fileAccesses_def Let_def)

text \<open>The recorded accesses are exact.  In a file whose nodes are listed in the order of their lines, an access of a
  function to a name is recorded exactly when the function is one of the file and the name one of its globals;
  it is a write if the name stands on the left of an assignment or in an update in the lines of the function,
  a read if it is only mentioned there, and there is no other kind of access.\<close>

theorem shared_access_exact:
  assumes "inLineOrder root"
  shows "(f, g, a) \<in> set (fileAccesses root funcs) \<longleftrightarrow> f \<in> set funcs \<and> g \<in> set (collectGlobalNames root funcs)
    \<and> (writtenIn root f g \<and> a = ''write'' \<or> \<not> writtenIn root f g \<and> mentionedIn root f g \<and> a = ''read'')"
proof (cases "g \<in> set (collectGlobalNames root funcs)")
  case True
  show ?thesis by (simp add: fileAccesses_set accessKind_exact [OF assms True] True) auto
qed (simp add: fileAccesses_set)

definition raceFunction :: dbFunction where
  "raceFunction = \<lparr>fnID = 5, fnName = ''f'', fnFileID = 1, fnStartLine = 3, fnEndLine = 5, fnIsStatic = False\<rparr>"

text \<open>int f(int x); int g; and then, in f, a store to g or to an element whose index is g.\<close>

definition raceFile :: "Node \<Rightarrow> Node" where
  "raceFile target = tinyNode ''translation_unit'' '''' '''' 0
     [tinyNode ''declaration'' '''' '''' 1 [tinyNode ''function_declarator'' ''declarator'' '''' 1 [tinyNode ''identifier'' '''' ''f'' 1 [],
        tinyNode ''parameter_declaration'' '''' '''' 1 [tinyNode ''identifier'' '''' ''x'' 1 []]]],
      tinyNode ''declaration'' '''' '''' 1 [tinyNode ''identifier'' '''' ''g'' 1 []],
      tinyNode ''function_definition'' '''' '''' 2 [tinyNode ''declaration'' '''' '''' 3 [tinyNode ''identifier'' '''' ''x'' 3 []],
        tinyNode ''assignment_expression'' '''' '''' 4 [target, tinyNode ''identifier'' '''' ''x'' 4 []]]]"

theorem shared_access_exact_witness:
  "inLineOrder (raceFile (tinyNode ''identifier'' '''' ''g'' 4 [])) \<and> writtenIn (raceFile (tinyNode ''identifier'' '''' ''g'' 4 [])) raceFunction ''g''
     \<and> (raceFunction, ''g'', ''write'') \<in> set (fileAccesses (raceFile (tinyNode ''identifier'' '''' ''g'' 4 [])) [raceFunction])"
proof -
  let ?r = "raceFile (tinyNode ''identifier'' '''' ''g'' 4 [])"
  have o: "inLineOrder ?r" by code_simp
  have g: "list_ex (\<lambda>(f, g, a). f = raceFunction \<and> g = ''g'' \<and> a = ''write'') (fileAccesses ?r [raceFunction])" by code_simp
  then have "(raceFunction, ''g'', ''write'') \<in> set (fileAccesses ?r [raceFunction])" by (auto simp: list_ex_iff)
  with shared_access_exact [OF o, of raceFunction "''g''" "''write''" "[raceFunction]"] o show ?thesis by auto
qed

text \<open>An index counts as written, and the parameter of a prototype as a global, which the local of that name then accesses.\<close>

lemma index_counts_as_written:
  "list_ex (\<lambda>(f, g, a). g = ''g'' \<and> a = ''write'')
     (fileAccesses (raceFile (tinyNode ''subscript_expression'' '''' '''' 4 [tinyNode ''identifier'' '''' ''a'' 4 [], tinyNode ''identifier'' '''' ''g'' 4 []]))
       [raceFunction])"
  by code_simp

lemma prototype_parameter_is_global:
  "list_ex (\<lambda>(f, g, a). g = ''x'' \<and> a = ''read'') (fileAccesses (raceFile (tinyNode ''identifier'' '''' ''g'' 4 [])) [raceFunction])"
  by code_simp

section \<open>What is confirmed\<close>

lemma accessByFunc_last:
  "map_of (accessByFunc store edges) (g, fn) =
     (if g = '''' \<or> fn = '''' then None
      else map_option (\<lambda>(src, dst, access). access)
        (find (\<lambda>(src, dst, access). lockName (namesByNode (asFunctions store)) src = fn \<and> lockName (namesByNode (asGlobals store)) dst = g) (rev edges)))"
proof (induction edges rule: rev_induct)
  case Nil
  show ?case by (simp add: accessByFunc_def)
next
  case (snoc e edges)
  obtain src dst access where e: "e = (src, dst, access)" by (cases e)
  have "accessByFunc store (edges @ [e]) = addAccess (namesByNode (asFunctions store)) (namesByNode (asGlobals store)) e (accessByFunc store edges)"
    by (simp add: accessByFunc_def)
  then show ?case using snoc by (auto simp: e addAccess_def Let_def update_conv')
qed

lemma racing_iff: "racing accesses \<longleftrightarrow> 2 \<le> length accesses \<and> (\<exists>a \<in> set accesses. strContains a ''write'')"
proof -
  have "length (filter (\<lambda>a. strContains a ''write'') accesses) + length (filter (\<lambda>a. \<not> strContains a ''write'') accesses) = length accesses"
    by (rule sum_length_filter_compl)
  moreover have "1 \<le> length (filter (\<lambda>a. strContains a ''write'') accesses) \<longleftrightarrow> (\<exists>a \<in> set accesses. strContains a ''write'')"
    by (simp add: Suc_le_eq length_greater_0_conv filter_empty_conv)
  ultimately show ?thesis by (auto simp: racing_def Let_def)
qed

text \<open>Two accesses that the builder recorded, one of them a write, at two places of the list of threads.\<close>

lemma two_accesses:
  "2 \<le> length (threadAccesses table g threads) \<longleftrightarrow>
     2 \<le> length (filter (\<lambda>t. threadAccess table g (TrimSpace t) \<noteq> '''') (SplitByte CHR '','' threads))"
  by (simp add: threadAccesses_def filter_map o_def)

lemma race_confirmed_iff:
  assumes "map_of evs (DerefEventID c) = Some (v, threads)" "Category c = ''shared_data_race''" "v \<noteq> ''''" "threads \<noteq> ''''"
    "SuspicionLevel c \<noteq> ''confirmed''"
  shows "SuspicionLevel (accessDecision table evs c) = ''confirmed'' \<longleftrightarrow>
    2 \<le> length (threadAccesses table v threads) \<and> (\<exists>a \<in> set (threadAccesses table v threads). strContains a ''write'')"
  using assms by (simp add: accessDecision_def racing_iff)

text \<open>Of two functions with one name the last edge decides: the write of the first is forgotten.\<close>

lemma namesake_access_lost:
  "racing (threadAccesses (accessByFunc \<lparr>asEdges = Inr [], asEvents = (\<lambda>ids. Inr []),
       asFunctions = Some [(1, ''f''), (2, ''f''), (3, ''h'')], asGlobals = Some [(9, ''g'')]\<rparr>
     [(1, 9, ''write''), (3, 9, ''read'')]) ''g'' ''f,h'')
   \<and> \<not> racing (threadAccesses (accessByFunc \<lparr>asEdges = Inr [], asEvents = (\<lambda>ids. Inr []),
       asFunctions = Some [(1, ''f''), (2, ''f''), (3, ''h'')], asGlobals = Some [(9, ''g'')]\<rparr>
     [(1, 9, ''write''), (3, 9, ''read''), (2, 9, ''read'')]) ''g'' ''f,h'')"
  by code_simp

end
