(* ===== verification/Settlement.thy ===== *)
theory Settlement
  imports Prelude "HOL-Library.AList"
begin

text \<open>
  Settlements of batches: the table settlement_stats and its operations (internal/db/crud_settlement.go), the claims
  by which orchestrators that race on a batch agree on one worker, and what internal/cli/settlement.go makes of it:
  the absorption of reports, the ranges in flight, the measured times.  A statement of SQL is one step.
  Numbers the table stores as NULL when they are not positive read back as 0 and are 0 here; times are
  far from the bounds of 64 bits.
\<close>

section \<open>The table\<close>

type_synonym batchKey = "string \<times> string \<times> string"

record SettlementStat =
  ssID :: int
  ssScan :: string
  ssType :: string
  ssRange :: string
  ssHolder :: string
  ssWritten :: int
  ssDismissed :: int
  ssEvidenceOpens :: int
  ssSourceReads :: int
  ssRepoGreps :: int
  ssNeedsContext :: int
  ssStatus :: string
  ssRetry :: int
  ssWallMS :: int
  ssQueueMS :: int
  ssWorkMS :: int
  ssFinishedAt :: int
  ssCreatedAt :: int

record settleDb =
  sdRows :: "SettlementStat list"
  sdNext :: int

definition keyOf :: "SettlementStat \<Rightarrow> batchKey" where
  "keyOf r = (ssScan r, ssType r, ssRange r)"

definition GetSettlementStat :: "batchKey \<Rightarrow> settleDb \<Rightarrow> SettlementStat option" where
  "GetSettlementStat k db = find (\<lambda>r. keyOf r = k) (sdRows db)"

definition changeRow :: "batchKey \<Rightarrow> (SettlementStat \<Rightarrow> SettlementStat) \<Rightarrow> settleDb \<Rightarrow> settleDb" where
  "changeRow k f db = db\<lparr>sdRows := map (\<lambda>r. if keyOf r = k then f r else r) (sdRows db)\<rparr>"

definition insertRow :: "SettlementStat \<Rightarrow> settleDb \<Rightarrow> settleDb" where
  "insertRow r db = db\<lparr>sdRows := sdRows db @ [r\<lparr>ssID := sdNext db\<rparr>], sdNext := sdNext db + 1\<rparr>"

text \<open>The CHECK constraint of the column.\<close>

definition validStatus :: "string \<Rightarrow> bool" where
  "validStatus s \<longleftrightarrow> s \<in> set [''dispatched'', ''done'', ''failed'']"


section \<open>Claims\<close>

definition freshClaim :: "batchKey \<Rightarrow> string \<Rightarrow> int \<Rightarrow> SettlementStat" where
  "freshClaim = (\<lambda>(scan, vt, range) holder now. \<lparr>ssID = 0, ssScan = scan, ssType = vt, ssRange = range, ssHolder = holder, ssWritten = 0,
     ssDismissed = 0, ssEvidenceOpens = 0, ssSourceReads = 0, ssRepoGreps = 0, ssNeedsContext = 0, ssStatus = ''dispatched'',
     ssRetry = 0, ssWallMS = 0, ssQueueMS = 0, ssWorkMS = 0, ssFinishedAt = 0, ssCreatedAt = now\<rparr>)"

definition claimable :: "int \<Rightarrow> bool \<Rightarrow> SettlementStat \<Rightarrow> bool" where
  "claimable stale reclaim r \<longleftrightarrow> reclaim \<or> ssStatus r = ''failed'' \<or> ssStatus r = ''dispatched'' \<and> ssCreatedAt r < stale"

definition takeOver :: "string \<Rightarrow> int \<Rightarrow> SettlementStat \<Rightarrow> SettlementStat" where
  "takeOver holder now r = r\<lparr>ssHolder := holder, ssStatus := ''dispatched'', ssRetry := ssRetry r + 1, ssCreatedAt := now\<rparr>"

text \<open>The upsert with its RETURNING clause: the retry count of the claim, or no row.\<close>

definition claimUpsert :: "batchKey \<Rightarrow> string \<Rightarrow> int \<Rightarrow> int \<Rightarrow> bool \<Rightarrow> settleDb \<Rightarrow> int option \<times> settleDb" where
  "claimUpsert k holder now stale reclaim db =
     (case GetSettlementStat k db of
        None \<Rightarrow> (Some 0, insertRow (freshClaim k holder now) db)
      | Some r \<Rightarrow>
          if claimable stale reclaim r then (Some (ssRetry r + 1), changeRow k (takeOver holder now) db) else (None, db))"

record SettlementClaim =
  scClaimed :: bool
  scReason :: string
  scHolder :: string
  scStatus :: string
  scRetry :: int
  scAgeMS :: int

definition wonClaim :: "string \<Rightarrow> bool \<Rightarrow> SettlementStat option \<Rightarrow> int \<Rightarrow> SettlementClaim" where
  "wonClaim holder reclaim prior retry = \<lparr>scClaimed = True,
     scReason = (if reclaim then ''reclaim''
       else case prior of None \<Rightarrow> ''new'' | Some r \<Rightarrow> if ssStatus r = ''failed'' then ''retry'' else ''stale''),
     scHolder = holder, scStatus = ''dispatched'', scRetry = retry, scAgeMS = 0\<rparr>"

definition ageOf :: "int \<Rightarrow> SettlementStat \<Rightarrow> int" where
  "ageOf now r = (if 0 < ssCreatedAt r \<and> ssCreatedAt r < now then (now - ssCreatedAt r) * 1000 else 0)"

definition lostClaim :: "int \<Rightarrow> SettlementStat \<Rightarrow> SettlementClaim" where
  "lostClaim now r = \<lparr>scClaimed = False, scReason = (if ssStatus r = ''done'' then ''done'' else ''held''), scHolder = ssHolder r,
     scStatus = ssStatus r, scRetry = ssRetry r, scAgeMS = ageOf now r\<rparr>"

text \<open>A claim alone: the row before, the upsert, and after a loss the row again; an error if that row vanished.\<close>

definition ClaimSettlementRange :: "batchKey \<Rightarrow> string \<Rightarrow> int \<Rightarrow> int \<Rightarrow> bool \<Rightarrow> settleDb \<Rightarrow> SettlementClaim option \<times> settleDb" where
  "ClaimSettlementRange k holder now stale reclaim db =
     (let prior = GetSettlementStat k db in
      case claimUpsert k holder now stale reclaim db of
        (Some retry, db') \<Rightarrow> (Some (wonClaim holder reclaim prior retry), db')
      | (None, db') \<Rightarrow> (map_option (lostClaim now) (GetSettlementStat k db'), db'))"


section \<open>The other operations\<close>

definition positive :: "int \<Rightarrow> int" where
  "positive x = (if 0 < x then x else 0)"

definition settledRow :: "int \<Rightarrow> SettlementStat \<Rightarrow> SettlementStat" where
  "settledRow now st = st\<lparr>ssCreatedAt := (if ssCreatedAt st = 0 then now else ssCreatedAt st),
     ssStatus := (if ssStatus st = '''' then ''done'' else ssStatus st), ssWallMS := positive (ssWallMS st),
     ssQueueMS := positive (ssQueueMS st), ssWorkMS := positive (ssWorkMS st), ssFinishedAt := positive (ssFinishedAt st)\<rparr>"

text \<open>What the update keeps of the old row: its id, and the time it finished when the new row has none.\<close>

definition overwrite :: "SettlementStat \<Rightarrow> SettlementStat \<Rightarrow> SettlementStat" where
  "overwrite st r = st\<lparr>ssID := ssID r, ssFinishedAt := (if 0 < ssFinishedAt st then ssFinishedAt st else ssFinishedAt r)\<rparr>"

definition upsertRow :: "SettlementStat \<Rightarrow> settleDb \<Rightarrow> settleDb" where
  "upsertRow row db =
     (case GetSettlementStat (keyOf row) db of
        None \<Rightarrow> insertRow row db
      | Some r \<Rightarrow> changeRow (keyOf row) (overwrite row) db)"

definition UpsertSettlementStat :: "int \<Rightarrow> SettlementStat \<Rightarrow> settleDb \<Rightarrow> settleDb option" where
  "UpsertSettlementStat now st db =
     (let row = settledRow now st in if validStatus (ssStatus row) then Some (upsertRow row db) else None)"

definition heldBy :: "string \<Rightarrow> SettlementStat \<Rightarrow> bool" where
  "heldBy holder r \<longleftrightarrow> ssHolder r = holder"

definition MarkSettlementStatus :: "batchKey \<Rightarrow> string \<Rightarrow> string \<Rightarrow> settleDb \<Rightarrow> settleDb option" where
  "MarkSettlementStatus k holder status db =
     (if list_ex (\<lambda>r. keyOf r = k \<and> heldBy holder r) (sdRows db) \<and> \<not> validStatus status then None
      else Some (changeRow k (\<lambda>r. if heldBy holder r then r\<lparr>ssStatus := status\<rparr> else r) db))"

definition IncrementSettlementRetry :: "batchKey \<Rightarrow> string \<Rightarrow> settleDb \<Rightarrow> settleDb" where
  "IncrementSettlementRetry k holder =
     changeRow k (\<lambda>r. if heldBy holder r then r\<lparr>ssRetry := ssRetry r + 1, ssStatus := ''dispatched''\<rparr> else r)"

definition dispatchedOf :: "string \<Rightarrow> string \<Rightarrow> SettlementStat \<Rightarrow> bool" where
  "dispatchedOf scan vt r \<longleftrightarrow> ssScan r = scan \<and> ssType r = vt \<and> ssStatus r = ''dispatched''"

definition SettleDispatchedClaims :: "string \<Rightarrow> string \<Rightarrow> settleDb \<Rightarrow> int \<times> settleDb" where
  "SettleDispatchedClaims scan vt db =
     (int (length (filter (dispatchedOf scan vt) (sdRows db))),
      db\<lparr>sdRows := map (\<lambda>r. if dispatchedOf scan vt r then r\<lparr>ssStatus := ''done''\<rparr> else r) (sdRows db)\<rparr>)"


section \<open>Reports and views\<close>

definition normalizeSettlementRange :: "string \<Rightarrow> string" where
  "normalizeSettlementRange r = (if TrimSpace r = '''' then ''all'' else TrimSpace r)"

record typeCount =
  tcType :: string
  tcRange :: string
  tcWritten :: int
  tcDismissed :: int
  tcEvidenceOpens :: int
  tcSourceReads :: int
  tcRepoGreps :: int

text \<open>A report file: needs_context by its length, and the times that come from its timestamps.\<close>

record settleReport =
  rpValid :: bool
  rpScan :: string
  rpHolder :: string
  rpProcessed :: "typeCount list"
  rpNeeds :: int
  rpWallMS :: int
  rpQueueMS :: int
  rpWorkMS :: int
  rpFinishedAt :: int

definition reportStat :: "settleReport \<Rightarrow> typeCount \<Rightarrow> SettlementStat" where
  "reportStat rep pt = \<lparr>ssID = 0, ssScan = rpScan rep, ssType = tcType pt, ssRange = normalizeSettlementRange (tcRange pt), ssHolder = rpHolder rep,
     ssWritten = tcWritten pt, ssDismissed = tcDismissed pt, ssEvidenceOpens = tcEvidenceOpens pt, ssSourceReads = tcSourceReads pt,
     ssRepoGreps = tcRepoGreps pt, ssNeedsContext = (if length (rpProcessed rep) = 1 then rpNeeds rep else 0), ssStatus = '''', ssRetry = 0,
     ssWallMS = rpWallMS rep, ssQueueMS = rpQueueMS rep, ssWorkMS = rpWorkMS rep, ssFinishedAt = rpFinishedAt rep, ssCreatedAt = 0\<rparr>"

definition absorbable :: "settleReport \<Rightarrow> bool" where
  "absorbable rep \<longleftrightarrow> rpValid rep \<and> rpScan rep \<noteq> ''''"

definition bindDb :: "(settleDb \<Rightarrow> settleDb option) \<Rightarrow> settleDb option \<Rightarrow> settleDb option" where
  "bindDb f st = (case st of None \<Rightarrow> None | Some db \<Rightarrow> f db)"

text \<open>The rows of a report in one transaction, and the types it completes among those the scan knows.\<close>

definition absorbReport :: "int \<Rightarrow> (string \<Rightarrow> string list) \<Rightarrow> settleReport \<Rightarrow> (settleDb \<times> (string \<times> string) list) option
    \<Rightarrow> (settleDb \<times> (string \<times> string) list) option" where
  "absorbReport now known rep st =
     (if \<not> absorbable rep then st
      else case st of
        None \<Rightarrow> None
      | Some (db, completed) \<Rightarrow>
          (case fold (\<lambda>pt. bindDb (UpsertSettlementStat now (reportStat rep pt))) (rpProcessed rep) (Some db) of
             None \<Rightarrow> None
           | Some db' \<Rightarrow> Some (db', if 0 < rpNeeds rep then completed
               else completed @ map (\<lambda>pt. (rpScan rep, tcType pt)) (filter (\<lambda>pt. tcType pt \<in> set (known (rpScan rep))) (rpProcessed rep)))))"

text \<open>The reports come newest first and are applied oldest first; a transaction that fails changes nothing.\<close>

definition persistSettlementReports :: "int \<Rightarrow> (string \<Rightarrow> string list) \<Rightarrow> settleReport list \<Rightarrow> settleDb
    \<Rightarrow> (settleDb \<times> (string \<times> string) list) option" where
  "persistSettlementReports now known reports db = fold (absorbReport now known) (rev reports) (Some (db, []))"

datatype rangeView = Covered | InFlight int | Reclaimable

definition viewOf :: "int \<Rightarrow> int \<Rightarrow> SettlementStat \<Rightarrow> rangeView" where
  "viewOf now stale r =
     (if ssStatus r = ''dispatched'' then (if ssCreatedAt r < stale then Reclaimable else InFlight (ageOf now r))
      else if ssStatus r = ''failed'' then Reclaimable
      else Covered)"

definition maxSourceReadsPerType :: int where "maxSourceReadsPerType = 5"
definition maxEvidenceOpensPerType :: int where "maxEvidenceOpensPerType = 12"
definition maxRepoGrepsPerType :: int where "maxRepoGrepsPerType = 1"

definition exceeds :: "SettlementStat \<Rightarrow> string list" where
  "exceeds r =
     (if maxSourceReadsPerType < ssSourceReads r then [''source_reads''] else [])
     @ (if maxEvidenceOpensPerType < ssEvidenceOpens r then [''evidence_opens''] else [])
     @ (if maxRepoGrepsPerType < ssRepoGreps r then [''repo_greps''] else [])"

definition suggestedBatches :: "int \<Rightarrow> int \<Rightarrow> int" where
  "suggestedBatches candidates batchSize =
     (if candidates \<le> 0 \<or> batchSize \<le> 0 then 0 else go_quot (i64 (candidates + batchSize - 1)) batchSize)"


section \<open>Measured times\<close>

record stageTiming =
  stTotalMS :: int
  stPerTypeMS :: "(string \<times> int) list"
  stPerTypeBatches :: "(string \<times> int) list"
  stBatches :: int
  stSource :: string

definition measuredEnd :: "SettlementStat \<Rightarrow> int" where
  "measuredEnd r = (if ssFinishedAt r \<le> 0 then ssCreatedAt r * 1000 else ssFinishedAt r)"

definition measured :: "SettlementStat \<Rightarrow> bool" where
  "measured r \<longleftrightarrow> ssStatus r = ''done'' \<and> 0 < measuredEnd r"

definition measuredStart :: "SettlementStat \<Rightarrow> int" where
  "measuredStart r =
     (let start = measuredEnd r - ssQueueMS r - ssWorkMS r in if start \<le> 0 \<or> measuredEnd r < start then measuredEnd r else start)"

record spanState =
  spSpans :: "(string \<times> int \<times> int) list"
  spBatches :: "(string \<times> int) list"
  spCount :: int
  spFirst :: int
  spLast :: int

definition spanStep :: "SettlementStat \<Rightarrow> spanState \<Rightarrow> spanState" where
  "spanStep r s =
     (if \<not> measured r then s
      else let a = measuredStart r; z = measuredEnd r; (b, e) = (case map_of (spSpans s) (ssType r) of None \<Rightarrow> (a, z) | Some be \<Rightarrow> be) in
        \<lparr>spSpans = AList.update (ssType r) (min a b, max z e) (spSpans s),
         spBatches = AList.update (ssType r) ((case map_of (spBatches s) (ssType r) of None \<Rightarrow> 0 | Some n \<Rightarrow> n) + 1) (spBatches s),
         spCount = spCount s + 1,
         spFirst = (if spFirst s = 0 \<or> a < spFirst s then a else spFirst s),
         spLast = max z (spLast s)\<rparr>)"

definition measureAIStageTiming :: "SettlementStat list \<Rightarrow> stageTiming" where
  "measureAIStageTiming rows =
     (let s = fold spanStep rows \<lparr>spSpans = [], spBatches = [], spCount = 0, spFirst = 0, spLast = 0\<rparr>;
          total = (if spFirst s < spLast s then spLast s - spFirst s else 0) in
      \<lparr>stTotalMS = total, stPerTypeMS = filter (\<lambda>(vt, d). 0 < d) (map (\<lambda>(vt, b, e). (vt, e - b)) (spSpans s)),
       stPerTypeBatches = spBatches s, stBatches = spCount s, stSource = (if 0 < total then ''self-measured'' else '''')\<rparr>)"


section \<open>Claims that interleave\<close>

text \<open>A claim is three statements; between them other claims and operations run.\<close>

record claimReq =
  crKey :: batchKey
  crHolder :: string
  crStale :: int
  crReclaim :: bool

datatype claimPc = Asking | Asked "SettlementStat option" int | Lost int | Answered "SettlementClaim option"

datatype settleOp = OpSettle SettlementStat | OpMark batchKey string string | OpRetry batchKey string | OpFinish string string

definition runOp :: "int \<Rightarrow> settleOp \<Rightarrow> settleDb \<Rightarrow> settleDb option" where
  "runOp now op db =
     (case op of
        OpSettle st \<Rightarrow> UpsertSettlementStat now st db
      | OpMark k holder status \<Rightarrow> MarkSettlementStatus k holder status db
      | OpRetry k holder \<Rightarrow> Some (IncrementSettlementRetry k holder db)
      | OpFinish scan vt \<Rightarrow> Some (snd (SettleDispatchedClaims scan vt db)))"

inductive claim_step :: "(settleOp \<Rightarrow> bool) \<Rightarrow> int \<Rightarrow> claimReq list \<Rightarrow> settleDb \<times> claimPc list \<Rightarrow> settleDb \<times> claimPc list \<Rightarrow> bool"
  for allowed since reqs where
  ask: "i < length reqs \<Longrightarrow> pcs ! i = Asking \<Longrightarrow> since \<le> now \<Longrightarrow>
     claim_step allowed since reqs (db, pcs) (db, pcs[i := Asked (GetSettlementStat (crKey (reqs ! i)) db) now])"
| win: "i < length reqs \<Longrightarrow> pcs ! i = Asked prior now \<Longrightarrow>
     claimUpsert (crKey (reqs ! i)) (crHolder (reqs ! i)) now (crStale (reqs ! i)) (crReclaim (reqs ! i)) db = (Some retry, db') \<Longrightarrow>
     claim_step allowed since reqs (db, pcs) (db', pcs[i := Answered (Some (wonClaim (crHolder (reqs ! i)) (crReclaim (reqs ! i)) prior retry))])"
| lose: "i < length reqs \<Longrightarrow> pcs ! i = Asked prior now \<Longrightarrow>
     claimUpsert (crKey (reqs ! i)) (crHolder (reqs ! i)) now (crStale (reqs ! i)) (crReclaim (reqs ! i)) db = (None, db') \<Longrightarrow>
     claim_step allowed since reqs (db, pcs) (db', pcs[i := Lost now])"
| told: "i < length reqs \<Longrightarrow> pcs ! i = Lost now \<Longrightarrow>
     claim_step allowed since reqs (db, pcs) (db, pcs[i := Answered (map_option (lostClaim now) (GetSettlementStat (crKey (reqs ! i)) db))])"
| other: "allowed op \<Longrightarrow> since \<le> now \<Longrightarrow> runOp now op db = Some db' \<Longrightarrow> claim_step allowed since reqs (db, pcs) (db', pcs)"

inductive claim_reach :: "(settleOp \<Rightarrow> bool) \<Rightarrow> int \<Rightarrow> claimReq list \<Rightarrow> settleDb \<Rightarrow> settleDb \<times> claimPc list \<Rightarrow> bool"
  for allowed since reqs db0 where
  start: "claim_reach allowed since reqs db0 (db0, replicate (length reqs) Asking)"
| more: "claim_reach allowed since reqs db0 s \<Longrightarrow> claim_step allowed since reqs s s' \<Longrightarrow> claim_reach allowed since reqs db0 s'"

end
