(* ===== verification/Settlement_Facts.thy ===== *)
theory Settlement_Facts
  imports Settlement
begin

text \<open>
  What settlements promise: one row per batch, one winner among claims that race, a view of the batches
  that agrees with what a claim would answer, and absorption of reports that can be repeated.
\<close>

section \<open>Rows by key\<close>

lemma find_map_keep:
  assumes "\<And>r. r \<in> set xs \<Longrightarrow> P (f r) \<longleftrightarrow> P r"
  shows "find P (map f xs) = map_option f (find P xs)"
  using assms by (induction xs) auto

lemma get_change:
  assumes "\<And>r. keyOf r = k \<Longrightarrow> keyOf (f r) = k"
  shows "GetSettlementStat k' (changeRow k f db) = (if k' = k then map_option f (GetSettlementStat k' db) else GetSettlementStat k' db)"
proof -
  have "find (\<lambda>r. keyOf r = k') (map (\<lambda>r. if keyOf r = k then f r else r) (sdRows db))
      = map_option (\<lambda>r. if keyOf r = k then f r else r) (find (\<lambda>r. keyOf r = k') (sdRows db))"
    by (rule find_map_keep) (use assms in auto)
  moreover have "find (\<lambda>r. keyOf r = k') (sdRows db) = Some r \<Longrightarrow> keyOf r = k'" for r
    by (auto simp: find_Some_iff)
  ultimately show ?thesis by (cases "find (\<lambda>r. keyOf r = k') (sdRows db)") (auto simp: GetSettlementStat_def changeRow_def)
qed

lemma find_append: "find P (xs @ ys) = (case find P xs of None \<Rightarrow> find P ys | Some x \<Rightarrow> Some x)"
  by (induction xs) auto

lemma keyOf_id [simp]: "keyOf (r\<lparr>ssID := n\<rparr>) = keyOf r"
  by (simp add: keyOf_def)

lemma get_insert:
  "GetSettlementStat k (insertRow r db) =
     (case GetSettlementStat k db of Some x \<Rightarrow> Some x | None \<Rightarrow> if keyOf r = k then Some (r\<lparr>ssID := sdNext db\<rparr>) else None)"
  by (simp add: GetSettlementStat_def insertRow_def find_append split: option.splits)

lemma keyOf_takeOver [simp]: "keyOf (takeOver h now r) = keyOf r"
  by (simp add: takeOver_def keyOf_def)

lemma keyOf_overwrite [simp]: "keyOf (overwrite st r) = keyOf st"
  by (simp add: overwrite_def keyOf_def)

lemma keyOf_status [simp]: "keyOf (r\<lparr>ssStatus := s\<rparr>) = keyOf r" "keyOf (r\<lparr>ssRetry := n\<rparr>) = keyOf r"
  by (simp_all add: keyOf_def)

lemma keyOf_freshClaim [simp]: "keyOf (freshClaim k holder now) = k"
  by (cases k) (simp add: freshClaim_def keyOf_def)

lemma get_key: "GetSettlementStat k db = Some r \<Longrightarrow> keyOf r = k \<and> r \<in> set (sdRows db)"
  by (auto simp: GetSettlementStat_def find_Some_iff)

lemma get_None: "GetSettlementStat k db = None \<longleftrightarrow> k \<notin> keyOf ` set (sdRows db)"
  by (auto simp: GetSettlementStat_def find_None_iff)


section \<open>The table stays well formed\<close>

definition tableOk :: "settleDb \<Rightarrow> bool" where
  "tableOk db \<longleftrightarrow> distinct (map keyOf (sdRows db)) \<and> distinct (map ssID (sdRows db))
     \<and> (\<forall>r \<in> set (sdRows db). ssID r < sdNext db \<and> validStatus (ssStatus r))"

lemma tableOk_map:
  assumes "tableOk db" "\<And>r. r \<in> set (sdRows db) \<Longrightarrow> keyOf (f r) = keyOf r \<and> ssID (f r) = ssID r \<and> validStatus (ssStatus (f r))"
  shows "tableOk (db\<lparr>sdRows := map f (sdRows db)\<rparr>)"
proof -
  have "map keyOf (map f (sdRows db)) = map keyOf (sdRows db)" "map ssID (map f (sdRows db)) = map ssID (sdRows db)"
    using assms(2) by auto
  then show ?thesis using assms by (auto simp: tableOk_def simp del: map_map)
qed

lemma tableOk_change:
  assumes "tableOk db" "\<And>r. keyOf r = k \<Longrightarrow> r \<in> set (sdRows db) \<Longrightarrow> keyOf (f r) = k \<and> ssID (f r) = ssID r \<and> validStatus (ssStatus (f r))"
  shows "tableOk (changeRow k f db)"
  unfolding changeRow_def by (rule tableOk_map [OF assms(1)]) (use assms in \<open>auto simp: tableOk_def\<close>)

lemma tableOk_insert:
  assumes "tableOk db" "GetSettlementStat (keyOf r) db = None" "validStatus (ssStatus r)"
  shows "tableOk (insertRow r db)"
  using assms by (auto simp: tableOk_def insertRow_def get_None)

lemma validStatus_simps [simp]: "validStatus ''dispatched''" "validStatus ''done''" "validStatus ''failed''"
  by (simp_all add: validStatus_def)

lemma tableOk_claim: "tableOk db \<Longrightarrow> tableOk (snd (claimUpsert k holder now stale reclaim db))"
  by (auto simp: claimUpsert_def freshClaim_def [abs_def] takeOver_def keyOf_def split: option.splits prod.splits
      intro!: tableOk_insert tableOk_change)

lemma tableOk_upsert: "tableOk db \<Longrightarrow> UpsertSettlementStat now st db = Some db' \<Longrightarrow> tableOk db'"
  by (auto simp: UpsertSettlementStat_def upsertRow_def Let_def overwrite_def keyOf_def split: if_splits option.splits
      intro!: tableOk_insert tableOk_change)

lemma tableOk_mark:
  assumes "tableOk db" "MarkSettlementStatus k holder status db = Some db'"
  shows "tableOk db'"
proof -
  have v: "validStatus status" if "keyOf r = k" "r \<in> set (sdRows db)" "heldBy holder r" for r
    using assms(2) that by (auto simp: MarkSettlementStatus_def list_ex_iff split: if_splits)
  have "db' = changeRow k (\<lambda>r. if heldBy holder r then r\<lparr>ssStatus := status\<rparr> else r) db"
    using assms(2) by (simp add: MarkSettlementStatus_def split: if_splits)
  moreover have "tableOk (changeRow k (\<lambda>r. if heldBy holder r then r\<lparr>ssStatus := status\<rparr> else r) db)"
    by (rule tableOk_change [OF assms(1)]) (use assms(1) v in \<open>auto simp: tableOk_def\<close>)
  ultimately show ?thesis by simp
qed

lemma tableOk_retry: "tableOk db \<Longrightarrow> tableOk (IncrementSettlementRetry k holder db)"
  unfolding IncrementSettlementRetry_def by (rule tableOk_change) (auto simp: tableOk_def)

lemma tableOk_finish: "tableOk db \<Longrightarrow> tableOk (snd (SettleDispatchedClaims scan vt db))"
  unfolding SettleDispatchedClaims_def snd_conv by (rule tableOk_map) (auto simp: tableOk_def)

lemma tableOk_op:
  assumes "tableOk db" "runOp now op db = Some db'"
  shows "tableOk db'"
proof (cases op)
  case (OpSettle st)
  then show ?thesis using assms(2) by (simp add: runOp_def tableOk_upsert [OF assms(1)])
next
  case (OpMark k holder status)
  then show ?thesis using assms(2) by (simp add: runOp_def tableOk_mark [OF assms(1)])
next
  case (OpRetry k holder)
  then show ?thesis using assms(2) tableOk_retry [OF assms(1), of k holder] by (simp add: runOp_def)
next
  case (OpFinish scan vt)
  then show ?thesis using assms(2) tableOk_finish [OF assms(1), of scan vt] by (simp add: runOp_def)
qed

section \<open>One winner among claims that race\<close>

definition won :: "claimPc \<Rightarrow> bool" where
  "won pc \<longleftrightarrow> (case pc of Answered (Some c) \<Rightarrow> scClaimed c | _ \<Rightarrow> False)"

definition decided :: "claimPc \<Rightarrow> bool" where
  "decided pc \<longleftrightarrow> (case pc of Asking \<Rightarrow> False | Asked prior now \<Rightarrow> False | _ \<Rightarrow> True)"

lemma won_simps [simp]: "\<not> won Asking" "\<not> won (Asked prior now)" "\<not> won (Lost now)" "won (Answered (Some (wonClaim h rc prior n)))"
  "\<not> won (Answered (map_option (lostClaim now) r))"
  by (auto simp: won_def wonClaim_def lostClaim_def split: option.splits)

lemma decided_simps [simp]: "\<not> decided Asking" "\<not> decided (Asked prior now)" "decided (Lost now)" "decided (Answered a)"
  by (simp_all add: decided_def)

text \<open>A row no claim of the race can take.\<close>

definition guarded :: "int \<Rightarrow> SettlementStat \<Rightarrow> bool" where
  "guarded since r \<longleftrightarrow> (ssStatus r = ''done'' \<or> ssStatus r = ''dispatched'') \<and> since \<le> ssCreatedAt r"

definition harmless :: "batchKey \<Rightarrow> settleOp \<Rightarrow> bool" where
  "harmless k op \<longleftrightarrow> (case op of OpSettle st \<Rightarrow> keyOf st \<noteq> k | OpMark k' holder status \<Rightarrow> k' \<noteq> k \<or> status = ''done'' | _ \<Rightarrow> True)"

lemma keyOf_settledRow [simp]: "keyOf (settledRow now st) = keyOf st"
  by (simp add: settledRow_def keyOf_def)

lemma get_finish:
  "GetSettlementStat k (snd (SettleDispatchedClaims scan vt db)) =
     map_option (\<lambda>r. if dispatchedOf scan vt r then r\<lparr>ssStatus := ''done''\<rparr> else r) (GetSettlementStat k db)"
  by (simp add: GetSettlementStat_def SettleDispatchedClaims_def find_map_keep)

lemma get_retry:
  "GetSettlementStat k' (IncrementSettlementRetry k holder db) = (if k' = k
     then map_option (\<lambda>r. if heldBy holder r then r\<lparr>ssRetry := ssRetry r + 1, ssStatus := ''dispatched''\<rparr> else r) (GetSettlementStat k' db)
     else GetSettlementStat k' db)"
  unfolding IncrementSettlementRetry_def by (rule get_change) simp

lemma get_mark:
  "MarkSettlementStatus k holder status db = Some db' \<Longrightarrow> GetSettlementStat k' db' = (if k' = k
     then map_option (\<lambda>r. if heldBy holder r then r\<lparr>ssStatus := status\<rparr> else r) (GetSettlementStat k' db) else GetSettlementStat k' db)"
  by (auto simp: MarkSettlementStatus_def get_change split: if_splits)

lemma get_upsert_other:
  "UpsertSettlementStat now st db = Some db' \<Longrightarrow> k \<noteq> keyOf st \<Longrightarrow> GetSettlementStat k db' = GetSettlementStat k db"
  by (auto simp: UpsertSettlementStat_def upsertRow_def Let_def get_insert get_change split: if_splits option.splits)

text \<open>What an operation that is harmless to a batch does to its row: an absent row stays absent, a retried claim keeps its time.\<close>

lemma guarded_status [simp]:
  "guarded since r \<Longrightarrow> guarded since (r\<lparr>ssStatus := ''done''\<rparr>)"
  "guarded since r \<Longrightarrow> guarded since (r\<lparr>ssRetry := n, ssStatus := ''dispatched''\<rparr>)"
  by (simp_all add: guarded_def)

lemma guarded_if: "guarded since r \<Longrightarrow> (b \<Longrightarrow> guarded since x) \<Longrightarrow> guarded since (if b then x else r)"
  by simp

lemma harmless_row:
  assumes "runOp now op db = Some db'" "harmless k op"
  shows "(GetSettlementStat k db = None \<longrightarrow> GetSettlementStat k db' = None)
    \<and> (\<forall>r. GetSettlementStat k db = Some r \<longrightarrow> guarded since r \<longrightarrow> (\<exists>r'. GetSettlementStat k db' = Some r' \<and> guarded since r'))"
proof (cases op)
  case (OpSettle st)
  then show ?thesis using assms get_upsert_other [of now st db db' k] by (auto simp: runOp_def harmless_def)
next
  case (OpMark k' holder status)
  then have "MarkSettlementStatus k' holder status db = Some db'" "k' = k \<Longrightarrow> status = ''done''"
    using assms by (auto simp: runOp_def harmless_def)
  then show ?thesis using get_mark [of k' holder status db db' k] by auto
next
  case (OpRetry k' holder)
  then have "db' = IncrementSettlementRetry k' holder db" using assms(1) by (simp add: runOp_def)
  then show ?thesis using get_retry [of k k' holder db] by auto
next
  case (OpFinish scan vt)
  then have "db' = snd (SettleDispatchedClaims scan vt db)" using assms(1) by (simp add: runOp_def)
  then show ?thesis using get_finish [of k scan vt db] by auto
qed

text \<open>A claim of the race loses against a guarded row and wins an absent one; claims of other batches change nothing here.\<close>

lemma claim_row:
  assumes "claimUpsert k holder now stale False db = (res, db')" "stale \<le> since" "since \<le> now"
  shows "GetSettlementStat k db = None \<Longrightarrow> res \<noteq> None \<and> (\<exists>r. GetSettlementStat k db' = Some r \<and> guarded since r)"
    and "GetSettlementStat k db = Some r \<Longrightarrow> guarded since r \<Longrightarrow> res = None \<and> db' = db"
  using assms by (cases k; auto simp: claimUpsert_def get_insert guarded_def claimable_def freshClaim_def keyOf_def split: if_splits)+

lemma claim_other:
  "claimUpsert k' holder now stale reclaim db = (res, db') \<Longrightarrow> k \<noteq> k' \<Longrightarrow> GetSettlementStat k db' = GetSettlementStat k db"
  by (auto simp: claimUpsert_def get_insert get_change split: option.splits if_splits)

text \<open>The race for a batch is open, with no row and no decision, or closed, with one winner and a guarded row.\<close>

definition raceOpen :: "claimReq list \<Rightarrow> batchKey \<Rightarrow> settleDb \<times> claimPc list \<Rightarrow> bool" where
  "raceOpen reqs k = (\<lambda>(db, pcs). GetSettlementStat k db = None \<and> (\<forall>i < length reqs. crKey (reqs ! i) = k \<longrightarrow> \<not> decided (pcs ! i)))"

definition winners :: "claimReq list \<Rightarrow> batchKey \<Rightarrow> claimPc list \<Rightarrow> nat set" where
  "winners reqs k pcs = {i. i < length reqs \<and> crKey (reqs ! i) = k \<and> won (pcs ! i)}"

definition raceClosed :: "int \<Rightarrow> claimReq list \<Rightarrow> batchKey \<Rightarrow> settleDb \<times> claimPc list \<Rightarrow> bool" where
  "raceClosed since reqs k = (\<lambda>(db, pcs). (\<exists>r. GetSettlementStat k db = Some r \<and> guarded since r) \<and> (\<exists>w. winners reqs k pcs = {w}))"

definition clocked :: "int \<Rightarrow> claimPc list \<Rightarrow> bool" where
  "clocked since pcs \<longleftrightarrow> (\<forall>i < length pcs. \<forall>prior now. pcs ! i = Asked prior now \<longrightarrow> since \<le> now)"

definition raceRequests :: "int \<Rightarrow> claimReq list \<Rightarrow> batchKey \<Rightarrow> bool" where
  "raceRequests since reqs k \<longleftrightarrow> list_all (\<lambda>q. crKey q = k \<longrightarrow> \<not> crReclaim q \<and> crStale q \<le> since) reqs"


lemma winners_upd:
  "i < length pcs \<Longrightarrow> i < length reqs \<Longrightarrow> winners reqs k (pcs[i := x]) =
     (if crKey (reqs ! i) = k \<and> won x then insert i (winners reqs k pcs) else winners reqs k pcs - {i})"
  by (auto simp: winners_def nth_list_update)

lemma not_winner: "\<not> won (pcs ! i) \<Longrightarrow> i \<notin> winners reqs k pcs"
  by (simp add: winners_def)

lemma open_no_winners: "raceOpen reqs k (db, pcs) \<Longrightarrow> winners reqs k pcs = {}"
  by (auto simp: raceOpen_def winners_def won_def decided_def split: claimPc.splits)

lemma raceOpen_upd:
  assumes "raceOpen reqs k (db, pcs)" "GetSettlementStat k db' = None" "crKey (reqs ! i) = k \<Longrightarrow> \<not> decided x"
  shows "raceOpen reqs k (db', pcs[i := x])"
proof -
  have "\<not> decided (pcs[i := x] ! j)" if "j < length reqs" "crKey (reqs ! j) = k" for j
    using assms that by (cases "j = i"; cases "i < length pcs") (auto simp: raceOpen_def not_less list_update_beyond)
  then show ?thesis using assms(2) by (simp add: raceOpen_def)
qed

lemma raceClosed_upd:
  assumes "raceClosed since reqs k (db, pcs)" "GetSettlementStat k db' = GetSettlementStat k db" "i < length reqs" "length pcs = length reqs"
    "\<not> won (pcs ! i)" "crKey (reqs ! i) = k \<Longrightarrow> \<not> won x"
  shows "raceClosed since reqs k (db', pcs[i := x])"
  using assms not_winner [of pcs i reqs k] by (auto simp: raceClosed_def winners_upd)

lemma clocked_upd: "clocked since pcs \<Longrightarrow> (\<And>prior now. x = Asked prior now \<Longrightarrow> since \<le> now) \<Longrightarrow> clocked since (pcs[i := x])"
  unfolding clocked_def
proof (intro allI impI)
  fix j prior now
  assume a: "\<forall>i < length pcs. \<forall>prior now. pcs ! i = Asked prior now \<longrightarrow> since \<le> now" "\<And>prior now. x = Asked prior now \<Longrightarrow> since \<le> now"
    "j < length (pcs[i := x])" "pcs[i := x] ! j = Asked prior now"
  show "since \<le> now"
  proof (cases "j = i")
    case True
    then show ?thesis using a(2-4) by simp
  next
    case False
    then have "pcs ! j = Asked prior now" "j < length pcs" using a(3,4) by simp_all
    then show ?thesis using a(1) by blast
  qed
qed

definition raceInv :: "int \<Rightarrow> claimReq list \<Rightarrow> batchKey \<Rightarrow> settleDb \<times> claimPc list \<Rightarrow> bool" where
  "raceInv since reqs k s \<longleftrightarrow> length (snd s) = length reqs \<and> clocked since (snd s) \<and> (raceOpen reqs k s \<or> raceClosed since reqs k s)"

lemma race_win:
  assumes inv: "raceInv since reqs k (db, pcs)" and rq: "raceRequests since reqs k" and i: "i < length reqs" "pcs ! i = Asked prior now"
    and u: "claimUpsert (crKey (reqs ! i)) h now (crStale (reqs ! i)) (crReclaim (reqs ! i)) db = (Some retry, db')"
    and x: "won x" "decided x"
  shows "raceOpen reqs k (db', pcs[i := x]) \<or> raceClosed since reqs k (db', pcs[i := x])"
proof (cases "crKey (reqs ! i) = k")
  case True
  have l: "length pcs = length reqs" "since \<le> now" using inv i by (auto simp: raceInv_def clocked_def)
  have q: "\<not> crReclaim (reqs ! i)" "crStale (reqs ! i) \<le> since" using rq i True by (auto simp: raceRequests_def list_all_length)
  have u': "claimUpsert k h now (crStale (reqs ! i)) False db = (Some retry, db')" using u True q(1) by simp
  have "\<not> raceClosed since reqs k (db, pcs)" using claim_row(2) [OF u' q(2) l(2)] by (auto simp: raceClosed_def)
  then have o: "raceOpen reqs k (db, pcs)" using inv by (simp add: raceInv_def)
  then obtain r where "GetSettlementStat k db' = Some r" "guarded since r"
    using claim_row(1) [OF u' q(2) l(2)] by (auto simp: raceOpen_def)
  moreover have "winners reqs k (pcs[i := x]) = {i}" using open_no_winners [OF o] l(1) i(1) True x(1) by (simp add: winners_upd)
  ultimately show ?thesis by (auto simp: raceClosed_def)
next
  case False
  have g: "GetSettlementStat k db' = GetSettlementStat k db" by (rule claim_other [OF u]) (use False in simp)
  have l: "length pcs = length reqs" using inv by (simp add: raceInv_def)
  have "raceOpen reqs k (db, pcs) \<or> raceClosed since reqs k (db, pcs)" using inv by (simp add: raceInv_def)
  then show ?thesis
  proof
    assume o: "raceOpen reqs k (db, pcs)"
    then show ?thesis using raceOpen_upd [OF o] g False by (auto simp: raceOpen_def)
  next
    assume c: "raceClosed since reqs k (db, pcs)"
    show ?thesis using raceClosed_upd [OF c g i(1) l] i(2) False by simp
  qed
qed

lemma race_lose:
  assumes inv: "raceInv since reqs k (db, pcs)" and rq: "raceRequests since reqs k" and i: "i < length reqs" "pcs ! i = Asked prior now"
    and u: "claimUpsert (crKey (reqs ! i)) h now (crStale (reqs ! i)) (crReclaim (reqs ! i)) db = (None, db')"
  shows "raceOpen reqs k (db', pcs[i := Lost now]) \<or> raceClosed since reqs k (db', pcs[i := Lost now])"
proof -
  have l: "length pcs = length reqs" "since \<le> now" using inv i by (auto simp: raceInv_def clocked_def)
  have same: "db' = db" using u by (auto simp: claimUpsert_def split: option.splits if_splits)
  have "raceOpen reqs k (db, pcs) \<or> raceClosed since reqs k (db, pcs)" using inv by (simp add: raceInv_def)
  then show ?thesis
  proof
    assume o: "raceOpen reqs k (db, pcs)"
    have "crKey (reqs ! i) \<noteq> k"
    proof
      assume e: "crKey (reqs ! i) = k"
      then have "\<not> crReclaim (reqs ! i)" "crStale (reqs ! i) \<le> since" using rq i by (auto simp: raceRequests_def list_all_length)
      then show False using claim_row(1) [of k h now "crStale (reqs ! i)" db None db' since] u e l(2) o by (simp add: raceOpen_def)
    qed
    then show ?thesis using raceOpen_upd [OF o, of db' i "Lost now"] o same by (simp add: raceOpen_def)
  next
    assume c: "raceClosed since reqs k (db, pcs)"
    show ?thesis using raceClosed_upd [OF c _ i(1) l(1), of db' "Lost now"] i(2) same by simp
  qed
qed

lemma race_step:
  assumes "claim_step (harmless k) since reqs s s'" "raceInv since reqs k s" "raceRequests since reqs k"
  shows "raceInv since reqs k s'"
  using assms
proof (cases rule: claim_step.cases)
  case (ask i pcs now db)
  let ?x = "Asked (GetSettlementStat (crKey (reqs ! i)) db) now"
  have l: "length pcs = length reqs" "clocked since (pcs[i := ?x])" using assms(2) ask by (auto simp: raceInv_def intro: clocked_upd)
  have "raceOpen reqs k (db, pcs[i := ?x]) \<or> raceClosed since reqs k (db, pcs[i := ?x])"
    using assms(2) ask raceOpen_upd [of reqs k db pcs db i ?x] raceClosed_upd [of since reqs k db pcs db i ?x]
    by (auto simp: raceInv_def raceOpen_def)
  then show ?thesis using l ask by (simp add: raceInv_def)
next
  case (win i pcs prior now db retry db')
  let ?x = "Answered (Some (wonClaim (crHolder (reqs ! i)) (crReclaim (reqs ! i)) prior retry))"
  have inv: "raceInv since reqs k (db, pcs)" using assms(2) win(1) by simp
  have "raceOpen reqs k (db', pcs[i := ?x]) \<or> raceClosed since reqs k (db', pcs[i := ?x])"
    by (rule race_win [OF inv assms(3) win(3,4,5)]) simp_all
  moreover have "clocked since (pcs[i := ?x])" by (rule clocked_upd) (use inv in \<open>simp_all add: raceInv_def\<close>)
  ultimately show ?thesis using inv win(2) by (simp add: raceInv_def)
next
  case (lose i pcs prior now db db')
  have inv: "raceInv since reqs k (db, pcs)" using assms(2) lose(1) by simp
  have "raceOpen reqs k (db', pcs[i := Lost now]) \<or> raceClosed since reqs k (db', pcs[i := Lost now])"
    by (rule race_lose [OF inv assms(3) lose(3,4,5)])
  moreover have "clocked since (pcs[i := Lost now])" by (rule clocked_upd) (use inv in \<open>simp_all add: raceInv_def\<close>)
  ultimately show ?thesis using inv lose(2) by (simp add: raceInv_def)
next
  case (told i pcs now db)
  let ?x = "Answered (map_option (lostClaim now) (GetSettlementStat (crKey (reqs ! i)) db))"
  have l: "length pcs = length reqs" using assms(2) told by (simp add: raceInv_def)
  have t: "clocked since (pcs[i := ?x])" by (rule clocked_upd) (use assms(2) told in \<open>simp_all add: raceInv_def\<close>)
  have "raceOpen reqs k (db, pcs) \<or> raceClosed since reqs k (db, pcs)" using assms(2) told by (simp add: raceInv_def)
  then have "raceOpen reqs k (db, pcs[i := ?x]) \<or> raceClosed since reqs k (db, pcs[i := ?x])"
  proof
    assume o: "raceOpen reqs k (db, pcs)"
    then have "crKey (reqs ! i) \<noteq> k" "GetSettlementStat k db = None" using told(3,4) by (force simp: raceOpen_def)+
    then show ?thesis using raceOpen_upd [OF o, of db i ?x] by simp
  next
    assume c: "raceClosed since reqs k (db, pcs)"
    show ?thesis using raceClosed_upd [OF c refl told(3) l, of ?x] told(4) by simp
  qed
  then show ?thesis using l t told by (simp add: raceInv_def)
next
  case (other op now db db' pcs)
  have "raceOpen reqs k (db', pcs) \<or> raceClosed since reqs k (db', pcs)"
    using assms(2) other harmless_row [OF other(5,3), of since] by (auto simp: raceInv_def raceOpen_def raceClosed_def)
  then show ?thesis using assms(2) other by (simp add: raceInv_def)
qed


lemma race_reach:
  assumes "claim_reach (harmless k) since reqs db0 s" "GetSettlementStat k db0 = None" "raceRequests since reqs k"
  shows "raceInv since reqs k s"
  using assms(1)
proof (induction rule: claim_reach.induct)
  case start
  show ?case using assms(2) by (auto simp: raceInv_def raceOpen_def clocked_def)
next
  case (more s s')
  show ?case by (rule race_step [OF more(2,3) assms(3)])
qed

text \<open>C34: orchestrators that race on a batch converge on one worker.  Let any number of claims run against a table with
  no row for a batch, their statements interleaved with each other, with claims of other batches and with operations
  that do not write a report or a failure of this batch; no claim of the batch is a reclaim or takes a
  time of the race for stale.  At most one of them wins, and as soon as one of them has its decision, exactly one has won.\<close>

theorem claim_race_one_winner:
  assumes "claim_reach (harmless k) since reqs db0 (db, pcs)" "GetSettlementStat k db0 = None" "raceRequests since reqs k"
  shows "card (winners reqs k pcs) \<le> 1 \<and> ((\<exists>i < length reqs. crKey (reqs ! i) = k \<and> decided (pcs ! i)) \<longrightarrow> card (winners reqs k pcs) = 1)"
proof -
  have "raceOpen reqs k (db, pcs) \<or> raceClosed since reqs k (db, pcs)" using race_reach [OF assms] by (simp add: raceInv_def)
  then show ?thesis using open_no_winners [of reqs k db pcs] by (auto simp: raceClosed_def raceOpen_def)
qed

definition twoClaims :: "claimReq list" where
  "twoClaims = [\<lparr>crKey = (''s'', ''leak'', ''all''), crHolder = ''a'', crStale = 0, crReclaim = False\<rparr>,
     \<lparr>crKey = (''s'', ''leak'', ''all''), crHolder = ''b'', crStale = 0, crReclaim = False\<rparr>]"

definition noRows :: settleDb where
  "noRows = \<lparr>sdRows = [], sdNext = 1\<rparr>"

definition takenOnce :: settleDb where
  "takenOnce = insertRow (freshClaim (''s'', ''leak'', ''all'') ''a'' 5) noRows"

definition raceEnd :: "claimPc list" where
  "raceEnd = [Answered (Some (wonClaim ''a'' False None 0)), Lost 6]"

lemma race_example: "claim_reach (harmless (''s'', ''leak'', ''all'')) 5 twoClaims noRows (takenOnce, raceEnd)"
proof -
  let ?k = "(''s'', ''leak'', ''all'')"
  have n: "GetSettlementStat ?k noRows = None" "claimUpsert ?k ''a'' 5 0 False noRows = (Some 0, takenOnce)"
    "claimUpsert ?k ''b'' 6 0 False takenOnce = (None, takenOnce)"
    by (simp_all add: GetSettlementStat_def noRows_def takenOnce_def claimUpsert_def insertRow_def freshClaim_def keyOf_def claimable_def)
  have r: "twoClaims ! 0 = \<lparr>crKey = ?k, crHolder = ''a'', crStale = 0, crReclaim = False\<rparr>"
    "twoClaims ! 1 = \<lparr>crKey = ?k, crHolder = ''b'', crStale = 0, crReclaim = False\<rparr>" "length twoClaims = 2"
    by (simp_all add: twoClaims_def)
  have "claim_reach (harmless ?k) 5 twoClaims noRows (noRows, [Asking, Asking])"
    using claim_reach.start [of "harmless ?k" 5 twoClaims noRows] r(3) by (simp add: numeral_2_eq_2)
  then have "claim_reach (harmless ?k) 5 twoClaims noRows (noRows, [Asked None 5, Asking])"
    by (rule claim_reach.more) (use claim_step.ask [of 0 twoClaims "[Asking, Asking]" 5 5 "harmless ?k" noRows] r n in simp)
  then have "claim_reach (harmless ?k) 5 twoClaims noRows (noRows, [Asked None 5, Asked None 6])"
    by (rule claim_reach.more) (use claim_step.ask [of 1 twoClaims "[Asked None 5, Asking]" 5 6 "harmless ?k" noRows] r n in simp)
  then have "claim_reach (harmless ?k) 5 twoClaims noRows (takenOnce, [Answered (Some (wonClaim ''a'' False None 0)), Asked None 6])"
    by (rule claim_reach.more) (use claim_step.win [of 0 twoClaims "[Asked None 5, Asked None 6]" None 5 noRows 0 takenOnce "harmless ?k" 5] r n in simp)
  then show ?thesis unfolding raceEnd_def
    by (rule claim_reach.more)
      (use claim_step.lose [of 1 twoClaims "[Answered (Some (wonClaim ''a'' False None 0)), Asked None 6]" None 6 takenOnce takenOnce "harmless ?k" 5] r n in simp)
qed

theorem claim_race_one_winner_witness:
  "claim_reach (harmless (''s'', ''leak'', ''all'')) 5 twoClaims noRows (takenOnce, raceEnd)
     \<and> card (winners twoClaims (''s'', ''leak'', ''all'') raceEnd) = 1"
proof -
  have "GetSettlementStat (''s'', ''leak'', ''all'') noRows = None" "raceRequests 5 twoClaims (''s'', ''leak'', ''all'')"
    by (simp_all add: GetSettlementStat_def noRows_def raceRequests_def twoClaims_def)
  moreover have "1 < length twoClaims \<and> crKey (twoClaims ! 1) = (''s'', ''leak'', ''all'') \<and> decided (raceEnd ! 1)"
    by (simp add: twoClaims_def raceEnd_def)
  ultimately show ?thesis using claim_race_one_winner [OF race_example] race_example by blast
qed


section \<open>Absorbing reports again changes nothing\<close>

text \<open>What a list of settled rows makes of a row: the last one of its batch, with its id and the last known time of finishing.\<close>

definition applyRows :: "SettlementStat list \<Rightarrow> SettlementStat \<Rightarrow> SettlementStat" where
  "applyRows S r = fold (\<lambda>st r. if keyOf st = keyOf r then overwrite st r else r) S r"

lemma keyOf_applyRows [simp]: "keyOf (applyRows S r) = keyOf r"
  by (induction S arbitrary: r) (auto simp: applyRows_def)

lemma applyRows_simps [simp]:
  "applyRows [] r = r"
  "applyRows (st # S) r = applyRows S (if keyOf st = keyOf r then overwrite st r else r)"
  "applyRows (S @ T) r = applyRows T (applyRows S r)"
  by (simp_all add: applyRows_def)

lemma applyRows_other: "keyOf r \<notin> keyOf ` set S \<Longrightarrow> applyRows S r = r"
  by (induction S) auto

lemma overwrite_overwrite: "overwrite a (overwrite b r) = a\<lparr>ssID := ssID r,
    ssFinishedAt := (if 0 < ssFinishedAt a then ssFinishedAt a else if 0 < ssFinishedAt b then ssFinishedAt b else ssFinishedAt r)\<rparr>"
  by (simp add: overwrite_def)

text \<open>Only the id and the time of finishing of the row before matter, if the list has a row of its batch.\<close>

lemma applyRows_from:
  assumes "keyOf q = keyOf r" "keyOf r \<in> keyOf ` set S" "ssID q = ssID r"
    "ssFinishedAt q = ssFinishedAt r \<or> ssFinishedAt q = ssFinishedAt (applyRows S r)"
  shows "applyRows S q = applyRows S r"
  using assms
proof (induction S arbitrary: q r)
  case (Cons st S)
  show ?case
  proof (cases "keyOf st = keyOf r")
    case False
    then have "keyOf r \<in> keyOf ` set S" "keyOf st \<noteq> keyOf q"
      "ssFinishedAt q = ssFinishedAt r \<or> ssFinishedAt q = ssFinishedAt (applyRows S r)"
      using Cons.prems(2) Cons.prems(4) by (simp_all add: Cons.prems(1))
    then have "applyRows S q = applyRows S r" using Cons.IH [OF Cons.prems(1) _ Cons.prems(3)] by blast
    then show ?thesis using False \<open>keyOf st \<noteq> keyOf q\<close> by simp
  next
    case True
    show ?thesis
    proof (cases "keyOf r \<in> keyOf ` set S")
      case again: True
      have k: "keyOf (overwrite st q) = keyOf (overwrite st r)" "keyOf (overwrite st r) \<in> keyOf ` set S"
        "ssID (overwrite st q) = ssID (overwrite st r)"
        using again True Cons.prems(3) by (simp_all only: keyOf_overwrite) (simp add: overwrite_def)
      have f: "ssFinishedAt q = ssFinishedAt r \<or> ssFinishedAt q = ssFinishedAt (applyRows S (overwrite st r))"
        using Cons.prems(4) True by simp
      have "ssFinishedAt (overwrite st q) = ssFinishedAt (overwrite st r) \<or> ssFinishedAt (overwrite st q) = ssFinishedAt (applyRows S (overwrite st r))"
        using f by (simp add: overwrite_def) (metis SettlementStat.select_convs)
      then have "applyRows S (overwrite st q) = applyRows S (overwrite st r)" by (rule Cons.IH [OF k])
      then show ?thesis using True Cons.prems(1) by simp
    next
      case False
      then have n: "applyRows S (overwrite st q) = overwrite st q" "applyRows S (overwrite st r) = overwrite st r"
        using True by (auto intro!: applyRows_other)
      then have "ssFinishedAt q = ssFinishedAt r \<or> ssFinishedAt q = ssFinishedAt (overwrite st r)" using Cons.prems(4) True by simp
      then have "overwrite st q = overwrite st r" using Cons.prems(3) by (auto simp: overwrite_def)
      then show ?thesis using True Cons.prems(1) n by simp
    qed
  qed
qed simp

lemma ssID_applyRows [simp]: "ssID (applyRows S r) = ssID r"
  by (induction S arbitrary: r) (auto simp: overwrite_def)

lemma applyRows_idem: "applyRows S (applyRows S r) = applyRows S r"
proof (cases "keyOf r \<in> keyOf ` set S")
  case True
  then show ?thesis by (intro applyRows_from) auto
qed (simp add: applyRows_other)

lemma upsertRow_present:
  assumes "keyOf row \<in> keyOf ` set (sdRows db)"
  shows "upsertRow row db = db\<lparr>sdRows := map (applyRows [row]) (sdRows db)\<rparr>"
proof -
  obtain r where r: "GetSettlementStat (keyOf row) db = Some r" using assms get_None [of "keyOf row" db] by (cases "GetSettlementStat (keyOf row) db") auto
  have "(\<lambda>r. if keyOf r = keyOf row then overwrite row r else r) = applyRows [row]" by (auto simp: fun_eq_iff)
  then show ?thesis by (simp add: upsertRow_def r changeRow_def)
qed

lemma fold_upsert_present:
  assumes "keyOf ` set S \<subseteq> keyOf ` set (sdRows db)"
  shows "fold upsertRow S db = db\<lparr>sdRows := map (applyRows S) (sdRows db)\<rparr>"
  using assms
proof (induction S arbitrary: db)
  case (Cons st S)
  have u: "upsertRow st db = db\<lparr>sdRows := map (applyRows [st]) (sdRows db)\<rparr>" by (rule upsertRow_present) (use Cons.prems in auto)
  have "keyOf ` set (map (applyRows [st]) (sdRows db)) = keyOf ` set (sdRows db)"
    by (simp only: set_map image_image keyOf_applyRows)
  then have "fold upsertRow S (upsertRow st db) = (upsertRow st db)\<lparr>sdRows := map (applyRows S) (sdRows (upsertRow st db))\<rparr>"
    using Cons u by auto
  then show ?case by (simp add: u o_def)
next
  case Nil
  have "applyRows [] = id" by (simp add: fun_eq_iff)
  then show ?case by simp
qed

lemma fold_upsert_keys: "keyOf ` set (sdRows (fold upsertRow S db)) = keyOf ` set (sdRows db) \<union> keyOf ` set S"
proof (induction S rule: rev_induct)
  case (snoc st S)
  have "keyOf ` set (sdRows (upsertRow st d)) = insert (keyOf st) (keyOf ` set (sdRows d))" for d
  proof (cases "keyOf st \<in> keyOf ` set (sdRows d)")
    case True
    then show ?thesis by (simp add: upsertRow_present image_image insert_absorb del: applyRows_simps(2))
  next
    case False
    then show ?thesis using get_None [of "keyOf st" d] by (simp add: upsertRow_def insertRow_def)
  qed
  then show ?case using snoc by auto
qed simp

text \<open>Every row after the fold is one of before or of another batch, or is made of a row by the whole list.\<close>

lemma fold_upsert_rows: "r \<in> set (sdRows (fold upsertRow S db)) \<Longrightarrow> \<exists>q. r = applyRows S q"
proof (induction S arbitrary: r rule: rev_induct)
  case (snoc st S)
  let ?db = "fold upsertRow S db"
  have r: "r \<in> set (sdRows (upsertRow st ?db))" using snoc.prems by simp
  have "\<exists>p. r = applyRows [st] p \<and> (\<exists>q. p = applyRows S q)"
  proof (cases "keyOf st \<in> keyOf ` set (sdRows ?db)")
    case True
    then obtain p where "p \<in> set (sdRows ?db)" "r = applyRows [st] p" using r by (auto simp: upsertRow_present simp del: applyRows_simps(2))
    then show ?thesis using snoc.IH by blast
  next
    case False
    then have "upsertRow st ?db = insertRow st ?db" using get_None [of "keyOf st" ?db] by (simp add: upsertRow_def)
    then consider "r \<in> set (sdRows ?db)" | "r = st\<lparr>ssID := sdNext ?db\<rparr>" using r by (auto simp: insertRow_def)
    then show ?thesis
    proof cases
      case 1
      then have "keyOf st \<noteq> keyOf r" using False by auto
      then show ?thesis using snoc.IH [OF 1] by (intro exI [of _ r]) simp
    next
      case 2
      then have "applyRows S r = r" using False fold_upsert_keys [of S db] by (intro applyRows_other) auto
      moreover have "overwrite st r = r" using 2 by (simp add: overwrite_def)
      ultimately have "r = applyRows [st] r \<and> r = applyRows S r" by simp
      then show ?thesis by blast
    qed
  qed
  then show ?case by auto
qed simp

lemma fold_upsert_again: "fold upsertRow S (fold upsertRow S db) = fold upsertRow S db"
proof -
  let ?db = "fold upsertRow S db"
  have "map (applyRows S) (sdRows ?db) = sdRows ?db"
    by (rule map_idI) (use fold_upsert_rows [of _ S db] applyRows_idem in auto)
  moreover have "fold upsertRow S ?db = ?db\<lparr>sdRows := map (applyRows S) (sdRows ?db)\<rparr>"
    by (rule fold_upsert_present) (simp add: fold_upsert_keys)
  ultimately show ?thesis by simp
qed


lemma get_upsert_list_other: "k \<notin> keyOf ` set S \<Longrightarrow> GetSettlementStat k (fold upsertRow S db) = GetSettlementStat k db"
  by (induction S arbitrary: db) (auto simp: upsertRow_def get_insert get_change split: option.splits)

definition bare :: "SettlementStat \<Rightarrow> SettlementStat" where
  "bare r = r\<lparr>ssID := 0, ssFinishedAt := 0\<rparr>"

lemma bare_overwrite [simp]: "bare (overwrite st r) = bare st"
  by (simp add: bare_def overwrite_def)

lemma get_upsert_list:
  assumes "find (\<lambda>st. keyOf st = k) (rev S) = Some st"
  shows "map_option bare (GetSettlementStat k (fold upsertRow S db)) = Some (bare st)"
proof -
  obtain S1 S2 where S: "S = S1 @ st # S2" "keyOf st = k" "k \<notin> keyOf ` set S2"
  proof -
    obtain i where i: "i < length S" "keyOf (rev S ! i) = k" "st = rev S ! i" "\<forall>j < i. keyOf (rev S ! j) \<noteq> k"
      using assms by (auto simp: find_Some_iff)
    have "rev S = take i (rev S) @ st # drop (Suc i) (rev S)" using i by (simp add: id_take_nth_drop)
    then have "S = rev (drop (Suc i) (rev S)) @ st # rev (take i (rev S))" by (metis append.assoc append_Cons append_Nil rev.simps(2) rev_append rev_rev_ident)
    moreover have "keyOf x \<noteq> k" if "x \<in> set (take i (rev S))" for x using that i(1,4) by (auto simp: in_set_conv_nth)
    then have "k \<notin> keyOf ` set (rev (take i (rev S)))" by auto
    ultimately show thesis using i(2,3) that by metis
  qed
  have "k \<in> keyOf ` set (sdRows (fold upsertRow S db))" using S(1,2) fold_upsert_keys [of S db] by auto
  then obtain r where r: "GetSettlementStat k (fold upsertRow S db) = Some r" using get_None [of k "fold upsertRow S db"] by fastforce
  then obtain q where q: "r = applyRows S q" using fold_upsert_rows [of r S db] get_key by blast
  then have "keyOf q = k" using get_key [OF r] by simp
  then have "r = overwrite st (applyRows S1 q)" using q S by (simp add: applyRows_other)
  then show ?thesis using r by simp
qed

text \<open>The rows a list of reports stands for, oldest first, and the newest of a batch.\<close>

definition reportRows :: "int \<Rightarrow> settleReport \<Rightarrow> SettlementStat list" where
  "reportRows now rep = (if absorbable rep then map (\<lambda>pt. settledRow now (reportStat rep pt)) (rpProcessed rep) else [])"

definition settledRows :: "int \<Rightarrow> settleReport list \<Rightarrow> SettlementStat list" where
  "settledRows now reports = concat (map (reportRows now) (rev reports))"

definition newestRow :: "int \<Rightarrow> settleReport list \<Rightarrow> batchKey \<Rightarrow> SettlementStat option" where
  "newestRow now reports k = find (\<lambda>st. keyOf st = k) (rev (settledRows now reports))"

definition completedBy :: "(string \<Rightarrow> string list) \<Rightarrow> settleReport \<Rightarrow> (string \<times> string) list" where
  "completedBy known rep = (if absorbable rep \<and> rpNeeds rep \<le> 0
     then map (\<lambda>pt. (rpScan rep, tcType pt)) (filter (\<lambda>pt. tcType pt \<in> set (known (rpScan rep))) (rpProcessed rep)) else [])"

lemma absorb_rows:
  "fold (\<lambda>pt. bindDb (UpsertSettlementStat now (reportStat rep pt))) pts (Some db) =
     Some (fold upsertRow (map (\<lambda>pt. settledRow now (reportStat rep pt)) pts) db)"
proof (induction pts arbitrary: db)
  case (Cons pt pts)
  have "ssStatus (settledRow now (reportStat rep pt)) = ''done''" by (simp add: settledRow_def reportStat_def)
  then show ?case using Cons by (simp add: bindDb_def UpsertSettlementStat_def)
qed simp

lemma absorbReport_rows:
  "absorbReport now known rep (Some (db, completed)) = Some (fold upsertRow (reportRows now rep) db, completed @ completedBy known rep)"
  by (simp add: absorbReport_def absorb_rows reportRows_def completedBy_def)

lemma persist_rows:
  "persistSettlementReports now known reports db =
     Some (fold upsertRow (settledRows now reports) db, concat (map (completedBy known) (rev reports)))"
proof -
  have "fold (absorbReport now known) reps (Some (db, completed)) =
      Some (fold upsertRow (concat (map (reportRows now) reps)) db, completed @ concat (map (completedBy known) reps))" for reps db completed
    by (induction reps arbitrary: db completed) (simp_all add: absorbReport_rows)
  then show ?thesis by (simp add: persistSettlementReports_def settledRows_def)
qed



section \<open>Views and times\<close>

text \<open>What the planner sees of a batch is what a claim at that time would be answered.\<close>

lemma view_agrees_with_claim:
  assumes "GetSettlementStat k db = Some r"
  shows "viewOf now stale r = Reclaimable \<longleftrightarrow> fst (claimUpsert k holder now stale False db) \<noteq> None"
  using assms by (simp add: viewOf_def claimUpsert_def claimable_def)

lemma stale_claim_taken_over:
  assumes "GetSettlementStat k db = Some r" "ssStatus r = ''dispatched''" "ssCreatedAt r < stale"
  shows "ClaimSettlementRange k holder now stale False db = (Some (wonClaim holder False (Some r) (ssRetry r + 1)), changeRow k (takeOver holder now) db)"
  using assms by (simp add: ClaimSettlementRange_def claimUpsert_def claimable_def)

lemma lost_claim_names_holder:
  assumes "GetSettlementStat k db = Some r" "\<not> claimable stale reclaim r"
  shows "ClaimSettlementRange k holder now stale reclaim db = (Some (lostClaim now r), db)"
  using assms by (simp add: ClaimSettlementRange_def claimUpsert_def)

text \<open>A poll that absorbs the report of an earlier worker again takes the batch from the worker that just reclaimed it.\<close>

definition oldReport :: settleReport where
  "oldReport = \<lparr>rpValid = True, rpScan = ''s'', rpHolder = ''a'',
     rpProcessed = [\<lparr>tcType = ''leak'', tcRange = ''all'', tcWritten = 1, tcDismissed = 2, tcEvidenceOpens = 0, tcSourceReads = 0, tcRepoGreps = 0\<rparr>],
     rpNeeds = 1, rpWallMS = 0, rpQueueMS = 0, rpWorkMS = 0, rpFinishedAt = 9\<rparr>"

lemma absorb_erases_claim:
  "let k = (''s'', ''leak'', ''all'');
       db1 = fst (the (persistSettlementReports 10 (\<lambda>_. []) [oldReport] noRows));
       (claim, db2) = ClaimSettlementRange k ''b'' 20 0 True db1;
       db3 = fst (the (persistSettlementReports 30 (\<lambda>_. []) [oldReport] db2)) in
     map_option scClaimed claim = Some True
     \<and> map_option (\<lambda>r. (ssHolder r, ssStatus r, ssRetry r)) (GetSettlementStat k db2) = Some (''b'', ''dispatched'', 1)
     \<and> map_option (\<lambda>r. (ssHolder r, ssStatus r, ssRetry r)) (GetSettlementStat k db3) = Some (''a'', ''done'', 0)"
  by code_simp

text \<open>The measured stage lasts from the first start to the last end of the settled rows.\<close>

lemma measuredStart_pos: "measured r \<Longrightarrow> 0 < measuredStart r \<and> measuredStart r \<le> measuredEnd r"
  by (auto simp: measured_def measuredStart_def Let_def)

definition emptySpan :: spanState where
  "emptySpan = \<lparr>spSpans = [], spBatches = [], spCount = 0, spFirst = 0, spLast = 0\<rparr>"

lemma spanStep_simps:
  "\<not> measured r \<Longrightarrow> spanStep r s = s"
  "measured r \<Longrightarrow> spFirst (spanStep r s) = (if spFirst s = 0 \<or> measuredStart r < spFirst s then measuredStart r else spFirst s)"
  "measured r \<Longrightarrow> spLast (spanStep r s) = max (measuredEnd r) (spLast s)"
  by (simp_all add: spanStep_def Let_def split: prod.splits)

lemma span_bounds:
  "(filter measured rows = [] \<longrightarrow> spFirst (fold spanStep rows emptySpan) = 0 \<and> spLast (fold spanStep rows emptySpan) = 0)
   \<and> (filter measured rows \<noteq> [] \<longrightarrow> spFirst (fold spanStep rows emptySpan) = Min (measuredStart ` set (filter measured rows))
        \<and> spLast (fold spanStep rows emptySpan) = Max (measuredEnd ` set (filter measured rows)))"
proof (induction rows rule: rev_induct)
  case (snoc r rows)
  let ?M = "set (filter measured rows)" and ?s = "fold spanStep rows emptySpan"
  show ?case
  proof (cases "measured r")
    case False
    then show ?thesis using snoc by (simp add: spanStep_simps)
  next
    case True
    have pos: "0 < measuredStart r" "0 < measuredEnd r" using measuredStart_pos [OF True] by auto
    show ?thesis
    proof (cases "?M = {}")
      case empty: True
      then show ?thesis using snoc True pos by (simp add: spanStep_simps filter_empty_conv)
    next
      case False
      have "filter measured rows \<noteq> []" using False by (simp only: set_empty not_False_eq_True simp_thms)
      then have ih: "spFirst ?s = Min (measuredStart ` ?M)" "spLast ?s = Max (measuredEnd ` ?M)" using snoc by blast+
      have "Min (measuredStart ` ?M) \<in> measuredStart ` ?M" using False by (intro Min_in) auto
      then have m: "0 < Min (measuredStart ` ?M)" using measuredStart_pos by auto
      have "set (filter measured (rows @ [r])) = insert r ?M" using True by auto
      moreover have "Min (measuredStart ` insert r ?M) = min (measuredStart r) (Min (measuredStart ` ?M))"
        "Max (measuredEnd ` insert r ?M) = max (measuredEnd r) (Max (measuredEnd ` ?M))" using False by (simp_all del: set_filter)
      ultimately show ?thesis using True m ih by (simp add: spanStep_simps min_def del: set_filter)
    qed
  qed
qed (simp add: emptySpan_def)

lemma stage_total:
  assumes "filter measured rows \<noteq> []"
  shows "stTotalMS (measureAIStageTiming rows) =
    Max (measuredEnd ` set (filter measured rows)) - Min (measuredStart ` set (filter measured rows))"
proof -
  obtain r where r: "r \<in> set (filter measured rows)" using assms by (cases "filter measured rows") auto
  have "Min (measuredStart ` set (filter measured rows)) \<le> measuredStart r" "measuredEnd r \<le> Max (measuredEnd ` set (filter measured rows))"
    using r by (intro Min_le Max_ge; auto)+
  moreover have "measuredStart r \<le> measuredEnd r" using measuredStart_pos [of r] r by simp
  ultimately show ?thesis using span_bounds [of rows] assms by (auto simp: measureAIStageTiming_def Let_def emptySpan_def)
qed

end
