(* ===== verification/TU_Config.thy ===== *)
theory TU_Config
  imports Type_Layout "HOL-Library.AList" "HOL-Library.Char_ord" "HOL-Library.List_Lexorder"
begin

text \<open>
  The configuration of a translation unit, from compile_commands.json: internal/build/tu_config.go and
  compile_commands.go.  The entries of the file are a parameter; paths are those of a Unix system.
\<close>

section \<open>Definitions and architectures\<close>

text \<open>A definition NAME or NAME=VALUE with a decimal value; another value drops the macro.\<close>

definition splitDefine :: "string \<Rightarrow> (string \<times> int) option" where
  "splitDefine def =
     (let name = takeWhile (\<lambda>c. c \<noteq> CHR ''='') def in
      case dropWhile (\<lambda>c. c \<noteq> CHR ''='') def of
        [] \<Rightarrow> if name = '''' then None else Some (name, 1)
      | eq # v \<Rightarrow> (case ParseDecimal64 (TrimSpace v) of
                     None \<Rightarrow> None
                   | Some n \<Rightarrow> if name = '''' then None else Some (name, n)))"

definition archs64 :: "string list" where
  "archs64 = [''x86_64'', ''amd64'', ''aarch64'', ''arm64'', ''riscv64'', ''mips64'', ''mips64el'',
     ''ppc64'', ''powerpc64'', ''s390x'', ''sparc64'', ''loongarch64'', ''wasm64'']"

definition abiFromTriple :: "string \<Rightarrow> ABI" where
  "abiFromTriple triple =
     (let t = ToLower (TrimSpace triple) in
      if list_ex (strContains t) archs64
      then (if strContains t ''windows'' \<or> strContains t ''mingw'' then ABILLP64 else ABILP64)
      else ABIILP32)"


section \<open>One translation unit\<close>

record TUConfig =
  tuFile :: string
  tuDirectory :: string
  tuTarget :: string
  tuABI :: ABI
  tuPackStruct :: int
  tuShortEnums :: bool
  tuDefines :: "(string \<times> int) list"
  tuIncludeDirs :: "string list"
  tuConfigKey :: string

definition applyTUDefine :: "string \<Rightarrow> TUConfig \<Rightarrow> TUConfig" where
  "applyTUDefine def tc = (case splitDefine def of None \<Rightarrow> tc | Some (name, v) \<Rightarrow> tc\<lparr>tuDefines := AList.update name v (tuDefines tc)\<rparr>)"

definition optionLong :: "string \<Rightarrow> string \<Rightarrow> bool" where
  "optionLong tok opt \<longleftrightarrow> HasPrefix tok opt \<and> length opt < length tok"

text \<open>One argument, with the one that follows; the empty text stands for none.\<close>

definition tuArg :: "string \<Rightarrow> string \<Rightarrow> TUConfig \<Rightarrow> TUConfig" where
  "tuArg tok nxt tc =
     (if tok = ''-m32'' then tc\<lparr>tuABI := ABIILP32\<rparr>
      else if tok = ''-m64'' then tc\<lparr>tuABI := ABILP64\<rparr>
      else if HasPrefix tok ''--target='' then tc\<lparr>tuTarget := TrimPrefix tok ''--target='', tuABI := abiFromTriple (TrimPrefix tok ''--target='')\<rparr>
      else if tok = ''--target'' \<or> tok = ''-target'' then (if nxt \<noteq> '''' then tc\<lparr>tuTarget := nxt, tuABI := abiFromTriple nxt\<rparr> else tc)
      else if tok = ''-fpack-struct'' then tc\<lparr>tuPackStruct := 1\<rparr>
      else if HasPrefix tok ''-fpack-struct=''
      then (case ParseDecimal64 (TrimPrefix tok ''-fpack-struct='') of
              None \<Rightarrow> tc
            | Some n \<Rightarrow> if 0 < n then tc\<lparr>tuPackStruct := n\<rparr> else tc)
      else if tok = ''-fshort-enums'' then tc\<lparr>tuShortEnums := True\<rparr>
      else if tok = ''-D'' then (if nxt \<noteq> '''' then applyTUDefine nxt tc else tc)
      else if optionLong tok ''-D'' then applyTUDefine (drop 2 tok) tc
      else if tok = ''-I'' then (if nxt \<noteq> '''' then tc\<lparr>tuIncludeDirs := tuIncludeDirs tc @ [nxt]\<rparr> else tc)
      else if optionLong tok ''-I'' then tc\<lparr>tuIncludeDirs := tuIncludeDirs tc @ [drop 2 tok]\<rparr>
      else tc)"

fun tuArgs :: "string list \<Rightarrow> TUConfig \<Rightarrow> TUConfig" where
  "tuArgs [] tc = tc"
| "tuArgs (tok # toks) tc = tuArgs toks (tuArg tok (case toks of [] \<Rightarrow> '''' | nxt # rest \<Rightarrow> nxt) tc)"

definition defineText :: "(string \<times> int) list \<Rightarrow> string \<Rightarrow> string" where
  "defineText defs k = k @ ''='' @ formatInt (case map_of defs k of None \<Rightarrow> 0 | Some v \<Rightarrow> v)"

definition deriveConfigKey :: "TUConfig \<Rightarrow> string" where
  "deriveConfigKey tc =
     tuABI tc
     @ (if 0 < tuPackStruct tc then '':pack='' @ formatInt (tuPackStruct tc) else '''')
     @ (if tuShortEnums tc then '':short-enums'' else '''')
     @ (if tuDefines tc \<noteq> [] then '':D='' @ joinBy '','' (map (defineText (tuDefines tc)) (sort (map fst (tuDefines tc)))) else '''')"

definition parseTUConfig :: "string \<Rightarrow> string \<Rightarrow> string list \<Rightarrow> TUConfig" where
  "parseTUConfig path dir args =
     (let tc = tuArgs args \<lparr>tuFile = path, tuDirectory = dir, tuTarget = '''', tuABI = '''', tuPackStruct = 0, tuShortEnums = False,
            tuDefines = [], tuIncludeDirs = [], tuConfigKey = ''''\<rparr>;
          tc1 = (if tuABI tc = '''' then tc\<lparr>tuABI := ABILP64\<rparr> else tc) in
      tc1\<lparr>tuConfigKey := deriveConfigKey tc1\<rparr>)"


section \<open>All of them\<close>

record CompileCommands =
  ccDefines :: "(string \<times> int) list"
  ccIncludeDirs :: "string list"
  ccTUs :: "TUConfig list"

record ccEntry =
  ceFile :: string
  ceDirectory :: string
  ceArguments :: "string list"
  ceCommand :: string

definition applyDefine :: "string \<Rightarrow> CompileCommands \<Rightarrow> CompileCommands" where
  "applyDefine def cc = (case splitDefine def of None \<Rightarrow> cc | Some (name, v) \<Rightarrow> cc\<lparr>ccDefines := AList.update name v (ccDefines cc)\<rparr>)"

definition addInclude :: "string \<Rightarrow> CompileCommands \<Rightarrow> CompileCommands" where
  "addInclude dir cc = (if dir = '''' \<or> dir \<in> set (ccIncludeDirs cc) then cc else cc\<lparr>ccIncludeDirs := ccIncludeDirs cc @ [dir]\<rparr>)"

definition handleToken :: "string \<Rightarrow> string \<Rightarrow> CompileCommands \<Rightarrow> CompileCommands" where
  "handleToken tok nxt cc =
     (if tok = ''-D'' then (if nxt \<noteq> '''' then applyDefine nxt cc else cc)
      else if optionLong tok ''-D'' then applyDefine (drop 2 tok) cc
      else if tok = ''-I'' then (if nxt \<noteq> '''' then addInclude nxt cc else cc)
      else if optionLong tok ''-I'' then addInclude (drop 2 tok) cc
      else cc)"

fun handleTokens :: "string list \<Rightarrow> CompileCommands \<Rightarrow> CompileCommands" where
  "handleTokens [] cc = cc"
| "handleTokens (tok # toks) cc = handleTokens toks (handleToken tok (case toks of [] \<Rightarrow> '''' | nxt # rest \<Rightarrow> nxt) cc)"

definition addEntry :: "ccEntry \<Rightarrow> CompileCommands \<Rightarrow> CompileCommands" where
  "addEntry e cc =
     (let args = (if ceArguments e \<noteq> [] then ceArguments e else Fields (ceCommand e)); cc1 = handleTokens args cc in
      cc1\<lparr>ccTUs := ccTUs cc1 @ [parseTUConfig (ceFile e) (ceDirectory e) args]\<rparr>)"

definition LoadCompileCommands :: "ccEntry list \<Rightarrow> CompileCommands" where
  "LoadCompileCommands entries = fold addEntry entries \<lparr>ccDefines = [], ccIncludeDirs = [], ccTUs = []\<rparr>"


section \<open>Paths\<close>

definition IsAbs :: "string \<Rightarrow> bool" where
  "IsAbs p \<longleftrightarrow> HasPrefix p ''/''"

text \<open>filepath.Clean: the parts that stay, in reverse.\<close>

definition cleanPart :: "bool \<Rightarrow> string \<Rightarrow> string list \<Rightarrow> string list" where
  "cleanPart rooted part acc =
     (if part = '''' \<or> part = ''.'' then acc
      else if part = ''..''
      then (case acc of
              [] \<Rightarrow> if rooted then [] else [part]
            | q # qs \<Rightarrow> if q = ''..'' then part # acc else qs)
      else part # acc)"

definition Clean :: "string \<Rightarrow> string" where
  "Clean p =
     (let body = joinBy ''/'' (rev (fold (cleanPart (IsAbs p)) (SplitByte CHR ''/'' p) [])) in
      if IsAbs p then CHR ''/'' # body else if body = '''' then ''.'' else body)"

definition JoinPath :: "string \<Rightarrow> string \<Rightarrow> string" where
  "JoinPath a b =
     (if a = '''' then (if b = '''' then '''' else Clean b) else if b = '''' then Clean a else Clean (a @ ''/'' @ b))"

definition tuMatches :: "string \<Rightarrow> TUConfig \<Rightarrow> bool" where
  "tuMatches want entry =
     (let rel = Clean (tuFile entry) in
      rel = want
      \<or> \<not> IsAbs rel \<and> tuDirectory entry \<noteq> '''' \<and> Clean (JoinPath (tuDirectory entry) rel) = want
      \<or> \<not> IsAbs want \<and> tuDirectory entry \<noteq> '''' \<and> JoinPath (tuDirectory entry) want = rel)"

definition TUForFile :: "CompileCommands option \<Rightarrow> string \<Rightarrow> TUConfig option" where
  "TUForFile cc path = (case cc of None \<Rightarrow> None | Some c \<Rightarrow> find (tuMatches (Clean path)) (ccTUs c))"

end
