(* ===== verification/TU_Config_Facts.thy ===== *)
theory TU_Config_Facts
  imports TU_Config
begin

text \<open>
  What the key of a configuration promises: it stands for the settings that layouts depend on, so layouts of different
  configurations are not merged and those of equal ones are shared.
\<close>

section \<open>Settings of a parsed unit\<close>

definition wellParsed :: "TUConfig \<Rightarrow> bool" where
  "wellParsed tc \<longleftrightarrow> tuABI tc \<in> {'''', ABILP64, ABIILP32, ABILLP64} \<and> 0 \<le> tuPackStruct tc
     \<and> distinct (map fst (tuDefines tc)) \<and> list_all (\<lambda>k. CHR ''='' \<notin> set k) (map fst (tuDefines tc))"

lemma abiFromTriple_cases: "abiFromTriple t \<in> {ABILP64, ABIILP32, ABILLP64}"
  by (simp add: abiFromTriple_def Let_def)

lemma splitDefine_name: "splitDefine def = Some (k, v) \<Longrightarrow> CHR ''='' \<notin> set k"
  by (auto simp: splitDefine_def Let_def split: list.splits option.splits if_splits dest: set_takeWhileD)

lemma wellParsed_intros:
  "wellParsed tc \<Longrightarrow> a \<in> {ABILP64, ABIILP32, ABILLP64} \<Longrightarrow> wellParsed (tc\<lparr>tuABI := a\<rparr>)"
  "wellParsed tc \<Longrightarrow> 0 \<le> n \<Longrightarrow> wellParsed (tc\<lparr>tuPackStruct := n\<rparr>)"
  "wellParsed tc \<Longrightarrow> wellParsed (tc\<lparr>tuShortEnums := b\<rparr>)"
  "wellParsed tc \<Longrightarrow> wellParsed (tc\<lparr>tuTarget := t\<rparr>)"
  "wellParsed tc \<Longrightarrow> wellParsed (tc\<lparr>tuIncludeDirs := ds\<rparr>)"
  "wellParsed tc \<Longrightarrow> CHR ''='' \<notin> set k \<Longrightarrow> wellParsed (tc\<lparr>tuDefines := AList.update k v (tuDefines tc)\<rparr>)"
  by (auto simp: wellParsed_def distinct_update list_all_iff update_keys split: if_splits)

lemma wellParsed_target: "wellParsed tc \<Longrightarrow> wellParsed (tc\<lparr>tuTarget := t, tuABI := abiFromTriple u\<rparr>)"
  using wellParsed_intros(1) [OF wellParsed_intros(4)] abiFromTriple_cases by simp

lemma wellParsed_define: "wellParsed tc \<Longrightarrow> wellParsed (applyTUDefine def tc)"
  by (auto simp: applyTUDefine_def split: option.splits intro!: wellParsed_intros(6) dest: splitDefine_name)

lemma wellParsed_if: "(b \<Longrightarrow> wellParsed x) \<Longrightarrow> (\<not> b \<Longrightarrow> wellParsed y) \<Longrightarrow> wellParsed (if b then x else y)"
  by simp

lemma wellParsed_pack: "wellParsed tc \<Longrightarrow> wellParsed (case p of None \<Rightarrow> tc | Some n \<Rightarrow> if 0 < n then tc\<lparr>tuPackStruct := n\<rparr> else tc)"
  by (cases p) (simp_all add: wellParsed_intros(2))

lemma wellParsed_arg: "wellParsed tc \<Longrightarrow> wellParsed (tuArg tok nxt tc)"
  unfolding tuArg_def
  by (intro wellParsed_if wellParsed_pack wellParsed_target wellParsed_define wellParsed_intros; assumption?)
    (simp_all only: insert_iff simp_thms zero_le_one)

lemma wellParsed_args: "wellParsed tc \<Longrightarrow> wellParsed (tuArgs toks tc)"
  by (induction toks arbitrary: tc) (simp_all add: wellParsed_arg)


section \<open>Reading the key\<close>

definition stopsAt :: "char \<Rightarrow> string \<Rightarrow> bool" where
  "stopsAt c s \<longleftrightarrow> s = '''' \<or> hd s = c"

lemma stop_split:
  assumes "a @ x = b @ y" "c \<notin> set a" "c \<notin> set b" "stopsAt c x" "stopsAt c y"
  shows "a = b \<and> x = y"
proof -
  have "takeWhile (\<lambda>d. d \<noteq> c) (s @ r) = s" if "c \<notin> set s" "stopsAt c r" for s r
    using that by (cases r) (auto simp: stopsAt_def takeWhile_append)
  then have "a = b" using assms by metis
  then show ?thesis using assms(1) by simp
qed

definition defineItem :: "string \<times> int \<Rightarrow> string" where
  "defineItem = (\<lambda>(k, v). k @ ''='' @ formatInt v)"

lemma formatInt_no: "c \<notin> set (formatInt v)" if "\<not> isDigit c" "c \<noteq> CHR ''-''"
  using formatInt_chars that by blast

lemma joinBy_cons: "joinBy sep (x # xs) = x @ (if xs = [] then '''' else sep @ joinBy sep xs)"
  by (cases xs) auto

lemma items_inj:
  assumes "joinBy '','' (map defineItem kvs) = joinBy '','' (map defineItem kvs')"
    "\<forall>kv \<in> set kvs \<union> set kvs'. CHR ''='' \<notin> set (fst kv)"
  shows "kvs = kvs'"
  using assms
proof (induction kvs arbitrary: kvs')
  case Nil
  then show ?case by (cases kvs') (auto simp: joinBy_cons defineItem_def)
next
  case (Cons kv kvs)
  obtain k v where kv: "kv = (k, v)" by (cases kv)
  obtain k' v' rest where r: "kvs' = (k', v') # rest" using Cons.prems(1) by (cases kvs') (auto simp: joinBy_cons defineItem_def split: prod.splits)
  let ?t = "\<lambda>xs. if xs = [] then '''' else '','' @ joinBy '','' (map defineItem xs)"
  have e: "k @ CHR ''='' # (formatInt v @ ?t kvs) = k' @ CHR ''='' # (formatInt v' @ ?t rest)"
    using Cons.prems(1) by (simp add: kv r joinBy_cons defineItem_def split: if_splits)
  then have k: "k = k'" "formatInt v @ ?t kvs = formatInt v' @ ?t rest"
    using sep_split [OF e] Cons.prems(2) by (auto simp: kv r)
  have c: "CHR '','' \<notin> set (formatInt x)" for x by (rule formatInt_no) (simp_all add: isDigit_def)
  have "formatInt v = formatInt v' \<and> ?t kvs = ?t rest" by (rule stop_split [OF k(2) c c]) (simp_all add: stopsAt_def)
  then have "v = v'" "kvs = rest" using Cons.IH [of rest] Cons.prems(2) by (auto simp: formatInt_inj r split: if_splits)
  then show ?case by (simp add: kv r k(1))
qed

definition itemsOf :: "TUConfig \<Rightarrow> (string \<times> int) list" where
  "itemsOf tc = map (\<lambda>k. (k, case map_of (tuDefines tc) k of None \<Rightarrow> 0 | Some v \<Rightarrow> v)) (sort (map fst (tuDefines tc)))"

lemma key_items: "map (defineText (tuDefines tc)) (sort (map fst (tuDefines tc))) = map defineItem (itemsOf tc)"
  by (simp add: itemsOf_def defineItem_def defineText_def)

lemma items_map: "map_of (itemsOf tc) = map_of (tuDefines tc)"
proof
  fix k
  have "k \<in> fst ` set (tuDefines tc) \<longleftrightarrow> map_of (tuDefines tc) k \<noteq> None" by (simp add: map_of_eq_None_iff)
  then show "map_of (itemsOf tc) k = map_of (tuDefines tc) k"
    by (cases "map_of (tuDefines tc) k") (simp_all add: itemsOf_def map_of_map_restrict restrict_map_def)
qed

text \<open>The parts of a key after the ABI.\<close>

definition packPart :: "TUConfig \<Rightarrow> string" where
  "packPart tc = (if 0 < tuPackStruct tc then '':pack='' @ formatInt (tuPackStruct tc) else '''')"

definition enumPart :: "TUConfig \<Rightarrow> string" where
  "enumPart tc = (if tuShortEnums tc then '':short-enums'' else '''')"

definition definePart :: "TUConfig \<Rightarrow> string" where
  "definePart tc = (if tuDefines tc \<noteq> [] then '':D='' @ joinBy '','' (map defineItem (itemsOf tc)) else '''')"

lemma key_parts: "deriveConfigKey tc = tuABI tc @ packPart tc @ enumPart tc @ definePart tc"
  by (simp add: deriveConfigKey_def packPart_def enumPart_def definePart_def key_items)

lemma parts_stop: "stopsAt CHR '':'' (packPart tc @ enumPart tc @ definePart tc)" "stopsAt CHR '':'' (enumPart tc @ definePart tc)"
  by (simp_all add: stopsAt_def packPart_def enumPart_def definePart_def)

lemma pack_inj:
  assumes "packPart tc @ enumPart tc @ definePart tc = packPart td @ enumPart td @ definePart td" "0 \<le> tuPackStruct tc" "0 \<le> tuPackStruct td"
  shows "tuPackStruct tc = tuPackStruct td \<and> enumPart tc @ definePart tc = enumPart td @ definePart td"
proof -
  have c: "CHR '':'' \<notin> set (formatInt x)" for x by (rule formatInt_no) (simp_all add: isDigit_def)
  have n: "enumPart x @ definePart x \<noteq> '':pack='' @ r" "'':pack='' @ r \<noteq> enumPart x @ definePart x" for x r
    by (auto simp: enumPart_def definePart_def)
  show ?thesis
  proof (cases "0 < tuPackStruct tc \<and> 0 < tuPackStruct td")
    case True
    then have "formatInt (tuPackStruct tc) @ enumPart tc @ definePart tc = formatInt (tuPackStruct td) @ enumPart td @ definePart td"
      using assms(1) by (simp add: packPart_def)
    then have "formatInt (tuPackStruct tc) = formatInt (tuPackStruct td) \<and> enumPart tc @ definePart tc = enumPart td @ definePart td"
      by (rule stop_split [OF _ c c parts_stop(2) parts_stop(2)])
    then show ?thesis by (simp add: formatInt_inj)
  next
    case False
    then show ?thesis using assms n(1) [of tc "formatInt (tuPackStruct td) @ enumPart td @ definePart td"]
        n(2) [of "formatInt (tuPackStruct tc) @ enumPart tc @ definePart tc" td]
      by (auto simp: packPart_def split: if_splits)
  qed
qed

lemma enum_inj:
  assumes "enumPart tc @ definePart tc = enumPart td @ definePart td"
  shows "tuShortEnums tc = tuShortEnums td \<and> definePart tc = definePart td"
  using assms by (auto simp: enumPart_def definePart_def split: if_splits)

lemma define_inj:
  assumes "definePart tc = definePart td" "wellParsed tc" "wellParsed td"
  shows "map_of (tuDefines tc) = map_of (tuDefines td)"
proof (cases "tuDefines tc = []")
  case True
  then show ?thesis using assms(1) by (auto simp: definePart_def split: if_splits)
next
  case False
  then have "joinBy '','' (map defineItem (itemsOf tc)) = joinBy '','' (map defineItem (itemsOf td))"
    using assms(1) by (auto simp: definePart_def split: if_splits)
  then have "itemsOf tc = itemsOf td"
    by (rule items_inj) (use assms(2,3) in \<open>auto simp: itemsOf_def wellParsed_def list_all_iff\<close>)
  then show ?thesis using items_map by metis
qed

lemma defines_same:
  assumes "map_of (tuDefines tc) = map_of (tuDefines td)" "wellParsed tc" "wellParsed td"
  shows "definePart tc = definePart td"
proof -
  have k: "set (map fst (tuDefines tc)) = set (map fst (tuDefines td))" using assms(1) by (metis dom_map_of_conv_image_fst set_map)
  have "sort (map fst (tuDefines tc)) = sort (map fst (tuDefines td))"
    by (rule sorted_distinct_set_unique) (use assms k in \<open>simp_all add: wellParsed_def\<close>)
  then have "itemsOf tc = itemsOf td" using assms(1) by (simp add: itemsOf_def)
  moreover have "tuDefines tc = [] \<longleftrightarrow> tuDefines td = []" using k by (metis set_empty list.map_disc_iff)
  ultimately show ?thesis by (simp add: definePart_def)
qed

lemma derive_inj:
  assumes "wellParsed tc" "wellParsed td"
  shows "deriveConfigKey tc = deriveConfigKey td \<longleftrightarrow> tuABI tc = tuABI td \<and> tuPackStruct tc = tuPackStruct td
    \<and> tuShortEnums tc = tuShortEnums td \<and> map_of (tuDefines tc) = map_of (tuDefines td)"
proof
  assume e: "deriveConfigKey tc = deriveConfigKey td"
  have "CHR '':'' \<notin> set (tuABI tc)" "CHR '':'' \<notin> set (tuABI td)"
    using assms by (auto simp: wellParsed_def ABILP64_def ABIILP32_def ABILLP64_def)
  then have "tuABI tc = tuABI td \<and> packPart tc @ enumPart tc @ definePart tc = packPart td @ enumPart td @ definePart td"
    by (intro stop_split) (use e parts_stop(1) in \<open>simp_all add: key_parts\<close>)
  then show "tuABI tc = tuABI td \<and> tuPackStruct tc = tuPackStruct td
      \<and> tuShortEnums tc = tuShortEnums td \<and> map_of (tuDefines tc) = map_of (tuDefines td)"
    using pack_inj [of tc td] enum_inj [of tc td] define_inj [OF _ assms] assms by (auto simp: wellParsed_def)
next
  assume "tuABI tc = tuABI td \<and> tuPackStruct tc = tuPackStruct td
      \<and> tuShortEnums tc = tuShortEnums td \<and> map_of (tuDefines tc) = map_of (tuDefines td)"
  then show "deriveConfigKey tc = deriveConfigKey td"
    using defines_same [OF _ assms] by (simp add: key_parts packPart_def enumPart_def)
qed

section \<open>Keys stand for settings\<close>

definition emptyTU :: "string \<Rightarrow> string \<Rightarrow> TUConfig" where
  "emptyTU path dir = \<lparr>tuFile = path, tuDirectory = dir, tuTarget = '''', tuABI = '''', tuPackStruct = 0, tuShortEnums = False,
     tuDefines = [], tuIncludeDirs = [], tuConfigKey = ''''\<rparr>"

lemma wellParsed_empty: "wellParsed (emptyTU path dir)"
  by (simp add: emptyTU_def wellParsed_def)

lemma key_ignores_key: "deriveConfigKey (tc\<lparr>tuConfigKey := k\<rparr>) = deriveConfigKey tc"
  by (simp add: deriveConfigKey_def)

lemma parse_well:
  "wellParsed (parseTUConfig path dir args)" "tuConfigKey (parseTUConfig path dir args) = deriveConfigKey (parseTUConfig path dir args)"
  "tuABI (parseTUConfig path dir args) \<in> {ABILP64, ABIILP32, ABILLP64}"
proof -
  obtain tc where tc: "wellParsed tc" "tuABI tc \<noteq> ''''" "parseTUConfig path dir args = tc\<lparr>tuConfigKey := deriveConfigKey tc\<rparr>"
  proof
    let ?t = "tuArgs args (emptyTU path dir)"
    let ?c = "if tuABI ?t = '''' then ?t\<lparr>tuABI := ABILP64\<rparr> else ?t"
    show "wellParsed ?c" using wellParsed_args [OF wellParsed_empty] by (simp add: wellParsed_intros(1))
    show "tuABI ?c \<noteq> ''''" by (simp add: ABILP64_def)
    show "parseTUConfig path dir args = ?c\<lparr>tuConfigKey := deriveConfigKey ?c\<rparr>"
      by (simp add: parseTUConfig_def Let_def emptyTU_def [symmetric])
  qed
  then show "wellParsed (parseTUConfig path dir args)" "tuConfigKey (parseTUConfig path dir args) = deriveConfigKey (parseTUConfig path dir args)"
    "tuABI (parseTUConfig path dir args) \<in> {ABILP64, ABIILP32, ABILLP64}"
    by (simp_all add: wellParsed_def key_ignores_key)
qed

text \<open>C36: two translation units have the same configuration key exactly when layouts may be shared between them.  Whatever
  their files and arguments, the keys are equal if and only if the ABI, the packing, the size of enums and the numeric
  macros are; no name and no value of a macro can make two different configurations share a key.\<close>

theorem config_key_exact:
  "tuConfigKey (parseTUConfig path dir args) = tuConfigKey (parseTUConfig path' dir' args') \<longleftrightarrow>
     tuABI (parseTUConfig path dir args) = tuABI (parseTUConfig path' dir' args')
     \<and> tuPackStruct (parseTUConfig path dir args) = tuPackStruct (parseTUConfig path' dir' args')
     \<and> tuShortEnums (parseTUConfig path dir args) = tuShortEnums (parseTUConfig path' dir' args')
     \<and> map_of (tuDefines (parseTUConfig path dir args)) = map_of (tuDefines (parseTUConfig path' dir' args'))"
  unfolding parse_well(2) by (rule derive_inj [OF parse_well(1) parse_well(1)])

text \<open>The ABI is that of the last argument that sets one, also where the compiler lets -m32 win over a later target;
  an architecture that is not in the list counts as 32 bits, and a 32-bit ABI on a listed one as 64 bits.\<close>

lemma target_overrides_m32: "tuABI (parseTUConfig ''a.c'' '''' [''-m32'', ''--target=x86_64-linux-gnu'']) = ABILP64"
  by code_simp

lemma unlisted_arch_is_32_bits: "abiFromTriple ''ia64-linux-gnu'' = ABIILP32" "abiFromTriple ''nvptx64-nvidia-cuda'' = ABIILP32"
  by code_simp+

lemma ilp32_arch_is_64_bits: "abiFromTriple ''x86_64-linux-gnux32'' = ABILP64" "abiFromTriple ''aarch64-linux-gnu_ilp32'' = ABILP64"
  by code_simp+


section \<open>The unit of a file\<close>

text \<open>A file given by its absolute path is found by the first entry that denotes it.\<close>

definition denotes :: "TUConfig \<Rightarrow> string" where
  "denotes tc = (if IsAbs (Clean (tuFile tc)) \<or> tuDirectory tc = '''' then Clean (tuFile tc) else Clean (JoinPath (tuDirectory tc) (Clean (tuFile tc))))"

lemma absolute_clean: "IsAbs p \<Longrightarrow> IsAbs (Clean p)"
  by (simp add: Clean_def Let_def IsAbs_def HasPrefix_def)

lemma TUForFile_absolute:
  assumes "IsAbs path"
  shows "TUForFile (Some cc) path = find (\<lambda>tc. denotes tc = Clean path) (ccTUs cc)"
proof -
  have a: "IsAbs (Clean path)" using assms by (rule absolute_clean)
  have "tuMatches (Clean path) tc \<longleftrightarrow> denotes tc = Clean path" for tc
    using a by (auto simp: tuMatches_def denotes_def Let_def)
  then have "tuMatches (Clean path) = (\<lambda>tc. denotes tc = Clean path)" by (simp add: fun_eq_iff)
  then show ?thesis by (simp add: TUForFile_def)
qed

lemma TUForFile_example:
  "map_option tuFile (TUForFile (Some (LoadCompileCommands [\<lparr>ceFile = ''../src/a.c'', ceDirectory = ''/w/build'', ceArguments = [], ceCommand = ''cc -c ../src/a.c''\<rparr>]))
     ''/w/./src/a.c'') = Some ''../src/a.c''"
  by code_simp

end
