(* ===== verification/Overflow_Facts.thy ===== *)
theory Overflow_Facts
  imports Overflow_Guards Invariant_Facts
begin

text \<open>
  What the filter of bounded arithmetic (internal/planner/filter_int_overflow.go) proves, and where the
  bounds it takes from guards are not those of the program.
\<close>

section \<open>Bounds by intervals\<close>

lemma allBounded_unchecked: "allBounded bounded False ops \<longleftrightarrow> list_all bounded ops"
  by (induction ops) auto

text \<open>The value an operand has in a run, when the interval of the flow is what bounds it.\<close>

lemma flow_bounded_value:
  assumes "plainRunAtLine store ids c val" "boundedByFlow store ids c op" "val op = Some x"
  shows "0 \<le> x \<and> x < guardMaxBound"
proof -
  obtain flow where f: "plainFlow store ids (FunctionID c) = Some flow"
    "\<And>v x. val v = Some x \<Longrightarrow> inIv x (rangeAt (Some flow) v (Line c))"
  proof (rule plain_run_in_interval [OF assms(1)])
    fix flow assume "plainFlow store ids (FunctionID c) = Some flow"
      "\<And>v x. val v = Some x \<Longrightarrow> inIv x (rangeAt (Some flow) v (Line c))"
    then show thesis by (rule that)
  qed
  have "inIv x (rangeAt (Some flow) op (Line c))" by (rule f(2) [OF assms(3)])
  then show ?thesis using assms(2) by (simp add: boundedByFlow_def f(1) inIv_def Let_def)
qed

lemma bounded_product: "0 \<le> (x :: int) \<Longrightarrow> x < guardMaxBound \<Longrightarrow> 0 \<le> y \<Longrightarrow> y < guardMaxBound \<Longrightarrow> 0 \<le> x * y \<and> x * y < 2 ^ 30"
proof -
  assume a: "0 \<le> x" "x < guardMaxBound" "0 \<le> y" "y < guardMaxBound"
  then have "x * y \<le> 32767 * 32767" by (intro mult_mono) (auto simp: guardMaxBound_def)
  with a show ?thesis by simp
qed


definition squareCandidate :: Candidate where
  "squareCandidate = divCandidate\<lparr>VariableName := ''d * d'', Category := ''integer_overflow''\<rparr>"

lemma square_facts: "identifiersInExpr (VariableName squareCandidate) = [''d'', ''d'']"
  "\<not> checkedOverflow divStore [5] squareCandidate [''d'', ''d'']" "\<not> boundedByGuard divStore [5] squareCandidate ''d''"
  by code_simp+
lemma square_bounded: "boundedByFlow divStore [5] squareCandidate ''d''"
  by code_simp
lemma square_dismissed: "isl (overflowDecision None divStore [5] squareCandidate)"
proof -
  have "Category squareCandidate = ''integer_overflow''" by (simp add: squareCandidate_def)
  then show ?thesis by (simp add: overflowDecision_def Let_def square_facts square_bounded)
qed


section \<open>Bounds by guards\<close>

text \<open>A lower bound is taken as an upper one: the body of n > 100 counts as bounded by 100.\<close>

lemma guard_direction_ignored:
  "guardBounds (binNode ''>'' (varNode ''n'') (flatNode ''number_literal'' ''100'' [])) = [(''n'', 100)]"
  by code_simp

text \<open>An increment between the guard and the use is no reassignment, an assignment is.\<close>

definition afterGuard :: "Node \<Rightarrow> Node" where
  "afterGuard s = tinyNode ''compound_statement'' '''' '''' 0 [tinyNode ''expression_statement'' '''' '''' 2 [s]]"

lemma update_not_seen:
  "\<not> reassignedBetween (afterGuard (tinyNode ''update_expression'' '''' '''' 2 [tinyNode ''identifier'' '''' ''n'' 2 []])) ''n'' 1 5"
  "reassignedBetween (afterGuard (tinyNode ''assignment_expression'' '''' '''' 2 [tinyNode ''identifier'' '''' ''n'' 2 []])) ''n'' 1 5"
  by code_simp+

text \<open>The overflow check accepts the comparison in either direction: if (n < M / k) return is one too.\<close>

lemma check_direction_ignored:
  "overflowGuardMatchesOperands (binNode ''<'' (varNode ''n'') (binNode ''/'' (varNode ''M'') (varNode ''k''))) [''n'', ''k'']"
  "overflowGuardMatchesOperands (binNode ''>'' (varNode ''n'') (binNode ''/'' (varNode ''M'') (varNode ''k''))) [''n'', ''k'']"
  by code_simp+

text \<open>A return anywhere in the consequence counts as leaving, also one under another condition.\<close>

lemma nested_return_exits:
  "isEarlyExit (flatNode ''compound_statement'' ''''
     [flatNode ''if_statement'' '''' [varNode ''verbose'', flatNode ''return_statement'' '''' []]])"
  by code_simp

text \<open>The product of three operands below the bound can exceed 2^31; all of them are dismissed alike.\<close>

lemma three_factors_dismissed:
  "isl (overflowDecision None divStore [5] (squareCandidate\<lparr>VariableName := ''d * d * d''\<rparr>))"
  "2 ^ 31 < (guardMaxBound - 1) * (guardMaxBound - 1) * (guardMaxBound - 1)"
proof -
  have "identifiersInExpr (VariableName (squareCandidate\<lparr>VariableName := ''d * d * d''\<rparr>)) = [''d'', ''d'', ''d'']" by code_simp
  moreover have "boundedByFlow divStore [5] (squareCandidate\<lparr>VariableName := ''d * d * d''\<rparr>) ''d''" by code_simp
  moreover have "Category squareCandidate = ''integer_overflow''" by (simp add: squareCandidate_def)
  ultimately show "isl (overflowDecision None divStore [5] (squareCandidate\<lparr>VariableName := ''d * d * d''\<rparr>))"
    by (simp add: overflowDecision_def Let_def)
  show "2 ^ 31 < (guardMaxBound - 1) * (guardMaxBound - 1) * (guardMaxBound - 1)" by (simp add: guardMaxBound_def)
qed

section \<open>Guarded subtractions\<close>

text \<open>The comparison that protects a subtraction lets pass only runs where it cannot underflow.\<close>

definition compares :: "string \<Rightarrow> int \<Rightarrow> int \<Rightarrow> bool" where
  "compares op a b \<longleftrightarrow> (if op = ''>'' then b < a else if op = ''>='' then b \<le> a else if op = ''<'' then a < b else a \<le> b)"

lemma protects_sound:
  assumes "protects lhs rhs condition" "NamedChildren condition = [a, b]"
    and "env (normExprText (Text a)) = x" "env (normExprText (Text b)) = y" "\<not> compares (binaryOperatorToken condition) x y"
  shows "env rhs \<le> env lhs"
  using assms by (auto simp: protects_def compares_def Let_def)

end
