(* ===== verification/Fact_Flow_Facts.thy ===== *)
theory Fact_Flow_Facts
  imports Fact_Flow
begin

text \<open>
  What the flow engine of null_flow.go computes.  Both analyses are interpretations of the worklist, so both end, at a
  fixpoint, with the fuel the model takes; the sources that may reach a statement are exactly those that a walk
  through the graph carries there, and the facts that hold on every path are held by every walk from
  the entry.  The lines of a result, copied from the graph, find the same statement as the graph does.
\<close>

section \<open>Positions\<close>

definition plainHeader :: "StmtNode \<Rightarrow> bool" where
  "plainHeader n \<longleftrightarrow> isControlFlowHeader n = snIsControl n"

lemma positionStep_line:
  assumes "plainHeader n" "pred_option plainHeader best"
  shows "map_option spanOf (nodeAtStep line n best) = (if snKind n = ''stmt'' then positionStep line 0 (spanOf n) (map_option spanOf best) else map_option spanOf best)"
  using assms by (cases best) (auto simp: nodeAtStep_def positionStep_def spanOf_def plainHeader_def Let_def)

lemma positionStep_column:
  assumes "0 < column" "plainHeader n" "pred_option plainHeader best"
  shows "map_option spanOf (nodeAtColumnStep line column n best)
     = (if snKind n = ''stmt'' then positionStep line column (spanOf n) (map_option spanOf best) else map_option spanOf best)"
  using assms by (cases best) (auto simp: nodeAtColumnStep_def positionStep_def spanOf_def plainHeader_def Let_def)

lemma fold_filter_map: "fold f (map g (filter P xs)) a = fold (\<lambda>x b. if P x then f (g x) b else b) xs a"
  by (induction xs arbitrary: a) auto

lemma fold_option_sim:
  assumes "\<And>x b. P x \<Longrightarrow> pred_option P b \<Longrightarrow> h (f x b) = g x (h b) \<and> pred_option P (f x b)" "list_all P xs" "pred_option P a"
  shows "h (fold f xs a) = fold g xs (h a)"
  using assms(2,3) by (induction xs arbitrary: a) (simp_all add: assms(1))

lemma kept_step: "plainHeader n \<Longrightarrow> pred_option plainHeader best \<Longrightarrow> pred_option plainHeader (nodeAtStep line n best)"
  "plainHeader n \<Longrightarrow> pred_option plainHeader best \<Longrightarrow> pred_option plainHeader (nodeAtColumnStep line column n best)"
  by (auto simp: nodeAtStep_def nodeAtColumnStep_def Let_def split: option.split)

lemma positions_line:
  assumes "list_all plainHeader (cfgNodes cfg)"
  shows "fold (positionStep line 0) (snapshotSpans cfg) None = map_option spanOf (NodeAt cfg line)"
  using fold_option_sim [where h = "map_option spanOf" and f = "nodeAtStep line" and P = plainHeader, OF conjI [OF positionStep_line kept_step(1)] assms, of None]
  by (simp add: snapshotSpans_def fold_filter_map NodeAt_def)

lemma positions_column:
  assumes "0 < column" "list_all plainHeader (cfgNodes cfg)"
  shows "fold (positionStep line column) (snapshotSpans cfg) None = map_option spanOf (fold (nodeAtColumnStep line column) (cfgNodes cfg) None)"
  using fold_option_sim [where h = "map_option spanOf" and f = "nodeAtColumnStep line column" and P = plainHeader,
      OF conjI [OF positionStep_column [OF assms(1)] kept_step(2)] assms(2), of None]
  by (simp add: snapshotSpans_def fold_filter_map)

lemma built_headers: "list_all plainHeader (cfgNodes (BuildStmtCFG body funcEnd))"
proof -
  let ?cfg = "BuildStmtCFG body funcEnd"
  have "plainHeader (cfgNodes ?cfg ! i)" if "i < length (cfgNodes ?cfg)" for i
  proof -
    have "valid_id ?cfg (int i)" using that by (simp add: valid_id_def)
    then have "snIsControl (cfgNodes ?cfg ! i) = isControlKind (Kind (snStmt (cfgNodes ?cfg ! i)))"
      using built_graph_wf [of body funcEnd] unfolding wf_cfg_def by fastforce
    then show ?thesis by (simp add: plainHeader_def isControlFlowHeader_def)
  qed
  then show ?thesis by (simp add: list_all_length)
qed

lemma spans_mirror_lookup:
  "nodeAtSpans (snapshotSpans (BuildStmtCFG body funcEnd)) line column = map_option spanOf (NodeAtColumn (BuildStmtCFG body funcEnd) line column)"
proof (cases "0 < column")
  case True
  then show ?thesis
    by (simp add: nodeAtSpans_def NodeAtColumn_def positions_line [OF built_headers] positions_column [OF _ built_headers] split: option.split)
next
  case False
  then have "positionStep line column sp best = positionStep line 0 sp best" for sp best by (cases best) (simp_all add: positionStep_def Let_def)
  then have "positionStep line column = positionStep line 0" by (simp add: fun_eq_iff)
  with False show ?thesis by (simp add: nodeAtSpans_def NodeAtColumn_def positions_line [OF built_headers] split: option.split)
qed


section \<open>The worklist, may\<close>

lemma nodes_succs:
  "i < length (cfgNodes (BuildStmtCFG body funcEnd)) \<Longrightarrow> m \<in> set (snSuccs (cfgNodes (BuildStmtCFG body funcEnd) ! i))
    \<Longrightarrow> nat m < length (cfgNodes (BuildStmtCFG body funcEnd))"
proof -
  let ?cfg = "BuildStmtCFG body funcEnd"
  assume i: "i < length (cfgNodes ?cfg)" and m: "m \<in> set (snSuccs (cfgNodes ?cfg ! i))"
  then have "valid_id ?cfg (int i)" by (simp add: valid_id_def)
  then have "valid_id ?cfg m" using built_graph_wf [of body funcEnd] m by (auto simp: wf_cfg_def targets_def)
  then show ?thesis by (simp add: valid_id_def nat_less_iff)
qed

text \<open>The pairs a node can hold.\<close>

definition factSpace :: "nat \<Rightarrow> flowEffects option list \<Rightarrow> string list \<Rightarrow> (string \<times> nat) set" where
  "factSpace n effs seeds = set (writtenVars effs seeds) \<times> {..<n}"

definition goodFacts :: "nat \<Rightarrow> flowEffects option list \<Rightarrow> string list \<Rightarrow> factSet \<Rightarrow> bool" where
  "goodFacts n effs seeds facts \<longleftrightarrow> set facts \<subseteq> factSpace n effs seeds"

definition factRank :: "nat \<Rightarrow> flowEffects option list \<Rightarrow> string list \<Rightarrow> factSet \<Rightarrow> nat" where
  "factRank n effs seeds facts = card (factSpace n effs seeds - set facts)"

lemma finite_factSpace [simp]: "finite (factSpace n effs seeds)"
  by (simp add: factSpace_def)

lemma card_factSpace: "card (factSpace n effs seeds) = length (writtenVars effs seeds) * n"
proof -
  have "card (set (writtenVars effs seeds)) = length (writtenVars effs seeds)"
    by (rule distinct_card) (simp add: writtenVars_def)
  then show ?thesis by (simp add: factSpace_def card_cartesian_product)
qed

lemma copied_mem: "(v, s) \<in> set (copied facts pairs) \<longleftrightarrow> (\<exists>r. (v, r) \<in> set pairs \<and> (r, s) \<in> set facts)"
  by (force simp: copied_def)

text \<open>A transferred fact is a new source or comes from one fact before.\<close>

definition moves :: "flowEffects option \<Rightarrow> string \<Rightarrow> string \<Rightarrow> bool" where
  "moves eff w v \<longleftrightarrow> (case eff of None \<Rightarrow> w = v
     | Some e \<Rightarrow> \<not> isKilled e v \<and> (w = v \<and> v \<notin> fst ` set (feCopy e) \<or> (v, w) \<in> set (feCopy e) \<or> (v, w) \<in> set (feFieldBase e)))"

definition gens :: "flowEffects option \<Rightarrow> string \<Rightarrow> bool" where
  "gens eff v \<longleftrightarrow> (case eff of None \<Rightarrow> False | Some e \<Rightarrow> v \<in> set (feGen e))"

lemma flowTransfer_mem:
  "(v, s) \<in> set (flowTransfer facts eff n) \<longleftrightarrow> gens eff v \<and> s = n \<or> (\<exists>w. moves eff w v \<and> (w, s) \<in> set facts)"
  by (cases eff) (auto simp: flowTransfer_def gens_def moves_def Let_def copied_mem)

lemma sendFacts_mem:
  "(v, s) \<in> set (sendFacts effs edgeKills n facts m) \<longleftrightarrow> v \<notin> set (edgeKills n m)
     \<and> (gens (effAt effs n) v \<and> s = n \<or> (\<exists>w. moves (effAt effs n) w v \<and> (w, s) \<in> set facts))"
  by (auto simp: sendFacts_def flowTransfer_mem)

lemma effAt_mem: "effAt effs i = Some e \<Longrightarrow> Some e \<in> set effs"
  by (auto simp: effAt_def split: if_splits) (metis nth_mem)

lemma writtenVars_eff: "Some e \<in> set effs \<Longrightarrow> set (feGen e) \<union> fst ` set (feCopy e) \<union> fst ` set (feFieldBase e) \<subseteq> set (writtenVars effs seeds)"
  by (force simp: writtenVars_def)

lemma goodFacts_send: "i < n \<Longrightarrow> goodFacts n effs seeds facts \<Longrightarrow> goodFacts n effs seeds (sendFacts effs edgeKills i facts m)"
proof -
  assume i: "i < n" and g: "goodFacts n effs seeds facts"
  have "(v, s) \<in> factSpace n effs seeds" if "(v, s) \<in> set (sendFacts effs edgeKills i facts m)" for v s
  proof -
    from that consider "gens (effAt effs i) v" "s = i" | w where "moves (effAt effs i) w v" "(w, s) \<in> set facts"
      by (auto simp: sendFacts_mem)
    then show ?thesis
    proof cases
      case 1
      then obtain e where "effAt effs i = Some e" "v \<in> set (feGen e)" by (auto simp: gens_def split: option.splits)
      then show ?thesis using writtenVars_eff [OF effAt_mem, of effs i e seeds] i 1(2) by (auto simp: factSpace_def)
    next
      case 2
      then have ws: "w \<in> set (writtenVars effs seeds)" "s < n" using g by (auto simp: goodFacts_def factSpace_def)
      have "w = v \<or> v \<in> set (writtenVars effs seeds)"
        using 2(1) writtenVars_eff [OF effAt_mem, of effs i _ seeds] by (force simp: moves_def split: option.splits)
      with ws show ?thesis by (auto simp: factSpace_def)
    qed
  qed
  then show ?thesis by (auto simp: goodFacts_def)
qed

lemma mergeFacts_set: "set (snd (mergeFacts dst src)) = set dst \<union> set src"
  by (auto simp: mergeFacts_def Let_def)

lemma mergeFacts_same: "\<not> fst (mergeFacts dst src) \<Longrightarrow> snd (mergeFacts dst src) = dst"
  by (simp add: mergeFacts_def Let_def)

lemma mergeFacts_rank:
  assumes "goodFacts n effs seeds src" "fst (mergeFacts dst src)"
  shows "factRank n effs seeds (snd (mergeFacts dst src)) < factRank n effs seeds dst"
proof -
  from assms(2) have "\<exists>x. x \<in> set src \<and> x \<notin> set dst" by (auto simp: mergeFacts_def Let_def filter_empty_conv)
  then obtain x where "x \<in> set src" "x \<notin> set dst" by blast
  then have "factSpace n effs seeds - (set dst \<union> set src) \<subset> factSpace n effs seeds - set dst"
    using assms(1) by (auto simp: goodFacts_def)
  then show ?thesis unfolding factRank_def mergeFacts_set by (intro psubset_card_mono) simp_all
qed

interpretation may_flow: worklist mergeFacts "sendFacts effs edgeKills" "cfgNodes (BuildStmtCFG body funcEnd)"
    "goodFacts (length (cfgNodes (BuildStmtCFG body funcEnd))) effs seeds"
    "factRank (length (cfgNodes (BuildStmtCFG body funcEnd))) effs seeds" "\<lambda>a b. set a \<subseteq> set b"
  for effs edgeKills seeds body funcEnd
proof unfold_locales
  fix i m assume "i < length (cfgNodes (BuildStmtCFG body funcEnd))" "m \<in> set (snSuccs (cfgNodes (BuildStmtCFG body funcEnd) ! i))"
  then show "nat m < length (cfgNodes (BuildStmtCFG body funcEnd))" by (rule nodes_succs)
next
  fix i j a assume "i < length (cfgNodes (BuildStmtCFG body funcEnd))" "goodFacts (length (cfgNodes (BuildStmtCFG body funcEnd))) effs seeds a"
  then show "goodFacts (length (cfgNodes (BuildStmtCFG body funcEnd))) effs seeds (sendFacts effs edgeKills i a j)" by (rule goodFacts_send)
next
  fix a b assume "goodFacts (length (cfgNodes (BuildStmtCFG body funcEnd))) effs seeds b" "fst (mergeFacts a b)"
  then show "factRank (length (cfgNodes (BuildStmtCFG body funcEnd))) effs seeds (snd (mergeFacts a b))
      < factRank (length (cfgNodes (BuildStmtCFG body funcEnd))) effs seeds a" by (rule mergeFacts_rank)
qed (auto simp: mergeFacts_set mergeFacts_same goodFacts_def)

text \<open>The fuel is enough: the iteration ends, at a fixpoint.\<close>

lemma runDataflow_fixpoint:
  "\<exists>ins. runDataflow (BuildStmtCFG body funcEnd) effs seeds edgeKills = Some ins \<and> length ins = length (cfgNodes (BuildStmtCFG body funcEnd))
     \<and> (\<forall>i < length ins. may_flow.edgesHeld effs edgeKills body funcEnd ins i)"
proof -
  let ?cfg = "BuildStmtCFG body funcEnd" and ?n = "length (cfgNodes (BuildStmtCFG body funcEnd))"
  have good: "goodFacts ?n effs seeds (seedFacts ?cfg seeds i)" if "i < ?n" for i
    using that by (auto simp: goodFacts_def seedFacts_def factSpace_def writtenVars_def)
  have "factRank ?n effs seeds (seedFacts ?cfg seeds i) \<le> length (writtenVars effs seeds) * ?n" for i
    unfolding factRank_def card_factSpace [symmetric] by (rule card_mono) auto
  then have "sum_list (map (\<lambda>i. factRank ?n effs seeds (seedFacts ?cfg seeds i)) [0..<?n]) \<le> sum_list (map (\<lambda>i. length (writtenVars effs seeds) * ?n) [0..<?n])"
    by (intro sum_list_mono) simp
  then have "?n + sum_list (map (\<lambda>i. factRank ?n effs seeds (seedFacts ?cfg seeds i)) [0..<?n]) \<le> factFuel ?n effs seeds"
    by (simp add: factFuel_def sum_list_triv mult.commute)
  from may_flow.startWork_fixpoint [where edgeKills = edgeKills, OF good this] show ?thesis unfolding runDataflow_def Let_def by fastforce
qed

section \<open>Walks\<close>

text \<open>What a walk through the graph carries: it enters with the seeds, or starts anywhere with nothing.\<close>

inductive flow_run :: "StmtCFG \<Rightarrow> flowEffects option list \<Rightarrow> string list \<Rightarrow> (nat \<Rightarrow> nat \<Rightarrow> string list) \<Rightarrow> nat \<Rightarrow> factSet \<Rightarrow> bool"
  for cfg effs seeds edgeKills where
  enter: "i < length (cfgNodes cfg) \<Longrightarrow> flow_run cfg effs seeds edgeKills i (seedFacts cfg seeds i)"
| walk: "flow_run cfg effs seeds edgeKills i facts \<Longrightarrow> m \<in> set (snSuccs (cfgNodes cfg ! i)) \<Longrightarrow>
     flow_run cfg effs seeds edgeKills (nat m) (sendFacts effs edgeKills i facts (nat m))"

lemma flow_run_node: "flow_run (BuildStmtCFG body funcEnd) effs seeds edgeKills i facts \<Longrightarrow> i < length (cfgNodes (BuildStmtCFG body funcEnd))"
  by (induction rule: flow_run.induct) (simp_all add: nodes_succs)

lemma sendFacts_mono: "set a \<subseteq> set b \<Longrightarrow> set (sendFacts effs edgeKills i a m) \<subseteq> set (sendFacts effs edgeKills i b m)"
proof -
  assume "set a \<subseteq> set b"
  then have "x \<in> set (sendFacts effs edgeKills i a m) \<Longrightarrow> x \<in> set (sendFacts effs edgeKills i b m)" for x
    by (cases x) (auto simp: sendFacts_mem)
  then show ?thesis by blast
qed

lemma runDataflow_seeds:
  assumes "runDataflow (BuildStmtCFG body funcEnd) effs seeds edgeKills = Some ins"
  shows "\<forall>i < length ins. set (seedFacts (BuildStmtCFG body funcEnd) seeds i) \<subseteq> set (ins ! i)"
proof (rule workLoop_invariant [OF assms [unfolded runDataflow_def Let_def], of "\<lambda>i a. set (seedFacts (BuildStmtCFG body funcEnd) seeds i) \<subseteq> set a"])
  show "workOK (length (cfgNodes (BuildStmtCFG body funcEnd))) (startWork (length (cfgNodes (BuildStmtCFG body funcEnd))) (seedFacts (BuildStmtCFG body funcEnd) seeds))"
    by (rule startWork_ok)
qed (auto simp: startWork_def mergeFacts_set nodes_succs)

lemma runDataflow_walks:
  assumes "runDataflow (BuildStmtCFG body funcEnd) effs seeds edgeKills = Some ins"
  shows "\<forall>i < length ins. \<forall>x \<in> set (ins ! i). \<exists>facts. flow_run (BuildStmtCFG body funcEnd) effs seeds edgeKills i facts \<and> x \<in> set facts"
proof (rule workLoop_invariant [OF assms [unfolded runDataflow_def Let_def],
      of "\<lambda>i a. \<forall>x \<in> set a. \<exists>facts. flow_run (BuildStmtCFG body funcEnd) effs seeds edgeKills i facts \<and> x \<in> set facts"])
  show "workOK (length (cfgNodes (BuildStmtCFG body funcEnd))) (startWork (length (cfgNodes (BuildStmtCFG body funcEnd))) (seedFacts (BuildStmtCFG body funcEnd) seeds))"
    by (rule startWork_ok)
next
  fix i m a b
  let ?run = "flow_run (BuildStmtCFG body funcEnd) effs seeds edgeKills"
  assume i: "i < length (cfgNodes (BuildStmtCFG body funcEnd))" and m: "m \<in> set (snSuccs (cfgNodes (BuildStmtCFG body funcEnd) ! i))"
    and a: "\<forall>x \<in> set a. \<exists>facts. ?run i facts \<and> x \<in> set facts" and b: "\<forall>x \<in> set b. \<exists>facts. ?run (nat m) facts \<and> x \<in> set facts"
  have "\<exists>facts. ?run (nat m) facts \<and> (v, s) \<in> set facts" if x: "(v, s) \<in> set (sendFacts effs edgeKills i a (nat m))" for v s
  proof -
    obtain facts where "?run i facts" "(v, s) \<in> set (sendFacts effs edgeKills i facts (nat m))"
    proof -
      from x consider "gens (effAt effs i) v" "s = i" "v \<notin> set (edgeKills i (nat m))"
        | w where "moves (effAt effs i) w v" "(w, s) \<in> set a" "v \<notin> set (edgeKills i (nat m))" by (auto simp: sendFacts_mem)
      then show thesis
      proof cases
        case 1
        then show thesis using that [OF flow_run.enter [OF i]] by (simp add: sendFacts_mem)
      next
        case 2
        then obtain facts where "?run i facts" "(w, s) \<in> set facts" using a by blast
        with 2 show thesis using that by (auto simp: sendFacts_mem)
      qed
    qed
    then show ?thesis using flow_run.walk [OF _ m] by blast
  qed
  with b show "\<forall>x \<in> set (snd (mergeFacts b (sendFacts effs edgeKills i a (nat m)))). \<exists>facts. ?run (nat m) facts \<and> x \<in> set facts"
    by (auto simp: mergeFacts_set)
qed (auto simp: startWork_def nodes_succs intro: flow_run.enter)

lemma may_flow_walks:
  "\<exists>ins. runDataflow (BuildStmtCFG body funcEnd) effs seeds edgeKills = Some ins \<and> length ins = length (cfgNodes (BuildStmtCFG body funcEnd))
     \<and> (\<forall>i < length ins. \<forall>x. x \<in> set (ins ! i) \<longleftrightarrow> (\<exists>facts. flow_run (BuildStmtCFG body funcEnd) effs seeds edgeKills i facts \<and> x \<in> set facts))"
proof -
  obtain ins where r: "runDataflow (BuildStmtCFG body funcEnd) effs seeds edgeKills = Some ins"
    "length ins = length (cfgNodes (BuildStmtCFG body funcEnd))" and fixp: "\<forall>i < length ins. may_flow.edgesHeld effs edgeKills body funcEnd ins i"
    using runDataflow_fixpoint by blast
  have "set facts \<subseteq> set (ins ! i)" if "flow_run (BuildStmtCFG body funcEnd) effs seeds edgeKills i facts" for i facts
    using that
  proof (induction rule: flow_run.induct)
    case (enter i)
    then show ?case using runDataflow_seeds [OF r(1)] r(2) by simp
  next
    case (walk i facts m)
    have "i < length ins" using flow_run_node [OF walk.hyps(1)] r(2) by simp
    then have "set (sendFacts effs edgeKills i (ins ! i) (nat m)) \<subseteq> set (ins ! nat m)"
      using fixp walk.hyps(2) by (simp add: may_flow.edgesHeld_def)
    then show ?case using sendFacts_mono [OF walk.IH] by blast
  qed
  with runDataflow_walks [OF r(1)] r show ?thesis by blast
qed


section \<open>The worklist, must\<close>

definition goodHeld :: "flowEffects option list \<Rightarrow> string list \<Rightarrow> string list \<Rightarrow> bool" where
  "goodHeld effs seeds held \<longleftrightarrow> set held \<subseteq> set (universe effs seeds)"

text \<open>A fact is generated or comes from one fact before.\<close>

definition mustMoves :: "flowEffects option \<Rightarrow> string \<Rightarrow> string \<Rightarrow> bool" where
  "mustMoves eff w v \<longleftrightarrow> (case eff of None \<Rightarrow> w = v
     | Some e \<Rightarrow> \<not> isKilled e v \<and> (w = v \<and> v \<notin> fst ` set (feCopy e) \<or> (v, w) \<in> set (feCopy e)))"

lemma mustTransfer_mem: "v \<in> set (mustTransfer held eff) \<longleftrightarrow> gens eff v \<or> (\<exists>w. mustMoves eff w v \<and> w \<in> set held)"
proof (cases eff)
  case (Some e)
  have "v \<in> fst ` {p \<in> set (feCopy e). case p of (lhs, rhs) \<Rightarrow> rhs \<in> set held} \<longleftrightarrow> (\<exists>w. (v, w) \<in> set (feCopy e) \<and> w \<in> set held)" by force
  with Some show ?thesis by (auto simp: mustTransfer_def gens_def mustMoves_def Let_def)
qed (simp add: mustTransfer_def gens_def mustMoves_def)

lemma mustTransfer_mono: "set a \<subseteq> set b \<Longrightarrow> set (mustTransfer a eff) \<subseteq> set (mustTransfer b eff)"
  using mustTransfer_mem by blast

lemma universe_eff: "Some e \<in> set effs \<Longrightarrow> set (feGen e) \<union> fst ` set (feCopy e) \<union> snd ` set (feCopy e) \<subseteq> set (universe effs seeds)"
  by (force simp: universe_def)

lemma goodHeld_transfer: "goodHeld effs seeds held \<Longrightarrow> goodHeld effs seeds (mustTransfer held (effAt effs i))"
proof -
  assume g: "goodHeld effs seeds held"
  have "v \<in> set (universe effs seeds)" if "v \<in> set (mustTransfer held (effAt effs i))" for v
  proof (cases "effAt effs i")
    case None
    with that g show ?thesis by (auto simp: mustTransfer_def goodHeld_def)
  next
    case (Some e)
    from that consider "gens (Some e) v" | w where "mustMoves (Some e) w v" "w \<in> set held" by (auto simp: mustTransfer_mem Some)
    then show ?thesis
    proof cases
      case 1
      then show ?thesis using universe_eff [OF effAt_mem [OF Some], of seeds] by (auto simp: gens_def)
    next
      case 2
      then have "v \<in> fst ` set (feCopy e) \<or> v \<in> set held" by (force simp: mustMoves_def)
      then show ?thesis using universe_eff [OF effAt_mem [OF Some], of seeds] g by (auto simp: goodHeld_def)
    qed
  qed
  then show ?thesis by (auto simp: goodHeld_def)
qed

lemma mustMerge_set: "set (snd (mustMerge dst src)) = set dst \<inter> set src"
  by (auto simp: mustMerge_def Let_def)

lemma mustMerge_same: "\<not> fst (mustMerge dst src) \<Longrightarrow> snd (mustMerge dst src) = dst"
proof -
  assume "\<not> fst (mustMerge dst src)"
  then have "length (filter (\<lambda>v. v \<in> set src) dst) = length dst"
    using length_filter_le [of "\<lambda>v. v \<in> set src" dst] by (simp add: mustMerge_def Let_def)
  then have "\<forall>v \<in> set dst. v \<in> set src" by (metis length_filter_less less_irrefl)
  then show ?thesis by (simp add: mustMerge_def Let_def)
qed

lemma mustMerge_rank: "fst (mustMerge dst src) \<Longrightarrow> length (snd (mustMerge dst src)) < length dst"
  by (simp add: mustMerge_def Let_def)

interpretation must_flow: worklist mustMerge "sendMust effs" "cfgNodes (BuildStmtCFG body funcEnd)" "goodHeld effs seeds" length
    "\<lambda>a b. set b \<subseteq> set a" for effs seeds body funcEnd
proof unfold_locales
  fix i m assume "i < length (cfgNodes (BuildStmtCFG body funcEnd))" "m \<in> set (snSuccs (cfgNodes (BuildStmtCFG body funcEnd) ! i))"
  then show "nat m < length (cfgNodes (BuildStmtCFG body funcEnd))" by (rule nodes_succs)
qed (auto simp: mustMerge_set mustMerge_same mustMerge_rank goodHeld_transfer sendMust_def, auto simp: goodHeld_def mustMerge_set)

lemma runMustDataflow_fixpoint:
  "\<exists>ins. runMustDataflow (BuildStmtCFG body funcEnd) effs seeds = Some ins \<and> length ins = length (cfgNodes (BuildStmtCFG body funcEnd))
     \<and> (\<forall>i < length ins. must_flow.edgesHeld effs body funcEnd ins i)"
proof -
  let ?cfg = "BuildStmtCFG body funcEnd" and ?n = "length (cfgNodes (BuildStmtCFG body funcEnd))"
  have good: "goodHeld effs seeds (mustInit ?cfg effs seeds i)" for i by (auto simp: goodHeld_def mustInit_def universe_def)
  have "length (mustInit ?cfg effs seeds i) \<le> length (universe effs seeds)" for i
  proof -
    have "length (remdups seeds) = card (set (remdups seeds))" by (rule distinct_card [symmetric]) simp
    also have "\<dots> \<le> card (set (universe effs seeds))" by (rule card_mono [OF finite_set]) (auto simp: universe_def)
    also have "\<dots> \<le> length (universe effs seeds)" by (rule card_length)
    finally show ?thesis by (simp add: mustInit_def)
  qed
  then have "sum_list (map (\<lambda>i. length (mustInit ?cfg effs seeds i)) [0..<?n]) \<le> sum_list (map (\<lambda>i. length (universe effs seeds)) [0..<?n])"
    by (intro sum_list_mono) simp
  then have "?n + sum_list (map (\<lambda>i. length (mustInit ?cfg effs seeds i)) [0..<?n]) \<le> mustFuel ?n effs seeds"
    by (simp add: mustFuel_def sum_list_triv mult.commute)
  from must_flow.startWork_fixpoint [OF good this] show ?thesis unfolding runMustDataflow_def Let_def by fastforce
qed

text \<open>What holds at the end of a walk from the entry.\<close>

inductive must_run :: "StmtCFG \<Rightarrow> flowEffects option list \<Rightarrow> string list \<Rightarrow> nat \<Rightarrow> string list \<Rightarrow> bool"
  for cfg effs seeds where
  enter: "must_run cfg effs seeds (nat (cfgEntry cfg)) (remdups seeds)"
| walk: "must_run cfg effs seeds i held \<Longrightarrow> m \<in> set (snSuccs (cfgNodes cfg ! i)) \<Longrightarrow>
     must_run cfg effs seeds (nat m) (mustTransfer held (effAt effs i))"

lemma entry_node: "nat (cfgEntry (BuildStmtCFG body funcEnd)) < length (cfgNodes (BuildStmtCFG body funcEnd))"
  using built_graph_wf [of body funcEnd] unfolding wf_cfg_def by linarith

lemma must_run_node: "must_run (BuildStmtCFG body funcEnd) effs seeds i held \<Longrightarrow> i < length (cfgNodes (BuildStmtCFG body funcEnd))"
  by (induction rule: must_run.induct) (simp_all add: nodes_succs entry_node)

lemma must_run_good: "must_run (BuildStmtCFG body funcEnd) effs seeds i held \<Longrightarrow> goodHeld effs seeds held"
  by (induction rule: must_run.induct) (auto simp: goodHeld_transfer, auto simp: goodHeld_def universe_def)

lemma runMustDataflow_init:
  assumes "runMustDataflow (BuildStmtCFG body funcEnd) effs seeds = Some ins"
  shows "\<forall>i < length ins. set (ins ! i) \<subseteq> set (mustInit (BuildStmtCFG body funcEnd) effs seeds i)"
proof (rule workLoop_invariant [OF assms [unfolded runMustDataflow_def Let_def], of "\<lambda>i a. set a \<subseteq> set (mustInit (BuildStmtCFG body funcEnd) effs seeds i)"])
  show "workOK (length (cfgNodes (BuildStmtCFG body funcEnd))) (startWork (length (cfgNodes (BuildStmtCFG body funcEnd))) (mustInit (BuildStmtCFG body funcEnd) effs seeds))"
    by (rule startWork_ok)
qed (auto simp: startWork_def mustMerge_set nodes_succs)

lemma must_flow_sound:
  "\<exists>ins. runMustDataflow (BuildStmtCFG body funcEnd) effs seeds = Some ins \<and> length ins = length (cfgNodes (BuildStmtCFG body funcEnd))
     \<and> (\<forall>i held. must_run (BuildStmtCFG body funcEnd) effs seeds i held \<longrightarrow> set (ins ! i) \<subseteq> set held)"
proof -
  obtain ins where r: "runMustDataflow (BuildStmtCFG body funcEnd) effs seeds = Some ins"
    "length ins = length (cfgNodes (BuildStmtCFG body funcEnd))" and fixp: "\<forall>i < length ins. must_flow.edgesHeld effs body funcEnd ins i"
    using runMustDataflow_fixpoint by blast
  have "set (ins ! i) \<subseteq> set held" if "must_run (BuildStmtCFG body funcEnd) effs seeds i held" for i held
    using that
  proof (induction rule: must_run.induct)
    case enter
    have "nat (cfgEntry (BuildStmtCFG body funcEnd)) < length ins" using r(2) entry_node by simp
    then show ?case using runMustDataflow_init [OF r(1)] by (fastforce simp: mustInit_def)
  next
    case (walk i held m)
    have "i < length ins" using must_run_node [OF walk.hyps(1)] r(2) by simp
    then have "set (ins ! nat m) \<subseteq> set (mustTransfer (ins ! i) (effAt effs i))"
      using fixp walk.hyps(2) by (simp add: must_flow.edgesHeld_def sendMust_def)
    then show ?case using mustTransfer_mono [OF walk.IH] by blast
  qed
  with r show ?thesis by blast
qed

text \<open>Where every statement is reached and each variable is copied from one other, nothing else is lost.\<close>

definition oneSource :: "flowEffects option list \<Rightarrow> bool" where
  "oneSource effs \<longleftrightarrow> list_all (\<lambda>eff. case eff of None \<Rightarrow> True | Some e \<Rightarrow> distinct (map fst (feCopy e))) effs"

lemma mustMoves_unique:
  assumes "oneSource effs" "mustMoves (effAt effs i) w v" "mustMoves (effAt effs i) w' v"
  shows "w' = w"
proof (cases "effAt effs i")
  case None
  with assms(2,3) show ?thesis by (simp add: mustMoves_def)
next
  case (Some e)
  then have d: "distinct (map fst (feCopy e))" using assms(1) effAt_mem [OF Some] by (auto simp: oneSource_def list_all_iff)
  have "x = y" if "(v, x) \<in> set (feCopy e)" "(v, y) \<in> set (feCopy e)" for x y
    using map_of_is_SomeI [OF d that(1)] map_of_is_SomeI [OF d that(2)] by simp
  moreover have "v \<in> fst ` set (feCopy e)" if "(v, x) \<in> set (feCopy e)" for x using that by force
  ultimately show ?thesis using assms(2,3) unfolding Some mustMoves_def by auto
qed

definition all_reached :: "StmtCFG \<Rightarrow> flowEffects option list \<Rightarrow> string list \<Rightarrow> bool" where
  "all_reached cfg effs seeds \<longleftrightarrow> (\<forall>i < length (cfgNodes cfg). \<exists>held. must_run cfg effs seeds i held)"

lemma missing_run:
  assumes "all_reached (BuildStmtCFG body funcEnd) effs seeds" "i < length (cfgNodes (BuildStmtCFG body funcEnd))"
    "w \<notin> set (mustInit (BuildStmtCFG body funcEnd) effs seeds i)"
  shows "\<exists>held. must_run (BuildStmtCFG body funcEnd) effs seeds i held \<and> w \<notin> set held"
proof (cases "i = nat (cfgEntry (BuildStmtCFG body funcEnd))")
  case True
  with assms(3) show ?thesis using must_run.enter [of "BuildStmtCFG body funcEnd" effs seeds] by (auto simp: mustInit_def)
next
  case False
  obtain held where "must_run (BuildStmtCFG body funcEnd) effs seeds i held" using assms(1,2) by (auto simp: all_reached_def)
  with must_run_good [OF this] assms(3) False show ?thesis by (auto simp: mustInit_def goodHeld_def)
qed

lemma must_flow_complete:
  assumes "oneSource effs" "all_reached (BuildStmtCFG body funcEnd) effs seeds" "runMustDataflow (BuildStmtCFG body funcEnd) effs seeds = Some ins"
    "i < length ins" "length ins = length (cfgNodes (BuildStmtCFG body funcEnd))" "v \<notin> set (ins ! i)"
  shows "\<exists>held. must_run (BuildStmtCFG body funcEnd) effs seeds i held \<and> v \<notin> set held"
proof -
  let ?run = "must_run (BuildStmtCFG body funcEnd) effs seeds"
  let ?P = "\<lambda>i a. \<forall>v. v \<notin> set a \<longrightarrow> (\<exists>held. ?run i held \<and> v \<notin> set held)"
  have "\<forall>i < length ins. ?P i (ins ! i)"
  proof (rule workLoop_invariant [OF assms(3) [unfolded runMustDataflow_def Let_def], of ?P])
    show "workOK (length (cfgNodes (BuildStmtCFG body funcEnd))) (startWork (length (cfgNodes (BuildStmtCFG body funcEnd))) (mustInit (BuildStmtCFG body funcEnd) effs seeds))"
      by (rule startWork_ok)
  next
    show "\<forall>i<length (wsIn (startWork (length (cfgNodes (BuildStmtCFG body funcEnd))) (mustInit (BuildStmtCFG body funcEnd) effs seeds))).
      ?P i (wsIn (startWork (length (cfgNodes (BuildStmtCFG body funcEnd))) (mustInit (BuildStmtCFG body funcEnd) effs seeds)) ! i)"
      using missing_run [OF assms(2)] by (simp add: startWork_def)
  next
    fix i m a b
    assume i: "i < length (cfgNodes (BuildStmtCFG body funcEnd))" and m: "m \<in> set (snSuccs (cfgNodes (BuildStmtCFG body funcEnd) ! i))"
      and a: "?P i a" and b: "?P (nat m) b"
    have "\<exists>held. ?run (nat m) held \<and> v \<notin> set held" if v: "v \<notin> set (mustTransfer a (effAt effs i))" for v
    proof -
      obtain held where "?run i held" "v \<notin> set (mustTransfer held (effAt effs i))"
      proof (cases "\<exists>w. mustMoves (effAt effs i) w v")
        case True
        then obtain w where w: "mustMoves (effAt effs i) w v" by blast
        have uniq: "w' = w" if "mustMoves (effAt effs i) w' v" for w' by (rule mustMoves_unique [OF assms(1) w that])
        have "w \<notin> set a" "\<not> gens (effAt effs i) v" using v w by (auto simp: mustTransfer_mem)
        then obtain held where "?run i held" "w \<notin> set held" using a by blast
        then show thesis using that uniq \<open>\<not> gens (effAt effs i) v\<close> by (auto simp: mustTransfer_mem)
      next
        case False
        obtain held where "?run i held" using assms(2) i by (auto simp: all_reached_def)
        then show thesis using that False v by (auto simp: mustTransfer_mem)
      qed
      then show ?thesis using must_run.walk [OF _ m] by blast
    qed
    with b show "?P (nat m) (snd (mustMerge b (sendMust effs i a (nat m))))" by (auto simp: mustMerge_set sendMust_def)
  qed (simp add: nodes_succs)
  with assms(4,6) show ?thesis by blast
qed

section \<open>The results are exact\<close>

text \<open>C38: the analysis of what may reach a statement is exact and always ends.  Whatever the effects, the seeds and the
  edges that kill, runDataflow returns one fact set per node of the graph, and a source reaches a variable at a
  node exactly if some walk through the graph carries it there, through copies and kills: nothing is missed,
  and nothing is reported that no sequence of transfers produces.\<close>

theorem may_flow_exact:
  "\<exists>ins. runDataflow (BuildStmtCFG body funcEnd) effs seeds edgeKills = Some ins
     \<and> length ins = length (cfgNodes (BuildStmtCFG body funcEnd))
     \<and> (\<forall>i v src. (i < length ins \<and> (v, src) \<in> set (ins ! i))
          = (\<exists>facts. flow_run (BuildStmtCFG body funcEnd) effs seeds edgeKills i facts \<and> (v, src) \<in> set facts))"
proof -
  obtain ins where "runDataflow (BuildStmtCFG body funcEnd) effs seeds edgeKills = Some ins"
    "length ins = length (cfgNodes (BuildStmtCFG body funcEnd))"
    "\<forall>i < length ins. \<forall>x. x \<in> set (ins ! i) \<longleftrightarrow> (\<exists>facts. flow_run (BuildStmtCFG body funcEnd) effs seeds edgeKills i facts \<and> x \<in> set facts)"
    using may_flow_walks by blast
  then show ?thesis using flow_run_node [of body funcEnd effs seeds edgeKills] by (intro exI [of _ ins]) auto
qed

text \<open>C39: the analysis of what holds on every path is exact where every statement can be reached and a statement copies
  to a variable from one other: runMustDataflow returns, and a variable is kept at a node exactly if
  every walk from the entry to that node holds it at its end.\<close>

theorem must_flow_exact:
  assumes "oneSource effs" "all_reached (BuildStmtCFG body funcEnd) effs seeds"
  shows "\<exists>ins. runMustDataflow (BuildStmtCFG body funcEnd) effs seeds = Some ins
     \<and> length ins = length (cfgNodes (BuildStmtCFG body funcEnd))
     \<and> (\<forall>i < length ins. \<forall>v. v \<in> set (ins ! i) \<longleftrightarrow> (\<forall>held. must_run (BuildStmtCFG body funcEnd) effs seeds i held \<longrightarrow> v \<in> set held))"
proof -
  obtain ins where r: "runMustDataflow (BuildStmtCFG body funcEnd) effs seeds = Some ins"
    "length ins = length (cfgNodes (BuildStmtCFG body funcEnd))"
    "\<forall>i held. must_run (BuildStmtCFG body funcEnd) effs seeds i held \<longrightarrow> set (ins ! i) \<subseteq> set held"
    using must_flow_sound by blast
  with must_flow_complete [OF assms r(1) _ r(2)] show ?thesis by (intro exI [of _ ins]) blast
qed

text \<open>The witness: a body with one statement, which generates a fact.\<close>

definition oneStatement :: Node where
  "oneStatement = TSNode ''compound_statement'' ''body'' True False ''{ free(p); }''
     \<lparr>posStartByte = 0, posEndByte = 12, posStartLine = 0, posStartColumn = 0, posEndLine = 0, posEndColumn = 12\<rparr>
     [TSNode ''expression_statement'' '''' True False ''free(p);''
        \<lparr>posStartByte = 2, posEndByte = 10, posStartLine = 0, posStartColumn = 2, posEndLine = 0, posEndColumn = 10\<rparr> []]"

definition oneGen :: "flowEffects option list" where
  "oneGen = [None, None, Some \<lparr>feGen = [''p''], feKill = [], feCopy = [], feFieldBase = [], feKillBase = []\<rparr>]"

lemma oneStatement_graph:
  "cfgEntry (BuildStmtCFG oneStatement 1) = 0" "map snSuccs (cfgNodes (BuildStmtCFG oneStatement 1)) = [[2], [], [1]]"
  by code_simp+

lemma oneStatement_succs:
  "length (cfgNodes (BuildStmtCFG oneStatement 1)) = 3" "snSuccs (cfgNodes (BuildStmtCFG oneStatement 1) ! 0) = [2]"
  "snSuccs (cfgNodes (BuildStmtCFG oneStatement 1) ! 2) = [1]"
proof -
  let ?ns = "cfgNodes (BuildStmtCFG oneStatement 1)"
  show l: "length ?ns = 3" using arg_cong [OF oneStatement_graph(2), of length] by simp
  show "snSuccs (?ns ! 0) = [2]" "snSuccs (?ns ! 2) = [1]"
    using nth_map [of 0 ?ns snSuccs] nth_map [of 2 ?ns snSuccs] l unfolding oneStatement_graph(2) by simp_all
qed

lemma oneStatement_reached: "all_reached (BuildStmtCFG oneStatement 1) oneGen []"
proof -
  let ?run = "must_run (BuildStmtCFG oneStatement 1) oneGen []"
  have 0: "?run 0 []" using must_run.enter [of "BuildStmtCFG oneStatement 1" oneGen "[]"] by (simp add: oneStatement_graph(1))
  from must_run.walk [OF 0, of 2] obtain h where 2: "?run 2 h" by (auto simp: oneStatement_succs)
  from must_run.walk [OF 2, of 1] obtain h' where 1: "?run 1 h'" by (auto simp: oneStatement_succs)
  have "\<exists>held. ?run i held" if "i < 3" for i :: nat
  proof -
    from that consider "i = 0" | "i = 1" | "i = 2" by linarith
    then show ?thesis using 0 1 2 by cases auto
  qed
  then show ?thesis by (simp add: all_reached_def oneStatement_succs(1))
qed

theorem must_flow_exact_witness:
  "\<exists>ins. runMustDataflow (BuildStmtCFG oneStatement 1) oneGen [] = Some ins
     \<and> {v. v \<in> set (ins ! 1)} = {v. \<not> (\<exists>held. must_run (BuildStmtCFG oneStatement 1) oneGen [] 1 held \<and> v \<notin> set held)}"
proof -
  have "oneSource oneGen" by (simp add: oneSource_def oneGen_def)
  from must_flow_exact [OF this oneStatement_reached] obtain ins where
    "runMustDataflow (BuildStmtCFG oneStatement 1) oneGen [] = Some ins" "length ins = 3"
    "\<forall>i < length ins. \<forall>v. v \<in> set (ins ! i) \<longleftrightarrow> (\<forall>held. must_run (BuildStmtCFG oneStatement 1) oneGen [] i held \<longrightarrow> v \<in> set held)"
    by (auto simp: oneStatement_succs(1))
  then show ?thesis by (intro exI [of _ ins]) auto
qed

end
