(* ===== verification/Freed_Facts.thy ===== *)
theory Freed_Facts
  imports Freed_Filters Fact_Flow_Facts Range_Verdicts
begin

text \<open>
  What the verdicts on freed memory mean: a use is dismissed exactly if no walk through the graph of its function
  brings a free of the variable to it, and becomes confirmed only if every walk from the entry does.  The
  concrete trees at the end show where the effects of a statement are not those of the code.
\<close>

section \<open>The effects copy from one source\<close>

lemma updates_distinct: "distinct (map fst m) \<Longrightarrow> distinct (map fst (fold (\<lambda>(lhs, rhs). AList.update lhs rhs) ps m))"
  by (induction ps arbitrary: m) (auto intro: distinct_update)

lemma assignmentEffects_distinct:
  "distinct (map fst (feCopy e)) \<Longrightarrow> distinct (map fst (feCopy (fold assignmentEffect ps e)))"
proof (induction ps arbitrary: e)
  case (Cons p ps)
  have "distinct (map fst (feCopy (assignmentEffect p e)))" using Cons.prems by (auto simp: assignmentEffect_def Let_def intro: distinct_update)
  then show ?case using Cons.IH by simp
qed simp

lemma outputKills_copy: "feCopy (fold (addOutputParamKills names) calls e) = feCopy e"
proof (induction calls arbitrary: e)
  case (Cons c calls)
  have "feCopy (addOutputParamKills names c e) = feCopy e" by (simp add: addOutputParamKills_def split: list.split)
  with Cons show ?case by simp
qed simp

lemma buildEffects_oneSource: "oneSource (buildEffects cfg genLines killLines copies names)"
proof -
  have "distinct (map fst (feCopy (collectNodeEffects genLines killLines copies names n)))" for n
    by (auto simp: collectNodeEffects_def outputKills_copy lineEffects_def intro!: assignmentEffects_distinct updates_distinct)
  then show ?thesis by (auto simp: oneSource_def buildEffects_def list_all_iff)
qed


section \<open>Results and walks\<close>

definition noEdgeKills :: "nat \<Rightarrow> nat \<Rightarrow> string list" where
  "noEdgeKills n m = []"

text \<open>A source reaches a line of a function if the statement there makes one, or a walk brings one there.\<close>

definition sourceReaches :: "StmtCFG \<Rightarrow> flowEffects option list \<Rightarrow> string \<Rightarrow> int \<Rightarrow> bool" where
  "sourceReaches cfg effs v line \<longleftrightarrow> (\<exists>n. NodeAt cfg line = Some n
     \<and> (v \<in> set (genAt effs (nat (snID n)))
        \<or> (\<exists>facts src. flow_run cfg effs [] noEdgeKills (nat (snID n)) facts \<and> (v, src) \<in> set facts)))"

definition sourceCertain :: "StmtCFG \<Rightarrow> flowEffects option list \<Rightarrow> string \<Rightarrow> int \<Rightarrow> bool" where
  "sourceCertain cfg effs v line \<longleftrightarrow> (\<exists>n. NodeAt cfg line = Some n
     \<and> (v \<in> set (genAt effs (nat (snID n))) \<or> (\<forall>held. must_run cfg effs [] (nat (snID n)) held \<longrightarrow> v \<in> set held)))"

lemma spans_line: "nodeAtSpans (snapshotSpans (BuildStmtCFG body funcEnd)) line 0 = map_option spanOf (NodeAt (BuildStmtCFG body funcEnd) line)"
  by (simp add: spans_mirror_lookup NodeAtColumn_def)

lemma found_node:
  assumes "NodeAt (BuildStmtCFG body funcEnd) line = Some n"
  shows "nat (snID n) < length (cfgNodes (BuildStmtCFG body funcEnd))"
  using wf_cfg_mem(1) [OF built_graph_wf NodeAt_mem [OF assms]] by (simp add: valid_id_def nat_less_iff)

lemma reaching_walks:
  "reaching (analyzeFlowMust (BuildStmtCFG body funcEnd) effs) v line = sourceReaches (BuildStmtCFG body funcEnd) effs v line"
proof (cases "NodeAt (BuildStmtCFG body funcEnd) line")
  case None
  then show ?thesis by (simp add: reaching_def analyzeFlowMust_def spans_line sourceReaches_def)
next
  case (Some n)
  let ?cfg = "BuildStmtCFG body funcEnd"
  obtain ins where r: "runDataflow ?cfg effs [] noEdgeKills = Some ins" "length ins = length (cfgNodes ?cfg)"
    "\<forall>i < length ins. \<forall>x. x \<in> set (ins ! i) \<longleftrightarrow> (\<exists>facts. flow_run ?cfg effs [] noEdgeKills i facts \<and> x \<in> set facts)"
    using may_flow_walks [of body funcEnd effs "[]" noEdgeKills] by blast
  have k: "(\<lambda>n m. []) = noEdgeKills" by (simp add: fun_eq_iff noEdgeKills_def)
  have "v \<in> fst ` set (ins ! nat (snID n)) \<longleftrightarrow> (\<exists>facts src. flow_run ?cfg effs [] noEdgeKills (nat (snID n)) facts \<and> (v, src) \<in> set facts)"
    using r(2,3) found_node [OF Some] by force
  with Some r(1) show ?thesis by (auto simp: reaching_def analyzeFlowMust_def spans_line sourceReaches_def spanOf_def k)
qed

lemma mustReaching_walks:
  assumes "mustReaching (analyzeFlowMust (BuildStmtCFG body funcEnd) effs) v line"
  shows "sourceCertain (BuildStmtCFG body funcEnd) effs v line"
proof -
  let ?cfg = "BuildStmtCFG body funcEnd"
  obtain ins where r: "runMustDataflow ?cfg effs [] = Some ins"
    "\<forall>i held. must_run ?cfg effs [] i held \<longrightarrow> set (ins ! i) \<subseteq> set held"
    using must_flow_sound [of body funcEnd effs "[]"] by blast
  then show ?thesis using assms by (auto simp: mustReaching_def analyzeFlowMust_def spans_line sourceCertain_def spanOf_def split: option.splits)
qed

lemma mustReaching_exact:
  assumes "oneSource effs" "all_reached (BuildStmtCFG body funcEnd) effs []"
  shows "mustReaching (analyzeFlowMust (BuildStmtCFG body funcEnd) effs) v line = sourceCertain (BuildStmtCFG body funcEnd) effs v line"
proof
  let ?cfg = "BuildStmtCFG body funcEnd"
  assume "sourceCertain ?cfg effs v line"
  then obtain n where n: "NodeAt ?cfg line = Some n" and h: "v \<in> set (genAt effs (nat (snID n))) \<or> (\<forall>held. must_run ?cfg effs [] (nat (snID n)) held \<longrightarrow> v \<in> set held)"
    by (auto simp: sourceCertain_def)
  obtain ins where r: "runMustDataflow ?cfg effs [] = Some ins" "length ins = length (cfgNodes ?cfg)"
    using must_flow_sound [of body funcEnd effs "[]"] by blast
  from must_flow_complete [OF assms r(1) _ r(2)] found_node [OF n] r(2) h
  have "v \<in> set (genAt effs (nat (snID n))) \<or> v \<in> set (ins ! nat (snID n))" by metis
  with n r(1) show "mustReaching (analyzeFlowMust ?cfg effs) v line"
    by (auto simp: mustReaching_def analyzeFlowMust_def spans_line spanOf_def)
qed (rule mustReaching_walks)


section \<open>The flows of the filters\<close>

definition freedEffects :: "freedStore \<Rightarrow> (int \<Rightarrow> lineMap) \<Rightarrow> (Node \<Rightarrow> lineMap) \<Rightarrow> Node \<Rightarrow> int \<Rightarrow> int \<Rightarrow> scopeNames \<Rightarrow> flowEffects option list" where
  "freedEffects store gensOf killsOf body funcEnd fid names = buildEffects (BuildStmtCFG body funcEnd) (gensOf fid) (killsOf body) [] names"

lemma freedFlow_other: "fid \<noteq> k \<Longrightarrow> map_of (fst (freedFlow store gensOf killsOf ids fid s)) k = map_of (fst s) k"
  by (cases s) (auto simp: freedFlow_def Let_def update_conv' split: option.split prod.split)

lemma freedFlow_own:
  assumes "functionOf (fdProgram store) ids fid = Some (fn, fl)" "Kind (bodyOf fl fn) = ''compound_statement''"
  shows "\<exists>names. map_of (fst (freedFlow store gensOf killsOf ids fid s)) fid
    = Some (analyzeFlowMust (BuildStmtCFG (bodyOf fl fn) (fnEndLine fn)) (freedEffects store gensOf killsOf (bodyOf fl fn) (fnEndLine fn) fid names))"
  using assms by (cases s) (auto simp: freedFlow_def Let_def update_conv' freedEffects_def split: prod.split)

lemma freedFlows_own:
  assumes "functionOf (fdProgram store) ids fid = Some (fn, fl)" "Kind (bodyOf fl fn) = ''compound_statement''" "fid \<in> set order"
  shows "\<exists>names. map_of (buildFreedFlows store gensOf killsOf ids order) fid
    = Some (analyzeFlowMust (BuildStmtCFG (bodyOf fl fn) (fnEndLine fn)) (freedEffects store gensOf killsOf (bodyOf fl fn) (fnEndLine fn) fid names))"
proof -
  have "\<exists>names. map_of (fst (fold (freedFlow store gensOf killsOf ids) order s)) fid
    = Some (analyzeFlowMust (BuildStmtCFG (bodyOf fl fn) (fnEndLine fn)) (freedEffects store gensOf killsOf (bodyOf fl fn) (fnEndLine fn) fid names))" for s
    using assms(3)
  proof (induction order arbitrary: s rule: rev_induct)
    case (snoc k order)
    then show ?case using freedFlow_own [OF assms(1,2)] freedFlow_other [of k fid] by (cases "k = fid") auto
  qed simp
  then show ?thesis by (simp add: buildFreedFlows_def)
qed


section \<open>Verdicts\<close>

text \<open>A candidate that a source reaches is kept; it becomes confirmed only if the source is certain and the free is not
  conditional, and where every statement can be reached exactly then.\<close>

definition keptVerdict :: "StmtCFG \<Rightarrow> flowEffects option list \<Rightarrow> Candidate \<Rightarrow> string + Candidate \<Rightarrow> bool" where
  "keptVerdict cfg effs c verdict \<longleftrightarrow>
     (verdict = Inr c \<or> verdict = Inr (c\<lparr>SuspicionLevel := ''confirmed''\<rparr>) \<and> \<not> MayFree c \<and> sourceCertain cfg effs (VariableName c) (Line c))
     \<and> (all_reached cfg effs [] \<longrightarrow>
          verdict = Inr (if \<not> MayFree c \<and> sourceCertain cfg effs (VariableName c) (Line c) then c\<lparr>SuspicionLevel := ''confirmed''\<rparr> else c))"

lemma freedEffects_oneSource: "oneSource (freedEffects store gensOf killsOf body funcEnd fid names)"
  unfolding freedEffects_def by (rule buildEffects_oneSource)

lemma keptVerdict_must:
  assumes "effs = freedEffects store gensOf killsOf body funcEnd fid names"
  shows "\<not> MayFree c \<Longrightarrow> mustReaching (analyzeFlowMust (BuildStmtCFG body funcEnd) effs) (VariableName c) (Line c)
      \<Longrightarrow> keptVerdict (BuildStmtCFG body funcEnd) effs c (Inr (c\<lparr>SuspicionLevel := ''confirmed''\<rparr>))"
    "MayFree c \<Longrightarrow> keptVerdict (BuildStmtCFG body funcEnd) effs c (Inr c)"
    "\<not> mustReaching (analyzeFlowMust (BuildStmtCFG body funcEnd) effs) (VariableName c) (Line c)
      \<Longrightarrow> keptVerdict (BuildStmtCFG body funcEnd) effs c (Inr c)"
  unfolding assms
  using mustReaching_walks [of body funcEnd] mustReaching_exact [OF freedEffects_oneSource, of body funcEnd] by (auto simp: keptVerdict_def)

lemma double_free_verdict:
  assumes "functionOf (fdProgram store) (candidateFuncIDs cs) (FunctionID c) = Some (fn, fl)"
    "Kind (bodyOf fl fn) = ''compound_statement''" "FunctionID c \<in> set order" "\<not> CrossFunction c"
  shows "\<exists>names. let cfg = BuildStmtCFG (bodyOf fl fn) (fnEndLine fn);
      effs = freedEffects store (doubleFreeGens store evs cs) doubleFreeKills (bodyOf fl fn) (fnEndLine fn) (FunctionID c) names;
      verdict = doubleFreeDecision (buildFreedFlows store (doubleFreeGens store evs cs) doubleFreeKills (candidateFuncIDs cs) order)
        (exclusiveFrees store evs cs) c in
     if sourceReaches cfg effs (VariableName c) (Line c) \<and> DerefEventID c \<notin> set (exclusiveFrees store evs cs)
     then keptVerdict cfg effs c verdict else (\<exists>why. verdict = Inl why)"
proof -
  obtain names where "map_of (buildFreedFlows store (doubleFreeGens store evs cs) doubleFreeKills (candidateFuncIDs cs) order) (FunctionID c)
    = Some (analyzeFlowMust (BuildStmtCFG (bodyOf fl fn) (fnEndLine fn))
        (freedEffects store (doubleFreeGens store evs cs) doubleFreeKills (bodyOf fl fn) (fnEndLine fn) (FunctionID c) names))"
    using freedFlows_own [OF assms(1-3)] by blast
  then show ?thesis using assms(4)
    by (intro exI [of _ names]) (auto simp: doubleFreeDecision_def reaching_walks Let_def intro: keptVerdict_must [OF refl])
qed


text \<open>The witness: free(p); return *p; in a function of one file.\<close>

definition freeCall :: Node where
  "freeCall = tinyNode ''call_expression'' '''' ''free(p)'' 1
     [tinyNode ''identifier'' ''function'' ''free'' 1 [], tinyNode ''argument_list'' ''arguments'' ''(p)'' 1 [tinyNode ''identifier'' '''' ''p'' 1 []]]"

definition freeBody :: Node where
  "freeBody = tinyNode ''compound_statement'' ''body'' '''' 0
     [tinyNode ''expression_statement'' '''' ''free(p);'' 1 [freeCall], tinyNode ''return_statement'' '''' ''return *p;'' 2 []]"

definition freeFile :: dbFile where
  "freeFile = \<lparr>dfID = 1, dfRoot = tinyNode ''translation_unit'' '''' '''' 0 [tinyNode ''function_definition'' '''' '''' 0 [freeBody]]\<rparr>"

definition freeStore :: freedStore where
  "freeStore = \<lparr>fdProgram = \<lparr>rsEvents = (\<lambda>ids. Inr []), rsFunctions = Some [divFunction], rsFiles = Some [freeFile],
     rsFunctionsByIDs = (\<lambda>ids. [(5, divFunction)])\<rparr>, fdReleases = Some [(1, ''free'')], fdAliases = Some [],
     fdRefs = Some [\<lparr>vrNode = 1, vrFunction = 5, vrName = ''p'', vrLine = 2\<rparr>]\<rparr>"

definition freeCandidate :: Candidate where
  "freeCandidate = plainCandidate 5 ''f'' ''p'' 3"

lemma free_function: "functionOf (fdProgram freeStore) (candidateFuncIDs [freeCandidate]) (FunctionID freeCandidate) = Some (divFunction, freeFile)"
  "bodyOf freeFile divFunction = freeBody"
  by code_simp+



section \<open>Effects that differ from those of the code\<close>

text \<open>free(p); if (c) { init(&p); } return *p;  The header collects the calls of its body, so it clears p on both edges and
  the use is dismissed although the path that skips the body frees p and then reads it.\<close>

definition initCall :: Node where
  "initCall = tinyNode ''call_expression'' '''' ''init(&p)'' 2
     [tinyNode ''identifier'' ''function'' ''init'' 2 [],
      tinyNode ''argument_list'' ''arguments'' ''(&p)'' 2 [tinyNode ''pointer_expression'' '''' ''&p'' 2 [tinyNode ''identifier'' ''argument'' ''p'' 2 []]]]"

definition guardedInit :: Node where
  "guardedInit = tinyNode ''if_statement'' '''' ''if (c) { init(&p); }'' 2
     [tinyNode ''parenthesized_expression'' ''condition'' ''(c)'' 2 [tinyNode ''identifier'' '''' ''c'' 2 []],
      tinyNode ''compound_statement'' ''consequence'' ''{ init(&p); }'' 2 [tinyNode ''expression_statement'' '''' ''init(&p);'' 2 [initCall]]]"

definition branchBody :: Node where
  "branchBody = tinyNode ''compound_statement'' ''body'' '''' 0
     [tinyNode ''expression_statement'' '''' ''free(p);'' 1 [freeCall], guardedInit,
      tinyNode ''return_statement'' '''' ''return *p;'' 3 []]"

definition branchEffects :: "flowEffects option list" where
  "branchEffects = buildEffects (BuildStmtCFG branchBody 4) [(2, [''p''])] [] [] (Some [])"

lemma header_kills_for_body:
  "map_option feKill (effAt branchEffects 3) = Some [''p'']" "map_option snID (NodeAt (BuildStmtCFG branchBody 4) 4) = Some 6"
  "map snSuccs (cfgNodes (BuildStmtCFG branchBody 4)) = [[2], [], [3], [5, 4], [6], [4], [1]]"
  "\<not> reaching (analyzeFlowMust (BuildStmtCFG branchBody 4) branchEffects) ''p'' 4"
  by code_simp+

text \<open>The oracle is remembered under the first byte of the body, which bodies of two files share.\<close>

lemma oracle_of_other_file:
  assumes "StartByte body = StartByte other" "scopeOracle otherRoot other cache = (names, cache')"
  shows "fst (scopeOracle root body cache') = names"
  using assms by (auto simp: scopeOracle_def Let_def split: option.splits)

text \<open>A write through p counts as a reassignment of p between two frees.\<close>

lemma store_counts_as_reassignment:
  "killTarget (tinyNode ''pointer_expression'' ''left'' ''*p'' 4 [tinyNode ''identifier'' ''argument'' ''p'' 4 []]) = ''p''"
  by code_simp

text \<open>Two ifs that compare a variable with different values are taken as exclusive although it is assigned between them,
  and although one of the frees is in an else branch.\<close>

definition eqIf :: "string \<Rightarrow> int \<Rightarrow> Node" where
  "eqIf value line = tinyNode ''if_statement'' '''' '''' line
     [tinyNode ''parenthesized_expression'' ''condition'' '''' line
        [tinyNode ''binary_expression'' '''' '''' line
           [tinyNode ''identifier'' ''left'' ''x'' line [], operatorLeaf ''=='', tinyNode ''number_literal'' ''right'' value line []]],
      tinyNode ''expression_statement'' ''consequence'' ''log();'' line [],
      tinyNode ''else_clause'' ''alternative'' '''' line [tinyNode ''expression_statement'' '''' ''free(p);'' line []]]"

lemma else_branches_taken_as_exclusive:
  "mutuallyExclusiveIfs (tinyNode ''compound_statement'' '''' '''' 0 [eqIf ''1'' 1, eqIf ''2'' 2]) 2 3"
  by code_simp

end
